(* ===== verification/NvrxPrelude.thy ===== *)
theory NvrxPrelude
  imports Complex_Main "HOL-Library.AList"
begin

text \<open>
  Shared vocabulary of the development: ordered dictionaries (Python's \<open>dict\<close>, an association
  list in insertion order), the fact collections the component proofs extend, and the generic
  lemmas on lists, options and finite sets of numbers that more than one component needs.
\<close>

named_theorems nvrx_defs \<open>definitions that component proofs unfold\<close>
named_theorems nvrx_simps \<open>rewrite rules that component proofs share\<close>

section \<open>Ordered dictionaries\<close>

text \<open>
  \<open>AList.update\<close> keeps the position of a key that is present and appends a new one at the
  end, and \<open>AList.delete\<close> removes a key, exactly as assignment and \<open>del\<close> do on a Python
  dictionary; \<open>map_of\<close> is lookup.
\<close>

type_synonym ('k, 'v) dict = "('k \<times> 'v) list"

definition dict_ok :: "('k, 'v) dict \<Rightarrow> bool" where
  "dict_ok d \<longleftrightarrow> distinct (map fst d)"

lemma dict_ok_Nil [simp]: "dict_ok []"
  by (simp add: dict_ok_def)

lemma dict_ok_update [simp]: "dict_ok d \<Longrightarrow> dict_ok (AList.update k v d)"
  by (simp add: dict_ok_def distinct_update)

lemma dict_ok_delete [simp]: "dict_ok d \<Longrightarrow> dict_ok (AList.delete k d)"
  by (simp add: dict_ok_def distinct_delete)

lemma update_not_Nil [simp]: "AList.update k v d \<noteq> []"
  by (cases d) auto

lemma delete_eq_Nil_iff: "AList.delete k d = [] \<longleftrightarrow> (\<forall>p \<in> set d. fst p = k)"
  by (induction d) (auto simp: AList.delete_eq)

lemma update_new: "k \<notin> fst ` set d \<Longrightarrow> AList.update k v d = d @ [(k, v)]"
  by (induction d) auto

lemma set_update_subset: "set (AList.update k v d) \<subseteq> insert (k, v) (set d)"
  by (induction d) (auto split: if_splits)

lemma keys_update: "fst ` set (AList.update k v d) = insert k (fst ` set d)"
  by (induction d) auto

lemma fold_update_by_key:
  "distinct (map f xs) \<Longrightarrow> f ` set xs \<inter> fst ` set d = {} \<Longrightarrow>
    fold (\<lambda>x. AList.update (f x) (g x)) xs d = d @ map (\<lambda>x. (f x, g x)) xs"
proof (induction xs arbitrary: d)
  case (Cons x xs)
  then have "AList.update (f x) (g x) d = d @ [(f x, g x)]" by (intro update_new) auto
  then show ?case using Cons by auto
qed simp

section \<open>Errors as values\<close>

text \<open>
  A computation that may raise is a value of \<open>'e + 'a\<close>, with \<open>Inl\<close> for the exception;
  \<open>res_bind\<close> is sequencing, and \<open>res_map\<close> runs a fallible function along a list, stopping at
  the first exception as a Python loop does.
\<close>

definition res_bind :: "'e + 'a \<Rightarrow> ('a \<Rightarrow> 'e + 'b) \<Rightarrow> 'e + 'b" where
  "res_bind r f = (case r of Inl e \<Rightarrow> Inl e | Inr x \<Rightarrow> f x)"

lemma res_bind_simps [simp]:
  "res_bind (Inl e) f = Inl e"
  "res_bind (Inr x) f = f x"
  by (simp_all add: res_bind_def)

lemma res_bind_eq_Inr: "res_bind r f = Inr y \<longleftrightarrow> (\<exists>x. r = Inr x \<and> f x = Inr y)"
  by (cases r) auto

fun res_map :: "('a \<Rightarrow> 'e + 'b) \<Rightarrow> 'a list \<Rightarrow> 'e + 'b list" where
  "res_map f [] = Inr []"
| "res_map f (x # xs) = res_bind (f x) (\<lambda>y. res_bind (res_map f xs) (\<lambda>ys. Inr (y # ys)))"

lemma res_map_Inr:
  "res_map f xs = Inr ys \<longleftrightarrow> list_all2 (\<lambda>x y. f x = Inr y) xs ys"
  by (induction xs arbitrary: ys) (auto simp: res_bind_eq_Inr list_all2_Cons1)

lemma res_map_total: "(\<And>x. x \<in> set xs \<Longrightarrow> f x = Inr (g x)) \<Longrightarrow> res_map f xs = Inr (map g xs)"
  by (induction xs) auto

definition res_lookup :: "'e \<Rightarrow> ('k, 'v) dict \<Rightarrow> 'k \<Rightarrow> 'e + 'v" where
  "res_lookup e d k = (case map_of d k of None \<Rightarrow> Inl e | Some v \<Rightarrow> Inr v)"

lemma res_lookup_Inr [simp]: "res_lookup e d k = Inr v \<longleftrightarrow> map_of d k = Some v"
  by (simp add: res_lookup_def split: option.splits)

section \<open>Rank gaps\<close>

text \<open>
  The number of members of a set of vacated indices below an index: what the rank shifting code
  subtracts. Closing the gaps this way is the order isomorphism of the survivors onto an initial
  segment, which several components rely on.
\<close>

definition gaps_below :: "int set \<Rightarrow> int \<Rightarrow> int" where
  "gaps_below G r = int (card {g \<in> G. g < r})"

lemma shifted_strict_mono:
  assumes "a < b" and "a \<notin> G" and "finite G"
  shows "a - gaps_below G a < b - gaps_below G b"
proof -
  have "{g \<in> G. g < b} \<subseteq> {g \<in> G. g < a} \<union> {a + 1..<b}"
  proof
    fix g assume "g \<in> {g \<in> G. g < b}"
    then show "g \<in> {g \<in> G. g < a} \<union> {a + 1..<b}"
      using assms(2) by (cases g a rule: linorder_cases) auto
  qed
  then have "card {g \<in> G. g < b} \<le> card ({g \<in> G. g < a} \<union> {a + 1..<b})"
    using assms(3) by (intro card_mono) auto
  also have "\<dots> \<le> card {g \<in> G. g < a} + card {a + 1..<b}"
    by (rule card_Un_le)
  finally have "gaps_below G b \<le> gaps_below G a + (b - (a + 1))"
    using assms(1) by (simp add: gaps_below_def)
  then show ?thesis by linarith
qed

lemma shifted_inj: "finite G \<Longrightarrow> inj_on (\<lambda>r. r - gaps_below G r) (- G)"
proof (rule inj_onI)
  fix a b assume "finite G" "a \<in> - G" "b \<in> - G" "a - gaps_below G a = b - gaps_below G b"
  then show "a = b"
    using shifted_strict_mono [of a b G] shifted_strict_mono [of b a G]
    by (cases a b rule: linorder_cases) auto
qed

lemma gaps_below_le:
  assumes "G \<subseteq> {0..}" and "0 \<le> r"
  shows "gaps_below G r \<le> r"
proof -
  have "card {g \<in> G. g < r} \<le> card {0..<r}"
    using assms(1) by (intro card_mono) auto
  then show ?thesis using assms(2) by (simp add: gaps_below_def)
qed

lemma shifted_range:
  assumes "r \<in> {0..<n} - G" and "G \<subseteq> {0..<n}"
  shows "r - gaps_below G r \<in> {0..<n - int (card G)}"
proof -
  have fin: "finite G" using assms(2) finite_subset by blast
  have "{g \<in> G. g < n} = G" using assms(2) by auto
  then have "gaps_below G n = int (card G)" by (simp add: gaps_below_def)
  moreover have "gaps_below G r \<le> r" using assms by (intro gaps_below_le) auto
  ultimately show ?thesis using shifted_strict_mono [of r n G] fin assms(1) by simp
qed

lemma card_int_diff:
  "G \<subseteq> {0..<n} \<Longrightarrow> int (card ({0..<n} - G)) = max 0 (n - int (card G))"
  using card_mono [of "{0..<n}" G] by (cases "0 \<le> n") (simp_all add: card_Diff_subset finite_subset)

lemma shifted_bij:
  assumes "G \<subseteq> {0..<n}"
  shows "bij_betw (\<lambda>r. r - gaps_below G r) ({0..<n} - G) {0..<n - int (card G)}"
proof -
  let ?f = "\<lambda>r. r - gaps_below G r"
  have fin: "finite G" using assms finite_subset by blast
  have inj: "inj_on ?f ({0..<n} - G)"
    using shifted_inj [OF fin] by (rule inj_on_subset) auto
  have "?f ` ({0..<n} - G) = {0..<n - int (card G)}"
  proof (rule card_subset_eq)
    show "?f ` ({0..<n} - G) \<subseteq> {0..<n - int (card G)}"
      using shifted_range assms by blast
    have "int (card (?f ` ({0..<n} - G))) = max 0 (n - int (card G))"
      using card_image [OF inj] card_int_diff [OF assms] by simp
    then show "card (?f ` ({0..<n} - G)) = card {0..<n - int (card G)}" by simp
  qed simp
  then show ?thesis using inj by (simp add: bij_betw_def)
qed

lemma sort_key_sorted: "sorted (map f xs) \<Longrightarrow> sort_key f xs = xs"
  by (induction xs) (simp_all add: insort_is_Cons)

end
