(* ===== verification/RankMonitorSM.thy ===== *)
theory RankMonitorSM
  imports NvrxPrelude
begin

text \<open>
  The nested-restarter state machine of one rank monitor,
  \<open>fault_tolerance/rank_monitor_state_machine.py\<close>. The machine is the current state together
  with the restarter events it has logged, oldest first. A handler returns the machine it leaves
  behind and the exception it raised, if any: Python keeps the effects made before a \<open>raise\<close>.
\<close>

section \<open>State and transition table\<close>

datatype rm_state =
    UNINITIALIZED | INITIALIZE | HANDLING_START | HANDLING_PROCESSING
  | HANDLING_COMPLETED | FINALIZED | ABORTED

datatype rm_error = InvalidStateTransition rm_state rm_state | UnexpectedCall rm_state

text \<open>\<open>sm_events\<close> are the arguments of \<open>log_restarter_event\<close>: a state entered, or the
  refused transition that is reported just before the exception.\<close>

datatype rm_event = Entered rm_state | Refused rm_state rm_state

record rm_machine =
  sm_state :: rm_state
  sm_events :: "rm_event list"

type_synonym rm_result = "rm_machine \<times> rm_error option"

definition rm_init :: rm_machine where
  "rm_init = \<lparr>sm_state = UNINITIALIZED, sm_events = []\<rparr>"

definition is_restarting :: "rm_machine \<Rightarrow> bool" where
  "is_restarting m \<longleftrightarrow> sm_state m \<in> {HANDLING_START, HANDLING_PROCESSING}"

fun allowed_transitions :: "rm_state \<Rightarrow> rm_state list" where
  "allowed_transitions UNINITIALIZED = [INITIALIZE, FINALIZED]"
| "allowed_transitions INITIALIZE = [HANDLING_START, FINALIZED]"
| "allowed_transitions HANDLING_START = [HANDLING_COMPLETED, HANDLING_PROCESSING, ABORTED]"
| "allowed_transitions HANDLING_PROCESSING = [HANDLING_COMPLETED, HANDLING_PROCESSING, ABORTED]"
| "allowed_transitions HANDLING_COMPLETED = [HANDLING_START, FINALIZED]"
| "allowed_transitions ABORTED = [FINALIZED]"
| "allowed_transitions FINALIZED = [FINALIZED]"

definition can_transition_to :: "rm_machine \<Rightarrow> rm_state \<Rightarrow> bool" where
  "can_transition_to m s \<longleftrightarrow> s \<in> set (allowed_transitions (sm_state m))"

text \<open>\<open>_log_state_transition\<close> has one message per state but UNINITIALIZED, for which it logs
  nothing.\<close>

definition log_state_transition :: "rm_state \<Rightarrow> rm_machine \<Rightarrow> rm_machine" where
  "log_state_transition s m =
     (if s = UNINITIALIZED then m else m\<lparr>sm_events := sm_events m @ [Entered s]\<rparr>)"

definition transition_to :: "rm_state \<Rightarrow> rm_machine \<Rightarrow> rm_result" where
  "transition_to s m =
     (if can_transition_to m s
      then ((log_state_transition s m)\<lparr>sm_state := s\<rparr>, None)
      else (m\<lparr>sm_events := sm_events m @ [Refused (sm_state m) s]\<rparr>,
            Some (InvalidStateTransition (sm_state m) s)))"

section \<open>Handlers\<close>

definition handle_msg :: "rm_machine \<Rightarrow> rm_result" where
  "handle_msg m =
     (if sm_state m = UNINITIALIZED then transition_to INITIALIZE m
      else if sm_state m \<in> {HANDLING_START, HANDLING_PROCESSING}
      then transition_to HANDLING_COMPLETED m
      else if sm_state m \<in> {INITIALIZE, HANDLING_COMPLETED} then (m, None)
      else (m, Some (UnexpectedCall (sm_state m))))"

definition handle_heartbeat_msg :: "rm_machine \<Rightarrow> rm_result" where
  "handle_heartbeat_msg m = handle_msg m"

definition handle_section_msg :: "rm_machine \<Rightarrow> rm_result" where
  "handle_section_msg m = handle_msg m"

definition periodic_restart_check :: "rm_machine \<Rightarrow> rm_result" where
  "periodic_restart_check m =
     (if sm_state m \<in> {HANDLING_START, HANDLING_PROCESSING}
      then transition_to HANDLING_PROCESSING m
      else (m, Some (UnexpectedCall (sm_state m))))"

definition handle_ipc_connection_lost :: "rm_machine \<Rightarrow> rm_result" where
  "handle_ipc_connection_lost m =
     (if sm_state m \<in> {INITIALIZE, HANDLING_COMPLETED} then transition_to HANDLING_START m
      else if sm_state m \<in> {HANDLING_START, HANDLING_PROCESSING} then transition_to ABORTED m
      else if sm_state m = ABORTED then (m, None)
      else if sm_state m = UNINITIALIZED then (m, None)
      else if sm_state m = FINALIZED then (m, None)
      else (m, Some (UnexpectedCall (sm_state m))))"

definition handle_signal :: "rm_machine \<Rightarrow> rm_result" where
  "handle_signal m =
     (if sm_state m \<in> {HANDLING_START, HANDLING_PROCESSING} then transition_to ABORTED m
      else if sm_state m = UNINITIALIZED then (m, None)
      else transition_to FINALIZED m)"

section \<open>Runs\<close>

datatype rm_input = Heartbeat | SectionMsg | RestartCheck | IpcLost | Signal

fun rm_step :: "rm_input \<Rightarrow> rm_machine \<Rightarrow> rm_result" where
  "rm_step Heartbeat m = handle_heartbeat_msg m"
| "rm_step SectionMsg m = handle_section_msg m"
| "rm_step RestartCheck m = periodic_restart_check m"
| "rm_step IpcLost m = handle_ipc_connection_lost m"
| "rm_step Signal m = handle_signal m"

text \<open>An exception leaves the handler but not the monitor: its callers log it and go on.\<close>

fun rm_run :: "rm_input list \<Rightarrow> rm_machine \<Rightarrow> rm_machine" where
  "rm_run [] m = m"
| "rm_run (i # is) m = rm_run is (fst (rm_step i m))"

inductive rm_reachable :: "rm_machine \<Rightarrow> bool" where
  start: "rm_reachable rm_init"
| input: "rm_reachable m \<Longrightarrow> rm_reachable (fst (rm_step i m))"

lemmas rm_handler_defs = handle_heartbeat_msg_def handle_section_msg_def handle_msg_def
  periodic_restart_check_def handle_ipc_connection_lost_def handle_signal_def

lemmas rm_transition_defs = transition_to_def can_transition_to_def log_state_transition_def

lemma rm_run_reachable: "rm_reachable m \<Longrightarrow> rm_reachable (rm_run is m)"
  by (induction "is" arbitrary: m) (auto intro: rm_reachable.input)

section \<open>Properties\<close>

text \<open>Every handler either keeps the state or takes an edge of the table.\<close>

lemma rm_step_edge:
  "sm_state (fst (rm_step i m)) = sm_state m \<or>
   sm_state (fst (rm_step i m)) \<in> set (allowed_transitions (sm_state m))"
  by (cases i; cases "sm_state m")
     (simp_all add: rm_handler_defs rm_transition_defs)

text \<open>
  no handler ever attempts a transition its table forbids. Whatever the state and the input,
  \<open>InvalidStateTransitionException\<close> is not raised; the only exception is the \<open>AssertionError\<close> of a
  message that arrives after the machine is aborted or finalized, or of a restart check outside
  handling, and a handler that raises changes neither the state nor the log.
\<close>

theorem rm_handlers_never_invalid:
  "snd (rm_step i m) =
     (if i \<in> {Heartbeat, SectionMsg} \<and> sm_state m \<in> {ABORTED, FINALIZED}
         \<or> i = RestartCheck \<and> sm_state m \<notin> {HANDLING_START, HANDLING_PROCESSING}
      then Some (UnexpectedCall (sm_state m)) else None)
   \<and> (snd (rm_step i m) = None \<or> fst (rm_step i m) = m)"
  by (cases i; cases "sm_state m")
     (simp_all add: rm_handler_defs rm_transition_defs)

text \<open>
  The restarter log as a path of the transition table: from a state, through the states entered,
  to a state. A refusal is on no path.
\<close>

fun rm_path :: "rm_state \<Rightarrow> rm_event list \<Rightarrow> rm_state \<Rightarrow> bool" where
  "rm_path s [] t = (s = t)"
| "rm_path s (Entered u # es) t = (u \<in> set (allowed_transitions s) \<and> rm_path u es t)"
| "rm_path s (Refused a b # es) t = False"

lemma rm_path_snoc:
  "rm_path s es t \<Longrightarrow> u \<in> set (allowed_transitions t) \<Longrightarrow> rm_path s (es @ [Entered u]) u"
  by (induction s es t rule: rm_path.induct) auto

lemma rm_step_path:
  assumes "rm_path UNINITIALIZED (sm_events m) (sm_state m)"
  shows "rm_path UNINITIALIZED (sm_events (fst (rm_step i m))) (sm_state (fst (rm_step i m)))"
  using assms
  by (cases i; cases "sm_state m")
     (simp_all add: rm_handler_defs rm_transition_defs rm_path_snoc)

lemma rm_first_entry:
  assumes "rm_reachable m"
  shows "sm_events m = [] \<and> sm_state m = UNINITIALIZED
         \<or> (\<exists>es. sm_events m = Entered INITIALIZE # es) \<and> sm_state m \<noteq> UNINITIALIZED"
  using assms
proof (induction rule: rm_reachable.induct)
  case start
  show ?case by (simp add: rm_init_def)
next
  case (input m i)
  then show ?case
    by (cases i; cases "sm_state m")
       (auto simp: rm_handler_defs rm_transition_defs)
qed

text \<open>
  The restarter log of every reachable machine is a path of the transition table from
  \<open>UNINITIALIZED\<close> to the current state, with no refused transition in it, and its first entry is
  \<open>INITIALIZE\<close>: the table's edge from \<open>UNINITIALIZED\<close> to \<open>FINALIZED\<close> is never taken.
\<close>

theorem rm_log_is_path:
  assumes "rm_reachable m"
  shows "rm_path UNINITIALIZED (sm_events m) (sm_state m)
         \<and> (sm_events m = [] \<or> hd (sm_events m) = Entered INITIALIZE)"
proof
  show "rm_path UNINITIALIZED (sm_events m) (sm_state m)"
    using assms
  proof (induction rule: rm_reachable.induct)
    case start
    show ?case by (simp add: rm_init_def)
  next
    case (input m i)
    then show ?case by (intro rm_step_path)
  qed
  show "sm_events m = [] \<or> hd (sm_events m) = Entered INITIALIZE"
    using rm_first_entry [OF assms] by auto
qed

definition rm_demo_inputs :: "rm_input list" where
  "rm_demo_inputs = [Heartbeat, IpcLost, RestartCheck, SectionMsg, Signal]"

theorem rm_log_is_path_witness:
  "rm_path UNINITIALIZED (sm_events (rm_run rm_demo_inputs rm_init))
     (sm_state (rm_run rm_demo_inputs rm_init))
   \<and> sm_state (rm_run rm_demo_inputs rm_init) = FINALIZED"
proof
  have "rm_reachable (rm_run rm_demo_inputs rm_init)"
    by (intro rm_run_reachable rm_reachable.start)
  then show "rm_path UNINITIALIZED (sm_events (rm_run rm_demo_inputs rm_init))
     (sm_state (rm_run rm_demo_inputs rm_init))"
    using rm_log_is_path by blast
  show "sm_state (rm_run rm_demo_inputs rm_init) = FINALIZED"
    by (simp add: rm_demo_inputs_def rm_init_def rm_handler_defs rm_transition_defs)
qed

lemma rm_run_aborted:
  "sm_state m \<in> {ABORTED, FINALIZED} \<Longrightarrow> sm_state (rm_run is m) \<in> {ABORTED, FINALIZED}"
proof (induction "is" arbitrary: m)
  case Nil
  then show ?case by simp
next
  case (Cons i "is")
  have "sm_state (fst (rm_step i m)) \<in> {ABORTED, FINALIZED}"
    using Cons.prems by (cases i; auto simp: rm_handler_defs rm_transition_defs)
  then show ?case using Cons.IH by simp
qed

lemma rm_run_finalized: "sm_state m = FINALIZED \<Longrightarrow> sm_state (rm_run is m) = FINALIZED"
proof (induction "is" arbitrary: m)
  case Nil
  then show ?case by simp
next
  case (Cons i "is")
  have "sm_state (fst (rm_step i m)) = FINALIZED"
    using Cons.prems by (cases i; simp add: rm_handler_defs rm_transition_defs)
  then show ?case using Cons.IH by simp
qed

text \<open>
  An abort is final. Once the machine is aborted it never handles a restart again: whatever
  inputs follow, it is aborted or finalized and never restarting; one signal finalizes it for
  good.
\<close>

theorem rm_abort_is_final:
  assumes "sm_state m = ABORTED"
  shows "sm_state (rm_run is m) \<in> {ABORTED, FINALIZED}
         \<and> \<not> is_restarting (rm_run is m)
         \<and> (Signal \<in> set is \<longrightarrow> sm_state (rm_run is m) = FINALIZED)"
proof (intro conjI impI)
  show "sm_state (rm_run is m) \<in> {ABORTED, FINALIZED}"
    using rm_run_aborted assms by simp
  then show "\<not> is_restarting (rm_run is m)" by (auto simp: is_restarting_def)
  assume "Signal \<in> set is"
  then show "sm_state (rm_run is m) = FINALIZED"
    using assms
  proof (induction "is" arbitrary: m)
    case Nil
    then show ?case by simp
  next
    case (Cons i "is")
    show ?case
    proof (cases "i = Signal")
      case True
      then show ?thesis
        using Cons.prems by (simp add: rm_run_finalized rm_handler_defs rm_transition_defs)
    next
      case False
      then have "sm_state (fst (rm_step i m)) = ABORTED" and "Signal \<in> set is"
        using Cons.prems by (cases i; simp add: rm_handler_defs rm_transition_defs)+
      then show ?thesis using Cons.IH by simp
    qed
  qed
qed

theorem rm_abort_is_final_witness:
  "sm_state (rm_run [IpcLost, Heartbeat, Signal, SectionMsg]
     \<lparr>sm_state = ABORTED, sm_events = []\<rparr>) = FINALIZED"
  using rm_abort_is_final [of "\<lparr>sm_state = ABORTED, sm_events = []\<rparr>"
      "[IpcLost, Heartbeat, Signal, SectionMsg]"]
  by simp

end
