(* ===== verification/FtTimeouts.thy ===== *)
theory FtTimeouts
  imports NvrxPrelude
begin

text \<open>
  Timeout values and their calculation: the data classes of \<open>fault_tolerance/data.py\<close> that carry
  heartbeat and section timeouts, and \<open>TimeoutsCalc\<close> of \<open>fault_tolerance/timeouts_calc.py\<close>.
  Times are real numbers of seconds (the code's floats, rounding aside); a reading of
  \<open>time.monotonic()\<close> is the argument \<open>now\<close>.
\<close>

section \<open>Timeout records\<close>

record hb_timeouts =
  ht_initial :: "real option"
  ht_subsequent :: "real option"
  ht_were_calculated :: "bool option"

definition hb_are_valid :: "hb_timeouts \<Rightarrow> bool" where
  "hb_are_valid t \<longleftrightarrow> ht_initial t \<noteq> None \<and> ht_subsequent t \<noteq> None"

record section_timeouts =
  st_section :: "(string, real option) dict"
  st_out_of_section :: "real option"
  st_calculated_sections :: "string set"
  st_is_oos_calculated :: bool

definition st_were_calculated :: "section_timeouts \<Rightarrow> bool" where
  "st_were_calculated t \<longleftrightarrow>
     st_calculated_sections t = fst ` set (st_section t) \<and> st_is_oos_calculated t"

definition st_are_valid :: "section_timeouts \<Rightarrow> bool" where
  "st_are_valid t \<longleftrightarrow>
     (\<forall>p \<in> set (st_section t). snd p \<noteq> None) \<and> st_out_of_section t \<noteq> None"

datatype section_action = OPEN | CLOSE | CLOSE_ALL

section \<open>The calculator\<close>

datatype tc_error =
    AlreadyOpen "string option" | NotOpen "string option" | UnknownSection string
  | NotEnoughData | GroupNotInitialized | TcKeyError | TcTypeError | TcIndexError
  | TcAssertion

record timeouts_calc =
  tc_start_time :: real
  tc_prev_hb_time :: "real option"
  tc_count :: nat
  tc_initial_max :: real
  tc_subsequent_max :: real
  tc_safety_factor :: real
  tc_open_sections :: "(string option, real) dict"
  tc_last_close :: real
  tc_oos_max :: real
  tc_section_max :: "(string, real) dict"

definition tc_new :: "string list option \<Rightarrow> real \<Rightarrow> real \<Rightarrow> timeouts_calc" where
  "tc_new sections start_time safety_factor =
     \<lparr>tc_start_time = start_time, tc_prev_hb_time = None, tc_count = 0,
      tc_initial_max = -1, tc_subsequent_max = -1, tc_safety_factor = safety_factor,
      tc_open_sections = [], tc_last_close = start_time, tc_oos_max = -1,
      tc_section_max =
        (case sections of
           None \<Rightarrow> []
         | Some names \<Rightarrow> fold (\<lambda>n d. AList.update n (-1) d) names [])\<rparr>"

definition tc_reset_start_time :: "real \<Rightarrow> timeouts_calc \<Rightarrow> timeouts_calc" where
  "tc_reset_start_time now c = c\<lparr>tc_start_time := now\<rparr>"

definition tc_update_on_heartbeat :: "real \<Rightarrow> timeouts_calc \<Rightarrow> tc_error + timeouts_calc" where
  "tc_update_on_heartbeat hb_time c =
     (if tc_count c = 0
      then Inr (c\<lparr>tc_initial_max := max (tc_initial_max c) (hb_time - tc_start_time c),
                  tc_count := tc_count c + 1, tc_prev_hb_time := Some hb_time\<rparr>)
      else case tc_prev_hb_time c of
             None \<Rightarrow> Inl TcTypeError
           | Some p \<Rightarrow>
               Inr (c\<lparr>tc_subsequent_max := max (tc_subsequent_max c) (hb_time - p),
                      tc_count := tc_count c + 1, tc_prev_hb_time := Some hb_time\<rparr>))"

definition tc_is_out_of_section :: "timeouts_calc \<Rightarrow> bool" where
  "tc_is_out_of_section c \<longleftrightarrow> tc_open_sections c = []"

definition tc_maybe_bump_oos_time :: "real \<Rightarrow> timeouts_calc \<Rightarrow> timeouts_calc" where
  "tc_maybe_bump_oos_time now c =
     (if tc_is_out_of_section c
      then c\<lparr>tc_oos_max := max (tc_oos_max c) (now - tc_last_close c)\<rparr>
      else c)"

definition tc_open_section ::
    "string option \<Rightarrow> real \<Rightarrow> timeouts_calc \<Rightarrow> timeouts_calc \<times> tc_error option" where
  "tc_open_section sec t c =
     (if map_of (tc_open_sections c) sec \<noteq> None then (c, Some (AlreadyOpen sec))
      else (let c1 = tc_maybe_bump_oos_time t c
            in (c1\<lparr>tc_open_sections := AList.update sec t (tc_open_sections c1)\<rparr>, None)))"

text \<open>
  Closing reads the section's entry before it writes anything. A section that is open but has no
  entry (only \<open>None\<close> can be one) is the \<open>KeyError\<close> of that read.
\<close>

definition tc_close_section ::
    "string option \<Rightarrow> real \<Rightarrow> timeouts_calc \<Rightarrow> timeouts_calc \<times> tc_error option" where
  "tc_close_section sec t c =
     (case map_of (tc_open_sections c) sec of
        None \<Rightarrow> (c, Some (NotOpen sec))
      | Some opened \<Rightarrow>
          (case sec of
             None \<Rightarrow> (c, Some TcKeyError)
           | Some name \<Rightarrow>
               (case map_of (tc_section_max c) name of
                  None \<Rightarrow> (c, Some TcKeyError)
                | Some m \<Rightarrow>
                    (let op = AList.delete sec (tc_open_sections c);
                         c1 = c\<lparr>tc_section_max :=
                                  AList.update name (max m (t - opened)) (tc_section_max c),
                                tc_open_sections := op\<rparr>
                     in (if op = [] then c1\<lparr>tc_last_close := t\<rparr> else c1, None)))))"

fun tc_close_list ::
    "string option list \<Rightarrow> real \<Rightarrow> timeouts_calc \<Rightarrow> timeouts_calc \<times> tc_error option" where
  "tc_close_list [] t c = (c, None)"
| "tc_close_list (s # ss) t c =
     (case tc_close_section s t c of
        (c', None) \<Rightarrow> tc_close_list ss t c'
      | (c', Some e) \<Rightarrow> (c', Some e))"

definition tc_section_dispatch ::
    "string option \<Rightarrow> section_action \<Rightarrow> real \<Rightarrow> timeouts_calc
       \<Rightarrow> timeouts_calc \<times> tc_error option" where
  "tc_section_dispatch sec action t c =
     (case action of
        OPEN \<Rightarrow> tc_open_section sec t c
      | CLOSE \<Rightarrow> tc_close_section sec t c
      | CLOSE_ALL \<Rightarrow> tc_close_list (map fst (tc_open_sections c)) t c)"

definition tc_update_on_section_event ::
    "string option \<Rightarrow> section_action \<Rightarrow> real \<Rightarrow> timeouts_calc
       \<Rightarrow> timeouts_calc \<times> tc_error option" where
  "tc_update_on_section_event sec action t c =
     (case sec of
        Some name \<Rightarrow>
          if map_of (tc_section_max c) name = None then (c, Some (UnknownSection name))
          else tc_section_dispatch sec action t c
      | None \<Rightarrow> tc_section_dispatch sec action t c)"

definition tc_ema :: "real \<Rightarrow> real \<Rightarrow> real \<Rightarrow> real" where
  "tc_ema x cur alpha = alpha * x + (1 - alpha) * cur"

text \<open>An average of optional values; arithmetic on \<open>None\<close> is a \<open>TypeError\<close>.\<close>

definition tc_ema_opt :: "real option \<Rightarrow> real option \<Rightarrow> tc_error + real option" where
  "tc_ema_opt x cur =
     (case (x, cur) of
        (Some a, Some b) \<Rightarrow> Inr (Some (tc_ema a b (1 / 2)))
      | _ \<Rightarrow> Inl TcTypeError)"

definition tc_can_get_hb_timeouts :: "timeouts_calc \<Rightarrow> bool" where
  "tc_can_get_hb_timeouts c \<longleftrightarrow> 0 < tc_initial_max c \<and> 0 < tc_subsequent_max c"

definition tc_get_hb_timeouts ::
    "hb_timeouts option \<Rightarrow> timeouts_calc \<Rightarrow> tc_error + hb_timeouts" where
  "tc_get_hb_timeouts current c =
     (if \<not> tc_can_get_hb_timeouts c then Inl NotEnoughData
      else let ini = tc_safety_factor c * tc_initial_max c;
               subs = tc_safety_factor c * tc_subsequent_max c
           in case current of
                None \<Rightarrow> Inr \<lparr>ht_initial = Some ini, ht_subsequent = Some subs,
                             ht_were_calculated = Some True\<rparr>
              | Some cur \<Rightarrow>
                  if ht_were_calculated cur = Some True
                  then (if \<not> hb_are_valid cur then Inl TcAssertion
                        else res_bind (tc_ema_opt (Some ini) (ht_initial cur)) (\<lambda>i.
                             res_bind (tc_ema_opt (Some subs) (ht_subsequent cur)) (\<lambda>s.
                               Inr \<lparr>ht_initial = i, ht_subsequent = s,
                                    ht_were_calculated = Some True\<rparr>)))
                  else Inr \<lparr>ht_initial = Some ini, ht_subsequent = Some subs,
                            ht_were_calculated = Some True\<rparr>)"

text \<open>
  \<open>selected if selected else all\<close> treats an empty selection as no selection. \<open>all(...)\<close> stops
  at the first section without enough data, so a selected name that is unknown is the \<open>KeyError\<close>
  only if it is reached.
\<close>

fun tc_all_measured :: "(string, real) dict \<Rightarrow> string list \<Rightarrow> tc_error + bool" where
  "tc_all_measured d [] = Inr True"
| "tc_all_measured d (n # ns) =
     res_bind (res_lookup TcKeyError d n)
       (\<lambda>v. if 0 < v then tc_all_measured d ns else Inr False)"

definition tc_can_get_section_timeouts ::
    "string list option \<Rightarrow> bool \<Rightarrow> timeouts_calc \<Rightarrow> tc_error + bool" where
  "tc_can_get_section_timeouts selected calc_oos c =
     (let names = (case selected of
                     Some (n # ns) \<Rightarrow> n # ns
                   | _ \<Rightarrow> map fst (tc_section_max c))
      in res_bind (tc_all_measured (tc_section_max c) names) (\<lambda>can1.
           Inr (can1 \<and> (calc_oos \<longrightarrow> 0 < tc_oos_max c))))"

definition tc_merge_one ::
    "section_timeouts \<Rightarrow> section_timeouts \<Rightarrow> string \<times> real option
       \<Rightarrow> tc_error + (string \<times> real option)" where
  "tc_merge_one new cur p =
     (case p of (se, v) \<Rightarrow>
        if se \<in> st_calculated_sections cur \<and> se \<in> st_calculated_sections new
        then res_bind (res_lookup TcKeyError (st_section cur) se) (\<lambda>old.
             res_bind (tc_ema_opt old v) (\<lambda>x. Inr (se, x)))
        else if se \<in> st_calculated_sections new then Inr (se, v)
        else res_bind (res_lookup TcKeyError (st_section cur) se) (\<lambda>old. Inr (se, old)))"

definition tc_merge_oos :: "section_timeouts \<Rightarrow> section_timeouts \<Rightarrow> tc_error + real option" where
  "tc_merge_oos new cur =
     (if st_is_oos_calculated cur \<and> st_is_oos_calculated new
      then tc_ema_opt (st_out_of_section cur) (st_out_of_section new)
      else if st_is_oos_calculated new then Inr (st_out_of_section new)
      else Inr (st_out_of_section cur))"

definition tc_merged_section_timeouts ::
    "section_timeouts \<Rightarrow> section_timeouts option \<Rightarrow> tc_error + section_timeouts" where
  "tc_merged_section_timeouts new current =
     (case current of
        None \<Rightarrow> Inr new
      | Some cur \<Rightarrow>
          res_bind (res_map (tc_merge_one new cur) (st_section new)) (\<lambda>secs.
          res_bind (tc_merge_oos new cur) (\<lambda>oos.
            Inr \<lparr>st_section = secs, st_out_of_section = oos,
                 st_calculated_sections = st_calculated_sections cur \<union> st_calculated_sections new,
                 st_is_oos_calculated = st_is_oos_calculated cur \<or> st_is_oos_calculated new\<rparr>)))"

fun tc_fill_sections ::
    "real \<Rightarrow> (string, real) dict \<Rightarrow> string list \<Rightarrow> (string, real option) dict
       \<Rightarrow> tc_error + (string, real option) dict" where
  "tc_fill_sections sf d [] acc = Inr acc"
| "tc_fill_sections sf d (se # ses) acc =
     res_bind (res_lookup TcKeyError d se) (\<lambda>v.
       if 0 < sf * v then tc_fill_sections sf d ses (AList.update se (Some (sf * v)) acc)
       else Inl TcAssertion)"

definition tc_get_section_timeouts ::
    "string list option \<Rightarrow> bool \<Rightarrow> section_timeouts option \<Rightarrow> timeouts_calc
       \<Rightarrow> tc_error + section_timeouts" where
  "tc_get_section_timeouts selected calc_oos current c =
     res_bind (tc_can_get_section_timeouts selected calc_oos c) (\<lambda>can.
       if \<not> can then Inl NotEnoughData
       else let names = (case selected of
                           Some ns \<Rightarrow> ns | None \<Rightarrow> map fst (tc_section_max c))
            in res_bind (tc_fill_sections (tc_safety_factor c) (tc_section_max c) names
                           (map (\<lambda>p. (fst p, None)) (tc_section_max c))) (\<lambda>secs.
               if calc_oos \<and> \<not> 0 < tc_safety_factor c * tc_oos_max c then Inl TcAssertion
               else tc_merged_section_timeouts
                      \<lparr>st_section = secs,
                       st_out_of_section =
                         (if calc_oos then Some (tc_safety_factor c * tc_oos_max c) else None),
                       st_calculated_sections = set names,
                       st_is_oos_calculated = calc_oos\<rparr>
                      current))"

text \<open>
  \<open>synchronize_all\<close>: \<open>all_reduce\<close> is the collective, from the tensor this rank contributes to the
  tensor it reads back (\<open>torch.distributed\<close>, a parameter); reading past its end is the
  \<open>IndexError\<close>.
\<close>

definition tc_as_tensor :: "timeouts_calc \<Rightarrow> real list" where
  "tc_as_tensor c =
     [tc_initial_max c, tc_subsequent_max c, tc_oos_max c] @ map snd (tc_section_max c)"

definition tc_synchronize_all ::
    "bool \<Rightarrow> (real list \<Rightarrow> real list) \<Rightarrow> timeouts_calc \<Rightarrow> tc_error + timeouts_calc" where
  "tc_synchronize_all initialized all_reduce c =
     (if \<not> initialized then Inl GroupNotInitialized
      else case all_reduce (tc_as_tensor c) of
             a # b # d # rest \<Rightarrow>
               if length rest < length (tc_section_max c) then Inl TcIndexError
               else Inr (c\<lparr>tc_initial_max := a, tc_subsequent_max := b, tc_oos_max := d,
                           tc_section_max := zip (map fst (tc_section_max c)) rest\<rparr>)
           | _ \<Rightarrow> Inl TcIndexError)"

section \<open>Heartbeats\<close>

fun tc_feed :: "real list \<Rightarrow> timeouts_calc \<Rightarrow> tc_error + timeouts_calc" where
  "tc_feed [] c = Inr c"
| "tc_feed (t # ts) c = res_bind (tc_update_on_heartbeat t c) (tc_feed ts)"

fun hb_gaps :: "real \<Rightarrow> real list \<Rightarrow> real list" where
  "hb_gaps p [] = []"
| "hb_gaps p (t # ts) = (t - p) # hb_gaps t ts"

lemma tc_feed_subsequent:
  assumes "tc_count c > 0" and "tc_prev_hb_time c = Some p"
  shows "\<exists>c'. tc_feed ts c = Inr c' \<and> tc_initial_max c' = tc_initial_max c
           \<and> tc_subsequent_max c' = fold max (hb_gaps p ts) (tc_subsequent_max c)
           \<and> tc_safety_factor c' = tc_safety_factor c"
  using assms
proof (induction ts arbitrary: c p)
  case Nil
  then show ?case by simp
next
  case (Cons t ts)
  let ?c1 = "c\<lparr>tc_subsequent_max := max (tc_subsequent_max c) (t - p),
               tc_count := tc_count c + 1, tc_prev_hb_time := Some t\<rparr>"
  have "tc_update_on_heartbeat t c = Inr ?c1"
    using Cons.prems by (simp add: tc_update_on_heartbeat_def)
  moreover have "\<exists>c'. tc_feed ts ?c1 = Inr c' \<and> tc_initial_max c' = tc_initial_max ?c1
      \<and> tc_subsequent_max c' = fold max (hb_gaps t ts) (tc_subsequent_max ?c1)
      \<and> tc_safety_factor c' = tc_safety_factor ?c1"
    by (rule Cons.IH) simp_all
  ultimately show ?case by (simp add: max.commute)
qed

lemma fold_max_ge:
  fixes m :: real
  shows "m \<le> fold max xs m" and "x \<in> set xs \<Longrightarrow> x \<le> fold max xs m"
proof -
  have "fold max xs m = Max (insert m (set xs))" for m :: real
  proof (induction xs arbitrary: m)
    case Nil
    then show ?case by simp
  next
    case (Cons a xs)
    have "fold max (a # xs) m = Max (insert (max a m) (set xs))"
      using Cons.IH [of "max a m"] by simp
    also have "\<dots> = Max (insert m (set (a # xs)))"
      by (cases "set xs = {}") (simp_all add: max.commute max.left_commute)
    finally show ?case .
  qed
  then have eq: "fold max xs m = Max (insert m (set xs))" .
  show "m \<le> fold max xs m" using eq by simp
  show "x \<in> set xs \<Longrightarrow> x \<le> fold max xs m" using eq by simp
qed

lemma fold_max_positive:
  fixes m :: real
  assumes "m \<le> 0"
  shows "0 < fold max xs m \<longleftrightarrow> (\<exists>x \<in> set xs. 0 < x)"
  using assms
proof (induction xs arbitrary: m)
  case Nil
  then show ?case by simp
next
  case (Cons a xs)
  show ?case
  proof (cases "0 < a")
    case True
    then have "0 < max a m" by simp
    then show ?thesis using fold_max_ge(1) [of "max a m" xs] True by auto
  next
    case False
    then have "max a m \<le> 0" using Cons.prems by simp
    then show ?thesis using Cons.IH False by auto
  qed
qed

text \<open>
  Heartbeat timeouts cover what was observed. Feed a fresh calculator any heartbeats: it never
  raises, it can produce timeouts exactly if the first heartbeat came after the start and some
  later gap is positive, and the timeouts it then produces are the safety factor times the largest
  waits, hence at least the safety factor times every single gap.
\<close>

theorem tc_hb_timeouts_cover:
  fixes sf :: real
  assumes "0 \<le> sf"
  shows "\<exists>c. tc_feed (t1 # ts) (tc_new secs t0 sf) = Inr c
     \<and> (tc_can_get_hb_timeouts c \<longleftrightarrow> 0 < t1 - t0 \<and> (\<exists>g \<in> set (hb_gaps t1 ts). 0 < g))
     \<and> (\<forall>tm. tc_get_hb_timeouts None c = Inr tm \<longrightarrow>
           ht_initial tm = Some (sf * (t1 - t0))
         \<and> ht_subsequent tm = Some (sf * fold max (hb_gaps t1 ts) (-1))
         \<and> (\<forall>g \<in> set (hb_gaps t1 ts). sf * g \<le> the (ht_subsequent tm)))"
proof -
  let ?c1 = "(tc_new secs t0 sf)\<lparr>tc_initial_max := max (-1) (t1 - t0), tc_count := 1,
               tc_prev_hb_time := Some t1\<rparr>"
  have one: "tc_update_on_heartbeat t1 (tc_new secs t0 sf) = Inr ?c1"
    by (simp add: tc_update_on_heartbeat_def tc_new_def)
  obtain c where feed: "tc_feed ts ?c1 = Inr c"
    and ini: "tc_initial_max c = max (-1) (t1 - t0)"
    and subs: "tc_subsequent_max c = fold max (hb_gaps t1 ts) (-1)"
    and fac: "tc_safety_factor c = sf"
    using tc_feed_subsequent [of ?c1 t1 ts] by (auto simp: tc_new_def)
  have can: "tc_can_get_hb_timeouts c \<longleftrightarrow>
      0 < t1 - t0 \<and> (\<exists>g \<in> set (hb_gaps t1 ts). 0 < g)"
    using fold_max_positive [of "-1" "hb_gaps t1 ts"]
    by (auto simp: tc_can_get_hb_timeouts_def ini subs)
  have "ht_initial tm = Some (sf * (t1 - t0))
         \<and> ht_subsequent tm = Some (sf * fold max (hb_gaps t1 ts) (-1))
         \<and> (\<forall>g \<in> set (hb_gaps t1 ts). sf * g \<le> the (ht_subsequent tm))"
    if "tc_get_hb_timeouts None c = Inr tm" for tm
  proof -
    have "0 < t1 - t0"
      using that can by (auto simp: tc_get_hb_timeouts_def split: if_splits)
    then have "max (-1) (t1 - t0) = t1 - t0" by simp
    then show ?thesis
      using that assms fold_max_ge(2) [of _ "hb_gaps t1 ts" "-1"]
      by (auto simp: tc_get_hb_timeouts_def ini subs fac Let_def mult_left_mono split: if_splits)
  qed
  then show ?thesis using one feed can by auto
qed

theorem tc_hb_timeouts_cover_witness:
  "\<exists>c. tc_feed [7, 9, 12] (tc_new None 2 5) = Inr c \<and> tc_can_get_hb_timeouts c"
  using tc_hb_timeouts_cover [of 5 7 "[9, 12]" None 2] by auto

section \<open>Sections\<close>

text \<open>
  What section events keep: the open sections are known ones and both dictionaries have one entry
  per key. Only an \<open>OPEN\<close> without a name would break it; clients send \<open>None\<close> with \<open>CLOSE_ALL\<close>
  alone.
\<close>

definition tc_inv :: "timeouts_calc \<Rightarrow> bool" where
  "tc_inv c \<longleftrightarrow> dict_ok (tc_open_sections c) \<and> dict_ok (tc_section_max c) \<and>
     (\<forall>k \<in> fst ` set (tc_open_sections c). k \<in> Some ` fst ` set (tc_section_max c))"

type_synonym tc_event = "string option \<times> section_action \<times> real"

definition tc_event_ok :: "tc_event \<Rightarrow> bool" where
  "tc_event_ok e = (case e of (sec, action, _) \<Rightarrow> sec = None \<longrightarrow> action = CLOSE_ALL)"

fun tc_apply :: "tc_event \<Rightarrow> timeouts_calc \<Rightarrow> timeouts_calc" where
  "tc_apply (sec, action, t) c = fst (tc_update_on_section_event sec action t c)"

fun tc_run :: "tc_event list \<Rightarrow> timeouts_calc \<Rightarrow> timeouts_calc" where
  "tc_run [] c = c"
| "tc_run (e # es) c = tc_run es (tc_apply e c)"

text \<open>A later state has the same sections, with maxima that have not shrunk.\<close>

definition tc_grows :: "timeouts_calc \<Rightarrow> timeouts_calc \<Rightarrow> bool" where
  "tc_grows c c' \<longleftrightarrow>
     map fst (tc_section_max c') = map fst (tc_section_max c)
   \<and> tc_safety_factor c' = tc_safety_factor c
   \<and> (\<forall>n v. map_of (tc_section_max c) n = Some v
          \<longrightarrow> (\<exists>v'. map_of (tc_section_max c') n = Some v' \<and> v \<le> v'))"

lemma tc_grows_refl [simp]: "tc_grows c c"
  by (simp add: tc_grows_def)

lemma tc_grows_trans: "tc_grows a b \<Longrightarrow> tc_grows b c \<Longrightarrow> tc_grows a c"
  unfolding tc_grows_def by (metis order_trans)

lemma map_fst_update:
  "k \<in> fst ` set d \<Longrightarrow> map fst (AList.update k v d) = map fst d"
  by (induction d) auto

lemma fst_set_delete [simp]:
  "fst ` set (AList.delete k d) = fst ` set d - {k}"
  by (auto simp: AList.delete_eq)

lemma map_of_SomeD_key: "map_of d k = Some v \<Longrightarrow> k \<in> fst ` set d"
  by (auto dest!: map_of_SomeD simp: rev_image_eqI)

lemma tc_close_section_ok:
  assumes inv: "tc_inv c" and op: "map_of (tc_open_sections c) (Some n) = Some opened"
  shows "\<exists>c' m. tc_close_section (Some n) t c = (c', None) \<and> tc_inv c' \<and> tc_grows c c'
     \<and> tc_open_sections c' = AList.delete (Some n) (tc_open_sections c)
     \<and> map_of (tc_section_max c') n = Some m \<and> t - opened \<le> m"
proof -
  have "Some n \<in> fst ` set (tc_open_sections c)" using op by (rule map_of_SomeD_key)
  then have "n \<in> fst ` set (tc_section_max c)" using inv by (force simp: tc_inv_def)
  then obtain v where v: "map_of (tc_section_max c) n = Some v"
    by (metis map_of_eq_None_iff not_None_eq)
  let ?sm = "AList.update n (max v (t - opened)) (tc_section_max c)"
  let ?c' = "fst (tc_close_section (Some n) t c)"
  have keys: "map fst ?sm = map fst (tc_section_max c)"
    using \<open>n \<in> _\<close> by (rule map_fst_update)
  have c': "tc_close_section (Some n) t c = (?c', None)"
    and sm: "tc_section_max ?c' = ?sm"
    and os: "tc_open_sections ?c' = AList.delete (Some n) (tc_open_sections c)"
    and sf: "tc_safety_factor ?c' = tc_safety_factor c"
    by (simp_all add: tc_close_section_def op v Let_def)
  have "fst ` set ?sm = fst ` set (tc_section_max c)"
    using keys by (metis list.set_map)
  then have "tc_inv ?c'"
    using inv by (auto simp: tc_inv_def sm os)
  moreover have "tc_grows c ?c'"
    using keys v by (auto simp: tc_grows_def sm sf update_conv')
  ultimately show ?thesis
    using c' os by (auto simp: sm update_conv' intro!: exI [of _ ?c'])
qed

lemma tc_close_section_grows:
  assumes "tc_inv c"
  shows "tc_inv (fst (tc_close_section s t c)) \<and> tc_grows c (fst (tc_close_section s t c))"
proof (cases "\<exists>n opened. s = Some n \<and> map_of (tc_open_sections c) s = Some opened")
  case True
  then obtain n opened where s: "s = Some n" and "map_of (tc_open_sections c) (Some n) = Some opened"
    by auto
  with tc_close_section_ok [OF assms, of n opened t] show ?thesis by auto
next
  case False
  then have "fst (tc_close_section s t c) = c"
    by (cases s) (auto simp: tc_close_section_def split: option.splits)
  then show ?thesis using assms by simp
qed

lemma tc_close_list_ok:
  assumes "tc_inv c" and "distinct ss" and "set ss \<subseteq> fst ` set (tc_open_sections c)"
  shows "\<exists>c'. tc_close_list ss t c = (c', None) \<and> tc_inv c' \<and> tc_grows c c'
     \<and> fst ` set (tc_open_sections c') = fst ` set (tc_open_sections c) - set ss
     \<and> (\<forall>n opened. Some n \<in> set ss \<and> map_of (tc_open_sections c) (Some n) = Some opened
           \<longrightarrow> (\<exists>m. map_of (tc_section_max c') n = Some m \<and> t - opened \<le> m))"
  using assms
proof (induction ss arbitrary: c)
  case Nil
  then show ?case by simp
next
  case (Cons s ss)
  from Cons.prems obtain n where s: "s = Some n" by (force simp: tc_inv_def)
  from Cons.prems s obtain opened where op: "map_of (tc_open_sections c) (Some n) = Some opened"
    by (metis insert_subset list.simps(15) map_of_eq_None_iff not_None_eq)
  obtain c1 m where c1: "tc_close_section s t c = (c1, None)" "tc_inv c1" "tc_grows c c1"
    and os: "tc_open_sections c1 = AList.delete s (tc_open_sections c)"
    and m: "map_of (tc_section_max c1) n = Some m" "t - opened \<le> m"
    using tc_close_section_ok [OF Cons.prems(1) op, of t] s by blast
  have "distinct ss" "set ss \<subseteq> fst ` set (tc_open_sections c1)"
    using Cons.prems os by auto
  then obtain c2 where c2: "tc_close_list ss t c1 = (c2, None)" "tc_inv c2" "tc_grows c1 c2"
    and keys: "fst ` set (tc_open_sections c2) = fst ` set (tc_open_sections c1) - set ss"
    and rec: "\<And>n opened. Some n \<in> set ss \<Longrightarrow> map_of (tc_open_sections c1) (Some n) = Some opened
           \<Longrightarrow> \<exists>m. map_of (tc_section_max c2) n = Some m \<and> t - opened \<le> m"
    using Cons.IH c1(2) by metis
  have "\<exists>m'. map_of (tc_section_max c2) n' = Some m' \<and> t - opened' \<le> m'"
    if "Some n' \<in> set (s # ss)" "map_of (tc_open_sections c) (Some n') = Some opened'"
    for n' opened'
  proof (cases "Some n' = s")
    case True
    then have "opened' = opened" "n' = n" using that(2) op s by auto
    then show ?thesis
      using m c2(3) unfolding tc_grows_def by (metis order_trans)
  next
    case False
    then show ?thesis
      using that rec [of n' opened'] by (auto simp: os delete_conv')
  qed
  then show ?case
    using c1 c2 keys os tc_grows_trans by auto
qed

lemma tc_close_all_ok:
  assumes "tc_inv c"
  shows "\<exists>c'. tc_close_list (map fst (tc_open_sections c)) t c = (c', None) \<and> tc_inv c'
     \<and> tc_grows c c' \<and> tc_open_sections c' = []
     \<and> (\<forall>n opened. map_of (tc_open_sections c) (Some n) = Some opened
           \<longrightarrow> (\<exists>m. map_of (tc_section_max c') n = Some m \<and> t - opened \<le> m))"
proof -
  have "distinct (map fst (tc_open_sections c))"
    using assms by (simp add: tc_inv_def dict_ok_def)
  moreover have "set (map fst (tc_open_sections c)) \<subseteq> fst ` set (tc_open_sections c)" by simp
  ultimately obtain c' where c': "tc_close_list (map fst (tc_open_sections c)) t c = (c', None)"
      "tc_inv c'" "tc_grows c c'"
    and keys: "fst ` set (tc_open_sections c') = fst ` set (tc_open_sections c)
                 - set (map fst (tc_open_sections c))"
    and rec: "\<forall>n opened. Some n \<in> set (map fst (tc_open_sections c))
           \<and> map_of (tc_open_sections c) (Some n) = Some opened
           \<longrightarrow> (\<exists>m. map_of (tc_section_max c') n = Some m \<and> t - opened \<le> m)"
    using tc_close_list_ok [OF assms, of "map fst (tc_open_sections c)" t] by blast
  have "\<forall>n opened. map_of (tc_open_sections c) (Some n) = Some opened
           \<longrightarrow> Some n \<in> set (map fst (tc_open_sections c))"
    by (metis list.set_map map_of_SomeD_key)
  with rec have "\<forall>n opened. map_of (tc_open_sections c) (Some n) = Some opened
           \<longrightarrow> (\<exists>m. map_of (tc_section_max c') n = Some m \<and> t - opened \<le> m)"
    by blast
  moreover have "tc_open_sections c' = []" using keys by simp
  ultimately show ?thesis using c' by blast
qed

lemma tc_open_section_keeps:
  assumes "tc_inv c" and "sec \<in> Some ` fst ` set (tc_section_max c)"
  shows "tc_inv (fst (tc_open_section sec t c)) \<and> tc_grows c (fst (tc_open_section sec t c))"
proof (cases "map_of (tc_open_sections c) sec = None")
  case True
  let ?c' = "fst (tc_open_section sec t c)"
  have eq: "tc_section_max ?c' = tc_section_max c" "tc_safety_factor ?c' = tc_safety_factor c"
    "tc_open_sections ?c' = AList.update sec t (tc_open_sections c)"
    using True by (simp_all add: tc_open_section_def tc_maybe_bump_oos_time_def Let_def)
  have "fst ` set (tc_open_sections ?c') = insert sec (fst ` set (tc_open_sections c))"
    by (simp add: eq AList.dom_update)
  then show ?thesis using assms by (simp add: tc_inv_def tc_grows_def eq)
next
  case False
  then show ?thesis using assms(1) by (simp add: tc_open_section_def)
qed

lemma tc_apply_keeps:
  assumes "tc_event_ok e" and "tc_inv c"
  shows "tc_inv (tc_apply e c) \<and> tc_grows c (tc_apply e c)"
proof -
  obtain sec action t where e: "e = (sec, action, t)" by (cases e)
  have disp: "tc_inv (fst (tc_section_dispatch sec action t c))
      \<and> tc_grows c (fst (tc_section_dispatch sec action t c))"
    if "action = OPEN \<Longrightarrow> sec \<in> Some ` fst ` set (tc_section_max c)"
  proof (cases action)
    case OPEN
    then show ?thesis
      using tc_open_section_keeps [OF assms(2)] that by (simp add: tc_section_dispatch_def)
  next
    case CLOSE
    then show ?thesis
      using tc_close_section_grows [OF assms(2)] by (simp add: tc_section_dispatch_def)
  next
    case CLOSE_ALL
    then show ?thesis
      using tc_close_all_ok [OF assms(2), of t] by (auto simp: tc_section_dispatch_def)
  qed
  show ?thesis
  proof (cases sec)
    case None
    then have "action = CLOSE_ALL" using assms(1) e by (simp add: tc_event_ok_def)
    then show ?thesis
      using disp None e by (simp add: tc_update_on_section_event_def)
  next
    case (Some name)
    show ?thesis
    proof (cases "map_of (tc_section_max c) name")
      case None
      then show ?thesis using Some e assms(2) by (simp add: tc_update_on_section_event_def)
    next
      case (Some v)
      then have "name \<in> fst ` set (tc_section_max c)" by (rule map_of_SomeD_key)
      then show ?thesis
        using disp Some \<open>sec = Some name\<close> e by (simp add: tc_update_on_section_event_def)
    qed
  qed
qed

lemma tc_run_keeps:
  "list_all tc_event_ok es \<Longrightarrow> tc_inv c \<Longrightarrow> tc_inv (tc_run es c) \<and> tc_grows c (tc_run es c)"
proof (induction es arbitrary: c)
  case Nil
  then show ?case by simp
next
  case (Cons e es)
  then show ?case using tc_apply_keeps [of e c] tc_grows_trans by auto
qed

lemma tc_new_inv: "tc_inv (tc_new secs t0 sf)"
proof -
  have "dict_ok (fold (\<lambda>n d. AList.update n (-1 :: real) d) names d)" if "dict_ok d"
    for names :: "string list" and d
    using that by (induction names arbitrary: d) simp_all
  then show ?thesis by (auto simp: tc_inv_def tc_new_def split: option.splits)
qed

text \<open>The computed section dictionary: the selected entries scaled, the others unset.\<close>

lemma tc_fill_sections_Inr:
  "tc_fill_sections sf d ns acc = Inr res \<Longrightarrow>
     map_of res k = (if k \<in> set ns then map_option (\<lambda>v. Some (sf * v)) (map_of d k)
                     else map_of acc k)"
proof (induction ns arbitrary: acc)
  case Nil
  then show ?case by simp
next
  case (Cons n ns)
  then obtain v where "map_of d n = Some v"
    and "tc_fill_sections sf d ns (AList.update n (Some (sf * v)) acc) = Inr res"
    by (auto simp: res_bind_eq_Inr split: if_splits)
  with Cons.IH [OF this(2)] show ?case by (auto simp: update_conv')
qed

text \<open>
  section timeouts cover what was observed. Take any run of named section events (and
  unnamed close-alls) from a fresh calculator, a section open at that moment, and a close of it;
  whatever follows, the longest time recorded for the section is at least that interval, and every
  later successful calculation for all sections gives it a timeout of at least the safety factor
  times the interval.
\<close>

theorem tc_section_timeouts_cover:
  assumes ok: "list_all tc_event_ok es1" "list_all tc_event_ok es2"
    and sf: "0 \<le> sf"
    and c1: "c1 = tc_run es1 (tc_new secs t0 sf)"
    and op: "map_of (tc_open_sections c1) (Some n) = Some opened"
    and action: "(sec, action) \<in> {(Some n, CLOSE), (None, CLOSE_ALL)}"
    and c2: "c2 = tc_run es2 (tc_apply (sec, action, t) c1)"
  shows "\<exists>v. map_of (tc_section_max c2) n = Some v \<and> t - opened \<le> v
     \<and> (\<forall>oos tm. tc_get_section_timeouts None oos None c2 = Inr tm \<longrightarrow>
           (\<exists>x. map_of (st_section tm) n = Some (Some x) \<and> sf * (t - opened) \<le> x))"
proof -
  have keeps: "tc_inv c1" "tc_grows (tc_new secs t0 sf) c1"
    using tc_run_keeps [OF ok(1) tc_new_inv] c1 by auto
  then have fac1: "tc_safety_factor c1 = sf" by (simp add: tc_grows_def tc_new_def)
  obtain m where closed: "tc_inv (tc_apply (sec, action, t) c1)"
      "tc_grows c1 (tc_apply (sec, action, t) c1)"
    and m: "map_of (tc_section_max (tc_apply (sec, action, t) c1)) n = Some m" "t - opened \<le> m"
  proof -
    have "n \<in> fst ` set (tc_section_max c1)"
      using keeps(1) map_of_SomeD_key [OF op] by (force simp: tc_inv_def)
    then have known: "map_of (tc_section_max c1) n \<noteq> None" by (simp add: map_of_eq_None_iff)
    consider "sec = Some n" "action = CLOSE" | "sec = None" "action = CLOSE_ALL"
      using action by auto
    then show ?thesis
    proof cases
      case 1
      obtain c' m where "tc_close_section (Some n) t c1 = (c', None)" "tc_inv c'" "tc_grows c1 c'"
        and "map_of (tc_section_max c') n = Some m" "t - opened \<le> m"
        using tc_close_section_ok [OF keeps(1) op, of t] by blast
      then show ?thesis
        using known 1
        by (intro that [of m]) (auto simp: tc_update_on_section_event_def tc_section_dispatch_def)
    next
      case 2
      obtain c' where c': "tc_close_list (map fst (tc_open_sections c1)) t c1 = (c', None)"
          "tc_inv c'" "tc_grows c1 c'"
        and all: "\<forall>n opened. map_of (tc_open_sections c1) (Some n) = Some opened
           \<longrightarrow> (\<exists>m. map_of (tc_section_max c') n = Some m \<and> t - opened \<le> m)"
        using tc_close_all_ok [OF keeps(1), of t] by blast
      obtain m where "map_of (tc_section_max c') n = Some m" "t - opened \<le> m"
        using all op by blast
      then show ?thesis
        using c' 2
        by (intro that [of m]) (auto simp: tc_update_on_section_event_def tc_section_dispatch_def)
    qed
  qed
  have later: "tc_grows (tc_apply (sec, action, t) c1) c2"
    using tc_run_keeps [OF ok(2) closed(1)] c2 by simp
  then obtain v where v: "map_of (tc_section_max c2) n = Some v" "t - opened \<le> v"
    using m unfolding tc_grows_def by (metis order_trans)
  have fac2: "tc_safety_factor c2 = sf"
    using fac1 closed(2) later by (simp add: tc_grows_def)
  have "\<exists>x. map_of (st_section tm) n = Some (Some x) \<and> sf * (t - opened) \<le> x"
    if got: "tc_get_section_timeouts None oos None c2 = Inr tm" for oos tm
  proof -
    obtain secs' where fill: "tc_fill_sections sf (tc_section_max c2)
          (map fst (tc_section_max c2)) (map (\<lambda>p. (fst p, None)) (tc_section_max c2)) = Inr secs'"
      and tm: "st_section tm = secs'"
      using got by (auto simp: tc_get_section_timeouts_def tc_merged_section_timeouts_def
          res_bind_eq_Inr fac2 Let_def split: if_splits)
    have "n \<in> set (map fst (tc_section_max c2))"
      using map_of_SomeD_key [OF v(1)] by simp
    then have "map_of secs' n = Some (Some (sf * v))"
      using tc_fill_sections_Inr [OF fill, of n] v(1) by simp
    then show ?thesis using tm v(2) sf by (simp add: mult_left_mono)
  qed
  then show ?thesis using v by blast
qed

theorem tc_section_timeouts_cover_witness:
  "\<exists>v. map_of (tc_section_max (tc_run [] (tc_apply (None, CLOSE_ALL, 9)
     (tc_run [(Some ''step'', OPEN, 2)] (tc_new (Some [''step'']) 0 5))))) ''step'' = Some v \<and> 7 \<le> v"
proof -
  let ?es = "[(Some ''step'', OPEN, 2 :: real)]"
  let ?c1 = "tc_run ?es (tc_new (Some [''step'']) 0 5)"
  have "list_all tc_event_ok ?es" "list_all tc_event_ok []"
    by (simp_all add: tc_event_ok_def)
  moreover have "map_of (tc_open_sections ?c1) (Some ''step'') = Some 2"
    by (simp add: tc_update_on_section_event_def tc_section_dispatch_def tc_open_section_def
        tc_new_def tc_maybe_bump_oos_time_def tc_is_out_of_section_def)
  ultimately have "\<exists>v. map_of (tc_section_max (tc_run [] (tc_apply (None, CLOSE_ALL, 9) ?c1)))
      ''step'' = Some v \<and> 9 - 2 \<le> v"
    using tc_section_timeouts_cover [of ?es "[]" 5 ?c1 "Some [''step'']" 0 "''step''" 2 None
        CLOSE_ALL "tc_run [] (tc_apply (None, CLOSE_ALL, 9) ?c1)" 9]
    by fastforce
  then show ?thesis by simp
qed

lemma tc_all_measured_True:
  "tc_all_measured d ns = Inr True \<longleftrightarrow> (\<forall>n \<in> set ns. \<exists>v. map_of d n = Some v \<and> 0 < v)"
proof (induction ns)
  case Nil
  then show ?case by simp
next
  case (Cons n ns)
  then show ?case
    by (cases "map_of d n") (auto simp: res_lookup_def)
qed

lemma tc_all_measured_no_assertion: "tc_all_measured d ns \<noteq> Inl TcAssertion"
proof (induction ns)
  case Nil
  then show ?case by simp
next
  case (Cons n ns)
  then show ?case
    by (cases "map_of d n") (auto simp: res_lookup_def)
qed

lemma tc_fill_sections_total:
  assumes "0 < sf" and "\<forall>n \<in> set ns. \<exists>v. map_of d n = Some v \<and> 0 < v"
  shows "\<exists>res. tc_fill_sections sf d ns acc = Inr res"
  using assms(2)
proof (induction ns arbitrary: acc)
  case Nil
  then show ?case by simp
next
  case (Cons n ns)
  then obtain v where "map_of d n = Some v" "0 < v" by auto
  then show ?case using Cons assms(1) by (auto simp: res_lookup_def)
qed

lemma tc_ema_opt_no_assertion: "tc_ema_opt x y \<noteq> Inl TcAssertion"
  by (simp add: tc_ema_opt_def split: option.splits)

lemma tc_merge_one_no_assertion: "tc_merge_one new cur p \<noteq> Inl TcAssertion"
  using tc_ema_opt_no_assertion
  by (auto simp: tc_merge_one_def res_lookup_def res_bind_def split: prod.splits option.splits sum.splits)

lemma res_map_no_error: "(\<And>x. f x \<noteq> Inl e) \<Longrightarrow> res_map f xs \<noteq> Inl e"
  by (induction xs) (auto simp: res_bind_def split: sum.splits)

lemma tc_merge_oos_no_assertion: "tc_merge_oos new cur \<noteq> Inl TcAssertion"
  by (simp add: tc_merge_oos_def tc_ema_opt_no_assertion)

lemma tc_merged_no_assertion: "tc_merged_section_timeouts new current \<noteq> Inl TcAssertion"
  using res_map_no_error [of "tc_merge_one new (the current)" TcAssertion "st_section new"]
    tc_merge_one_no_assertion tc_merge_oos_no_assertion
  by (cases current)
     (auto simp: tc_merged_section_timeouts_def res_bind_def split: sum.splits if_splits)

text \<open>
  The guard is enough. With a positive safety factor the two assertions of
  \<open>get_section_timeouts\<close> never fire, whatever is selected and whatever it is merged with; and
  without earlier timeouts to merge the calculation succeeds exactly when
  \<open>can_get_section_timeouts\<close> says so for the same arguments.
\<close>

theorem tc_section_timeouts_guarded:
  assumes "0 < tc_safety_factor c"
  shows "tc_get_section_timeouts selected oos current c \<noteq> Inl TcAssertion
     \<and> ((\<exists>tm. tc_get_section_timeouts selected oos None c = Inr tm)
          \<longleftrightarrow> tc_can_get_section_timeouts selected oos c = Inr True)"
proof -
  let ?d = "tc_section_max c"
  let ?names = "case selected of Some ns \<Rightarrow> ns | None \<Rightarrow> map fst ?d"
  have meas: "\<exists>res. tc_fill_sections (tc_safety_factor c) ?d ?names acc = Inr res"
      "oos \<Longrightarrow> 0 < tc_safety_factor c * tc_oos_max c"
    if "tc_can_get_section_timeouts selected oos c = Inr True" for acc
  proof -
    show "\<exists>res. tc_fill_sections (tc_safety_factor c) ?d ?names acc = Inr res"
    proof (rule tc_fill_sections_total [OF assms])
      have "tc_all_measured ?d ?names = Inr True"
      proof (cases "selected = Some []")
        case True
        then show ?thesis by simp
      next
        case False
        then have "(case selected of Some (n # ns) \<Rightarrow> n # ns | _ \<Rightarrow> map fst ?d) = ?names"
          by (auto split: option.splits list.splits)
        then show ?thesis
          using that by (auto simp: tc_can_get_section_timeouts_def res_bind_eq_Inr)
      qed
      then show "\<forall>n \<in> set ?names. \<exists>v. map_of ?d n = Some v \<and> 0 < v"
        by (simp only: tc_all_measured_True)
    qed
    show "0 < tc_safety_factor c * tc_oos_max c" if oos
      using that \<open>tc_can_get_section_timeouts _ _ _ = _\<close> assms
      by (auto simp: tc_can_get_section_timeouts_def res_bind_eq_Inr)
  qed
  have noass: "tc_can_get_section_timeouts selected oos c \<noteq> Inl TcAssertion"
    using tc_all_measured_no_assertion [of ?d]
    by (auto simp: tc_can_get_section_timeouts_def res_bind_def Let_def split: sum.splits)
  show ?thesis
  proof (cases "tc_can_get_section_timeouts selected oos c")
    case (Inl e)
    then show ?thesis using noass by (simp add: tc_get_section_timeouts_def)
  next
    case (Inr b)
    show ?thesis
    proof (cases b)
      case True
      with Inr have can: "tc_can_get_section_timeouts selected oos c = Inr True" by simp
      obtain res where "tc_fill_sections (tc_safety_factor c) ?d ?names
          (map (\<lambda>p. (fst p, None)) ?d) = Inr res"
        using meas(1) [OF can] by blast
      then show ?thesis
        using can meas(2) [OF can] tc_merged_no_assertion
        by (auto simp: tc_get_section_timeouts_def tc_merged_section_timeouts_def Let_def)
    next
      case False
      then show ?thesis using Inr by (simp add: tc_get_section_timeouts_def)
    qed
  qed
qed

theorem tc_section_timeouts_guarded_witness:
  "\<exists>tm. tc_get_section_timeouts (Some [''step'']) False None
     ((tc_new (Some [''step'', ''ckpt'']) 0 2)\<lparr>tc_section_max := [(''step'', 3), (''ckpt'', -1)]\<rparr>)
     = Inr tm"
  using tc_section_timeouts_guarded [of "(tc_new (Some [''step'', ''ckpt'']) 0 2)
      \<lparr>tc_section_max := [(''step'', 3), (''ckpt'', -1)]\<rparr>" "Some [''step'']" False None]
  by (simp add: tc_new_def tc_can_get_section_timeouts_def res_lookup_def)

section \<open>Merging\<close>

text \<open>
  Timeouts that can be merged: what is marked as calculated has a value, and the current timeouts
  have an entry for every section of the new ones.
\<close>

definition tc_mergeable :: "section_timeouts \<Rightarrow> section_timeouts \<Rightarrow> bool" where
  "tc_mergeable new cur \<longleftrightarrow>
     (\<forall>p \<in> set (st_section new).
        (fst p \<in> st_calculated_sections new \<longrightarrow> snd p \<noteq> None)
      \<and> (case map_of (st_section cur) (fst p) of
           None \<Rightarrow> False
         | Some w \<Rightarrow> fst p \<in> st_calculated_sections cur \<longrightarrow> w \<noteq> None))
   \<and> (st_is_oos_calculated new \<longrightarrow> st_out_of_section new \<noteq> None)
   \<and> (st_is_oos_calculated cur \<longrightarrow> st_out_of_section cur \<noteq> None)"

definition tc_merge_value :: "section_timeouts \<Rightarrow> section_timeouts \<Rightarrow> string \<times> real option
     \<Rightarrow> real option" where
  "tc_merge_value new cur p =
     (let old = the (map_of (st_section cur) (fst p))
      in if fst p \<notin> st_calculated_sections new then old
         else if fst p \<notin> st_calculated_sections cur then snd p
         else Some ((the old + the (snd p)) / 2))"

lemma tc_merge_one_total:
  assumes "tc_mergeable new cur" and "p \<in> set (st_section new)"
  shows "tc_merge_one new cur p = Inr (fst p, tc_merge_value new cur p)"
proof -
  obtain se v where p: "p = (se, v)" by (cases p)
  obtain w where w: "map_of (st_section cur) se = Some w"
      "se \<in> st_calculated_sections cur \<longrightarrow> w \<noteq> None"
      "se \<in> st_calculated_sections new \<longrightarrow> v \<noteq> None"
    using assms p by (fastforce simp: tc_mergeable_def split: option.splits)
  then show ?thesis
    by (auto simp: p tc_merge_one_def tc_merge_value_def tc_ema_opt_def tc_ema_def res_lookup_def
        field_simps)
qed

lemma tc_merge_oos_total:
  assumes "tc_mergeable new cur"
  shows "\<exists>oos. tc_merge_oos new cur = Inr oos
     \<and> (st_is_oos_calculated cur \<or> st_is_oos_calculated new \<longrightarrow> oos \<noteq> None)"
  using assms
  by (cases "st_is_oos_calculated cur"; cases "st_is_oos_calculated new")
     (auto simp: tc_mergeable_def tc_merge_oos_def tc_ema_opt_def)

text \<open>
  Merging never raises on mergeable timeouts, keeps the sections of the new ones in order,
  keeps the current value of a section the new ones did not calculate, takes the new value where
  the current one was configured, and otherwise takes the mean of the two, which lies between
  them; what was ever calculated stays marked as calculated.
\<close>

theorem tc_merge_correct:
  assumes "tc_mergeable new cur"
  shows "\<exists>m. tc_merged_section_timeouts new (Some cur) = Inr m
     \<and> st_section m = map (\<lambda>p. (fst p, tc_merge_value new cur p)) (st_section new)
     \<and> (\<forall>p \<in> set (st_section new). \<forall>x y.
           fst p \<in> st_calculated_sections new \<inter> st_calculated_sections cur
           \<and> map_of (st_section cur) (fst p) = Some (Some x) \<and> snd p = Some y
           \<longrightarrow> (\<exists>z. tc_merge_value new cur p = Some z \<and> min x y \<le> z \<and> z \<le> max x y))
     \<and> st_calculated_sections m = st_calculated_sections cur \<union> st_calculated_sections new
     \<and> (st_is_oos_calculated cur \<longrightarrow> st_is_oos_calculated m)
     \<and> (st_is_oos_calculated m \<longrightarrow> st_out_of_section m \<noteq> None)"
proof -
  have secs: "res_map (tc_merge_one new cur) (st_section new)
      = Inr (map (\<lambda>p. (fst p, tc_merge_value new cur p)) (st_section new))"
    by (rule res_map_total) (rule tc_merge_one_total [OF assms])
  have between: "\<exists>z. tc_merge_value new cur p = Some z \<and> min x y \<le> z \<and> z \<le> max x y"
    if "fst p \<in> st_calculated_sections new" "fst p \<in> st_calculated_sections cur"
      "map_of (st_section cur) (fst p) = Some (Some x)" "snd p = Some y" for p and x y :: real
  proof -
    have "tc_merge_value new cur p = Some ((x + y) / 2)"
      using that by (simp add: tc_merge_value_def)
    moreover have "min x y \<le> (x + y) / 2" "(x + y) / 2 \<le> max x y" by (simp_all add: min_def max_def)
    ultimately show ?thesis by blast
  qed
  obtain oos where "tc_merge_oos new cur = Inr oos"
    and "st_is_oos_calculated cur \<or> st_is_oos_calculated new \<longrightarrow> oos \<noteq> None"
    using tc_merge_oos_total [OF assms] by blast
  then show ?thesis
    by (auto simp: tc_merged_section_timeouts_def secs between)
qed

theorem tc_merge_correct_witness:
  "\<exists>m. tc_merged_section_timeouts
      \<lparr>st_section = [(''a'', Some 4), (''b'', None)], st_out_of_section = None,
       st_calculated_sections = {''a''}, st_is_oos_calculated = False\<rparr>
      (Some \<lparr>st_section = [(''b'', Some 7), (''a'', Some 2)], st_out_of_section = Some 9,
       st_calculated_sections = {''a''}, st_is_oos_calculated = False\<rparr>) = Inr m
    \<and> st_section m = [(''a'', Some 3), (''b'', Some 7)]"
  using tc_merge_correct [of
      "\<lparr>st_section = [(''a'', Some 4), (''b'', None)], st_out_of_section = None,
        st_calculated_sections = {''a''}, st_is_oos_calculated = False\<rparr>"
      "\<lparr>st_section = [(''b'', Some 7), (''a'', Some 2)], st_out_of_section = Some 9,
        st_calculated_sections = {''a''}, st_is_oos_calculated = False\<rparr>"]
  by (auto simp: tc_mergeable_def tc_merge_value_def)

section \<open>Synchronisation across ranks\<close>

lemma tc_get_section_timeouts_cong:
  assumes "tc_section_max a = tc_section_max b" and "tc_oos_max a = tc_oos_max b"
    and "tc_safety_factor a = tc_safety_factor b"
  shows "tc_get_section_timeouts sel oos cur a = tc_get_section_timeouts sel oos cur b"
  by (simp only: tc_get_section_timeouts_def tc_can_get_section_timeouts_def assms)

text \<open>
  After \<open>synchronize_all\<close> two ranks agree. If they measure the same sections in the same
  order with the same safety factor, and the collective hands both the same tensor, of the length
  contributed and nowhere below either contribution (the documented result of an \<open>all_reduce\<close>
  with \<open>MAX\<close>), then both succeed, no recorded maximum shrinks, and every later timeout
  calculation with the same arguments gives the same result on both.
\<close>

theorem tc_synchronize_agree:
  assumes secs: "map fst (tc_section_max c1) = map fst (tc_section_max c2)"
    and sf: "tc_safety_factor c1 = tc_safety_factor c2"
    and same: "red1 (tc_as_tensor c1) = ts" "red2 (tc_as_tensor c2) = ts"
    and maxi: "list_all2 (\<le>) (tc_as_tensor c1) ts" "list_all2 (\<le>) (tc_as_tensor c2) ts"
  shows "\<exists>d1 d2. tc_synchronize_all True red1 c1 = Inr d1 \<and> tc_synchronize_all True red2 c2 = Inr d2
     \<and> list_all2 (\<le>) (tc_as_tensor c1) (tc_as_tensor d1) \<and> tc_as_tensor d1 = tc_as_tensor d2
     \<and> tc_get_hb_timeouts cur d1 = tc_get_hb_timeouts cur d2
     \<and> tc_get_section_timeouts sel oos scur d1 = tc_get_section_timeouts sel oos scur d2"
proof -
  have len: "length ts = 3 + length (tc_section_max c1)"
    using list_all2_lengthD [OF maxi(1)] by (simp add: tc_as_tensor_def)
  obtain a b d rest where ts: "ts = a # b # d # rest"
    using maxi(1) by (auto simp: tc_as_tensor_def list_all2_Cons1)
  have rest: "length rest = length (tc_section_max c1)" "length rest = length (tc_section_max c2)"
    using len ts arg_cong [OF secs, of length] by simp_all
  let ?upd = "\<lambda>c. c\<lparr>tc_initial_max := a, tc_subsequent_max := b, tc_oos_max := d,
      tc_section_max := zip (map fst (tc_section_max c)) rest\<rparr>"
  have ok: "tc_synchronize_all True red1 c1 = Inr (?upd c1)"
    "tc_synchronize_all True red2 c2 = Inr (?upd c2)"
    using same rest by (simp_all add: tc_synchronize_all_def ts)
  have "tc_as_tensor (?upd c1) = ts" "tc_as_tensor (?upd c2) = ts"
    using rest by (simp_all add: tc_as_tensor_def ts)
  moreover have "tc_get_hb_timeouts cur (?upd c1) = tc_get_hb_timeouts cur (?upd c2)"
    by (simp add: tc_get_hb_timeouts_def tc_can_get_hb_timeouts_def sf)
  moreover have "tc_get_section_timeouts sel oos scur (?upd c1)
      = tc_get_section_timeouts sel oos scur (?upd c2)"
    by (rule tc_get_section_timeouts_cong) (simp_all add: sf secs)
  ultimately show ?thesis using ok maxi(1) by metis
qed

theorem tc_synchronize_agree_witness:
  "\<exists>d1 d2. tc_synchronize_all True (\<lambda>_. [4, 3, 2, 6])
       ((tc_new (Some [''step'']) 0 2)\<lparr>tc_initial_max := 4\<rparr>) = Inr d1
     \<and> tc_synchronize_all True (\<lambda>_. [4, 3, 2, 6])
       ((tc_new (Some [''step'']) 0 2)\<lparr>tc_subsequent_max := 3\<rparr>) = Inr d2
     \<and> tc_get_hb_timeouts None d1 = tc_get_hb_timeouts None d2"
proof -
  let ?c1 = "(tc_new (Some [''step'']) 0 2)\<lparr>tc_initial_max := 4\<rparr>"
  let ?c2 = "(tc_new (Some [''step'']) 0 2)\<lparr>tc_subsequent_max := 3\<rparr>"
  let ?red = "\<lambda>_ :: real list. [4, 3, 2, 6 :: real]"
  have "list_all2 (\<le>) (tc_as_tensor ?c1) [4, 3, 2, 6]" "list_all2 (\<le>) (tc_as_tensor ?c2) [4, 3, 2, 6]"
    by (simp_all add: tc_new_def tc_as_tensor_def)
  moreover have "map fst (tc_section_max ?c1) = map fst (tc_section_max ?c2)"
    "tc_safety_factor ?c1 = tc_safety_factor ?c2"
    by (simp_all add: tc_new_def)
  ultimately show ?thesis
    using tc_synchronize_agree [of ?c1 ?c2 ?red "[4, 3, 2, 6]" ?red None None True None] by blast
qed

end
