(* ===== verification/RankMonitor.thy ===== *)
theory RankMonitor
  imports RankMonitorSM FtTimeouts
begin

text \<open>
  The rank monitor server, \<open>fault_tolerance/rank_monitor_server.py\<close>: the messages of the rank it
  watches (\<open>fault_tolerance/data.py\<close>), the hang checks and the signals it sends. One event is one
  uninterrupted stretch of the server's event loop: a message handled to its end, a connection
  gained or lost, a signal, or one periodic check. \<open>now\<close> is the reading of \<open>time.monotonic()\<close>.
\<close>

section \<open>Messages and state\<close>

record rank_info =
  ri_global_rank :: int
  ri_local_rank :: int
  ri_host :: string
  ri_pid :: int

record ft_config =
  cf_initial_hb_timeout :: "real option"
  cf_hb_timeout :: "real option"
  cf_section_timeouts :: "(string, real option) dict"
  cf_oos_timeout :: "real option"
  cf_num_warmup :: int
  cf_skip_response :: bool
  cf_term_signal :: int

record update_config =
  uc_hb :: "hb_timeouts option"
  uc_section :: "section_timeouts option"
  uc_cycle :: "int option"

datatype ipc_msg =
    AuthkeyMsg
  | InitMsg "rank_info option" "int option"
  | HeartbeatMsg bool
  | UpdateConfigMsg update_config
  | SectionActionMsg "string option" section_action "int option"

datatype ipc_reply = OkMsg | OkCfgMsg ft_config | ErrorMsg string

datatype mon_exc = SmError rm_error | HeartbeatStateAssertion | MissingRankInfo | NoneArithmetic

record monitor =
  mon_cfg :: ft_config
  mon_rank_info :: "rank_info option"
  mon_start :: "real option"
  mon_last_hb :: "real option"
  mon_oos :: "real option"
  mon_open :: "(string option, real) dict"
  mon_sm :: rm_machine
  mon_initial_iter :: "int option"
  mon_current_iter :: "int option"
  mon_step_seen :: bool
  mon_cycle :: int
  mon_writer :: bool
  mon_locked :: bool
  mon_closing :: bool

type_synonym mon_result = "monitor \<times> ipc_reply list \<times> mon_exc option"

definition mon_new :: "ft_config \<Rightarrow> monitor" where
  "mon_new cfg =
     \<lparr>mon_cfg = cfg, mon_rank_info = None, mon_start = None, mon_last_hb = None, mon_oos = None,
      mon_open = [], mon_sm = rm_init, mon_initial_iter = None, mon_current_iter = None,
      mon_step_seen = False, mon_cycle = 0, mon_writer = False, mon_locked = False,
      mon_closing = False\<rparr>"

section \<open>Message handlers\<close>

definition mon_handle_update_config :: "update_config \<Rightarrow> bool \<Rightarrow> monitor \<Rightarrow> mon_result" where
  "mon_handle_update_config u send m =
     (let m1 = (case uc_hb u of None \<Rightarrow> m
                | Some h \<Rightarrow> m\<lparr>mon_cfg := (mon_cfg m)\<lparr>cf_initial_hb_timeout := ht_initial h,
                                                  cf_hb_timeout := ht_subsequent h\<rparr>\<rparr>);
          m2 = (case uc_section u of None \<Rightarrow> m1
                | Some s \<Rightarrow> m1\<lparr>mon_cfg := (mon_cfg m1)\<lparr>cf_section_timeouts := st_section s,
                                                   cf_oos_timeout := st_out_of_section s\<rparr>\<rparr>);
          m3 = (case uc_cycle u of None \<Rightarrow> m2 | Some c \<Rightarrow> m2\<lparr>mon_cycle := c\<rparr>)
      in (m3, if send then [OkMsg] else [], None))"

definition mon_handle_init :: "real \<Rightarrow> rank_info option \<Rightarrow> int option \<Rightarrow> monitor \<Rightarrow> mon_result" where
  "mon_handle_init now info warmup m =
     (let m1 = m\<lparr>mon_rank_info := info, mon_start := Some now, mon_oos := Some now, mon_open := [],
                 mon_last_hb := None\<rparr>;
          m2 = (case warmup of None \<Rightarrow> m1
                | Some w \<Rightarrow> m1\<lparr>mon_cfg := (mon_cfg m1)\<lparr>cf_num_warmup := w\<rparr>\<rparr>)
      in case info of
           None \<Rightarrow> (m2, [], Some MissingRankInfo)
         | Some _ \<Rightarrow> (m2, [OkCfgMsg (mon_cfg m2)], None))"

definition mon_handle_heartbeat :: "real \<Rightarrow> bool \<Rightarrow> monitor \<Rightarrow> mon_result" where
  "mon_handle_heartbeat now has_state m =
     (case handle_heartbeat_msg (mon_sm m) of
        (sm, Some e) \<Rightarrow> (m\<lparr>mon_sm := sm\<rparr>, [], Some (SmError e))
      | (sm, None) \<Rightarrow>
          (let m1 = m\<lparr>mon_sm := sm, mon_last_hb := Some now\<rparr>
           in if has_state then (m1, [], Some HeartbeatStateAssertion)
              else (m1, if cf_skip_response (mon_cfg m1) then [] else [OkMsg], None)))"

definition mon_track_iteration :: "string option \<Rightarrow> int option \<Rightarrow> monitor \<Rightarrow> monitor" where
  "mon_track_iteration sec iteration m =
     (case iteration of
        None \<Rightarrow> m
      | Some i \<Rightarrow>
          if sec = Some ''step''
          then m\<lparr>mon_initial_iter := (if mon_initial_iter m = None then Some i
                                     else mon_initial_iter m),
                 mon_current_iter := Some i\<rparr>
          else m)"

text \<open>
  The reply is computed even when it is not sent: with \<open>skip_section_response\<close> an error is only
  logged and \<open>resp\<close> stays the default \<open>ErrorMsg\<close>, which is then dropped.
\<close>

definition section_text :: "string option \<Rightarrow> string" where
  "section_text sec = ''Section '' @ CHR 0x27 # (case sec of None \<Rightarrow> ''None'' | Some n \<Rightarrow> n) @ [CHR 0x27]"

definition mon_section_action ::
    "real \<Rightarrow> string option \<Rightarrow> section_action \<Rightarrow> monitor \<Rightarrow> monitor \<times> ipc_reply" where
  "mon_section_action now sec action m =
     (case action of
        OPEN \<Rightarrow>
          if map_of (mon_open m) sec = None
          then (m\<lparr>mon_open := AList.update sec now (mon_open m), mon_oos := None,
                  mon_step_seen := (if sec = Some ''step'' then True else mon_step_seen m)\<rparr>, OkMsg)
          else (m, ErrorMsg (if cf_skip_response (mon_cfg m) then ''<not set>''
                             else section_text sec @ '' is already open.''))
      | CLOSE \<Rightarrow>
          if map_of (mon_open m) sec \<noteq> None
          then (let op = AList.delete sec (mon_open m)
                in (m\<lparr>mon_open := op, mon_oos := (if op = [] then Some now else mon_oos m)\<rparr>, OkMsg))
          else (m, ErrorMsg (if cf_skip_response (mon_cfg m) then ''<not set>''
                             else section_text sec @ '' is not open.''))
      | CLOSE_ALL \<Rightarrow> (m\<lparr>mon_open := [], mon_oos := Some now\<rparr>, OkMsg))"

definition mon_handle_section ::
    "real \<Rightarrow> string option \<Rightarrow> section_action \<Rightarrow> int option \<Rightarrow> monitor \<Rightarrow> mon_result" where
  "mon_handle_section now sec action iteration m =
     (case handle_section_msg (mon_sm m) of
        (sm, Some e) \<Rightarrow> (m\<lparr>mon_sm := sm\<rparr>, [], Some (SmError e))
      | (sm, None) \<Rightarrow>
          (let m1 = mon_track_iteration sec iteration (m\<lparr>mon_sm := sm\<rparr>);
               (m2, resp) = mon_section_action now sec action m1
           in (m2, if cf_skip_response (mon_cfg m2) then [] else [resp], None)))"

fun mon_handle_msg :: "real \<Rightarrow> ipc_msg \<Rightarrow> monitor \<Rightarrow> mon_result" where
  "mon_handle_msg now AuthkeyMsg m = (m, [OkMsg], None)"
| "mon_handle_msg now (InitMsg info warmup) m = mon_handle_init now info warmup m"
| "mon_handle_msg now (HeartbeatMsg has_state) m = mon_handle_heartbeat now has_state m"
| "mon_handle_msg now (UpdateConfigMsg u) m = mon_handle_update_config u True m"
| "mon_handle_msg now (SectionActionMsg sec action it) m = mon_handle_section now sec action it m"

section \<open>Connections\<close>

definition mon_handle_ipc_connection_lost :: "monitor \<Rightarrow> monitor" where
  "mon_handle_ipc_connection_lost m =
     m\<lparr>mon_sm := fst (handle_ipc_connection_lost (mon_sm m)), mon_open := [],
       mon_rank_info := None, mon_start := None, mon_last_hb := None, mon_oos := None,
       mon_initial_iter := None, mon_current_iter := None, mon_step_seen := False,
       mon_locked := False\<rparr>"

text \<open>
  \<open>_handle_ipc_connection\<close>. A new connection waits for the lock. \<open>mon_connect\<close> is the lock
  acquired; \<open>mon_connect_timeout\<close> is the wait given up after \<open>RANK_MONITOR_INIT_TIMEOUT\<close>: the
  exception is logged and the \<open>finally\<close> block runs as for any other connection. A message whose
  handler raises ends the connection the same way.
\<close>

definition mon_connect :: "monitor \<Rightarrow> monitor" where
  "mon_connect m =
     (if mon_closing m \<or> mon_locked m then m else m\<lparr>mon_locked := True, mon_writer := True\<rparr>)"

definition mon_connection_end :: "monitor \<Rightarrow> monitor" where
  "mon_connection_end m = mon_handle_ipc_connection_lost (m\<lparr>mon_writer := False\<rparr>)"

definition mon_connect_timeout :: "monitor \<Rightarrow> monitor" where
  "mon_connect_timeout m =
     (if mon_closing m \<or> \<not> mon_locked m then m else mon_connection_end m)"

definition mon_receive :: "real \<Rightarrow> ipc_msg \<Rightarrow> monitor \<Rightarrow> monitor \<times> ipc_reply list" where
  "mon_receive now msg m =
     (case mon_handle_msg now msg m of
        (m', replies, None) \<Rightarrow> (m', replies)
      | (m', replies, Some e) \<Rightarrow> (mon_connection_end m', replies))"

definition mon_handle_signal :: "monitor \<Rightarrow> monitor" where
  "mon_handle_signal m = m\<lparr>mon_sm := fst (handle_signal (mon_sm m)), mon_closing := True\<rparr>"

section \<open>Hang checks\<close>

definition mon_is_hb_timeout_elapsed :: "real \<Rightarrow> monitor \<Rightarrow> mon_exc + bool" where
  "mon_is_hb_timeout_elapsed now m =
     (case mon_last_hb m of
        None \<Rightarrow>
          (case mon_start m of
             None \<Rightarrow> Inl NoneArithmetic
           | Some s \<Rightarrow> Inr (case cf_initial_hb_timeout (mon_cfg m) of
                               None \<Rightarrow> False | Some t \<Rightarrow> t < now - s))
      | Some h \<Rightarrow> Inr (case cf_hb_timeout (mon_cfg m) of
                          None \<Rightarrow> False | Some t \<Rightarrow> t < now - h))"

definition mon_timeout_of :: "string option \<Rightarrow> monitor \<Rightarrow> real option" where
  "mon_timeout_of sec m =
     (let tos = cf_section_timeouts (mon_cfg m);
          base = (case sec of None \<Rightarrow> None
                  | Some n \<Rightarrow> (case map_of tos n of None \<Rightarrow> None | Some t \<Rightarrow> t))
      in case (map_of tos ''warmup'', mon_initial_iter m, mon_current_iter m) of
           (Some w, Some i0, Some i) \<Rightarrow>
             if sec = Some ''step'' \<and> i - i0 < cf_num_warmup (mon_cfg m) then w else base
         | _ \<Rightarrow> base)"

definition mon_section_overdue :: "real \<Rightarrow> monitor \<Rightarrow> string option \<times> real \<Rightarrow> bool" where
  "mon_section_overdue now m p =
     (case mon_timeout_of (fst p) m of None \<Rightarrow> False | Some t \<Rightarrow> t < now - snd p)"

text \<open>The loop over the open sections assigns \<open>is_elapsed\<close> afresh in every round.\<close>

definition mon_is_section_timeout_elapsed :: "real \<Rightarrow> monitor \<Rightarrow> mon_exc + bool" where
  "mon_is_section_timeout_elapsed now m =
     (let is_elapsed = fold (\<lambda>p _. mon_section_overdue now m p) (mon_open m) False
      in if mon_open m \<noteq> [] then Inr is_elapsed
         else if cf_section_timeouts (mon_cfg m) \<noteq> []
                 \<and> map_of (cf_section_timeouts (mon_cfg m)) ''warmup'' = None
                 \<and> \<not> mon_step_seen m
         then Inr False
         else case mon_oos m of
                None \<Rightarrow> Inl NoneArithmetic
              | Some s \<Rightarrow> Inr (case cf_oos_timeout (mon_cfg m) of
                                  None \<Rightarrow> False | Some t \<Rightarrow> t < now - s))"

text \<open>
  One round of \<open>_periodic_rank_check\<close>; \<open>_handle_signal\<close> cancels the task that runs it.
  \<open>alive\<close> is \<open>is_process_alive\<close>. The signals sent are pairs of a process and a signal.
\<close>

definition sigcont :: int where "sigcont = 18"

definition mon_shutdown_rank_if_alive :: "(int \<Rightarrow> bool) \<Rightarrow> monitor \<Rightarrow> (int \<times> int) list" where
  "mon_shutdown_rank_if_alive alive m =
     (case mon_rank_info m of
        None \<Rightarrow> []
      | Some ri \<Rightarrow>
          if alive (ri_pid ri) then [(ri_pid ri, sigcont), (ri_pid ri, cf_term_signal (mon_cfg m))]
          else [])"

definition mon_periodic_rank_check ::
    "(int \<Rightarrow> bool) \<Rightarrow> real \<Rightarrow> monitor \<Rightarrow> mon_exc + (int \<times> int) list" where
  "mon_periodic_rank_check alive now m =
     (if mon_closing m \<or> mon_rank_info m = None then Inr []
      else res_bind (mon_is_hb_timeout_elapsed now m) (\<lambda>hb.
           res_bind (mon_is_section_timeout_elapsed now m) (\<lambda>sec.
             Inr (if hb \<or> sec then mon_shutdown_rank_if_alive alive m else []))))"

section \<open>Runs of the server\<close>

datatype mon_event =
    EvConnect
  | EvConnectTimeout
  | EvReceive ipc_msg
  | EvLost
  | EvLauncherUpdate update_config
  | EvSignal
  | EvCheck

fun mon_step :: "real \<Rightarrow> mon_event \<Rightarrow> monitor \<Rightarrow> monitor" where
  "mon_step now EvConnect m = mon_connect m"
| "mon_step now EvConnectTimeout m = mon_connect_timeout m"
| "mon_step now (EvReceive msg) m = fst (mon_receive now msg m)"
| "mon_step now EvLost m = mon_connection_end m"
| "mon_step now (EvLauncherUpdate u) m = fst (mon_handle_update_config u False m)"
| "mon_step now EvSignal m = mon_handle_signal m"
| "mon_step now EvCheck m = m"

fun mon_run :: "(real \<times> mon_event) list \<Rightarrow> monitor \<Rightarrow> monitor" where
  "mon_run [] m = m"
| "mon_run ((now, e) # es) m = mon_run es (mon_step now e m)"

inductive mon_reachable :: "monitor \<Rightarrow> bool" where
  start: "mon_reachable (mon_new cfg)"
| event: "mon_reachable m \<Longrightarrow> mon_reachable (mon_step now e m)"

lemma mon_run_reachable: "mon_reachable m \<Longrightarrow> mon_reachable (mon_run es m)"
  by (induction es m rule: mon_run.induct) (auto intro: mon_reachable.event)

text \<open>While a rank is known, the times the checks subtract from are set.\<close>

definition mon_inv :: "monitor \<Rightarrow> bool" where
  "mon_inv m \<longleftrightarrow> (mon_rank_info m \<noteq> None \<longrightarrow>
     mon_start m \<noteq> None \<and> (mon_open m = [] \<longrightarrow> mon_oos m \<noteq> None))"

lemma mon_inv_frame [simp]:
  "mon_inv (m\<lparr>mon_cfg := c\<rparr>) = mon_inv m"
  "mon_inv (m\<lparr>mon_last_hb := h\<rparr>) = mon_inv m"
  "mon_inv (m\<lparr>mon_sm := sm\<rparr>) = mon_inv m"
  "mon_inv (m\<lparr>mon_initial_iter := i\<rparr>) = mon_inv m"
  "mon_inv (m\<lparr>mon_current_iter := i\<rparr>) = mon_inv m"
  "mon_inv (m\<lparr>mon_step_seen := b\<rparr>) = mon_inv m"
  "mon_inv (m\<lparr>mon_cycle := n\<rparr>) = mon_inv m"
  "mon_inv (m\<lparr>mon_writer := b\<rparr>) = mon_inv m"
  "mon_inv (m\<lparr>mon_locked := b\<rparr>) = mon_inv m"
  "mon_inv (m\<lparr>mon_closing := b\<rparr>) = mon_inv m"
  by (simp_all add: mon_inv_def)

lemmas mon_handler_defs = mon_handle_update_config_def mon_handle_init_def mon_handle_heartbeat_def
  mon_handle_section_def mon_track_iteration_def mon_section_action_def

lemmas mon_connection_defs = mon_connect_def mon_connect_timeout_def mon_connection_end_def
  mon_handle_ipc_connection_lost_def mon_handle_signal_def

lemma mon_lost_inv [simp]: "mon_inv (mon_connection_end m)"
  by (simp add: mon_inv_def mon_connection_defs)

lemma mon_section_action_inv:
  "mon_inv m \<Longrightarrow> mon_inv (fst (mon_section_action now sec action m))"
  by (auto simp: mon_section_action_def mon_inv_def Let_def split: section_action.splits)

lemma mon_track_iteration_inv [simp]: "mon_inv (mon_track_iteration sec it m) = mon_inv m"
  by (simp add: mon_track_iteration_def split: option.splits)

lemma mon_update_config_inv [simp]: "mon_inv (fst (mon_handle_update_config u send m)) = mon_inv m"
  by (simp add: mon_handle_update_config_def Let_def split: option.splits)

lemma mon_handle_section_inv:
  assumes "mon_inv m"
  shows "mon_inv (fst (mon_handle_section now sec action it m))"
proof -
  have "mon_inv (fst (mon_section_action now sec action (mon_track_iteration sec it (m\<lparr>mon_sm := sm\<rparr>))))"
    for sm
    using assms by (intro mon_section_action_inv) simp
  then show ?thesis
    using assms by (simp add: mon_handle_section_def Let_def case_prod_beta split: option.splits)
qed

lemma mon_handle_init_inv: "mon_inv (fst (mon_handle_init now info warmup m))"
  by (simp add: mon_handle_init_def Let_def split: option.splits) (simp add: mon_inv_def)

lemma mon_handle_heartbeat_inv: "mon_inv m \<Longrightarrow> mon_inv (fst (mon_handle_heartbeat now b m))"
  by (simp add: mon_handle_heartbeat_def Let_def split: option.splits prod.splits)

lemma mon_handle_msg_inv: "mon_inv m \<Longrightarrow> mon_inv (fst (mon_handle_msg now msg m))"
  by (cases msg)
     (simp_all add: mon_handle_section_inv mon_handle_init_inv mon_handle_heartbeat_inv)

lemma mon_receive_inv: "mon_inv m \<Longrightarrow> mon_inv (fst (mon_receive now msg m))"
  using mon_handle_msg_inv [of m now msg]
  by (auto simp: mon_receive_def split: prod.splits option.splits)

lemma mon_step_inv: "mon_inv m \<Longrightarrow> mon_inv (mon_step now e m)"
  by (cases e)
     (simp_all add: mon_receive_inv mon_connect_def mon_connect_timeout_def mon_handle_signal_def)

lemma mon_reachable_inv: "mon_reachable m \<Longrightarrow> mon_inv m"
proof (induction rule: mon_reachable.induct)
  case (start cfg)
  show ?case by (simp add: mon_inv_def mon_new_def)
next
  case (event m now e)
  then show ?case by (intro mon_step_inv)
qed

lemma mon_hb_total:
  "mon_inv m \<Longrightarrow> mon_rank_info m \<noteq> None \<Longrightarrow> \<exists>b. mon_is_hb_timeout_elapsed now m = Inr b"
  by (auto simp: mon_is_hb_timeout_elapsed_def mon_inv_def split: option.splits)

lemma mon_section_total:
  "mon_inv m \<Longrightarrow> mon_rank_info m \<noteq> None \<Longrightarrow> \<exists>b. mon_is_section_timeout_elapsed now m = Inr b"
  by (auto simp: mon_is_section_timeout_elapsed_def mon_inv_def Let_def split: option.splits)

text \<open>
  C15: the periodic check never raises. In every state the server can reach, whatever messages,
  connections, configuration updates and signals led there, the hang check does its arithmetic on
  times that are set: it returns the signals to send, none of them while no rank is known, and
  only for the process of the rank it is connected to.
\<close>

theorem mon_check_never_raises:
  assumes "mon_reachable m"
  shows "\<exists>sigs. mon_periodic_rank_check alive now m = Inr sigs
     \<and> (mon_rank_info m = None \<longrightarrow> sigs = [])
     \<and> (\<forall>ri. mon_rank_info m = Some ri \<longrightarrow> fst ` set sigs \<subseteq> {ri_pid ri})"
proof (cases "mon_rank_info m")
  case None
  then show ?thesis by (simp add: mon_periodic_rank_check_def)
next
  case (Some ri)
  have "mon_inv m" using assms by (rule mon_reachable_inv)
  then obtain b1 b2 where "mon_is_hb_timeout_elapsed now m = Inr b1"
    "mon_is_section_timeout_elapsed now m = Inr b2"
    using mon_hb_total mon_section_total Some by blast
  then show ?thesis
    using Some by (auto simp: mon_periodic_rank_check_def mon_shutdown_rank_if_alive_def)
qed

text \<open>A small configuration and run for the witnesses below.\<close>

definition mon_demo_cfg :: ft_config where
  "mon_demo_cfg = \<lparr>cf_initial_hb_timeout = Some 60, cf_hb_timeout = Some 10,
     cf_section_timeouts = [], cf_oos_timeout = None, cf_num_warmup = 5, cf_skip_response = True,
     cf_term_signal = 9\<rparr>"

definition mon_demo_rank :: rank_info where
  "mon_demo_rank = \<lparr>ri_global_rank = 0, ri_local_rank = 0, ri_host = ''h'', ri_pid = 42\<rparr>"

definition mon_demo :: monitor where
  "mon_demo = mon_run [(0, EvConnect), (1, EvReceive (InitMsg (Some mon_demo_rank) None))]
     (mon_new mon_demo_cfg)"

lemma mon_demo_reachable: "mon_reachable mon_demo"
  unfolding mon_demo_def by (intro mon_run_reachable mon_reachable.start)

lemma mon_demo_eq:
  "mon_demo = (mon_new mon_demo_cfg)\<lparr>mon_rank_info := Some mon_demo_rank, mon_start := Some 1,
     mon_oos := Some 1, mon_locked := True, mon_writer := True\<rparr>"
  by (simp add: mon_demo_def mon_connect_def mon_receive_def mon_handle_init_def mon_new_def)

theorem mon_check_never_raises_witness:
  "\<exists>sigs. mon_periodic_rank_check (\<lambda>_. True) 100 mon_demo = Inr sigs
     \<and> fst ` set sigs \<subseteq> {42} \<and> mon_rank_info mon_demo = Some mon_demo_rank"
  using mon_check_never_raises [OF mon_demo_reachable, of "\<lambda>_. True" 100]
  by (auto simp: mon_demo_eq mon_demo_rank_def)

section \<open>Detection\<close>

text \<open>Events that come neither from the rank nor with new timeouts.\<close>

fun quiet :: "mon_event \<Rightarrow> bool" where
  "quiet EvConnect = True"
| "quiet EvCheck = True"
| "quiet (EvLauncherUpdate u) = (uc_hb u = None \<and> uc_section u = None)"
| "quiet _ = False"

definition same_watch :: "monitor \<Rightarrow> monitor \<Rightarrow> bool" where
  "same_watch m m' \<longleftrightarrow> mon_cfg m' = mon_cfg m \<and> mon_rank_info m' = mon_rank_info m
     \<and> mon_start m' = mon_start m \<and> mon_last_hb m' = mon_last_hb m \<and> mon_oos m' = mon_oos m
     \<and> mon_open m' = mon_open m \<and> mon_initial_iter m' = mon_initial_iter m
     \<and> mon_current_iter m' = mon_current_iter m \<and> mon_step_seen m' = mon_step_seen m
     \<and> mon_closing m' = mon_closing m"

lemma quiet_same_watch: "list_all (\<lambda>p. quiet (snd p)) es \<Longrightarrow> same_watch m (mon_run es m)"
proof (induction es m rule: mon_run.induct)
  case (1 m)
  then show ?case by (simp add: same_watch_def)
next
  case (2 now e es m)
  have "same_watch m (mon_step now e m)"
    using "2.prems" by (cases e)
      (auto simp: same_watch_def mon_connect_def mon_handle_signal_def
        mon_handle_update_config_def split: option.splits)
  then show ?case using 2 by (simp add: same_watch_def)
qed

lemma same_watchD:
  assumes "same_watch m m'"
  shows "mon_cfg m' = mon_cfg m" "mon_rank_info m' = mon_rank_info m" "mon_start m' = mon_start m"
    "mon_last_hb m' = mon_last_hb m" "mon_oos m' = mon_oos m" "mon_open m' = mon_open m"
    "mon_initial_iter m' = mon_initial_iter m" "mon_current_iter m' = mon_current_iter m"
    "mon_step_seen m' = mon_step_seen m" "mon_closing m' = mon_closing m"
  using assms by (simp_all add: same_watch_def)

lemma mon_check_cong:
  "same_watch m m' \<Longrightarrow> mon_periodic_rank_check alive now m' = mon_periodic_rank_check alive now m"
  unfolding mon_periodic_rank_check_def mon_is_hb_timeout_elapsed_def
    mon_is_section_timeout_elapsed_def mon_section_overdue_def mon_timeout_of_def
    mon_shutdown_rank_if_alive_def
  by (simp only: same_watchD)

lemma map_of_all_None: "\<forall>p \<in> set d. snd p = None \<Longrightarrow> map_of d k = Some v \<Longrightarrow> v = None"
  by (auto dest!: map_of_SomeD)

lemma mon_no_section_timeout:
  assumes "\<forall>p \<in> set (cf_section_timeouts (mon_cfg m)). snd p = None"
    and "cf_oos_timeout (mon_cfg m) = None" and "mon_is_section_timeout_elapsed now m = Inr b"
  shows "\<not> b"
proof -
  have none: "mon_timeout_of sec m = None" for sec
    using map_of_all_None [OF assms(1)]
    by (auto simp: mon_timeout_of_def Let_def split: option.splits)
  have "\<not> fold (\<lambda>p _. mon_section_overdue now m p) ps False" for ps
    by (induction ps) (simp_all add: mon_section_overdue_def none)
  then show ?thesis
    using assms(2,3) by (auto simp: mon_is_section_timeout_elapsed_def Let_def
        split: if_splits option.splits)
qed

text \<open>
  C12: a silent rank is detected, and a rank that is not late is left alone. Take any reachable
  server, not shutting down, connected to a rank whose heartbeat it has just accepted at \<open>t0\<close>, with timeout \<open>T\<close>, and
  any further events that are neither messages of the rank nor lost connections nor new timeouts.
  A check after \<open>t0 + T\<close> sends \<open>SIGCONT\<close> and then the termination signal to the rank's process if
  it is alive; a check up to \<open>t0 + T\<close> sends nothing if no section timeout is configured.
\<close>

theorem mon_detects_silence:
  assumes reach: "mon_reachable m" and ri: "mon_rank_info m = Some ri"
    and accepted: "snd (snd (mon_handle_msg t0 (HeartbeatMsg False) m)) = None"
    and running: "\<not> mon_closing m"
    and to: "cf_hb_timeout (mon_cfg m) = Some T"
    and m': "m' = mon_run es (mon_step t0 (EvReceive (HeartbeatMsg False)) m)"
    and quiet: "list_all (\<lambda>p. quiet (snd p)) es"
  shows "(t0 + T < now \<and> alive (ri_pid ri) \<longrightarrow>
            mon_periodic_rank_check alive now m'
              = Inr [(ri_pid ri, sigcont), (ri_pid ri, cf_term_signal (mon_cfg m))])
       \<and> (now \<le> t0 + T \<and> cf_oos_timeout (mon_cfg m) = None
            \<and> (\<forall>p \<in> set (cf_section_timeouts (mon_cfg m)). snd p = None) \<longrightarrow>
            mon_periodic_rank_check alive now m' = Inr [])"
proof -
  let ?m1 = "mon_step t0 (EvReceive (HeartbeatMsg False)) m"
  obtain sm where m1: "?m1 = m\<lparr>mon_sm := sm, mon_last_hb := Some t0\<rparr>"
    using accepted
    by (auto simp: mon_receive_def mon_handle_heartbeat_def Let_def
        split: prod.splits option.splits if_splits)
  have inv: "mon_inv ?m1" using mon_step_inv [OF mon_reachable_inv [OF reach]] .
  have hb: "mon_is_hb_timeout_elapsed now ?m1 = Inr (T < now - t0)"
    using to m1 by (simp add: mon_is_hb_timeout_elapsed_def)
  obtain b where sec: "mon_is_section_timeout_elapsed now ?m1 = Inr b"
    using mon_section_total [OF inv] ri m1 by auto
  have eq: "mon_periodic_rank_check alive now m' = Inr (if T < now - t0 \<or> b
      then mon_shutdown_rank_if_alive alive ?m1 else [])"
    using mon_check_cong [OF quiet_same_watch [OF quiet]] hb sec ri m1 m'
      running
    by (simp add: mon_periodic_rank_check_def)
  moreover have "\<not> b" if "cf_oos_timeout (mon_cfg m) = None"
      "\<forall>p \<in> set (cf_section_timeouts (mon_cfg m)). snd p = None"
    using mon_no_section_timeout [OF _ _ sec] that m1 by simp
  ultimately show ?thesis
    using ri m1 by (auto simp: mon_shutdown_rank_if_alive_def)
qed

theorem mon_detects_silence_witness:
  "mon_periodic_rank_check (\<lambda>_. True) 20
     (mon_run [(8, EvConnect), (9, EvCheck)] (mon_step 5 (EvReceive (HeartbeatMsg False)) mon_demo))
     = Inr [(42, sigcont), (42, 9)]"
proof -
  have h: "mon_rank_info mon_demo = Some mon_demo_rank"
    "snd (snd (mon_handle_msg 5 (HeartbeatMsg False) mon_demo)) = None"
    "\<not> mon_closing mon_demo" "cf_hb_timeout (mon_cfg mon_demo) = Some 10" "cf_term_signal (mon_cfg mon_demo) = 9"
    by (simp_all add: mon_demo_eq mon_new_def mon_demo_cfg_def mon_handle_heartbeat_def
        handle_heartbeat_msg_def handle_msg_def rm_init_def rm_transition_defs)
  show ?thesis
    using mon_detects_silence [OF mon_demo_reachable h(1,2,3,4) refl,
        of "[(8, EvConnect), (9, EvCheck)]" 20 "\<lambda>_. True"] h(5)
    by (simp add: mon_demo_rank_def del: mon_run.simps mon_step.simps)
qed

section \<open>What the checks miss\<close>

lemma mon_section_newest:
  "mon_open m = ps @ [p] \<Longrightarrow>
     mon_is_section_timeout_elapsed now m = Inr (mon_section_overdue now m p)"
  by (simp add: mon_is_section_timeout_elapsed_def)

text \<open>
  with several sections open, the check decides by the one opened last. Its verdict replaces
  that of every section before it, so a section long past its own timeout goes unnoticed for as
  long as a nested section that is not late, or has no timeout, is open. The witness is a run that
  gets there: the section \<open>step\<close> has a timeout of 5 seconds and has been open for 98, and the check
  sends nothing.
\<close>

theorem mon_newest_section_decides:
  assumes "\<not> mon_closing m" and "mon_rank_info m = Some ri"
    and "mon_is_hb_timeout_elapsed now m = Inr False" and "mon_open m = ps @ [p]"
  shows "mon_periodic_rank_check alive now m
    = Inr (if mon_section_overdue now m p then mon_shutdown_rank_if_alive alive m else [])"
  using assms mon_section_newest [OF assms(4)] by (simp add: mon_periodic_rank_check_def)

definition mon_nested_cfg :: ft_config where
  "mon_nested_cfg = \<lparr>cf_initial_hb_timeout = None, cf_hb_timeout = None,
     cf_section_timeouts = [(''step'', Some 5)], cf_oos_timeout = Some 10, cf_num_warmup = 0,
     cf_skip_response = True, cf_term_signal = 9\<rparr>"

definition mon_nested :: monitor where
  "mon_nested = mon_run
     [(0, EvConnect), (1, EvReceive (InitMsg (Some mon_demo_rank) None)),
      (2, EvReceive (SectionActionMsg (Some ''step'') OPEN None)),
      (3, EvReceive (SectionActionMsg (Some ''io'') OPEN None))] (mon_new mon_nested_cfg)"

lemma mon_nested_eq:
  "\<exists>sm. mon_nested = (mon_new mon_nested_cfg)\<lparr>mon_rank_info := Some mon_demo_rank,
     mon_start := Some 1, mon_oos := None, mon_open := [(Some ''step'', 2), (Some ''io'', 3)],
     mon_step_seen := True, mon_sm := sm, mon_locked := True, mon_writer := True\<rparr>"
  by (simp add: mon_nested_def mon_connect_def mon_receive_def mon_handler_defs mon_new_def
      mon_nested_cfg_def handle_section_msg_def handle_msg_def rm_init_def rm_transition_defs)

theorem mon_newest_section_decides_witness:
  "mon_reachable mon_nested
   \<and> (\<exists>p \<in> set (mon_open mon_nested). mon_section_overdue 100 mon_nested p)
   \<and> mon_periodic_rank_check (\<lambda>_. True) 100 mon_nested = Inr []"
proof -
  obtain sm where eq: "mon_nested = (mon_new mon_nested_cfg)\<lparr>mon_rank_info := Some mon_demo_rank,
     mon_start := Some 1, mon_oos := None, mon_open := [(Some ''step'', 2), (Some ''io'', 3)],
     mon_step_seen := True, mon_sm := sm, mon_locked := True, mon_writer := True\<rparr>"
    using mon_nested_eq by blast
  have h: "\<not> mon_closing mon_nested" "mon_rank_info mon_nested = Some mon_demo_rank"
    "mon_is_hb_timeout_elapsed 100 mon_nested = Inr False"
    "mon_open mon_nested = [(Some ''step'', 2)] @ [(Some ''io'', 3)]"
    "mon_section_overdue 100 mon_nested (Some ''step'', 2)"
    "\<not> mon_section_overdue 100 mon_nested (Some ''io'', 3)"
    by (simp_all add: eq mon_new_def mon_nested_cfg_def mon_is_hb_timeout_elapsed_def
        mon_section_overdue_def mon_timeout_of_def)
  have "mon_reachable mon_nested"
    unfolding mon_nested_def by (intro mon_run_reachable mon_reachable.start)
  then show ?thesis
    using mon_newest_section_decides [OF h(1-4), of "\<lambda>_. True"] h(4-6) by auto
qed

fun no_init :: "mon_event \<Rightarrow> bool" where
  "no_init (EvReceive (InitMsg info warmup)) = False"
| "no_init _ = True"

lemma mon_section_action_rank [simp]:
  "mon_rank_info (fst (mon_section_action now sec action m)) = mon_rank_info m"
  by (simp add: mon_section_action_def Let_def split: section_action.split)

lemma mon_track_iteration_rank [simp]:
  "mon_rank_info (mon_track_iteration sec it m) = mon_rank_info m"
  by (simp add: mon_track_iteration_def split: option.split)

lemma mon_handle_msg_rank:
  "no_init (EvReceive msg) \<Longrightarrow> mon_rank_info (fst (mon_handle_msg now msg m)) = mon_rank_info m"
  by (cases msg)
     (simp_all add: mon_handle_heartbeat_def mon_handle_section_def mon_handle_update_config_def
       Let_def case_prod_beta split: option.split)

lemma mon_step_unwatched:
  assumes "no_init e" and "mon_rank_info m = None"
  shows "mon_rank_info (mon_step now e m) = None"
proof (cases e)
  case (EvReceive msg)
  then show ?thesis
    using assms mon_handle_msg_rank [of msg now m]
    by (auto simp: mon_receive_def mon_connection_defs split: prod.splits option.splits)
qed (use assms in \<open>simp_all add: mon_connection_defs mon_handle_update_config_def Let_def
        split: option.split\<close>)

lemma mon_run_unwatched:
  "list_all (\<lambda>p. no_init (snd p)) es \<Longrightarrow> mon_rank_info m = None \<Longrightarrow> mon_rank_info (mon_run es m) = None"
  by (induction es m rule: mon_run.induct) (simp_all add: mon_step_unwatched)

text \<open>
  A connection that gives up waiting for the lock ends the session of the rank that holds it.
  Its \<open>finally\<close> block forgets the rank, its sections and its heartbeats and frees the lock; the
  rank's own connection stays open but, short of a new \<open>InitMsg\<close>, no later check ever sends
  anything, whatever the rank does and however long it hangs.
\<close>

theorem mon_connect_timeout_unwatches:
  assumes "\<not> mon_closing m" and "mon_locked m"
    and "m' = mon_run es (mon_step t EvConnectTimeout m)"
    and "list_all (\<lambda>p. no_init (snd p)) es"
  shows "mon_periodic_rank_check alive now m' = Inr []
     \<and> \<not> mon_locked (mon_step t EvConnectTimeout m)"
proof -
  have "mon_rank_info (mon_step t EvConnectTimeout m) = None"
    "\<not> mon_locked (mon_step t EvConnectTimeout m)"
    using assms(1,2) by (simp_all add: mon_connection_defs)
  then show ?thesis
    using mon_run_unwatched [OF assms(4)] assms(3) by (simp add: mon_periodic_rank_check_def)
qed

theorem mon_connect_timeout_unwatches_witness:
  "mon_reachable mon_demo \<and> mon_rank_info mon_demo = Some mon_demo_rank
   \<and> mon_periodic_rank_check (\<lambda>_. True) 1000 mon_demo
       = Inr [(42, sigcont), (42, 9)]
   \<and> mon_periodic_rank_check (\<lambda>_. True) 1000 (mon_run [] (mon_step 61 EvConnectTimeout mon_demo))
       = Inr []"
proof -
  have h: "\<not> mon_closing mon_demo" "mon_locked mon_demo"
    by (simp_all add: mon_demo_eq mon_new_def)
  have "mon_periodic_rank_check (\<lambda>_. True) 1000 mon_demo = Inr [(42, sigcont), (42, 9)]"
    by (simp add: mon_demo_eq mon_new_def mon_demo_cfg_def mon_demo_rank_def
        mon_periodic_rank_check_def mon_is_hb_timeout_elapsed_def
        mon_is_section_timeout_elapsed_def mon_shutdown_rank_if_alive_def)
  then show ?thesis
    using mon_connect_timeout_unwatches [OF h refl, of "[]" "\<lambda>_. True" 1000 61]
      mon_demo_reachable
    by (simp add: mon_demo_eq)
qed

end
