(* ===== verification/PyText.thy ===== *)
theory PyText
  imports NvrxPrelude
begin

text \<open>
  The few string functions of Python the modelled code calls, on ASCII text: \<open>str.strip\<close>,
  \<open>int(text)\<close> and \<open>str(int)\<close>. \<open>int\<close> takes surrounding white space, a sign, and decimal digits
  with single underscores between them; anything else is a \<open>ValueError\<close>, here \<open>None\<close>.
\<close>

definition py_isspace :: "char \<Rightarrow> bool" where
  "py_isspace c \<longleftrightarrow> (let n = of_char c :: nat in 9 \<le> n \<and> n \<le> 13 \<or> 28 \<le> n \<and> n \<le> 32)"

definition py_strip :: "string \<Rightarrow> string" where
  "py_strip s = rev (dropWhile py_isspace (rev (dropWhile py_isspace s)))"

definition py_isdigit :: "char \<Rightarrow> bool" where
  "py_isdigit c \<longleftrightarrow> (let n = of_char c :: nat in 48 \<le> n \<and> n \<le> 57)"

definition digit_value :: "char \<Rightarrow> nat" where
  "digit_value c = of_char c - 48"

fun py_digits :: "nat \<Rightarrow> string \<Rightarrow> nat option" where
  "py_digits acc [] = Some acc"
| "py_digits acc [c] = (if py_isdigit c then Some (10 * acc + digit_value c) else None)"
| "py_digits acc (c # d # cs) =
     (if py_isdigit c then py_digits (10 * acc + digit_value c) (d # cs)
      else if c = CHR ''_'' \<and> py_isdigit d then py_digits (10 * acc + digit_value d) cs
      else None)"

definition py_nat :: "string \<Rightarrow> nat option" where
  "py_nat s = (case s of [] \<Rightarrow> None
     | c # cs \<Rightarrow> if py_isdigit c then py_digits (digit_value c) cs else None)"

definition py_int :: "string \<Rightarrow> int option" where
  "py_int s =
     (case py_strip s of
        [] \<Rightarrow> None
      | c # cs \<Rightarrow>
          if c = CHR ''-'' then map_option (\<lambda>n. - int n) (py_nat cs)
          else if c = CHR ''+'' then map_option int (py_nat cs)
          else map_option int (py_nat (c # cs)))"

fun nat_text :: "nat \<Rightarrow> string" where
  "nat_text n = (if n < 10 then [char_of (48 + n)]
                 else nat_text (n div 10) @ [char_of (48 + n mod 10)])"

declare nat_text.simps [simp del]

definition int_text :: "int \<Rightarrow> string" where
  "int_text i = (if i < 0 then CHR ''-'' # nat_text (nat (- i)) else nat_text (nat i))"

section \<open>Printing and reading back\<close>

lemma of_char_digit [simp]: "d < 10 \<Longrightarrow> (of_char (char_of (48 + d :: nat) :: char) :: nat) = 48 + d"
  by (simp add: of_char_of)

lemma py_isdigit_digit [simp]: "d < 10 \<Longrightarrow> py_isdigit (char_of (48 + d :: nat))"
  by (simp add: py_isdigit_def Let_def)

lemma digit_value_digit [simp]: "d < 10 \<Longrightarrow> digit_value (char_of (48 + d :: nat)) = d"
  by (simp add: digit_value_def)

lemma py_digits_all:
  "list_all py_isdigit cs \<Longrightarrow>
     py_digits acc cs = Some (foldl (\<lambda>a c. 10 * a + digit_value c) acc cs)"
  by (induction acc cs rule: py_digits.induct) simp_all

lemma nat_text_digits: "list_all py_isdigit (nat_text n)"
proof (induction n rule: nat_text.induct)
  case (1 n)
  then show ?case by (subst nat_text.simps) simp
qed

lemma nat_text_not_Nil [simp]: "nat_text n \<noteq> []"
  by (subst nat_text.simps) simp

lemma nat_text_value: "foldl (\<lambda>a c. 10 * a + digit_value c) 0 (nat_text n) = n"
proof (induction n rule: nat_text.induct)
  case (1 n)
  then show ?case by (subst nat_text.simps) simp
qed

lemma py_nat_nat_text: "py_nat (nat_text n) = Some n"
proof -
  obtain c cs where eq: "nat_text n = c # cs" by (meson nat_text_not_Nil neq_Nil_conv)
  have "py_isdigit c" "list_all py_isdigit cs"
    using nat_text_digits [of n] by (simp_all add: eq)
  moreover have "foldl (\<lambda>a c. 10 * a + digit_value c) (digit_value c) cs = n"
    using nat_text_value [of n] by (simp add: eq)
  ultimately show ?thesis by (simp add: py_nat_def eq py_digits_all)
qed

lemma py_isdigit_not_space: "py_isdigit c \<Longrightarrow> \<not> py_isspace c"
  by (auto simp: py_isdigit_def py_isspace_def Let_def)

lemma py_strip_id:
  assumes "s \<noteq> []" and "\<not> py_isspace (hd s)" and "\<not> py_isspace (last s)"
  shows "py_strip s = s"
proof -
  have "dropWhile py_isspace s = s" using assms(1,2) by (cases s) simp_all
  moreover have "dropWhile py_isspace (rev s) = rev s"
    using assms(1,3) by (cases "rev s") (simp_all add: last_rev flip: hd_rev)
  ultimately show ?thesis by (simp add: py_strip_def)
qed

lemma py_int_int_text: "py_int (int_text i) = Some i"
proof -
  have digits: "\<forall>c \<in> set (nat_text n). py_isdigit c" for n
    using nat_text_digits by (simp add: list_all_iff)
  have strip: "py_strip (nat_text n) = nat_text n" for n
    using digits [of n] nat_text_not_Nil [of n]
    by (intro py_strip_id py_isdigit_not_space) (simp_all add: last_in_set)
  have "\<not> py_isspace CHR ''-''" by (simp add: py_isspace_def)
  then have strip_neg: "py_strip (CHR ''-'' # nat_text n) = CHR ''-'' # nat_text n" for n
    using digits [of n] nat_text_not_Nil [of n]
    by (intro py_strip_id) (simp_all add: last_in_set py_isdigit_not_space)
  obtain c cs where eq: "nat_text (nat i) = c # cs" by (meson nat_text_not_Nil neq_Nil_conv)
  have "py_isdigit c" using digits [of "nat i"] by (simp add: eq)
  then have "c \<noteq> CHR ''-''" "c \<noteq> CHR ''+''" by (auto simp: py_isdigit_def)
  then show ?thesis
    using strip [of "nat i"] strip_neg py_nat_nat_text [of "nat i"]
    by (auto simp: int_text_def py_int_def eq py_nat_nat_text)
qed

section \<open>Separated lists\<close>

text \<open>\<open>str.split(c)\<close> and \<open>str.rstrip(c)\<close> for a single character.\<close>

fun py_split :: "char \<Rightarrow> string \<Rightarrow> string list" where
  "py_split c [] = [[]]"
| "py_split c (x # xs) =
     (if x = c then [] # py_split c xs
      else (case py_split c xs of [] \<Rightarrow> [[x]] | w # ws \<Rightarrow> (x # w) # ws))"

definition py_rstrip :: "char \<Rightarrow> string \<Rightarrow> string" where
  "py_rstrip c s = rev (dropWhile (\<lambda>x. x = c) (rev s))"

lemma py_split_plain: "c \<notin> set w \<Longrightarrow> py_split c w = [w]"
  by (induction w) auto

lemma py_split_sep: "c \<notin> set w \<Longrightarrow> py_split c (w @ c # s) = w # py_split c s"
  by (induction w) auto

lemma py_split_terminated:
  "ws \<noteq> [] \<Longrightarrow> \<forall>w \<in> set ws. c \<notin> set w \<and> w \<noteq> [] \<Longrightarrow>
     py_split c (py_rstrip c (concat (map (\<lambda>w. w @ [c]) ws))) = ws"
proof (induction ws rule: rev_induct)
  case (snoc w ws)
  have strip: "py_rstrip c (s @ w @ [c]) = s @ w" for s
    using snoc.prems by (cases w rule: rev_cases) (auto simp: py_rstrip_def)
  have "py_split c (concat (map (\<lambda>w. w @ [c]) vs) @ w) = vs @ [w]"
    if "\<forall>v \<in> set vs. c \<notin> set v" for vs
    using that snoc.prems by (induction vs) (simp_all add: py_split_plain py_split_sep)
  then show ?case using snoc.prems strip by simp
qed simp

lemma int_text_plain: "c \<noteq> CHR ''-'' \<Longrightarrow> \<not> py_isdigit c \<Longrightarrow> c \<notin> set (int_text i)"
  using nat_text_digits by (auto simp: int_text_def list_all_iff)

lemma int_text_not_Nil [simp]: "int_text i \<noteq> []"
  by (simp add: int_text_def)

end
