(* ===== verification/ProgressTracker.thy ===== *)
theory ProgressTracker
  imports PyText
begin

text \<open>
  \<open>TrainingProgressTracker\<close> of \<open>fault_tolerance/progress_tracker.py\<close>: across restart cycles it
  compares the iteration a cycle reached with the one it started from, and asks for an early
  termination after too many consecutive cycles without progress. The checkpoint iteration file is
  read through \<open>read\<close>, the outcome of \<open>open(...).read()\<close> at that moment.
\<close>

section \<open>State and operations\<close>

datatype file_read = Content string | FileNotFound | ReadError

record tracker =
  pt_min_progress :: int
  pt_max_no_progress :: int
  pt_file :: "string option"
  pt_current_max :: int
  pt_last_restart :: int
  pt_no_progress :: nat
  pt_cycle :: int
  pt_not_reported_warned :: bool
  pt_unknown_warned :: bool

definition pt_has_file :: "tracker \<Rightarrow> bool" where
  "pt_has_file t \<longleftrightarrow> (case pt_file t of None \<Rightarrow> False | Some f \<Rightarrow> f \<noteq> [])"

definition pt_update_iteration :: "int \<Rightarrow> tracker \<Rightarrow> tracker" where
  "pt_update_iteration i t = (if pt_current_max t < i then t\<lparr>pt_current_max := i\<rparr> else t)"

definition pt_sync_cycle_number :: "int \<Rightarrow> tracker \<Rightarrow> tracker" where
  "pt_sync_cycle_number n t = t\<lparr>pt_cycle := n\<rparr>"

definition pt_read_iteration :: "file_read \<Rightarrow> tracker \<Rightarrow> tracker \<times> bool" where
  "pt_read_iteration read t =
     (if \<not> pt_has_file t then (t, False)
      else case read of
             Content text \<Rightarrow>
               (let raw = py_strip text
                in if raw = [] then (t, False)
                   else case py_int raw of
                          Some i \<Rightarrow> (pt_update_iteration i t, True)
                        | None \<Rightarrow> (t, False))
           | FileNotFound \<Rightarrow> (t, False)
           | ReadError \<Rightarrow> (t, False))"

definition pt_new :: "int \<Rightarrow> int \<Rightarrow> int \<Rightarrow> string option \<Rightarrow> file_read \<Rightarrow> tracker" where
  "pt_new min_progress max_no_progress cycle file read =
     (let t = fst (pt_read_iteration read
                \<lparr>pt_min_progress = min_progress, pt_max_no_progress = max_no_progress,
                 pt_file = file, pt_current_max = 0, pt_last_restart = 0, pt_no_progress = 0,
                 pt_cycle = cycle, pt_not_reported_warned = False, pt_unknown_warned = False\<rparr>)
      in t\<lparr>pt_last_restart := pt_current_max t\<rparr>)"

text \<open>The scoring of a finished cycle, and the reset for the next one.\<close>

definition pt_score :: "tracker \<Rightarrow> tracker" where
  "pt_score t =
     (if pt_last_restart t = 0 \<and> pt_current_max t = 0
      then t\<lparr>pt_not_reported_warned := True\<rparr>
      else if pt_min_progress t \<le> pt_current_max t - pt_last_restart t
      then t\<lparr>pt_no_progress := 0\<rparr>
      else t\<lparr>pt_no_progress := pt_no_progress t + 1\<rparr>)"

definition pt_analyze_previous_cycle :: "file_read \<Rightarrow> tracker \<Rightarrow> tracker" where
  "pt_analyze_previous_cycle read t =
     (if pt_max_no_progress t \<le> 0 then t
      else case pt_read_iteration read t of (t1, known) \<Rightarrow>
        if pt_has_file t1 \<and> \<not> known
        then t1\<lparr>pt_unknown_warned := True, pt_cycle := pt_cycle t1 + 1\<rparr>
        else (let t2 = pt_score (t1\<lparr>pt_unknown_warned := False\<rparr>)
              in t2\<lparr>pt_cycle := pt_cycle t2 + 1, pt_last_restart := pt_current_max t2,
                    pt_current_max := 0\<rparr>))"

definition pt_should_terminate_early :: "tracker \<Rightarrow> bool" where
  "pt_should_terminate_early t \<longleftrightarrow>
     0 < pt_max_no_progress t \<and> pt_max_no_progress t \<le> int (pt_no_progress t)"

fun pt_run :: "file_read list \<Rightarrow> tracker \<Rightarrow> tracker" where
  "pt_run [] t = t"
| "pt_run (r # rs) t = pt_run rs (pt_analyze_previous_cycle r t)"

section \<open>The abstract specification\<close>

text \<open>
  What a checkpoint file says: its iteration, if the text is a number. The specification looks at
  the known iterations only. Each is compared with the previous one; a pair of zeros is not
  scored, progress of at least the minimum clears the count, and anything else adds one.
\<close>

definition known_iteration :: "file_read \<Rightarrow> int option" where
  "known_iteration r =
     (case r of
        Content text \<Rightarrow> if py_strip text = [] then None else py_int (py_strip text)
      | _ \<Rightarrow> None)"

definition spec_score :: "int \<Rightarrow> int \<Rightarrow> int \<Rightarrow> nat \<Rightarrow> nat" where
  "spec_score minp prev cur n =
     (if prev = 0 \<and> cur = 0 then n else if minp \<le> cur - prev then 0 else n + 1)"

fun spec_count :: "int \<Rightarrow> int \<Rightarrow> int \<Rightarrow> nat \<Rightarrow> int list \<Rightarrow> int \<times> nat" where
  "spec_count minp low prev n [] = (prev, n)"
| "spec_count minp low prev n (k # ks) =
     (let cur = max low k in spec_count minp 0 cur (spec_score minp prev cur n) ks)"

definition known_iterations :: "file_read list \<Rightarrow> int list" where
  "known_iterations rs = map the (filter (\<lambda>k. k \<noteq> None) (map known_iteration rs))"

lemma known_iterations_simps [simp]:
  "known_iterations [] = []"
  "known_iterations (r # rs) =
     (case known_iteration r of None \<Rightarrow> known_iterations rs | Some k \<Rightarrow> k # known_iterations rs)"
  by (simp_all add: known_iterations_def split: option.splits)

lemma py_strip_idem [simp]: "py_strip (py_strip s) = py_strip s"
proof (cases "py_strip s = []")
  case True
  have "py_strip [] = []" by (simp add: py_strip_def)
  then show ?thesis using True by simp
next
  case False
  have split: "\<not> P (hd (dropWhile P xs))" if "dropWhile P xs \<noteq> []" for P and xs :: string
    using that by (rule hd_dropWhile)
  let ?m = "rev (dropWhile py_isspace s)"
  have "py_strip s = rev (dropWhile py_isspace ?m)" by (simp add: py_strip_def)
  then have last: "\<not> py_isspace (last (py_strip s))"
    using False split [of py_isspace ?m] by (simp add: last_rev)
  obtain pre where pre: "?m = pre @ dropWhile py_isspace ?m"
    by (metis takeWhile_dropWhile_id)
  then have "dropWhile py_isspace s = py_strip s @ rev pre"
    using \<open>py_strip s = _\<close> by (metis rev_append rev_rev_ident)
  then have "hd (py_strip s) = hd (dropWhile py_isspace s)" "dropWhile py_isspace s \<noteq> []"
    using False by simp_all
  then have "\<not> py_isspace (hd (py_strip s))"
    using split [of py_isspace s] by simp
  then show ?thesis using last False by (intro py_strip_id)
qed

lemma pt_read_iteration_eq:
  "pt_has_file t \<Longrightarrow> pt_read_iteration r t =
     (case known_iteration r of None \<Rightarrow> (t, False) | Some i \<Rightarrow> (pt_update_iteration i t, True))"
  by (auto simp: pt_read_iteration_def known_iteration_def Let_def
      split: file_read.splits option.splits)

lemma pt_has_file_simps [simp]:
  "pt_has_file (pt_update_iteration i t) = pt_has_file t"
  "pt_has_file (pt_score t) = pt_has_file t"
  by (simp_all add: pt_has_file_def pt_update_iteration_def pt_score_def)

text \<open>One analysis with a file: nothing but warnings and the cycle number for an unknown
  iteration, one step of the specification for a known one.\<close>

lemma pt_analyze_unknown:
  assumes "pt_has_file t" and "0 < pt_max_no_progress t" and "known_iteration r = None"
  shows "pt_analyze_previous_cycle r t = t\<lparr>pt_unknown_warned := True, pt_cycle := pt_cycle t + 1\<rparr>"
  using assms by (simp add: pt_analyze_previous_cycle_def pt_read_iteration_eq)

lemma pt_analyze_known:
  assumes "pt_has_file t" and "0 < pt_max_no_progress t" and "known_iteration r = Some k"
  shows "\<exists>w. pt_analyze_previous_cycle r t =
     t\<lparr>pt_no_progress := spec_score (pt_min_progress t) (pt_last_restart t)
                            (max (pt_current_max t) k) (pt_no_progress t),
       pt_last_restart := max (pt_current_max t) k, pt_current_max := 0,
       pt_cycle := pt_cycle t + 1, pt_unknown_warned := False, pt_not_reported_warned := w\<rparr>"
  using assms
  by (cases t) (auto simp: pt_analyze_previous_cycle_def pt_read_iteration_eq pt_score_def
      spec_score_def pt_update_iteration_def pt_has_file_def Let_def max_def)

lemma pt_run_spec:
  assumes "pt_has_file t" and "0 < pt_max_no_progress t"
  shows "(pt_last_restart (pt_run rs t), pt_no_progress (pt_run rs t)) =
           spec_count (pt_min_progress t) (pt_current_max t) (pt_last_restart t)
             (pt_no_progress t) (known_iterations rs)
       \<and> pt_cycle (pt_run rs t) = pt_cycle t + int (length rs)
       \<and> pt_max_no_progress (pt_run rs t) = pt_max_no_progress t"
  using assms
proof (induction rs arbitrary: t)
  case Nil
  then show ?case by simp
next
  case (Cons r rs)
  show ?case
  proof (cases "known_iteration r")
    case None
    let ?t = "t\<lparr>pt_unknown_warned := True, pt_cycle := pt_cycle t + 1\<rparr>"
    have "pt_analyze_previous_cycle r t = ?t"
      using Cons.prems None by (rule pt_analyze_unknown)
    moreover have "pt_has_file ?t" using Cons.prems(1) by (simp add: pt_has_file_def)
    ultimately show ?thesis
      using Cons.IH [of ?t] Cons.prems(2) None by simp
  next
    case (Some k)
    let ?cur = "max (pt_current_max t) k"
    obtain w where "pt_analyze_previous_cycle r t =
     t\<lparr>pt_no_progress := spec_score (pt_min_progress t) (pt_last_restart t) ?cur
                           (pt_no_progress t),
       pt_last_restart := ?cur, pt_current_max := 0,
       pt_cycle := pt_cycle t + 1, pt_unknown_warned := False, pt_not_reported_warned := w\<rparr>"
      (is "_ = ?t") using pt_analyze_known [OF Cons.prems Some] by blast
    moreover have "pt_has_file ?t" using Cons.prems(1) by (simp add: pt_has_file_def)
    ultimately show ?thesis
      using Cons.IH [of ?t] Cons.prems(2) Some by (simp add: Let_def)
  qed
qed

text \<open>The count never exceeds the known cycles, and progress in the last of them clears it.\<close>

lemma spec_count_append:
  "spec_count minp low prev n (ks @ [k]) =
     (let (prev', n') = spec_count minp low prev n ks;
          cur = max (if ks = [] then low else 0) k
      in (cur, spec_score minp prev' cur n'))"
  by (induction ks arbitrary: low prev n) (simp_all add: Let_def)

lemma spec_count_bound: "snd (spec_count minp low prev n ks) \<le> n + length ks"
proof (induction ks arbitrary: low prev n)
  case Nil
  then show ?case by simp
next
  case (Cons k ks)
  let ?n = "spec_score minp prev (max low k) n"
  have "?n \<le> n + 1" by (simp add: spec_score_def)
  then show ?case using Cons.IH [of 0 "max low k" ?n] by (simp add: Let_def)
qed

lemma spec_count_stuck:
  assumes "0 < v" and "0 < minp" and "low = 0 \<or> low = v"
  shows "spec_count minp low v n (replicate m v) = (v, n + m)"
  using assms(3)
proof (induction m arbitrary: low n)
  case 0
  then show ?case by simp
next
  case (Suc m)
  have "max low v = v" using Suc.prems assms(1) by auto
  then show ?case using Suc.IH [of 0] assms by (simp add: spec_score_def)
qed

text \<open>
  C40: the tracker implements its specification. With a checkpoint file and tracking enabled, after
  any sequence of restart cycles the iteration carried over and the count of cycles without
  progress are those of the specification on the iterations that could be read: an unreadable,
  empty or malformed file changes neither, only the cycle number moves.
\<close>

theorem pt_implements_spec:
  assumes "file = Some f" and "f \<noteq> []" and "0 < limit"
    and base: "b = (case known_iteration r0 of None \<Rightarrow> 0 | Some k \<Rightarrow> max 0 k)"
  shows "(pt_last_restart (pt_run rs (pt_new minp limit cyc file r0)),
          pt_no_progress (pt_run rs (pt_new minp limit cyc file r0)))
           = spec_count minp b b 0 (known_iterations rs)
       \<and> pt_cycle (pt_run rs (pt_new minp limit cyc file r0)) = cyc + int (length rs)"
proof -
  let ?t = "pt_new minp limit cyc file r0"
  have hf: "pt_has_file ?t" and f: "pt_max_no_progress ?t = limit" "pt_min_progress ?t = minp"
    "pt_no_progress ?t = 0" "pt_cycle ?t = cyc" "pt_current_max ?t = b" "pt_last_restart ?t = b"
    using assms
    by (auto simp: pt_new_def pt_read_iteration_eq pt_has_file_def pt_update_iteration_def Let_def
        max_def split: option.splits)
  show ?thesis using pt_run_spec [OF hf, of rs] assms(3) f by simp
qed

theorem pt_implements_spec_witness:
  "pt_no_progress (pt_run [Content ''50'', FileNotFound, Content ''50 '', Content ''x'', Content ''60'', Content ''60'']
      (pt_new 1 3 0 (Some ''it.txt'') (Content ''40''))) = 1"
proof -
  have "known_iterations [Content ''50'', FileNotFound, Content ''50 '', Content ''x'', Content ''60'', Content ''60'']
      = [50, 50, 60, 60]" "known_iteration (Content ''40'') = Some 40"
    by code_simp+
  then show ?thesis
    using pt_implements_spec [of "Some ''it.txt''" "''it.txt''" 3 40 "Content ''40''"
      "[Content ''50'', FileNotFound, Content ''50 '', Content ''x'', Content ''60'', Content ''60'']" 1 0]
    by (simp add: spec_score_def)
qed

text \<open>
  early termination happens exactly at the configured number of cycles. A job whose
  checkpoint stays at a positive iteration is asked to stop after as many cycles as the limit and
  not before; a job whose last known cycle made the required progress is never asked to stop; and
  no job is asked to stop before as many known cycles as the limit have passed.
\<close>

theorem pt_terminates_stuck_jobs:
  assumes "file = Some f" and "f \<noteq> []" and "0 < limit" and "0 < minp"
  shows "(known_iteration r0 = Some v \<and> 0 < v \<and> known_iterations rs = replicate m v \<longrightarrow>
            (pt_should_terminate_early (pt_run rs (pt_new minp limit cyc file r0)) \<longleftrightarrow> limit \<le> int m))
       \<and> (known_iterations rs = ks @ [i, j, k] \<and> 0 \<le> j \<and> minp \<le> k - j \<longrightarrow>
            \<not> pt_should_terminate_early (pt_run rs (pt_new minp limit cyc file r0)))
       \<and> (int (length (known_iterations rs)) < limit \<longrightarrow>
            \<not> pt_should_terminate_early (pt_run rs (pt_new minp limit cyc file r0)))"
proof -
  let ?t = "pt_run rs (pt_new minp limit cyc file r0)"
  let ?b = "case known_iteration r0 of None \<Rightarrow> 0 | Some k \<Rightarrow> max 0 k"
  have cnt: "(pt_last_restart ?t, pt_no_progress ?t) = spec_count minp ?b ?b 0 (known_iterations rs)"
    using pt_run_spec [of "pt_new minp limit cyc file r0" rs] assms
    by (auto simp: pt_new_def pt_read_iteration_eq pt_has_file_def pt_update_iteration_def Let_def
        max_def split: option.splits)
  have lim: "pt_max_no_progress ?t = limit"
    using pt_run_spec [of "pt_new minp limit cyc file r0" rs] assms
    by (auto simp: pt_new_def pt_read_iteration_eq pt_has_file_def pt_update_iteration_def Let_def
        split: option.splits)
  show ?thesis
  proof (intro conjI impI)
    assume "known_iteration r0 = Some v \<and> 0 < v \<and> known_iterations rs = replicate m v"
    then show "pt_should_terminate_early ?t \<longleftrightarrow> limit \<le> int m"
      using cnt lim spec_count_stuck [of v minp v 0 m] assms
      by (simp add: pt_should_terminate_early_def)
  next
    assume ks: "known_iterations rs = ks @ [i, j, k] \<and> 0 \<le> j \<and> minp \<le> k - j"
    obtain p n where pn: "spec_count minp ?b ?b 0 ((ks @ [i]) @ [j]) = (p, n)" by fastforce
    have "p = max 0 j"
      using pn unfolding spec_count_append by (simp add: Let_def split: prod.splits)
    moreover have "spec_count minp ?b ?b 0 (((ks @ [i]) @ [j]) @ [k])
        = (max 0 k, spec_score minp p (max 0 k) n)"
      unfolding spec_count_append [of _ _ _ _ "(ks @ [i]) @ [j]"] pn by (simp add: Let_def)
    ultimately have "pt_no_progress ?t = 0"
      using cnt ks assms(4) by (simp add: spec_score_def)
    then show "\<not> pt_should_terminate_early ?t"
      using lim assms(3) by (simp add: pt_should_terminate_early_def)
  next
    assume "int (length (known_iterations rs)) < limit"
    then show "\<not> pt_should_terminate_early ?t"
      using cnt lim spec_count_bound [of minp ?b ?b 0 "known_iterations rs"]
      by (cases "spec_count minp ?b ?b 0 (known_iterations rs)")
         (simp add: pt_should_terminate_early_def)
  qed
qed

theorem pt_terminates_stuck_jobs_witness:
  "pt_should_terminate_early (pt_run [Content ''7'', Content ''7'', Content ''7'']
      (pt_new 1 3 0 (Some ''it.txt'') (Content ''7'')))
   \<and> \<not> pt_should_terminate_early (pt_run [Content ''7'', Content ''7'']
      (pt_new 1 3 0 (Some ''it.txt'') (Content ''7'')))"
proof -
  have "known_iterations [Content ''7'', Content ''7'', Content ''7''] = replicate 3 7"
    "known_iterations [Content ''7'', Content ''7''] = replicate 2 7"
    "known_iteration (Content ''7'') = Some 7"
    by code_simp+
  then show ?thesis
    using pt_terminates_stuck_jobs [of "Some ''it.txt''" "''it.txt''" 3 1 "Content ''7''" 7
        "[Content ''7'', Content ''7'', Content ''7'']" 3 0 "[]" 0 0 0]
      pt_terminates_stuck_jobs [of "Some ''it.txt''" "''it.txt''" 3 1 "Content ''7''" 7
        "[Content ''7'', Content ''7'']" 2 0 "[]" 0 0 0]
    by simp
qed

text \<open>
  a job whose checkpoint file reads 0 in every cycle is never asked to stop: a known iteration
  0 after a baseline of 0 is treated as if iterations were not reported at all.
\<close>

theorem pt_zero_never_scored:
  assumes "file = Some f" and "f \<noteq> []" and "0 < limit"
    and "\<forall>r \<in> set (r0 # rs). known_iteration r = Some 0"
  shows "\<not> pt_should_terminate_early (pt_run rs (pt_new minp limit cyc file r0))"
proof -
  let ?t = "pt_new minp limit cyc file r0"
  have "known_iterations rs = replicate (length rs) 0"
    using assms(4) by (induction rs) simp_all
  moreover have "spec_count minp 0 0 0 (replicate m 0) = (0, 0)" for m
    by (induction m) (simp_all add: spec_score_def)
  moreover have "pt_has_file ?t \<and> pt_max_no_progress ?t = limit \<and> pt_min_progress ?t = minp
      \<and> pt_no_progress ?t = 0 \<and> pt_current_max ?t = 0 \<and> pt_last_restart ?t = 0"
    using assms
    by (auto simp: pt_new_def pt_read_iteration_eq pt_has_file_def pt_update_iteration_def Let_def
        split: option.splits)
  ultimately have "pt_no_progress (pt_run rs ?t) = 0" "pt_max_no_progress (pt_run rs ?t) = limit"
    using pt_run_spec [of ?t rs] assms(3) by simp_all
  then show ?thesis using assms(3) by (simp add: pt_should_terminate_early_def)
qed

theorem pt_zero_never_scored_witness:
  "\<not> pt_should_terminate_early (pt_run [Content ''0'', Content ''0'', Content ''0'', Content ''0'']
      (pt_new 1 3 0 (Some ''it.txt'') (Content ''0'')))"
proof -
  have "known_iteration (Content ''0'') = Some 0" by code_simp
  then show ?thesis
    using pt_zero_never_scored [of "Some ''it.txt''" "''it.txt''" 3 "Content ''0''"
        "[Content ''0'', Content ''0'', Content ''0'', Content ''0'']" 1 0]
    by simp
qed

end
