(* ===== verification/InprocRanks.thy ===== *)
theory InprocRanks
  imports PyText "HOL-Library.Multiset"
begin

text \<open>
  Rank reassignment after a fault: \<open>inprocess/state.py\<close>, the composable assignments and filters of
  \<open>inprocess/rank_assignment.py\<close> (all but \<open>Tree\<close>, which has its own theory) and
  \<open>inprocess/compose.py\<close>. A set of ranks is the list of its members in the order the set iterates;
  a \<open>RankAssignment\<close> is a function from a context to a context or the exception it raises. Log
  messages are left out.
\<close>

section \<open>State\<close>

datatype rank_mode = INITIALIZED | ACTIVE | INACTIVE | TERMINATED

record 'x istate =
  is_rank :: "int option"
  is_world_size :: int
  is_active_rank :: "int option"
  is_active_world_size :: "int option"
  is_initial_rank :: "int option"
  is_initial_world_size :: "int option"
  is_iteration :: int
  is_mode :: rank_mode
  is_fn_exception :: "'x option"

definition state_post_init :: "'x istate \<Rightarrow> 'x istate" where
  "state_post_init s =
     s\<lparr>is_initial_rank := (case is_initial_rank s of None \<Rightarrow> is_rank s | r \<Rightarrow> r),
       is_initial_world_size :=
         (case is_initial_world_size s of None \<Rightarrow> Some (is_world_size s) | w \<Rightarrow> w)\<rparr>"

definition state_from_env :: "int option \<Rightarrow> int option \<Rightarrow> 'x istate" where
  "state_from_env env_rank env_world_size =
     (let rank = (case env_rank of None \<Rightarrow> 0 | Some r \<Rightarrow> r);
          world_size = (case env_world_size of None \<Rightarrow> 1 | Some w \<Rightarrow> w)
      in state_post_init
           \<lparr>is_rank = Some rank, is_world_size = world_size, is_active_rank = None,
            is_active_world_size = None, is_initial_rank = Some rank,
            is_initial_world_size = Some world_size, is_iteration = 0, is_mode = INITIALIZED,
            is_fn_exception = None\<rparr>)"

definition state_advance :: "'x istate \<Rightarrow> 'x istate" where
  "state_advance s = s\<lparr>is_iteration := is_iteration s + 1, is_fn_exception := None\<rparr>"

datatype ra_exc =
    RankDiscarded "int option" "int list"
  | CompareNone
  | ZeroDivision
  | IndexOutOfRange
  | RootKeysDiffer
  | FilterAssertion
  | BadRankText

record 'x ra_ctx =
  rc_state :: "'x istate"
  rc_terminated :: "int list"

section \<open>Filters\<close>

definition activate_all_ranks :: "'x ra_ctx \<Rightarrow> ra_exc + 'x ra_ctx" where
  "activate_all_ranks ctx =
     (let s = rc_state ctx
      in Inr (ctx\<lparr>rc_state := s\<lparr>is_mode := ACTIVE, is_active_rank := is_rank s,
                                is_active_world_size := Some (is_world_size s)\<rparr>\<rparr>))"

text \<open>The part the two filters share: ranks below the active world size are active.\<close>

definition current_active_world_size :: "'x istate \<Rightarrow> int" where
  "current_active_world_size s =
     (case is_active_world_size s of
        None \<Rightarrow> is_world_size s
      | Some w \<Rightarrow> min w (is_world_size s))"

definition activate_below :: "int \<Rightarrow> 'x ra_ctx \<Rightarrow> ra_exc + 'x ra_ctx" where
  "activate_below w ctx =
     (let s = rc_state ctx
      in case is_rank s of
           None \<Rightarrow> Inl CompareNone
         | Some r \<Rightarrow>
             Inr (ctx\<lparr>rc_state :=
               (if r < w then s\<lparr>is_mode := ACTIVE, is_active_rank := Some r,
                                is_active_world_size := Some w\<rparr>
                else s\<lparr>is_mode := INACTIVE, is_active_rank := None,
                       is_active_world_size := Some w\<rparr>)\<rparr>))"

definition max_active_world_size :: "int option \<Rightarrow> 'x ra_ctx \<Rightarrow> ra_exc + 'x ra_ctx" where
  "max_active_world_size limit ctx =
     (let w = current_active_world_size (rc_state ctx);
          w' = (case limit of None \<Rightarrow> w | Some m \<Rightarrow> min w m)
      in activate_below w' ctx)"

text \<open>\<open>//\<close> rounds towards minus infinity, as \<open>div\<close> on integers does.\<close>

definition active_world_size_divisible_by :: "int \<Rightarrow> 'x ra_ctx \<Rightarrow> ra_exc + 'x ra_ctx" where
  "active_world_size_divisible_by divisor ctx =
     (if divisor = 0 then Inl ZeroDivision
      else activate_below (current_active_world_size (rc_state ctx) div divisor * divisor) ctx)"

section \<open>Reassignment\<close>

definition fill_gaps :: "'x ra_ctx \<Rightarrow> ra_exc + 'x ra_ctx" where
  "fill_gaps ctx =
     (let s = rc_state ctx;
          ts = rc_terminated ctx;
          ordered = sort ts;
          world_size = is_world_size s - int (length ts);
          done = (\<lambda>r. Inr (ctx\<lparr>rc_state := s\<lparr>is_rank := Some r, is_world_size := world_size\<rparr>,
                               rc_terminated := []\<rparr>))
      in case is_rank s of
           None \<Rightarrow> Inl CompareNone
         | Some r \<Rightarrow>
             if r \<in> set ts then Inl (RankDiscarded (Some r) ts)
             else if world_size \<le> r then
               (if nat (r - world_size) < length ordered then done (ordered ! nat (r - world_size))
                else Inl IndexOutOfRange)
             else done r)"

definition shift_ranks :: "'x ra_ctx \<Rightarrow> ra_exc + 'x ra_ctx" where
  "shift_ranks ctx =
     (let s = rc_state ctx;
          ts = rc_terminated ctx;
          world_size = is_world_size s - int (length ts)
      in case is_rank s of
           None \<Rightarrow> Inl CompareNone
         | Some r \<Rightarrow>
             if r \<in> set ts then Inl (RankDiscarded (Some r) ts)
             else Inr (ctx\<lparr>rc_state := s\<lparr>is_rank := Some (r - int (length (filter (\<lambda>t. t < r) ts))),
                                        is_world_size := world_size\<rparr>,
                           rc_terminated := []\<rparr>))"

section \<open>Composition\<close>

text \<open>\<open>Compose(a, b, c)\<close> calls \<open>c\<close> first; each result is the argument of the next call.\<close>

fun compose :: "('c \<Rightarrow> 'e + 'c) list \<Rightarrow> 'c \<Rightarrow> 'e + 'c" where
  "compose [] ctx = Inr ctx"
| "compose (f # fs) ctx = res_bind (compose fs ctx) f"

lemma compose_append: "compose (fs @ gs) ctx = res_bind (compose gs ctx) (compose fs)"
  by (induction fs) (simp_all add: res_bind_def split: sum.split)

section \<open>Filtering by group counts\<close>

text \<open>
  \<open>FilterCountGroupedByKey\<close> runs on every rank against a shared store. The calls between two
  barriers may interleave in any order, and no rank passes a barrier before all live ranks reached
  it; a run is therefore the order in which the ranks add to their counters, then the order in
  which they submit. Keys of the store are the texts the code builds, the value of a counter is the
  number that \<open>add\<close> has reached.
\<close>

record fc_store =
  fc_counts :: "(string, int) dict"
  fc_list :: "string option"

definition fc_prefixed_key :: "string \<Rightarrow> string \<Rightarrow> string" where
  "fc_prefixed_key name key = ''filter_grouped_by_key_'' @ name @ ''_'' @ key"

definition fc_add :: "string \<Rightarrow> int \<Rightarrow> fc_store \<Rightarrow> fc_store" where
  "fc_add key n st =
     st\<lparr>fc_counts := AList.update key
          (n + (case map_of (fc_counts st) key of None \<Rightarrow> 0 | Some c \<Rightarrow> c)) (fc_counts st)\<rparr>"

definition fc_append :: "string \<Rightarrow> fc_store \<Rightarrow> fc_store" where
  "fc_append text st =
     st\<lparr>fc_list := Some ((case fc_list st of None \<Rightarrow> [] | Some old \<Rightarrow> old) @ text)\<rparr>"

definition fc_count_alive :: "string \<Rightarrow> (int \<times> string) \<Rightarrow> fc_store \<Rightarrow> fc_store" where
  "fc_count_alive name p st = fc_add (fc_prefixed_key name (snd p)) 1 st"

definition fc_submit_mismatching ::
    "string \<Rightarrow> (int \<Rightarrow> bool) \<Rightarrow> (int \<times> string) \<Rightarrow> fc_store \<Rightarrow> fc_store" where
  "fc_submit_mismatching name condition p st =
     (case map_of (fc_counts st) (fc_prefixed_key name (snd p)) of
        None \<Rightarrow> st
      | Some group_count \<Rightarrow>
          if condition group_count then st else fc_append (int_text (fst p) @ '','') st)"

definition fc_ranks_to_terminate :: "fc_store \<Rightarrow> int list option" where
  "fc_ranks_to_terminate st =
     (case fc_list st of
        None \<Rightarrow> Some []
      | Some text \<Rightarrow>
          those (map py_int (py_split CHR '','' (py_rstrip CHR '','' text))))"

definition fc_run ::
    "string \<Rightarrow> (int \<Rightarrow> bool) \<Rightarrow> (int \<times> string) list \<Rightarrow> (int \<times> string) list \<Rightarrow> fc_store" where
  "fc_run name condition adds submits =
     fold (fc_submit_mismatching name condition) submits
       (fold (fc_count_alive name) adds \<lparr>fc_counts = [], fc_list = None\<rparr>)"

definition filter_count_grouped_by_key :: "fc_store \<Rightarrow> 'x ra_ctx \<Rightarrow> ra_exc + 'x ra_ctx" where
  "filter_count_grouped_by_key st ctx =
     (case is_rank (rc_state ctx) of
        None \<Rightarrow> Inl BadRankText
      | Some r \<Rightarrow>
          if r \<in> set (rc_terminated ctx) then Inr ctx
          else (case fc_ranks_to_terminate st of
                  None \<Rightarrow> Inl BadRankText
                | Some rs \<Rightarrow>
                    Inr (ctx\<lparr>rc_terminated := rc_terminated ctx @
                      filter (\<lambda>q. q \<notin> set (rc_terminated ctx)) (remdups rs)\<rparr>)))"

section \<open>Chains of filters\<close>

datatype rank_filter = MaxActiveWorldSize "int option" | ActiveWorldSizeDivisibleBy int

fun call_filter :: "rank_filter \<Rightarrow> 'x ra_ctx \<Rightarrow> ra_exc + 'x ra_ctx" where
  "call_filter (MaxActiveWorldSize limit) = max_active_world_size limit"
| "call_filter (ActiveWorldSizeDivisibleBy divisor) = active_world_size_divisible_by divisor"

fun filter_ok :: "rank_filter \<Rightarrow> bool" where
  "filter_ok (MaxActiveWorldSize None) = True"
| "filter_ok (MaxActiveWorldSize (Some m)) = (0 \<le> m)"
| "filter_ok (ActiveWorldSizeDivisibleBy d) = (0 < d)"

text \<open>The active world size a filter makes of the one it finds.\<close>

fun narrow :: "rank_filter \<Rightarrow> int \<Rightarrow> int" where
  "narrow (MaxActiveWorldSize None) w = w"
| "narrow (MaxActiveWorldSize (Some m)) w = min w m"
| "narrow (ActiveWorldSizeDivisibleBy d) w = w div d * d"

lemma div_mult_le_self: "0 < d \<Longrightarrow> w div d * d \<le> w" for d w :: int
proof -
  assume "0 < d"
  then have "0 \<le> w mod d" by simp
  moreover have "w div d * d + w mod d = w" by simp
  ultimately show ?thesis by linarith
qed

lemma narrow_le: "filter_ok f \<Longrightarrow> narrow f w \<le> w"
  by (cases "(f, w)" rule: narrow.cases) (simp_all add: div_mult_le_self)

lemma narrow_nonneg: "filter_ok f \<Longrightarrow> 0 \<le> w \<Longrightarrow> 0 \<le> narrow f w"
  by (cases "(f, w)" rule: narrow.cases) (simp_all add: pos_imp_zdiv_nonneg_iff)

lemma call_filter_eq:
  "filter_ok f \<Longrightarrow>
     call_filter f ctx = activate_below (narrow f (current_active_world_size (rc_state ctx))) ctx"
  by (cases "(f, 0::int)" rule: narrow.cases)
     (auto simp: max_active_world_size_def active_world_size_divisible_by_def)

lemma narrow_chain_le: "list_all filter_ok fs \<Longrightarrow> foldr narrow fs w \<le> w"
  by (induction fs) (auto intro: order_trans [OF narrow_le])

lemma narrow_chain_nonneg: "list_all filter_ok fs \<Longrightarrow> 0 \<le> w \<Longrightarrow> 0 \<le> foldr narrow fs w"
  by (induction fs) (auto intro: narrow_nonneg)

lemma current_le: "current_active_world_size s \<le> is_world_size s"
  by (simp add: current_active_world_size_def split: option.split)

lemma activate_below_Inr:
  assumes "is_rank (rc_state ctx) = Some r"
  obtains ctx' where "activate_below w ctx = Inr ctx'" "is_rank (rc_state ctx') = Some r"
    "is_world_size (rc_state ctx') = is_world_size (rc_state ctx)"
    "is_active_world_size (rc_state ctx') = Some w"
    "\<And>v. activate_below v ctx' = activate_below v ctx"
  using assms by (auto simp: activate_below_def Let_def split: if_splits)

lemma compose_filters:
  assumes "list_all filter_ok fs" and "fs \<noteq> []" and "is_rank (rc_state ctx) = Some r"
  shows "compose (map call_filter fs) ctx
    = activate_below (foldr narrow fs (current_active_world_size (rc_state ctx))) ctx"
  using assms(1,2)
proof (induction fs)
  case (Cons f fs)
  show ?case
  proof (cases "fs = []")
    case True
    then show ?thesis using Cons.prems by (simp add: call_filter_eq)
  next
    case False
    let ?w = "foldr narrow fs (current_active_world_size (rc_state ctx))"
    obtain ctx' where ctx': "activate_below ?w ctx = Inr ctx'"
      "is_world_size (rc_state ctx') = is_world_size (rc_state ctx)"
      "is_active_world_size (rc_state ctx') = Some ?w"
      "\<And>v. activate_below v ctx' = activate_below v ctx"
      using activate_below_Inr [OF assms(3), of ?w] by metis
    have "?w \<le> is_world_size (rc_state ctx)"
      using narrow_chain_le [of fs] current_le [of "rc_state ctx"] Cons.prems order_trans by auto
    then have "current_active_world_size (rc_state ctx') = ?w"
      using ctx'(2,3) by (simp add: current_active_world_size_def)
    then show ?thesis using Cons False ctx'(1,4) by (simp add: call_filter_eq)
  qed
qed simp

section \<open>The reassignment contract\<close>

text \<open>
  What a reassignment promises the filters that run after it, for the terminated ranks it accepts:
  a terminated rank is discarded; a survivor keeps its state but for its rank and world size; and
  the survivors are numbered without gaps and without clashes.
\<close>

definition reassign_inputs :: "int list \<Rightarrow> int \<Rightarrow> bool" where
  "reassign_inputs ts n \<longleftrightarrow> distinct ts \<and> set ts \<subseteq> {0..<n}"

locale rank_reassignment =
  fixes reassign :: "'x ra_ctx \<Rightarrow> ra_exc + 'x ra_ctx"
    and new_rank :: "int list \<Rightarrow> int \<Rightarrow> int \<Rightarrow> int"
    and accepts :: "int list \<Rightarrow> int \<Rightarrow> bool"
  assumes discards: "r \<in> set (rc_terminated ctx) \<Longrightarrow> is_rank (rc_state ctx) = Some r \<Longrightarrow>
      reassign ctx = Inl (RankDiscarded (Some r) (rc_terminated ctx))"
    and relabels: "reassign_inputs (rc_terminated ctx) n \<Longrightarrow> is_world_size (rc_state ctx) = n \<Longrightarrow>
      is_rank (rc_state ctx) = Some r \<Longrightarrow> r \<in> {0..<n} - set (rc_terminated ctx) \<Longrightarrow>
      reassign ctx = Inr (ctx\<lparr>rc_state := (rc_state ctx)
        \<lparr>is_rank := Some (new_rank (rc_terminated ctx) n r),
         is_world_size := n - int (length (rc_terminated ctx))\<rparr>, rc_terminated := []\<rparr>)"
    and bij: "reassign_inputs ts n \<Longrightarrow> accepts ts n \<Longrightarrow>
      bij_betw (new_rank ts n) ({0..<n} - set ts) {0..<n - int (length ts)}"
begin

lemma active_below_limit:
  assumes "reassign_inputs ts n" and "accepts ts n" and "w \<le> n - int (length ts)"
  shows "bij_betw (new_rank ts n) {r \<in> {0..<n} - set ts. new_rank ts n r < w} {0..<w}"
proof -
  note b = bij [OF assms(1,2)]
  have "new_rank ts n ` {r \<in> {0..<n} - set ts. new_rank ts n r < w} = {0..<w}"
  proof
    show "{0..<w} \<subseteq> new_rank ts n ` {r \<in> {0..<n} - set ts. new_rank ts n r < w}"
    proof
      fix k assume "k \<in> {0..<w}"
      then have "k \<in> new_rank ts n ` ({0..<n} - set ts)" "k < w"
        using assms(3) bij_betw_imp_surj_on [OF b] by auto
      then show "k \<in> new_rank ts n ` {r \<in> {0..<n} - set ts. new_rank ts n r < w}" by blast
    qed
    show "new_rank ts n ` {r \<in> {0..<n} - set ts. new_rank ts n r < w} \<subseteq> {0..<w}"
      using bij_betwE [OF b] by auto
  qed
  moreover have "inj_on (new_rank ts n) {r \<in> {0..<n} - set ts. new_rank ts n r < w}"
    using bij_betw_imp_inj_on [OF b] by (rule inj_on_subset) auto
  ultimately show ?thesis by (simp add: bij_betw_def)
qed

text \<open>Filters composed with the reassignment, on the state of one surviving rank.\<close>

lemma compose_survivor:
  assumes "reassign_inputs ts n" and "r \<in> {0..<n} - set ts"
    and "is_rank s = Some r" and "is_world_size s = n" and "is_active_world_size s = a"
    and "list_all filter_ok fs" and "fs \<noteq> []"
    and "w = foldr narrow fs (case a of None \<Rightarrow> n - int (length ts)
                                        | Some v \<Rightarrow> min v (n - int (length ts)))"
  shows "compose (map call_filter fs @ [reassign]) \<lparr>rc_state = s, rc_terminated = ts\<rparr>
    = Inr \<lparr>rc_state = (if new_rank ts n r < w
          then s\<lparr>is_rank := Some (new_rank ts n r), is_world_size := n - int (length ts),
                 is_mode := ACTIVE, is_active_rank := Some (new_rank ts n r),
                 is_active_world_size := Some w\<rparr>
          else s\<lparr>is_rank := Some (new_rank ts n r), is_world_size := n - int (length ts),
                 is_mode := INACTIVE, is_active_rank := None, is_active_world_size := Some w\<rparr>),
        rc_terminated = []\<rparr>"
proof -
  let ?ctx = "\<lparr>rc_state = s, rc_terminated = ts\<rparr>"
  let ?ctx1 = "\<lparr>rc_state = s\<lparr>is_rank := Some (new_rank ts n r),
      is_world_size := n - int (length ts)\<rparr>, rc_terminated = []\<rparr>"
  have "reassign ?ctx = Inr ?ctx1"
    using relabels [of ?ctx n r] assms(1-4) by simp
  then have "compose (map call_filter fs @ [reassign]) ?ctx = compose (map call_filter fs) ?ctx1"
    by (simp add: compose_append)
  also have "\<dots> = activate_below w ?ctx1"
    using compose_filters [OF assms(6,7), of ?ctx1 "new_rank ts n r"] assms(5,8)
    by (cases a) (simp_all add: current_active_world_size_def)
  finally show ?thesis by (simp add: activate_below_def Let_def)
qed

end

section \<open>The two reassignments meet it\<close>

definition shifted_rank :: "int list \<Rightarrow> int \<Rightarrow> int \<Rightarrow> int" where
  "shifted_rank ts n r = r - int (length (filter (\<lambda>t. t < r) ts))"

definition filled_rank :: "int list \<Rightarrow> int \<Rightarrow> int \<Rightarrow> int" where
  "filled_rank ts n r =
     (if n - int (length ts) \<le> r then sort ts ! nat (r - (n - int (length ts))) else r)"

lemma shifted_rank_gaps: "distinct ts \<Longrightarrow> shifted_rank ts n = (\<lambda>r. r - gaps_below (set ts) r)"
  by (rule ext) (simp add: shifted_rank_def gaps_below_def distinct_length_filter Int_def conj_commute)

interpretation shiftr: rank_reassignment shift_ranks shifted_rank "\<lambda>ts n. True"
proof
  fix ts :: "int list" and n
  assume "reassign_inputs ts n"
  then show "bij_betw (shifted_rank ts n) ({0..<n} - set ts) {0..<n - int (length ts)}"
    using shifted_bij [of "set ts" n]
    by (simp add: reassign_inputs_def shifted_rank_gaps distinct_card)
qed (auto simp: shift_ranks_def shifted_rank_def Let_def)

text \<open>
  \<open>FillGaps\<close> reads the list of all terminated ranks by the offset of the moved rank. That is the
  right gap exactly when no survivor lies above a terminated rank of the discarded tail.
\<close>

definition tail_terminated_last :: "int list \<Rightarrow> int \<Rightarrow> bool" where
  "tail_terminated_last ts n \<longleftrightarrow>
     (\<forall>t \<in> set ts. n - int (length ts) \<le> t \<longrightarrow> (\<forall>r \<in> {t<..<n}. r \<in> set ts))"

lemma sorted_nth_less_iff:
  "sorted xs \<Longrightarrow> i < length xs \<Longrightarrow> xs ! i < m \<longleftrightarrow> i < length (filter (\<lambda>x. x < m) xs)"
  for xs :: "int list"
proof (induction xs arbitrary: i)
  case (Cons x xs)
  show ?case
  proof (cases "x < m")
    case True
    then show ?thesis using Cons by (cases i) simp_all
  next
    case False
    then have ge: "\<forall>y \<in> set (x # xs). \<not> y < m" using Cons.prems(1) by auto
    then have "filter (\<lambda>y. y < m) (x # xs) = []" by (simp only: filter_empty_conv)
    moreover have "\<not> (x # xs) ! i < m" using ge nth_mem [OF Cons.prems(2)] by blast
    ultimately show ?thesis by simp
  qed
qed simp

lemma sort_nth_less_iff:
  "i < length ts \<Longrightarrow> sort ts ! i < m \<longleftrightarrow> i < length (filter (\<lambda>t. t < m) ts)" for ts :: "int list"
  using sorted_nth_less_iff [of "sort ts" i m] by (simp add: filter_sort)

lemma reassign_inputs_size: "reassign_inputs ts n \<Longrightarrow> 0 \<le> n \<Longrightarrow> int (length ts) \<le> n"
  using card_mono [of "{0..<n}" "set ts"]
  by (simp add: reassign_inputs_def distinct_card [symmetric])

text \<open>The survivors of the tail are as many as the gaps of the head.\<close>

lemma tail_survivors:
  assumes "reassign_inputs ts n" and "0 \<le> n" and "m = n - int (length ts)"
  shows "card ({m..<n} - set ts) = length (filter (\<lambda>t. t < m) ts)"
proof -
  have d: "distinct ts" "set ts \<subseteq> {0..<n}" using assms(1) by (simp_all add: reassign_inputs_def)
  have "{m..<n} \<inter> set ts = set (filter (\<lambda>t. \<not> t < m) ts)" using d(2) by auto
  then have "card ({m..<n} \<inter> set ts) = length (filter (\<lambda>t. \<not> t < m) ts)"
    using distinct_card [OF distinct_filter [OF d(1)]] by metis
  moreover have "card ({m..<n} - set ts) = card {m..<n} - card ({m..<n} \<inter> set ts)"
    by (simp add: card_Diff_subset_Int)
  ultimately show ?thesis
    using sum_length_filter_compl [of "\<lambda>t. t < m" ts] assms(3) by simp
qed

lemma tail_terminated_last_iff:
  assumes "reassign_inputs ts n" and "0 \<le> n" and "m = n - int (length ts)"
    and "k = int (length (filter (\<lambda>t. t < m) ts))"
  shows "tail_terminated_last ts n \<longleftrightarrow> {m..<n} - set ts \<subseteq> {m..<m + k}"
proof
  have k: "int (card ({m..<n} - set ts)) = k" using tail_survivors [OF assms(1-3)] assms(4) by simp
  assume last: "tail_terminated_last ts n"
  show "{m..<n} - set ts \<subseteq> {m..<m + k}"
  proof
    fix r assume r: "r \<in> {m..<n} - set ts"
    then have "{m..r} \<subseteq> {m..<n} - set ts"
    proof (intro subsetI)
      fix x assume "x \<in> {m..r}"
      moreover from this have "x \<notin> set ts"
        using last r assms(3) by (cases "x = r") (auto simp: tail_terminated_last_def)
      ultimately show "x \<in> {m..<n} - set ts" using r by auto
    qed
    then have "card {m..r} \<le> card ({m..<n} - set ts)" by (intro card_mono) auto
    then show "r \<in> {m..<m + k}" using k r by auto
  qed
next
  have k: "card ({m..<n} - set ts) = card {m..<m + k}"
    using tail_survivors [OF assms(1-3)] assms(4) by simp
  assume "{m..<n} - set ts \<subseteq> {m..<m + k}"
  then have eq: "{m..<n} - set ts = {m..<m + k}" using k by (intro card_subset_eq) auto
  show "tail_terminated_last ts n"
    unfolding tail_terminated_last_def
  proof (intro ballI impI)
    fix t r assume t: "t \<in> set ts" "n - int (length ts) \<le> t" and r: "r \<in> {t<..<n}"
    have "t \<notin> {m..<m + k}" using t(1) by (simp add: eq [symmetric])
    then have "r \<notin> {m..<m + k}" using t(2) r assms(3) by auto
    then have "r \<notin> {m..<n} - set ts" by (simp add: eq)
    then show "r \<in> set ts" using t(2) r assms(3) by auto
  qed
qed

lemma filled_rank_range:
  assumes "reassign_inputs ts n" and "0 \<le> n" and "m = n - int (length ts)" and "r \<in> {0..<n} - set ts"
  shows "filled_rank ts n r \<in> {0..<m} \<longleftrightarrow> r < m + int (length (filter (\<lambda>t. t < m) ts))"
proof (cases "m \<le> r")
  case True
  have len: "nat (r - m) < length ts" using True assms(3,4) by auto
  have "sort ts ! nat (r - m) \<in> set ts" using nth_mem [of "nat (r - m)" "sort ts"] len by simp
  then have "0 \<le> sort ts ! nat (r - m)" using assms(1) by (auto simp: reassign_inputs_def)
  then show ?thesis
    using sort_nth_less_iff [OF len, of m] True assms(3)
    by (auto simp: filled_rank_def nat_less_iff)
next
  case False
  then show ?thesis using assms(3,4) by (auto simp: filled_rank_def)
qed

lemma filled_rank_inj:
  assumes "reassign_inputs ts n"
  shows "inj_on (filled_rank ts n) ({0..<n} - set ts)"
proof (rule inj_onI)
  let ?m = "n - int (length ts)"
  have d: "distinct (sort ts)" using assms by (simp add: reassign_inputs_def)
  have moved: "filled_rank ts n x \<in> set ts \<longleftrightarrow> ?m \<le> x" if "x \<in> {0..<n} - set ts" for x
    using that nth_mem [of "nat (x - ?m)" "sort ts"] by (auto simp: filled_rank_def)
  fix x y assume xy: "x \<in> {0..<n} - set ts" "y \<in> {0..<n} - set ts"
    and eq: "filled_rank ts n x = filled_rank ts n y"
  show "x = y"
  proof (cases "?m \<le> x")
    case True
    then have "?m \<le> y" using moved xy eq by metis
    moreover have "nat (x - ?m) < length ts" "nat (y - ?m) < length ts"
      using True calculation xy by auto
    ultimately have "nat (x - ?m) = nat (y - ?m)"
      using True eq nth_eq_iff_index_eq [OF d, of "nat (x - ?m)" "nat (y - ?m)"]
      by (simp add: filled_rank_def)
    then show ?thesis using True \<open>?m \<le> y\<close> by simp
  next
    case False
    then have "\<not> ?m \<le> y" using moved xy eq by metis
    then show ?thesis using False eq by (simp add: filled_rank_def)
  qed
qed

lemma filled_rank_bij_iff:
  assumes "reassign_inputs ts n" and "0 \<le> n"
  shows "bij_betw (filled_rank ts n) ({0..<n} - set ts) {0..<n - int (length ts)}
    \<longleftrightarrow> tail_terminated_last ts n"
proof -
  let ?m = "n - int (length ts)" and ?S = "{0..<n} - set ts"
  have m: "0 \<le> ?m" using reassign_inputs_size [OF assms] by simp
  have "card ?S = card {0..<?m}"
    using card_int_diff [of "set ts" n] assms m by (simp add: reassign_inputs_def distinct_card)
  then have "filled_rank ts n ` ?S = {0..<?m} \<longleftrightarrow> filled_rank ts n ` ?S \<subseteq> {0..<?m}"
    using card_image [OF filled_rank_inj [OF assms(1)]] card_subset_eq [of "{0..<?m}"] by auto
  also have "\<dots> \<longleftrightarrow> (\<forall>r \<in> ?S. r < ?m + int (length (filter (\<lambda>t. t < ?m) ts)))"
    using filled_rank_range [OF assms refl] by blast
  also have "\<dots> \<longleftrightarrow> tail_terminated_last ts n"
  proof -
    let ?k = "int (length (filter (\<lambda>t. t < ?m) ts))"
    have "(\<forall>r \<in> ?S. r < ?m + ?k) \<longleftrightarrow> {?m..<n} - set ts \<subseteq> {?m..<?m + ?k}"
    proof
      assume sub: "{?m..<n} - set ts \<subseteq> {?m..<?m + ?k}"
      show "\<forall>r \<in> ?S. r < ?m + ?k"
      proof (intro ballI)
        fix r assume r: "r \<in> ?S"
        show "r < ?m + ?k"
        proof (cases "?m \<le> r")
          case True
          then have "r \<in> {?m..<?m + ?k}" using sub r by (intro subsetD [OF sub]) simp
          then show ?thesis by simp
        qed simp
      qed
    qed (use m in auto)
    then show ?thesis using tail_terminated_last_iff [OF assms refl refl] by simp
  qed
  finally show ?thesis using filled_rank_inj [OF assms(1)] by (simp add: bij_betw_def)
qed

interpretation fillg: rank_reassignment fill_gaps filled_rank "\<lambda>ts n. 0 \<le> n \<and> tail_terminated_last ts n"
proof
  fix ctx :: "'x ra_ctx" and n r
  assume "reassign_inputs (rc_terminated ctx) n" "is_world_size (rc_state ctx) = n"
    "is_rank (rc_state ctx) = Some r" "r \<in> {0..<n} - set (rc_terminated ctx)"
  then show "fill_gaps ctx = Inr (ctx\<lparr>rc_state := (rc_state ctx)
        \<lparr>is_rank := Some (filled_rank (rc_terminated ctx) n r),
         is_world_size := n - int (length (rc_terminated ctx))\<rparr>, rc_terminated := []\<rparr>)"
    by (auto simp: fill_gaps_def filled_rank_def Let_def)
qed (auto simp: fill_gaps_def filled_rank_bij_iff Let_def)

section \<open>Properties of the reassignments\<close>

definition world_states :: "int \<Rightarrow> (int \<Rightarrow> 'x istate) \<Rightarrow> bool" where
  "world_states n S \<longleftrightarrow> (\<forall>r \<in> {0..<n}. is_rank (S r) = Some r \<and> is_world_size (S r) = n)"

definition env_states :: "int \<Rightarrow> int \<Rightarrow> string istate" where
  "env_states n r = state_from_env (Some r) (Some n)"

lemma env_states_ok: "world_states n (env_states n)"
  by (simp add: world_states_def env_states_def state_from_env_def state_post_init_def)

lemma shifted_rank_mono:
  assumes "reassign_inputs ts n" and "a \<in> {0..<n} - set ts" and "a < b"
  shows "shifted_rank ts n a < shifted_rank ts n b"
  using assms shifted_strict_mono [of a b "set ts"]
  by (simp add: reassign_inputs_def shifted_rank_gaps)

text \<open>
  C16: \<open>ShiftRanks\<close> closes the gaps. In a world of \<open>n\<close> ranks with the terminated ranks \<open>ts\<close>, every
  terminated rank is discarded, and the survivors come out with the world size \<open>n - |ts|\<close>, the rest
  of their state untouched, and with ranks that keep their order and use every number from 0 up to
  the new world size exactly once.
\<close>

theorem shift_ranks_closes_gaps:
  assumes "reassign_inputs ts n" and "world_states n S"
  shows "(\<forall>r \<in> set ts. shift_ranks \<lparr>rc_state = S r, rc_terminated = ts\<rparr>
              = Inl (RankDiscarded (Some r) ts))
    \<and> (\<exists>f. bij_betw f ({0..<n} - set ts) {0..<n - int (length ts)}
         \<and> strict_mono_on ({0..<n} - set ts) f
         \<and> (\<forall>r \<in> {0..<n} - set ts. shift_ranks \<lparr>rc_state = S r, rc_terminated = ts\<rparr>
              = Inr \<lparr>rc_state = (S r)\<lparr>is_rank := Some (f r),
                                     is_world_size := n - int (length ts)\<rparr>,
                     rc_terminated = []\<rparr>))"
proof (intro conjI exI [of _ "shifted_rank ts n"] ballI)
  show "bij_betw (shifted_rank ts n) ({0..<n} - set ts) {0..<n - int (length ts)}"
    using shiftr.bij [OF assms(1)] by simp
  show "strict_mono_on ({0..<n} - set ts) (shifted_rank ts n)"
    using shifted_rank_mono [OF assms(1)] by (auto simp: strict_mono_on_def)
next
  fix r assume "r \<in> set ts"
  then have "is_rank (S r) = Some r" using assms by (auto simp: reassign_inputs_def world_states_def)
  then show "shift_ranks \<lparr>rc_state = S r, rc_terminated = ts\<rparr> = Inl (RankDiscarded (Some r) ts)"
    using shiftr.discards [of r "\<lparr>rc_state = S r, rc_terminated = ts\<rparr>"] \<open>r \<in> set ts\<close> by simp
next
  fix r assume "r \<in> {0..<n} - set ts"
  then show "shift_ranks \<lparr>rc_state = S r, rc_terminated = ts\<rparr>
      = Inr \<lparr>rc_state = (S r)\<lparr>is_rank := Some (shifted_rank ts n r),
          is_world_size := n - int (length ts)\<rparr>, rc_terminated = []\<rparr>"
    using shiftr.relabels [of "\<lparr>rc_state = S r, rc_terminated = ts\<rparr>" n r] assms
    by (simp add: world_states_def)
qed

theorem shift_ranks_closes_gaps_witness:
  "\<exists>f. bij_betw f ({0..<8} - {1, 4, 5}) {0..<5::int}
     \<and> (\<forall>r \<in> {0..<8} - {1, 4, 5}. \<exists>c. shift_ranks
          \<lparr>rc_state = env_states 8 r, rc_terminated = [4, 1, 5]\<rparr> = Inr c
          \<and> is_rank (rc_state c) = Some (f r))"
proof -
  have set: "set [4, 1, 5] = {1, 4, 5 :: int}" by auto
  have "reassign_inputs [4, 1, 5] 8" by (simp add: reassign_inputs_def)
  from shift_ranks_closes_gaps [OF this env_states_ok] show ?thesis
    unfolding set by (elim conjE exE) (rule exI, rule conjI, simp, simp)
qed

text \<open>
  \<open>FillGaps\<close> keeps the rank of every survivor below the new world size, but numbers the
  survivors without gaps and clashes exactly if no survivor lies above a terminated rank that is
  itself at or above the new world size. The witness is the example of the class's own
  documentation, where ranks 6 and 7 do not move to 1 and 4.
\<close>

theorem fill_gaps_correct_iff:
  assumes "reassign_inputs ts n" and "0 \<le> n" and "world_states n S"
  shows "\<exists>g. (\<forall>r \<in> {0..<n} - set ts. fill_gaps \<lparr>rc_state = S r, rc_terminated = ts\<rparr>
            = Inr \<lparr>rc_state = (S r)\<lparr>is_rank := Some (g r),
                                   is_world_size := n - int (length ts)\<rparr>,
                   rc_terminated = []\<rparr>
            \<and> (r < n - int (length ts) \<longrightarrow> g r = r))
       \<and> (bij_betw g ({0..<n} - set ts) {0..<n - int (length ts)} \<longleftrightarrow> tail_terminated_last ts n)"
proof (intro exI [of _ "filled_rank ts n"] conjI ballI impI)
  fix r assume r: "r \<in> {0..<n} - set ts"
  then show "fill_gaps \<lparr>rc_state = S r, rc_terminated = ts\<rparr>
      = Inr \<lparr>rc_state = (S r)\<lparr>is_rank := Some (filled_rank ts n r),
          is_world_size := n - int (length ts)\<rparr>, rc_terminated = []\<rparr>"
    using fillg.relabels [of "\<lparr>rc_state = S r, rc_terminated = ts\<rparr>" n r] assms
    by (simp add: world_states_def)
  show "filled_rank ts n r = r" if "r < n - int (length ts)"
    using that by (simp add: filled_rank_def)
qed (rule filled_rank_bij_iff [OF assms(1,2)])

theorem fill_gaps_correct_iff_witness:
  "\<exists>g. (\<forall>r \<in> {0..<8} - {1, 4, 5}. \<exists>c. fill_gaps
          \<lparr>rc_state = env_states 8 r, rc_terminated = [1, 4, 5]\<rparr> = Inr c
          \<and> is_rank (rc_state c) = Some (g r))
     \<and> \<not> bij_betw g ({0..<8} - {1, 4, 5}) {0..<5::int}"
proof -
  have set: "set [1, 4, 5] = {1, 4, 5 :: int}" by auto
  have inputs: "reassign_inputs [1, 4, 5] 8" by (simp add: reassign_inputs_def)
  have "6 \<in> {5<..<8::int}" "6 \<notin> set [1, 4, 5::int]" by simp_all
  moreover have "5 \<in> set [1, 4, 5::int]" "8 - int (length [1, 4, 5::int]) \<le> 5" by simp_all
  ultimately have "\<not> tail_terminated_last [1, 4, 5] 8"
    unfolding tail_terminated_last_def by blast
  then obtain g where
    "\<forall>r \<in> {0..<8} - set [1, 4, 5]. fill_gaps \<lparr>rc_state = env_states 8 r, rc_terminated = [1, 4, 5]\<rparr>
      = Inr \<lparr>rc_state = (env_states 8 r)\<lparr>is_rank := Some (g r), is_world_size := 8 - int (length [1, 4, 5])\<rparr>,
             rc_terminated = []\<rparr>"
    "\<not> bij_betw g ({0..<8} - set [1, 4, 5]) {0..<8 - int (length [1, 4, 5])}"
    using fill_gaps_correct_iff [OF inputs _ env_states_ok] by auto
  then show ?thesis unfolding set by (intro exI [of _ g]) simp
qed

text \<open>
  Reassignment followed by activation. When \<open>ShiftRanks\<close> runs and then any filters that bound
  the active world size or make it divisible, all survivors agree on one active world size \<open>w\<close>; it
  is within the new world size and every bound, and a multiple of the divisor applied last. Exactly
  \<open>w\<close> of them are active, one with each active rank below \<open>w\<close>; the others are inactive and have no
  active rank.
\<close>

theorem shift_then_filter_activates:
  assumes "reassign_inputs ts n" and "0 \<le> n" and "world_states n S"
    and "\<forall>r \<in> {0..<n}. is_active_world_size (S r) = a" and "\<forall>v. a = Some v \<longrightarrow> 0 \<le> v"
    and "list_all filter_ok fs" and "fs \<noteq> []"
  shows "\<exists>w f. 0 \<le> w \<and> w \<le> n - int (length ts)
     \<and> (\<forall>m. MaxActiveWorldSize (Some m) \<in> set fs \<longrightarrow> w \<le> m)
     \<and> (\<forall>d. hd fs = ActiveWorldSizeDivisibleBy d \<longrightarrow> d dvd w)
     \<and> bij_betw f {r \<in> {0..<n} - set ts. f r < w} {0..<w}
     \<and> (\<forall>r \<in> {0..<n} - set ts. \<exists>c.
          compose (map call_filter fs @ [shift_ranks]) \<lparr>rc_state = S r, rc_terminated = ts\<rparr> = Inr c
          \<and> is_active_world_size (rc_state c) = Some w
          \<and> (if f r < w then is_mode (rc_state c) = ACTIVE \<and> is_active_rank (rc_state c) = Some (f r)
             else is_mode (rc_state c) = INACTIVE \<and> is_active_rank (rc_state c) = None))"
proof -
  let ?m = "n - int (length ts)"
  define v where "v = (case a of None \<Rightarrow> ?m | Some v \<Rightarrow> min v ?m)"
  define w where "w = foldr narrow fs v"
  have v: "0 \<le> v" "v \<le> ?m"
    using assms(5) reassign_inputs_size [OF assms(1,2)] by (auto simp: v_def split: option.split)
  have "0 \<le> w" unfolding w_def by (rule narrow_chain_nonneg [OF assms(6) v(1)])
  moreover have "w \<le> ?m" unfolding w_def using narrow_chain_le [OF assms(6)] v(2) order_trans by blast
  moreover have "w \<le> m" if "MaxActiveWorldSize (Some m) \<in> set fs" for m
    unfolding w_def using that assms(6)
    by (induction fs) (auto intro: order_trans [OF narrow_le])
  moreover have "d dvd w" if "hd fs = ActiveWorldSizeDivisibleBy d" for d
    unfolding w_def using that assms(7) by (cases fs) simp_all
  moreover have "bij_betw (shifted_rank ts n)
      {r \<in> {0..<n} - set ts. shifted_rank ts n r < w} {0..<w}"
    using shiftr.active_below_limit [OF assms(1)] \<open>w \<le> ?m\<close> by simp
  moreover have "\<exists>c. compose (map call_filter fs @ [shift_ranks])
        \<lparr>rc_state = S r, rc_terminated = ts\<rparr> = Inr c
      \<and> is_active_world_size (rc_state c) = Some w
      \<and> (if shifted_rank ts n r < w
         then is_mode (rc_state c) = ACTIVE \<and> is_active_rank (rc_state c) = Some (shifted_rank ts n r)
         else is_mode (rc_state c) = INACTIVE \<and> is_active_rank (rc_state c) = None)"
    if "r \<in> {0..<n} - set ts" for r
    using shiftr.compose_survivor [OF assms(1) that _ _ _ assms(6,7), of "S r" a w] that assms(3,4)
    by (simp add: world_states_def w_def v_def)
  ultimately show ?thesis by blast
qed

theorem shift_then_filter_activates_witness:
  "\<exists>w f. w \<le> 6 \<and> 4 dvd w \<and> bij_betw f {r \<in> {0..<10::int} - set [2, 7]. f r < w} {0..<w::int}"
  using shift_then_filter_activates [of "[2, 7]" 10 "env_states 10" None
      "[ActiveWorldSizeDivisibleBy 4, MaxActiveWorldSize (Some 6)]", OF _ _ env_states_ok]
  by (simp add: reassign_inputs_def env_states_def state_from_env_def state_post_init_def) blast

section \<open>Group counts\<close>

lemma fc_prefixed_key_inj [simp]: "fc_prefixed_key name k = fc_prefixed_key name k' \<longleftrightarrow> k = k'"
  by (simp add: fc_prefixed_key_def)

definition group_size :: "(int \<times> string) list \<Rightarrow> string \<Rightarrow> int" where
  "group_size ps k = int (length (filter (\<lambda>p. snd p = k) ps))"

lemma fc_counts_fold:
  "map_of (fc_counts (fold (fc_count_alive name) ps st)) (fc_prefixed_key name k)
     = (if group_size ps k = 0 then map_of (fc_counts st) (fc_prefixed_key name k)
        else Some (group_size ps k
               + (case map_of (fc_counts st) (fc_prefixed_key name k) of None \<Rightarrow> 0 | Some c \<Rightarrow> c)))"
proof (induction ps arbitrary: st)
  case (Cons p ps)
  show ?case
    unfolding fold_simps comp_def Cons.IH
    by (cases "snd p = k")
       (auto simp: group_size_def fc_count_alive_def fc_add_def update_conv' split: option.splits)
qed (simp add: group_size_def)

lemma fc_list_count [simp]: "fc_list (fold (fc_count_alive name) ps st) = fc_list st"
  by (induction ps arbitrary: st) (simp_all add: fc_count_alive_def fc_add_def)

lemma fc_submit_fold:
  assumes "\<And>p. p \<in> set ps \<Longrightarrow> map_of (fc_counts st) (fc_prefixed_key name (snd p)) = Some (cnt (snd p))"
  shows "fc_list (fold (fc_submit_mismatching name condition) ps st)
    = (let bad = filter (\<lambda>p. \<not> condition (cnt (snd p))) ps
       in if bad = [] then fc_list st
          else Some ((case fc_list st of None \<Rightarrow> [] | Some old \<Rightarrow> old)
                     @ concat (map (\<lambda>w. w @ [CHR '','']) (map (int_text \<circ> fst) bad))))"
  using assms
proof (induction ps arbitrary: st)
  case (Cons p ps)
  let ?st = "fc_submit_mismatching name condition p st"
  have p: "?st = (if condition (cnt (snd p)) then st else fc_append (int_text (fst p) @ '','') st)"
    using Cons.prems by (simp add: fc_submit_mismatching_def)
  have "fc_counts ?st = fc_counts st" by (simp add: p fc_append_def)
  then have IH: "fc_list (fold (fc_submit_mismatching name condition) ps ?st)
    = (let bad = filter (\<lambda>p. \<not> condition (cnt (snd p))) ps
       in if bad = [] then fc_list ?st
          else Some ((case fc_list ?st of None \<Rightarrow> [] | Some old \<Rightarrow> old)
                     @ concat (map (\<lambda>w. w @ [CHR '','']) (map (int_text \<circ> fst) bad))))"
    using Cons.prems by (intro Cons.IH) simp
  show ?case
    unfolding fold_simps comp_apply IH
    by (cases "condition (cnt (snd p))") (simp_all add: p fc_append_def Let_def)
qed simp

text \<open>
  \<open>FilterCountGroupedByKey\<close> gives the same answer everywhere. Let \<open>ps\<close> be the live ranks with
  their group keys. In whatever order they add to the group counters and then submit themselves, every
  live rank reads back, through the text in the store, exactly the ranks whose group fails the
  condition, and adds them to the terminated ranks it already has.
\<close>

theorem filter_count_agrees:
  assumes "mset adds = mset ps" and "mset submits = mset ps"
    and "(r, k) \<in> set ps" and "is_rank (rc_state ctx) = Some r" and "r \<notin> set (rc_terminated ctx)"
  shows "\<exists>new. filter_count_grouped_by_key (fc_run name condition adds submits) ctx
      = Inr (ctx\<lparr>rc_terminated := rc_terminated ctx @ new\<rparr>)
    \<and> distinct new
    \<and> set new = {q. \<exists>key. (q, key) \<in> set ps \<and> \<not> condition (group_size ps key)}
                - set (rc_terminated ctx)"
proof -
  let ?st1 = "fold (fc_count_alive name) adds \<lparr>fc_counts = [], fc_list = None\<rparr>"
  let ?bad = "filter (\<lambda>p. \<not> condition (group_size ps (snd p))) submits"
  have size: "group_size adds = group_size ps"
  proof
    fix k
    have "size (filter_mset (\<lambda>p. snd p = k) (mset adds)) = size (filter_mset (\<lambda>p. snd p = k) (mset ps))"
      using assms(1) by simp
    then show "group_size adds k = group_size ps k"
      by (simp only: group_size_def mset_filter [symmetric] size_mset)
  qed
  have sets: "set submits = set ps" using assms(2) by (metis set_mset_mset)
  have "map_of (fc_counts ?st1) (fc_prefixed_key name (snd p)) = Some (group_size ps (snd p))"
    if "p \<in> set submits" for p
  proof -
    have "group_size ps (snd p) \<noteq> 0"
      using that sets by (auto simp: group_size_def filter_empty_conv)
    then show ?thesis by (simp add: fc_counts_fold size)
  qed
  from fc_submit_fold [OF this, of submits condition]
  have stored: "fc_list (fc_run name condition adds submits)
    = (if ?bad = [] then None
       else Some (concat (map (\<lambda>w. w @ [CHR '','']) (map (int_text \<circ> fst) ?bad))))"
    by (simp add: fc_run_def Let_def)
  have plain: "\<forall>w \<in> set (map (int_text \<circ> fst) ?bad). CHR '','' \<notin> set w \<and> w \<noteq> []"
    by (auto simp: int_text_plain py_isdigit_def)
  have parsed: "those (map (\<lambda>p. py_int (int_text (fst p))) qs) = Some (map fst qs)" for qs :: "(int \<times> string) list"
    by (induction qs) (simp_all add: py_int_int_text)
  have "fc_ranks_to_terminate (fc_run name condition adds submits) = Some (map fst ?bad)"
  proof (cases "?bad = []")
    case False
    then have "py_split CHR '','' (py_rstrip CHR '',''
        (concat (map (\<lambda>w. w @ [CHR '','']) (map (int_text \<circ> fst) ?bad)))) = map (int_text \<circ> fst) ?bad"
      using py_split_terminated [OF _ plain] by simp
    then show ?thesis using False parsed [of ?bad]
      by (simp add: fc_ranks_to_terminate_def stored comp_def)
  qed (simp add: fc_ranks_to_terminate_def stored)
  then show ?thesis
    using assms(4,5) sets
    by (intro exI [of _ "filter (\<lambda>q. q \<notin> set (rc_terminated ctx)) (remdups (map fst ?bad))"])
       (auto simp: filter_count_grouped_by_key_def image_iff)
qed

theorem filter_count_agrees_witness:
  "\<exists>new. filter_count_grouped_by_key
       (fc_run ''F'' (\<lambda>c. c = 2) [(2, ''b''), (0, ''a''), (3, ''b'')] [(0, ''a''), (2, ''b''), (3, ''b'')])
       \<lparr>rc_state = env_states 4 2, rc_terminated = [1]\<rparr>
     = Inr \<lparr>rc_state = env_states 4 2, rc_terminated = 1 # new\<rparr> \<and> set new = {0}"
proof -
  let ?ps = "[(0, ''a''), (2, ''b''), (3, ''b'')] :: (int \<times> string) list"
  have "{q. \<exists>key. (q, key) \<in> set ?ps \<and> \<not> group_size ?ps key = 2} - {1} = {0}"
    by (auto simp: group_size_def)
  then show ?thesis
    using filter_count_agrees [of "[(2, ''b''), (0, ''a''), (3, ''b'')]" ?ps ?ps 2 "''b''"
        "\<lparr>rc_state = env_states 4 2, rc_terminated = [1]\<rparr>" "''F''" "\<lambda>c. c = 2"]
    by (auto simp: env_states_def state_from_env_def state_post_init_def)
qed

end
