(* ===== verification/InprocTree.thy ===== *)
theory InprocTree
  imports InprocRanks
begin

text \<open>
  The integrated assignment \<open>Tree\<close> of \<open>inprocess/rank_assignment.py\<close>. The shape of the topology
  tree is fixed once it is built: a leaf is named by its initial rank and carries its chain of
  parents, innermost first, an inner node by the grouping keys on the way to it. What the code
  mutates in its \<open>Node\<close> objects lives in the record \<open>tree\<close>: the state of every leaf, and of every
  inner node the active count and the ordered dictionary of inactive leaves.
\<close>

section \<open>Topology\<close>

record layer =
  ly_min_ranks :: int
  ly_max_ranks :: "int option"
  ly_reserve :: bool
  ly_backfill :: bool

type_synonym node_id = "string list"
type_synonym parents = "(node_id \<times> layer) list"

datatype topo = Leaf int parents | Node node_id layer "topo list"

fun leaf_nodes :: "topo \<Rightarrow> (int \<times> parents) list" where
  "leaf_nodes (Leaf r ps) = [(r, ps)]"
| "leaf_nodes (Node i l cs) = concat (map leaf_nodes cs)"

definition iter_leaves :: "topo \<Rightarrow> int list" where
  "iter_leaves t = map fst (leaf_nodes t)"

definition parents_of :: "topo \<Rightarrow> int \<Rightarrow> parents" where
  "parents_of t r = (case map_of (leaf_nodes t) r of None \<Rightarrow> [] | Some ps \<Rightarrow> ps)"

text \<open>The leaves below a node: those with the node among their parents.\<close>

definition leaves_under :: "topo \<Rightarrow> node_id \<Rightarrow> int list" where
  "leaves_under t i = map fst (filter (\<lambda>p. i \<in> fst ` set (snd p)) (leaf_nodes t))"

text \<open>One round of \<open>build_tree\<close>: walk down along the keys, adding nodes as needed, then the leaf.\<close>

fun is_child :: "node_id \<Rightarrow> topo \<Rightarrow> bool" where
  "is_child i (Node j l cs) = (i = j)"
| "is_child i (Leaf r ps) = False"

fun update_child :: "(topo \<Rightarrow> bool) \<Rightarrow> (topo \<Rightarrow> topo) \<Rightarrow> topo \<Rightarrow> topo list \<Rightarrow> topo list" where
  "update_child P f new [] = [f new]"
| "update_child P f new (c # cs) = (if P c then f c # cs else c # update_child P f new cs)"

fun add_leaf :: "(string \<times> layer) list \<Rightarrow> int \<Rightarrow> parents \<Rightarrow> topo \<Rightarrow> topo" where
  "add_leaf path r ps (Leaf q qs) = Leaf q qs"
| "add_leaf [] r ps (Node i l cs) = Node i l (cs @ [Leaf r ((i, l) # ps)])"
| "add_leaf ((k, ly) # path) r ps (Node i l cs) =
     Node i l (update_child (is_child (i @ [k])) (add_leaf path r ((i, l) # ps))
                 (Node (i @ [k]) ly []) cs)"

section \<open>The mutable part\<close>

record 'x tree =
  tr_topo :: topo
  tr_state :: "int \<Rightarrow> 'x istate"
  tr_active_count :: "node_id \<Rightarrow> int"
  tr_inactive :: "node_id \<Rightarrow> int list"
  tr_rank_map :: "(int, int) dict"

definition set_leaf :: "int \<Rightarrow> ('x istate \<Rightarrow> 'x istate) \<Rightarrow> 'x tree \<Rightarrow> 'x tree" where
  "set_leaf r f tr = tr\<lparr>tr_state := (tr_state tr)(r := f (tr_state tr r))\<rparr>"

definition put_inactive :: "int \<Rightarrow> node_id \<Rightarrow> (node_id \<Rightarrow> int list) \<Rightarrow> node_id \<Rightarrow> int list" where
  "put_inactive r i m = m(i := (if r \<in> set (m i) then m i else m i @ [r]))"

definition pop_inactive :: "int \<Rightarrow> node_id \<Rightarrow> (node_id \<Rightarrow> int list) \<Rightarrow> node_id \<Rightarrow> int list" where
  "pop_inactive r i m = m(i := filter (\<lambda>q. q \<noteq> r) (m i))"

definition leaf_parents :: "'x tree \<Rightarrow> int \<Rightarrow> parents" where
  "leaf_parents tr r = parents_of (tr_topo tr) r"

definition deactivate :: "int \<Rightarrow> 'x tree \<Rightarrow> 'x tree" where
  "deactivate r tr =
     (set_leaf r (\<lambda>s. s\<lparr>is_mode := INACTIVE, is_active_rank := None\<rparr>) tr)
       \<lparr>tr_inactive := fold (\<lambda>p. put_inactive r (fst p)) (leaf_parents tr r) (tr_inactive tr)\<rparr>"

definition terminate :: "int \<Rightarrow> 'x tree \<Rightarrow> 'x tree" where
  "terminate r tr =
     (set_leaf r (\<lambda>s. s\<lparr>is_mode := TERMINATED\<rparr>) tr)
       \<lparr>tr_inactive := fold (\<lambda>p. pop_inactive r (fst p)) (leaf_parents tr r) (tr_inactive tr)\<rparr>"

definition activate :: "int \<Rightarrow> int option \<Rightarrow> 'x tree \<Rightarrow> 'x tree" where
  "activate r active_rank tr =
     (set_leaf r (\<lambda>s. s\<lparr>is_active_rank := active_rank, is_mode := ACTIVE\<rparr>) tr)
       \<lparr>tr_inactive := fold (\<lambda>p. pop_inactive r (fst p)) (leaf_parents tr r) (tr_inactive tr)\<rparr>"

fun backfill_domain :: "node_id option \<Rightarrow> parents \<Rightarrow> node_id option" where
  "backfill_domain domain [] = domain"
| "backfill_domain domain ((i, l) # ps) =
     (if ly_backfill l then backfill_domain (Some i) ps else domain)"

section \<open>First activation\<close>

definition below_max :: "'x tree \<Rightarrow> node_id \<times> layer \<Rightarrow> bool" where
  "below_max tr p =
     (case ly_max_ranks (snd p) of None \<Rightarrow> True | Some m \<Rightarrow> tr_active_count tr (fst p) < m)"

fun bounded_activate :: "topo \<Rightarrow> parents \<Rightarrow> int \<times> 'x tree \<Rightarrow> int \<times> 'x tree" where
  "bounded_activate (Leaf r ps) path (counter, tr) =
     (if list_all (below_max tr) path
      then (counter + 1,
            (activate r (Some counter) tr)
              \<lparr>tr_active_count := fold (\<lambda>p m. m(fst p := m (fst p) + 1)) path (tr_active_count tr)\<rparr>)
      else (counter, deactivate r tr))"
| "bounded_activate (Node i l cs) path (counter, tr) =
     fold (\<lambda>c. bounded_activate c (path @ [(i, l)])) cs (counter, tr)"

text \<open>
  \<open>build_tree\<close>. The states and grouping keys of all ranks come from the store: \<open>keys ! q\<close> are the
  keys of rank \<open>q\<close>, one for every layer, and \<open>states ! q\<close> is its state.
\<close>

definition tree_leaf_id :: "'x istate \<Rightarrow> int" where
  "tree_leaf_id s = the (is_initial_rank s)"

definition build_topo :: "layer list \<Rightarrow> string list list \<Rightarrow> 'x istate list \<Rightarrow> topo" where
  "build_topo layers keys states =
     fold (\<lambda>(key, s). add_leaf (zip (tl key) (tl layers)) (tree_leaf_id s) [])
       (zip keys states) (Node [] (hd layers) [])"

definition build_tree ::
    "layer list \<Rightarrow> string list list \<Rightarrow> 'x istate list \<Rightarrow> ra_exc + 'x tree" where
  "build_tree layers keys states =
     (if \<exists>key \<in> set keys. key = [] then Inl IndexOutOfRange
      else if length (remdups (map hd keys)) \<noteq> 1 then Inl RootKeysDiffer
      else Inr \<lparr>tr_topo = build_topo layers keys states,
                tr_state = (\<lambda>r. case map_of (map (\<lambda>s. (tree_leaf_id s, s)) states) r of
                                  Some s \<Rightarrow> s | None \<Rightarrow> hd states),
                tr_active_count = (\<lambda>_. 0), tr_inactive = (\<lambda>_. []),
                tr_rank_map = fold (\<lambda>s. AList.update (the (is_rank s)) (tree_leaf_id s)) states []\<rparr>)"

definition tree_set_active_world_size :: "int \<Rightarrow> 'x tree \<Rightarrow> 'x tree" where
  "tree_set_active_world_size w tr =
     fold (\<lambda>p. set_leaf (snd p) (\<lambda>s. s\<lparr>is_active_world_size := Some w\<rparr>)) (tr_rank_map tr) tr"

definition tree_init ::
    "layer list \<Rightarrow> string list list \<Rightarrow> 'x istate list \<Rightarrow> ra_exc + 'x tree" where
  "tree_init layers keys states =
     res_bind (build_tree layers keys states) (\<lambda>tr.
       let (active_world_size, tr1) = bounded_activate (tr_topo tr) [] (0, tr)
       in Inr (tree_set_active_world_size active_world_size tr1))"

section \<open>Propagating terminations\<close>

definition leaf_alive :: "'x tree \<Rightarrow> int list \<Rightarrow> int \<Rightarrow> bool" where
  "leaf_alive tr ts r \<longleftrightarrow>
     is_mode (tr_state tr r) \<noteq> TERMINATED \<and> is_rank (tr_state tr r) \<notin> Some ` set ts"

definition count_not_terminated :: "'x tree \<Rightarrow> int list \<Rightarrow> topo \<Rightarrow> int" where
  "count_not_terminated tr ts t = int (length (filter (leaf_alive tr ts) (iter_leaves t)))"

text \<open>Adding to a set given as the list of its members.\<close>

definition add_ranks :: "int list \<Rightarrow> int list \<Rightarrow> int list" where
  "add_ranks new ts = ts @ filter (\<lambda>q. q \<notin> set ts) (remdups new)"

definition terminate_branch :: "'x tree \<Rightarrow> topo \<Rightarrow> layer \<Rightarrow> int list \<Rightarrow> int list" where
  "terminate_branch tr t l ts =
     (if count_not_terminated tr ts t < ly_min_ranks l
      then add_ranks (map (\<lambda>r. the (is_rank (tr_state tr r)))
             (filter (\<lambda>r. is_mode (tr_state tr r) \<noteq> TERMINATED) (iter_leaves t))) ts
      else ts)"

fun propagate_terminations :: "'x tree \<Rightarrow> topo \<Rightarrow> int list \<Rightarrow> int list" where
  "propagate_terminations tr (Leaf r ps) ts = ts"
| "propagate_terminations tr (Node i l cs) ts =
     terminate_branch tr (Node i l cs) l (fold (propagate_terminations tr) cs ts)"

section \<open>Replacement\<close>

text \<open>The nearest parent with an inactive leaf, as long as the parents allow \<open>RESERVE\<close>.\<close>

fun find_reserve :: "(node_id \<Rightarrow> int list) \<Rightarrow> parents \<Rightarrow> node_id option" where
  "find_reserve inactive [] = None"
| "find_reserve inactive ((i, l) # ps) =
     (if ly_reserve l then (if inactive i \<noteq> [] then Some i else find_reserve inactive ps)
      else None)"

definition rank_leaf :: "'x tree \<Rightarrow> int \<Rightarrow> int" where
  "rank_leaf tr q = the (map_of (tr_rank_map tr) q)"

definition replace_one :: "int \<Rightarrow> 'x tree \<times> int list \<Rightarrow> 'x tree \<times> int list" where
  "replace_one q p =
     (let (tr, replaced) = p; t = rank_leaf tr q
      in case find_reserve (tr_inactive tr) (leaf_parents tr t) of
           None \<Rightarrow> (tr, replaced)
         | Some i \<Rightarrow>
             (let spare = last (tr_inactive tr i);
                  tr1 = tr\<lparr>tr_inactive := (tr_inactive tr)(i := butlast (tr_inactive tr i))\<rparr>
              in (activate spare (is_active_rank (tr_state tr t)) tr1, add_ranks [q] replaced)))"

definition replace_with_inactive :: "int list \<Rightarrow> 'x tree \<Rightarrow> 'x tree \<times> int list" where
  "replace_with_inactive terminated_active tr =
     fold replace_one (sort terminated_active) (tr, [])"

definition leaf_active_rank :: "'x tree \<Rightarrow> int \<Rightarrow> int" where
  "leaf_active_rank tr r = the (is_active_rank (tr_state tr r))"

text \<open>
  \<open>replace_with_backfill\<close>. \<open>split_domains\<close> sorts the terminated leaves into their backfill domains,
  in order of appearance; leaves with no domain leave a gap.
\<close>

fun split_domains ::
    "(int \<Rightarrow> node_id option) \<Rightarrow> int list \<Rightarrow> (node_id, int list) dict \<Rightarrow> (node_id, int list) dict" where
  "split_domains domain [] groups = groups"
| "split_domains domain (t # ts) groups =
     (case domain t of
        None \<Rightarrow> split_domains domain ts groups
      | Some d \<Rightarrow> split_domains domain ts
          (AList.update d ((case map_of groups d of None \<Rightarrow> [] | Some us \<Rightarrow> us) @ [t]) groups))"

definition largest_active :: "nat \<Rightarrow> node_id \<Rightarrow> 'x tree \<Rightarrow> int list" where
  "largest_active k d tr =
     take k (sort_key (\<lambda>r. - leaf_active_rank tr r)
       (filter (\<lambda>r. is_mode (tr_state tr r) = ACTIVE) (leaves_under (tr_topo tr) d)))"

fun backfill_pairs :: "int list \<Rightarrow> int list \<Rightarrow> 'x tree \<times> int list \<Rightarrow> 'x tree \<times> int list" where
  "backfill_pairs bs [] (tr, gaps) = (tr, gaps)"
| "backfill_pairs [] (t # ts) (tr, gaps) =
     backfill_pairs [] ts (tr, add_ranks [leaf_active_rank tr t] gaps)"
| "backfill_pairs (b # bs) (t # ts) (tr, gaps) =
     backfill_pairs bs ts
       (set_leaf b (\<lambda>s. s\<lparr>is_active_rank := is_active_rank (tr_state tr t)\<rparr>) tr,
        add_ranks [leaf_active_rank tr b] gaps)"

definition backfill_group :: "node_id \<times> int list \<Rightarrow> 'x tree \<times> int list \<Rightarrow> 'x tree \<times> int list" where
  "backfill_group g p =
     backfill_pairs (rev (largest_active (length (snd g)) (fst g) (fst p))) (snd g) p"

definition replace_with_backfill :: "int list \<Rightarrow> 'x tree \<Rightarrow> 'x tree \<times> int list" where
  "replace_with_backfill unhandled tr =
     (let ts = map (rank_leaf tr) (sort unhandled);
          domain = (\<lambda>t. backfill_domain None (leaf_parents tr t));
          gaps = add_ranks (map (leaf_active_rank tr) (filter (\<lambda>t. domain t = None) ts)) []
      in fold backfill_group (split_domains domain ts []) (tr, gaps))"

section \<open>Shifting, filtering, renumbering\<close>

definition bisect_left :: "int list \<Rightarrow> int \<Rightarrow> int" where
  "bisect_left xs a = int (length (takeWhile (\<lambda>x. x < a) xs))"

definition shift_leaf :: "int list \<Rightarrow> int \<Rightarrow> 'x istate \<Rightarrow> 'x istate" where
  "shift_leaf sorted_gaps unhandled s =
     s\<lparr>is_active_world_size := map_option (\<lambda>w. w - unhandled) (is_active_world_size s),
       is_active_rank := map_option (\<lambda>a. a - bisect_left sorted_gaps a) (is_active_rank s)\<rparr>"

definition tree_shift_ranks :: "int list \<Rightarrow> int list \<Rightarrow> 'x tree \<Rightarrow> 'x tree" where
  "tree_shift_ranks gaps unhandled tr =
     fold (\<lambda>p. set_leaf (snd p) (shift_leaf (sort gaps) (int (length unhandled))))
       (tr_rank_map tr) tr"

definition filter_leaf :: "int \<Rightarrow> int \<Rightarrow> 'x tree \<Rightarrow> 'x tree" where
  "filter_leaf new r tr =
     (let tr1 = set_leaf r (\<lambda>s. s\<lparr>is_active_world_size := Some new\<rparr>) tr
      in if is_mode (tr_state tr1 r) = ACTIVE \<and> new \<le> leaf_active_rank tr1 r
         then deactivate r tr1 else tr1)"

definition filter_active_world_size :: "(int \<Rightarrow> int) \<Rightarrow> 'x tree \<Rightarrow> ra_exc + 'x tree" where
  "filter_active_world_size f tr =
     (case tr_rank_map tr of
        [] \<Rightarrow> Inl IndexOutOfRange
      | p # _ \<Rightarrow>
          (let w = the (is_active_world_size (tr_state tr (snd p))); new = f w
           in if new \<le> w then Inr (fold (filter_leaf new) (iter_leaves (tr_topo tr)) tr)
              else Inl FilterAssertion))"

definition update_tree :: "int \<Rightarrow> int list \<Rightarrow> 'x tree \<Rightarrow> 'x tree" where
  "update_tree world_size ts tr =
     (let tr1 = fold (\<lambda>r. set_leaf r (\<lambda>s. s\<lparr>is_world_size := world_size - int (length ts)\<rparr>))
                  (iter_leaves (tr_topo tr)) tr
      in fold (\<lambda>q. set_leaf (rank_leaf tr q) (\<lambda>s. s\<lparr>is_rank := None, is_active_rank := None\<rparr>)) ts tr1)"

definition recompute_rank :: "'x tree \<Rightarrow> 'x tree" where
  "recompute_rank tr =
     (let leaves = sort_key (\<lambda>r. is_mode (tr_state tr r) = TERMINATED) (iter_leaves (tr_topo tr))
      in fold (\<lambda>(idx, r) tr. (set_leaf r (\<lambda>s. s\<lparr>is_rank := Some idx\<rparr>) tr)
                               \<lparr>tr_rank_map := AList.update idx r (tr_rank_map tr)\<rparr>)
           (zip (map int [0..<length leaves]) leaves) tr)"

section \<open>One reassignment\<close>

text \<open>
  \<open>__call__\<close> on a tree that is built. \<open>world_size_filter\<close> is the optional callable of the
  configuration. The result is the new tree, and either the new state of the calling rank or the
  \<open>RankDiscarded\<close> it raises.
\<close>

definition tree_terminate_all :: "int list \<Rightarrow> 'x tree \<Rightarrow> 'x tree" where
  "tree_terminate_all ts tr = fold (\<lambda>q. terminate (rank_leaf tr q)) ts tr"

definition tree_close_gaps :: "int list \<Rightarrow> 'x tree \<Rightarrow> 'x tree" where
  "tree_close_gaps terminated_active tr =
     (let (tr1, replaced) = replace_with_inactive terminated_active tr;
          unhandled = filter (\<lambda>q. q \<notin> set replaced) terminated_active
      in if unhandled = [] then tr1
         else (let (tr2, gaps) = replace_with_backfill unhandled tr1
               in tree_shift_ranks gaps unhandled tr2))"

definition tree_copy_fields :: "'x istate \<Rightarrow> 'x tree \<Rightarrow> 'x tree" where
  "tree_copy_fields s tr =
     fold (\<lambda>r. set_leaf r (\<lambda>q. q\<lparr>is_fn_exception := is_fn_exception s,
                                 is_iteration := is_iteration s\<rparr>))
       (iter_leaves (tr_topo tr)) tr"

definition tree_reassign ::
    "(int \<Rightarrow> int) option \<Rightarrow> 'x ra_ctx \<Rightarrow> 'x tree \<Rightarrow> ra_exc + 'x tree \<times> int list" where
  "tree_reassign world_size_filter ctx tr =
     (let tr1 = tree_copy_fields (rc_state ctx) tr;
          ts = propagate_terminations tr1 (tr_topo tr1) (rc_terminated ctx)
      in if \<exists>q \<in> set ts. map_of (tr_rank_map tr1) q = None then Inl IndexOutOfRange
         else let terminated_active =
                    filter (\<lambda>q. is_mode (tr_state tr1 (rank_leaf tr1 q)) = ACTIVE) ts;
                  tr2 = tree_close_gaps terminated_active (tree_terminate_all ts tr1)
              in res_bind (case world_size_filter of None \<Rightarrow> Inr tr2
                           | Some f \<Rightarrow> filter_active_world_size f tr2)
                   (\<lambda>tr3. Inr (recompute_rank
                                 (update_tree (is_world_size (rc_state ctx)) ts tr3), ts)))"

definition tree_clear_exceptions :: "'x tree \<Rightarrow> 'x tree" where
  "tree_clear_exceptions tr =
     fold (\<lambda>r. set_leaf r (\<lambda>s. s\<lparr>is_fn_exception := None\<rparr>)) (iter_leaves (tr_topo tr)) tr"

definition get_state_from_tree :: "int option \<Rightarrow> int option \<Rightarrow> int list \<Rightarrow> 'x tree \<Rightarrow> ra_exc + 'x istate" where
  "get_state_from_tree initial_rank rank ts tr =
     (let s = tr_state tr (the initial_rank)
      in if is_mode s = TERMINATED then Inl (RankDiscarded rank ts) else Inr s)"

definition tree_call ::
    "(int \<Rightarrow> int) option \<Rightarrow> 'x ra_ctx \<Rightarrow> 'x tree \<Rightarrow> ra_exc + 'x tree \<times> 'x ra_ctx" where
  "tree_call world_size_filter ctx tr =
     res_bind (tree_reassign world_size_filter ctx tr) (\<lambda>(tr1, ts).
     res_bind (get_state_from_tree (is_initial_rank (rc_state ctx)) (is_rank (rc_state ctx)) ts tr1) (\<lambda>s.
       Inr (tree_clear_exceptions tr1, \<lparr>rc_state = s, rc_terminated = []\<rparr>)))"

end
