(* ===== verification/InprocTreeInv.thy ===== *)
theory InprocTreeInv
  imports InprocTree
begin

text \<open>
  The invariant of the topology tree of \<open>InprocTree\<close> and its preservation by every operation of a
  reassignment: inactive dictionaries list exactly the inactive leaves, active ranks number the
  active leaves without gaps and clashes, and the rank map inverts the ranks of the leaves.
\<close>

section \<open>Folds of leaf updates\<close>

lemma set_leaf_simps [simp]:
  "tr_topo (set_leaf r f tr) = tr_topo tr" "tr_inactive (set_leaf r f tr) = tr_inactive tr"
  "tr_rank_map (set_leaf r f tr) = tr_rank_map tr"
  "tr_state (set_leaf r f tr) = (tr_state tr)(r := f (tr_state tr r))"
  "leaf_parents (set_leaf r f tr) = leaf_parents tr"
  by (simp_all add: set_leaf_def leaf_parents_def fun_eq_iff)

lemma leaf_parents_upd [simp]:
  "leaf_parents (tr\<lparr>tr_state := s\<rparr>) = leaf_parents tr"
  "leaf_parents (tr\<lparr>tr_inactive := m\<rparr>) = leaf_parents tr"
  "leaf_parents (tr\<lparr>tr_active_count := c\<rparr>) = leaf_parents tr"
  "leaf_parents (tr\<lparr>tr_rank_map := d\<rparr>) = leaf_parents tr"
  by (simp_all add: leaf_parents_def fun_eq_iff)

lemma fold_set_leaf:
  "distinct (map g xs) \<Longrightarrow> fold (\<lambda>x. set_leaf (g x) f) xs tr
     = tr\<lparr>tr_state := (\<lambda>r. if r \<in> g ` set xs then f (tr_state tr r) else tr_state tr r)\<rparr>"
proof (induction xs arbitrary: tr)
  case (Cons x xs)
  have "fold (\<lambda>x. set_leaf (g x) f) (x # xs) tr = fold (\<lambda>x. set_leaf (g x) f) xs (set_leaf (g x) f tr)"
    by simp
  also have "\<dots> = (set_leaf (g x) f tr)\<lparr>tr_state := (\<lambda>r. if r \<in> g ` set xs
      then f (tr_state (set_leaf (g x) f tr) r) else tr_state (set_leaf (g x) f tr) r)\<rparr>"
    using Cons by simp
  also have "\<dots> = tr\<lparr>tr_state := (\<lambda>r. if r \<in> g ` set (x # xs) then f (tr_state tr r) else tr_state tr r)\<rparr>"
    using Cons.prems by (auto simp: set_leaf_def fun_eq_iff)
  finally show ?case .
qed simp

lemma fold_put_inactive:
  "fold (\<lambda>p. put_inactive r (fst p)) ps m i
     = (if i \<in> fst ` set ps \<and> r \<notin> set (m i) then m i @ [r] else m i)"
  by (induction ps arbitrary: m) (auto simp: put_inactive_def)

lemma fold_pop_inactive:
  "fold (\<lambda>p. pop_inactive r (fst p)) ps m i
     = (if i \<in> fst ` set ps then filter (\<lambda>q. q \<noteq> r) (m i) else m i)"
  by (induction ps arbitrary: m) (auto simp: pop_inactive_def)

section \<open>The invariant\<close>

abbreviation tree_leaves :: "'x tree \<Rightarrow> int set" where
  "tree_leaves tr \<equiv> set (iter_leaves (tr_topo tr))"

abbreviation leaf_mode :: "'x tree \<Rightarrow> int \<Rightarrow> rank_mode" where
  "leaf_mode tr r \<equiv> is_mode (tr_state tr r)"

definition active_leaves :: "'x tree \<Rightarrow> int set" where
  "active_leaves tr = {r \<in> tree_leaves tr. leaf_mode tr r = ACTIVE}"

definition inactive_ok :: "'x tree \<Rightarrow> bool" where
  "inactive_ok tr \<longleftrightarrow> (\<forall>i. distinct (tr_inactive tr i) \<and> set (tr_inactive tr i)
     = {r \<in> tree_leaves tr. leaf_mode tr r = INACTIVE \<and> i \<in> fst ` set (leaf_parents tr r)})"

text \<open>The active ranks of the active leaves are the numbers of \<open>S\<close>, each taken once.\<close>

definition active_cover :: "'x tree \<Rightarrow> int set \<Rightarrow> bool" where
  "active_cover tr S \<longleftrightarrow> (\<forall>r \<in> active_leaves tr. is_active_rank (tr_state tr r) \<noteq> None)
     \<and> bij_betw (leaf_active_rank tr) (active_leaves tr) S"

definition ranks_ok :: "'x tree \<Rightarrow> bool" where
  "ranks_ok tr \<longleftrightarrow> distinct (iter_leaves (tr_topo tr)) \<and> dict_ok (tr_rank_map tr)
     \<and> fst ` set (tr_rank_map tr) = {0..<int (length (iter_leaves (tr_topo tr)))}
     \<and> (\<forall>r \<in> tree_leaves tr. \<exists>q. is_rank (tr_state tr r) = Some q \<and> map_of (tr_rank_map tr) q = Some r)"

definition alive_leaves :: "'x tree \<Rightarrow> int set" where
  "alive_leaves tr = {r \<in> tree_leaves tr. leaf_mode tr r \<noteq> TERMINATED}"

definition tree_ok :: "'x tree \<Rightarrow> bool" where
  "tree_ok tr \<longleftrightarrow> ranks_ok tr \<and> inactive_ok tr
     \<and> (\<forall>r \<in> tree_leaves tr. leaf_mode tr r \<noteq> INITIALIZED)
     \<and> (\<exists>w. active_cover tr {0..<w}
           \<and> (\<forall>r \<in> tree_leaves tr. is_active_world_size (tr_state tr r) = Some w))
     \<and> (\<forall>r \<in> alive_leaves tr. is_world_size (tr_state tr r) = int (card (alive_leaves tr))
           \<and> the (is_rank (tr_state tr r)) < int (card (alive_leaves tr)))"

lemma ranks_okD:
  assumes "ranks_ok tr"
  shows "distinct (iter_leaves (tr_topo tr))" "dict_ok (tr_rank_map tr)"
    "q \<in> {0..<int (length (iter_leaves (tr_topo tr)))} \<Longrightarrow> \<exists>r. map_of (tr_rank_map tr) q = Some r"
proof -
  show "distinct (iter_leaves (tr_topo tr))" "dict_ok (tr_rank_map tr)"
    using assms by (simp_all add: ranks_ok_def)
  assume "q \<in> {0..<int (length (iter_leaves (tr_topo tr)))}"
  then have "q \<in> fst ` set (tr_rank_map tr)" using assms by (simp add: ranks_ok_def)
  then show "\<exists>r. map_of (tr_rank_map tr) q = Some r" by (metis map_of_eq_None_iff not_Some_eq)
qed

text \<open>With as many entries as leaves, the rank map is a bijection between ranks and leaves.\<close>

lemma rank_map_bij:
  assumes "ranks_ok tr"
  shows "bij_betw (rank_leaf tr) {0..<int (length (iter_leaves (tr_topo tr)))} (tree_leaves tr)"
proof -
  let ?R = "{0..<int (length (iter_leaves (tr_topo tr)))}"
  have dom: "dom (map_of (tr_rank_map tr)) = ?R"
    using assms by (simp add: ranks_ok_def dom_map_of_conv_image_fst)
  have sub: "tree_leaves tr \<subseteq> rank_leaf tr ` ?R"
  proof
    fix r assume "r \<in> tree_leaves tr"
    then obtain q where "map_of (tr_rank_map tr) q = Some r" using assms by (auto simp: ranks_ok_def)
    moreover from this have "q \<in> ?R" using dom by blast
    ultimately show "r \<in> rank_leaf tr ` ?R" by (intro image_eqI [of _ _ q]) (auto simp: rank_leaf_def)
  qed
  have card: "card ?R = card (tree_leaves tr)"
    using ranks_okD(1) [OF assms] by (simp add: distinct_card)
  have "card (rank_leaf tr ` ?R) \<le> card ?R" by (rule card_image_le) simp
  then have eq: "tree_leaves tr = rank_leaf tr ` ?R"
    using sub card by (intro card_seteq) auto
  moreover have "inj_on (rank_leaf tr) ?R"
    using eq card by (intro eq_card_imp_inj_on) auto
  ultimately show ?thesis by (simp add: bij_betw_def)
qed

lemma rank_leaf_of:
  assumes "ranks_ok tr" and "q \<in> {0..<int (length (iter_leaves (tr_topo tr)))}"
  shows "rank_leaf tr q \<in> tree_leaves tr" "is_rank (tr_state tr (rank_leaf tr q)) = Some q"
proof -
  note b = rank_map_bij [OF assms(1)]
  show r: "rank_leaf tr q \<in> tree_leaves tr" using bij_betwE [OF b] assms(2) by blast
  then obtain q' where q': "is_rank (tr_state tr (rank_leaf tr q)) = Some q'"
    "map_of (tr_rank_map tr) q' = Some (rank_leaf tr q)" using assms(1) by (auto simp: ranks_ok_def)
  then have "q' \<in> {0..<int (length (iter_leaves (tr_topo tr)))}"
    using assms(1) by (force simp: ranks_ok_def dest: map_of_SomeD)
  moreover have "rank_leaf tr q' = rank_leaf tr q" using q'(2) by (simp add: rank_leaf_def)
  ultimately have "q' = q"
    using bij_betw_imp_inj_on [OF b] assms(2) by (auto dest: inj_onD)
  then show "is_rank (tr_state tr (rank_leaf tr q)) = Some q" using q'(1) by simp
qed

lemma leaf_of_rank:
  assumes "ranks_ok tr" and "r \<in> tree_leaves tr"
  obtains q where "q \<in> {0..<int (length (iter_leaves (tr_topo tr)))}" "rank_leaf tr q = r"
    "is_rank (tr_state tr r) = Some q"
proof -
  have "r \<in> rank_leaf tr ` {0..<int (length (iter_leaves (tr_topo tr)))}"
    using bij_betw_imp_surj_on [OF rank_map_bij [OF assms(1)]] assms(2) by simp
  then show ?thesis using rank_leaf_of [OF assms(1)] that by blast
qed

lemma rank_map_values:
  assumes "ranks_ok tr"
  shows "distinct (map snd (tr_rank_map tr))" "snd ` set (tr_rank_map tr) = tree_leaves tr"
proof -
  have ok: "distinct (map fst (tr_rank_map tr))"
    using ranks_okD(2) [OF assms] by (simp add: dict_ok_def)
  have snd: "snd p = rank_leaf tr (fst p)" if "p \<in> set (tr_rank_map tr)" for p
    using that map_of_is_SomeI [OF ok, of "fst p" "snd p"] by (simp add: rank_leaf_def)
  have keys: "fst ` set (tr_rank_map tr) = {0..<int (length (iter_leaves (tr_topo tr)))}"
    using assms by (simp add: ranks_ok_def)
  have "map snd (tr_rank_map tr) = map (rank_leaf tr) (map fst (tr_rank_map tr))"
    using snd by simp
  moreover have "distinct (map (rank_leaf tr) (map fst (tr_rank_map tr)))"
    using ok bij_betw_imp_inj_on [OF rank_map_bij [OF assms]] keys
    by (simp only: distinct_map [of "rank_leaf tr"] set_map)
  ultimately show "distinct (map snd (tr_rank_map tr))" by (simp only:)
  have "snd ` set (tr_rank_map tr) = rank_leaf tr ` fst ` set (tr_rank_map tr)"
    using snd by (force simp: image_image)
  then show "snd ` set (tr_rank_map tr) = tree_leaves tr"
    using keys bij_betw_imp_surj_on [OF rank_map_bij [OF assms]] by simp
qed

section \<open>Single leaf operations\<close>

lemma leaf_op_simps [simp]:
  "tr_topo (deactivate r tr) = tr_topo tr" "tr_topo (terminate r tr) = tr_topo tr"
  "tr_topo (activate r a tr) = tr_topo tr"
  "tr_rank_map (deactivate r tr) = tr_rank_map tr" "tr_rank_map (terminate r tr) = tr_rank_map tr"
  "tr_rank_map (activate r a tr) = tr_rank_map tr"
  "leaf_parents (deactivate r tr) = leaf_parents tr" "leaf_parents (terminate r tr) = leaf_parents tr"
  "leaf_parents (activate r a tr) = leaf_parents tr"
  "tr_state (deactivate r tr)
     = (tr_state tr)(r := (tr_state tr r)\<lparr>is_mode := INACTIVE, is_active_rank := None\<rparr>)"
  "tr_state (terminate r tr) = (tr_state tr)(r := (tr_state tr r)\<lparr>is_mode := TERMINATED\<rparr>)"
  "tr_state (activate r a tr)
     = (tr_state tr)(r := (tr_state tr r)\<lparr>is_active_rank := a, is_mode := ACTIVE\<rparr>)"
  by (simp_all add: deactivate_def terminate_def activate_def)

lemma inactive_ok_deactivate:
  assumes "inactive_ok tr" and "r \<in> tree_leaves tr"
  shows "inactive_ok (deactivate r tr)"
  using assms unfolding inactive_ok_def
  by (auto simp: deactivate_def fold_put_inactive)

lemma inactive_ok_terminate:
  assumes "inactive_ok tr" and "r \<in> tree_leaves tr"
  shows "inactive_ok (terminate r tr)"
  using assms unfolding inactive_ok_def
  by (auto simp: terminate_def fold_pop_inactive)

text \<open>Activation also after the leaf was already taken out of one dictionary.\<close>

lemma inactive_ok_activate:
  assumes "inactive_ok tr" and "r \<in> tree_leaves tr" and "i \<in> fst ` set (leaf_parents tr r)"
  shows "inactive_ok (activate r a (tr\<lparr>tr_inactive := (tr_inactive tr)(i := filter (\<lambda>q. q \<noteq> r) (tr_inactive tr i))\<rparr>))"
  using assms unfolding inactive_ok_def
  by (auto simp: activate_def fold_pop_inactive)

lemma inactive_ok_cong:
  assumes "inactive_ok tr" and "tr_topo tr' = tr_topo tr" and "tr_inactive tr' = tr_inactive tr"
    and "\<And>r. leaf_mode tr' r = leaf_mode tr r"
  shows "inactive_ok tr'"
proof -
  have "leaf_parents tr' = leaf_parents tr" using assms(2) by (simp add: leaf_parents_def fun_eq_iff)
  then show ?thesis using assms by (simp add: inactive_ok_def)
qed

section \<open>What the steps before the renumbering keep\<close>

text \<open>
  The shape, the rank map, the ranks and which leaves are terminated are kept by everything between
  the termination of leaves and \<open>update_tree\<close>.
\<close>

definition same_world :: "'x tree \<Rightarrow> 'x tree \<Rightarrow> bool" where
  "same_world tr tr' \<longleftrightarrow> tr_topo tr' = tr_topo tr \<and> tr_rank_map tr' = tr_rank_map tr
     \<and> (\<forall>r. is_rank (tr_state tr' r) = is_rank (tr_state tr r)
          \<and> is_initial_rank (tr_state tr' r) = is_initial_rank (tr_state tr r)
          \<and> (leaf_mode tr' r = TERMINATED \<longleftrightarrow> leaf_mode tr r = TERMINATED)
          \<and> (leaf_mode tr' r = INITIALIZED \<longrightarrow> leaf_mode tr r = INITIALIZED))"

lemma same_world_refl [simp]: "same_world tr tr" by (simp add: same_world_def)

lemma same_world_trans [trans]: "same_world a b \<Longrightarrow> same_world b c \<Longrightarrow> same_world a c"
  by (simp add: same_world_def)

lemma same_world_simps:
  assumes "same_world tr tr'"
  shows "tr_topo tr' = tr_topo tr" "tr_rank_map tr' = tr_rank_map tr"
    "rank_leaf tr' = rank_leaf tr" "leaf_parents tr' = leaf_parents tr"
    "alive_leaves tr' = alive_leaves tr"
  using assms
  by (simp_all add: same_world_def rank_leaf_def leaf_parents_def alive_leaves_def fun_eq_iff)

lemma same_world_ranks_ok: "same_world tr tr' \<Longrightarrow> ranks_ok tr \<Longrightarrow> ranks_ok tr'"
  by (simp add: same_world_def ranks_ok_def)

text \<open>Terminated leaves keep their active rank until it is handed on.\<close>

definition kept_active :: "'x tree \<Rightarrow> 'x tree \<Rightarrow> bool" where
  "kept_active tr tr' \<longleftrightarrow> (\<forall>r. leaf_mode tr r = TERMINATED \<longrightarrow>
       is_active_rank (tr_state tr' r) = is_active_rank (tr_state tr r))
     \<and> (\<forall>r. is_active_world_size (tr_state tr' r) = is_active_world_size (tr_state tr r))"

lemma kept_active_refl [simp]: "kept_active tr tr" by (simp add: kept_active_def)

lemma kept_active_trans:
  "kept_active a b \<Longrightarrow> kept_active b c \<Longrightarrow> same_world a b \<Longrightarrow> kept_active a c"
  by (simp add: kept_active_def same_world_def)

section \<open>Covers\<close>

lemma active_cover_add:
  assumes "active_cover tr S" and "active_leaves tr' = insert b (active_leaves tr)"
    and "b \<notin> active_leaves tr" and "a \<notin> S"
    and "\<And>r. r \<noteq> b \<Longrightarrow> is_active_rank (tr_state tr' r) = is_active_rank (tr_state tr r)"
    and "is_active_rank (tr_state tr' b) = Some a"
  shows "active_cover tr' (insert a S)"
proof -
  have eq: "leaf_active_rank tr' r = leaf_active_rank tr r" if "r \<in> active_leaves tr" for r
  proof -
    have "r \<noteq> b" using that assms(3) by blast
    then show ?thesis using assms(5) by (simp add: leaf_active_rank_def)
  qed
  have b: "leaf_active_rank tr' b = a" using assms(6) by (simp add: leaf_active_rank_def)
  have "bij_betw (leaf_active_rank tr') (active_leaves tr) S"
    using assms(1) eq bij_betw_cong [of "active_leaves tr" "leaf_active_rank tr'" "leaf_active_rank tr" S]
    by (simp add: active_cover_def)
  then have "bij_betw (leaf_active_rank tr') (active_leaves tr \<union> {b}) (S \<union> {leaf_active_rank tr' b})"
    using assms(3,4) b by (subst notIn_Un_bij_betw3 [symmetric]) auto
  moreover have "\<forall>r \<in> active_leaves tr'. is_active_rank (tr_state tr' r) \<noteq> None"
    using assms(1,2,5,6) by (auto simp: active_cover_def) (metis not_None_eq)
  ultimately show ?thesis using assms(2) b by (simp add: active_cover_def)
qed

lemma active_cover_remove:
  assumes "active_cover tr S" and "active_leaves tr' = active_leaves tr - B" and "B \<subseteq> active_leaves tr"
    and "\<And>r. r \<in> active_leaves tr - B \<Longrightarrow> is_active_rank (tr_state tr' r) = is_active_rank (tr_state tr r)"
  shows "active_cover tr' (S - leaf_active_rank tr ` B)"
proof -
  have "bij_betw (leaf_active_rank tr) (active_leaves tr - B) (S - leaf_active_rank tr ` B)"
    using assms(1,3) unfolding active_cover_def
    by (intro bij_betw_DiffI) (auto intro: bij_betw_subset simp: bij_betw_def inj_on_def)
  then have "bij_betw (leaf_active_rank tr') (active_leaves tr - B) (S - leaf_active_rank tr ` B)"
    using assms(4) by (subst bij_betw_cong [of _ _ "leaf_active_rank tr"]) (auto simp: leaf_active_rank_def)
  then show ?thesis using assms(1,2,4) by (auto simp: active_cover_def)
qed

lemma active_cover_cong:
  assumes "active_cover tr S" and "active_leaves tr' = active_leaves tr"
    and "\<And>r. r \<in> active_leaves tr \<Longrightarrow> is_active_rank (tr_state tr' r) = is_active_rank (tr_state tr r)"
  shows "active_cover tr' S"
  using active_cover_remove [OF assms(1), of tr' "{}"] assms(2,3) by simp

section \<open>Terminating leaves\<close>

lemma terminate_all_simps:
  "tr_topo (fold (\<lambda>q. terminate (g q)) qs tr) = tr_topo tr"
  "tr_rank_map (fold (\<lambda>q. terminate (g q)) qs tr) = tr_rank_map tr"
  "tr_state (fold (\<lambda>q. terminate (g q)) qs tr) r
     = (if r \<in> g ` set qs then (tr_state tr r)\<lparr>is_mode := TERMINATED\<rparr> else tr_state tr r)"
  by (induction qs arbitrary: tr) auto

lemma inactive_ok_terminate_all:
  "inactive_ok tr \<Longrightarrow> g ` set qs \<subseteq> tree_leaves tr \<Longrightarrow> inactive_ok (fold (\<lambda>q. terminate (g q)) qs tr)"
  by (induction qs arbitrary: tr) (auto simp: inactive_ok_terminate)

lemma active_leaves_terminate_all:
  "active_leaves (fold (\<lambda>q. terminate (g q)) qs tr) = active_leaves tr - g ` set qs"
  by (auto simp: active_leaves_def terminate_all_simps)

section \<open>Replacement by inactive leaves\<close>

lemma find_reserve_Some: "find_reserve m ps = Some i \<Longrightarrow> i \<in> fst ` set ps \<and> m i \<noteq> []"
  by (induction ps) (auto split: if_splits)

lemma butlast_filter: "distinct xs \<Longrightarrow> xs \<noteq> [] \<Longrightarrow> butlast xs = filter (\<lambda>q. q \<noteq> last xs) xs"
proof (cases xs rule: rev_cases)
  case (snoc ys y)
  moreover assume "distinct xs"
  ultimately have "filter (\<lambda>q. q \<noteq> y) ys = ys" by (auto simp: filter_id_conv)
  then show ?thesis using snoc by simp
qed simp

text \<open>
  Terminated ranks \<open>Q\<close> of a tree, each with an active rank of its own outside what the remaining
  active leaves cover.
\<close>

definition handover :: "'x tree \<Rightarrow> int set \<Rightarrow> int set \<Rightarrow> bool" where
  "handover tr Q W \<longleftrightarrow> inj_on (\<lambda>q. leaf_active_rank tr (rank_leaf tr q)) Q
     \<and> (\<forall>q \<in> Q. leaf_mode tr (rank_leaf tr q) = TERMINATED
         \<and> is_active_rank (tr_state tr (rank_leaf tr q)) \<noteq> None
         \<and> leaf_active_rank tr (rank_leaf tr q) \<in> W)"

abbreviation given_ranks :: "'x tree \<Rightarrow> int set \<Rightarrow> int set" where
  "given_ranks tr Q \<equiv> (\<lambda>q. leaf_active_rank tr (rank_leaf tr q)) ` Q"

definition replacing :: "'x tree \<Rightarrow> int set \<Rightarrow> int set \<Rightarrow> 'x tree \<Rightarrow> int list \<Rightarrow> bool" where
  "replacing tr0 Q W tr replaced \<longleftrightarrow> same_world tr0 tr \<and> kept_active tr0 tr \<and> inactive_ok tr
     \<and> active_cover tr (W - given_ranks tr0 (Q - set replaced)) \<and> set replaced \<subseteq> Q"

lemma replace_one_step:
  assumes ho: "handover tr0 Q W" and inv: "replacing tr0 Q W tr replaced"
    and q: "q \<in> Q" "q \<notin> set replaced"
  shows "\<exists>tr' r'. replace_one q (tr, replaced) = (tr', r') \<and> replacing tr0 Q W tr' r'
     \<and> set r' \<subseteq> insert q (set replaced)"
proof (cases "find_reserve (tr_inactive tr) (leaf_parents tr (rank_leaf tr q))")
  case None
  then show ?thesis using inv by (auto simp: replace_one_def Let_def)
next
  case (Some i)
  let ?t = "rank_leaf tr0 q"
  define spare where "spare = last (tr_inactive tr i)"
  let ?tr1 = "tr\<lparr>tr_inactive := (tr_inactive tr)(i := filter (\<lambda>q. q \<noteq> spare) (tr_inactive tr i))\<rparr>"
  have sw: "same_world tr0 tr" and ka: "kept_active tr0 tr" and iok: "inactive_ok tr"
    and cov: "active_cover tr (W - given_ranks tr0 (Q - set replaced))"
    using inv by (simp_all add: replacing_def)
  have leaf: "rank_leaf tr q = ?t" by (simp add: same_world_simps [OF sw])
  have t: "leaf_mode tr0 ?t = TERMINATED" "is_active_rank (tr_state tr0 ?t) \<noteq> None"
    "leaf_active_rank tr0 ?t \<in> W" using ho q by (auto simp: handover_def)
  have a: "is_active_rank (tr_state tr ?t) = Some (leaf_active_rank tr0 ?t)"
    using ka t by (auto simp: kept_active_def leaf_active_rank_def)
  have ne: "tr_inactive tr i \<noteq> []" using find_reserve_Some [OF Some] by simp
  have "spare \<in> set (tr_inactive tr i)" using ne by (simp add: spare_def)
  then have spare: "spare \<in> tree_leaves tr" "leaf_mode tr spare = INACTIVE"
    "i \<in> fst ` set (leaf_parents tr spare)" using iok by (auto simp: inactive_ok_def)
  have dist: "distinct (tr_inactive tr i)" using iok by (simp add: inactive_ok_def)
  let ?tr' = "activate spare (Some (leaf_active_rank tr0 ?t)) ?tr1"
  have step: "replace_one q (tr, replaced) = (?tr', add_ranks [q] replaced)"
    using Some a by (simp add: replace_one_def leaf Let_def spare_def butlast_filter [OF dist ne])
  have "active_cover ?tr' (insert (leaf_active_rank tr0 ?t) (W - given_ranks tr0 (Q - set replaced)))"
    by (rule active_cover_add [OF cov, of _ spare]) (use spare q in \<open>auto simp: active_leaves_def\<close>)
  moreover have "insert (leaf_active_rank tr0 ?t) (W - given_ranks tr0 (Q - set replaced))
      = W - given_ranks tr0 (Q - insert q (set replaced))"
    using ho q t(3) by (auto simp: handover_def inj_on_def)
  moreover have "set (add_ranks [q] replaced) = insert q (set replaced)"
    by (auto simp: add_ranks_def)
  moreover have "inactive_ok ?tr'" by (rule inactive_ok_activate [OF iok spare(1,3)])
  moreover have "same_world tr0 ?tr'"
  proof -
    have "same_world tr ?tr'" using spare(2) by (simp add: same_world_def)
    then show ?thesis using sw same_world_trans by blast
  qed
  moreover have "kept_active tr0 ?tr'"
  proof -
    have "kept_active tr ?tr'" using spare(2) by (simp add: kept_active_def)
    then show ?thesis using kept_active_trans [OF ka _ sw] by blast
  qed
  moreover have "set replaced \<subseteq> Q" using inv by (simp add: replacing_def)
  ultimately have "replacing tr0 Q W ?tr' (add_ranks [q] replaced)"
    "set (add_ranks [q] replaced) \<subseteq> insert q (set replaced)"
    using q by (simp_all add: replacing_def)
  then show ?thesis using step by blast
qed

lemma replace_fold:
  assumes "handover tr0 Q W"
  shows "replacing tr0 Q W tr replaced \<Longrightarrow> distinct qs \<Longrightarrow> set qs \<subseteq> Q - set replaced \<Longrightarrow>
    \<exists>tr' r'. fold replace_one qs (tr, replaced) = (tr', r') \<and> replacing tr0 Q W tr' r'"
proof (induction qs arbitrary: tr replaced)
  case (Cons q qs)
  then obtain tr' r' where step: "replace_one q (tr, replaced) = (tr', r')"
    "replacing tr0 Q W tr' r'" "set r' \<subseteq> insert q (set replaced)"
    using replace_one_step [OF assms, of tr replaced q] by auto
  have "set qs \<subseteq> Q - set r'" using Cons.prems step(3) by auto
  then show ?case using Cons.IH [OF step(2)] Cons.prems(2) step(1) by auto
qed simp

section \<open>Backfilling\<close>

lemma active_cover_move:
  assumes "active_cover tr S" and "active_leaves tr' = active_leaves tr" and "b \<in> active_leaves tr"
    and "a \<notin> S" and "is_active_rank (tr_state tr' b) = Some a"
    and "\<And>r. r \<noteq> b \<Longrightarrow> is_active_rank (tr_state tr' r) = is_active_rank (tr_state tr r)"
  shows "active_cover tr' (insert a (S - {leaf_active_rank tr b}))"
proof -
  let ?tr1 = "set_leaf b (\<lambda>s. s\<lparr>is_mode := INACTIVE\<rparr>) tr"
  have act: "active_leaves ?tr1 = active_leaves tr - {b}" by (auto simp: active_leaves_def)
  then have "active_cover ?tr1 (S - {leaf_active_rank tr b})"
    using active_cover_remove [OF assms(1), of ?tr1 "{b}"] assms(3) by simp
  then show ?thesis
    using assms(2-6) act by (intro active_cover_add [of ?tr1 _ _ b]) auto
qed

definition backfilling :: "'x tree \<Rightarrow> int set \<Rightarrow> int set \<Rightarrow> int set \<Rightarrow> 'x tree \<Rightarrow> int list \<Rightarrow> bool" where
  "backfilling tr0 T W P tr gaps \<longleftrightarrow> same_world tr0 tr \<and> kept_active tr0 tr
     \<and> tr_inactive tr = tr_inactive tr0 \<and> (\<forall>r. leaf_mode tr r = leaf_mode tr0 r)
     \<and> active_cover tr (W - (set gaps \<union> leaf_active_rank tr0 ` P))
     \<and> distinct gaps \<and> set gaps \<subseteq> W \<and> set gaps \<inter> leaf_active_rank tr0 ` P = {}
     \<and> P \<subseteq> T \<and> length gaps + card P = card T"

definition leaf_handover :: "'x tree \<Rightarrow> int set \<Rightarrow> int set \<Rightarrow> bool" where
  "leaf_handover tr T W \<longleftrightarrow> finite T \<and> inj_on (leaf_active_rank tr) T
     \<and> (\<forall>t \<in> T. leaf_mode tr t = TERMINATED \<and> is_active_rank (tr_state tr t) \<noteq> None
         \<and> leaf_active_rank tr t \<in> W)"

lemma backfilling_kept:
  assumes "leaf_handover tr0 T W" and "backfilling tr0 T W P tr gaps" and "t \<in> T"
  shows "is_active_rank (tr_state tr t) = Some (leaf_active_rank tr0 t)"
    "leaf_active_rank tr t = leaf_active_rank tr0 t"
  using assms by (auto simp: leaf_handover_def backfilling_def kept_active_def leaf_active_rank_def)

lemma card_remove: "finite T \<Longrightarrow> P \<subseteq> T \<Longrightarrow> t \<in> P \<Longrightarrow> Suc (card (P - {t})) = card P"
  by (meson card_Suc_Diff1 finite_subset)

lemma add_ranks_new: "q \<notin> set ts \<Longrightarrow> add_ranks [q] ts = ts @ [q]"
  by (simp add: add_ranks_def)

lemma backfill_gap_step:
  assumes ho: "leaf_handover tr0 T W" and inv: "backfilling tr0 T W P tr gaps" and t: "t \<in> P"
  shows "backfilling tr0 T W (P - {t}) tr (add_ranks [leaf_active_rank tr t] gaps)"
proof -
  let ?a = "leaf_active_rank tr0 t"
  have T: "t \<in> T" "P \<subseteq> T" using inv t by (auto simp: backfilling_def)
  have a: "leaf_active_rank tr t = ?a" by (rule backfilling_kept [OF ho inv T(1)])
  have new: "?a \<notin> set gaps" using inv t by (auto simp: backfilling_def)
  have img: "leaf_active_rank tr0 ` (P - {t}) = leaf_active_rank tr0 ` P - {?a}"
    using ho T t by (auto simp: leaf_handover_def inj_on_def)
  have "set (gaps @ [?a]) \<union> leaf_active_rank tr0 ` (P - {t}) = set gaps \<union> leaf_active_rank tr0 ` P"
    using t by (auto simp: img)
  moreover have "?a \<in> W" using ho T(1) by (simp add: leaf_handover_def)
  moreover have "Suc (card (P - {t})) = card P"
    using ho T(2) t by (intro card_remove [of T]) (auto simp: leaf_handover_def)
  ultimately show ?thesis
    using inv new img by (auto simp: backfilling_def a add_ranks_new)
qed

lemma backfill_pair_step:
  assumes ho: "leaf_handover tr0 T W" and inv: "backfilling tr0 T W P tr gaps" and t: "t \<in> P"
    and b: "b \<in> active_leaves tr"
  shows "backfilling tr0 T W (P - {t})
     (set_leaf b (\<lambda>s. s\<lparr>is_active_rank := is_active_rank (tr_state tr t)\<rparr>) tr)
     (add_ranks [leaf_active_rank tr b] gaps)"
proof -
  let ?a = "leaf_active_rank tr0 t" and ?b = "leaf_active_rank tr b"
  let ?tr' = "set_leaf b (\<lambda>s. s\<lparr>is_active_rank := is_active_rank (tr_state tr t)\<rparr>) tr"
  let ?S = "W - (set gaps \<union> leaf_active_rank tr0 ` P)"
  have T: "t \<in> T" "P \<subseteq> T" using inv t by (auto simp: backfilling_def)
  have a: "is_active_rank (tr_state tr t) = Some ?a" by (rule backfilling_kept [OF ho inv T(1)])
  have cov: "active_cover tr ?S" using inv by (simp add: backfilling_def)
  have bS: "?b \<in> ?S" using cov b bij_betwE unfolding active_cover_def by blast
  have modeb: "leaf_mode tr b = ACTIVE" using b by (simp add: active_leaves_def)
  have img: "leaf_active_rank tr0 ` (P - {t}) = leaf_active_rank tr0 ` P - {?a}"
    using ho T t by (auto simp: leaf_handover_def inj_on_def)
  have aW: "?a \<in> W" using ho T(1) by (simp add: leaf_handover_def)
  have "active_cover ?tr' (insert ?a (?S - {?b}))"
    using t b a by (intro active_cover_move [OF cov]) (auto simp: active_leaves_def)
  moreover have "insert ?a (?S - {?b}) = W - (set (gaps @ [?b]) \<union> leaf_active_rank tr0 ` (P - {t}))"
  proof -
    have "?a \<in> leaf_active_rank tr0 ` P" "?a \<notin> set gaps" using t inv by (auto simp: backfilling_def)
    moreover from this have "?b \<noteq> ?a" using bS by auto
    ultimately show ?thesis using aW by (auto simp: img)
  qed
  ultimately have cov': "active_cover ?tr' (W - (set (gaps @ [?b]) \<union> leaf_active_rank tr0 ` (P - {t})))"
    by simp
  have sw: "same_world tr0 ?tr'" using inv by (simp add: backfilling_def same_world_def)
  have ka: "kept_active tr0 ?tr'" using inv modeb by (auto simp: backfilling_def kept_active_def)
  have "Suc (card (P - {t})) = card P"
    using ho T(2) t by (intro card_remove [of T]) (auto simp: leaf_handover_def)
  then show ?thesis
    using inv bS cov' sw ka by (auto simp: backfilling_def add_ranks_new img)
qed

lemma backfill_pairs_inv:
  assumes ho: "leaf_handover tr0 T W"
  shows "backfilling tr0 T W P tr gaps \<Longrightarrow> distinct ts \<Longrightarrow> set ts \<subseteq> P \<Longrightarrow> set bs \<subseteq> active_leaves tr \<Longrightarrow>
    \<exists>tr' gaps'. backfill_pairs bs ts (tr, gaps) = (tr', gaps') \<and> backfilling tr0 T W (P - set ts) tr' gaps'"
proof (induction bs ts "(tr, gaps)" arbitrary: tr gaps P rule: backfill_pairs.induct)
  case (2 t ts tr gaps)
  have "backfilling tr0 T W (P - {t}) tr (add_ranks [leaf_active_rank tr t] gaps)"
    using backfill_gap_step [OF ho 2(2)] 2(4) by simp
  from 2(1) [OF this] 2(3-5) have "\<exists>tr' gaps'. backfill_pairs [] ts (tr, add_ranks [leaf_active_rank tr t] gaps)
      = (tr', gaps') \<and> backfilling tr0 T W (P - {t} - set ts) tr' gaps'" by auto
  moreover have "P - {t} - set ts = P - set (t # ts)" by auto
  ultimately show ?case by simp
next
  case (3 b bs t ts tr gaps)
  let ?tr' = "set_leaf b (\<lambda>s. s\<lparr>is_active_rank := is_active_rank (tr_state tr t)\<rparr>) tr"
  have inv: "backfilling tr0 T W (P - {t}) ?tr' (add_ranks [leaf_active_rank tr b] gaps)"
    using backfill_pair_step [OF ho 3(2)] 3(4,5) by simp
  have "active_leaves ?tr' = active_leaves tr" by (auto simp: active_leaves_def)
  then have "\<exists>tr' gaps'. backfill_pairs bs ts (?tr', add_ranks [leaf_active_rank tr b] gaps)
      = (tr', gaps') \<and> backfilling tr0 T W (P - {t} - set ts) tr' gaps'"
    using 3(1) [OF inv] 3(3-5) by auto
  moreover have "P - {t} - set ts = P - set (t # ts)" by auto
  ultimately show ?case by simp
qed simp

lemma mset_update_group:
  "mset (concat (map snd (AList.update d ((case map_of gs d of None \<Rightarrow> [] | Some us \<Rightarrow> us) @ [t]) gs)))
     = add_mset t (mset (concat (map snd gs)))"
  by (induction gs) auto

lemma split_domains_mset:
  "mset (concat (map snd (split_domains domain ts groups)))
     = mset (concat (map snd groups)) + mset (filter (\<lambda>t. domain t \<noteq> None) ts)"
proof (induction ts arbitrary: groups)
  case (Cons t ts)
  show ?case
  proof (cases "domain t")
    case (Some d)
    then show ?thesis using mset_update_group [of d groups t] by (simp add: Cons.IH)
  qed (simp add: Cons.IH)
qed simp

lemma largest_active_sub: "set (largest_active k d tr) \<subseteq> active_leaves tr"
  by (auto simp: largest_active_def active_leaves_def leaves_under_def iter_leaves_def dest!: in_set_takeD)

lemma backfill_groups_inv:
  assumes ho: "leaf_handover tr0 T W"
  shows "backfilling tr0 T W P tr gaps \<Longrightarrow> distinct (concat (map snd gs)) \<Longrightarrow>
    set (concat (map snd gs)) \<subseteq> P \<Longrightarrow>
    \<exists>tr' gaps'. fold backfill_group gs (tr, gaps) = (tr', gaps')
      \<and> backfilling tr0 T W (P - set (concat (map snd gs))) tr' gaps'"
proof (induction gs arbitrary: tr gaps P)
  case (Cons g gs)
  let ?bs = "rev (largest_active (length (snd g)) (fst g) tr)"
  obtain tr1 gaps1 where 1: "backfill_pairs ?bs (snd g) (tr, gaps) = (tr1, gaps1)"
    "backfilling tr0 T W (P - set (snd g)) tr1 gaps1"
    using backfill_pairs_inv [OF ho Cons.prems(1), of "snd g" ?bs] Cons.prems(2,3)
      largest_active_sub [of "length (snd g)" "fst g" tr] by auto
  have "distinct (concat (map snd gs))" "set (concat (map snd gs)) \<subseteq> P - set (snd g)"
    using Cons.prems(2,3) by auto
  from Cons.IH [OF 1(2) this]
  obtain tr2 gaps2 where 2: "fold backfill_group gs (tr1, gaps1) = (tr2, gaps2)"
    "backfilling tr0 T W (P - set (snd g) - set (concat (map snd gs))) tr2 gaps2"
    by auto
  have "P - set (snd g) - set (concat (map snd gs)) = P - set (concat (map snd (g # gs)))" by auto
  moreover have "fold backfill_group (g # gs) (tr, gaps) = fold backfill_group gs (tr1, gaps1)"
    using 1(1) by (simp add: backfill_group_def [of g])
  ultimately show ?case using 2 by metis
qed simp

lemma replace_with_backfill_inv:
  assumes ho: "handover tr (set qs) W" and dist: "distinct qs"
    and cov: "active_cover tr (W - given_ranks tr (set qs))"
  shows "\<exists>tr' gaps. replace_with_backfill qs tr = (tr', gaps) \<and> same_world tr tr'
    \<and> kept_active tr tr' \<and> tr_inactive tr' = tr_inactive tr \<and> (\<forall>r. leaf_mode tr' r = leaf_mode tr r)
    \<and> active_cover tr' (W - set gaps) \<and> distinct gaps \<and> set gaps \<subseteq> W \<and> length gaps = length qs"
proof -
  let ?ts = "map (rank_leaf tr) (sort qs)"
  let ?dom = "\<lambda>t. backfill_domain None (leaf_parents tr t)"
  let ?none = "filter (\<lambda>t. ?dom t = None) ?ts" and ?some = "filter (\<lambda>t. ?dom t \<noteq> None) ?ts"
  let ?T = "rank_leaf tr ` set qs"
  define gaps where "gaps = add_ranks (map (leaf_active_rank tr) ?none) []"
  have injq: "inj_on (rank_leaf tr) (set qs)"
    using ho by (auto simp: handover_def inj_on_def)
  have dts: "distinct ?ts" "set ?ts = ?T"
    using dist injq by (simp_all add: distinct_map)
  have T: "leaf_handover tr ?T W"
    using ho by (auto simp: handover_def leaf_handover_def inj_on_def)
  have inj: "inj_on (leaf_active_rank tr) (set ?ts)" using T dts(2) by (simp add: leaf_handover_def)
  have g: "set gaps = leaf_active_rank tr ` set ?none" "distinct gaps"
    by (simp_all add: gaps_def add_ranks_def)
  have "inj_on (leaf_active_rank tr) (set ?none)" using inj by (rule inj_on_subset) auto
  then have len: "length gaps = length ?none"
  proof -
    assume i: "inj_on (leaf_active_rank tr) (set ?none)"
    have "length gaps = card (set gaps)" using g(2) by (simp only: distinct_card)
    also have "\<dots> = card (set ?none)" unfolding g(1) by (rule card_image [OF i])
    also have "\<dots> = length ?none" by (rule distinct_card [OF distinct_filter [OF dts(1)]])
    finally show ?thesis .
  qed
  have parts: "set ?ts = set ?none \<union> set ?some" "set ?none \<inter> set ?some = {}" by auto
  have "card (set ?none) + card (set ?some) = card ?T"
    using card_Un_disjoint [of "set ?none" "set ?some"] parts dts(2) by simp
  moreover have "card (set ?none) = length ?none" by (rule distinct_card [OF distinct_filter [OF dts(1)]])
  ultimately have cards: "length gaps + card (set ?some) = card ?T" using len by simp
  have "set gaps \<inter> leaf_active_rank tr ` set ?some = {}"
  proof -
    have "leaf_active_rank tr ` set ?none \<inter> leaf_active_rank tr ` set ?some
        = leaf_active_rank tr ` (set ?none \<inter> set ?some)"
      using inj_on_image_Int [OF inj, of "set ?none" "set ?some"] parts(1) by blast
    then show ?thesis unfolding g(1) parts(2) by simp
  qed
  moreover have "set gaps \<union> leaf_active_rank tr ` set ?some = given_ranks tr (set qs)"
  proof -
    have "set gaps \<union> leaf_active_rank tr ` set ?some = leaf_active_rank tr ` set ?ts"
      unfolding g(1) by (simp only: image_Un [symmetric] parts(1) [symmetric])
    then show ?thesis unfolding dts(2) by (simp only: image_image)
  qed
  moreover have "set gaps \<subseteq> W" using T dts(2) by (auto simp: g(1) leaf_handover_def)
  moreover have "set ?some \<subseteq> ?T" using dts(2) by auto
  ultimately have "backfilling tr ?T W (set ?some) tr gaps"
    unfolding backfilling_def using cov g(2) cards by simp
  moreover have ms: "mset (concat (map snd (split_domains ?dom ?ts []))) = mset ?some"
    by (simp add: split_domains_mset)
  moreover have "distinct (concat (map snd (split_domains ?dom ?ts [])))"
    using mset_eq_imp_distinct_iff [OF ms] distinct_filter [OF dts(1)] by blast
  moreover have "set (concat (map snd (split_domains ?dom ?ts []))) = set ?some"
    using mset_eq_setD [OF ms] .
  ultimately obtain tr' gaps' where res: "fold backfill_group (split_domains ?dom ?ts []) (tr, gaps) = (tr', gaps')"
    "backfilling tr ?T W {} tr' gaps'"
    using backfill_groups_inv [OF T, of "set ?some" tr gaps "split_domains ?dom ?ts []"] by auto
  moreover have "card ?T = length qs" using card_image [OF injq] dist by (simp add: distinct_card)
  ultimately show ?thesis
    by (simp add: replace_with_backfill_def Let_def gaps_def backfilling_def)
qed

section \<open>Shifting\<close>

lemma takeWhile_sorted: "sorted xs \<Longrightarrow> takeWhile (\<lambda>x. x < a) xs = filter (\<lambda>x. x < a) xs" for a :: int
proof (induction xs)
  case (Cons x xs)
  then have "filter (\<lambda>x. x < a) xs = []" if "\<not> x < a"
    using that by (auto simp: filter_empty_conv)
  then show ?case using Cons by simp
qed simp

lemma bisect_left_gaps:
  assumes "distinct xs"
  shows "bisect_left (sort xs) a = gaps_below (set xs) a"
proof -
  have "bisect_left (sort xs) a = int (length (filter (\<lambda>x. x < a) xs))"
    by (simp add: bisect_left_def takeWhile_sorted filter_sort)
  also have "\<dots> = int (card (set (filter (\<lambda>x. x < a) xs)))"
    using distinct_card [OF distinct_filter [OF assms]] by simp
  finally show ?thesis by (simp add: gaps_below_def)
qed

lemma tree_shift_ranks_eq:
  assumes "ranks_ok tr"
  shows "tree_shift_ranks gaps qs tr = tr\<lparr>tr_state := (\<lambda>r. if r \<in> tree_leaves tr
    then shift_leaf (sort gaps) (int (length qs)) (tr_state tr r) else tr_state tr r)\<rparr>"
  unfolding tree_shift_ranks_def using rank_map_values [OF assms] by (subst fold_set_leaf) auto

lemma shift_cover:
  assumes "active_cover tr ({0..<w} - set gaps)" and "distinct gaps" and "set gaps \<subseteq> {0..<w}"
    and "active_leaves tr' = active_leaves tr"
    and "\<And>r. r \<in> active_leaves tr \<Longrightarrow> is_active_rank (tr_state tr' r)
       = map_option (\<lambda>a. a - bisect_left (sort gaps) a) (is_active_rank (tr_state tr r))"
  shows "active_cover tr' {0..<w - int (length gaps)}"
proof -
  let ?f = "\<lambda>a. a - gaps_below (set gaps) a"
  have some: "is_active_rank (tr_state tr r) \<noteq> None" if "r \<in> active_leaves tr" for r
    using assms(1) that by (simp add: active_cover_def)
  have eq: "leaf_active_rank tr' r = (?f \<circ> leaf_active_rank tr) r" if "r \<in> active_leaves tr" for r
    using some [OF that] assms(5) [OF that]
    by (auto simp: leaf_active_rank_def bisect_left_gaps [OF assms(2)])
  have "bij_betw (?f \<circ> leaf_active_rank tr) (active_leaves tr) {0..<w - int (card (set gaps))}"
    using assms(1,3) by (intro bij_betw_trans [OF _ shifted_bij]) (simp_all add: active_cover_def)
  then have "bij_betw (leaf_active_rank tr') (active_leaves tr) {0..<w - int (length gaps)}"
    using assms(2) by (subst bij_betw_cong [OF eq]) (simp_all add: distinct_card)
  then show ?thesis using assms(4,5) some by (simp add: active_cover_def)
qed

section \<open>Closing the gaps\<close>

definition uniform_world :: "'x tree \<Rightarrow> int \<Rightarrow> bool" where
  "uniform_world tr w \<longleftrightarrow> active_cover tr {0..<w}
     \<and> (\<forall>r \<in> tree_leaves tr. is_active_world_size (tr_state tr r) = Some w)"

lemma tree_close_gaps_ok:
  assumes ranks: "ranks_ok tr" and iok: "inactive_ok tr" and ho: "handover tr (set ta) {0..<w}"
    and dist: "distinct ta" and cov: "active_cover tr ({0..<w} - given_ranks tr (set ta))"
    and aws: "\<forall>r \<in> tree_leaves tr. is_active_world_size (tr_state tr r) = Some w"
  shows "\<exists>w'. same_world tr (tree_close_gaps ta tr) \<and> inactive_ok (tree_close_gaps ta tr)
    \<and> uniform_world (tree_close_gaps ta tr) w' \<and> w' \<le> w"
proof -
  have "replacing tr (set ta) {0..<w} tr []" using iok cov by (simp add: replacing_def)
  then obtain tr1 replaced where rep: "replace_with_inactive ta tr = (tr1, replaced)"
    and inv: "replacing tr (set ta) {0..<w} tr1 replaced"
    using replace_fold [OF ho, of tr "[]" "sort ta"] dist by (auto simp: replace_with_inactive_def)
  define un where "un = filter (\<lambda>q. q \<notin> set replaced) ta"
  have un: "set un = set ta - set replaced" "distinct un" "set un \<subseteq> set ta"
    using dist by (auto simp: un_def)
  have sw: "same_world tr tr1" and ka: "kept_active tr tr1" and iok1: "inactive_ok tr1"
    and cov1: "active_cover tr1 ({0..<w} - given_ranks tr (set un))"
    using inv by (simp_all add: replacing_def un(1))
  have aws1: "\<forall>r \<in> tree_leaves tr1. is_active_world_size (tr_state tr1 r) = Some w"
    using aws ka by (simp add: kept_active_def same_world_simps [OF sw])
  show ?thesis
  proof (cases "un = []")
    case True
    then have "tree_close_gaps ta tr = tr1" by (simp add: tree_close_gaps_def rep un_def [symmetric])
    then show ?thesis using True sw iok1 cov1 aws1 by (auto simp: uniform_world_def)
  next
    case False
    have kept: "is_active_rank (tr_state tr1 (rank_leaf tr q)) = is_active_rank (tr_state tr (rank_leaf tr q))"
      "leaf_active_rank tr1 (rank_leaf tr q) = leaf_active_rank tr (rank_leaf tr q)"
      if "q \<in> set un" for q
      using that ho ka un(3) by (auto simp: handover_def kept_active_def leaf_active_rank_def)
    have "inj_on (\<lambda>q. leaf_active_rank tr (rank_leaf tr q)) (set un)"
      using ho un(3) by (auto simp: handover_def intro: inj_on_subset)
    then have "inj_on (\<lambda>q. leaf_active_rank tr1 (rank_leaf tr q)) (set un)"
      by (subst inj_on_cong [OF kept(2)])
    then have "handover tr1 (set un) {0..<w}"
      using ho un(3) kept sw unfolding handover_def same_world_simps(3) [OF sw]
      by (auto simp: same_world_def)
    moreover have "given_ranks tr1 (set un) = given_ranks tr (set un)"
      using kept(2) by (simp add: same_world_simps [OF sw])
    ultimately obtain tr2 gaps where bf: "replace_with_backfill un tr1 = (tr2, gaps)"
      and sw2: "same_world tr1 tr2" and ka2: "kept_active tr1 tr2"
      and in2: "tr_inactive tr2 = tr_inactive tr1" "\<forall>r. leaf_mode tr2 r = leaf_mode tr1 r"
      and cov2: "active_cover tr2 ({0..<w} - set gaps)" and gaps: "distinct gaps" "set gaps \<subseteq> {0..<w}"
      using replace_with_backfill_inv [of tr1 un "{0..<w}"] un(2) cov1 by auto
    let ?tr3 = "tree_shift_ranks gaps un tr2"
    have len: "length gaps = length un"
      using replace_with_backfill_inv [of tr1 un "{0..<w}"] un(2) cov1 bf
        \<open>handover tr1 (set un) {0..<w}\<close> \<open>given_ranks tr1 (set un) = given_ranks tr (set un)\<close> by auto
    have sw': "same_world tr tr2" using sw sw2 same_world_trans by blast
    have ranks2: "ranks_ok tr2" using same_world_ranks_ok [OF sw' ranks] .
    have eq3: "?tr3 = tr2\<lparr>tr_state := (\<lambda>r. if r \<in> tree_leaves tr2
        then shift_leaf (sort gaps) (int (length un)) (tr_state tr2 r) else tr_state tr2 r)\<rparr>"
      by (rule tree_shift_ranks_eq [OF ranks2])
    have st3: "tr_state ?tr3 r = (if r \<in> tree_leaves tr2
        then shift_leaf (sort gaps) (int (length un)) (tr_state tr2 r) else tr_state tr2 r)" for r
      by (simp add: eq3)
    have mode3: "leaf_mode ?tr3 r = leaf_mode tr2 r" for r by (simp add: st3 shift_leaf_def)
    have topo3: "tr_topo ?tr3 = tr_topo tr2" "tr_inactive ?tr3 = tr_inactive tr2"
      "tr_rank_map ?tr3 = tr_rank_map tr2" by (simp_all add: eq3)
    have act3: "active_leaves ?tr3 = active_leaves tr2" by (simp add: active_leaves_def mode3 topo3)
    have "same_world tr2 ?tr3"
      unfolding same_world_def topo3 mode3 by (simp add: st3 shift_leaf_def)
    then have "same_world tr ?tr3" using sw' same_world_trans by blast
    moreover have "inactive_ok ?tr3"
      by (rule inactive_ok_cong [OF iok1]) (simp_all add: topo3 mode3 in2 same_world_simps [OF sw2])
    moreover have "active_cover ?tr3 {0..<w - int (length gaps)}"
      by (rule shift_cover [OF cov2 gaps act3])
         (auto simp: st3 shift_leaf_def active_leaves_def)
    moreover have "\<forall>r \<in> tree_leaves ?tr3. is_active_world_size (tr_state ?tr3 r)
        = Some (w - int (length gaps))"
      using aws1 ka2 by (simp add: topo3 st3 shift_leaf_def kept_active_def len same_world_simps [OF sw2])
    moreover have "tree_close_gaps ta tr = ?tr3"
      using False by (simp add: tree_close_gaps_def rep un_def [symmetric] bf)
    ultimately show ?thesis
      by (intro exI [of _ "w - int (length gaps)"]) (simp add: uniform_world_def)
  qed
qed

section \<open>The world size filter\<close>

definition filtered_leaf :: "int \<Rightarrow> 'x istate \<Rightarrow> 'x istate" where
  "filtered_leaf new s =
     (if is_mode s = ACTIVE \<and> new \<le> the (is_active_rank s)
      then s\<lparr>is_active_world_size := Some new, is_mode := INACTIVE, is_active_rank := None\<rparr>
      else s\<lparr>is_active_world_size := Some new\<rparr>)"

lemma filter_leaf_simps:
  "tr_topo (filter_leaf new r tr) = tr_topo tr" "tr_rank_map (filter_leaf new r tr) = tr_rank_map tr"
  "tr_state (filter_leaf new r tr) = (tr_state tr)(r := filtered_leaf new (tr_state tr r))"
  by (simp_all add: filter_leaf_def Let_def filtered_leaf_def leaf_active_rank_def fun_eq_iff)

lemma inactive_ok_filter_leaf:
  assumes "inactive_ok tr" and "r \<in> tree_leaves tr"
  shows "inactive_ok (filter_leaf new r tr)"
proof -
  have "inactive_ok (set_leaf r (\<lambda>s. s\<lparr>is_active_world_size := Some new\<rparr>) tr)"
    by (rule inactive_ok_cong [OF assms(1)]) simp_all
  then show ?thesis using assms(2) by (simp add: filter_leaf_def Let_def inactive_ok_deactivate)
qed

lemma filter_fold:
  "distinct rs \<Longrightarrow> set rs \<subseteq> tree_leaves tr \<Longrightarrow> inactive_ok tr \<Longrightarrow>
     tr_topo (fold (filter_leaf new) rs tr) = tr_topo tr
     \<and> tr_rank_map (fold (filter_leaf new) rs tr) = tr_rank_map tr
     \<and> tr_state (fold (filter_leaf new) rs tr)
         = (\<lambda>r. if r \<in> set rs then filtered_leaf new (tr_state tr r) else tr_state tr r)
     \<and> inactive_ok (fold (filter_leaf new) rs tr)"
proof (induction rs arbitrary: tr)
  case (Cons r rs)
  have "inactive_ok (filter_leaf new r tr)" using Cons.prems by (intro inactive_ok_filter_leaf) auto
  then show ?case
    using Cons.IH [of "filter_leaf new r tr"] Cons.prems by (auto simp: filter_leaf_simps fun_eq_iff)
qed simp

lemma filter_active_world_size_ok:
  assumes ranks: "ranks_ok tr" and iok: "inactive_ok tr" and uni: "uniform_world tr w"
    and res: "filter_active_world_size f tr = Inr tr'"
  shows "same_world tr tr' \<and> inactive_ok tr' \<and> uniform_world tr' (f w) \<and> f w \<le> w"
proof -
  obtain p ps where p: "tr_rank_map tr = p # ps"
    using res by (auto simp: filter_active_world_size_def split: list.splits)
  have "snd p \<in> tree_leaves tr" using rank_map_values(2) [OF ranks] p by auto
  then have w: "the (is_active_world_size (tr_state tr (snd p))) = w"
    using uni by (simp add: uniform_world_def)
  have tr': "tr' = fold (filter_leaf (f w)) (iter_leaves (tr_topo tr)) tr" and fw: "f w \<le> w"
    using res by (auto simp: filter_active_world_size_def p w Let_def split: if_splits)
  note F = filter_fold [OF ranks_okD(1) [OF ranks] order_refl iok, of "f w", folded tr']
  have sw: "same_world tr tr'" using F by (auto simp: same_world_def filtered_leaf_def)
  let ?B = "{r \<in> active_leaves tr. f w \<le> leaf_active_rank tr r}"
  have cov: "active_cover tr {0..<w}" using uni by (simp add: uniform_world_def)
  have "active_cover tr' ({0..<w} - leaf_active_rank tr ` ?B)"
  proof (rule active_cover_remove [OF cov])
    show "active_leaves tr' = active_leaves tr - ?B"
      using F by (auto simp: active_leaves_def filtered_leaf_def leaf_active_rank_def)
    show "is_active_rank (tr_state tr' r) = is_active_rank (tr_state tr r)"
      if "r \<in> active_leaves tr - ?B" for r
      using F that by (auto simp: active_leaves_def filtered_leaf_def leaf_active_rank_def)
  qed auto
  moreover have "{0..<w} - leaf_active_rank tr ` ?B = {0..<f w}"
  proof -
    have "leaf_active_rank tr ` active_leaves tr = {0..<w}"
      using cov by (simp add: active_cover_def bij_betw_imp_surj_on)
    then have "leaf_active_rank tr ` ?B = {a \<in> {0..<w}. f w \<le> a}" by force
    then show ?thesis using fw by auto
  qed
  ultimately show ?thesis
    using F sw fw by (auto simp: uniform_world_def filtered_leaf_def)
qed

section \<open>Renumbering\<close>

abbreviation renumber :: "int \<times> int \<Rightarrow> 'x tree \<Rightarrow> 'x tree" where
  "renumber \<equiv> \<lambda>p tr. (set_leaf (snd p) (\<lambda>s. s\<lparr>is_rank := Some (fst p)\<rparr>) tr)
     \<lparr>tr_rank_map := AList.update (fst p) (snd p) (tr_rank_map tr)\<rparr>"

lemma renumber_shape [simp]:
  "tr_topo (fold renumber ps tr) = tr_topo tr" "tr_inactive (fold renumber ps tr) = tr_inactive tr"
  "tr_rank_map (fold renumber ps tr)
     = fold (\<lambda>p. AList.update (fst p) (snd p)) ps (tr_rank_map tr)"
  by (induction ps arbitrary: tr) auto

lemma dict_put_all_ok: "dict_ok d \<Longrightarrow> dict_ok (fold (\<lambda>p. AList.update (fst p) (snd p)) ps d)"
  by (induction ps arbitrary: d) auto

lemma dict_put_all_keys:
  "fst ` set (fold (\<lambda>p. AList.update (fst p) (snd p)) ps d) = fst ` set d \<union> fst ` set ps"
proof (induction ps arbitrary: d)
  case (Cons p ps)
  show ?case by (simp only: fold_simps comp_apply Cons.IH) (auto simp: dom_update)
qed simp

lemma dict_put_all_other:
  "i \<notin> fst ` set ps \<Longrightarrow> map_of (fold (\<lambda>p. AList.update (fst p) (snd p)) ps d) i = map_of d i"
  by (induction ps arbitrary: d) (auto simp: update_conv')

lemma dict_put_all_map_of:
  "distinct (map fst ps) \<Longrightarrow> p \<in> set ps \<Longrightarrow>
     map_of (fold (\<lambda>p. AList.update (fst p) (snd p)) ps d) (fst p) = Some (snd p)"
proof (induction ps arbitrary: d)
  case (Cons q ps)
  then show ?case
  proof (cases "p = q")
    case True
    then show ?thesis using Cons.prems dict_put_all_other [of "fst q" ps] by (simp add: update_conv')
  qed auto
qed simp

lemma renumber_state_other: "r \<notin> snd ` set ps \<Longrightarrow> tr_state (fold renumber ps tr) r = tr_state tr r"
  by (induction ps arbitrary: tr) auto

lemma renumber_state:
  "distinct (map snd ps) \<Longrightarrow> p \<in> set ps \<Longrightarrow>
     tr_state (fold renumber ps tr) (snd p) = (tr_state tr (snd p))\<lparr>is_rank := Some (fst p)\<rparr>"
proof (induction ps arbitrary: tr)
  case (Cons q ps)
  show ?case
  proof (cases "p = q")
    case True
    then show ?thesis using Cons.prems renumber_state_other [of "snd q" ps "renumber q tr"] by simp
  next
    case False
    then have "p \<in> set ps" "snd p \<noteq> snd q" using Cons.prems by (auto simp: rev_image_eqI)
    then show ?thesis using Cons by simp
  qed
qed simp

text \<open>The order in which \<open>recompute_rank\<close> numbers the leaves puts the terminated ones last.\<close>

definition rank_order :: "'x tree \<Rightarrow> int list" where
  "rank_order tr = sort_key (\<lambda>r. leaf_mode tr r = TERMINATED) (iter_leaves (tr_topo tr))"

lemma recompute_rank_eq:
  "recompute_rank tr = fold renumber (zip (map int [0..<length (rank_order tr)]) (rank_order tr)) tr"
  by (simp add: recompute_rank_def rank_order_def Let_def case_prod_unfold)

lemma rank_order_alive:
  assumes "distinct (iter_leaves (tr_topo tr))" and "i < length (rank_order tr)"
    and "leaf_mode tr (rank_order tr ! i) \<noteq> TERMINATED"
  shows "i < card (alive_leaves tr)"
proof -
  let ?k = "\<lambda>r. leaf_mode tr r = TERMINATED"
  have d: "distinct (rank_order tr)" "set (rank_order tr) = tree_leaves tr"
    using assms(1) by (simp_all add: rank_order_def)
  have s: "sorted (map ?k (rank_order tr))" by (simp add: rank_order_def)
  have "rank_order tr ! j \<in> alive_leaves tr" if "j \<le> i" for j
  proof -
    have "?k (rank_order tr ! j) \<le> ?k (rank_order tr ! i)"
      using sorted_nth_mono [OF s that] assms(2) that by simp
    then have "\<not> ?k (rank_order tr ! j)" using assms(3) by auto
    then show ?thesis using nth_mem [of j "rank_order tr"] assms(2) that d(2)
      by (auto simp: alive_leaves_def)
  qed
  then have "(\<lambda>j. rank_order tr ! j) ` {0..i} \<subseteq> alive_leaves tr" by auto
  moreover have "inj_on (\<lambda>j. rank_order tr ! j) {0..i}"
    using d(1) assms(2) by (intro inj_on_nth) auto
  moreover have "finite (alive_leaves tr)" by (simp add: alive_leaves_def)
  ultimately have "card {0..i} \<le> card (alive_leaves tr)"
    using card_mono card_image by metis
  then show ?thesis by simp
qed

lemma recompute_rank_ok:
  assumes "distinct (iter_leaves (tr_topo tr))" and "dict_ok (tr_rank_map tr)"
    and "fst ` set (tr_rank_map tr) = {0..<int (length (iter_leaves (tr_topo tr)))}"
  defines "tr' \<equiv> recompute_rank tr"
  shows "tr_topo tr' = tr_topo tr" "tr_inactive tr' = tr_inactive tr" "ranks_ok tr'"
    "\<And>r. \<exists>q. tr_state tr' r = (tr_state tr r)\<lparr>is_rank := q\<rparr>"
    "\<And>r. r \<in> alive_leaves tr \<Longrightarrow> the (is_rank (tr_state tr' r)) < int (card (alive_leaves tr))"
proof -
  let ?n = "length (rank_order tr)"
  let ?ps = "zip (map int [0..<?n]) (rank_order tr)"
  have d: "distinct (rank_order tr)" "set (rank_order tr) = tree_leaves tr"
    "?n = length (iter_leaves (tr_topo tr))"
    using assms(1) by (simp_all add: rank_order_def)
  have tr': "tr' = fold renumber ?ps tr" unfolding tr'_def by (rule recompute_rank_eq)
  have ps: "map fst ?ps = map int [0..<?n]" "map snd ?ps = rank_order tr" by simp_all
  have dist: "distinct (map fst ?ps)" "distinct (map snd ?ps)"
    unfolding ps using d(1) by (simp_all add: distinct_map)
  show topo: "tr_topo tr' = tr_topo tr" "tr_inactive tr' = tr_inactive tr" by (simp_all add: tr')
  have keys: "fst ` set ?ps = {0..<int ?n}"
  proof -
    have "fst ` set ?ps = set (map fst ?ps)" by (rule set_map [symmetric])
    also have "\<dots> = int ` {0..<?n}" by (simp only: ps(1) set_map set_upt)
    finally show ?thesis by (simp add: image_int_atLeastLessThan)
  qed
  have leaf: "\<exists>i < ?n. r = rank_order tr ! i
      \<and> tr_state tr' r = (tr_state tr r)\<lparr>is_rank := Some (int i)\<rparr>
      \<and> map_of (tr_rank_map tr') (int i) = Some r" if "r \<in> tree_leaves tr" for r
  proof -
    have "r \<in> set (rank_order tr)" using that by (simp only: d(2))
    then obtain i where i: "i < ?n" "r = rank_order tr ! i"
      unfolding in_set_conv_nth by blast
    have "zip (map int [0..<?n]) (rank_order tr) ! i = (int i, r)" "i < length ?ps" using i by simp_all
    then have mem: "(int i, r) \<in> set ?ps" by (metis nth_mem)
    have "tr_state tr' r = (tr_state tr r)\<lparr>is_rank := Some (int i)\<rparr>"
      using renumber_state [OF dist(2) mem, of tr] by (simp only: tr' fst_conv snd_conv)
    moreover have "map_of (tr_rank_map tr') (int i) = Some r"
      using dict_put_all_map_of [OF dist(1) mem, of "tr_rank_map tr"]
      by (simp only: tr' renumber_shape fst_conv snd_conv)
    ultimately show ?thesis using i by blast
  qed
  have "dict_ok (tr_rank_map tr')" "fst ` set (tr_rank_map tr') = {0..<int ?n}"
    using dict_put_all_ok [OF assms(2), of ?ps] dict_put_all_keys [of ?ps "tr_rank_map tr"] keys assms(3) d(3)
    by (simp_all add: tr')
  moreover have "\<exists>q. is_rank (tr_state tr' r) = Some q \<and> map_of (tr_rank_map tr') q = Some r"
    if "r \<in> tree_leaves tr" for r
    using leaf [OF that] by auto
  ultimately show "ranks_ok tr'" using assms(1) d(3) by (simp add: ranks_ok_def topo)
  show "\<exists>q. tr_state tr' r = (tr_state tr r)\<lparr>is_rank := q\<rparr>" for r
  proof (cases "r \<in> tree_leaves tr")
    case False
    then have "r \<notin> snd ` set ?ps" using d(2) by (metis ps(2) set_map)
    from renumber_state_other [OF this] have "tr_state tr' r = tr_state tr r" by (simp add: tr')
    then show ?thesis by (intro exI [of _ "is_rank (tr_state tr r)"]) simp
  qed (use leaf in blast)
  show "the (is_rank (tr_state tr' r)) < int (card (alive_leaves tr))" if "r \<in> alive_leaves tr" for r
  proof -
    have r: "r \<in> tree_leaves tr" "leaf_mode tr r \<noteq> TERMINATED" using that by (simp_all add: alive_leaves_def)
    obtain i where i: "i < ?n" "r = rank_order tr ! i"
      "tr_state tr' r = (tr_state tr r)\<lparr>is_rank := Some (int i)\<rparr>" using leaf [OF r(1)] by blast
    then have "i < card (alive_leaves tr)" using rank_order_alive [OF assms(1) i(1)] r(2) by simp
    then show ?thesis using i(3) by simp
  qed
qed

section \<open>Propagation\<close>

lemma add_ranks_simps [simp]:
  "set (add_ranks new ts) = set new \<union> set ts" "distinct ts \<Longrightarrow> distinct (add_ranks new ts)"
  by (auto simp: add_ranks_def)

abbreviation branch_ranks :: "'x tree \<Rightarrow> topo \<Rightarrow> int set" where
  "branch_ranks tr t \<equiv>
     (\<lambda>r. the (is_rank (tr_state tr r))) ` {r \<in> set (iter_leaves t). leaf_mode tr r \<noteq> TERMINATED}"

lemma iter_leaves_Node [simp]: "iter_leaves (Node i l cs) = concat (map iter_leaves cs)"
  by (induction cs) (simp_all add: iter_leaves_def)

lemma terminate_branch_set:
  "set (terminate_branch tr t l ts) = (if count_not_terminated tr ts t < ly_min_ranks l
     then branch_ranks tr t \<union> set ts else set ts)"
  by (simp add: terminate_branch_def)

lemma propagate_mono: "set ts \<subseteq> set (propagate_terminations tr t ts)"
proof (induction tr t ts rule: propagate_terminations.induct)
  case (2 tr i l cs ts)
  have "set ts \<subseteq> set (fold (propagate_terminations tr) ds ts)" if "set ds \<subseteq> set cs" for ds
    using that
  proof (induction ds rule: rev_induct)
    case (snoc d ds)
    then show ?case using 2 [of d "fold (propagate_terminations tr) ds ts"] by auto
  qed simp
  then show ?case by (auto simp: terminate_branch_set)
qed simp

lemma propagate_upper: "set (propagate_terminations tr t ts) \<subseteq> set ts \<union> branch_ranks tr t"
proof (induction tr t ts rule: propagate_terminations.induct)
  case (2 tr i l cs ts)
  have "set (fold (propagate_terminations tr) ds ts) \<subseteq> set ts \<union> branch_ranks tr (Node i l cs)"
    if "set ds \<subseteq> set cs" for ds
    using that
  proof (induction ds rule: rev_induct)
    case (snoc d ds)
    have "branch_ranks tr d \<subseteq> branch_ranks tr (Node i l cs)" using snoc.prems by (intro image_mono) auto
    moreover have "set (fold (propagate_terminations tr) ds ts) \<subseteq> set ts \<union> branch_ranks tr (Node i l cs)"
      using snoc by simp
    moreover have "fold (propagate_terminations tr) (ds @ [d]) ts
        = propagate_terminations tr d (fold (propagate_terminations tr) ds ts)" by simp
    moreover have "d \<in> set cs" using snoc.prems by simp
    ultimately show ?case using 2 [of d "fold (propagate_terminations tr) ds ts"] by (simp only:) blast
  qed simp
  then have "set (fold (propagate_terminations tr) cs ts) \<subseteq> set ts \<union> branch_ranks tr (Node i l cs)"
    by blast
  then show ?case unfolding propagate_terminations.simps(2) terminate_branch_set
    by (simp only: split: if_split) blast
qed simp

lemma propagate_distinct: "distinct ts \<Longrightarrow> distinct (propagate_terminations tr t ts)"
proof (induction tr t ts rule: propagate_terminations.induct)
  case (2 tr i l cs ts)
  have "distinct (fold (propagate_terminations tr) ds ts)" if "set ds \<subseteq> set cs" for ds
    using that
  proof (induction ds rule: rev_induct)
    case (snoc d ds)
    then show ?case using 2(1) [of d "fold (propagate_terminations tr) ds ts"] by auto
  qed (simp add: 2)
  then show ?case by (simp add: terminate_branch_def)
qed simp

section \<open>Folds that touch single fields\<close>

lemma fold_set_leaf_shape [simp]:
  "tr_topo (fold (\<lambda>x. set_leaf (g x) f) xs tr) = tr_topo tr"
  "tr_rank_map (fold (\<lambda>x. set_leaf (g x) f) xs tr) = tr_rank_map tr"
  "tr_inactive (fold (\<lambda>x. set_leaf (g x) f) xs tr) = tr_inactive tr"
  by (induction xs arbitrary: tr) simp_all

lemma fold_set_leaf_field:
  "(\<And>s. field (f s) = field s) \<Longrightarrow>
     field (tr_state (fold (\<lambda>x. set_leaf (g x) f) xs tr) r) = field (tr_state tr r)"
  by (induction xs arbitrary: tr) auto

lemma fold_set_leaf_other:
  "r \<notin> g ` set xs \<Longrightarrow> tr_state (fold (\<lambda>x. set_leaf (g x) f) xs tr) r = tr_state tr r"
  by (induction xs arbitrary: tr) auto

lemma fold_set_leaf_put:
  "(\<And>s. field (f s) = v) \<Longrightarrow> r \<in> g ` set xs \<Longrightarrow>
     field (tr_state (fold (\<lambda>x. set_leaf (g x) f) xs tr) r) = v"
proof (induction xs arbitrary: tr)
  case (Cons x xs)
  show ?case
  proof (cases "r \<in> g ` set xs")
    case False
    then show ?thesis using Cons.prems by (simp add: fold_set_leaf_other)
  qed (use Cons in simp)
qed simp

lemma update_tree_simps:
  "tr_topo (update_tree ws ts tr) = tr_topo tr" "tr_rank_map (update_tree ws ts tr) = tr_rank_map tr"
  "tr_inactive (update_tree ws ts tr) = tr_inactive tr"
  "leaf_mode (update_tree ws ts tr) r = leaf_mode tr r"
  "is_active_world_size (tr_state (update_tree ws ts tr) r) = is_active_world_size (tr_state tr r)"
  "is_initial_rank (tr_state (update_tree ws ts tr) r) = is_initial_rank (tr_state tr r)"
  by (simp_all add: update_tree_def Let_def fold_set_leaf_field [of is_mode]
      fold_set_leaf_field [of is_active_world_size] fold_set_leaf_field [of is_initial_rank]
      fold_set_leaf_field [of is_mode _ "\<lambda>x. x"] fold_set_leaf_field [of is_active_world_size _ "\<lambda>x. x"]
      fold_set_leaf_field [of is_initial_rank _ "\<lambda>x. x"])

lemma update_tree_active:
  "r \<notin> rank_leaf tr ` set ts \<Longrightarrow>
     is_active_rank (tr_state (update_tree ws ts tr) r) = is_active_rank (tr_state tr r)"
  by (simp add: update_tree_def Let_def fold_set_leaf_other
      fold_set_leaf_field [of is_active_rank _ "\<lambda>x. x"])

lemma update_tree_world:
  "r \<in> tree_leaves tr \<Longrightarrow>
     is_world_size (tr_state (update_tree ws ts tr) r) = ws - int (length ts)"
  using fold_set_leaf_put [of is_world_size "\<lambda>s. s\<lparr>is_world_size := ws - int (length ts)\<rparr>"
      "ws - int (length ts)" r "\<lambda>x. x" "iter_leaves (tr_topo tr)" tr]
  by (simp add: update_tree_def Let_def fold_set_leaf_field [of is_world_size])

end
