(* ===== verification/InprocTreeCall.thy ===== *)
theory InprocTreeCall
  imports InprocTreeInv
begin

text \<open>
  What one call of the topology tree of \<open>InprocTree\<close> guarantees: the invariant of \<open>InprocTreeInv\<close>
  from call to call, the healthy minimum of every branch, and the state each rank gets back.
\<close>

section \<open>The steps put together\<close>

definition call_inputs :: "'x ra_ctx \<Rightarrow> 'x tree \<Rightarrow> bool" where
  "call_inputs ctx tr \<longleftrightarrow> is_world_size (rc_state ctx) = int (card (alive_leaves tr))
     \<and> reassign_inputs (rc_terminated ctx) (int (card (alive_leaves tr)))"

lemma copy_fields_state:
  assumes "\<And>s e i. field (s\<lparr>is_fn_exception := e, is_iteration := i\<rparr>) = field s"
  shows "field (tr_state (tree_copy_fields s tr) r) = field (tr_state tr r)"
  unfolding tree_copy_fields_def using assms
  by (intro fold_set_leaf_field [of field _ "\<lambda>x. x"])

lemma copy_fields_simps [simp]:
  "tr_topo (tree_copy_fields s tr) = tr_topo tr" "tr_rank_map (tree_copy_fields s tr) = tr_rank_map tr"
  "tr_inactive (tree_copy_fields s tr) = tr_inactive tr"
  "leaf_mode (tree_copy_fields s tr) r = leaf_mode tr r"
  "is_rank (tr_state (tree_copy_fields s tr) r) = is_rank (tr_state tr r)"
  "is_active_rank (tr_state (tree_copy_fields s tr) r) = is_active_rank (tr_state tr r)"
  "is_active_world_size (tr_state (tree_copy_fields s tr) r) = is_active_world_size (tr_state tr r)"
  "is_initial_rank (tr_state (tree_copy_fields s tr) r) = is_initial_rank (tr_state tr r)"
  by (simp_all add: copy_fields_state [of is_mode] copy_fields_state [of is_rank]
      copy_fields_state [of is_active_rank] copy_fields_state [of is_active_world_size]
      copy_fields_state [of is_initial_rank])
     (simp_all add: tree_copy_fields_def)

lemma copy_fields_same_world: "same_world tr (tree_copy_fields s tr)"
  by (simp add: same_world_def)

lemma copy_fields_ok:
  "inactive_ok tr \<Longrightarrow> inactive_ok (tree_copy_fields s tr)"
  "active_leaves (tree_copy_fields s tr) = active_leaves tr"
  "uniform_world tr w \<Longrightarrow> uniform_world (tree_copy_fields s tr) w"
proof -
  show "inactive_ok tr \<Longrightarrow> inactive_ok (tree_copy_fields s tr)"
    by (rule inactive_ok_cong) simp_all
  show act: "active_leaves (tree_copy_fields s tr) = active_leaves tr"
    by (simp add: active_leaves_def)
  show "uniform_world tr w \<Longrightarrow> uniform_world (tree_copy_fields s tr) w"
    unfolding uniform_world_def using active_cover_cong [OF _ act] by simp
qed

text \<open>The ranks below the world size belong to exactly the leaves that are alive.\<close>

lemma alive_ranks:
  assumes ranks: "ranks_ok tr"
    and below: "\<And>r. r \<in> alive_leaves tr \<Longrightarrow> the (is_rank (tr_state tr r)) < int (card (alive_leaves tr))"
  shows "bij_betw (rank_leaf tr) {0..<int (card (alive_leaves tr))} (alive_leaves tr)"
proof -
  let ?n = "int (length (iter_leaves (tr_topo tr)))" and ?m = "int (card (alive_leaves tr))"
  have b: "bij_betw (rank_leaf tr) {0..<?n} (tree_leaves tr)" by (rule rank_map_bij [OF ranks])
  have fin: "finite (alive_leaves tr)" by (simp add: alive_leaves_def)
  have "card (alive_leaves tr) \<le> card (tree_leaves tr)" by (intro card_mono) (auto simp: alive_leaves_def)
  also have "\<dots> = length (iter_leaves (tr_topo tr))"
    using ranks_okD(1) [OF ranks] by (rule distinct_card)
  finally have mn: "?m \<le> ?n" by simp
  have sub: "alive_leaves tr \<subseteq> rank_leaf tr ` {0..<?m}"
  proof
    fix r assume r: "r \<in> alive_leaves tr"
    then obtain q where q: "q \<in> {0..<?n}" "rank_leaf tr q = r" "is_rank (tr_state tr r) = Some q"
      using leaf_of_rank [OF ranks, of r] by (auto simp: alive_leaves_def)
    then have "q \<in> {0..<?m}" using below [OF r] by simp
    then show "r \<in> rank_leaf tr ` {0..<?m}" using q(2) by blast
  qed
  have inj: "inj_on (rank_leaf tr) {0..<?m}"
    by (rule inj_on_subset [OF bij_betw_imp_inj_on [OF b]]) (use mn in auto)
  have "card (rank_leaf tr ` {0..<?m}) = card (alive_leaves tr)"
    using card_image [OF inj] by simp
  then have "alive_leaves tr = rank_leaf tr ` {0..<?m}"
    using sub by (intro card_subset_eq) auto
  then show ?thesis using inj by (simp add: bij_betw_def)
qed

lemma tree_okD:
  assumes "tree_ok tr"
  shows "ranks_ok tr" "inactive_ok tr" "\<exists>w. uniform_world tr w"
    "bij_betw (rank_leaf tr) {0..<int (card (alive_leaves tr))} (alive_leaves tr)"
  using assms alive_ranks [of tr] by (auto simp: tree_ok_def uniform_world_def)

text \<open>The ranks that a call terminates: the requested ones and those of branches too small.\<close>

definition call_terminated :: "'x ra_ctx \<Rightarrow> 'x tree \<Rightarrow> int list" where
  "call_terminated ctx tr =
     propagate_terminations (tree_copy_fields (rc_state ctx) tr) (tr_topo tr) (rc_terminated ctx)"

lemma call_terminated_range:
  assumes ok: "tree_ok tr" and inp: "call_inputs ctx tr"
  shows "set (call_terminated ctx tr) \<subseteq> {0..<int (card (alive_leaves tr))}"
    "distinct (call_terminated ctx tr)" "set (rc_terminated ctx) \<subseteq> set (call_terminated ctx tr)"
proof -
  let ?m = "int (card (alive_leaves tr))"
  have "branch_ranks (tree_copy_fields (rc_state ctx) tr) (tr_topo tr) \<subseteq> {0..<?m}"
  proof
    fix q assume "q \<in> branch_ranks (tree_copy_fields (rc_state ctx) tr) (tr_topo tr)"
    then obtain r where r: "r \<in> alive_leaves tr" "q = the (is_rank (tr_state tr r))"
      by (auto simp: alive_leaves_def)
    then have "r \<in> tree_leaves tr" by (simp add: alive_leaves_def)
    from leaf_of_rank [OF tree_okD(1) [OF ok] this] have "0 \<le> q" using r(2) by force
    then show "q \<in> {0..<?m}" using ok r by (simp add: tree_ok_def)
  qed
  then show "set (call_terminated ctx tr) \<subseteq> {0..<?m}"
    using propagate_upper [of "tree_copy_fields (rc_state ctx) tr" "tr_topo tr" "rc_terminated ctx"] inp
    unfolding call_terminated_def call_inputs_def reassign_inputs_def by blast
  show "distinct (call_terminated ctx tr)"
    using inp by (simp add: call_terminated_def call_inputs_def reassign_inputs_def propagate_distinct)
  show "set (rc_terminated ctx) \<subseteq> set (call_terminated ctx tr)"
    by (simp add: call_terminated_def propagate_mono)
qed

lemma terminate_all_ok:
  assumes ranks: "ranks_ok tr" and iok: "inactive_ok tr" and uni: "uniform_world tr w"
    and ts: "distinct ts" "rank_leaf tr ` set ts \<subseteq> tree_leaves tr" "inj_on (rank_leaf tr) (set ts)"
  defines "tr' \<equiv> tree_terminate_all ts tr"
    and "ta \<equiv> filter (\<lambda>q. leaf_mode tr (rank_leaf tr q) = ACTIVE) ts"
  shows "ranks_ok tr'" "inactive_ok tr'" "handover tr' (set ta) {0..<w}"
    "active_cover tr' ({0..<w} - given_ranks tr' (set ta))"
    "\<forall>r \<in> tree_leaves tr'. is_active_world_size (tr_state tr' r) = Some w"
    "rank_leaf tr' = rank_leaf tr" "tr_topo tr' = tr_topo tr"
    "\<And>r. tr_state tr' r = (if r \<in> rank_leaf tr ` set ts then (tr_state tr r)\<lparr>is_mode := TERMINATED\<rparr>
       else tr_state tr r)"
proof -
  note defs = tr'_def tree_terminate_all_def
  show topo: "tr_topo tr' = tr_topo tr" by (simp add: defs terminate_all_simps)
  show leaf: "rank_leaf tr' = rank_leaf tr"
    by (simp add: defs rank_leaf_def terminate_all_simps fun_eq_iff)
  show st: "tr_state tr' r = (if r \<in> rank_leaf tr ` set ts then (tr_state tr r)\<lparr>is_mode := TERMINATED\<rparr>
       else tr_state tr r)" for r by (simp add: defs terminate_all_simps)
  have rm: "tr_rank_map tr' = tr_rank_map tr" by (simp add: defs terminate_all_simps)
  show "ranks_ok tr'" using ranks by (simp add: ranks_ok_def topo rm st)
  show "inactive_ok tr'" unfolding defs by (rule inactive_ok_terminate_all [OF iok ts(2)])
  show "\<forall>r \<in> tree_leaves tr'. is_active_world_size (tr_state tr' r) = Some w"
    using uni by (simp add: uniform_world_def topo st)
  have cov: "active_cover tr {0..<w}" using uni by (simp add: uniform_world_def)
  have lar: "leaf_active_rank tr' = leaf_active_rank tr"
    by (simp add: leaf_active_rank_def st fun_eq_iff)
  have ta: "rank_leaf tr ` set ta = active_leaves tr \<inter> rank_leaf tr ` set ts"
    using ts(2) by (auto simp: ta_def active_leaves_def)
  have "active_leaves tr' = active_leaves tr - rank_leaf tr ` set ts"
    unfolding defs by (rule active_leaves_terminate_all)
  then have act: "active_leaves tr' = active_leaves tr - rank_leaf tr ` set ta" using ta by auto
  show "active_cover tr' ({0..<w} - given_ranks tr' (set ta))"
  proof -
    have gr: "given_ranks tr (set ta) = leaf_active_rank tr ` rank_leaf tr ` set ta"
      by (simp add: image_image)
    show ?thesis unfolding leaf lar gr
      by (rule active_cover_remove [OF cov act]) (use ta in \<open>auto simp: st\<close>)
  qed
  have inj: "inj_on (\<lambda>q. leaf_active_rank tr (rank_leaf tr q)) (set ta)"
  proof -
    have "inj_on (rank_leaf tr) (set ta)" using ts(3) by (rule inj_on_subset) (auto simp: ta_def)
    moreover have "inj_on (leaf_active_rank tr) (rank_leaf tr ` set ta)"
      using cov ta by (auto simp: active_cover_def bij_betw_def intro: inj_on_subset)
    ultimately have "inj_on (leaf_active_rank tr \<circ> rank_leaf tr) (set ta)" by (rule comp_inj_on)
    then show ?thesis by (simp add: comp_def)
  qed
  show "handover tr' (set ta) {0..<w}"
    unfolding handover_def leaf lar
  proof (intro conjI ballI inj)
    fix q assume q: "q \<in> set ta"
    then have r: "rank_leaf tr q \<in> active_leaves tr" "rank_leaf tr q \<in> rank_leaf tr ` set ts"
      using ta by blast+
    then show "leaf_mode tr' (rank_leaf tr q) = TERMINATED" by (simp add: st)
    show "is_active_rank (tr_state tr' (rank_leaf tr q)) \<noteq> None"
      using cov r by (simp add: st active_cover_def)
    show "leaf_active_rank tr (rank_leaf tr q) \<in> {0..<w}"
      using cov r(1) bij_betwE unfolding active_cover_def by blast
  qed
qed

section \<open>One call\<close>

text \<open>What the steps leave before the ranks are renumbered, with or without a filter.\<close>

lemma tree_filter_ok:
  assumes "ranks_ok tr" and "inactive_ok tr" and "uniform_world tr w"
    and "(case flt of None \<Rightarrow> Inr tr | Some f \<Rightarrow> filter_active_world_size f tr) = Inr tr'"
  shows "\<exists>w'. same_world tr tr' \<and> inactive_ok tr' \<and> uniform_world tr' w' \<and> w' \<le> w
    \<and> (\<forall>f. flt = Some f \<longrightarrow> w' = f w)"
  using assms filter_active_world_size_ok [OF assms(1-3)] by (cases flt) auto

lemma recompute_alive:
  "alive_leaves (recompute_rank tr) = alive_leaves tr"
  if "distinct (iter_leaves (tr_topo tr))" "dict_ok (tr_rank_map tr)"
    "fst ` set (tr_rank_map tr) = {0..<int (length (iter_leaves (tr_topo tr)))}" for tr :: "'x tree"
proof -
  note R = recompute_rank_ok [OF that]
  have "leaf_mode (recompute_rank tr) r = leaf_mode tr r" for r using R(4) [of r] by auto
  then show ?thesis by (simp add: alive_leaves_def R(1))
qed

lemma tree_finish_ok:
  assumes ranks: "ranks_ok tr" and iok: "inactive_ok tr" and uni: "uniform_world tr w"
    and init: "\<forall>r \<in> tree_leaves tr. leaf_mode tr r \<noteq> INITIALIZED"
    and ts: "rank_leaf tr ` set ts \<subseteq> tree_leaves tr - alive_leaves tr"
    and size: "ws - int (length ts) = int (card (alive_leaves tr))"
  defines "tr' \<equiv> recompute_rank (update_tree ws ts tr)"
  shows "tree_ok tr'" "alive_leaves tr' = alive_leaves tr" "tr_topo tr' = tr_topo tr"
    "uniform_world tr' w" "\<And>r. leaf_mode tr' r = leaf_mode tr r"
    "\<And>r. is_initial_rank (tr_state tr' r) = is_initial_rank (tr_state tr r)"
proof -
  let ?u = "update_tree ws ts tr"
  have R: "distinct (iter_leaves (tr_topo ?u))" "dict_ok (tr_rank_map ?u)"
    "fst ` set (tr_rank_map ?u) = {0..<int (length (iter_leaves (tr_topo ?u)))}"
    using ranks by (simp_all add: ranks_ok_def update_tree_simps)
  note rec = recompute_rank_ok [OF R, folded tr'_def]
  have st: "\<exists>q. tr_state tr' r = (tr_state ?u r)\<lparr>is_rank := q\<rparr>" for r by (rule rec(4))
  show mode: "leaf_mode tr' r = leaf_mode tr r" for r
    using st [of r] by (auto simp: update_tree_simps)
  have aws: "is_active_world_size (tr_state tr' r) = is_active_world_size (tr_state tr r)" for r
    using st [of r] by (auto simp: update_tree_simps)
  show "is_initial_rank (tr_state tr' r) = is_initial_rank (tr_state tr r)" for r
    using st [of r] by (auto simp: update_tree_simps)
  show topo: "tr_topo tr' = tr_topo tr" by (simp add: rec(1) update_tree_simps)
  show alive: "alive_leaves tr' = alive_leaves tr" by (simp add: alive_leaves_def mode topo)
  have alive_u: "alive_leaves ?u = alive_leaves tr" by (simp add: alive_leaves_def update_tree_simps)
  have act: "active_leaves tr' = active_leaves tr" by (simp add: active_leaves_def mode topo)
  have iok': "inactive_ok tr'"
    by (rule inactive_ok_cong [OF iok]) (simp_all add: topo mode rec(2) update_tree_simps)
  have ar: "is_active_rank (tr_state tr' r) = is_active_rank (tr_state tr r)"
    if "r \<in> active_leaves tr" for r
  proof -
    have "r \<notin> rank_leaf tr ` set ts" using that ts by (auto simp: active_leaves_def alive_leaves_def)
    then show ?thesis using st [of r] by (auto simp: update_tree_active)
  qed
  show uni': "uniform_world tr' w"
    using active_cover_cong [of tr "{0..<w}" tr', OF _ act ar] uni
    by (simp add: uniform_world_def aws topo)
  have ws: "is_world_size (tr_state tr' r) = int (card (alive_leaves tr))" if "r \<in> alive_leaves tr" for r
    using st [of r] that size by (auto simp: update_tree_world alive_leaves_def)
  show "tree_ok tr'"
    using rec(3) iok' uni' init ws rec(5) mode alive
    by (auto simp: tree_ok_def uniform_world_def topo alive_u)
qed

theorem tree_reassign_ok:
  assumes ok: "tree_ok tr" and inp: "call_inputs ctx tr"
    and res: "tree_reassign flt ctx tr = Inr (tr', ts)"
  shows "tree_ok tr'" "ts = call_terminated ctx tr"
    "alive_leaves tr' = alive_leaves tr - rank_leaf tr ` set ts" "tr_topo tr' = tr_topo tr"
    "\<exists>w'. uniform_world tr' w' \<and> (\<forall>f. flt = Some f \<longrightarrow> (\<exists>v. w' = f v))"
    "\<And>r. r \<in> rank_leaf tr ` set ts \<Longrightarrow> leaf_mode tr' r = TERMINATED"
    "\<And>r. is_initial_rank (tr_state tr' r) = is_initial_rank (tr_state tr r)"
proof -
  let ?m = "int (card (alive_leaves tr))"
  define tr1 where "tr1 = tree_copy_fields (rc_state ctx) tr"
  have sw1: "same_world tr tr1" unfolding tr1_def by (rule copy_fields_same_world)
  have leaf1: "rank_leaf tr1 = rank_leaf tr" by (rule same_world_simps(3) [OF sw1])
  obtain w where "uniform_world tr w" using tree_okD(3) [OF ok] ..
  then have ok1: "ranks_ok tr1" "inactive_ok tr1" "uniform_world tr1 w"
    using same_world_ranks_ok [OF sw1 tree_okD(1) [OF ok]] copy_fields_ok tree_okD(2) [OF ok]
    by (simp_all add: tr1_def)
  note T = call_terminated_range [OF ok inp]
  note bij = tree_okD(4) [OF ok]
  define cts where "cts = call_terminated ctx tr"
  let ?ta = "filter (\<lambda>q. leaf_mode tr1 (rank_leaf tr1 q) = ACTIVE) cts"
  let ?tr2 = "tree_terminate_all cts tr1"
  have sub: "rank_leaf tr1 ` set cts \<subseteq> alive_leaves tr"
    using T(1) bij unfolding leaf1 cts_def by (auto simp: bij_betw_def)
  have inj: "inj_on (rank_leaf tr1) (set cts)"
    unfolding leaf1 cts_def by (rule inj_on_subset [OF bij_betw_imp_inj_on [OF bij] T(1)])
  have dist: "distinct cts" using T(2) by (simp add: cts_def)
  have leaves: "rank_leaf tr1 ` set cts \<subseteq> tree_leaves tr1"
    using sub by (auto simp: alive_leaves_def same_world_simps [OF sw1])
  note K = terminate_all_ok [OF ok1 dist leaves inj]
  obtain w3 where c: "same_world ?tr2 (tree_close_gaps ?ta ?tr2)" "inactive_ok (tree_close_gaps ?ta ?tr2)"
    "uniform_world (tree_close_gaps ?ta ?tr2) w3"
    using tree_close_gaps_ok [OF K(1,2,3) _ K(4,5)] dist by auto
  have r3: "ranks_ok (tree_close_gaps ?ta ?tr2)" by (rule same_world_ranks_ok [OF c(1) K(1)])
  have pre: "propagate_terminations tr1 (tr_topo tr1) (rc_terminated ctx) = cts"
    by (simp add: cts_def call_terminated_def tr1_def)
  obtain tr3 where f: "(case flt of None \<Rightarrow> Inr (tree_close_gaps ?ta ?tr2)
      | Some f \<Rightarrow> filter_active_world_size f (tree_close_gaps ?ta ?tr2)) = Inr tr3"
    and tr': "tr' = recompute_rank (update_tree (is_world_size (rc_state ctx)) cts tr3)" and ts: "ts = cts"
    using res unfolding tree_reassign_def tr1_def [symmetric] Let_def pre
    by (auto simp: res_bind_eq_Inr split: if_splits)
  obtain w4 where d: "same_world (tree_close_gaps ?ta ?tr2) tr3" "inactive_ok tr3" "uniform_world tr3 w4"
    "\<forall>f. flt = Some f \<longrightarrow> w4 = f w3"
    using tree_filter_ok [OF r3 c(2,3) f] by blast
  have sw3: "same_world ?tr2 tr3" using c(1) d(1) same_world_trans by blast
  have r4: "ranks_ok tr3" by (rule same_world_ranks_ok [OF sw3 K(1)])
  have topo3: "tr_topo tr3 = tr_topo tr"
    by (simp add: same_world_simps [OF sw3] K(7) same_world_simps [OF sw1])
  have leaf3: "rank_leaf tr3 = rank_leaf tr" by (simp add: same_world_simps(3) [OF sw3] K(6) leaf1)
  have m1: "leaf_mode tr1 r = leaf_mode tr r" for r by (simp add: tr1_def)
  have dead: "leaf_mode tr3 r = TERMINATED \<longleftrightarrow> r \<in> rank_leaf tr ` set cts \<or> leaf_mode tr r = TERMINATED" for r
    using sw3 by (simp add: same_world_def K(8) leaf1 m1)
  have alive3: "alive_leaves tr3 = alive_leaves tr - rank_leaf tr ` set cts"
    by (auto simp: alive_leaves_def topo3 dead)
  have init: "\<forall>r \<in> tree_leaves tr3. leaf_mode tr3 r \<noteq> INITIALIZED"
  proof
    fix r assume "r \<in> tree_leaves tr3"
    then have "leaf_mode tr r \<noteq> INITIALIZED" using ok by (simp add: tree_ok_def topo3)
    then have "leaf_mode ?tr2 r \<noteq> INITIALIZED" by (simp add: K(8) m1)
    then show "leaf_mode tr3 r \<noteq> INITIALIZED" using sw3 by (auto simp: same_world_def)
  qed
  have tsub: "rank_leaf tr3 ` set cts \<subseteq> tree_leaves tr3 - alive_leaves tr3"
    using leaves by (auto simp: leaf3 alive3 topo3 leaf1 same_world_simps [OF sw1])
  have "card (alive_leaves tr3) = card (alive_leaves tr) - length cts"
    using sub card_image [OF inj] dist unfolding alive3 leaf1
    by (simp add: card_Diff_subset distinct_card)
  moreover have "length cts \<le> card (alive_leaves tr)"
    using card_mono [OF _ sub] card_image [OF inj] dist by (simp add: distinct_card alive_leaves_def)
  ultimately have size: "is_world_size (rc_state ctx) - int (length cts) = int (card (alive_leaves tr3))"
    using inp by (simp add: call_inputs_def)
  note F = tree_finish_ok [OF r4 d(2,3) init tsub size, folded tr']
  show "tree_ok tr'" by (rule F(1))
  show "ts = call_terminated ctx tr" using ts by (simp add: cts_def)
  show "alive_leaves tr' = alive_leaves tr - rank_leaf tr ` set ts" by (simp add: F(2) alive3 ts)
  show "tr_topo tr' = tr_topo tr" by (simp add: F(3) topo3)
  show "\<exists>w'. uniform_world tr' w' \<and> (\<forall>f. flt = Some f \<longrightarrow> (\<exists>v. w' = f v))" using F(4) d(4) by blast
  show "leaf_mode tr' r = TERMINATED" if "r \<in> rank_leaf tr ` set ts" for r
    using that by (simp add: F(5) dead ts)
  show "is_initial_rank (tr_state tr' r) = is_initial_rank (tr_state tr r)" for r
  proof -
    have "is_initial_rank (tr_state tr1 r) = is_initial_rank (tr_state tr r)" by (simp add: tr1_def)
    then show ?thesis using sw3 by (simp add: F(6) same_world_def K(8))
  qed
qed

end
