(* ===== verification/InprocTreeInit.thy ===== *)
theory InprocTreeInit
  imports InprocTreeCall
begin

text \<open>
  The first activation of the topology tree: \<open>build_tree\<close> enters every rank as one leaf,
  \<open>bounded_activate\<close> establishes the invariant and respects the maximum of every layer.
\<close>

section \<open>Building\<close>

lemma mset_update_child:
  assumes "\<And>c. P c \<Longrightarrow> mset (iter_leaves (f c)) = add_mset r (mset (iter_leaves c))"
    and "mset (iter_leaves (f new)) = {#r#}"
  shows "mset (concat (map iter_leaves (update_child P f new cs)))
    = add_mset r (mset (concat (map iter_leaves cs)))"
  using assms by (induction cs) simp_all

lemma iter_leaves_Leaf [simp]: "iter_leaves (Leaf r ps) = [r]"
  by (simp add: iter_leaves_def)

fun is_node :: "topo \<Rightarrow> bool" where
  "is_node (Node i l cs) = True"
| "is_node (Leaf r ps) = False"

lemma add_leaf_mset:
  "is_node t \<Longrightarrow> mset (iter_leaves (add_leaf path r ps t)) = add_mset r (mset (iter_leaves t))
     \<and> is_node (add_leaf path r ps t)"
proof (induction path r ps t rule: add_leaf.induct)
  case (3 k ly path r ps i l cs)
  have "mset (iter_leaves (add_leaf path r ((i, l) # ps) c)) = add_mset r (mset (iter_leaves c))"
    if "is_child (i @ [k]) c" for c
    using that 3 by (cases c) auto
  moreover have "mset (iter_leaves (add_leaf path r ((i, l) # ps) (Node (i @ [k]) ly []))) = {#r#}"
    using 3 by simp
  ultimately show ?case by (simp add: mset_update_child)
qed auto

lemma build_topo_mset:
  assumes "length keys = length states"
  shows "mset (iter_leaves (build_topo layers keys states)) = mset (map tree_leaf_id states)"
proof -
  have "mset (iter_leaves (fold (\<lambda>(key, s). add_leaf (zip (tl key) (tl layers)) (tree_leaf_id s) []) ps t))
      = mset (iter_leaves t) + mset (map (tree_leaf_id \<circ> snd) ps)"
    if "is_node t" for ps :: "(string list \<times> 'a istate) list" and t
    using that by (induction ps arbitrary: t) (auto simp: add_leaf_mset)
  from this [of "Node [] (hd layers) []" "zip keys states"]
  have "mset (iter_leaves (build_topo layers keys states))
      = mset (map tree_leaf_id (map snd (zip keys states)))"
    by (simp add: build_topo_def)
  then show ?thesis using assms by (simp only: map_snd_zip)
qed

section \<open>Activating\<close>

fun subnodes :: "topo \<Rightarrow> topo list" where
  "subnodes (Leaf r ps) = []"
| "subnodes (Node i l cs) = Node i l cs # concat (map subnodes cs)"

definition active_in :: "'x tree \<Rightarrow> int list \<Rightarrow> int" where
  "active_in tr ls = int (length (filter (\<lambda>r. leaf_mode tr r = ACTIVE) ls))"

lemma active_in_append: "active_in tr (ks @ ls) = active_in tr ks + active_in tr ls"
  by (simp add: active_in_def)

lemma active_in_cong:
  "(\<And>r. r \<in> set ls \<Longrightarrow> leaf_mode tr' r = leaf_mode tr r) \<Longrightarrow> active_in tr' ls = active_in tr ls"
  unfolding active_in_def by (intro arg_cong [where f = int] arg_cong [where f = length] filter_cong) auto

fun within_max :: "'x tree \<Rightarrow> topo \<Rightarrow> bool" where
  "within_max tr (Leaf r ps) = True"
| "within_max tr (Node i l cs) =
     (case ly_max_ranks l of None \<Rightarrow> True | Some m \<Rightarrow> active_in tr (iter_leaves (Node i l cs)) \<le> max 0 m)"

lemma count_fold_path:
  "fold (\<lambda>p m. m(fst p := m (fst p) + (1::int))) path m i
     = m i + int (length (filter (\<lambda>p. fst p = i) path))"
  by (induction path arbitrary: m) auto

text \<open>What an activation of a subtree keeps, and what it does to the nodes on the path.\<close>

definition activated :: "int list \<Rightarrow> parents \<Rightarrow> int \<times> 'x tree \<Rightarrow> int \<times> 'x tree \<Rightarrow> bool" where
  "activated ls path p p' \<longleftrightarrow> (let (c, tr) = p; (c', tr') = p' in
     c \<le> c' \<and> inactive_ok tr' \<and> active_cover tr' {0..<c'}
     \<and> tr_topo tr' = tr_topo tr \<and> tr_rank_map tr' = tr_rank_map tr
     \<and> (\<forall>r. r \<notin> set ls \<longrightarrow> tr_state tr' r = tr_state tr r)
     \<and> (\<forall>r \<in> set ls. leaf_mode tr' r \<noteq> INITIALIZED \<and> leaf_mode tr' r \<noteq> TERMINATED)
     \<and> (\<forall>r. is_rank (tr_state tr' r) = is_rank (tr_state tr r)
          \<and> is_world_size (tr_state tr' r) = is_world_size (tr_state tr r))
     \<and> (\<forall>i. tr_active_count tr i \<le> tr_active_count tr' i)
     \<and> (\<forall>(i, l) \<in> set path. tr_active_count tr i + active_in tr' ls \<le> tr_active_count tr' i
          \<and> (\<forall>m. ly_max_ranks l = Some m \<longrightarrow>
               active_in tr' ls = 0 \<or> tr_active_count tr i + active_in tr' ls \<le> m)))"

definition ready :: "int list \<Rightarrow> int \<times> 'x tree \<Rightarrow> bool" where
  "ready ls p \<longleftrightarrow> (let (c, tr) = p in 0 \<le> c \<and> inactive_ok tr \<and> active_cover tr {0..<c}
     \<and> distinct ls \<and> set ls \<subseteq> tree_leaves tr \<and> (\<forall>r \<in> set ls. leaf_mode tr r = INITIALIZED)
     \<and> (\<forall>i. 0 \<le> tr_active_count tr i))"

lemma within_max_cong:
  "(\<And>r. r \<in> set (iter_leaves t) \<Longrightarrow> leaf_mode tr' r = leaf_mode tr r) \<Longrightarrow> within_max tr' t = within_max tr t"
  using active_in_cong [of "iter_leaves t" tr' tr] by (cases t) (simp_all split: option.split)

lemma subnodes_leaves: "s \<in> set (subnodes t) \<Longrightarrow> set (iter_leaves s) \<subseteq> set (iter_leaves t)"
  by (induction t rule: subnodes.induct) auto

lemma activated_leaf:
  assumes "ready [r] (c, tr)"
  shows "activated [r] path (c, tr) (bounded_activate (Leaf r ps) path (c, tr))"
proof -
  have r: "r \<in> tree_leaves tr" "leaf_mode tr r = INITIALIZED" "0 \<le> c" "inactive_ok tr"
    "active_cover tr {0..<c}" using assms by (simp_all add: ready_def)
  show ?thesis
  proof (cases "list_all (below_max tr) path")
    case True
    define cnt where "cnt = fold (\<lambda>p m. m(fst p := m (fst p) + (1::int))) path (tr_active_count tr)"
    let ?tr' = "(activate r (Some c) tr)\<lparr>tr_active_count := cnt\<rparr>"
    have act: "active_leaves ?tr' = insert r (active_leaves tr)" using r by (auto simp: active_leaves_def)
    have "active_cover ?tr' (insert c {0..<c})"
      by (rule active_cover_add [OF r(5) act]) (use r in \<open>auto simp: active_leaves_def\<close>)
    moreover have "insert c {0..<c} = {0..<c + 1}" using r(3) by auto
    moreover have "inactive_ok ?tr'"
      using r(1,2,4) unfolding inactive_ok_def
      by (auto simp: activate_def fold_pop_inactive)
    moreover have cnt: "tr_active_count tr i \<le> cnt i" for i by (simp add: cnt_def count_fold_path)
    moreover have "tr_active_count tr i + 1 \<le> cnt i \<and> (\<forall>m. ly_max_ranks l = Some m \<longrightarrow> tr_active_count tr i + 1 \<le> m)"
      if "(i, l) \<in> set path" for i l
    proof -
      have "filter (\<lambda>p. fst p = i) path \<noteq> []" using that by (force simp: filter_empty_conv)
      then have "1 \<le> length (filter (\<lambda>p. fst p = i) path)" by (cases "filter (\<lambda>p. fst p = i) path") auto
      then show ?thesis using True that
        by (auto simp: cnt_def count_fold_path list_all_iff below_max_def)
    qed
    moreover have "bounded_activate (Leaf r ps) path (c, tr) = (c + 1, ?tr')" using True by (simp add: cnt_def)
    ultimately show ?thesis using r by (auto simp: activated_def active_in_def)
  next
    case False
    have act: "active_leaves (deactivate r tr) = active_leaves tr" using r by (auto simp: active_leaves_def)
    have "active_cover (deactivate r tr) {0..<c}"
      by (rule active_cover_cong [OF r(5) act]) (use r in \<open>auto simp: active_leaves_def\<close>)
    moreover have "inactive_ok (deactivate r tr)" by (rule inactive_ok_deactivate [OF r(4,1)])
    moreover have "tr_active_count (deactivate r tr) = tr_active_count tr"
      by (simp add: deactivate_def set_leaf_def)
    ultimately show ?thesis using False r by (auto simp: activated_def active_in_def)
  qed
qed

lemma activated_append:
  assumes "activated ks path p p1" and "activated ls path p1 p2" and "set ks \<inter> set ls = {}"
  shows "activated (ks @ ls) path p p2"
proof -
  obtain c tr c1 tr1 c2 tr2 where p: "p = (c, tr)" "p1 = (c1, tr1)" "p2 = (c2, tr2)"
    by (cases p, cases p1, cases p2)
  have keep: "tr_state tr2 r = tr_state tr1 r" if "r \<in> set ks" for r
    using assms(2,3) that by (auto simp: activated_def p)
  then have ks: "active_in tr2 ks = active_in tr1 ks" by (intro active_in_cong) simp
  have nonneg: "0 \<le> active_in tr2 ls" "0 \<le> active_in tr1 ks" by (simp_all add: active_in_def)
  have path: "tr_active_count tr i + active_in tr2 (ks @ ls) \<le> tr_active_count tr2 i
      \<and> (\<forall>m. ly_max_ranks l = Some m \<longrightarrow> active_in tr2 (ks @ ls) = 0
           \<or> tr_active_count tr i + active_in tr2 (ks @ ls) \<le> m)" if "(i, l) \<in> set path" for i l
  proof -
    have 1: "tr_active_count tr i + active_in tr1 ks \<le> tr_active_count tr1 i"
      "\<And>m. ly_max_ranks l = Some m \<Longrightarrow> active_in tr1 ks = 0 \<or> tr_active_count tr i + active_in tr1 ks \<le> m"
      using assms(1) that by (auto simp: activated_def p)
    have 2: "tr_active_count tr1 i + active_in tr2 ls \<le> tr_active_count tr2 i"
      "\<And>m. ly_max_ranks l = Some m \<Longrightarrow> active_in tr2 ls = 0 \<or> tr_active_count tr1 i + active_in tr2 ls \<le> m"
      using assms(2) that by (auto simp: activated_def p)
    show ?thesis
      unfolding active_in_append ks using 1 2 nonneg by (intro conjI allI impI) force+
  qed
  have mono: "tr_active_count tr i \<le> tr_active_count tr2 i" for i
    using assms(1,2) by (auto simp: activated_def p intro: order_trans)
  show ?thesis
    using assms(1,2) keep path mono by (auto simp: activated_def p)
qed

lemma activated_Nil: "ready ls p \<Longrightarrow> activated [] path p p"
  by (auto simp: activated_def ready_def active_in_def split: prod.splits)

lemma activated_ready:
  assumes "ready (ks @ ls) p" and "activated ks path p p1"
  shows "ready ls p1"
proof -
  obtain c tr c1 tr1 where p: "p = (c, tr)" "p1 = (c1, tr1)" by (cases p, cases p1)
  have "0 \<le> tr_active_count tr1 i" for i
    using assms by (auto simp: activated_def ready_def p intro: order_trans)
  moreover have "leaf_mode tr1 r = INITIALIZED" if "r \<in> set ls" for r
    using assms that by (auto simp: activated_def ready_def p)
  ultimately show ?thesis using assms by (auto simp: activated_def ready_def p)
qed

lemma ready_prefix: "ready (ks @ ls) p \<Longrightarrow> ready ks p"
  by (auto simp: ready_def)

lemma activated_drop: "activated ls (path @ [q]) p p' \<Longrightarrow> activated ls path p p'"
  by (auto simp: activated_def)

lemma bounded_activate_ok:
  "ready (iter_leaves t) p \<Longrightarrow> activated (iter_leaves t) path p (bounded_activate t path p)
     \<and> (\<forall>s \<in> set (subnodes t). within_max (snd (bounded_activate t path p)) s)"
proof (induction t arbitrary: path p)
  case (Leaf r ps)
  then show ?case using activated_leaf [of r "fst p" "snd p" path ps] by simp
next
  case (Node i l cs)
  let ?path = "path @ [(i, l)]"
  have list: "ready (concat (map iter_leaves ds)) q \<Longrightarrow> set ds \<subseteq> set cs \<Longrightarrow>
      activated (concat (map iter_leaves ds)) ?path q (fold (\<lambda>c. bounded_activate c ?path) ds q)
      \<and> (\<forall>s \<in> set (concat (map subnodes ds)).
            within_max (snd (fold (\<lambda>c. bounded_activate c ?path) ds q)) s)" for ds and q :: "int \<times> 'a tree"
  proof (induction ds arbitrary: q)
    case Nil
    then show ?case by (simp add: activated_Nil)
  next
    case (Cons d ds)
    let ?q1 = "bounded_activate d ?path q"
    let ?q2 = "fold (\<lambda>c. bounded_activate c ?path) ds ?q1"
    have rdy: "ready (iter_leaves d @ concat (map iter_leaves ds)) q" using Cons.prems(1) by simp
    have d: "activated (iter_leaves d) ?path q ?q1" "\<forall>s \<in> set (subnodes d). within_max (snd ?q1) s"
      using Node.IH [of d q ?path] ready_prefix [OF rdy] Cons.prems(2) by auto
    have ds: "activated (concat (map iter_leaves ds)) ?path ?q1 ?q2"
      "\<forall>s \<in> set (concat (map subnodes ds)). within_max (snd ?q2) s"
      using Cons.IH [OF activated_ready [OF rdy d(1)]] Cons.prems(2) by auto
    have disj: "set (iter_leaves d) \<inter> set (concat (map iter_leaves ds)) = {}"
      using rdy by (auto simp: ready_def split: prod.splits)
    have "within_max (snd ?q2) s" if s: "s \<in> set (subnodes d)" for s
    proof -
      have "leaf_mode (snd ?q2) r = leaf_mode (snd ?q1) r" if "r \<in> set (iter_leaves s)" for r
      proof -
        have "r \<notin> set (concat (map iter_leaves ds))" using subnodes_leaves [OF s] that disj by blast
        then show ?thesis using ds(1) by (auto simp: activated_def split: prod.splits)
      qed
      then have "within_max (snd ?q2) s = within_max (snd ?q1) s" by (rule within_max_cong)
      then show ?thesis using d(2) s by simp
    qed
    then show ?case using activated_append [OF d(1) ds(1) disj] ds(2) by auto
  qed
  obtain c tr where p: "p = (c, tr)" by (cases p)
  let ?r = "fold (\<lambda>c. bounded_activate c ?path) cs (c, tr)"
  have L: "activated (concat (map iter_leaves cs)) ?path p ?r"
    "\<forall>s \<in> set (concat (map subnodes cs)). within_max (snd ?r) s"
    using list [of cs p] Node.prems p by auto
  have "within_max (snd ?r) (Node i l cs)"
  proof -
    have "0 \<le> tr_active_count tr i" using Node.prems by (simp add: ready_def p)
    moreover have "active_in (snd ?r) (concat (map iter_leaves cs)) = 0
        \<or> tr_active_count tr i + active_in (snd ?r) (concat (map iter_leaves cs)) \<le> m"
      if "ly_max_ranks l = Some m" for m
      using L(1) that by (auto simp: activated_def p split: prod.splits)
    ultimately show ?thesis by (force split: option.split)
  qed
  then show ?case using L activated_drop [OF L(1)] by (simp add: p)
qed

section \<open>The first call\<close>

text \<open>
  The inputs of the first call: \<open>n\<close> ranks, all initialized from the environment, with as many
  grouping keys as there are layers and one key for the root.
\<close>

definition init_inputs :: "layer list \<Rightarrow> string list list \<Rightarrow> 'x istate list \<Rightarrow> bool" where
  "init_inputs layers keys states \<longleftrightarrow> layers \<noteq> [] \<and> states \<noteq> [] \<and> length keys = length states
     \<and> (\<forall>key \<in> set keys. length key = length layers) \<and> length (remdups (map hd keys)) = 1
     \<and> (\<forall>q < length states. is_rank (states ! q) = Some (int q)
          \<and> is_initial_rank (states ! q) = Some (int q)
          \<and> is_world_size (states ! q) = int (length states) \<and> is_mode (states ! q) = INITIALIZED)"

lemma init_inputs_ids:
  assumes "init_inputs layers keys states"
  shows "map tree_leaf_id states = map int [0..<length states]"
    "map (\<lambda>s. the (is_rank s)) states = map int [0..<length states]"
  using assms by (auto simp: init_inputs_def tree_leaf_id_def intro!: nth_equalityI)

lemma build_tree_ok:
  assumes "init_inputs layers keys states"
  obtains tr where "build_tree layers keys states = Inr tr" "ready (iter_leaves (tr_topo tr)) (0, tr)"
    "ranks_ok tr" "tree_leaves tr = int ` {0..<length states}"
    "\<And>q. q < length states \<Longrightarrow> tr_state tr (int q) = states ! q"
    "tr_topo tr = build_topo layers keys states"
proof -
  let ?n = "length states"
  note ids = init_inputs_ids [OF assms]
  have "\<not> (\<exists>key \<in> set keys. key = [])" using assms by (auto simp: init_inputs_def)
  define tr where "tr = \<lparr>tr_topo = build_topo layers keys states,
      tr_state = (\<lambda>r. case map_of (map (\<lambda>s. (tree_leaf_id s, s)) states) r of
                        Some s \<Rightarrow> s | None \<Rightarrow> hd states),
      tr_active_count = (\<lambda>_. 0), tr_inactive = (\<lambda>_. []),
      tr_rank_map = fold (\<lambda>s. AList.update (the (is_rank s)) (tree_leaf_id s)) states []\<rparr>"
  have tr: "build_tree layers keys states = Inr tr"
    using assms \<open>\<not> (\<exists>key \<in> set keys. key = [])\<close>
    by (simp add: build_tree_def tr_def init_inputs_def)
  have fields: "tr_topo tr = build_topo layers keys states" "tr_inactive tr = (\<lambda>_. [])"
    "tr_active_count tr = (\<lambda>_. 0)"
    "tr_rank_map tr = fold (\<lambda>s. AList.update (the (is_rank s)) (tree_leaf_id s)) states []"
    "tr_state tr = (\<lambda>r. case map_of (map (\<lambda>s. (tree_leaf_id s, s)) states) r of
       Some s \<Rightarrow> s | None \<Rightarrow> hd states)"
    by (simp_all add: tr_def)
  have ms: "mset (iter_leaves (tr_topo tr)) = mset (map int [0..<?n])"
    using build_topo_mset [of keys states layers] assms ids(1)
    by (simp add: fields init_inputs_def)
  have leaves: "tree_leaves tr = int ` {0..<?n}" using mset_eq_setD [OF ms] by simp
  have dist: "distinct (iter_leaves (tr_topo tr))"
    using mset_eq_imp_distinct_iff [OF ms] by (simp add: distinct_map)
  have len: "length (iter_leaves (tr_topo tr)) = ?n" using mset_eq_length [OF ms] by simp
  have st: "tr_state tr (int q) = states ! q" if "q < ?n" for q
  proof -
    have "distinct (map fst (map (\<lambda>s. (tree_leaf_id s, s)) states))"
      using ids(1) by (simp add: comp_def distinct_map)
    moreover have "(int q, states ! q) \<in> set (map (\<lambda>s. (tree_leaf_id s, s)) states)"
      using that assms by (auto simp: init_inputs_def tree_leaf_id_def in_set_conv_nth image_iff intro!: bexI [of _ "states ! q"])
    ultimately show ?thesis by (simp add: fields)
  qed
  let ?ps = "map (\<lambda>s. (the (is_rank s), tree_leaf_id s)) states"
  have rm: "tr_rank_map tr = fold (\<lambda>p. AList.update (fst p) (snd p)) ?ps []"
    by (simp add: fields fold_map comp_def)
  have keys: "map fst ?ps = map int [0..<?n]" using ids(2) by (simp add: comp_def)
  have pq: "(int q, int q) \<in> set ?ps" if "q < ?n" for q
    using that assms by (auto simp: init_inputs_def tree_leaf_id_def in_set_conv_nth image_iff intro!: bexI [of _ "states ! q"])
  have d: "distinct (map fst ?ps)" unfolding keys by (simp add: distinct_map)
  have rmq: "map_of (tr_rank_map tr) (int q) = Some (int q)" if "q < ?n" for q
    using dict_put_all_map_of [OF d pq [OF that], of "[]"] by (simp add: rm)
  have "fst ` set (tr_rank_map tr) = fst ` set ?ps"
    using dict_put_all_keys [of ?ps "[]"] by (simp add: rm)
  also have "\<dots> = set (map fst ?ps)" by (rule set_map [symmetric])
  also have "\<dots> = {0..<int ?n}" unfolding keys by (simp add: image_int_atLeastLessThan)
  finally have dom: "fst ` set (tr_rank_map tr) = {0..<int ?n}" .
  have rk: "is_rank (tr_state tr (int q)) = Some (int q) \<and> leaf_mode tr (int q) = INITIALIZED" if "q < ?n" for q
    using that assms by (simp add: st init_inputs_def)
  have "ranks_ok tr"
    using dist dict_put_all_ok [of "[]" ?ps] rmq rk dom
    by (auto simp: ranks_ok_def rm [symmetric] len leaves)
  moreover have "ready (iter_leaves (tr_topo tr)) (0, tr)"
  proof -
    have "active_leaves tr = {}" using rk by (auto simp: active_leaves_def leaves)
    then show ?thesis
      using dist rk by (auto simp: ready_def inactive_ok_def active_cover_def leaves fields(2,3) bij_betw_def)
  qed
  ultimately show ?thesis using that tr leaves st fields(1) by blast
qed

lemma set_active_world_size_simps:
  fixes tr :: "'x tree" and w
  defines "tr' \<equiv> tree_set_active_world_size w tr"
  shows "tr_topo tr' = tr_topo tr" "tr_rank_map tr' = tr_rank_map tr" "tr_inactive tr' = tr_inactive tr"
    "leaf_mode tr' r = leaf_mode tr r" "is_rank (tr_state tr' r) = is_rank (tr_state tr r)"
    "is_active_rank (tr_state tr' r) = is_active_rank (tr_state tr r)"
    "is_world_size (tr_state tr' r) = is_world_size (tr_state tr r)"
    "ranks_ok tr \<Longrightarrow> r \<in> tree_leaves tr \<Longrightarrow> is_active_world_size (tr_state tr' r) = Some w"
  unfolding tr'_def tree_set_active_world_size_def
  by (simp_all add: fold_set_leaf_field [of is_mode] fold_set_leaf_field [of is_rank]
      fold_set_leaf_field [of is_active_rank] fold_set_leaf_field [of is_world_size]
      fold_set_leaf_put [of is_active_world_size] rank_map_values(2))

text \<open>The first activation establishes the invariant, and no node exceeds its maximum.\<close>

lemma tree_init_ok:
  assumes "init_inputs layers keys states"
  obtains tr where "tree_init layers keys states = Inr tr" "tree_ok tr"
    "tree_leaves tr = int ` {0..<length states}" "alive_leaves tr = tree_leaves tr"
    "\<forall>s \<in> set (subnodes (tr_topo tr)). within_max tr s"
    "tr_topo tr = build_topo layers keys states"
proof -
  obtain tr0 where tr0: "build_tree layers keys states = Inr tr0"
    "ready (iter_leaves (tr_topo tr0)) (0, tr0)" "ranks_ok tr0"
    "tree_leaves tr0 = int ` {0..<length states}"
    "\<And>q. q < length states \<Longrightarrow> tr_state tr0 (int q) = states ! q"
    "tr_topo tr0 = build_topo layers keys states"
    using build_tree_ok [OF assms] by blast
  obtain w tr1 where b: "bounded_activate (tr_topo tr0) [] (0, tr0) = (w, tr1)"
    by (cases "bounded_activate (tr_topo tr0) [] (0, tr0)")
  note A = bounded_activate_ok [OF tr0(2), of "[]", unfolded b]
  have act: "inactive_ok tr1" "active_cover tr1 {0..<w}" "tr_topo tr1 = tr_topo tr0"
    "tr_rank_map tr1 = tr_rank_map tr0"
    "\<forall>r \<in> tree_leaves tr0. leaf_mode tr1 r \<noteq> INITIALIZED \<and> leaf_mode tr1 r \<noteq> TERMINATED"
    "\<forall>r. is_rank (tr_state tr1 r) = is_rank (tr_state tr0 r)
        \<and> is_world_size (tr_state tr1 r) = is_world_size (tr_state tr0 r)"
    using A by (auto simp: activated_def)
  have ranks1: "ranks_ok tr1" using tr0(3) act(3,4,6) by (simp add: ranks_ok_def)
  let ?tr = "tree_set_active_world_size w tr1"
  note S = set_active_world_size_simps
  have al: "active_leaves ?tr = active_leaves tr1" by (simp add: active_leaves_def S)
  have cov: "active_cover ?tr {0..<w}" by (rule active_cover_cong [OF act(2) al]) (simp add: S)
  have iok: "inactive_ok ?tr" by (rule inactive_ok_cong [OF act(1)]) (simp_all add: S)
  have alive: "alive_leaves ?tr = tree_leaves ?tr" using act(5) by (auto simp: alive_leaves_def S act(3))
  have card: "card (tree_leaves ?tr) = length states"
    by (simp add: S act(3) tr0(4) card_image)
  have "is_world_size (tr_state ?tr r) = int (length states)
      \<and> the (is_rank (tr_state ?tr r)) < int (length states)" if "r \<in> tree_leaves tr0" for r
    using that tr0(4,5) act(6) assms by (auto simp: S init_inputs_def)
  then have "tree_ok ?tr"
    using ranks1 iok cov act(5) S(8) [OF ranks1, of _ w] card alive
    by (auto simp: tree_ok_def ranks_ok_def S act(3))
  moreover have "\<forall>s \<in> set (subnodes (tr_topo ?tr)). within_max ?tr s"
    using A within_max_cong [of _ ?tr tr1] by (simp add: S act(3))
  moreover have "tree_init layers keys states = Inr ?tr" using tr0(1) b by (simp add: tree_init_def)
  moreover have "tree_leaves ?tr = int ` {0..<length states}" "tr_topo ?tr = build_topo layers keys states"
    using tr0(4,6) by (simp_all add: S act(3))
  ultimately show ?thesis using that alive by blast
qed

end
