(* ===== verification/InprocTreeProps.thy ===== *)
theory InprocTreeProps
  imports InprocTreeInit
begin

text \<open>
  The properties of the topology tree: unhealthy branches are given up as a whole, and through any
  sequence of faults the active ranks stay contiguous and the survivors agree.
\<close>

section \<open>Branches below their minimum\<close>

fun branch_healthy :: "(int \<Rightarrow> bool) \<Rightarrow> topo \<Rightarrow> bool" where
  "branch_healthy alive (Leaf r ps) = True"
| "branch_healthy alive (Node i l cs) =
     ((\<forall>r \<in> set (iter_leaves (Node i l cs)). \<not> alive r)
      \<or> ly_min_ranks l \<le> int (length (filter alive (iter_leaves (Node i l cs)))))"

lemma branch_healthy_cong:
  assumes "\<And>r. r \<in> set (iter_leaves t) \<Longrightarrow> f r = g r"
  shows "branch_healthy f t = branch_healthy g t"
proof (cases t)
  case (Node i l cs)
  have "filter f (iter_leaves t) = filter g (iter_leaves t)" using assms by (intro filter_cong) auto
  then show ?thesis using assms by (simp add: Node)
qed simp

lemma branch_healthy_dead: "(\<And>r. r \<in> set (iter_leaves t) \<Longrightarrow> \<not> f r) \<Longrightarrow> branch_healthy f t"
  by (cases t) auto

definition own_ranks :: "'x tree \<Rightarrow> int set \<Rightarrow> bool" where
  "own_ranks tr L \<longleftrightarrow> (\<forall>r \<in> L. is_rank (tr_state tr r) \<noteq> None)
     \<and> inj_on (\<lambda>r. the (is_rank (tr_state tr r))) L"

lemma leaf_alive_other:
  assumes own: "own_ranks tr L" and sub: "K \<subseteq> L" and r: "r \<in> L" "r \<notin> K"
    and new: "set ts' \<subseteq> set ts \<union> (\<lambda>r. the (is_rank (tr_state tr r))) ` K" "set ts \<subseteq> set ts'"
  shows "leaf_alive tr ts' r = leaf_alive tr ts r"
proof -
  obtain q where q: "is_rank (tr_state tr r) = Some q" using own r(1) by (auto simp: own_ranks_def)
  have "q \<notin> (\<lambda>r. the (is_rank (tr_state tr r))) ` K"
  proof
    assume "q \<in> (\<lambda>r. the (is_rank (tr_state tr r))) ` K"
    then obtain k where k: "k \<in> K" "the (is_rank (tr_state tr k)) = the (is_rank (tr_state tr r))"
      using q by auto
    then have "k = r" using own sub r(1) by (auto simp: own_ranks_def dest: inj_onD)
    then show False using k(1) r(2) by simp
  qed
  then have "q \<in> set ts' \<longleftrightarrow> q \<in> set ts" using new by blast
  then show ?thesis using q by (auto simp: leaf_alive_def)
qed

lemma propagate_healthy:
  assumes own: "own_ranks tr L"
  shows "distinct (iter_leaves t) \<Longrightarrow> set (iter_leaves t) \<subseteq> L \<Longrightarrow>
    \<forall>s \<in> set (subnodes t). branch_healthy (leaf_alive tr (propagate_terminations tr t ts)) s"
proof (induction t arbitrary: ts)
  case (Node i l cs)
  let ?f = "fold (propagate_terminations tr)"
  have list: "distinct (concat (map iter_leaves ds)) \<Longrightarrow> set ds \<subseteq> set cs \<Longrightarrow>
      (\<forall>s \<in> set (concat (map subnodes ds)). branch_healthy (leaf_alive tr (?f ds us)) s)
      \<and> set us \<subseteq> set (?f ds us)
      \<and> set (?f ds us) \<subseteq> set us \<union> (\<lambda>r. the (is_rank (tr_state tr r))) ` set (concat (map iter_leaves ds))" for ds us
  proof (induction ds arbitrary: us)
    case (Cons d ds)
    let ?us = "propagate_terminations tr d us"
    have "distinct (iter_leaves d)" "set (iter_leaves d) \<subseteq> L" "d \<in> set cs"
      using Cons.prems Node.prems by auto
    then have d: "\<forall>s \<in> set (subnodes d). branch_healthy (leaf_alive tr ?us) s" using Node.IH by blast
    have ds: "\<forall>s \<in> set (concat (map subnodes ds)). branch_healthy (leaf_alive tr (?f ds ?us)) s"
      "set ?us \<subseteq> set (?f ds ?us)"
      "set (?f ds ?us) \<subseteq> set ?us \<union> (\<lambda>r. the (is_rank (tr_state tr r))) ` set (concat (map iter_leaves ds))"
      using Cons.IH [of ?us] Cons.prems by auto
    have subL: "set (concat (map iter_leaves ds)) \<subseteq> L" using Cons.prems(2) Node.prems(2) by auto
    have "branch_healthy (leaf_alive tr (?f ds ?us)) s" if s: "s \<in> set (subnodes d)" for s
    proof -
      have "leaf_alive tr (?f ds ?us) r = leaf_alive tr ?us r" if "r \<in> set (iter_leaves s)" for r
      proof (rule leaf_alive_other [OF own subL _ _ ds(3,2)])
        have "r \<in> set (iter_leaves d)" using that subnodes_leaves [OF s] by blast
        then show "r \<in> L" "r \<notin> set (concat (map iter_leaves ds))"
          using Cons.prems Node.prems(2) by auto
      qed
      then show ?thesis using branch_healthy_cong [of s] d s by blast
    qed
    moreover have "set us \<subseteq> set ?us" "set ?us \<subseteq> set us \<union> branch_ranks tr d"
      by (rule propagate_mono, rule propagate_upper)
    moreover have "branch_ranks tr d \<subseteq> (\<lambda>r. the (is_rank (tr_state tr r))) ` set (iter_leaves d)" by auto
    moreover have "?f (d # ds) us = ?f ds ?us" by simp
    moreover have "set (concat (map iter_leaves (d # ds)))
        = set (iter_leaves d) \<union> set (concat (map iter_leaves ds))" by simp
    moreover have "set (concat (map subnodes (d # ds)))
        = set (subnodes d) \<union> set (concat (map subnodes ds))" by simp
    ultimately show ?case using ds by (simp only: image_Un) blast
  qed simp
  define us where "us = ?f cs ts"
  define vs where "vs = terminate_branch tr (Node i l cs) l us"
  have L: "\<forall>s \<in> set (concat (map subnodes cs)). branch_healthy (leaf_alive tr us) s"
    using list [of cs ts] Node.prems(1) by (simp add: us_def)
  have res: "propagate_terminations tr (Node i l cs) ts = vs" by (simp add: us_def vs_def)
  show ?case
  proof (cases "count_not_terminated tr us (Node i l cs) < ly_min_ranks l")
    case True
    have "\<not> leaf_alive tr vs r" if r: "r \<in> set (iter_leaves (Node i l cs))" for r
    proof -
      obtain q where q: "is_rank (tr_state tr r) = Some q" using own r Node.prems(2) by (auto simp: own_ranks_def)
      have "q \<in> branch_ranks tr (Node i l cs)" if "leaf_mode tr r \<noteq> TERMINATED"
        using that r q by (intro image_eqI [of _ _ r]) auto
      then have "leaf_mode tr r \<noteq> TERMINATED \<Longrightarrow> q \<in> set vs"
        unfolding vs_def terminate_branch_set using True by simp
      then show ?thesis using q by (auto simp: leaf_alive_def)
    qed
    then have "branch_healthy (leaf_alive tr vs) s" if "s \<in> set (subnodes (Node i l cs))" for s
      using subnodes_leaves [OF that] by (intro branch_healthy_dead) blast
    then show ?thesis by (simp only: res) blast
  next
    case False
    then have "vs = us" by (simp add: vs_def terminate_branch_def)
    then show ?thesis using L False unfolding res by (auto simp: count_not_terminated_def)
  qed
qed simp

lemma tree_ok_own_ranks:
  assumes "ranks_ok tr"
  shows "own_ranks tr (tree_leaves tr)"
proof -
  have "inj_on (\<lambda>r. the (is_rank (tr_state tr r))) (tree_leaves tr)"
  proof (rule inj_onI)
    fix a b assume ab: "a \<in> tree_leaves tr" "b \<in> tree_leaves tr"
      "the (is_rank (tr_state tr a)) = the (is_rank (tr_state tr b))"
    obtain q where "rank_leaf tr q = a" "is_rank (tr_state tr a) = Some q"
      by (rule leaf_of_rank [OF assms ab(1)])
    moreover obtain p where "rank_leaf tr p = b" "is_rank (tr_state tr b) = Some p"
      by (rule leaf_of_rank [OF assms ab(2)])
    ultimately show "a = b" using ab(3) by simp
  qed
  moreover have "is_rank (tr_state tr r) \<noteq> None" if "r \<in> tree_leaves tr" for r
    by (rule leaf_of_rank [OF assms that]) simp
  ultimately show ?thesis by (simp add: own_ranks_def)
qed

text \<open>After a call a leaf is alive exactly if its rank was not terminated.\<close>

lemma alive_after_call:
  assumes ok: "tree_ok tr" and inp: "call_inputs ctx tr"
    and res: "tree_reassign flt ctx tr = Inr (tr', ts)" and r: "r \<in> tree_leaves tr"
  shows "leaf_mode tr' r \<noteq> TERMINATED \<longleftrightarrow> leaf_alive (tree_copy_fields (rc_state ctx) tr) ts r"
proof -
  note R = tree_reassign_ok [OF ok inp res]
  obtain q where q: "q \<in> {0..<int (length (iter_leaves (tr_topo tr)))}" "rank_leaf tr q = r"
    "is_rank (tr_state tr r) = Some q" using leaf_of_rank [OF tree_okD(1) [OF ok] r] .
  have "r \<in> rank_leaf tr ` set ts \<longleftrightarrow> q \<in> set ts"
  proof
    assume "r \<in> rank_leaf tr ` set ts"
    then obtain p where p: "p \<in> set ts" "rank_leaf tr p = r" by auto
    have "int (card (alive_leaves tr)) \<le> int (length (iter_leaves (tr_topo tr)))"
      using card_mono [of "tree_leaves tr" "alive_leaves tr"] ranks_okD(1) [OF tree_okD(1) [OF ok]]
      by (simp add: alive_leaves_def distinct_card)
    then have "p \<in> {0..<int (length (iter_leaves (tr_topo tr)))}"
      using p(1) call_terminated_range(1) [OF ok inp] R(2) by auto
    then show "q \<in> set ts" using rank_leaf_of(2) [OF tree_okD(1) [OF ok]] p q(3) by force
  qed (use q(2) in auto)
  moreover have "leaf_mode tr' r \<noteq> TERMINATED \<longleftrightarrow> r \<in> alive_leaves tr'"
    using r by (simp add: alive_leaves_def R(4))
  ultimately show ?thesis using r q(3) by (simp add: R(3) leaf_alive_def) (auto simp: alive_leaves_def)
qed

section \<open>Sequences of calls\<close>

text \<open>
  The trees a surviving rank can hold: the first activation, then any calls in which the rank is
  not discarded.
\<close>

inductive tree_reachable :: "'x tree \<Rightarrow> bool" where
  first: "init_inputs layers keys states \<Longrightarrow> tree_init layers keys states = Inr tr \<Longrightarrow> tree_reachable tr"
| later: "tree_reachable tr \<Longrightarrow> call_inputs ctx tr \<Longrightarrow> tree_call flt ctx tr = Inr (tr', ctx') \<Longrightarrow>
     tree_reachable tr'"

lemma clear_exceptions_simps:
  "tr_topo (tree_clear_exceptions tr) = tr_topo tr"
  "tr_rank_map (tree_clear_exceptions tr) = tr_rank_map tr"
  "tr_inactive (tree_clear_exceptions tr) = tr_inactive tr"
  "leaf_mode (tree_clear_exceptions tr) r = leaf_mode tr r"
  "is_rank (tr_state (tree_clear_exceptions tr) r) = is_rank (tr_state tr r)"
  "is_active_rank (tr_state (tree_clear_exceptions tr) r) = is_active_rank (tr_state tr r)"
  "is_active_world_size (tr_state (tree_clear_exceptions tr) r) = is_active_world_size (tr_state tr r)"
  "is_world_size (tr_state (tree_clear_exceptions tr) r) = is_world_size (tr_state tr r)"
  by (simp_all add: tree_clear_exceptions_def fold_set_leaf_field [of is_mode _ "\<lambda>x. x"]
      fold_set_leaf_field [of is_rank _ "\<lambda>x. x"] fold_set_leaf_field [of is_active_rank _ "\<lambda>x. x"]
      fold_set_leaf_field [of is_active_world_size _ "\<lambda>x. x"]
      fold_set_leaf_field [of is_world_size _ "\<lambda>x. x"])

lemma clear_exceptions_ok: "tree_ok tr \<Longrightarrow> tree_ok (tree_clear_exceptions tr)"
proof -
  assume ok: "tree_ok tr"
  let ?t = "tree_clear_exceptions tr"
  note S = clear_exceptions_simps
  have act: "active_leaves ?t = active_leaves tr" by (simp add: active_leaves_def S)
  have alive: "alive_leaves ?t = alive_leaves tr" by (simp add: alive_leaves_def S)
  have iok: "inactive_ok ?t" by (rule inactive_ok_cong [OF tree_okD(2) [OF ok]]) (simp_all add: S)
  obtain w where uni: "uniform_world tr w" using tree_okD(3) [OF ok] ..
  then have "active_cover ?t {0..<w}" using active_cover_cong [OF _ act] by (simp add: uniform_world_def S)
  then show ?thesis
    using ok iok uni by (auto simp: tree_ok_def ranks_ok_def S alive uniform_world_def)
qed

lemma tree_call_Inr:
  assumes "tree_call flt ctx tr = Inr (tr', ctx')"
  obtains tr1 ts where "tree_reassign flt ctx tr = Inr (tr1, ts)" "tr' = tree_clear_exceptions tr1"
    "rc_state ctx' = tr_state tr1 (the (is_initial_rank (rc_state ctx)))"
    "is_mode (rc_state ctx') \<noteq> TERMINATED"
  using assms
  by (auto simp: tree_call_def res_bind_eq_Inr get_state_from_tree_def Let_def split: if_splits)

lemma tree_reachable_ok: "tree_reachable tr \<Longrightarrow> tree_ok tr"
proof (induction rule: tree_reachable.induct)
  case (first layers keys states tr)
  then show ?case using tree_init_ok [OF first(1)] by (metis sum.inject(2))
next
  case (later tr ctx flt tr' ctx')
  obtain tr1 ts where "tree_reassign flt ctx tr = Inr (tr1, ts)" "tr' = tree_clear_exceptions tr1"
    by (rule tree_call_Inr [OF later(3)])
  then show ?case using tree_reassign_ok(1) [OF later(4,2)] clear_exceptions_ok by blast
qed

text \<open>A topology for the witnesses: two hosts of two ranks, one active rank per host.\<close>

definition tree_demo_layers :: "layer list" where
  "tree_demo_layers =
     [\<lparr>ly_min_ranks = 1, ly_max_ranks = None, ly_reserve = True, ly_backfill = False\<rparr>,
      \<lparr>ly_min_ranks = 1, ly_max_ranks = Some 1, ly_reserve = True, ly_backfill = False\<rparr>]"

definition tree_demo_keys :: "string list list" where
  "tree_demo_keys = [[''root'', ''a''], [''root'', ''a''], [''root'', ''b''], [''root'', ''b'']]"

definition tree_demo_states :: "string istate list" where
  "tree_demo_states = map (env_states 4) [0, 1, 2, 3]"

definition tree_demo :: "string tree" where
  "tree_demo = (case tree_init tree_demo_layers tree_demo_keys tree_demo_states of
     Inr tr \<Rightarrow> tr | Inl e \<Rightarrow> undefined)"

definition tree_demo_ctx :: "string ra_ctx" where
  "tree_demo_ctx = \<lparr>rc_state = env_states 4 3, rc_terminated = [0, 1]\<rparr>"

lemma tree_demo_inputs: "init_inputs tree_demo_layers tree_demo_keys tree_demo_states"
  by (simp add: init_inputs_def tree_demo_layers_def tree_demo_keys_def tree_demo_states_def
      env_states_def state_from_env_def state_post_init_def All_less_Suc numeral_eq_Suc)

lemma tree_init_exists:
  assumes "init_inputs layers keys states"
  shows "\<exists>tr. tree_init layers keys states = Inr tr \<and> tree_ok tr
    \<and> tree_leaves tr = int ` {0..<length states} \<and> alive_leaves tr = tree_leaves tr
    \<and> (\<forall>s \<in> set (subnodes (tr_topo tr)). within_max tr s)"
proof (rule tree_init_ok [OF assms])
  fix tr assume "tree_init layers keys states = Inr tr" "tree_ok tr"
    "tree_leaves tr = int ` {0..<length states}" "alive_leaves tr = tree_leaves tr"
    "\<forall>s \<in> set (subnodes (tr_topo tr)). within_max tr s"
  then show ?thesis by (intro exI [of _ tr]) simp
qed

lemma tree_demo_init:
  "tree_init tree_demo_layers tree_demo_keys tree_demo_states = Inr tree_demo"
  using tree_init_exists [OF tree_demo_inputs] by (auto simp: tree_demo_def)

lemma tree_demo_reachable: "tree_reachable tree_demo"
  by (rule tree_reachable.first [OF tree_demo_inputs tree_demo_init])

lemma tree_demo_alive: "alive_leaves tree_demo = {0, 1, 2, 3}"
proof -
  have "length tree_demo_states = 4" by (simp add: tree_demo_states_def)
  then have "alive_leaves tree_demo = int ` {0..<4}"
    using tree_init_exists [OF tree_demo_inputs] tree_demo_init by auto
  moreover have "int ` {0..<4} = {0..<4}" by (simp add: image_int_atLeastLessThan)
  ultimately show ?thesis by auto
qed

lemma tree_demo_call_inputs: "call_inputs tree_demo_ctx tree_demo"
  by (simp add: call_inputs_def tree_demo_alive tree_demo_ctx_def env_states_def state_from_env_def
      state_post_init_def reassign_inputs_def)

section \<open>Properties\<close>

text \<open>
  C1: the active ranks stay contiguous. In every tree a rank can reach, from the first activation
  through any sequence of calls with any terminated ranks, all leaves agree on one active world size
  \<open>w\<close> and the active leaves carry the active ranks from 0 to \<open>w - 1\<close>, each exactly once; the leaves
  still alive carry the ranks below their number, each exactly once, and know that number as their
  world size.
\<close>

theorem tree_active_ranks_contiguous:
  assumes "tree_reachable tr"
  shows "(\<exists>w. (\<forall>r \<in> set (iter_leaves (tr_topo tr)). is_active_world_size (tr_state tr r) = Some w)
       \<and> bij_betw (\<lambda>r. the (is_active_rank (tr_state tr r)))
           {r \<in> set (iter_leaves (tr_topo tr)). is_mode (tr_state tr r) = ACTIVE} {0..<w})
     \<and> bij_betw (\<lambda>r. the (is_rank (tr_state tr r))) (alive_leaves tr)
           {0..<int (card (alive_leaves tr))}
     \<and> (\<forall>r \<in> alive_leaves tr. is_world_size (tr_state tr r) = int (card (alive_leaves tr)))"
proof (intro conjI)
  have ok: "tree_ok tr" by (rule tree_reachable_ok [OF assms])
  then show "\<exists>w. (\<forall>r \<in> set (iter_leaves (tr_topo tr)). is_active_world_size (tr_state tr r) = Some w)
       \<and> bij_betw (\<lambda>r. the (is_active_rank (tr_state tr r)))
           {r \<in> set (iter_leaves (tr_topo tr)). is_mode (tr_state tr r) = ACTIVE} {0..<w}"
    by (auto simp: tree_ok_def active_cover_def active_leaves_def leaf_active_rank_def [abs_def])
  show "\<forall>r \<in> alive_leaves tr. is_world_size (tr_state tr r) = int (card (alive_leaves tr))"
    using ok by (simp add: tree_ok_def)
  let ?m = "int (card (alive_leaves tr))" and ?f = "\<lambda>r. the (is_rank (tr_state tr r))"
  have "inj_on ?f (alive_leaves tr)"
    using tree_ok_own_ranks [OF tree_okD(1) [OF ok]]
    by (auto simp: own_ranks_def alive_leaves_def intro: inj_on_subset)
  moreover have "?f ` alive_leaves tr \<subseteq> {0..<?m}"
  proof
    fix q assume "q \<in> ?f ` alive_leaves tr"
    then obtain r where r: "r \<in> alive_leaves tr" "q = ?f r" by blast
    then have "r \<in> tree_leaves tr" by (simp add: alive_leaves_def)
    from leaf_of_rank [OF tree_okD(1) [OF ok] this] have "0 \<le> q" using r(2) by force
    then show "q \<in> {0..<?m}" using ok r by (simp add: tree_ok_def)
  qed
  ultimately show "bij_betw ?f (alive_leaves tr) {0..<?m}"
    using card_image [of ?f "alive_leaves tr"] card_subset_eq [of "{0..<?m}" "?f ` alive_leaves tr"]
    by (simp add: bij_betw_def)
qed

theorem tree_active_ranks_contiguous_witness:
  "\<exists>w. bij_betw (\<lambda>r. the (is_active_rank (tr_state tree_demo r)))
      {r \<in> set (iter_leaves (tr_topo tree_demo)). is_mode (tr_state tree_demo r) = ACTIVE} {0..<w}"
  using tree_active_ranks_contiguous [OF tree_demo_reachable] by blast

lemma tree_reassign_total:
  assumes ok: "tree_ok tr" and inp: "call_inputs ctx tr"
  shows "\<exists>tr'. tree_reassign None ctx tr = Inr (tr', call_terminated ctx tr)"
proof -
  let ?tr1 = "tree_copy_fields (rc_state ctx) tr"
  have "map_of (tr_rank_map tr) q \<noteq> None" if "q \<in> set (call_terminated ctx tr)" for q
  proof -
    have "card (alive_leaves tr) \<le> card (tree_leaves tr)"
      by (intro card_mono) (auto simp: alive_leaves_def)
    then have "q \<in> {0..<int (length (iter_leaves (tr_topo tr)))}"
      using call_terminated_range(1) [OF ok inp] that ranks_okD(1) [OF tree_okD(1) [OF ok]]
      by (auto simp: distinct_card)
    then show ?thesis using ranks_okD(3) [OF tree_okD(1) [OF ok]] by force
  qed
  then have "\<not> (\<exists>q \<in> set (call_terminated ctx tr). map_of (tr_rank_map ?tr1) q = None)" by auto
  then show ?thesis
    by (simp add: tree_reassign_def Let_def call_terminated_def)
qed


lemma tree_demo_spare: "rank_leaf tree_demo 3 = 3 \<and> call_terminated tree_demo_ctx tree_demo = [0, 1]"
  by code_simp


text \<open>
  C3: no unhealthy branch survives. After any call, with or without a world size filter, every node
  of the topology either has no leaf alive or at least the minimum of its layer; the requested ranks
  are terminated, and a leaf that was terminated before stays terminated.
\<close>

theorem tree_call_min_ranks:
  assumes "tree_reachable tr" and "call_inputs ctx tr"
    and "tree_reassign flt ctx tr = Inr (tr', ts)"
  shows "(\<forall>s \<in> set (subnodes (tr_topo tr')).
            branch_healthy (\<lambda>r. is_mode (tr_state tr' r) \<noteq> TERMINATED) s)
     \<and> (\<forall>q \<in> set (rc_terminated ctx). is_mode (tr_state tr' (rank_leaf tr q)) = TERMINATED)
     \<and> alive_leaves tr' \<subseteq> alive_leaves tr"
proof -
  have ok: "tree_ok tr" by (rule tree_reachable_ok [OF assms(1)])
  let ?tr1 = "tree_copy_fields (rc_state ctx) tr"
  note R = tree_reassign_ok [OF ok assms(2,3)]
  have own: "own_ranks ?tr1 (tree_leaves tr)"
    using tree_ok_own_ranks [OF tree_okD(1) [OF ok]] by (simp add: own_ranks_def)
  have pre: "ts = propagate_terminations ?tr1 (tr_topo tr) (rc_terminated ctx)"
    using R(2) by (simp add: call_terminated_def)
  have healthy: "\<forall>s \<in> set (subnodes (tr_topo tr)). branch_healthy (leaf_alive ?tr1 ts) s"
    unfolding pre using propagate_healthy [OF own, of "tr_topo tr"] ranks_okD(1) [OF tree_okD(1) [OF ok]]
    by blast
  have "branch_healthy (\<lambda>r. leaf_mode tr' r \<noteq> TERMINATED) s" if s: "s \<in> set (subnodes (tr_topo tr))" for s
  proof -
    have "(leaf_mode tr' r \<noteq> TERMINATED) = leaf_alive ?tr1 ts r" if "r \<in> set (iter_leaves s)" for r
      by (rule alive_after_call [OF ok assms(2,3)]) (rule subsetD [OF subnodes_leaves [OF s] that])
    from branch_healthy_cong [of s, OF this] show ?thesis using healthy s by simp
  qed
  moreover have "leaf_mode tr' (rank_leaf tr q) = TERMINATED" if "q \<in> set (rc_terminated ctx)" for q
    using R(6) call_terminated_range(3) [OF ok assms(2)] that R(2) by blast
  ultimately show ?thesis using R(3,4) by auto
qed

theorem tree_call_min_ranks_witness:
  "\<exists>tr'. tree_reassign None tree_demo_ctx tree_demo = Inr (tr', [0, 1])
     \<and> is_mode (tr_state tr' (rank_leaf tree_demo 0)) = TERMINATED"
proof -
  obtain tr' where res: "tree_reassign None tree_demo_ctx tree_demo = Inr (tr', [0, 1])"
    using tree_reassign_total [OF tree_reachable_ok [OF tree_demo_reachable] tree_demo_call_inputs]
      tree_demo_spare by auto
  have "0 \<in> set (rc_terminated tree_demo_ctx)" by (simp add: tree_demo_ctx_def)
  then show ?thesis
    using tree_call_min_ranks [OF tree_demo_reachable tree_demo_call_inputs res] res by blast
qed

text \<open>
  C14: the first activation respects every maximum. The tree holds each rank as one leaf, and no
  node has more active leaves below it than its layer allows.
\<close>

theorem tree_init_max_ranks:
  assumes "init_inputs layers keys states"
  shows "\<exists>tr. tree_init layers keys states = Inr tr
     \<and> set (iter_leaves (tr_topo tr)) = int ` {0..<length states}
     \<and> (\<forall>s \<in> set (subnodes (tr_topo tr)). within_max tr s)"
  using tree_init_exists [OF assms] by blast

theorem tree_init_max_ranks_witness:
  "list_all (within_max tree_demo) (subnodes (tr_topo tree_demo))"
  using tree_init_max_ranks [OF tree_demo_inputs] tree_demo_init by (auto simp: list_all_iff)

lemma tree_demo_replacement:
  "(case tree_reassign None tree_demo_ctx tree_demo of Inl e \<Rightarrow> False
    | Inr (tr', ts) \<Rightarrow> list_ex (\<lambda>s. \<not> within_max tr' s) (subnodes (tr_topo tr')))"
  by code_simp

text \<open>
  a later replacement does not respect the maximum. There is a topology with at most one
  active rank per host in which one call, after both ranks of the first host died, activates the
  second rank of the other host beside its first: the reserve search looks at \<open>RESERVE\<close> flags only.
\<close>

theorem tree_replacement_ignores_max:
  "\<exists>(tr :: string tree) ctx tr' ts s. tree_reachable tr \<and> call_inputs ctx tr
     \<and> tree_reassign None ctx tr = Inr (tr', ts) \<and> s \<in> set (subnodes (tr_topo tr'))
     \<and> \<not> within_max tr' s"
proof -
  obtain tr' ts s where "tree_reassign None tree_demo_ctx tree_demo = Inr (tr', ts)"
    "s \<in> set (subnodes (tr_topo tr'))" "\<not> within_max tr' s"
    using tree_demo_replacement by (auto simp: list_ex_iff split: sum.splits)
  then show ?thesis using tree_demo_reachable tree_demo_call_inputs by blast
qed

end
