(* ===== verification/RestartModels.thy ===== *)
theory RestartModels
  imports NvrxPrelude "HOL-Library.List_Lexorder" "HOL-Library.Char_ord" "HOL-Library.Product_Lexorder"
begin

text \<open>
  The data of the restart agent (\<open>attribution/restart_agent/models.py\<close>): attempt records, the
  recovery assessment of the language model, declared recovery capabilities, the retry policy and
  its validation. Enumerations are datatypes; fields the source keeps as free text (progress
  statuses, fault outcomes, recovery behaviours of evidence) are strings; an optional value is an
  option. The methods that turn a record into a JSON payload are left out, and a payload stored
  in a record is the record it is made of.
\<close>

section \<open>Errors and dynamically typed values\<close>

datatype py_error = PyTypeError string | PyValueError string

text \<open>A configuration value as the validators see it: an integer, a boolean, or anything else.\<close>

datatype py_value = PyInt int | PyBool bool | PyOther

definition truthy :: "string option \<Rightarrow> bool" where
  "truthy v \<longleftrightarrow> (case v of None \<Rightarrow> False | Some t \<Rightarrow> t \<noteq> [])"

lemma truthy_simps [simp]: "\<not> truthy None" "truthy (Some t) \<longleftrightarrow> t \<noteq> []"
  by (simp_all add: truthy_def)

definition count_if :: "('a \<Rightarrow> bool) \<Rightarrow> 'a list \<Rightarrow> nat" where
  "count_if P xs = length (filter P xs)"

lemma count_if_simps [simp]:
  "count_if P [] = 0"
  "count_if P (x # xs) = (if P x then Suc (count_if P xs) else count_if P xs)"
  by (simp_all add: count_if_def)

lemma count_if_le: "count_if P xs \<le> length xs"
  by (simp add: count_if_def)

section \<open>Enumerations\<close>

datatype decision = STOP | RESTART

datatype decision_basis =
    LogUnavailable | WorkloadUnrecoverableBasis | RetryBudgetExhausted | RetryRecoveryAvailable
  | ConfirmationRetryAvailable | WorkloadManagedRecoveryAvailable | GeneralRetryAvailable
  | ObservedAdvance | NoPrimaryFailure | MalformedModelOutput

datatype failure_domain = WorkloadDomain | InfrastructureDomain | UnknownDomain

datatype retry_outlook = CannotRecover | MayRecover | UnknownOutlook

datatype assessment_status =
  EstablishedByCurrentLog | SupportedButUnconfirmed | HypothesisOnly | UnknownStatus

datatype recovery_behavior = NoRecovery | RetryThenSkip

fun recovery_behavior_value :: "recovery_behavior \<Rightarrow> string" where
  "recovery_behavior_value NoRecovery = ''none''"
| "recovery_behavior_value RetryThenSkip = ''retry_then_skip''"

datatype capability_id = BadTokenRetryThenSkip

datatype progress_relation = Advanced | SameProgress | Regressed | UnknownProgress

datatype entity_kind = DataPosition | Artifact

datatype entity_relation = SameEntity | DifferentEntity | UnknownEntity

datatype match_scope = RootOnly | RootAndEntity

datatype retry_rule =
  WorkloadManagedRecovery | WorkloadUnrecoverable | ConfirmationRetry | BoundedRetry | GeneralRetry

datatype facts_source = L0Deterministic | L2Grounded

section \<open>Attempt records\<close>

record affected_entity =
  ae_kind :: entity_kind
  ae_identity :: string
  ae_fingerprint :: string
  ae_evidence_line :: "int option"

definition affected_entity_new ::
  "entity_kind \<Rightarrow> string \<Rightarrow> string \<Rightarrow> int option \<Rightarrow> py_error + affected_entity" where
  "affected_entity_new k i f l =
    (if i = [] then Inl (PyTypeError ''affected entity identity must be a non-empty string'')
     else if f = [] then Inl (PyTypeError ''affected entity fingerprint must be a non-empty string'')
     else if (case l of None \<Rightarrow> False | Some n \<Rightarrow> n < 1)
       then Inl (PyTypeError ''affected entity evidence_line must be a positive integer'')
     else Inr \<lparr>ae_kind = k, ae_identity = i, ae_fingerprint = f, ae_evidence_line = l\<rparr>)"

record attempt_progress =
  ap_training_progress :: string
  ap_first_completed_step :: "int option"
  ap_last_completed_step :: "int option"
  ap_completed_step_delta :: "int option"
  ap_progress_marker_count :: int
  ap_checkpoint_progress :: string
  ap_checkpoint_load_step :: "int option"
  ap_first_checkpoint_step :: "int option"
  ap_last_checkpoint_step :: "int option"
  ap_checkpoint_step_delta :: "int option"
  ap_checkpoint_marker_count :: int
  ap_failure_position :: string
  ap_progress_after_failure :: string

record failure_facts =
  ff_source :: facts_source
  ff_root_fingerprint :: "string option"
  ff_root_fingerprint_source :: "string option"
  ff_fault_outcome :: "string option"
  ff_primary_line :: "int option"
  ff_identity_anchor_line :: "int option"
  ff_identity_anchor_reason :: "string option"
  ff_failure_iteration :: "int option"
  ff_affected_entity :: "affected_entity option"
  ff_faulting_rank :: "string option"
  ff_faulting_node :: "string option"
  ff_faulting_gpu :: "string option"
  ff_rank_to_gpu_map :: "(string, string) dict"

definition history_identity_ready :: "failure_facts \<Rightarrow> bool" where
  "history_identity_ready f = truthy (ff_root_fingerprint f)"

record enriched_facts =
  en_route_id :: string
  en_facts :: failure_facts

record attempt_record =
  ar_job_id :: string
  ar_cycle_id :: int
  ar_progress :: attempt_progress
  ar_deterministic :: failure_facts
  ar_enriched :: "enriched_facts list"

definition attempt_record_new ::
  "string \<Rightarrow> int \<Rightarrow> attempt_progress \<Rightarrow> failure_facts \<Rightarrow> enriched_facts list
    \<Rightarrow> py_error + attempt_record" where
  "attempt_record_new j c p d es =
    (if length es \<noteq> card (set (map en_route_id es))
     then Inl (PyValueError ''AttemptRecord enriched route_id values must be unique'')
     else Inr \<lparr>ar_job_id = j, ar_cycle_id = c, ar_progress = p, ar_deterministic = d,
               ar_enriched = es\<rparr>)"

record prior_view =
  pv_records :: "attempt_record list"
  pv_available :: bool
  pv_availability_reason :: string

section \<open>Recovery capabilities and assessments\<close>

record recovery_capability =
  rc_capability_id :: capability_id
  rc_behavior :: recovery_behavior
  rc_applies_to :: "string list"
  rc_required_entity_kind :: entity_kind
  rc_history_match_scope :: match_scope
  rc_allowed_retries :: int

text \<open>\<open>str.strip\<close> leaves nothing exactly when every character is white space.\<close>

definition py_space :: "char \<Rightarrow> bool" where
  "py_space c \<longleftrightarrow> of_char c \<in> {9, 10, 11, 12, 13, 28, 29, 30, 31, 32, 133, 160 :: nat}"

definition recovery_capability_new ::
  "capability_id \<Rightarrow> recovery_behavior \<Rightarrow> string list \<Rightarrow> entity_kind \<Rightarrow> match_scope \<Rightarrow> int
    \<Rightarrow> py_error + recovery_capability" where
  "recovery_capability_new cid b app k sc n =
    (if app = [] then Inl (PyTypeError ''declared recovery capability applies_to must be non-empty'')
     else if list_ex (list_all py_space) app
       then Inl (PyTypeError ''declared recovery capability applies_to items must be non-empty strings'')
     else if n < 1
       then Inl (PyValueError ''declared recovery capability allowed_retries must be greater than zero'')
     else if b \<noteq> RetryThenSkip
       then Inl (PyValueError ''bad_token_retry_then_skip behavior must be retry_then_skip'')
     else if app \<noteq> [''bad_token_or_window'']
       then Inl (PyValueError ''bad_token_retry_then_skip applies_to must be ['bad_token_or_window']'')
     else if k \<noteq> DataPosition
       then Inl (PyValueError ''bad_token_retry_then_skip required_entity_kind must be data_position'')
     else if sc \<noteq> RootAndEntity
       then Inl (PyValueError ''bad_token_retry_then_skip history_match_scope must be root_and_entity'')
     else Inr \<lparr>rc_capability_id = cid, rc_behavior = b, rc_applies_to = app,
               rc_required_entity_kind = k, rc_history_match_scope = sc, rc_allowed_retries = n\<rparr>)"

record recovery_assessment =
  as_domain :: failure_domain
  as_domain_status :: assessment_status
  as_domain_confidence :: int
  as_outlook :: retry_outlook
  as_outlook_status :: assessment_status
  as_outlook_confidence :: int
  as_rationale :: string

record failure_evidence =
  fe_failure_class :: string
  fe_signature :: string
  fe_root_fingerprint :: "string option"
  fe_fault_outcome :: "string option"
  fe_causal_role :: string
  fe_line :: "int option"
  fe_quote :: "string option"
  fe_rank :: "string option"
  fe_phase :: "string option"
  fe_node :: "string option"
  fe_gpu :: "string option"
  fe_failure_iteration :: "int option"
  fe_data_position_fingerprint :: "string option"
  fe_registry_id :: "string option"
  fe_role :: "string option"
  fe_recovery_behavior :: string
  fe_root_fingerprint_source :: string
  fe_affected_entity :: "affected_entity option"

section \<open>The retry policy\<close>

record retry_config =
  cf_confirmation :: int
  cf_bounded :: int
  cf_general :: int

definition default_retry_policy :: "(string, py_value) dict" where
  "default_retry_policy =
    [(''confirmation_retry_allowed_retries'', PyInt 1),
     (''bounded_retry_allowed_retries'', PyInt 1),
     (''general_retry_allowed_retries'', PyInt 3)]"

fun join :: "string \<Rightarrow> string list \<Rightarrow> string" where
  "join sep [] = []"
| "join sep [x] = x"
| "join sep (x # y # ys) = x @ sep @ join sep (y # ys)"

text \<open>The check of one budget field: present, an integer that is no boolean, and not negative.\<close>

definition retry_field ::
  "(string, py_value) dict \<Rightarrow> string \<Rightarrow> py_error + int" where
  "retry_field d key =
    (case map_of d key of
       Some (PyInt n) \<Rightarrow>
         if n < 0 then Inl (PyValueError (''retry_policy.'' @ key @ '' must not be negative''))
         else Inr n
     | _ \<Rightarrow> Inl (PyTypeError (''retry_policy.'' @ key @ '' must be an integer'')))"

definition normalize_retry_policy ::
  "(string, py_value) dict \<Rightarrow> py_error + (string, py_value) dict" where
  "normalize_retry_policy value =
    (let unknown = sort (filter (\<lambda>k. k \<notin> fst ` set default_retry_policy) (map fst value));
         result = fold (\<lambda>(k, v) d. AList.update k v d) value default_retry_policy
     in if unknown \<noteq> []
        then Inl (PyValueError (''unknown retry_policy fields: '' @ join '', '' unknown))
        else res_bind (retry_field result ''confirmation_retry_allowed_retries'') (\<lambda>c.
             res_bind (retry_field result ''bounded_retry_allowed_retries'') (\<lambda>b.
             res_bind (retry_field result ''general_retry_allowed_retries'') (\<lambda>g.
             if c > g then Inl (PyValueError (''retry_policy.confirmation_retry_allowed_retries''
                 @ '' must not exceed retry_policy.general_retry_allowed_retries''))
             else if b > g then Inl (PyValueError (''retry_policy.bounded_retry_allowed_retries''
                 @ '' must not exceed retry_policy.general_retry_allowed_retries''))
             else Inr result))))"

definition retry_config_new :: "int \<Rightarrow> int \<Rightarrow> int \<Rightarrow> py_error + retry_config" where
  "retry_config_new c b g =
    (if c < 0 then Inl (PyValueError ''confirmation_retry_allowed_retries must not be negative'')
     else if b < 0 then Inl (PyValueError ''bounded_retry_allowed_retries must not be negative'')
     else if g < 0 then Inl (PyValueError ''general_retry_allowed_retries must not be negative'')
     else if c > g then Inl (PyValueError
       ''confirmation_retry_allowed_retries must not exceed general_retry_allowed_retries'')
     else if b > g then Inl (PyValueError
       ''bounded_retry_allowed_retries must not exceed general_retry_allowed_retries'')
     else Inr \<lparr>cf_confirmation = c, cf_bounded = b, cf_general = g\<rparr>)"

text \<open>\<open>int(configured[key])\<close> on a normalized policy, whose values are integers.\<close>

definition config_int :: "(string, py_value) dict \<Rightarrow> string \<Rightarrow> int" where
  "config_int d k = (case map_of d k of Some (PyInt n) \<Rightarrow> n | Some (PyBool b) \<Rightarrow> of_bool b | _ \<Rightarrow> 0)"

definition retry_config_from_mapping ::
  "(string, py_value) dict option \<Rightarrow> py_error + retry_config" where
  "retry_config_from_mapping value =
    res_bind (normalize_retry_policy (case value of None \<Rightarrow> [] | Some d \<Rightarrow> d)) (\<lambda>configured.
      retry_config_new (config_int configured ''confirmation_retry_allowed_retries'')
        (config_int configured ''bounded_retry_allowed_retries'')
        (config_int configured ''general_retry_allowed_retries''))"

fun validate_recovery_capability_budgets ::
  "recovery_capability list \<Rightarrow> int \<Rightarrow> py_error + unit" where
  "validate_recovery_capability_budgets [] general_retries = Inr ()"
| "validate_recovery_capability_budgets (cap # caps) general_retries =
    (if rc_allowed_retries cap > general_retries
     then Inl (PyValueError (''declared recovery capability allowed_retries must not exceed ''
             @ ''retry_policy.general_retry_allowed_retries''))
     else validate_recovery_capability_budgets caps general_retries)"

section \<open>What validation establishes\<close>

definition retry_config_ok :: "retry_config \<Rightarrow> bool" where
  "retry_config_ok c \<longleftrightarrow> 0 \<le> cf_confirmation c \<and> 0 \<le> cf_bounded c
     \<and> cf_confirmation c \<le> cf_general c \<and> cf_bounded c \<le> cf_general c"

lemma retry_config_new_ok: "retry_config_new c b g = Inr r \<Longrightarrow> retry_config_ok r"
  by (auto simp: retry_config_new_def retry_config_ok_def split: if_splits)

lemma validated_budgets:
  "validate_recovery_capability_budgets caps g = Inr () \<longleftrightarrow>
    (\<forall>c \<in> set caps. rc_allowed_retries c \<le> g)"
  by (induction caps) auto

lemma retry_field_Inr: "retry_field d k = Inr n \<longleftrightarrow> map_of d k = Some (PyInt n) \<and> 0 \<le> n"
  by (auto simp: retry_field_def split: option.splits py_value.splits)

lemma normalized_config:
  assumes "normalize_retry_policy v = Inr d"
  shows "\<exists>c b g. map_of d ''confirmation_retry_allowed_retries'' = Some (PyInt c)
    \<and> map_of d ''bounded_retry_allowed_retries'' = Some (PyInt b)
    \<and> map_of d ''general_retry_allowed_retries'' = Some (PyInt g)
    \<and> 0 \<le> c \<and> 0 \<le> b \<and> c \<le> g \<and> b \<le> g"
  using assms
  by (auto simp: normalize_retry_policy_def Let_def res_bind_eq_Inr retry_field_Inr
      split: if_splits)

text \<open>A policy that normalizes always gives a configuration: the second validation cannot fail.\<close>

lemma from_mapping_iff:
  "(\<exists>c. retry_config_from_mapping v = Inr c) \<longleftrightarrow>
   (\<exists>d. normalize_retry_policy (case v of None \<Rightarrow> [] | Some m \<Rightarrow> m) = Inr d)"
proof
  assume "\<exists>d. normalize_retry_policy (case v of None \<Rightarrow> [] | Some m \<Rightarrow> m) = Inr d"
  then obtain d where d: "normalize_retry_policy (case v of None \<Rightarrow> [] | Some m \<Rightarrow> m) = Inr d" ..
  from normalized_config [OF d] show "\<exists>c. retry_config_from_mapping v = Inr c"
    using d by (fastforce simp: retry_config_from_mapping_def config_int_def retry_config_new_def)
qed (auto simp: retry_config_from_mapping_def res_bind_eq_Inr)

lemma from_mapping_ok: "retry_config_from_mapping v = Inr c \<Longrightarrow> retry_config_ok c"
  by (auto simp: retry_config_from_mapping_def res_bind_eq_Inr intro: retry_config_new_ok)

end
