(* ===== verification/RestartHistory.thy ===== *)
theory RestartHistory
  imports RestartModels "HOL-Library.Multiset"
begin

text \<open>
  The comparison of an attempt with the earlier attempts of its job
  (\<open>attribution/restart_agent/l3/history.py\<close>): which earlier records share the root
  fingerprint, whether the job has advanced since, and how many of the latest attempts failed in
  the same way without an observed advance.
\<close>

section \<open>Comparison of two attempts\<close>

record dim_comparison =
  dc_dimension :: string
  dc_prior_observation_status :: string
  dc_current_observation_status :: string
  dc_prior_value :: "int option"
  dc_current_value :: "int option"
  dc_delta :: "int option"
  dc_relation :: progress_relation

record progress_comparison =
  pc_prior_cycle_id :: int
  pc_selected_basis :: string
  pc_dimension_comparisons :: "dim_comparison list"
  pc_positive_progress_conflict :: bool
  pc_relation :: progress_relation
  pc_prior_attempt_progress :: attempt_progress
  pc_prior_fault_outcome :: "string option"
  pc_same_failure_iteration :: bool
  pc_same_rank :: bool
  pc_affected_entity_relation :: entity_relation

definition relation_from_delta :: "int \<Rightarrow> progress_relation" where
  "relation_from_delta d = (if d > 0 then Advanced else if d < 0 then Regressed else SameProgress)"

definition dimension_comparison ::
  "string \<Rightarrow> string \<Rightarrow> string \<Rightarrow> int option \<Rightarrow> int option \<Rightarrow> dim_comparison" where
  "dimension_comparison dimension prior_status current_status prior_value current_value =
    (let (delta, relation) =
       (if prior_status = ''unknown'' \<or> current_status = ''unknown'' then (None, UnknownProgress)
        else if current_status = ''observed'' \<and> prior_status = ''not_observed'' then (None, Advanced)
        else if current_status = ''not_observed'' \<and> prior_status = ''observed'' then (None, Regressed)
        else if current_status = prior_status \<and> prior_status = ''not_observed''
          then (None, SameProgress)
        else case (prior_value, current_value) of
          (Some p, Some c) \<Rightarrow> (Some (c - p), relation_from_delta (c - p))
        | _ \<Rightarrow> (None, UnknownProgress))
     in \<lparr>dc_dimension = dimension, dc_prior_observation_status = prior_status,
         dc_current_observation_status = current_status, dc_prior_value = prior_value,
         dc_current_value = current_value, dc_delta = delta, dc_relation = relation\<rparr>)"

definition positive_progress_dimensions ::
  "attempt_progress \<Rightarrow> attempt_progress \<Rightarrow> dim_comparison list" where
  "positive_progress_dimensions current prior =
    [dimension_comparison d ps cs pv cv.
       (d, ps, cs, pv, cv) \<leftarrow>
         [(''completed_step'', ap_training_progress prior, ap_training_progress current,
             ap_last_completed_step prior, ap_last_completed_step current),
          (''checkpoint_step'', ap_checkpoint_progress prior, ap_checkpoint_progress current,
             ap_last_checkpoint_step prior, ap_last_checkpoint_step current)],
       ps \<noteq> ''unknown'' \<or> cs \<noteq> ''unknown'']"

definition failure_iteration_dimension :: "int option \<Rightarrow> int option \<Rightarrow> dim_comparison" where
  "failure_iteration_dimension current_value prior_value =
    (let delta = (case (current_value, prior_value) of (Some c, Some p) \<Rightarrow> Some (c - p) | _ \<Rightarrow> None);
         status = (\<lambda>v. if v \<noteq> None then ''observed'' else ''unknown'')
     in \<lparr>dc_dimension = ''failure_iteration'', dc_prior_observation_status = status prior_value,
         dc_current_observation_status = status current_value, dc_prior_value = prior_value,
         dc_current_value = current_value, dc_delta = delta,
         dc_relation = (case delta of Some d \<Rightarrow> relation_from_delta d | None \<Rightarrow> UnknownProgress)\<rparr>)"

definition combine_positive_dimensions :: "dim_comparison list \<Rightarrow> progress_relation \<times> bool" where
  "combine_positive_dimensions ds =
    (let relations = set (map dc_relation ds);
         advanced = Advanced \<in> relations;
         regressed = Regressed \<in> relations
     in if advanced \<and> regressed then (UnknownProgress, True)
        else if advanced then (Advanced, False)
        else if regressed then (Regressed, False)
        else if relations \<noteq> {} \<and> relations \<subseteq> {SameProgress, UnknownProgress}
             \<and> SameProgress \<in> relations then (SameProgress, False)
        else (UnknownProgress, False))"

definition selected_basis :: "dim_comparison list \<Rightarrow> string" where
  "selected_basis ds =
    (let names = set (map dc_dimension (filter (\<lambda>d. dc_relation d \<noteq> UnknownProgress) ds))
     in if names = {''completed_step'', ''checkpoint_step''} then ''completed_step_and_checkpoint_step''
        else if names = {''completed_step''} then ''completed_step''
        else if names = {''checkpoint_step''} then ''checkpoint_step''
        else ''none'')"

definition affected_entity_relation :: "failure_facts \<Rightarrow> failure_facts \<Rightarrow> entity_relation" where
  "affected_entity_relation current prior =
    (case (ff_affected_entity current, ff_affected_entity prior) of
       (Some c, Some p) \<Rightarrow>
         if ae_kind c = ae_kind p \<and> ae_fingerprint c = ae_fingerprint p then SameEntity
         else DifferentEntity
     | _ \<Rightarrow> UnknownEntity)"

definition compare_progress ::
  "attempt_record \<Rightarrow> failure_facts \<Rightarrow> attempt_record \<Rightarrow> progress_comparison" where
  "compare_progress current_record current_facts prior_record =
    (let prior_facts = ar_deterministic prior_record;
         dimensions = positive_progress_dimensions (ar_progress current_record) (ar_progress prior_record);
         (relation, conflict) = combine_positive_dimensions dimensions;
         fallback = failure_iteration_dimension (ff_failure_iteration current_facts)
                      (ff_failure_iteration prior_facts);
         (dims, basis, rel, confl) =
           (if dimensions = [] \<or> list_all (\<lambda>d. dc_relation d = UnknownProgress) dimensions
            then (dimensions @ [fallback], ''failure_iteration'', dc_relation fallback, False)
            else (dimensions, selected_basis dimensions, relation, conflict))
     in \<lparr>pc_prior_cycle_id = ar_cycle_id prior_record, pc_selected_basis = basis,
         pc_dimension_comparisons = dims, pc_positive_progress_conflict = confl,
         pc_relation = rel, pc_prior_attempt_progress = ar_progress prior_record,
         pc_prior_fault_outcome = ff_fault_outcome prior_facts,
         pc_same_failure_iteration = (ff_failure_iteration current_facts \<noteq> None
           \<and> ff_failure_iteration prior_facts = ff_failure_iteration current_facts),
         pc_same_rank = (ff_faulting_rank current_facts \<noteq> None
           \<and> ff_faulting_rank prior_facts = ff_faulting_rank current_facts),
         pc_affected_entity_relation = affected_entity_relation current_facts prior_facts\<rparr>)"

section \<open>Evaluation of the history\<close>

definition qualifying_outcome :: "progress_comparison \<Rightarrow> bool" where
  "qualifying_outcome c \<longleftrightarrow> pc_prior_fault_outcome c \<in> {Some ''terminal'', Some ''unresolved''}"

definition no_advance :: "progress_comparison \<Rightarrow> bool" where
  "no_advance c \<longleftrightarrow> pc_relation c \<in> {SameProgress, Regressed}"

text \<open>
  The loop over the earlier records, newest first; the list is already reversed and the count is
  the accumulator.
\<close>

fun consecutive_from ::
  "attempt_record \<Rightarrow> failure_facts \<Rightarrow> bool \<Rightarrow> nat \<Rightarrow> attempt_record list \<Rightarrow> nat" where
  "consecutive_from cur facts require_same_entity found [] = found"
| "consecutive_from cur facts require_same_entity found (p # ps) =
    (if ff_root_fingerprint (ar_deterministic p) \<noteq> ff_root_fingerprint facts then found
     else let c = compare_progress cur facts p in
       if require_same_entity \<and> pc_affected_entity_relation c \<noteq> SameEntity then found
       else if \<not> qualifying_outcome c then found
       else if \<not> no_advance c then found
       else consecutive_from cur facts require_same_entity (found + 1) ps)"

definition consecutive_same_root_no_advance ::
  "attempt_record \<Rightarrow> failure_facts \<Rightarrow> attempt_record list \<Rightarrow> bool \<Rightarrow> nat" where
  "consecutive_same_root_no_advance cur facts ordered require_same_entity =
    consecutive_from cur facts require_same_entity 0 (rev ordered)"

definition relation_count :: "progress_comparison list \<Rightarrow> progress_relation \<Rightarrow> nat" where
  "relation_count cs rel = count_if (\<lambda>c. pc_relation c = rel) cs"

record history_input =
  hi_current_record :: attempt_record
  hi_fact_selector :: string
  hi_prior_attempts :: prior_view

record history_summary =
  hs_available :: bool
  hs_availability_reason :: string
  hs_same_job_attempts :: nat
  hs_matching_root_attempts :: nat
  hs_comparisons :: "progress_comparison list"
  hs_observed_advance_attempts :: nat
  hs_same_progress_attempts :: nat
  hs_regressed_progress_attempts :: nat
  hs_unknown_progress_attempts :: nat
  hs_no_observed_advance_attempts :: nat
  hs_matching_with_observed_training_progress :: nat
  hs_matching_before_observed_training_progress :: nat
  hs_matching_with_unknown_training_progress :: nat
  hs_exact_failure_position_attempts :: nat
  hs_same_rank_iteration_attempts :: nat
  hs_same_entity_attempts :: nat
  hs_different_entity_attempts :: nat
  hs_unknown_entity_attempts :: nat
  hs_consecutive_same_root_no_advance :: nat
  hs_consecutive_same_root_and_entity_no_advance :: nat
  hs_advanced_beyond_all_comparable :: bool
  hs_advanced_beyond_all_same_entity_comparable :: bool
  hs_cross_node_recurrence :: bool
  hs_same_node_recurrence :: bool
  hs_same_gpu_recurrence :: bool
  hs_same_rank_only_recurrence :: bool
  hs_rank_to_gpu_mapping_available :: bool

definition history_unavailable :: "string \<Rightarrow> nat \<Rightarrow> history_summary" where
  "history_unavailable reason attempts =
    \<lparr>hs_available = False, hs_availability_reason = reason, hs_same_job_attempts = attempts,
     hs_matching_root_attempts = 0, hs_comparisons = [], hs_observed_advance_attempts = 0,
     hs_same_progress_attempts = 0, hs_regressed_progress_attempts = 0,
     hs_unknown_progress_attempts = 0, hs_no_observed_advance_attempts = 0,
     hs_matching_with_observed_training_progress = 0,
     hs_matching_before_observed_training_progress = 0,
     hs_matching_with_unknown_training_progress = 0, hs_exact_failure_position_attempts = 0,
     hs_same_rank_iteration_attempts = 0, hs_same_entity_attempts = 0,
     hs_different_entity_attempts = 0, hs_unknown_entity_attempts = 0,
     hs_consecutive_same_root_no_advance = 0, hs_consecutive_same_root_and_entity_no_advance = 0,
     hs_advanced_beyond_all_comparable = False,
     hs_advanced_beyond_all_same_entity_comparable = False, hs_cross_node_recurrence = False,
     hs_same_node_recurrence = False, hs_same_gpu_recurrence = False,
     hs_same_rank_only_recurrence = False, hs_rank_to_gpu_mapping_available = False\<rparr>"

fun enriched_for :: "enriched_facts list \<Rightarrow> string \<Rightarrow> failure_facts option" where
  "enriched_for [] selector = None"
| "enriched_for (e # es) selector =
    (if en_route_id e = selector then Some (en_facts e) else enriched_for es selector)"

definition selected_current_facts :: "attempt_record \<Rightarrow> string \<Rightarrow> failure_facts option" where
  "selected_current_facts r selector =
    (if selector = ''deterministic'' then Some (ar_deterministic r)
     else enriched_for (ar_enriched r) selector)"

definition history_summary ::
  "attempt_record \<Rightarrow> failure_facts \<Rightarrow> attempt_record list \<Rightarrow> history_summary" where
  "history_summary cur facts records =
    (let ordered = sort_key ar_cycle_id records;
         matching = filter (\<lambda>r. ff_root_fingerprint (ar_deterministic r) = ff_root_fingerprint facts) ordered;
         comparisons = map (compare_progress cur facts) matching;
         qualifying_pairs = filter (\<lambda>(r, c). qualifying_outcome c) (zip matching comparisons);
         qualifying = map snd qualifying_pairs;
         qualifying_records = map fst qualifying_pairs;
         same_progress = relation_count qualifying SameProgress;
         regressed = relation_count qualifying Regressed;
         comparable = filter (\<lambda>c. pc_relation c \<noteq> UnknownProgress) qualifying;
         same_entity = filter (\<lambda>c. pc_affected_entity_relation c = SameEntity) qualifying;
         same_entity_comparable = filter (\<lambda>c. pc_relation c \<noteq> UnknownProgress) same_entity;
         matches = (\<lambda>field. field facts \<noteq> None \<and>
           list_ex (\<lambda>r. field (ar_deterministic r) = field facts) qualifying_records);
         rank_matches = matches ff_faulting_rank;
         node_matches = matches ff_faulting_node;
         gpu_matches = matches ff_faulting_gpu;
         cross_node = (ff_faulting_node facts \<noteq> None \<and>
           list_ex (\<lambda>r. ff_faulting_node (ar_deterministic r) \<noteq> None
             \<and> ff_faulting_node (ar_deterministic r) \<noteq> ff_faulting_node facts) qualifying_records)
     in \<lparr>hs_available = True, hs_availability_reason = ''ready'',
         hs_same_job_attempts = length ordered, hs_matching_root_attempts = length matching,
         hs_comparisons = comparisons,
         hs_observed_advance_attempts = relation_count qualifying Advanced,
         hs_same_progress_attempts = same_progress, hs_regressed_progress_attempts = regressed,
         hs_unknown_progress_attempts = relation_count qualifying UnknownProgress,
         hs_no_observed_advance_attempts = same_progress + regressed,
         hs_matching_with_observed_training_progress =
           count_if (\<lambda>r. ap_training_progress (ar_progress r) = ''observed'') matching,
         hs_matching_before_observed_training_progress =
           count_if (\<lambda>r. ap_failure_position (ar_progress r) = ''before_observed_training_progress'')
             matching,
         hs_matching_with_unknown_training_progress =
           count_if (\<lambda>r. ap_training_progress (ar_progress r) = ''unknown'') matching,
         hs_exact_failure_position_attempts =
           count_if (\<lambda>c. pc_same_failure_iteration c \<and> no_advance c) qualifying,
         hs_same_rank_iteration_attempts =
           count_if (\<lambda>c. pc_same_failure_iteration c \<and> pc_same_rank c \<and> no_advance c) qualifying,
         hs_same_entity_attempts = length same_entity,
         hs_different_entity_attempts =
           count_if (\<lambda>c. pc_affected_entity_relation c = DifferentEntity) qualifying,
         hs_unknown_entity_attempts =
           count_if (\<lambda>c. pc_affected_entity_relation c = UnknownEntity) qualifying,
         hs_consecutive_same_root_no_advance =
           consecutive_same_root_no_advance cur facts ordered False,
         hs_consecutive_same_root_and_entity_no_advance =
           consecutive_same_root_no_advance cur facts ordered True,
         hs_advanced_beyond_all_comparable =
           (comparable \<noteq> [] \<and> list_all (\<lambda>c. pc_relation c = Advanced) comparable),
         hs_advanced_beyond_all_same_entity_comparable =
           (same_entity_comparable \<noteq> []
             \<and> list_all (\<lambda>c. pc_relation c = Advanced) same_entity_comparable),
         hs_cross_node_recurrence = cross_node, hs_same_node_recurrence = node_matches,
         hs_same_gpu_recurrence = gpu_matches,
         hs_same_rank_only_recurrence = (rank_matches \<and> \<not> node_matches \<and> \<not> gpu_matches),
         hs_rank_to_gpu_mapping_available =
           list_ex (\<lambda>r. ff_rank_to_gpu_map (ar_deterministic r) \<noteq> []) qualifying_records\<rparr>)"

definition evaluate_history :: "history_input \<Rightarrow> history_summary" where
  "evaluate_history i =
    (let prior = hi_prior_attempts i;
         current_facts = selected_current_facts (hi_current_record i) (hi_fact_selector i)
     in if \<not> pv_available prior then history_unavailable (pv_availability_reason prior) 0
        else case current_facts of
          None \<Rightarrow> history_unavailable ''missing_root_fingerprint'' (length (pv_records prior))
        | Some facts \<Rightarrow>
            if \<not> truthy (ff_root_fingerprint facts)
            then history_unavailable ''missing_root_fingerprint'' (length (pv_records prior))
            else history_summary (hi_current_record i) facts (pv_records prior))"

section \<open>What the counters mean\<close>

text \<open>
  An earlier record continues the streak if it failed with the same root, its failure was
  terminal or unresolved, and the current attempt is no further than it was.
\<close>

definition streak_member :: "attempt_record \<Rightarrow> failure_facts \<Rightarrow> bool \<Rightarrow> attempt_record \<Rightarrow> bool" where
  "streak_member cur facts entity p \<longleftrightarrow>
     ff_root_fingerprint (ar_deterministic p) = ff_root_fingerprint facts
   \<and> (entity \<longrightarrow> pc_affected_entity_relation (compare_progress cur facts p) = SameEntity)
   \<and> qualifying_outcome (compare_progress cur facts p)
   \<and> no_advance (compare_progress cur facts p)"

lemma consecutive_from_takeWhile:
  "consecutive_from cur facts entity n ps = n + length (takeWhile (streak_member cur facts entity) ps)"
  by (induction ps arbitrary: n) (auto simp: Let_def streak_member_def)

lemma consecutive_takeWhile:
  "consecutive_same_root_no_advance cur facts rs entity =
    length (takeWhile (streak_member cur facts entity) (rev rs))"
  by (simp add: consecutive_same_root_no_advance_def consecutive_from_takeWhile)

lemma takeWhile_mono_length:
  "(\<And>x. P x \<Longrightarrow> Q x) \<Longrightarrow> length (takeWhile P xs) \<le> length (takeWhile Q xs)"
  by (induction xs) auto

lemma takeWhile_le_filter: "length (takeWhile P xs) \<le> length (filter P xs)"
  by (induction xs) auto

lemma takeWhile_all: "list_all P xs \<Longrightarrow> takeWhile P xs = xs"
  by (induction xs) auto

lemma zip_map_filter: "filter (\<lambda>(r, c). P c) (zip xs (map f xs)) = map (\<lambda>x. (x, f x)) (filter (P \<circ> f) xs)"
  by (induction xs) auto

lemma history_summary_consecutive [simp]:
  "hs_consecutive_same_root_no_advance (history_summary cur facts rs) =
     length (takeWhile (streak_member cur facts False) (rev (sort_key ar_cycle_id rs)))"
  "hs_consecutive_same_root_and_entity_no_advance (history_summary cur facts rs) =
     length (takeWhile (streak_member cur facts True) (rev (sort_key ar_cycle_id rs)))"
  "hs_available (history_summary cur facts rs)"
  by (simp_all add: history_summary_def Let_def consecutive_takeWhile)

lemma history_summary_advance:
  "hs_advanced_beyond_all_comparable (history_summary cur facts rs) \<longleftrightarrow>
    (let qs = filter (\<lambda>r. ff_root_fingerprint (ar_deterministic r) = ff_root_fingerprint facts
                \<and> qualifying_outcome (compare_progress cur facts r)
                \<and> pc_relation (compare_progress cur facts r) \<noteq> UnknownProgress) rs
     in qs \<noteq> [] \<and> (\<forall>r \<in> set qs. pc_relation (compare_progress cur facts r) = Advanced))"
  unfolding history_summary_def Let_def zip_map_filter
  by (auto simp: filter_empty_conv list_all_iff)

lemma streak_blocks_advance:
  assumes "0 < hs_consecutive_same_root_no_advance (history_summary cur facts rs)"
  shows "\<not> hs_advanced_beyond_all_comparable (history_summary cur facts rs)"
proof -
  obtain x where "x \<in> set (takeWhile (streak_member cur facts False) (rev (sort_key ar_cycle_id rs)))"
    using assms by (metis history_summary_consecutive(1) length_greater_0_conv list.set_intros(1) neq_Nil_conv)
  then have "x \<in> set rs \<and> streak_member cur facts False x"
    by (auto dest!: set_takeWhileD)
  then show ?thesis
    by (auto simp: history_summary_advance Let_def streak_member_def no_advance_def)
qed

end
