(* ===== verification/AttemptStore.thy ===== *)
theory AttemptStore
  imports RestartModels
begin

text \<open>
  The bounded attempt-record store of the restart agent
  (\<open>attribution/restart_agent/attempt_records.py\<close>): \<open>InMemoryAttemptRecordStore\<close>,
  \<open>NullAttemptRecordStore\<close> and the test seam \<open>AttemptRecordControl\<close>. The two dictionaries
  of the source are ordered dictionaries; the lock makes every method one step. The loop that
  evicts the oldest record runs as long as there are too many records, so it is a partial
  function, and that it ends is a theorem about the states the operations reach.
\<close>

section \<open>State and operations\<close>

type_synonym attempt_key = "string \<times> int"

record attempt_store =
  as_max_per_job :: int
  as_max_total :: int
  as_records :: "(attempt_key, attempt_record) dict"
  as_sequence :: "(attempt_key, int) dict"
  as_next_sequence :: int
  as_eviction_count :: int

definition record_key :: "attempt_record \<Rightarrow> attempt_key" where
  "record_key r = (ar_job_id r, ar_cycle_id r)"

definition positive_int :: "py_value \<Rightarrow> string \<Rightarrow> py_error + int" where
  "positive_int v name =
    (case v of
       PyInt n \<Rightarrow> if n < 1 then Inl (PyValueError (name @ '' must be greater than zero'')) else Inr n
     | _ \<Rightarrow> Inl (PyTypeError (name @ '' must be an integer'')))"

definition attempt_store_new :: "py_value \<Rightarrow> py_value \<Rightarrow> py_error + attempt_store" where
  "attempt_store_new per_job in_total =
    res_bind (positive_int per_job ''max_attempts_per_job'') (\<lambda>p.
    res_bind (positive_int in_total ''max_total_records'') (\<lambda>t.
      Inr \<lparr>as_max_per_job = p, as_max_total = t, as_records = [], as_sequence = [],
           as_next_sequence = 0, as_eviction_count = 0\<rparr>))"

text \<open>The slice \<open>xs[-n:]\<close> for a positive \<open>n\<close>.\<close>

definition last_n :: "nat \<Rightarrow> 'a list \<Rightarrow> 'a list" where
  "last_n n xs = drop (length xs - n) xs"

definition get_prior_attempts :: "attempt_store \<Rightarrow> string \<Rightarrow> int \<Rightarrow> prior_view" where
  "get_prior_attempts s job before =
    \<lparr>pv_records = last_n (nat (as_max_per_job s))
       (sort_key ar_cycle_id
         (map snd (filter (\<lambda>((j, c), r). j = job \<and> c < before) (as_records s)))),
     pv_available = True, pv_availability_reason = ''ready''\<rparr>"

fun missing_outcome :: "enriched_facts list \<Rightarrow> py_error + unit" where
  "missing_outcome [] = Inr ()"
| "missing_outcome (e # es) =
    (if \<not> truthy (ff_fault_outcome (en_facts e))
     then Inl (PyValueError (''AttemptRecord enriched['' @ en_route_id e @ ''] fault_outcome is required''))
     else missing_outcome es)"

definition validate_storable_record :: "attempt_record \<Rightarrow> py_error + unit" where
  "validate_storable_record r =
    (if ar_job_id r = [] then Inl (PyValueError ''AttemptRecord job_id is required'')
     else if \<not> truthy (ff_root_fingerprint (ar_deterministic r))
       then Inl (PyValueError ''AttemptRecord deterministic root_fingerprint is required'')
     else if \<not> truthy (ff_root_fingerprint_source (ar_deterministic r))
       then Inl (PyValueError ''AttemptRecord deterministic root_fingerprint_source is required'')
     else if \<not> truthy (ff_fault_outcome (ar_deterministic r))
       then Inl (PyValueError ''AttemptRecord deterministic fault_outcome is required'')
     else missing_outcome (ar_enriched r))"

definition remove_locked :: "attempt_key \<Rightarrow> attempt_store \<Rightarrow> attempt_store" where
  "remove_locked key s =
    (if key \<in> fst ` set (as_records s)
     then s\<lparr>as_records := AList.delete key (as_records s),
            as_sequence := AList.delete key (as_sequence s),
            as_eviction_count := as_eviction_count s + 1\<rparr>
     else s)"

text \<open>\<open>while len(job_keys) > max: remove(job_keys.pop(0))\<close>\<close>

fun evict_keys :: "attempt_key list \<Rightarrow> attempt_store \<Rightarrow> attempt_store" where
  "evict_keys [] s = s"
| "evict_keys (k # ks) s =
    (if int (length (k # ks)) > as_max_per_job s then evict_keys ks (remove_locked k s) else s)"

definition evict_per_job :: "string \<Rightarrow> attempt_store \<Rightarrow> attempt_store" where
  "evict_per_job job s =
    evict_keys (sort_key snd (filter (\<lambda>k. fst k = job) (map fst (as_records s)))) s"

text \<open>
  \<open>min(d, key=d.__getitem__)\<close>: the first key with the least value; it raises on an empty
  dictionary.
\<close>

definition oldest_key :: "(attempt_key, int) dict \<Rightarrow> py_error + attempt_key" where
  "oldest_key d =
    (if d = [] then Inl (PyValueError ''min() arg is an empty sequence'')
     else Inr (fst (arg_min_list snd d)))"

partial_function (option) evict_total :: "attempt_store \<Rightarrow> (py_error + attempt_store) option" where
  "evict_total s =
    (if int (length (as_records s)) > as_max_total s
     then (case oldest_key (as_sequence s) of
             Inl e \<Rightarrow> Some (Inl e)
           | Inr k \<Rightarrow> evict_total (remove_locked k s))
     else Some (Inr s))"

definition insert_record :: "attempt_record \<Rightarrow> attempt_store \<Rightarrow> attempt_store" where
  "insert_record r s =
    (let key = record_key r;
         s1 = (if key \<in> fst ` set (as_records s) then s
               else s\<lparr>as_sequence := AList.update key (as_next_sequence s) (as_sequence s),
                      as_next_sequence := as_next_sequence s + 1\<rparr>)
     in s1\<lparr>as_records := AList.update key r (as_records s1)\<rparr>)"

definition upsert_locked :: "attempt_record \<Rightarrow> attempt_store \<Rightarrow> (py_error + attempt_store) option" where
  "upsert_locked r s = evict_total (evict_per_job (ar_job_id r) (insert_record r s))"

text \<open>The result is None if the method does not return.\<close>

definition upsert_attempt :: "attempt_record \<Rightarrow> attempt_store \<Rightarrow> (py_error + attempt_store) option" where
  "upsert_attempt r s =
    (case validate_storable_record r of Inl e \<Rightarrow> Some (Inl e) | Inr _ \<Rightarrow> upsert_locked r s)"

definition store_records :: "attempt_store \<Rightarrow> string option \<Rightarrow> attempt_record list" where
  "store_records s job =
    sort_key record_key
      (map snd (filter (\<lambda>((j, c), r). job = None \<or> job = Some j) (as_records s)))"

text \<open>\<open>for record in records: put(record)\<close>, which stops at an exception.\<close>

fun put_all ::
  "(attempt_record \<Rightarrow> 's \<Rightarrow> (py_error + 's) option) \<Rightarrow> attempt_record list \<Rightarrow> 's
    \<Rightarrow> (py_error + 's) option" where
  "put_all put [] s = Some (Inr s)"
| "put_all put (r # rs) s =
    (case put r s of
       None \<Rightarrow> None
     | Some (Inl e) \<Rightarrow> Some (Inl e)
     | Some (Inr s') \<Rightarrow> put_all put rs s')"

text \<open>
  \<open>normalize_attempt_records\<close> on records that are already typed: no two with the same key, in
  key order. The message of the source also shows the key that occurs twice.
\<close>

definition normalize_records :: "attempt_record list \<Rightarrow> py_error + attempt_record list" where
  "normalize_records rs =
    (if distinct (map record_key rs) then Inr (sort_key record_key rs)
     else Inl (PyValueError ''attempt records contain duplicate job_id/cycle_id record''))"

definition replace_records ::
  "attempt_record list \<Rightarrow> attempt_store \<Rightarrow> (py_error + attempt_store) option" where
  "replace_records rs s =
    (case res_bind (normalize_records rs) (\<lambda>ns. res_bind (res_map validate_storable_record ns)
        (\<lambda>_. Inr ns)) of
       Inl e \<Rightarrow> Some (Inl e)
     | Inr ns \<Rightarrow>
         put_all upsert_locked ns (s\<lparr>as_records := [], as_sequence := [], as_next_sequence := 0\<rparr>))"

definition clear_records :: "string option \<Rightarrow> attempt_store \<Rightarrow> attempt_store" where
  "clear_records job s =
    (case job of
       None \<Rightarrow> s\<lparr>as_records := [], as_sequence := []\<rparr>
     | Some j \<Rightarrow> fold remove_locked (filter (\<lambda>k. fst k = j) (map fst (as_records s))) s)"

record store_metrics =
  sm_enabled :: bool
  sm_record_count :: nat
  sm_job_count :: nat
  sm_enriched_entry_count :: nat
  sm_eviction_count :: int
  sm_max_attempts_per_job :: int
  sm_max_total_records :: int

definition metrics :: "attempt_store \<Rightarrow> store_metrics" where
  "metrics s =
    \<lparr>sm_enabled = True, sm_record_count = length (as_records s),
     sm_job_count = card (set (map (fst \<circ> fst) (as_records s))),
     sm_enriched_entry_count = sum_list (map (length \<circ> ar_enriched \<circ> snd) (as_records s)),
     sm_eviction_count = as_eviction_count s, sm_max_attempts_per_job = as_max_per_job s,
     sm_max_total_records = as_max_total s\<rparr>"

section \<open>The disabled store and the test seam\<close>

definition null_get_prior_attempts :: "unit \<Rightarrow> string \<Rightarrow> int \<Rightarrow> prior_view" where
  "null_get_prior_attempts s job before =
    \<lparr>pv_records = [], pv_available = False, pv_availability_reason = ''history_disabled''\<rparr>"

definition null_upsert_attempt :: "attempt_record \<Rightarrow> unit \<Rightarrow> (py_error + unit) option" where
  "null_upsert_attempt r s = Some (Inr ())"

definition null_replace :: "attempt_record list \<Rightarrow> unit \<Rightarrow> (py_error + unit) option" where
  "null_replace rs s = Some (Inl (PyValueError ''history_disabled''))"

text \<open>\<open>AttemptRecordControl.seed\<close> over the operations of a store.\<close>

definition control_seed ::
  "bool \<Rightarrow> (attempt_record list \<Rightarrow> 's \<Rightarrow> (py_error + 's) option)
    \<Rightarrow> (attempt_record \<Rightarrow> 's \<Rightarrow> (py_error + 's) option)
    \<Rightarrow> attempt_record list \<Rightarrow> string \<Rightarrow> 's \<Rightarrow> (py_error + 's) option" where
  "control_seed enabled replace_op upsert_op rs mode s =
    (if \<not> enabled then Some (Inl (PyValueError ''history_disabled''))
     else case normalize_records rs of
       Inl e \<Rightarrow> Some (Inl e)
     | Inr ns \<Rightarrow>
         if mode = ''replace'' then replace_op ns s
         else if mode = ''merge'' then put_all upsert_op ns s
         else Some (Inl (PyValueError
           (''attempt-record seed mode must be 'replace' or 'merge'' @ [CHR 0x27]))))"

section \<open>The invariant\<close>

definition job_count :: "attempt_store \<Rightarrow> string \<Rightarrow> nat" where
  "job_count s job = length (filter (\<lambda>k. fst k = job) (map fst (as_records s)))"

definition keyed :: "attempt_store \<Rightarrow> bool" where
  "keyed s \<longleftrightarrow>
     0 < as_max_per_job s \<and> 0 < as_max_total s
   \<and> dict_ok (as_records s) \<and> dict_ok (as_sequence s)
   \<and> fst ` set (as_sequence s) = fst ` set (as_records s)
   \<and> (\<forall>(k, r) \<in> set (as_records s). k = record_key r)
   \<and> (\<forall>(k, n) \<in> set (as_sequence s). n < as_next_sequence s)"

definition store_ok :: "attempt_store \<Rightarrow> bool" where
  "store_ok s \<longleftrightarrow> keyed s \<and> int (length (as_records s)) \<le> as_max_total s
     \<and> (\<forall>j. int (job_count s j) \<le> as_max_per_job s)"

definition stored_keys :: "attempt_store \<Rightarrow> attempt_key set" where
  "stored_keys s = fst ` set (as_records s)"

lemma keyedD:
  assumes "keyed s"
  shows "dict_ok (as_records s)" and "dict_ok (as_sequence s)"
    and "fst ` set (as_sequence s) = stored_keys s" and "0 < as_max_per_job s" and "0 < as_max_total s"
    and "\<And>k r. (k, r) \<in> set (as_records s) \<Longrightarrow> k = record_key r"
    and "\<And>k n. (k, n) \<in> set (as_sequence s) \<Longrightarrow> n < as_next_sequence s"
  using assms by (auto simp: keyed_def stored_keys_def)

lemma finite_stored_keys [simp]: "finite (stored_keys s)"
  by (simp add: stored_keys_def)

lemma set_delete: "set (AList.delete k d) = {p \<in> set d. fst p \<noteq> k}"
  by (auto simp: AList.delete_eq)

lemma keys_delete: "fst ` set (AList.delete k d) = fst ` set d - {k}"
  by (auto simp: AList.delete_eq image_iff)

lemma remove_locked_simps [simp]:
  "as_max_per_job (remove_locked k s) = as_max_per_job s"
  "as_max_total (remove_locked k s) = as_max_total s"
  "as_next_sequence (remove_locked k s) = as_next_sequence s"
  by (simp_all add: remove_locked_def)

lemma stored_keys_remove [simp]: "stored_keys (remove_locked k s) = stored_keys s - {k}"
  by (auto simp: remove_locked_def stored_keys_def keys_delete)

lemma keyed_remove [intro]:
  assumes "keyed s"
  shows "keyed (remove_locked k s)"
proof (cases "k \<in> fst ` set (as_records s)")
  case True
  have "fst ` set (AList.delete k (as_sequence s)) = fst ` set (AList.delete k (as_records s))"
    using assms by (simp only: keys_delete keyed_def)
  then show ?thesis using assms True by (simp add: keyed_def remove_locked_def set_delete)
qed (use assms in \<open>simp add: remove_locked_def\<close>)

lemma records_remove: "as_records (remove_locked k s) = filter (\<lambda>p. fst p \<noteq> k) (as_records s)"
proof -
  have "k \<notin> fst ` set (as_records s) \<Longrightarrow> filter (\<lambda>p. fst p \<noteq> k) (as_records s) = as_records s"
    by (rule filter_True) force
  then show ?thesis
    by (simp add: remove_locked_def AList.delete_eq case_prod_unfold eq_commute)
qed

lemma keyed_insert [intro]:
  assumes "keyed s"
  shows "keyed (insert_record r s)"
proof -
  have "\<forall>(k, x) \<in> set (AList.update (record_key r) r (as_records s)). k = record_key x"
    using assms set_update_subset [of "record_key r" r "as_records s"] by (auto simp: keyed_def)
  moreover have "\<forall>(k, n) \<in> set (AList.update (record_key r) (as_next_sequence s) (as_sequence s)).
      n < as_next_sequence s + 1"
    using assms set_update_subset [of "record_key r" "as_next_sequence s" "as_sequence s"]
    by (force simp: keyed_def)
  moreover have "record_key r \<in> fst ` set (as_records s) \<Longrightarrow>
      insert (record_key r) (fst ` set (as_records s)) = fst ` set (as_records s)"
    by blast
  ultimately show ?thesis
    using assms by (simp add: keyed_def insert_record_def Let_def keys_update)
qed

lemma insert_record_simps [simp]:
  "as_max_per_job (insert_record r s) = as_max_per_job s"
  "as_max_total (insert_record r s) = as_max_total s"
  "stored_keys (insert_record r s) = insert (record_key r) (stored_keys s)"
  by (auto simp: insert_record_def Let_def stored_keys_def keys_update)

lemma evict_keys_fold:
  "evict_keys ks s = fold remove_locked (take (length ks - nat (as_max_per_job s)) ks) s"
proof (induction ks s rule: evict_keys.induct)
  case (2 k ks s)
  then show ?case
    by (cases "int (length (k # ks)) > as_max_per_job s")
       (auto simp: Suc_diff_le nat_le_iff)
qed simp

lemma fold_remove_simps [simp]:
  "as_max_per_job (fold remove_locked ks s) = as_max_per_job s"
  "as_max_total (fold remove_locked ks s) = as_max_total s"
  "as_next_sequence (fold remove_locked ks s) = as_next_sequence s"
  "stored_keys (fold remove_locked ks s) = stored_keys s - set ks"
  by (induction ks arbitrary: s) auto

lemma keyed_fold_remove [intro]: "keyed s \<Longrightarrow> keyed (fold remove_locked ks s)"
  by (induction ks arbitrary: s) auto

lemma job_count_card: "keyed s \<Longrightarrow> job_count s j = card {k \<in> stored_keys s. fst k = j}"
proof -
  assume "keyed s"
  then have "distinct (filter (\<lambda>k. fst k = j) (map fst (as_records s)))"
    by (simp add: keyed_def dict_ok_def)
  then have "job_count s j = card (set (filter (\<lambda>k. fst k = j) (map fst (as_records s))))"
    by (simp only: job_count_def distinct_card)
  then show ?thesis by (simp add: stored_keys_def image_image)
qed

lemma record_count_card: "keyed s \<Longrightarrow> length (as_records s) = card (stored_keys s)"
  unfolding keyed_def stored_keys_def dict_ok_def by (metis distinct_card length_map set_map)

section \<open>Eviction\<close>

lemma keyed_evict_per_job [intro]: "keyed s \<Longrightarrow> keyed (evict_per_job j s)"
  by (auto simp: evict_per_job_def evict_keys_fold)

lemma evict_per_job_simps [simp]:
  "as_max_per_job (evict_per_job j s) = as_max_per_job s"
  "as_max_total (evict_per_job j s) = as_max_total s"
  by (simp_all add: evict_per_job_def evict_keys_fold)

lemma evict_per_job_keys: "stored_keys (evict_per_job j s) \<subseteq> stored_keys s"
  by (auto simp: evict_per_job_def evict_keys_fold)

lemma set_take_Un_drop:
  assumes "distinct xs"
  shows "set xs = set (take n xs) \<union> set (drop n xs) \<and> set (take n xs) \<inter> set (drop n xs) = {}"
  using assms by (metis append_take_drop_id distinct_append set_append)

lemma evict_per_job_count:
  assumes "keyed s"
  shows "int (job_count (evict_per_job j s) j) \<le> as_max_per_job s"
proof -
  let ?ks = "sort_key snd (filter (\<lambda>k. fst k = j) (map fst (as_records s)))"
  let ?n = "length ?ks - nat (as_max_per_job s)"
  have d: "distinct ?ks" using assms by (simp add: keyed_def dict_ok_def)
  have s: "set ?ks = {k \<in> stored_keys s. fst k = j}" by (auto simp: stored_keys_def)
  have "{k \<in> stored_keys (evict_per_job j s). fst k = j} = set ?ks - set (take ?n ?ks)"
    using s by (auto simp: evict_per_job_def evict_keys_fold)
  also have "\<dots> = set (drop ?n ?ks)"
    using set_take_Un_drop [OF d] by blast
  finally have "job_count (evict_per_job j s) j = card (set (drop ?n ?ks))"
    using assms by (simp add: job_count_card keyed_evict_per_job)
  also have "\<dots> \<le> length (drop ?n ?ks)" by (rule card_length)
  also have "\<dots> \<le> nat (as_max_per_job s)" by simp
  finally show ?thesis using keyedD(4) [OF assms] by (simp add: le_nat_iff)
qed

lemma oldest_key_Inr:
  assumes "d \<noteq> []"
  shows "\<exists>k n. oldest_key d = Inr k \<and> (k, n) \<in> set d \<and> (\<forall>(k', n') \<in> set d. n \<le> n')"
proof -
  let ?p = "arg_min_list snd d"
  have "?p \<in> set d" using assms by (rule arg_min_list_in)
  moreover have "\<forall>p \<in> set d. snd ?p \<le> snd p"
    using f_arg_min_list_f [OF assms, of snd] by auto
  ultimately show ?thesis
    using assms by (intro exI [of _ "fst ?p"] exI [of _ "snd ?p"]) (auto simp: oldest_key_def)
qed

lemma evict_total_spec:
  assumes "keyed s"
  shows "\<exists>ks. evict_total s = Some (Inr (fold remove_locked ks s))
    \<and> set ks \<subseteq> stored_keys s
    \<and> int (length (as_records (fold remove_locked ks s))) \<le> as_max_total s"
  using assms
proof (induction "card (stored_keys s)" arbitrary: s rule: less_induct)
  case less
  show ?case
  proof (cases "int (length (as_records s)) > as_max_total s")
    case True
    then have "as_sequence s \<noteq> []"
      using less.prems keyedD(3,5) [OF less.prems] by (auto simp: stored_keys_def)
    then obtain k n where k: "oldest_key (as_sequence s) = Inr k" "(k, n) \<in> set (as_sequence s)"
      using oldest_key_Inr by blast
    then have kin: "k \<in> stored_keys s" using keyedD(3) [OF less.prems] by force
    have "card (stored_keys (remove_locked k s)) < card (stored_keys s)"
      using card_Diff1_less [OF _ kin] by simp
    from less.hyps [OF this] less.prems obtain ks where ks:
      "evict_total (remove_locked k s) = Some (Inr (fold remove_locked ks (remove_locked k s)))"
      "set ks \<subseteq> stored_keys (remove_locked k s)"
      "int (length (as_records (fold remove_locked ks (remove_locked k s)))) \<le> as_max_total s"
      by auto
    then show ?thesis
      using True k kin by (intro exI [of _ "k # ks"]) (auto simp: evict_total.simps [of s])
  next
    case False
    then show ?thesis by (intro exI [of _ "[]"]) (simp add: evict_total.simps [of s])
  qed
qed

lemma job_count_mono:
  assumes "keyed s" and "keyed t" and "stored_keys t \<subseteq> stored_keys s"
  shows "job_count t j \<le> job_count s j"
  using assms by (auto simp: job_count_card intro!: card_mono)

lemma upsert_locked_ok:
  assumes "store_ok s"
  shows "\<exists>s'. upsert_locked r s = Some (Inr s') \<and> store_ok s'
    \<and> as_max_per_job s' = as_max_per_job s \<and> as_max_total s' = as_max_total s"
proof -
  let ?t = "evict_per_job (ar_job_id r) (insert_record r s)"
  have k: "keyed s" and kt: "keyed ?t" using assms by (auto simp: store_ok_def)
  from evict_total_spec [OF kt] obtain ks where ks:
    "evict_total ?t = Some (Inr (fold remove_locked ks ?t))"
    "int (length (as_records (fold remove_locked ks ?t))) \<le> as_max_total s" by auto
  have "int (job_count (fold remove_locked ks ?t) j) \<le> as_max_per_job s" for j
  proof -
    have "job_count (fold remove_locked ks ?t) j \<le> job_count ?t j"
      using kt by (intro job_count_mono) auto
    also have "int (job_count ?t j) \<le> as_max_per_job s"
    proof (cases "j = ar_job_id r")
      case True
      then show ?thesis using evict_per_job_count [of "insert_record r s"] k by auto
    next
      case False
      have "{k \<in> stored_keys ?t. fst k = j} \<subseteq> {k \<in> stored_keys s. fst k = j}"
        using False evict_per_job_keys [of "ar_job_id r" "insert_record r s"]
        by (auto simp: record_key_def)
      then have "job_count ?t j \<le> job_count s j"
        using k kt by (auto simp: job_count_card intro!: card_mono)
      then show ?thesis using assms by (meson of_nat_mono order_trans store_ok_def)
    qed
    finally show ?thesis by simp
  qed
  then show ?thesis using ks kt by (auto simp: upsert_locked_def store_ok_def)
qed

section \<open>What an operation does to the attempts of a job\<close>

definition job_records :: "attempt_store \<Rightarrow> string \<Rightarrow> attempt_record list" where
  "job_records s j = sort_key ar_cycle_id (map snd (filter (\<lambda>p. fst (fst p) = j) (as_records s)))"

lemma length_last_n [simp]: "length (last_n n xs) = min n (length xs)"
  by (simp add: last_n_def min_def)

lemma last_n_0 [simp]: "last_n 0 xs = []"
  by (simp add: last_n_def)

lemma last_n_all [simp]: "length xs \<le> n \<Longrightarrow> last_n n xs = xs"
  by (simp add: last_n_def)

lemma last_n_rev: "last_n n xs = rev (take n (rev xs))"
  by (simp add: last_n_def take_rev)

lemma last_n_append: "last_n n (last_n n xs @ ys) = last_n n (xs @ ys)"
  by (simp add: last_n_rev min_def)

lemma last_n_idem [simp]: "last_n n (last_n n xs) = last_n n xs"
  by (simp add: last_n_def)

lemma set_last_n: "set (last_n n xs) \<subseteq> set xs"
  by (simp add: last_n_def set_drop_subset)

lemma insort_key_append_greatest:
  "f y < f x \<Longrightarrow> insort_key f y (zs @ [x]) = insort_key f y zs @ [x]"
  by (induction zs) auto

lemma sort_key_append_greatest:
  "(\<And>y. y \<in> set xs \<Longrightarrow> f y < f x) \<Longrightarrow> sort_key f (xs @ [x]) = sort_key f xs @ [x]"
  by (induction xs) (auto simp: insort_key_append_greatest)

lemma sort_key_map: "sort_key f (map g xs) = map g (sort_key (f \<circ> g) xs)"
proof -
  have ins: "insort_key f (g x) (map g ys) = map g (insort_key (f \<circ> g) x ys)" for x ys
    by (induction ys) auto
  show ?thesis by (induction xs) (simp_all add: ins del: comp_apply)
qed

lemma key_eq: "keyed s \<Longrightarrow> p \<in> set (as_records s) \<Longrightarrow> fst p = record_key (snd p)"
  using keyedD(6) [of s "fst p" "snd p"] by simp

lemma key_cycle: "keyed s \<Longrightarrow> ((i, c), r) \<in> set (as_records s) \<Longrightarrow> c = ar_cycle_id r"
  using key_eq [of s "((i, c), r)"] by (simp add: record_key_def)

lemma job_records_remove: "keyed s \<Longrightarrow>
  job_records (remove_locked k s) j = filter (\<lambda>r. record_key r \<noteq> k) (job_records s j)"
proof -
  assume "keyed s"
  then have "filter (\<lambda>r. record_key r \<noteq> k) (map snd (filter (\<lambda>p. fst (fst p) = j) (as_records s)))
    = map snd (filter (\<lambda>p. fst (fst p) = j) (filter (\<lambda>p. fst p \<noteq> k) (as_records s)))"
    by (auto simp: filter_map intro!: arg_cong [where f = "map snd"] filter_cong dest: keyedD(6))
  then show ?thesis
    by (simp add: job_records_def records_remove filter_sort)
qed

lemma job_records_fold_remove: "keyed s \<Longrightarrow>
  job_records (fold remove_locked ks s) j = filter (\<lambda>r. record_key r \<notin> set ks) (job_records s j)"
  by (induction ks arbitrary: s) (auto simp: job_records_remove keyed_remove intro!: filter_cong)

lemma job_keys_sorted:
  assumes "keyed s"
  shows "sort_key snd (filter (\<lambda>k. fst k = j) (map fst (as_records s))) = map record_key (job_records s j)"
proof -
  have "filter (\<lambda>k. fst k = j) (map fst (as_records s))
      = map record_key (map snd (filter (\<lambda>p. fst (fst p) = j) (as_records s)))"
    using assms by (auto simp: filter_map comp_def key_eq)
  moreover have "snd \<circ> record_key = ar_cycle_id" by (auto simp: record_key_def)
  ultimately show ?thesis by (simp only: sort_key_map job_records_def)
qed

lemma distinct_job_keys: "keyed s \<Longrightarrow> distinct (map record_key (job_records s j))"
  by (subst job_keys_sorted [symmetric]) (auto simp: keyed_def dict_ok_def)

lemma filter_not_in_take:
  "distinct (map f xs) \<Longrightarrow> filter (\<lambda>x. f x \<notin> set (take n (map f xs))) xs = drop n xs"
proof (induction xs arbitrary: n)
  case (Cons a xs)
  show ?case
  proof (cases n)
    case (Suc m)
    have "filter (\<lambda>x. f x \<noteq> f a \<and> f x \<notin> set (take m (map f xs))) xs
        = filter (\<lambda>x. f x \<notin> set (take m (map f xs))) xs"
      using Cons.prems by (intro filter_cong) (auto simp: image_iff dest: sym)
    then show ?thesis using Cons Suc by simp
  qed simp
qed simp

lemma job_records_evict:
  assumes "keyed s"
  shows "job_records (evict_per_job j s) j = last_n (nat (as_max_per_job s)) (job_records s j)"
  using assms distinct_job_keys [OF assms, of j]
  by (simp add: evict_per_job_def evict_keys_fold job_keys_sorted job_records_fold_remove
      filter_not_in_take last_n_def)

lemma job_records_job: "keyed s \<Longrightarrow> r \<in> set (job_records s j) \<Longrightarrow> ar_job_id r = j"
  by (auto simp: job_records_def dest!: keyedD(6) simp: record_key_def)

lemma job_records_evict_other:
  assumes "keyed s" and "i \<noteq> j"
  shows "job_records (evict_per_job j s) i = job_records s i"
proof -
  have "record_key r \<notin> set (take n (map record_key (job_records s j)))"
    if "r \<in> set (job_records s i)" for r n
    using that assms job_records_job [OF assms(1)] in_set_takeD
    by (fastforce simp: record_key_def)
  then show ?thesis
    using assms by (simp add: evict_per_job_def evict_keys_fold job_keys_sorted
        job_records_fold_remove)
qed

lemma record_in_job_records:
  "keyed s \<Longrightarrow> k \<in> stored_keys s \<longleftrightarrow> (\<exists>r \<in> set (job_records s (fst k)). record_key r = k)"
  by (force simp: stored_keys_def job_records_def dest: keyedD(6))

lemma records_insert_new:
  "record_key r \<notin> stored_keys s \<Longrightarrow> as_records (insert_record r s) = as_records s @ [(record_key r, r)]"
  by (simp add: insert_record_def Let_def stored_keys_def update_new)

lemma job_records_insert:
  assumes "keyed s" and "\<And>x. x \<in> set (job_records s (ar_job_id r)) \<Longrightarrow> ar_cycle_id x < ar_cycle_id r"
  shows "record_key r \<notin> stored_keys s"
    and "job_records (insert_record r s) j =
      (if j = ar_job_id r then job_records s j @ [r] else job_records s j)"
proof -
  show new: "record_key r \<notin> stored_keys s"
    using assms by (force simp: record_in_job_records record_key_def)
  show "job_records (insert_record r s) j =
      (if j = ar_job_id r then job_records s j @ [r] else job_records s j)"
    using assms(2) by (auto simp: records_insert_new [OF new] job_records_def record_key_def
        intro!: sort_key_append_greatest)
qed

lemma upsert_newest:
  assumes "store_ok s" and "int (length (as_records s)) < as_max_total s"
    and "validate_storable_record r = Inr ()"
    and "\<And>x. x \<in> set (job_records s (ar_job_id r)) \<Longrightarrow> ar_cycle_id x < ar_cycle_id r"
  shows "\<exists>s'. upsert_attempt r s = Some (Inr s') \<and> store_ok s'
    \<and> as_max_per_job s' = as_max_per_job s \<and> as_max_total s' = as_max_total s
    \<and> length (as_records s') \<le> Suc (length (as_records s))
    \<and> job_records s' (ar_job_id r) =
        last_n (nat (as_max_per_job s)) (job_records s (ar_job_id r) @ [r])
    \<and> (\<forall>j. j \<noteq> ar_job_id r \<longrightarrow> job_records s' j = job_records s j)"
proof -
  let ?i = "insert_record r s" and ?t = "evict_per_job (ar_job_id r) (insert_record r s)"
  have k: "keyed s" and ki: "keyed ?i" and kt: "keyed ?t" using assms(1) by (auto simp: store_ok_def)
  have "card (stored_keys ?t) \<le> card (stored_keys ?i)"
    by (intro card_mono evict_per_job_keys) simp
  also have "\<dots> \<le> Suc (card (stored_keys s))" by (simp add: card_insert_if)
  finally have len: "length (as_records ?t) \<le> Suc (length (as_records s))"
    using k kt by (simp add: record_count_card)
  then have "evict_total ?t = Some (Inr ?t)"
    using assms(2) by (subst evict_total.simps) simp
  then have up: "upsert_attempt r s = Some (Inr ?t)"
    using assms(3) by (simp add: upsert_attempt_def upsert_locked_def)
  moreover from upsert_locked_ok [OF assms(1), of r] have "store_ok ?t"
    using up assms(3) by (auto simp: upsert_attempt_def)
  moreover note ins = job_records_insert(2) [OF k assms(4)]
  ultimately show ?thesis
    using len ki by (simp add: job_records_evict job_records_evict_other ins)
qed

lemma prior_is_job_records:
  assumes "keyed s"
  shows "pv_records (get_prior_attempts s j n) =
    last_n (nat (as_max_per_job s)) (filter (\<lambda>r. ar_cycle_id r < n) (job_records s j))"
proof -
  have "filter (\<lambda>((i, c), r). i = j \<and> c < n) (as_records s)
      = filter (\<lambda>p. ar_cycle_id (snd p) < n) (filter (\<lambda>p. fst (fst p) = j) (as_records s))"
    using assms by (auto intro!: filter_cong dest: key_cycle)
  then show ?thesis
    by (simp add: get_prior_attempts_def job_records_def filter_sort filter_map comp_def)
qed

section \<open>The storage contract\<close>

text \<open>
  \<open>AttemptRecordStore\<close> is the protocol the runtime programs against. Its contract: the view of
  earlier attempts is cut from the history of the job to the last \<open>limit\<close> records, and putting
  a newer attempt while there is room appends it to that history. The disabled store meets it
  with a limit of 0.
\<close>

locale attempt_history =
  fixes ok :: "'s \<Rightarrow> bool"
    and room :: "'s \<Rightarrow> int"
    and limit :: "'s \<Rightarrow> nat"
    and hist :: "'s \<Rightarrow> string \<Rightarrow> attempt_record list"
    and prior :: "'s \<Rightarrow> string \<Rightarrow> int \<Rightarrow> prior_view"
    and put :: "attempt_record \<Rightarrow> 's \<Rightarrow> (py_error + 's) option"
    and avail :: bool
  assumes prior_available: "pv_available (prior s j n) = avail"
    and prior_records: "ok s \<Longrightarrow> pv_records (prior s j n) =
      last_n (limit s) (filter (\<lambda>r. ar_cycle_id r < n) (hist s j))"
    and put_newest: "ok s \<Longrightarrow> 0 < room s \<Longrightarrow> validate_storable_record r = Inr () \<Longrightarrow>
      (\<And>x. x \<in> set (hist s (ar_job_id r)) \<Longrightarrow> ar_cycle_id x < ar_cycle_id r) \<Longrightarrow>
      \<exists>s'. put r s = Some (Inr s') \<and> ok s' \<and> limit s' = limit s \<and> room s \<le> room s' + 1
        \<and> hist s' (ar_job_id r) = last_n (limit s) (hist s (ar_job_id r) @ [r])"
begin

lemma put_all_history:
  assumes "ok s" and "int (length rs) \<le> room s"
    and "\<And>r. r \<in> set rs \<Longrightarrow> validate_storable_record r = Inr () \<and> ar_job_id r = j"
    and "sorted_wrt (<) (map ar_cycle_id rs)"
    and "\<And>x r. x \<in> set (hist s j) \<Longrightarrow> r \<in> set rs \<Longrightarrow> ar_cycle_id x < ar_cycle_id r"
    and "length (hist s j) \<le> limit s"
  shows "\<exists>s'. put_all put rs s = Some (Inr s') \<and> ok s' \<and> limit s' = limit s
    \<and> hist s' j = last_n (limit s) (hist s j @ rs)"
  using assms
proof (induction rs arbitrary: s)
  case (Cons r rs)
  have j: "ar_job_id r = j" using Cons.prems(3) by simp
  have "\<And>x. x \<in> set (hist s (ar_job_id r)) \<Longrightarrow> ar_cycle_id x < ar_cycle_id r"
    using Cons.prems(5) j by simp
  then obtain s1 where s1: "put r s = Some (Inr s1)" "ok s1" "limit s1 = limit s"
      "room s \<le> room s1 + 1" "hist s1 j = last_n (limit s) (hist s j @ [r])"
    using put_newest [of s r] Cons.prems(1,2,3) j by auto
  have below: "ar_cycle_id x < ar_cycle_id y" if "x \<in> set (hist s1 j)" "y \<in> set rs" for x y
  proof -
    have "x \<in> set (hist s j) \<or> x = r" using that(1) set_last_n s1(5) by fastforce
    then show ?thesis using that(2) Cons.prems(4,5) by auto
  qed
  have "\<exists>s'. put_all put rs s1 = Some (Inr s') \<and> ok s' \<and> limit s' = limit s1
      \<and> hist s' j = last_n (limit s1) (hist s1 j @ rs)"
    by (rule Cons.IH) (use s1 below Cons.prems in \<open>auto simp: less_le_trans\<close>)
  moreover have "last_n (limit s) (last_n (limit s) (hist s j @ [r]) @ rs)
      = last_n (limit s) (hist s j @ r # rs)"
    by (subst last_n_append) simp
  ultimately show ?case using s1 by auto
qed (simp add: assms)

lemma prior_after_put_all:
  assumes "ok s" and "int (length rs) \<le> room s"
    and "\<And>r. r \<in> set rs \<Longrightarrow> validate_storable_record r = Inr () \<and> ar_job_id r = j"
    and "sorted_wrt (<) (map ar_cycle_id rs)" and "hist s j = []"
    and "\<And>r. r \<in> set rs \<Longrightarrow> ar_cycle_id r < n"
  shows "\<exists>s'. put_all put rs s = Some (Inr s') \<and> ok s'
    \<and> pv_records (prior s' j n) = last_n (limit s) rs"
proof -
  from put_all_history [OF assms(1-4)] assms(5) obtain s' where
    s': "put_all put rs s = Some (Inr s')" "ok s'" "limit s' = limit s" "hist s' j = last_n (limit s) rs"
    by auto
  have "filter (\<lambda>r. ar_cycle_id r < n) (last_n (limit s) rs) = last_n (limit s) rs"
    using assms(6) set_last_n by (intro filter_True) fastforce
  then show ?thesis using s' by (simp add: prior_records)
qed

end

lemma get_prior_available: "pv_available (get_prior_attempts s j n) = True"
  by (simp add: get_prior_attempts_def)

interpretation memory: attempt_history
  store_ok "\<lambda>s. as_max_total s - int (length (as_records s))" "\<lambda>s. nat (as_max_per_job s)"
  job_records get_prior_attempts upsert_attempt True
proof
  show "pv_available (get_prior_attempts s j n) = True" for s j n
    by (rule get_prior_available)
  show "pv_records (get_prior_attempts s j n) =
      last_n (nat (as_max_per_job s)) (filter (\<lambda>r. ar_cycle_id r < n) (job_records s j))"
    if "store_ok s" for s j n
    using that by (intro prior_is_job_records) (simp add: store_ok_def)
  show "\<exists>s'. upsert_attempt r s = Some (Inr s') \<and> store_ok s'
      \<and> nat (as_max_per_job s') = nat (as_max_per_job s)
      \<and> as_max_total s - int (length (as_records s))
          \<le> as_max_total s' - int (length (as_records s')) + 1
      \<and> job_records s' (ar_job_id r) =
          last_n (nat (as_max_per_job s)) (job_records s (ar_job_id r) @ [r])"
    if "store_ok s" "0 < as_max_total s - int (length (as_records s))"
      "validate_storable_record r = Inr ()"
      "\<And>x. x \<in> set (job_records s (ar_job_id r)) \<Longrightarrow> ar_cycle_id x < ar_cycle_id r" for s r
    using upsert_newest [OF that(1) _ that(3,4)] that(2) by auto
qed

interpretation disabled: attempt_history
  "\<lambda>_. True" "\<lambda>_. 1" "\<lambda>_. 0" "\<lambda>_ _. []" null_get_prior_attempts null_upsert_attempt False
  by unfold_locales (auto simp: null_get_prior_attempts_def null_upsert_attempt_def)

section \<open>Correctness of the store\<close>

lemma store_new_ok: "attempt_store_new p t = Inr s \<Longrightarrow> store_ok s"
  by (auto simp: attempt_store_new_def res_bind_eq_Inr positive_int_def store_ok_def keyed_def
      job_count_def split: py_value.splits if_splits)

lemma replace_ok:
  assumes "store_ok s" and "normalize_records rs = Inr ns"
    and "\<And>r. r \<in> set rs \<Longrightarrow> validate_storable_record r = Inr ()"
  shows "\<exists>s'. replace_records rs s = Some (Inr s') \<and> store_ok s'"
proof -
  have up: "\<exists>t'. put_all upsert_locked xs t = Some (Inr t') \<and> store_ok t'" if "store_ok t" for xs t
    using that
  proof (induction xs arbitrary: t)
    case (Cons x xs)
    from upsert_locked_ok [OF Cons.prems, of x] obtain t1
      where "upsert_locked x t = Some (Inr t1)" "store_ok t1" by blast
    then show ?case using Cons.IH [of t1] by simp
  qed simp
  have "store_ok (s\<lparr>as_records := [], as_sequence := [], as_next_sequence := 0\<rparr>)"
    using assms(1) by (simp add: store_ok_def keyed_def job_count_def)
  moreover have "set ns = set rs"
    using assms(2) by (auto simp: normalize_records_def split: if_splits)
  then have "res_map validate_storable_record ns = Inr (map (\<lambda>_. ()) ns)"
    using assms(3) by (intro res_map_total) auto
  ultimately show ?thesis
    using up assms(2) by (simp add: replace_records_def)
qed

lemma clear_ok: "store_ok s \<Longrightarrow> store_ok (clear_records j s)"
proof (cases j)
  case (Some i)
  assume ok: "store_ok s"
  let ?t = "fold remove_locked (filter (\<lambda>k. fst k = i) (map fst (as_records s))) s"
  have k: "keyed s" and kt: "keyed ?t" using ok by (auto simp: store_ok_def)
  have "card (stored_keys ?t) \<le> card (stored_keys s)" by (intro card_mono) auto
  moreover have "job_count ?t l \<le> job_count s l" for l
    using k kt by (intro job_count_mono) auto
  then have "int (job_count ?t l) \<le> as_max_per_job s" for l
    using ok by (meson of_nat_mono order_trans store_ok_def)
  ultimately show ?thesis
    using ok k kt Some
    by (auto simp: clear_records_def store_ok_def record_count_card)
qed (auto simp: clear_records_def store_ok_def keyed_def job_count_def)

section \<open>A concrete job\<close>

definition demo_progress :: "int \<Rightarrow> attempt_progress" where
  "demo_progress n =
    \<lparr>ap_training_progress = ''observed'', ap_first_completed_step = Some 0,
     ap_last_completed_step = Some n, ap_completed_step_delta = Some n, ap_progress_marker_count = 2,
     ap_checkpoint_progress = ''unknown'', ap_checkpoint_load_step = None,
     ap_first_checkpoint_step = None, ap_last_checkpoint_step = None, ap_checkpoint_step_delta = None,
     ap_checkpoint_marker_count = 0, ap_failure_position = ''after_observed_training_progress'',
     ap_progress_after_failure = ''unknown''\<rparr>"

definition demo_facts :: "string \<Rightarrow> failure_facts" where
  "demo_facts fp =
    \<lparr>ff_source = L0Deterministic, ff_root_fingerprint = Some fp,
     ff_root_fingerprint_source = Some ''l0_registry'', ff_fault_outcome = Some ''terminal'',
     ff_primary_line = None, ff_identity_anchor_line = None, ff_identity_anchor_reason = None,
     ff_failure_iteration = Some 7, ff_affected_entity = None, ff_faulting_rank = None,
     ff_faulting_node = None, ff_faulting_gpu = None, ff_rank_to_gpu_map = []\<rparr>"

definition demo_record :: "string \<Rightarrow> int \<Rightarrow> attempt_record" where
  "demo_record job c =
    \<lparr>ar_job_id = job, ar_cycle_id = c, ar_progress = demo_progress 7,
     ar_deterministic = demo_facts ''oom'', ar_enriched = []\<rparr>"

lemma demo_record_simps [simp]:
  "ar_job_id (demo_record j c) = j" "ar_cycle_id (demo_record j c) = c"
  "ar_deterministic (demo_record j c) = demo_facts ''oom''"
  by (simp_all add: demo_record_def)

lemma demo_storable [simp]: "job \<noteq> [] \<Longrightarrow> validate_storable_record (demo_record job c) = Inr ()"
  by (simp add: validate_storable_record_def demo_record_def demo_facts_def)

section \<open>Properties\<close>

text \<open>
  Storing an attempt always returns, although the eviction loop has no bound of its own. A
  record without job, root fingerprint, its source or a fault outcome is refused; any other is
  stored, and the store keeps its invariant: both dictionaries have the same keys, no job holds
  more than \<open>max_attempts_per_job\<close> records and the store no more than \<open>max_total_records\<close>.
\<close>

theorem upsert_attempt_returns:
  assumes "store_ok s"
  shows "\<exists>res. upsert_attempt r s = Some res
    \<and> (case res of Inl e \<Rightarrow> validate_storable_record r = Inl e
       | Inr s' \<Rightarrow> validate_storable_record r = Inr () \<and> store_ok s'
           \<and> as_max_per_job s' = as_max_per_job s \<and> as_max_total s' = as_max_total s)"
proof (cases "validate_storable_record r")
  case (Inr u)
  from upsert_locked_ok [OF assms, of r] obtain s' where "upsert_locked r s = Some (Inr s')"
    "store_ok s'" "as_max_per_job s' = as_max_per_job s" "as_max_total s' = as_max_total s" by blast
  then show ?thesis using Inr by (simp add: upsert_attempt_def)
qed (simp add: upsert_attempt_def)

definition demo_store :: attempt_store where
  "demo_store = \<lparr>as_max_per_job = 2, as_max_total = 5, as_records = [], as_sequence = [],
     as_next_sequence = 0, as_eviction_count = 0\<rparr>"

lemma demo_store_new: "attempt_store_new (PyInt 2) (PyInt 5) = Inr demo_store"
  by (simp add: attempt_store_new_def positive_int_def demo_store_def)

lemma demo_store_ok: "store_ok demo_store"
  by (rule store_new_ok [OF demo_store_new])

theorem upsert_attempt_returns_witness:
  "\<exists>s'. upsert_attempt (demo_record ''j'' 4) demo_store = Some (Inr s') \<and> store_ok s'"
  using upsert_attempt_returns [OF demo_store_ok, of "demo_record ''j'' 4"]
  by (elim exE, rename_tac res, case_tac res) auto

text \<open>
  The attempts of a job are stored in cycle order while the store has room: what a later
  attempt is shown as its history is the last \<open>max_attempts_per_job\<close> of them, complete and in
  order.
\<close>

theorem prior_view_is_recent_history:
  assumes "store_ok s" and "int (length rs) + int (length (as_records s)) \<le> as_max_total s"
    and "\<And>r. r \<in> set rs \<Longrightarrow> validate_storable_record r = Inr () \<and> ar_job_id r = j
      \<and> ar_cycle_id r < n"
    and "sorted_wrt (<) (map ar_cycle_id rs)" and "job_records s j = []"
  shows "\<exists>s'. put_all upsert_attempt rs s = Some (Inr s') \<and> store_ok s'
    \<and> get_prior_attempts s' j n =
       \<lparr>pv_records = last_n (nat (as_max_per_job s)) rs, pv_available = True,
        pv_availability_reason = ''ready''\<rparr>"
proof -
  from memory.prior_after_put_all [of s rs j n] assms obtain s' where
    "put_all upsert_attempt rs s = Some (Inr s')" "store_ok s'"
    "pv_records (get_prior_attempts s' j n) = last_n (nat (as_max_per_job s)) rs"
    by auto
  then show ?thesis by (auto simp: get_prior_attempts_def)
qed

theorem prior_view_is_recent_history_witness:
  "\<exists>s'. put_all upsert_attempt (map (demo_record ''j'') [1, 4, 6]) demo_store = Some (Inr s')
    \<and> pv_records (get_prior_attempts s' ''j'' 9) = map (demo_record ''j'') [4, 6]"
proof -
  have "\<exists>s'. put_all upsert_attempt (map (demo_record ''j'') [1, 4, 6]) demo_store = Some (Inr s')
    \<and> store_ok s' \<and> get_prior_attempts s' ''j'' 9 =
       \<lparr>pv_records = last_n (nat (as_max_per_job demo_store)) (map (demo_record ''j'') [1, 4, 6]),
        pv_available = True, pv_availability_reason = ''ready''\<rparr>"
    by (rule prior_view_is_recent_history [OF demo_store_ok])
      (auto simp: demo_store_def job_records_def)
  then show ?thesis by (auto simp: demo_store_def last_n_def)
qed

end
