(* ===== verification/RestartPolicy.thy ===== *)
theory RestartPolicy
  imports RestartHistory AttemptStore
begin

text \<open>
  The retry policy of the restart agent (\<open>attribution/restart_agent/l4/policy.py\<close>): which rule
  applies to a failure, the two retry ledgers, and the decision to stop or to restart.
\<close>

section \<open>Inputs and outcomes\<close>

record policy_input =
  pi_primary :: "failure_evidence option"
  pi_history :: history_summary
  pi_current_affected_entity :: "affected_entity option"
  pi_assessment :: "recovery_assessment option"
  pi_assessment_grounded :: bool
  pi_retry_policy :: retry_config
  pi_capabilities :: "recovery_capability list"

datatype ledger_id = GeneralRootCeiling | SelectedRuleBudget

record ledger =
  lg_ledger_id :: ledger_id
  lg_applicable :: bool
  lg_rule :: retry_rule
  lg_history_match_scope :: match_scope
  lg_allowed_retries :: "int option"
  lg_matching_prior_failures :: nat
  lg_observed_advance :: bool
  lg_exhausted :: bool
  lg_inapplicable_reason :: "string option"

record policy_evaluation =
  ev_rule :: "retry_rule option"
  ev_retry_budget_exhausted :: bool
  ev_exhausted_by :: "ledger_id list"
  ev_general_root_ceiling :: ledger
  ev_selected_rule_budget :: "ledger option"
  ev_decision :: decision
  ev_decision_basis :: decision_basis
  ev_failure_domain :: "failure_domain option"
  ev_failure_domain_status :: "assessment_status option"
  ev_failure_domain_confidence :: "int option"
  ev_retry_outlook :: "retry_outlook option"
  ev_retry_outlook_status :: "assessment_status option"
  ev_retry_outlook_confidence :: "int option"
  ev_assessment_grounded :: bool
  ev_current_evidence_qualified :: bool
  ev_current_affected_entity :: "affected_entity option"
  ev_match_requirements :: "(string, string) dict"
  ev_declared_capability_ids :: "capability_id list"
  ev_applied_capability :: "recovery_capability option"

section \<open>Rule selection\<close>

definition current_evidence_qualifies ::
  "failure_evidence option \<Rightarrow> bool \<Rightarrow> failure_domain option \<Rightarrow> assessment_status option
    \<Rightarrow> retry_outlook option \<Rightarrow> assessment_status option \<Rightarrow> bool" where
  "current_evidence_qualifies primary grounded domain domain_status outlook outlook_status \<longleftrightarrow>
     primary \<noteq> None \<and> grounded \<and> domain = Some WorkloadDomain
   \<and> domain_status = Some EstablishedByCurrentLog \<and> outlook = Some CannotRecover
   \<and> outlook_status = Some EstablishedByCurrentLog"

fun first_capability ::
  "failure_evidence \<Rightarrow> recovery_capability list \<Rightarrow> recovery_capability option" where
  "first_capability p [] = None"
| "first_capability p (c # cs) =
    (if fe_recovery_behavior p \<noteq> recovery_behavior_value (rc_behavior c) then first_capability p cs
     else if {fe_registry_id p, Some (fe_failure_class p)} \<inter> Some ` set (rc_applies_to c) \<noteq> {}
       then Some c
     else first_capability p cs)"

definition matching_recovery_capability ::
  "failure_evidence option \<Rightarrow> recovery_capability list \<Rightarrow> recovery_capability option" where
  "matching_recovery_capability primary cs =
    (case primary of None \<Rightarrow> None | Some p \<Rightarrow> first_capability p cs)"

definition capability_entity_matches ::
  "recovery_capability option \<Rightarrow> affected_entity option \<Rightarrow> bool" where
  "capability_entity_matches cap entity =
    (case (cap, entity) of
       (Some c, Some e) \<Rightarrow> ae_kind e = rc_required_entity_kind c
     | _ \<Rightarrow> False)"

definition select_rule ::
  "failure_evidence option \<Rightarrow> affected_entity option \<Rightarrow> recovery_capability option
    \<Rightarrow> recovery_capability option \<Rightarrow> bool \<Rightarrow> retry_outlook option \<Rightarrow> assessment_status option
    \<Rightarrow> bool \<Rightarrow> retry_rule option" where
  "select_rule primary entity matching applied grounded outlook outlook_status qualified =
    (if primary = None then None
     else if applied \<noteq> None then Some WorkloadManagedRecovery
     else if matching \<noteq> None then Some GeneralRetry
     else if qualified then Some WorkloadUnrecoverable
     else if entity \<noteq> None then Some ConfirmationRetry
     else if grounded \<and> outlook = Some MayRecover
         \<and> outlook_status \<in> {Some EstablishedByCurrentLog, Some SupportedButUnconfirmed}
       then Some BoundedRetry
     else Some GeneralRetry)"

section \<open>The two ledgers\<close>

definition inapplicable_ledger ::
  "ledger_id \<Rightarrow> retry_rule \<Rightarrow> match_scope \<Rightarrow> string \<Rightarrow> int option \<Rightarrow> ledger" where
  "inapplicable_ledger lid rule scope reason allowed =
    \<lparr>lg_ledger_id = lid, lg_applicable = False, lg_rule = rule, lg_history_match_scope = scope,
     lg_allowed_retries = allowed, lg_matching_prior_failures = 0, lg_observed_advance = False,
     lg_exhausted = False, lg_inapplicable_reason = Some reason\<rparr>"

definition history_measurements :: "history_summary \<Rightarrow> match_scope \<Rightarrow> nat \<times> bool" where
  "history_measurements h scope =
    (if scope = RootAndEntity
     then (hs_consecutive_same_root_and_entity_no_advance h,
           hs_advanced_beyond_all_same_entity_comparable h)
     else (hs_consecutive_same_root_no_advance h, hs_advanced_beyond_all_comparable h))"

definition evaluate_ledger ::
  "ledger_id \<Rightarrow> retry_rule \<Rightarrow> match_scope \<Rightarrow> int \<Rightarrow> history_summary \<Rightarrow> ledger" where
  "evaluate_ledger lid rule scope allowed h =
    (if \<not> hs_available h then inapplicable_ledger lid rule scope ''history_unavailable'' (Some allowed)
     else let (failures, advance) = history_measurements h scope
     in \<lparr>lg_ledger_id = lid, lg_applicable = True, lg_rule = rule, lg_history_match_scope = scope,
         lg_allowed_retries = Some allowed, lg_matching_prior_failures = failures,
         lg_observed_advance = advance, lg_exhausted = (\<not> advance \<and> int failures \<ge> allowed),
         lg_inapplicable_reason = None\<rparr>)"

definition general_root_ceiling ::
  "failure_evidence option \<Rightarrow> retry_rule option \<Rightarrow> history_summary \<Rightarrow> int \<Rightarrow> ledger" where
  "general_root_ceiling primary rule h allowed =
    (if primary = None
     then inapplicable_ledger GeneralRootCeiling GeneralRetry RootOnly ''missing_primary'' None
     else if rule = Some WorkloadUnrecoverable
     then inapplicable_ledger GeneralRootCeiling GeneralRetry RootOnly ''immediate_unrecoverable'' None
     else evaluate_ledger GeneralRootCeiling GeneralRetry RootOnly allowed h)"

text \<open>
  The assertion that a capability is applied under the workload-managed rule is the case
  distinction on \<open>applied\<close>: the rule is selected only when there is one.
\<close>

definition selected_rule_budget ::
  "retry_rule option \<Rightarrow> recovery_capability option \<Rightarrow> history_summary \<Rightarrow> int \<Rightarrow> int \<Rightarrow> int
    \<Rightarrow> ledger option" where
  "selected_rule_budget rule applied h confirmation bounded general =
    (let budget = (\<lambda>r allowed scope.
           if allowed \<ge> general then None
           else Some (evaluate_ledger SelectedRuleBudget r scope allowed h))
     in case rule of
          Some WorkloadManagedRecovery \<Rightarrow>
            (case applied of
               None \<Rightarrow> None
             | Some c \<Rightarrow> budget WorkloadManagedRecovery (rc_allowed_retries c) (rc_history_match_scope c))
        | Some ConfirmationRetry \<Rightarrow> budget ConfirmationRetry confirmation RootAndEntity
        | Some BoundedRetry \<Rightarrow> budget BoundedRetry bounded RootOnly
        | _ \<Rightarrow> None)"

definition decide ::
  "failure_evidence option \<Rightarrow> retry_rule option \<Rightarrow> bool \<Rightarrow> bool \<Rightarrow> decision \<times> decision_basis" where
  "decide primary rule exhausted advance =
    (if primary = None then (RESTART, NoPrimaryFailure)
     else if rule = Some WorkloadUnrecoverable then (STOP, WorkloadUnrecoverableBasis)
     else if exhausted then (STOP, RetryBudgetExhausted)
     else if advance then (RESTART, ObservedAdvance)
     else if rule = Some WorkloadManagedRecovery then (RESTART, WorkloadManagedRecoveryAvailable)
     else if rule = Some BoundedRetry then (RESTART, RetryRecoveryAvailable)
     else if rule = Some ConfirmationRetry then (RESTART, ConfirmationRetryAvailable)
     else (RESTART, GeneralRetryAvailable))"

section \<open>The evaluation\<close>

definition applied_capability :: "policy_input \<Rightarrow> recovery_capability option" where
  "applied_capability i =
    (let matching = matching_recovery_capability (pi_primary i) (pi_capabilities i)
     in if capability_entity_matches matching (pi_current_affected_entity i) then matching else None)"

definition policy_rule :: "policy_input \<Rightarrow> retry_rule option" where
  "policy_rule i =
    (let a = pi_assessment i;
         matching = matching_recovery_capability (pi_primary i) (pi_capabilities i)
     in select_rule (pi_primary i) (pi_current_affected_entity i) matching (applied_capability i)
          (pi_assessment_grounded i) (map_option as_outlook a) (map_option as_outlook_status a)
          (current_evidence_qualifies (pi_primary i) (pi_assessment_grounded i)
            (map_option as_domain a) (map_option as_domain_status a) (map_option as_outlook a)
            (map_option as_outlook_status a)))"

definition evaluate_policy :: "policy_input \<Rightarrow> policy_evaluation" where
  "evaluate_policy i =
    (let cf = pi_retry_policy i;
         a = pi_assessment i;
         domain = map_option as_domain a;
         domain_status = map_option as_domain_status a;
         outlook = map_option as_outlook a;
         outlook_status = map_option as_outlook_status a;
         qualified = current_evidence_qualifies (pi_primary i) (pi_assessment_grounded i)
                       domain domain_status outlook outlook_status;
         applied = applied_capability i;
         rule = policy_rule i;
         ceiling = general_root_ceiling (pi_primary i) rule (pi_history i) (cf_general cf);
         budget = selected_rule_budget rule applied (pi_history i) (cf_confirmation cf)
                    (cf_bounded cf) (cf_general cf);
         ledgers = ceiling # (case budget of None \<Rightarrow> [] | Some b \<Rightarrow> [b]);
         exhausted_by = map lg_ledger_id (filter lg_exhausted ledgers);
         exhausted = (exhausted_by \<noteq> []);
         advance = list_ex (\<lambda>l. lg_applicable l \<and> lg_observed_advance l) ledgers;
         (decision, basis) = decide (pi_primary i) rule exhausted advance;
         scope = (case budget of None \<Rightarrow> RootOnly | Some b \<Rightarrow> lg_history_match_scope b)
     in \<lparr>ev_rule = rule, ev_retry_budget_exhausted = exhausted, ev_exhausted_by = exhausted_by,
         ev_general_root_ceiling = ceiling, ev_selected_rule_budget = budget,
         ev_decision = decision, ev_decision_basis = basis, ev_failure_domain = domain,
         ev_failure_domain_status = domain_status,
         ev_failure_domain_confidence = map_option as_domain_confidence a,
         ev_retry_outlook = outlook, ev_retry_outlook_status = outlook_status,
         ev_retry_outlook_confidence = map_option as_outlook_confidence a,
         ev_assessment_grounded = pi_assessment_grounded i,
         ev_current_evidence_qualified = qualified,
         ev_current_affected_entity = pi_current_affected_entity i,
         ev_match_requirements =
           [(''job_id'', ''exact''),
            (''root_fingerprint'', if pi_primary i \<noteq> None then ''exact'' else ''missing''),
            (''affected_entity'', if scope = RootAndEntity then ''exact'' else ''not_required''),
            (''progress'', ''no_observed_advance'')],
         ev_declared_capability_ids = map rc_capability_id (pi_capabilities i),
         ev_applied_capability = applied\<rparr>)"

section \<open>When the policy stops a job\<close>

text \<open>
  The retry budgets in force: the general ceiling for the root always, and the allowance of the
  selected rule when it is narrower.
\<close>

definition rule_allowance :: "policy_input \<Rightarrow> (int \<times> match_scope) option" where
  "rule_allowance i =
    (case policy_rule i of
       Some WorkloadManagedRecovery \<Rightarrow>
         map_option (\<lambda>c. (rc_allowed_retries c, rc_history_match_scope c)) (applied_capability i)
     | Some ConfirmationRetry \<Rightarrow> Some (cf_confirmation (pi_retry_policy i), RootAndEntity)
     | Some BoundedRetry \<Rightarrow> Some (cf_bounded (pi_retry_policy i), RootOnly)
     | _ \<Rightarrow> None)"

definition budgets_in_force :: "policy_input \<Rightarrow> (int \<times> match_scope) list" where
  "budgets_in_force i =
    (cf_general (pi_retry_policy i), RootOnly) #
    (case rule_allowance i of
       None \<Rightarrow> []
     | Some (n, scope) \<Rightarrow> if n < cf_general (pi_retry_policy i) then [(n, scope)] else [])"

definition budget_used_up :: "history_summary \<Rightarrow> int \<times> match_scope \<Rightarrow> bool" where
  "budget_used_up h b \<longleftrightarrow> hs_available h \<and> \<not> snd (history_measurements h (snd b))
     \<and> fst b \<le> int (fst (history_measurements h (snd b)))"

lemma evaluate_ledger_exhausted [simp]:
  "lg_exhausted (evaluate_ledger lid rule scope n h) \<longleftrightarrow> budget_used_up h (n, scope)"
  by (auto simp: evaluate_ledger_def inapplicable_ledger_def budget_used_up_def split: prod.splits)

lemma inapplicable_ledger_simps [simp]:
  "\<not> lg_exhausted (inapplicable_ledger lid rule scope reason n)"
  "\<not> lg_applicable (inapplicable_ledger lid rule scope reason n)"
  by (simp_all add: inapplicable_ledger_def)

lemma select_rule_None [simp]:
  "select_rule p e m a g ou st q = None \<longleftrightarrow> p = None"
  by (simp add: select_rule_def)

lemma policy_rule_None [simp]: "policy_rule i = None \<longleftrightarrow> pi_primary i = None"
  by (simp add: policy_rule_def Let_def)

lemma policy_rule_history [simp]:
  "policy_rule (i\<lparr>pi_history := h\<rparr>) = policy_rule i"
  "applied_capability (i\<lparr>pi_history := h\<rparr>) = applied_capability i"
  by (simp_all add: policy_rule_def applied_capability_def)

lemma decide_STOP:
  "fst (decide p rule exhausted advance) = STOP \<longleftrightarrow>
    p \<noteq> None \<and> (rule = Some WorkloadUnrecoverable \<or> exhausted)"
  by (simp add: decide_def)

lemma exhausted_iff:
  assumes "pi_primary i \<noteq> None" and "policy_rule i \<noteq> Some WorkloadUnrecoverable"
  shows "ev_retry_budget_exhausted (evaluate_policy i) \<longleftrightarrow>
    (\<exists>b \<in> set (budgets_in_force i). budget_used_up (pi_history i) b)"
proof -
  have ceiling: "lg_exhausted (general_root_ceiling (pi_primary i) (policy_rule i) (pi_history i)
      (cf_general (pi_retry_policy i)))
    \<longleftrightarrow> budget_used_up (pi_history i) (cf_general (pi_retry_policy i), RootOnly)"
    using assms by (auto simp: general_root_ceiling_def)
  obtain rl where rl: "policy_rule i = Some rl" using assms(1) by (cases "policy_rule i") auto
  let ?b = "selected_rule_budget (policy_rule i) (applied_capability i) (pi_history i)
    (cf_confirmation (pi_retry_policy i)) (cf_bounded (pi_retry_policy i)) (cf_general (pi_retry_policy i))"
  have "(\<exists>l. ?b = Some l \<and> lg_exhausted l) \<longleftrightarrow>
      (\<exists>b \<in> set (tl (budgets_in_force i)). budget_used_up (pi_history i) b)"
    using rl by (cases rl; cases "applied_capability i")
      (auto simp: selected_rule_budget_def budgets_in_force_def rule_allowance_def Let_def)
  moreover have "set (budgets_in_force i) =
      insert (cf_general (pi_retry_policy i), RootOnly) (set (tl (budgets_in_force i)))"
    by (simp add: budgets_in_force_def)
  ultimately show ?thesis
    using ceiling
    by (cases ?b) (auto simp: evaluate_policy_def Let_def filter_empty_conv split: prod.splits)
qed

lemma stop_by_budget:
  "ev_decision (evaluate_policy i) = STOP \<longleftrightarrow>
    pi_primary i \<noteq> None \<and>
    (policy_rule i = Some WorkloadUnrecoverable
     \<or> (\<exists>b \<in> set (budgets_in_force i). budget_used_up (pi_history i) b))"
proof -
  have "ev_decision (evaluate_policy i) = STOP \<longleftrightarrow> pi_primary i \<noteq> None \<and>
      (policy_rule i = Some WorkloadUnrecoverable \<or> ev_retry_budget_exhausted (evaluate_policy i))"
    by (auto simp: evaluate_policy_def Let_def decide_def split: prod.splits if_splits)
  then show ?thesis using exhausted_iff [of i] by blast
qed

text \<open>
  C39: The policy stops a job exactly when a primary failure is known and either the current log
  proves the workload unrecoverable or one of the budgets in force is used up by the history,
  with no observed advance in the scope of that budget. In particular a narrower budget can stop
  earlier, but nothing extends the ceiling, and no failure is stopped without history or proof.
\<close>

theorem policy_stop_iff:
  "ev_decision (evaluate_policy i) = STOP \<longleftrightarrow>
    pi_primary i \<noteq> None \<and>
    (policy_rule i = Some WorkloadUnrecoverable
     \<or> (\<exists>b \<in> set (budgets_in_force i). budget_used_up (pi_history i) b))"
  by (rule stop_by_budget)

section \<open>Consistency of the history counters\<close>

lemma streak_member_mono: "streak_member cur facts True p \<Longrightarrow> streak_member cur facts False p"
  by (simp add: streak_member_def)

lemma length_filter_mono:
  "(\<And>x. P x \<Longrightarrow> Q x) \<Longrightarrow> length (filter P xs) \<le> length (filter Q xs)"
  by (induction xs) auto

lemma relation_count_total:
  "relation_count cs Advanced + (relation_count cs SameProgress + relation_count cs Regressed)
    + relation_count cs UnknownProgress = length cs"
proof (induction cs)
  case (Cons c cs)
  then show ?case by (cases "pc_relation c") (simp_all add: relation_count_def)
qed (simp add: relation_count_def)

lemma relation_count_no_advance:
  "relation_count cs SameProgress + relation_count cs Regressed = length (filter no_advance cs)"
  by (induction cs) (auto simp: relation_count_def no_advance_def)

lemma entity_count_total:
  "length (filter (\<lambda>c. pc_affected_entity_relation c = SameEntity) cs)
    + count_if (\<lambda>c. pc_affected_entity_relation c = DifferentEntity) cs
    + count_if (\<lambda>c. pc_affected_entity_relation c = UnknownEntity) cs = length cs"
proof (induction cs)
  case (Cons c cs)
  then show ?case by (cases "pc_affected_entity_relation c") simp_all
qed simp

lemma evaluate_history_cases:
  "(\<exists>reason n. evaluate_history i = history_unavailable reason n)
   \<or> (\<exists>facts. evaluate_history i =
        history_summary (hi_current_record i) facts (pv_records (hi_prior_attempts i)))"
  by (auto simp: evaluate_history_def Let_def split: option.splits)

definition qualifying_for :: "attempt_record \<Rightarrow> failure_facts \<Rightarrow> attempt_record \<Rightarrow> bool" where
  "qualifying_for cur facts r \<longleftrightarrow>
     ff_root_fingerprint (ar_deterministic r) = ff_root_fingerprint facts
   \<and> qualifying_outcome (compare_progress cur facts r)"

lemma history_summary_counts:
  fixes cur facts rs
  defines "h \<equiv> history_summary cur facts rs"
    and "cs \<equiv> map (compare_progress cur facts)
           (filter (qualifying_for cur facts) (sort_key ar_cycle_id rs))"
  shows "hs_observed_advance_attempts h = relation_count cs Advanced"
    and "hs_no_observed_advance_attempts h = relation_count cs SameProgress + relation_count cs Regressed"
    and "hs_unknown_progress_attempts h = relation_count cs UnknownProgress"
    and "hs_same_entity_attempts h = length (filter (\<lambda>c. pc_affected_entity_relation c = SameEntity) cs)"
    and "hs_different_entity_attempts h =
      count_if (\<lambda>c. pc_affected_entity_relation c = DifferentEntity) cs"
    and "hs_unknown_entity_attempts h =
      count_if (\<lambda>c. pc_affected_entity_relation c = UnknownEntity) cs"
    and "hs_matching_root_attempts h =
      length (filter (\<lambda>r. ff_root_fingerprint (ar_deterministic r) = ff_root_fingerprint facts) rs)"
    and "hs_same_job_attempts h = length rs"
proof -
  have q: "filter (qualifying_for cur facts) xs =
      filter (qualifying_outcome \<circ> compare_progress cur facts)
        (filter (\<lambda>r. ff_root_fingerprint (ar_deterministic r) = ff_root_fingerprint facts) xs)" for xs
    by (auto simp: qualifying_for_def intro!: filter_cong)
  have s: "length (filter P (sort_key ar_cycle_id rs)) = length (filter P rs)" for P
    by (simp add: filter_sort)
  note unf = h_def cs_def q history_summary_def Let_def zip_map_filter
  show "hs_observed_advance_attempts h = relation_count cs Advanced"
    and "hs_no_observed_advance_attempts h = relation_count cs SameProgress + relation_count cs Regressed"
    and "hs_unknown_progress_attempts h = relation_count cs UnknownProgress"
    and "hs_same_entity_attempts h = length (filter (\<lambda>c. pc_affected_entity_relation c = SameEntity) cs)"
    and "hs_different_entity_attempts h =
      count_if (\<lambda>c. pc_affected_entity_relation c = DifferentEntity) cs"
    and "hs_unknown_entity_attempts h =
      count_if (\<lambda>c. pc_affected_entity_relation c = UnknownEntity) cs"
    by (simp_all only: unf map_map history_summary.simps comp_def snd_conv)
  show "hs_matching_root_attempts h =
      length (filter (\<lambda>r. ff_root_fingerprint (ar_deterministic r) = ff_root_fingerprint facts) rs)"
    and "hs_same_job_attempts h = length rs"
    by (simp_all add: h_def history_summary_def Let_def s)
qed

text \<open>
  The counters of a history summary fit together: the streak for the same entity is within
  the streak for the root, which is within the attempts without observed advance, which are
  among the matching attempts, which are among the attempts of the job; and the classification
  by progress and the classification by entity both cover the same attempts.
\<close>

theorem history_counters_consistent:
  fixes i
  defines "h \<equiv> evaluate_history i"
  shows "hs_consecutive_same_root_and_entity_no_advance h \<le> hs_consecutive_same_root_no_advance h
    \<and> hs_consecutive_same_root_no_advance h \<le> hs_no_observed_advance_attempts h
    \<and> hs_no_observed_advance_attempts h \<le> hs_matching_root_attempts h
    \<and> hs_matching_root_attempts h \<le> hs_same_job_attempts h
    \<and> hs_observed_advance_attempts h + hs_no_observed_advance_attempts h
        + hs_unknown_progress_attempts h
      = hs_same_entity_attempts h + hs_different_entity_attempts h + hs_unknown_entity_attempts h"
proof -
  consider (none) reason n where "h = history_unavailable reason n"
    | (summary) facts where
        "h = history_summary (hi_current_record i) facts (pv_records (hi_prior_attempts i))"
    using evaluate_history_cases [of i] unfolding h_def by blast
  then show ?thesis
  proof cases
    case none
    then show ?thesis by (simp add: history_unavailable_def)
  next
    case summary
    let ?cur = "hi_current_record i" and ?rs = "pv_records (hi_prior_attempts i)"
    let ?os = "sort_key ar_cycle_id ?rs"
    let ?cs = "map (compare_progress ?cur facts) (filter (qualifying_for ?cur facts) ?os)"
    note counts = history_summary_counts [of ?cur facts ?rs, folded summary]
    have "length (takeWhile (streak_member ?cur facts False) (rev ?os))
        \<le> length (filter (streak_member ?cur facts False) ?os)"
      using takeWhile_le_filter [of "streak_member ?cur facts False" "rev ?os"]
      by (simp add: rev_filter [symmetric])
    also have "filter (streak_member ?cur facts False) ?os = filter (\<lambda>r. no_advance (compare_progress ?cur facts r))
        (filter (qualifying_for ?cur facts) ?os)"
      by (auto simp: streak_member_def qualifying_for_def intro!: filter_cong)
    also have "length \<dots> = length (filter no_advance ?cs)" by (simp add: filter_map comp_def)
    finally have "hs_consecutive_same_root_no_advance h \<le> hs_no_observed_advance_attempts h"
      by (simp add: summary history_summary_counts relation_count_no_advance)
    moreover have "length (filter no_advance ?cs) \<le> length (filter (qualifying_for ?cur facts) ?rs)"
      by (rule order_trans [OF length_filter_le]) (simp add: filter_sort)
    moreover have "length (filter (qualifying_for ?cur facts) ?rs) \<le>
        length (filter (\<lambda>r. ff_root_fingerprint (ar_deterministic r) = ff_root_fingerprint facts) ?rs)"
      by (rule length_filter_mono) (simp add: qualifying_for_def)
    moreover have "hs_consecutive_same_root_and_entity_no_advance h \<le> hs_consecutive_same_root_no_advance h"
      by (simp add: summary takeWhile_mono_length streak_member_mono)
    ultimately show ?thesis
      using relation_count_total [of ?cs] entity_count_total [of ?cs] counts
      by (simp add: relation_count_no_advance length_filter_le)
  qed
qed

section \<open>Attempts of one job, end to end\<close>

lemma sorted_wrt_less_imp_sorted: "sorted_wrt (<) (xs :: int list) \<Longrightarrow> sorted xs"
  by (rule sorted_wrt_mono_rel [of _ "(<)"]) auto

text \<open>
  The history of a current record whose earlier attempts \<open>rs\<close> all continue the streak.
\<close>

lemma streak_history:
  assumes "sorted (map ar_cycle_id rs)"
    and "\<And>r. r \<in> set rs \<Longrightarrow> streak_member cur facts False r"
  shows "hs_consecutive_same_root_no_advance (history_summary cur facts rs) = length rs"
    and "\<not> hs_advanced_beyond_all_comparable (history_summary cur facts rs)"
proof -
  have "takeWhile (streak_member cur facts False) (rev rs) = rev rs"
    using assms(2) by (intro takeWhile_all) (auto simp: list_all_iff)
  then show c: "hs_consecutive_same_root_no_advance (history_summary cur facts rs) = length rs"
    using sort_key_sorted [OF assms(1)] by (simp only: history_summary_consecutive length_rev)
  show "\<not> hs_advanced_beyond_all_comparable (history_summary cur facts rs)"
    using c streak_blocks_advance [of cur facts rs]
    by (cases rs) (auto simp: history_summary_advance Let_def)
qed

text \<open>
  C13: A job whose attempts keep failing with the same root and without progress is run against
  the in-memory store and judged by history and policy under the general rule. It is stopped
  exactly when the number of attempts the store still holds reaches the configured ceiling:
  with a ceiling within \<open>max_attempts_per_job\<close> the job gets exactly that many retries, and
  with a larger ceiling, which the configuration accepts, it is restarted for ever.
\<close>

theorem retry_ceiling_enforced:
  assumes "attempt_store_new (PyInt limit) (PyInt cap) = Inr s0"
    and "int (length rs) \<le> cap"
    and "\<And>r. r \<in> set rs \<Longrightarrow> validate_storable_record r = Inr () \<and> ar_job_id r = ar_job_id cur
      \<and> ar_cycle_id r < ar_cycle_id cur \<and> streak_member cur (ar_deterministic cur) False r"
    and "sorted_wrt (<) (map ar_cycle_id rs)"
    and "truthy (ff_root_fingerprint (ar_deterministic cur))"
    and "policy_rule i = Some GeneralRetry"
  shows "\<exists>s. put_all upsert_attempt rs s0 = Some (Inr s)
    \<and> (ev_decision (evaluate_policy (i\<lparr>pi_history := evaluate_history
          \<lparr>hi_current_record = cur, hi_fact_selector = ''deterministic'',
           hi_prior_attempts = get_prior_attempts s (ar_job_id cur) (ar_cycle_id cur)\<rparr>\<rparr>)) = STOP
      \<longleftrightarrow> cf_general (pi_retry_policy i) \<le> min (int (length rs)) limit)"
proof -
  have ok: "store_ok s0" by (rule store_new_ok [OF assms(1)])
  have s0: "as_max_total s0 = cap" "as_max_per_job s0 = limit" "as_records s0 = []" "0 < limit"
    using assms(1)
    by (auto simp: attempt_store_new_def res_bind_eq_Inr positive_int_def split: if_splits)
  have "\<exists>s. put_all upsert_attempt rs s0 = Some (Inr s) \<and> store_ok s
    \<and> pv_records (get_prior_attempts s (ar_job_id cur) (ar_cycle_id cur)) = last_n (nat limit) rs"
    using memory.prior_after_put_all [of s0 rs "ar_job_id cur" "ar_cycle_id cur"] ok s0 assms(2-4)
    by (simp add: job_records_def)
  then obtain s where s: "put_all upsert_attempt rs s0 = Some (Inr s)"
    "pv_records (get_prior_attempts s (ar_job_id cur) (ar_cycle_id cur)) = last_n (nat limit) rs"
    by blast
  let ?rs = "last_n (nat limit) rs"
  let ?h = "history_summary cur (ar_deterministic cur) ?rs"
  have "sorted (map ar_cycle_id ?rs)"
    using sorted_wrt_less_imp_sorted [OF assms(4)]
    by (simp add: last_n_def sorted_wrt_drop drop_map [symmetric])
  moreover have "streak_member cur (ar_deterministic cur) False r" if "r \<in> set ?rs" for r
    using that assms(3) set_last_n by fast
  ultimately have h: "hs_consecutive_same_root_no_advance ?h = length ?rs"
    "\<not> hs_advanced_beyond_all_comparable ?h"
    using streak_history by blast+
  have "evaluate_history \<lparr>hi_current_record = cur, hi_fact_selector = ''deterministic'',
      hi_prior_attempts = get_prior_attempts s (ar_job_id cur) (ar_cycle_id cur)\<rparr> = ?h"
    using assms(5) s(2)
    by (simp add: evaluate_history_def selected_current_facts_def get_prior_available)
  moreover have "budgets_in_force (i\<lparr>pi_history := ?h\<rparr>) = [(cf_general (pi_retry_policy i), RootOnly)]"
    using assms(6) by (simp add: budgets_in_force_def rule_allowance_def)
  moreover have "pi_primary i \<noteq> None"
    using assms(6) policy_rule_None [of i] by auto
  ultimately show ?thesis
    using s(1) h s0(4) assms(6)
    by (auto simp: stop_by_budget budget_used_up_def history_measurements_def)
qed

definition demo_evidence :: failure_evidence where
  "demo_evidence =
    \<lparr>fe_failure_class = ''oom'', fe_signature = ''CUDA out of memory'', fe_root_fingerprint = Some ''oom'',
     fe_fault_outcome = Some ''terminal'', fe_causal_role = ''initiating'', fe_line = None,
     fe_quote = None, fe_rank = None, fe_phase = None, fe_node = None, fe_gpu = None,
     fe_failure_iteration = Some 7, fe_data_position_fingerprint = None, fe_registry_id = None,
     fe_role = None, fe_recovery_behavior = ''none'', fe_root_fingerprint_source = ''l0_registry'',
     fe_affected_entity = None\<rparr>"

definition demo_policy :: "int \<Rightarrow> policy_input" where
  "demo_policy general =
    \<lparr>pi_primary = Some demo_evidence, pi_history = history_unavailable ''history_disabled'' 0,
     pi_current_affected_entity = None, pi_assessment = None, pi_assessment_grounded = False,
     pi_retry_policy = \<lparr>cf_confirmation = 1, cf_bounded = 1, cf_general = general\<rparr>,
     pi_capabilities = []\<rparr>"

lemma demo_policy_simps [simp]:
  "policy_rule (demo_policy g) = Some GeneralRetry" "cf_general (pi_retry_policy (demo_policy g)) = g"
  by (simp_all add: demo_policy_def policy_rule_def applied_capability_def select_rule_def
      matching_recovery_capability_def capability_entity_matches_def current_evidence_qualifies_def)

lemma demo_streak: "streak_member (demo_record j c) (demo_facts ''oom'') False (demo_record j d)"
  by (simp add: streak_member_def compare_progress_def demo_record_def demo_facts_def demo_progress_def
      positive_progress_dimensions_def dimension_comparison_def relation_from_delta_def
      combine_positive_dimensions_def qualifying_outcome_def no_advance_def Let_def)

text \<open>Four failures in a row, a ceiling of three, and a store that keeps two: a fifth start.\<close>

theorem retry_ceiling_enforced_witness:
  "\<exists>s. put_all upsert_attempt (map (demo_record ''j'') [1, 2, 3, 4]) demo_store = Some (Inr s)
    \<and> ev_decision (evaluate_policy ((demo_policy 3)\<lparr>pi_history := evaluate_history
          \<lparr>hi_current_record = demo_record ''j'' 5, hi_fact_selector = ''deterministic'',
           hi_prior_attempts = get_prior_attempts s ''j'' 5\<rparr>\<rparr>)) \<noteq> STOP"
proof -
  have "\<exists>s. put_all upsert_attempt (map (demo_record ''j'') [1, 2, 3, 4]) demo_store = Some (Inr s)
    \<and> (ev_decision (evaluate_policy ((demo_policy 3)\<lparr>pi_history := evaluate_history
          \<lparr>hi_current_record = demo_record ''j'' 5, hi_fact_selector = ''deterministic'',
           hi_prior_attempts = get_prior_attempts s (ar_job_id (demo_record ''j'' 5))
             (ar_cycle_id (demo_record ''j'' 5))\<rparr>\<rparr>)) = STOP
      \<longleftrightarrow> cf_general (pi_retry_policy (demo_policy 3))
          \<le> min (int (length (map (demo_record ''j'') [1, 2, 3, 4]))) 2)"
    by (rule retry_ceiling_enforced [OF demo_store_new])
      (auto simp: demo_streak demo_facts_def [THEN arg_cong [where f = ff_root_fingerprint]])
  then show ?thesis by simp
qed

section \<open>The order of the view\<close>

lemma sort_key_mset:
  assumes "mset xs = mset ys" and "distinct (map f xs)"
  shows "sort_key f xs = sort_key f ys"
proof (rule map_sorted_distinct_set_unique)
  have s: "set xs = set ys" using assms(1) by (rule mset_eq_setD)
  have "mset (map f xs) = mset (map f ys)" using assms(1) by (simp only: mset_map)
  then have d: "distinct (map f ys)" using assms(2) mset_eq_imp_distinct_iff by blast
  show "inj_on f (set (sort_key f xs) \<union> set (sort_key f ys))"
    using assms(2) s by (simp add: distinct_map)
  show "distinct (map f (sort_key f xs))" "distinct (map f (sort_key f ys))"
    using assms(2) d by (simp_all add: distinct_map distinct_sort)
  show "set (sort_key f xs) = set (sort_key f ys)" using s by simp
qed simp_all

text \<open>
  The order in which a view lists the earlier attempts does not matter: two views with the
  same attempts, no two of the same cycle, give the same history summary.
\<close>

theorem history_order_irrelevant:
  assumes "mset (pv_records p) = mset (pv_records q)"
    and "pv_available p = pv_available q" and "pv_availability_reason p = pv_availability_reason q"
    and "distinct (map ar_cycle_id (pv_records p))"
  shows "evaluate_history (i\<lparr>hi_prior_attempts := p\<rparr>) = evaluate_history (i\<lparr>hi_prior_attempts := q\<rparr>)"
proof -
  have "sort_key ar_cycle_id (pv_records p) = sort_key ar_cycle_id (pv_records q)"
    using assms(1,4) by (rule sort_key_mset)
  then have "history_summary cur facts (pv_records p) = history_summary cur facts (pv_records q)"
    for cur facts by (simp only: history_summary_def)
  moreover have "length (pv_records p) = length (pv_records q)"
    using assms(1) by (rule mset_eq_length)
  ultimately show ?thesis
    using assms(2,3) by (simp add: evaluate_history_def Let_def split: option.split)
qed

theorem history_order_irrelevant_witness:
  "evaluate_history \<lparr>hi_current_record = demo_record ''j'' 5, hi_fact_selector = ''deterministic'',
      hi_prior_attempts = \<lparr>pv_records = map (demo_record ''j'') [1, 2, 3], pv_available = True,
        pv_availability_reason = ''ready''\<rparr>\<rparr>
   = evaluate_history \<lparr>hi_current_record = demo_record ''j'' 5, hi_fact_selector = ''deterministic'',
      hi_prior_attempts = \<lparr>pv_records = map (demo_record ''j'') [3, 1, 2], pv_available = True,
        pv_availability_reason = ''ready''\<rparr>\<rparr>"
proof -
  let ?v = "\<lambda>cs. \<lparr>pv_records = map (demo_record ''j'') cs, pv_available = True,
    pv_availability_reason = ''ready''\<rparr>"
  let ?i = "\<lparr>hi_current_record = demo_record ''j'' 5, hi_fact_selector = ''deterministic'',
    hi_prior_attempts = ?v []\<rparr>"
  have "evaluate_history (?i\<lparr>hi_prior_attempts := ?v [1, 2, 3]\<rparr>)
      = evaluate_history (?i\<lparr>hi_prior_attempts := ?v [3, 1, 2]\<rparr>)"
    by (rule history_order_irrelevant) simp_all
  then show ?thesis by (simp only: history_input.update_convs)
qed

end
