(* ===== verification/RdzvRanks.thy ===== *)
theory RdzvRanks
  imports PyText "HOL-Library.List_Lexorder" "HOL-Library.Char_ord" "HOL-Library.Multiset"
begin

text \<open>
  Rank assignment of the barrier rendezvous
  (\<open>fault_tolerance/ft_rendezvous_barrier.py\<close>): node descriptors and participants, the choice of
  complete replacement groups, the segment constraint, the order of the participants, the
  assignment of active and standby group ranks, and the gate that delays the close of a restart
  round for nodes that were active before. Numbers are unbounded integers, times are real.
\<close>

section \<open>Nodes and participants\<close>

datatype node_desc = NodeDesc (nd_addr: string) (nd_pid: int) (nd_local_id: int)

text \<open>The dataclass has \<open>order=True\<close>: nodes compare by address, then process, then local id.\<close>

instantiation node_desc :: linorder
begin

definition less_eq_node_desc :: "node_desc \<Rightarrow> node_desc \<Rightarrow> bool" where
  "m \<le> n \<longleftrightarrow> nd_addr m < nd_addr n \<or> nd_addr m = nd_addr n \<and>
     (nd_pid m < nd_pid n \<or> nd_pid m = nd_pid n \<and> nd_local_id m \<le> nd_local_id n)"

definition less_node_desc :: "node_desc \<Rightarrow> node_desc \<Rightarrow> bool" where
  "m < n \<longleftrightarrow> nd_addr m < nd_addr n \<or> nd_addr m = nd_addr n \<and>
     (nd_pid m < nd_pid n \<or> nd_pid m = nd_pid n \<and> nd_local_id m < nd_local_id n)"

instance
  by standard (auto simp: less_eq_node_desc_def less_node_desc_def intro: node_desc.expand)

end

definition node_desc_text :: "node_desc \<Rightarrow> string" where
  "node_desc_text n = nd_addr n @ ''_'' @ int_text (nd_pid n) @ ''_'' @ int_text (nd_local_id n)"

text \<open>A participant: node, infrastructure rank, domain and replacement group.\<close>

type_synonym participant = "node_desc \<times> int \<times> string \<times> string option"

abbreviation pt_node :: "participant \<Rightarrow> node_desc" where "pt_node p \<equiv> fst p"
abbreviation pt_infra :: "participant \<Rightarrow> int" where "pt_infra p \<equiv> fst (snd p)"
abbreviation pt_domain :: "participant \<Rightarrow> string" where "pt_domain p \<equiv> fst (snd (snd p))"
abbreviation pt_group :: "participant \<Rightarrow> string option" where "pt_group p \<equiv> snd (snd (snd p))"

datatype rdzv_error =
    DomainRequired string
  | ActiveAndStandby
  | DuplicateInfraRanks
  | NotDivisible int int
  | InsufficientNodes int int
  | DivisionByZero

section \<open>Replacement groups\<close>

definition group_count :: "participant list \<Rightarrow> string \<Rightarrow> int" where
  "group_count ps g = int (length (filter (\<lambda>p. pt_group p = Some g) ps))"

definition in_complete_group :: "int \<Rightarrow> participant list \<Rightarrow> participant \<Rightarrow> bool" where
  "in_complete_group needed ps p =
     (case pt_group p of None \<Rightarrow> False | Some g \<Rightarrow> group_count ps g \<ge> needed)"

definition split_by_complete_replacement_groups ::
  "int option \<Rightarrow> participant list \<Rightarrow> participant list \<times> participant list" where
  "split_by_complete_replacement_groups needed ps =
     (case needed of
        None \<Rightarrow> (ps, [])
      | Some n \<Rightarrow> (filter (in_complete_group n ps) ps, filter (\<lambda>p. \<not> in_complete_group n ps p) ps))"

section \<open>The segment constraint\<close>

definition segment_size :: "int option \<Rightarrow> int" where
  "segment_size segment = (case segment of None \<Rightarrow> 1 | Some n \<Rightarrow> n)"

text \<open>The dictionary of counts, a new domain at its end.\<close>

fun count_domains :: "participant list \<Rightarrow> (string, int) dict \<Rightarrow> rdzv_error + (string, int) dict" where
  "count_domains [] d = Inr d"
| "count_domains (p # ps) d =
     (if pt_domain p = ''none'' then Inl (DomainRequired (nd_addr (pt_node p)))
      else count_domains ps (AList.update (pt_domain p)
             ((case map_of d (pt_domain p) of None \<Rightarrow> 0 | Some n \<Rightarrow> n) + 1) d))"

definition can_meet_segment_constraint ::
  "int option \<Rightarrow> participant list \<Rightarrow> int \<Rightarrow> rdzv_error + bool" where
  "can_meet_segment_constraint segment ps world_size =
     (let seg = segment_size segment
      in res_bind (if segment \<noteq> None then count_domains ps [] else Inr [(''all'', int (length ps))])
           (\<lambda>counts.
             if seg = 0 then Inl DivisionByZero
             else Inr (sum_list (map (\<lambda>(d, n). n div seg) counts) \<ge> world_size div seg)))"

section \<open>The order of the participants\<close>

text \<open>
  The infrastructure rank given to a node when some node has none: its position in node order
  (the last one, for a node that occurs twice).
\<close>

definition synthetic_ranks :: "participant list \<Rightarrow> (node_desc \<times> int) list" where
  "synthetic_ranks ps = rev (zip (map pt_node (sort_key pt_node ps)) (map int [0..<length ps]))"

definition synthetic_rank :: "participant list \<Rightarrow> node_desc \<Rightarrow> int" where
  "synthetic_rank ps n = the (map_of (synthetic_ranks ps) n)"

definition with_synthetic_infra_ranks :: "(node_desc \<Rightarrow> int) \<Rightarrow> participant list \<Rightarrow> participant list" where
  "with_synthetic_infra_ranks rank ps =
     map (\<lambda>p. (pt_node p, rank (pt_node p), pt_domain p, pt_group p))
       (sort_key (\<lambda>p. rank (pt_node p)) ps)"

definition sort_rankable_participants ::
  "participant list \<Rightarrow> participant list \<Rightarrow> rdzv_error + participant list \<times> participant list" where
  "sort_rankable_participants active standby =
     (let rankable = active @ standby
      in if set (map pt_node active) \<inter> set (map pt_node standby) \<noteq> {} then Inl ActiveAndStandby
         else if list_ex (\<lambda>p. pt_infra p = -1) rankable
         then let rank = synthetic_rank rankable
              in Inr (with_synthetic_infra_ranks rank active, with_synthetic_infra_ranks rank standby)
         else if card (set (map pt_infra rankable)) \<noteq> length rankable then Inl DuplicateInfraRanks
         else Inr (sort_key pt_infra active, sort_key pt_infra standby))"

section \<open>Assignment of group ranks\<close>

text \<open>The slices \<open>xs[:n]\<close> and \<open>xs[n:]\<close>, with a negative bound counted from the end.\<close>

definition slice_to :: "int \<Rightarrow> 'a list \<Rightarrow> 'a list" where
  "slice_to n xs = (if n < 0 then take (length xs - nat (- n)) xs else take (nat n) xs)"

definition slice_from :: "int \<Rightarrow> 'a list \<Rightarrow> 'a list" where
  "slice_from n xs = (if n < 0 then drop (length xs - nat (- n)) xs else drop (nat n) xs)"

type_synonym domain = "string \<times> (node_desc \<times> int) list"

fun group_by_domain :: "participant list \<Rightarrow> domain list \<Rightarrow> rdzv_error + domain list" where
  "group_by_domain [] d = Inr d"
| "group_by_domain (p # ps) d =
     (if pt_domain p = ''none'' then Inl (DomainRequired (nd_addr (pt_node p)))
      else group_by_domain ps (AList.update (pt_domain p)
             ((case map_of d (pt_domain p) of None \<Rightarrow> [] | Some l \<Rightarrow> l) @ [(pt_node p, pt_infra p)]) d))"

definition one_node_domains :: "participant list \<Rightarrow> domain list" where
  "one_node_domains ps =
     fold (\<lambda>p. AList.update (int_text (pt_infra p)) [(pt_node p, pt_infra p)]) ps []"

record rank_walk =
  rw_result :: "(node_desc, int) dict"
  rw_active_rank :: int
  rw_active_segments :: int
  rw_standby_rank :: int

definition assign_active :: "node_desc \<times> int \<Rightarrow> rank_walk \<Rightarrow> rank_walk" where
  "assign_active p w = w\<lparr>rw_result := AList.update (fst p) (rw_active_rank w) (rw_result w),
                         rw_active_rank := rw_active_rank w + 1\<rparr>"

definition assign_standby :: "node_desc \<times> int \<Rightarrow> rank_walk \<Rightarrow> rank_walk" where
  "assign_standby p w = w\<lparr>rw_result := AList.update (fst p) (rw_standby_rank w) (rw_result w),
                          rw_standby_rank := rw_standby_rank w + 1\<rparr>"

definition segments_to_take :: "int \<Rightarrow> int \<Rightarrow> domain \<Rightarrow> rank_walk \<Rightarrow> int" where
  "segments_to_take segment num_segments d w =
     (let domain_segments = int (length (snd d)) div segment
      in if rw_active_segments w < num_segments \<and> domain_segments > 0
         then min domain_segments (num_segments - rw_active_segments w) else 0)"

definition walk_domain :: "int \<Rightarrow> int \<Rightarrow> domain \<Rightarrow> rank_walk \<Rightarrow> rank_walk" where
  "walk_domain segment num_segments d w =
     (let taken = segments_to_take segment num_segments d w;
          nodes_to_take = taken * segment;
          w1 = fold assign_active (slice_to nodes_to_take (snd d)) w;
          w2 = w1\<lparr>rw_active_segments := rw_active_segments w1 + taken\<rparr>
      in fold assign_standby (slice_from nodes_to_take (snd d)) w2)"

definition assign_group_ranks ::
  "int option \<Rightarrow> participant list \<Rightarrow> int \<Rightarrow> participant list \<Rightarrow> rdzv_error + (node_desc, int) dict" where
  "assign_group_ranks segment active world_size standby =
     (let seg = segment_size segment
      in if seg = 0 then Inl DivisionByZero
         else if world_size mod seg \<noteq> 0 then Inl (NotDivisible world_size seg)
         else res_bind (sort_rankable_participants active standby) (\<lambda>(sorted_active, sorted_standby).
              res_bind (if segment \<noteq> None then group_by_domain sorted_active []
                        else Inr (one_node_domains sorted_active)) (\<lambda>domains.
                let sorted_domains = sort_key (\<lambda>d. snd (hd (snd d))) domains;
                    num_segments = world_size div seg;
                    w = fold (walk_domain seg num_segments) sorted_domains
                          \<lparr>rw_result = [], rw_active_rank = 0, rw_active_segments = 0,
                           rw_standby_rank = world_size\<rparr>
                in if rw_active_segments w < num_segments
                   then Inl (InsufficientNodes (rw_active_segments w) num_segments)
                   else Inr (rw_result (fold (\<lambda>p. assign_standby (pt_node p, pt_infra p))
                               sorted_standby w)))))"

section \<open>Membership of the previous round\<close>

text \<open>The loop over the candidates; None when a selected node has no stable rank.\<close>

fun active_membership ::
  "(node_desc, int) dict \<Rightarrow> int \<Rightarrow> participant list \<Rightarrow> (int, string option) dict
    \<Rightarrow> (int, string option) dict option" where
  "active_membership ranks world_size [] m = Some m"
| "active_membership ranks world_size (p # ps) m =
     (case map_of ranks (pt_node p) of
        None \<Rightarrow> active_membership ranks world_size ps m
      | Some r \<Rightarrow>
          if r \<ge> world_size then active_membership ranks world_size ps m
          else if pt_infra p < 0 then None
          else active_membership ranks world_size ps (AList.update (pt_infra p) (pt_group p) m))"

definition remember_previous_active ::
  "participant list \<Rightarrow> (node_desc, int) dict \<Rightarrow> int \<Rightarrow> (int, string option) dict option" where
  "remember_previous_active candidates ranks world_size =
     (case active_membership ranks world_size candidates [] of
        None \<Rightarrow> None
      | Some m \<Rightarrow> if int (length m) \<noteq> world_size then None else Some m)"

section \<open>The last-call gate\<close>

record close_decision =
  cd_should_close :: bool
  cd_missing :: "int list"
  cd_deadline :: "real option"

record last_call_gate =
  lc_previous :: "(int, string option) dict"
  lc_timeout :: real
  lc_enabled :: bool
  lc_deadline :: "real option"

definition last_call_gate_new ::
  "(int, string option) dict option \<Rightarrow> real \<Rightarrow> bool \<Rightarrow> last_call_gate" where
  "last_call_gate_new previous timeout enabled =
     (let prev = (case previous of None \<Rightarrow> [] | Some m \<Rightarrow> m)
      in \<lparr>lc_previous = prev, lc_timeout = timeout,
          lc_enabled = (enabled \<and> prev \<noteq> [] \<and> timeout > 0), lc_deadline = None\<rparr>)"

definition expected_previous :: "last_call_gate \<Rightarrow> string set \<Rightarrow> int set" where
  "expected_previous g unhealthy =
     set (map fst (filter (\<lambda>(i, grp). grp = None \<or> the grp \<notin> unhealthy) (lc_previous g)))"

definition missing_previous :: "last_call_gate \<Rightarrow> participant list \<Rightarrow> string set \<Rightarrow> int list" where
  "missing_previous g ps unhealthy =
     sorted_list_of_set (expected_previous g unhealthy
       - set (filter (\<lambda>i. i \<ge> 0) (map pt_infra ps)))"

definition gate_evaluate ::
  "last_call_gate \<Rightarrow> participant list \<Rightarrow> real \<Rightarrow> string set \<Rightarrow> close_decision \<times> last_call_gate" where
  "gate_evaluate g ps now unhealthy =
     (if \<not> lc_enabled g
      then (\<lparr>cd_should_close = True, cd_missing = [], cd_deadline = None\<rparr>, g)
      else let missing = missing_previous g ps unhealthy
      in if missing = [] then (\<lparr>cd_should_close = True, cd_missing = [], cd_deadline = None\<rparr>, g)
      else let deadline = (case lc_deadline g of None \<Rightarrow> now + lc_timeout g | Some d \<Rightarrow> d);
               g' = g\<lparr>lc_deadline := Some deadline\<rparr>
      in (\<lparr>cd_should_close = (now \<ge> deadline), cd_missing = missing, cd_deadline = Some deadline\<rparr>, g'))"

definition make_last_call_gate ::
  "int \<Rightarrow> (int, string option) dict option \<Rightarrow> real \<Rightarrow> int \<Rightarrow> int \<Rightarrow> last_call_gate" where
  "make_last_call_gate rnd previous timeout min_nodes max_nodes =
     (if \<not> (rnd > 0 \<and> max_nodes > min_nodes \<and> timeout > 0)
      then last_call_gate_new None timeout False
      else last_call_gate_new previous timeout (previous \<noteq> None))"

definition step2_poll_interval :: "int \<Rightarrow> real \<Rightarrow> real" where
  "step2_poll_interval min_nodes check_interval =
     max 1 (min check_interval (max 1 (real_of_int min_nodes / 2000)))"

section \<open>The walk over the domains\<close>

lemma fold_assign_active:
  "distinct (map fst ps) \<Longrightarrow> fst ` set ps \<inter> fst ` set (rw_result w) = {} \<Longrightarrow>
   fold assign_active ps w =
     w\<lparr>rw_result := rw_result w @ zip (map fst ps) [rw_active_rank w..rw_active_rank w + int (length ps) - 1],
       rw_active_rank := rw_active_rank w + int (length ps)\<rparr>"
proof (induction ps arbitrary: w)
  case (Cons p ps)
  have "fold assign_active ps (assign_active p w) = (assign_active p w)
    \<lparr>rw_result := rw_result (assign_active p w) @ zip (map fst ps)
        [rw_active_rank (assign_active p w)..rw_active_rank (assign_active p w) + int (length ps) - 1],
      rw_active_rank := rw_active_rank (assign_active p w) + int (length ps)\<rparr>"
    by (rule Cons.IH) (use Cons.prems in \<open>auto simp: assign_active_def update_new image_iff\<close>)
  moreover have "assign_active p w = w\<lparr>rw_result := rw_result w @ [(fst p, rw_active_rank w)],
      rw_active_rank := rw_active_rank w + 1\<rparr>"
    using Cons.prems by (simp add: assign_active_def update_new)
  ultimately show ?case by (simp add: upto_rec1 [of "rw_active_rank w"] algebra_simps)
qed simp

lemma fold_assign_standby:
  "distinct (map fst ps) \<Longrightarrow> fst ` set ps \<inter> fst ` set (rw_result w) = {} \<Longrightarrow>
   fold assign_standby ps w =
     w\<lparr>rw_result := rw_result w @ zip (map fst ps) [rw_standby_rank w..rw_standby_rank w + int (length ps) - 1],
       rw_standby_rank := rw_standby_rank w + int (length ps)\<rparr>"
proof (induction ps arbitrary: w)
  case (Cons p ps)
  have "fold assign_standby ps (assign_standby p w) = (assign_standby p w)
    \<lparr>rw_result := rw_result (assign_standby p w) @ zip (map fst ps)
        [rw_standby_rank (assign_standby p w)..rw_standby_rank (assign_standby p w) + int (length ps) - 1],
      rw_standby_rank := rw_standby_rank (assign_standby p w) + int (length ps)\<rparr>"
    by (rule Cons.IH) (use Cons.prems in \<open>auto simp: assign_standby_def update_new image_iff\<close>)
  moreover have "assign_standby p w = w\<lparr>rw_result := rw_result w @ [(fst p, rw_standby_rank w)],
      rw_standby_rank := rw_standby_rank w + 1\<rparr>"
    using Cons.prems by (simp add: assign_standby_def update_new)
  ultimately show ?case by (simp add: upto_rec1 [of "rw_standby_rank w"] algebra_simps)
qed simp

lemma segments_to_take_bounds:
  assumes "0 < seg"
  shows "0 \<le> segments_to_take seg ns d w"
    and "segments_to_take seg ns d w * seg \<le> int (length (snd d))"
    and "rw_active_segments w \<le> ns \<Longrightarrow> rw_active_segments w + segments_to_take seg ns d w
      = min ns (rw_active_segments w + int (length (snd d)) div seg)"
proof -
  let ?n = "int (length (snd d))"
  have "?n div seg * seg + ?n mod seg = ?n" "0 \<le> ?n mod seg" using assms by simp_all
  then have "?n div seg * seg \<le> ?n" by linarith
  then have le: "t * seg \<le> ?n" if "t \<le> ?n div seg" for t
    using that assms by (meson mult_right_mono order.trans less_imp_le)
  show "0 \<le> segments_to_take seg ns d w"
    by (simp add: segments_to_take_def Let_def)
  show "segments_to_take seg ns d w * seg \<le> ?n"
    by (auto simp: segments_to_take_def Let_def intro: le)
  have "0 \<le> ?n div seg" using assms by (simp add: pos_imp_zdiv_nonneg_iff)
  then show "rw_active_segments w \<le> ns \<Longrightarrow> rw_active_segments w + segments_to_take seg ns d w
      = min ns (rw_active_segments w + ?n div seg)"
    by (auto simp: segments_to_take_def Let_def min_def)
qed

lemma walk_domain_eq:
  fixes ns
  assumes "0 < seg" and "distinct (map fst (snd d))"
    and "fst ` set (snd d) \<inter> fst ` set (rw_result w) = {}"
  defines "t \<equiv> segments_to_take seg ns d w" and "k \<equiv> nat (segments_to_take seg ns d w * seg)"
  shows "walk_domain seg ns d w =
    w\<lparr>rw_result := rw_result w
        @ zip (map fst (take k (snd d))) [rw_active_rank w..rw_active_rank w + t * seg - 1]
        @ zip (map fst (drop k (snd d)))
            [rw_standby_rank w..rw_standby_rank w + (int (length (snd d)) - t * seg) - 1],
      rw_active_rank := rw_active_rank w + t * seg,
      rw_active_segments := rw_active_segments w + t,
      rw_standby_rank := rw_standby_rank w + (int (length (snd d)) - t * seg)\<rparr>"
proof -
  let ?ps = "snd d"
  note b = segments_to_take_bounds [OF assms(1), where ns = ns and d = d and w = w, folded t_def]
  have pos: "0 \<le> t * seg" using b(1) assms(1) by simp
  have len: "int (length (take k ?ps)) = t * seg" "int (length (drop k ?ps)) = int (length ?ps) - t * seg"
    using b(2) pos by (simp_all add: k_def t_def [symmetric] of_nat_diff nat_le_iff)
  have sl: "slice_to (t * seg) ?ps = take k ?ps" "slice_from (t * seg) ?ps = drop k ?ps"
    using pos by (simp_all add: slice_to_def slice_from_def k_def t_def)
  have tk: "distinct (map fst (take k ?ps))" "distinct (map fst (drop k ?ps))"
    using assms(2) by (simp_all add: take_map [symmetric] drop_map [symmetric])
  have disj: "fst ` set (take k ?ps) \<inter> fst ` set (rw_result w) = {}"
    "fst ` set (drop k ?ps) \<inter> fst ` set (rw_result w) = {}"
    using assms(3) set_take_subset [of k ?ps] set_drop_subset [of k ?ps] by blast+
  have "distinct (map fst (take k ?ps) @ map fst (drop k ?ps))"
    using assms(2) by (simp only: map_append [symmetric] append_take_drop_id)
  then have td: "fst ` set (drop k ?ps) \<inter> fst ` set (take k ?ps) = {}"
    by (simp add: Int_commute)
  have fsts: "fst ` set (zip (map fst (take k ?ps)) ys) \<subseteq> fst ` set (take k ?ps)" for ys :: "int list"
    using set_zip_leftD by fastforce
  have d2: "fst ` set (drop k ?ps) \<inter> fst ` set (zip (map fst (take k ?ps)) ys) = {}" for ys :: "int list"
    using td fsts [of ys] by blast
  let ?w1 = "w\<lparr>rw_result := rw_result w @ zip (map fst (take k ?ps))
      [rw_active_rank w..rw_active_rank w + t * seg - 1], rw_active_rank := rw_active_rank w + t * seg\<rparr>"
  have "fold assign_active (take k ?ps) w = ?w1"
    using fold_assign_active [OF tk(1) disj(1)] len(1) by simp
  moreover have "fold assign_standby (drop k ?ps) (?w1\<lparr>rw_active_segments := rw_active_segments ?w1 + t\<rparr>)
    = ?w1\<lparr>rw_active_segments := rw_active_segments w + t,
        rw_result := rw_result ?w1 @ zip (map fst (drop k ?ps))
            [rw_standby_rank w..rw_standby_rank w + (int (length ?ps) - t * seg) - 1],
        rw_standby_rank := rw_standby_rank w + (int (length ?ps) - t * seg)\<rparr>"
    using fold_assign_standby [OF tk(2), of "?w1\<lparr>rw_active_segments := rw_active_segments ?w1 + t\<rparr>"]
      disj(2) d2 len(2) by (simp add: image_Un Int_Un_distrib)
  ultimately show ?thesis
    by (simp add: walk_domain_def Let_def t_def [symmetric] sl)
qed

text \<open>
  What the walk keeps: it has given out exactly the ranks below the next active rank and those
  from the world size to the next standby rank, each to one node.
\<close>

definition walk_ok :: "int \<Rightarrow> int \<Rightarrow> rank_walk \<Rightarrow> bool" where
  "walk_ok seg ns w \<longleftrightarrow>
     rw_active_rank w = rw_active_segments w * seg \<and> 0 \<le> rw_active_segments w
   \<and> rw_active_segments w \<le> ns \<and> ns * seg \<le> rw_standby_rank w
   \<and> set (map snd (rw_result w)) = {0..<rw_active_rank w} \<union> {ns * seg..<rw_standby_rank w}
   \<and> distinct (map snd (rw_result w)) \<and> distinct (map fst (rw_result w))"

lemma walk_domain_nodes:
  assumes "0 < seg" and "distinct (map fst (snd d))"
    and "fst ` set (snd d) \<inter> fst ` set (rw_result w) = {}"
  shows "map fst (rw_result (walk_domain seg ns d w)) = map fst (rw_result w) @ map fst (snd d)"
proof -
  let ?t = "segments_to_take seg ns d w"
  note b = segments_to_take_bounds [OF assms(1), where ns = ns and d = d and w = w]
  have "0 \<le> ?t * seg" using b(1) assms(1) by simp
  then have "length (take (nat (?t * seg)) (snd d)) = nat (?t * seg)"
    "length (drop (nat (?t * seg)) (snd d)) = nat (int (length (snd d)) - ?t * seg)"
    using b(2) by (simp_all add: nat_diff_distrib nat_le_iff)
  moreover have "map fst (take (nat (?t * seg)) (snd d)) @ map fst (drop (nat (?t * seg)) (snd d))
      = map fst (snd d)"
    by (metis append_take_drop_id map_append)
  ultimately show ?thesis unfolding walk_domain_eq [OF assms] by simp
qed

lemma walk_domain_ok:
  assumes "0 < seg" and "distinct (map fst (snd d))"
    and "fst ` set (snd d) \<inter> fst ` set (rw_result w) = {}" and "walk_ok seg ns w"
  shows "walk_ok seg ns (walk_domain seg ns d w)"
    and "rw_active_segments (walk_domain seg ns d w) =
      min ns (rw_active_segments w + int (length (snd d)) div seg)"
proof -
  let ?t = "segments_to_take seg ns d w" and ?k = "nat (segments_to_take seg ns d w * seg)"
  let ?l = "int (length (snd d))"
  note eq = walk_domain_eq [OF assms(1-3), of ns]
  note w = assms(4) [unfolded walk_ok_def]
  note b = segments_to_take_bounds [OF assms(1), where ns = ns and d = d and w = w]
  show segs: "rw_active_segments (walk_domain seg ns d w) = min ns (rw_active_segments w + ?l div seg)"
    using b(3) w unfolding eq by simp
  have pos: "0 \<le> ?t * seg" using b(1) assms(1) by simp
  have len: "length (take ?k (snd d)) = nat (?t * seg)" "length (drop ?k (snd d)) = nat (?l - ?t * seg)"
    using b(2) pos by (simp_all add: nat_diff_distrib nat_le_iff)
  have up: "rw_active_segments w + ?t \<le> ns"
    using segs unfolding eq by simp
  then have "(rw_active_segments w + ?t) * seg \<le> ns * seg"
    using assms(1) by simp
  then have nonneg: "0 \<le> rw_active_segments w * seg" and below: "rw_active_rank w + ?t * seg \<le> ns * seg"
    using w assms(1) by (simp_all add: algebra_simps)
  have sel: "rw_active_rank (walk_domain seg ns d w) = (rw_active_segments w + ?t) * seg"
    "rw_active_segments (walk_domain seg ns d w) = rw_active_segments w + ?t"
    "rw_standby_rank (walk_domain seg ns d w) = rw_standby_rank w + (?l - ?t * seg)"
    unfolding eq using w by (simp_all add: algebra_simps)
  have "distinct (map fst (rw_result (walk_domain seg ns d w)))"
    unfolding walk_domain_nodes [OF assms(1-3)] using assms(2,3) w by auto
  moreover have vals: "map snd (rw_result (walk_domain seg ns d w)) = map snd (rw_result w)
      @ [rw_active_rank w..rw_active_rank w + ?t * seg - 1]
      @ [rw_standby_rank w..rw_standby_rank w + (?l - ?t * seg) - 1]"
    unfolding eq using len pos b(2) by (simp add: map_snd_zip)
  have "set (map snd (rw_result (walk_domain seg ns d w))) =
      {0..<(rw_active_segments w + ?t) * seg} \<union> {ns * seg..<rw_standby_rank w + (?l - ?t * seg)}"
    unfolding vals distrib_right using w pos b(2) nonneg by auto
  moreover have "distinct (map snd (rw_result (walk_domain seg ns d w)))"
    unfolding vals using w below pos b(2) by auto
  ultimately show "walk_ok seg ns (walk_domain seg ns d w)"
    unfolding walk_ok_def sel using w b(1,2) up by simp
qed

definition domain_nodes :: "domain list \<Rightarrow> node_desc list" where
  "domain_nodes ds = concat (map (\<lambda>d. map fst (snd d)) ds)"

lemma domain_nodes_simps [simp]:
  "domain_nodes [] = []" "domain_nodes (d # ds) = map fst (snd d) @ domain_nodes ds"
  by (simp_all add: domain_nodes_def)

lemma min_min_add: "(0::int) \<le> a \<Longrightarrow> 0 \<le> b \<Longrightarrow> min n (min n (s + a) + b) = min n (s + (a + b))"
  by (auto simp: min_def)

lemma walk_domains_ok:
  assumes "0 < seg" and "distinct (domain_nodes ds)"
    and "set (domain_nodes ds) \<inter> fst ` set (rw_result w) = {}" and "walk_ok seg ns w"
  shows "walk_ok seg ns (fold (walk_domain seg ns) ds w)
    \<and> rw_active_segments (fold (walk_domain seg ns) ds w) =
       min ns (rw_active_segments w + sum_list (map (\<lambda>d. int (length (snd d)) div seg) ds))
    \<and> map fst (rw_result (fold (walk_domain seg ns) ds w)) = map fst (rw_result w) @ domain_nodes ds"
  using assms
proof (induction ds arbitrary: w)
  case Nil
  then show ?case by (simp add: walk_ok_def)
next
  case (Cons d ds)
  let ?w = "walk_domain seg ns d w"
  have d: "distinct (map fst (snd d))" "fst ` set (snd d) \<inter> fst ` set (rw_result w) = {}"
    using Cons.prems(2,3) by auto
  note n = walk_domain_nodes [OF Cons.prems(1) d, of ns]
  have "fst ` set (rw_result ?w) = fst ` set (rw_result w) \<union> fst ` set (snd d)"
    using arg_cong [OF n, of set] by simp
  then have "walk_ok seg ns (fold (walk_domain seg ns) ds ?w)
    \<and> rw_active_segments (fold (walk_domain seg ns) ds ?w) =
       min ns (rw_active_segments ?w + sum_list (map (\<lambda>d. int (length (snd d)) div seg) ds))
    \<and> map fst (rw_result (fold (walk_domain seg ns) ds ?w)) = map fst (rw_result ?w) @ domain_nodes ds"
    using Cons.prems(2,3) walk_domain_ok(1) [OF Cons.prems(1) d Cons.prems(4)]
    by (intro Cons.IH Cons.prems(1)) auto
  moreover have "0 \<le> sum_list (map (\<lambda>d. int (length (snd d)) div seg) ds)"
    using Cons.prems(1) by (intro sum_list_nonneg) (auto simp: pos_imp_zdiv_nonneg_iff)
  ultimately show ?case
    using walk_domain_ok(2) [OF Cons.prems(1) d Cons.prems(4)] n Cons.prems(1)
    by (simp add: min_min_add pos_imp_zdiv_nonneg_iff)
qed

section \<open>Domains\<close>

lemma sum_dict: "dict_ok d \<Longrightarrow>
  sum_list (map (\<lambda>p. h (snd p)) d) = (\<Sum>k \<in> fst ` set d. h (the (map_of d k)) :: int)"
proof (induction d)
  case (Cons p d)
  have p: "fst p \<notin> fst ` set d" "dict_ok d" using Cons.prems by (auto simp: dict_ok_def)
  have "map_of (p # d) k = map_of d k" if "k \<in> fst ` set d" for k
    using that p(1) by (cases "k = fst p") simp_all
  then have "(\<Sum>k \<in> fst ` set d. h (the (map_of (p # d) k))) = (\<Sum>k \<in> fst ` set d. h (the (map_of d k)))"
    by (intro sum.cong) simp_all
  moreover have "map_of (p # d) (fst p) = Some (snd p)" by (cases p) simp
  ultimately show ?case
    using Cons.IH p(2) sum.insert [OF _ p(1), of "\<lambda>k. h (the (map_of (p # d) k))"] by simp
qed simp

definition dict_list :: "('k, 'v list) dict \<Rightarrow> 'k \<Rightarrow> 'v list" where
  "dict_list d k = (case map_of d k of None \<Rightarrow> [] | Some l \<Rightarrow> l)"

definition dict_count :: "('k, int) dict \<Rightarrow> 'k \<Rightarrow> int" where
  "dict_count d k = (case map_of d k of None \<Rightarrow> 0 | Some n \<Rightarrow> n)"

lemma count_domains_spec:
  "dict_ok d \<Longrightarrow> list_all (\<lambda>p. pt_domain p \<noteq> ''none'') ps \<Longrightarrow>
   \<exists>d'. count_domains ps d = Inr d' \<and> dict_ok d'
     \<and> fst ` set d' = fst ` set d \<union> set (map pt_domain ps)
     \<and> (\<forall>x. dict_count d' x = dict_count d x + int (length (filter (\<lambda>p. pt_domain p = x) ps)))"
proof (induction ps arbitrary: d)
  case (Cons p ps)
  let ?d = "AList.update (pt_domain p) (dict_count d (pt_domain p) + 1) d"
  have "\<exists>d'. count_domains ps ?d = Inr d' \<and> dict_ok d'
     \<and> fst ` set d' = fst ` set ?d \<union> set (map pt_domain ps)
     \<and> (\<forall>x. dict_count d' x = dict_count ?d x + int (length (filter (\<lambda>p. pt_domain p = x) ps)))"
    using Cons.prems by (intro Cons.IH) auto
  moreover have "fst ` set ?d = insert (pt_domain p) (fst ` set d)"
    by (rule keys_update)
  moreover have "dict_count ?d x = dict_count d x + (if pt_domain p = x then 1 else 0)" for x
    by (simp add: dict_count_def update_conv)
  ultimately show ?case
    using Cons.prems(2) by (auto simp: dict_count_def)
qed simp

lemma group_by_domain_spec:
  "dict_ok d \<Longrightarrow> list_all (\<lambda>p. pt_domain p \<noteq> ''none'') ps \<Longrightarrow>
   \<exists>d'. group_by_domain ps d = Inr d' \<and> dict_ok d'
     \<and> fst ` set d' = fst ` set d \<union> set (map pt_domain ps)
     \<and> (\<forall>x. dict_list d' x = dict_list d x
          @ map (\<lambda>p. (pt_node p, pt_infra p)) (filter (\<lambda>p. pt_domain p = x) ps))"
proof (induction ps arbitrary: d)
  case (Cons p ps)
  let ?d = "AList.update (pt_domain p) (dict_list d (pt_domain p) @ [(pt_node p, pt_infra p)]) d"
  have "\<exists>d'. group_by_domain ps ?d = Inr d' \<and> dict_ok d'
     \<and> fst ` set d' = fst ` set ?d \<union> set (map pt_domain ps)
     \<and> (\<forall>x. dict_list d' x = dict_list ?d x
          @ map (\<lambda>p. (pt_node p, pt_infra p)) (filter (\<lambda>p. pt_domain p = x) ps))"
    using Cons.prems by (intro Cons.IH) auto
  moreover have "fst ` set ?d = insert (pt_domain p) (fst ` set d)"
    by (rule keys_update)
  moreover have "dict_list ?d x = dict_list d x @ (if pt_domain p = x then [(pt_node p, pt_infra p)] else [])" for x
    by (simp add: dict_list_def update_conv)
  ultimately show ?case
    using Cons.prems(2) by (auto simp: dict_list_def)
qed simp

lemma domain_required:
  "\<not> list_all (\<lambda>p. pt_domain p \<noteq> ''none'') ps \<Longrightarrow> \<exists>a. count_domains ps c = Inl (DomainRequired a)"
  "\<not> list_all (\<lambda>p. pt_domain p \<noteq> ''none'') ps \<Longrightarrow> \<exists>a. group_by_domain ps d = Inl (DomainRequired a)"
  by (induction ps arbitrary: c d) auto

lemma mset_domain_nodes: "mset (domain_nodes ds) = (\<Sum>d \<in># mset ds. mset (map fst (snd d)))"
  by (induction ds) auto

lemma mset_nodes_update:
  "mset (domain_nodes (AList.update x (dict_list e x @ [q]) e)) = add_mset (fst q) (mset (domain_nodes e))"
proof (induction e)
  case (Cons a e)
  show ?case
  proof (cases "fst a = x")
    case True
    then show ?thesis by (cases a) (simp add: dict_list_def)
  next
    case False
    then have "dict_list (a # e) x = dict_list e x" by (cases a) (simp add: dict_list_def)
    then show ?thesis using False Cons.IH by (cases a) simp
  qed
qed (simp add: dict_list_def)

lemma group_by_domain_nodes:
  "group_by_domain ps d = Inr d' \<Longrightarrow> dict_ok d \<Longrightarrow>
   mset (domain_nodes d') = mset (domain_nodes d) + mset (map pt_node ps)"
proof (induction ps arbitrary: d)
  case (Cons p ps)
  let ?d = "AList.update (pt_domain p) (dict_list d (pt_domain p) @ [(pt_node p, pt_infra p)]) d"
  have "mset (domain_nodes ?d) = add_mset (pt_node p) (mset (domain_nodes d))"
    by (simp add: mset_nodes_update)
  moreover have "group_by_domain ps ?d = Inr d'"
    using Cons.prems(1) by (cases "pt_domain p = ''none''") (simp_all add: dict_list_def)
  ultimately show ?case using Cons.IH [of ?d] Cons.prems(2) by simp
qed simp

lemma int_text_inj: "int_text a = int_text b \<Longrightarrow> a = b"
  by (metis py_int_int_text option.inject)

lemma one_node_domains_eq:
  assumes "distinct (map pt_infra ps)"
  shows "one_node_domains ps = map (\<lambda>p. (int_text (pt_infra p), [(pt_node p, pt_infra p)])) ps"
proof -
  have "distinct (map pt_infra ps) \<Longrightarrow> int_text ` set (map pt_infra ps) \<inter> fst ` set d = {} \<Longrightarrow>
    fold (\<lambda>p. AList.update (int_text (pt_infra p)) [(pt_node p, pt_infra p)]) ps d
      = d @ map (\<lambda>p. (int_text (pt_infra p), [(pt_node p, pt_infra p)])) ps" for d :: "domain list"
  proof (induction ps arbitrary: d)
    case (Cons p ps)
    have "int_text (pt_infra p) \<notin> fst ` set d" using Cons.prems(2) by auto
    then show ?case
      using Cons by (simp add: update_new) (subst Cons.IH; force dest: int_text_inj)
  qed simp
  then show ?thesis using assms by (simp add: one_node_domains_def)
qed

end
