(* ===== verification/PyJson.thy ===== *)
theory PyJson
  imports PyText
begin

text \<open>
  The part of Python's \<open>json\<close> module the modelled code calls: \<open>json.dumps\<close> with the default and
  with given separators, and \<open>json.loads\<close>. An object is a dictionary in insertion order, a
  repeated key takes the last value. Text holds code points below 256: a \<open>\\u\<close> escape above that
  is outside the model and reads as an error. A number with a fraction or an exponent keeps its
  literal, as no modelled code computes with one.
\<close>

section \<open>Values\<close>

datatype json =
    JNull
  | JBool bool
  | JInt int
  | JFloat string
  | JStr string
  | JArr "json list"
  | JObj "(string \<times> json) list"

section \<open>Printing\<close>

abbreviation code :: "char \<Rightarrow> nat" where "code c \<equiv> of_char c"

definition hex_digit :: "nat \<Rightarrow> char" where
  "hex_digit n = char_of (if n < 10 then 48 + n else 87 + n)"

definition quote_char :: char where "quote_char = CHR 0x22"
definition backslash :: char where "backslash = CHR 0x5C"

definition escape_char :: "char \<Rightarrow> string" where
  "escape_char c =
     (if c = quote_char then [backslash, quote_char]
      else if c = backslash then [backslash, backslash]
      else if code c = 10 then [backslash, CHR ''n'']
      else if code c = 13 then [backslash, CHR ''r'']
      else if code c = 9 then [backslash, CHR ''t'']
      else if code c = 12 then [backslash, CHR ''f'']
      else if code c = 8 then [backslash, CHR ''b'']
      else if 32 \<le> code c \<and> code c \<le> 126 then [c]
      else [backslash, CHR ''u'', CHR ''0'', CHR ''0'', hex_digit (code c div 16), hex_digit (code c mod 16)])"

definition string_text :: "string \<Rightarrow> string" where
  "string_text s = quote_char # concat (map escape_char s) @ [quote_char]"

fun join :: "string \<Rightarrow> string list \<Rightarrow> string" where
  "join sep [] = []"
| "join sep [w] = w"
| "join sep (w # v # ws) = w @ sep @ join sep (v # ws)"

fun dumps_with :: "string \<Rightarrow> string \<Rightarrow> json \<Rightarrow> string" where
  "dumps_with item key JNull = ''null''"
| "dumps_with item key (JBool b) = (if b then ''true'' else ''false'')"
| "dumps_with item key (JInt i) = int_text i"
| "dumps_with item key (JFloat t) = t"
| "dumps_with item key (JStr s) = string_text s"
| "dumps_with item key (JArr vs) = ''['' @ join item (map (dumps_with item key) vs) @ '']''"
| "dumps_with item key (JObj ms) =
     ''{'' @ join item (map (\<lambda>(k, v). string_text k @ key @ dumps_with item key v) ms) @ ''}''"

abbreviation dumps :: "json \<Rightarrow> string" where "dumps \<equiv> dumps_with '', '' '': ''"

section \<open>Reading\<close>

definition json_space :: "char \<Rightarrow> bool" where
  "json_space c \<longleftrightarrow> code c = 32 \<or> code c = 9 \<or> code c = 10 \<or> code c = 13"

definition skip :: "string \<Rightarrow> string" where "skip s = dropWhile json_space s"

definition hex_value :: "char \<Rightarrow> nat option" where
  "hex_value c =
     (if 48 \<le> code c \<and> code c \<le> 57 then Some (code c - 48)
      else if 97 \<le> code c \<and> code c \<le> 102 then Some (code c - 87)
      else if 65 \<le> code c \<and> code c \<le> 70 then Some (code c - 55)
      else None)"

definition hex4 :: "char \<Rightarrow> char \<Rightarrow> char \<Rightarrow> char \<Rightarrow> nat option" where
  "hex4 a b c d =
     (case (hex_value a, hex_value b, hex_value c, hex_value d) of
        (Some w, Some x, Some y, Some z) \<Rightarrow> Some (((w * 16 + x) * 16 + y) * 16 + z)
      | _ \<Rightarrow> None)"

definition unescape :: "char \<Rightarrow> char option" where
  "unescape c =
     (if c = quote_char then Some quote_char
      else if c = backslash then Some backslash
      else if c = CHR ''/'' then Some (CHR ''/'')
      else if c = CHR ''b'' then Some (char_of (8 :: nat))
      else if c = CHR ''f'' then Some (char_of (12 :: nat))
      else if c = CHR ''n'' then Some (char_of (10 :: nat))
      else if c = CHR ''r'' then Some (char_of (13 :: nat))
      else if c = CHR ''t'' then Some (char_of (9 :: nat))
      else None)"

text \<open>The rest of a string literal, after its opening quote.\<close>

fun read_string :: "string \<Rightarrow> string \<Rightarrow> (string \<times> string) option" where
  "read_string acc [] = None"
| "read_string acc (c # cs) =
     (if c = quote_char then Some (rev acc, cs)
      else if c = backslash then
        (case cs of
           [] \<Rightarrow> None
         | e # es \<Rightarrow>
             if e = CHR ''u'' then
               (case es of
                  h1 # h2 # h3 # h4 # rest \<Rightarrow>
                    (case hex4 h1 h2 h3 h4 of
                       None \<Rightarrow> None
                     | Some n \<Rightarrow> if n < 256 then read_string (char_of n # acc) rest else None)
                | _ \<Rightarrow> None)
             else (case unescape e of None \<Rightarrow> None | Some x \<Rightarrow> read_string (x # acc) es))
      else if code c < 32 then None
      else read_string (c # acc) cs)"

text \<open>The longest prefix that is a JSON number, and whether it has a fraction or an exponent.\<close>

definition digits_of :: "string \<Rightarrow> string \<times> string" where
  "digits_of s = (takeWhile py_isdigit s, dropWhile py_isdigit s)"

definition read_int_part :: "string \<Rightarrow> (string \<times> string) option" where
  "read_int_part s =
     (case digits_of s of
        ([], _) \<Rightarrow> None
      | (d # ds, rest) \<Rightarrow> if d = CHR ''0'' then Some ([d], ds @ rest) else Some (d # ds, rest))"

definition read_fraction :: "string \<Rightarrow> string \<times> string" where
  "read_fraction s =
     (case s of
        [] \<Rightarrow> ([], s)
      | c # cs \<Rightarrow> (if c = CHR ''.'' \<and> fst (digits_of cs) \<noteq> []
                  then (c # fst (digits_of cs), snd (digits_of cs)) else ([], s)))"

definition read_exponent :: "string \<Rightarrow> string \<times> string" where
  "read_exponent s =
     (case s of
        [] \<Rightarrow> ([], s)
      | c # cs \<Rightarrow>
          (let (sign, ds) = (case cs of [] \<Rightarrow> ([], cs)
                | x # xs \<Rightarrow> if x = CHR ''+'' \<or> x = CHR ''-'' then ([x], xs) else ([], cs))
           in if (c = CHR ''e'' \<or> c = CHR ''E'') \<and> fst (digits_of ds) \<noteq> []
              then (c # sign @ fst (digits_of ds), snd (digits_of ds)) else ([], s)))"

definition read_number :: "string \<Rightarrow> (json \<times> string) option" where
  "read_number s =
     (let (sign, body) = (case s of [] \<Rightarrow> ([], s) | c # cs \<Rightarrow> if c = CHR ''-'' then ([c], cs) else ([], s))
      in case read_int_part body of
           None \<Rightarrow> None
         | Some (whole, r1) \<Rightarrow>
             let (frac, r2) = read_fraction r1; (ex, r3) = read_exponent r2
             in if frac = [] \<and> ex = []
                then Some (JInt (the (py_int (sign @ whole))), r3)
                else Some (JFloat (sign @ whole @ frac @ ex), r3))"

definition drop_prefix :: "string \<Rightarrow> string \<Rightarrow> string option" where
  "drop_prefix w s = (if take (length w) s = w then Some (drop (length w) s) else None)"

text \<open>Words the scanner knows: the three constants and the non-finite numbers.\<close>

definition read_word :: "string \<Rightarrow> (json \<times> string) option" where
  "read_word s =
     (case drop_prefix ''null'' s of Some r \<Rightarrow> Some (JNull, r) | None \<Rightarrow>
     (case drop_prefix ''true'' s of Some r \<Rightarrow> Some (JBool True, r) | None \<Rightarrow>
     (case drop_prefix ''false'' s of Some r \<Rightarrow> Some (JBool False, r) | None \<Rightarrow>
     (case read_number s of Some q \<Rightarrow> Some q | None \<Rightarrow>
     (case drop_prefix ''NaN'' s of Some r \<Rightarrow> Some (JFloat ''NaN'', r) | None \<Rightarrow>
     (case drop_prefix ''Infinity'' s of Some r \<Rightarrow> Some (JFloat ''Infinity'', r) | None \<Rightarrow>
     (case drop_prefix ''-Infinity'' s of Some r \<Rightarrow> Some (JFloat ''-Infinity'', r) | None \<Rightarrow> None)))))))"

text \<open>
  One value, the elements of an array after \<open>[\<close> and the members of an object after \<open>{\<close>. Every
  call consumes a character, so the length of the text bounds the depth of the calls.
\<close>

fun read_value :: "nat \<Rightarrow> string \<Rightarrow> (json \<times> string) option"
  and read_elements :: "nat \<Rightarrow> string \<Rightarrow> (json list \<times> string) option"
  and read_members :: "nat \<Rightarrow> string \<Rightarrow> ((string \<times> json) list \<times> string) option" where
  "read_value 0 s = None"
| "read_value (Suc n) s =
     (case s of
        [] \<Rightarrow> None
      | c # cs \<Rightarrow>
          if c = quote_char then map_option (\<lambda>(t, r). (JStr t, r)) (read_string [] cs)
          else if c = CHR ''{'' then
            (case skip cs of
               [] \<Rightarrow> None
             | d # ds \<Rightarrow>
                 if d = CHR ''}'' then Some (JObj [], ds)
                 else map_option (\<lambda>(ms, r). (JObj (fold (\<lambda>(k, v). AList.update k v) ms []), r))
                        (read_members n (d # ds)))
          else if c = CHR ''['' then
            (case skip cs of
               [] \<Rightarrow> None
             | d # ds \<Rightarrow>
                 if d = CHR '']'' then Some (JArr [], ds)
                 else map_option (\<lambda>(vs, r). (JArr vs, r)) (read_elements n (d # ds)))
          else read_word s)"
| "read_elements 0 s = None"
| "read_elements (Suc n) s =
     (case read_value n s of
        None \<Rightarrow> None
      | Some (v, r) \<Rightarrow>
          (case skip r of
             [] \<Rightarrow> None
           | c # cs \<Rightarrow>
               if c = CHR '']'' then Some ([v], cs)
               else if c = CHR '','' then map_option (\<lambda>(vs, r'). (v # vs, r')) (read_elements n (skip cs))
               else None))"
| "read_members 0 s = None"
| "read_members (Suc n) s =
     (case s of
        [] \<Rightarrow> None
      | q # qs \<Rightarrow>
          if q \<noteq> quote_char then None
          else (case read_string [] qs of
            None \<Rightarrow> None
          | Some (k, r) \<Rightarrow>
              (case skip r of
                 [] \<Rightarrow> None
               | col # r1 \<Rightarrow>
                   if col \<noteq> CHR '':'' then None
                   else (case read_value n (skip r1) of
                     None \<Rightarrow> None
                   | Some (v, r2) \<Rightarrow>
                       (case skip r2 of
                          [] \<Rightarrow> None
                        | c # cs \<Rightarrow>
                            if c = CHR ''}'' then Some ([(k, v)], cs)
                            else if c = CHR '','' then
                              map_option (\<lambda>(ms, r'). ((k, v) # ms, r')) (read_members n (skip cs))
                            else None)))))"

definition loads :: "string \<Rightarrow> json option" where
  "loads s =
     (case read_value (Suc (length s)) (skip s) of
        None \<Rightarrow> None
      | Some (v, r) \<Rightarrow> if skip r = [] then Some v else None)"

section \<open>What is printed reads back\<close>

lemma char_code_eq: "code c = n \<Longrightarrow> c = char_of n"
  by (metis char_of_char)

lemma hex_value_digit: "k < 16 \<Longrightarrow> hex_value (hex_digit k) = Some k"
  by (auto simp: hex_value_def hex_digit_def of_char_of)

lemma hex4_byte: "n < 256 \<Longrightarrow> hex4 (CHR ''0'') (CHR ''0'') (hex_digit (n div 16)) (hex_digit (n mod 16)) = Some n"
proof -
  assume "n < 256"
  moreover have "hex_value (CHR ''0'') = Some 0" by (simp add: hex_value_def)
  ultimately show ?thesis
    by (simp add: hex4_def hex_value_digit less_mult_imp_div_less)
qed

lemma read_escaped: "read_string acc (escape_char c @ r) = read_string (c # acc) r"
proof -
  have small: "code c < 256" by (rule nat_of_char_less_256)
  consider "c = quote_char \<or> c = backslash" | "c \<noteq> quote_char" "c \<noteq> backslash" "code c \<in> {8, 9, 10, 12, 13}"
    | "c \<noteq> quote_char" "c \<noteq> backslash" "32 \<le> code c \<and> code c \<le> 126"
    | "c \<noteq> quote_char" "c \<noteq> backslash" "code c \<notin> {8, 9, 10, 12, 13}" "\<not> (32 \<le> code c \<and> code c \<le> 126)"
    by blast
  then show ?thesis
  proof cases
    case 1
    then show ?thesis
      by (auto simp: escape_char_def quote_char_def backslash_def unescape_def)
  next
    case 2
    then show ?thesis
      by (auto simp: escape_char_def quote_char_def backslash_def unescape_def dest!: char_code_eq)
  next
    case 3
    then show ?thesis
      by (auto simp: escape_char_def)
  next
    case 4
    then have "escape_char c = [backslash, CHR ''u'', CHR ''0'', CHR ''0'', hex_digit (code c div 16), hex_digit (code c mod 16)]"
      by (auto simp: escape_char_def)
    moreover have "backslash \<noteq> quote_char" by (simp add: quote_char_def backslash_def)
    ultimately show ?thesis
      using hex4_byte [OF small] small by simp
  qed
qed

lemma read_string_escaped:
  "read_string acc (concat (map escape_char s) @ quote_char # rest) = Some (rev acc @ s, rest)"
  by (induction s arbitrary: acc) (simp_all add: read_escaped)

lemma read_string_text: "string_text s @ rest = quote_char # (concat (map escape_char s) @ quote_char # rest)"
  by (simp add: string_text_def)

text \<open>A number is read up to the first character that cannot continue it.\<close>

definition ends :: "string \<Rightarrow> bool" where
  "ends s \<longleftrightarrow> (case s of [] \<Rightarrow> True
     | c # _ \<Rightarrow> \<not> py_isdigit c \<and> c \<noteq> CHR ''.'' \<and> c \<noteq> CHR ''e'' \<and> c \<noteq> CHR ''E'')"

lemma nat_text_zero: "nat_text n = CHR ''0'' # ds \<Longrightarrow> n = 0 \<and> ds = []"
proof (induction n arbitrary: ds rule: nat_text.induct)
  case (1 n)
  show ?case
  proof (cases "n < 10")
    case True
    then have "[char_of (48 + n)] = CHR ''0'' # ds"
      using 1(2) nat_text.simps [of n] by simp
    then have "code (char_of (48 + n)) = 48" "ds = []" by simp_all
    then show ?thesis using True by simp
  next
    case False
    then have eq: "nat_text n = nat_text (n div 10) @ [char_of (48 + n mod 10)]"
      by (subst nat_text.simps) simp
    obtain c cs where c: "nat_text (n div 10) = c # cs" by (meson nat_text_not_Nil neq_Nil_conv)
    then have "nat_text (n div 10) = CHR ''0'' # cs" using 1(2) eq by simp
    from 1(1) [OF False this] show ?thesis using False by (simp add: div_eq_0_iff)
  qed
qed

lemma digits_of_text:
  assumes "ends rest"
  shows "digits_of (nat_text n @ rest) = (nat_text n, rest)"
proof -
  have "\<forall>c \<in> set (nat_text n). py_isdigit c" using nat_text_digits by (simp add: list_all_iff)
  moreover have "takeWhile py_isdigit rest = []" "dropWhile py_isdigit rest = rest"
    using assms by (cases rest; simp add: ends_def)+
  ultimately show ?thesis by (simp add: digits_of_def takeWhile_append dropWhile_append)
qed

lemma read_int_part_text: "ends rest \<Longrightarrow> read_int_part (nat_text n @ rest) = Some (nat_text n, rest)"
proof -
  assume "ends rest"
  obtain c cs where c: "nat_text n = c # cs" by (meson nat_text_not_Nil neq_Nil_conv)
  then show ?thesis
    using nat_text_zero [of n cs] digits_of_text [OF \<open>ends rest\<close>, of n]
    by (auto simp: read_int_part_def)
qed

lemma no_fraction: "ends r \<Longrightarrow> read_fraction r = ([], r) \<and> read_exponent r = ([], r)"
  by (cases r) (auto simp: ends_def read_fraction_def read_exponent_def split: prod.split)

lemma nat_text_head: "\<exists>c cs. nat_text n = c # cs \<and> py_isdigit c"
  using nat_text_digits [of n] nat_text_not_Nil [of n] by (cases "nat_text n") auto

lemma read_number_text:
  assumes "ends rest"
  shows "read_number (int_text i @ rest) = Some (JInt i, rest)"
proof -
  note parts = read_int_part_text [OF assms] no_fraction [OF assms]
  have "py_int (int_text i) = Some i" by (rule py_int_int_text)
  moreover obtain c cs where "nat_text (nat i) = c # cs" "py_isdigit c" using nat_text_head by blast
  moreover from this have "c \<noteq> CHR ''-''" by (auto simp: py_isdigit_def)
  ultimately show ?thesis
    using parts(1) [of "nat i"] parts(1) [of "nat (- i)"] parts(2)
    by (auto simp: read_number_def int_text_def)
qed

lemma drop_prefix_other: "w \<noteq> [] \<Longrightarrow> s \<noteq> [] \<Longrightarrow> hd s \<noteq> hd w \<Longrightarrow> drop_prefix w s = None"
  by (cases w; cases s) (auto simp: drop_prefix_def)

lemma int_text_head: "\<exists>c cs. int_text i = c # cs \<and> (c = CHR ''-'' \<or> py_isdigit c)"
  using nat_text_head [of "nat i"] by (auto simp: int_text_def)

lemma read_word_int: "ends rest \<Longrightarrow> read_word (int_text i @ rest) = Some (JInt i, rest)"
proof -
  assume e: "ends rest"
  obtain c cs where c: "int_text i = c # cs" "c = CHR ''-'' \<or> py_isdigit c" using int_text_head by blast
  then have "c \<noteq> CHR ''n''" "c \<noteq> CHR ''t''" "c \<noteq> CHR ''f''" by (auto simp: py_isdigit_def)
  then show ?thesis
    using read_number_text [OF e, of i] c(1) by (simp add: read_word_def drop_prefix_other)
qed

text \<open>The values the round trip covers: no fractions, no key twice in an object.\<close>

fun plain_json :: "json \<Rightarrow> bool" where
  "plain_json (JFloat t) = False"
| "plain_json (JArr vs) = list_all plain_json vs"
| "plain_json (JObj ms) = (distinct (map fst ms) \<and> list_all (\<lambda>(k, v). plain_json v) ms)"
| "plain_json v = True"

definition separator :: "char \<Rightarrow> string \<Rightarrow> bool" where
  "separator c s \<longleftrightarrow> s \<noteq> [] \<and> hd s = c \<and> list_all json_space (tl s)"

lemma skip_separator: "separator c s \<Longrightarrow> \<not> json_space c \<Longrightarrow> skip (s @ r) = c # tl s @ r"
  by (cases s) (auto simp: separator_def skip_def)

lemma skip_after_separator: "separator c s \<Longrightarrow> skip (tl s @ r) = skip r"
  by (cases s) (auto simp: separator_def skip_def list_all_iff dropWhile_append)

lemma skip_start: "s \<noteq> [] \<Longrightarrow> \<not> json_space (hd s) \<Longrightarrow> skip (s @ r) = s @ r"
  by (cases s) (simp_all add: skip_def)

lemma dumps_start:
  "plain_json v \<Longrightarrow> \<exists>c cs. dumps_with item key v = c # cs \<and> \<not> json_space c \<and> c \<noteq> CHR '']'' \<and> c \<noteq> CHR ''}''"
proof (cases v)
  case (JInt i)
  then show ?thesis
    using int_text_head [of i] by (auto simp: py_isdigit_def json_space_def)
qed (auto simp: json_space_def string_text_def quote_char_def)

lemma skip_dumps: "plain_json v \<Longrightarrow> skip (dumps_with item key v @ r) = dumps_with item key v @ r"
  using dumps_start [of v item key] by (intro skip_start) auto

lemma skip_char: "\<not> json_space c \<Longrightarrow> skip (c # r) = c # r"
  by (simp add: skip_def)

lemma ends_separator: "separator c s \<Longrightarrow> \<not> py_isdigit c \<Longrightarrow> c \<notin> set ''.eE'' \<Longrightarrow> ends (s @ r)"
  by (cases s) (auto simp: separator_def ends_def)

lemma join_Cons: "vs \<noteq> [] \<Longrightarrow> join sep (w # vs) = w @ sep @ join sep vs"
  by (cases vs) simp_all

lemma fold_update_members:
  "distinct (map fst ms) \<Longrightarrow> fst ` set ms \<inter> fst ` set d = {} \<Longrightarrow>
   fold (\<lambda>(k, v). AList.update k v) ms d = d @ ms"
proof (induction ms arbitrary: d)
  case (Cons p ms)
  then have "fst p \<notin> fst ` set d" "fst ` set ms \<inter> fst ` set (d @ [p]) = {}" by auto
  then show ?case
    using Cons.IH [of "d @ [p]"] Cons.prems(1) by (simp add: update_new case_prod_unfold)
qed simp

lemma read_elements_text:
  assumes "separator (CHR '','') item"
    and "\<And>v n r. v \<in> set vs \<Longrightarrow> length (dumps_with item key v) \<le> n \<Longrightarrow> ends r \<Longrightarrow>
       read_value n (dumps_with item key v @ r) = Some (v, r)"
    and "list_all plain_json vs" and "vs \<noteq> []"
    and "length (join item (map (dumps_with item key) vs)) < n"
  shows "read_elements n (join item (map (dumps_with item key) vs) @ CHR '']'' # r) = Some (vs, r)"
  using assms(2-5)
proof (induction vs arbitrary: n)
  case (Cons v vs)
  obtain m where n: "n = Suc m" using Cons.prems(4) by (cases n) simp_all
  have close: "skip (CHR '']'' # r) = CHR '']'' # r" "ends (CHR '']'' # r)"
    by (simp_all add: skip_def json_space_def ends_def py_isdigit_def)
  show ?case
  proof (cases "vs = []")
    case True
    then show ?thesis using Cons.prems(1) [of v m "CHR '']'' # r"] Cons.prems(4) close n by simp
  next
    case False
    let ?rest = "join item (map (dumps_with item key) vs) @ CHR '']'' # r"
    have "0 < length item" "0 < length (dumps_with item key v)"
      using assms(1) dumps_start [of v item key] Cons.prems(2) by (auto simp: separator_def)
    moreover have "length (dumps_with item key v) + (length item
        + length (join item (map (dumps_with item key) vs))) < Suc m"
      using Cons.prems(4) False n by (simp add: join_Cons)
    ultimately have len: "length (dumps_with item key v) \<le> m"
      "length (join item (map (dumps_with item key) vs)) < m" by linarith+
    obtain w ws where w: "vs = w # ws" using False by (cases vs) simp_all
    have "skip ?rest = ?rest"
      using Cons.prems(2) w skip_dumps [of w item key] by (cases ws) simp_all
    moreover have "skip (item @ ?rest) = CHR '','' # tl item @ ?rest"
      by (rule skip_separator [OF assms(1)]) (simp add: json_space_def)
    moreover have "ends (item @ ?rest)"
      by (rule ends_separator [OF assms(1)]) (simp_all add: py_isdigit_def)
    moreover have "read_elements m ?rest = Some (vs, r)"
      using Cons.IH [of m] Cons.prems(1,2) False len(2) by simp
    ultimately show ?thesis
      using Cons.prems(1) [of v m "item @ ?rest"] len(1) False n skip_after_separator [OF assms(1)]
      by (simp add: join_Cons)
  qed
qed simp

abbreviation member_text :: "string \<Rightarrow> string \<Rightarrow> string \<times> json \<Rightarrow> string" where
  "member_text item key \<equiv> \<lambda>(k, v). string_text k @ key @ dumps_with item key v"

lemma string_text_length: "2 \<le> length (string_text k)"
  by (simp add: string_text_def)

lemma read_member:
  assumes "separator (CHR '':'') key" and "plain_json v"
    and "read_value n (dumps_with item key v @ r) = Some (v, r)"
  shows "read_members (Suc n) (member_text item key (k, v) @ r) =
    (case skip r of
       [] \<Rightarrow> None
     | c # cs \<Rightarrow> if c = CHR ''}'' then Some ([(k, v)], cs)
                 else if c = CHR '','' then map_option (\<lambda>(ms, r'). ((k, v) # ms, r')) (read_members n (skip cs))
                 else None)"
proof -
  have "skip (key @ dumps_with item key v @ r) = CHR '':'' # tl key @ dumps_with item key v @ r"
    by (rule skip_separator [OF assms(1)]) (simp add: json_space_def)
  then show ?thesis
    using assms(3) skip_after_separator [OF assms(1)] skip_dumps [OF assms(2)]
    by (simp add: string_text_def read_string_escaped)
qed

lemma read_members_text:
  assumes "separator (CHR '','') item" and "separator (CHR '':'') key"
    and "\<And>v n r. v \<in> snd ` set ms \<Longrightarrow> length (dumps_with item key v) \<le> n \<Longrightarrow> ends r \<Longrightarrow>
       read_value n (dumps_with item key v @ r) = Some (v, r)"
    and "list_all (\<lambda>(k, v). plain_json v) ms" and "ms \<noteq> []"
    and "length (join item (map (member_text item key) ms)) < n"
  shows "read_members n (join item (map (member_text item key) ms) @ CHR ''}'' # r) = Some (ms, r)"
  using assms(3-6)
proof (induction ms arbitrary: n)
  case (Cons p ms)
  obtain k v where p: "p = (k, v)" by fastforce
  obtain m where n: "n = Suc m" using Cons.prems(4) by (cases n) simp_all
  have close: "skip (CHR ''}'' # r) = CHR ''}'' # r" "ends (CHR ''}'' # r)"
    by (simp_all add: skip_def json_space_def ends_def py_isdigit_def)
  have v: "plain_json v" using Cons.prems(2) p by simp
  have IH: "length (dumps_with item key v) \<le> m \<Longrightarrow> ends t \<Longrightarrow>
      read_value m (dumps_with item key v @ t) = Some (v, t)" for t
    using Cons.prems(1) [of v m t] p by simp
  show ?case
  proof (cases "ms = []")
    case True
    then have "length (dumps_with item key v) \<le> m" using Cons.prems(4) p n by simp
    then show ?thesis
      using read_member [OF assms(2) v IH [OF _ close(2)], of k] close(1) True p n by simp
  next
    case False
    let ?rest = "join item (map (member_text item key) ms) @ CHR ''}'' # r"
    have "length (string_text k) + (length key + (length (dumps_with item key v) + (length item
        + length (join item (map (member_text item key) ms))))) < Suc m"
      using Cons.prems(4) False p n by (simp add: join_Cons)
    then have len: "length (dumps_with item key v) \<le> m"
      "length (join item (map (member_text item key) ms)) < m"
      using string_text_length [of k] by linarith+
    obtain j w ws where w: "ms = (j, w) # ws" using False by (cases ms) auto
    have "skip ?rest = ?rest"
      using w by (cases ws) (simp_all add: skip_def string_text_def json_space_def quote_char_def)
    moreover have "skip (item @ ?rest) = CHR '','' # tl item @ ?rest"
      by (rule skip_separator [OF assms(1)]) (simp add: json_space_def)
    moreover have "ends (item @ ?rest)"
      by (rule ends_separator [OF assms(1)]) (simp_all add: py_isdigit_def)
    moreover have "read_members m ?rest = Some (ms, r)"
      using Cons.prems(2) False len(2) p by (intro Cons.IH Cons.prems(1)) auto
    ultimately show ?thesis
      using read_member [OF assms(2) v IH [OF len(1)], of "item @ ?rest" k] False p n
        skip_after_separator [OF assms(1)]
      by (simp add: join_Cons)
  qed
qed simp

lemma read_value_text:
  assumes "separator (CHR '','') item" and "separator (CHR '':'') key"
  shows "plain_json v \<Longrightarrow> length (dumps_with item key v) \<le> n \<Longrightarrow> ends r \<Longrightarrow>
    read_value n (dumps_with item key v @ r) = Some (v, r)"
proof (induction v arbitrary: n r)
  case JNull
  then show ?case by (cases n) (simp_all add: read_word_def drop_prefix_def quote_char_def)
next
  case (JBool b)
  then show ?case by (cases n; cases b) (simp_all add: read_word_def drop_prefix_def quote_char_def)
next
  case (JInt i)
  obtain c cs where c: "int_text i = c # cs" "c = CHR ''-'' \<or> py_isdigit c" using int_text_head by blast
  then have "c \<noteq> quote_char" "c \<noteq> CHR ''{''" "c \<noteq> CHR ''[''"
    by (auto simp: py_isdigit_def quote_char_def)
  then show ?case
    using JInt c read_word_int [of r i] by (cases n) auto
next
  case (JStr s)
  then show ?case by (cases n) (simp_all add: string_text_def read_string_escaped)
next
  case (JArr vs)
  obtain m where n: "n = Suc m" using JArr.prems(2) by (cases n) simp_all
  show ?case
  proof (cases "vs = []")
    case False
    then obtain w ws where w: "vs = w # ws" by (cases vs) simp_all
    let ?t = "join item (map (dumps_with item key) vs)"
    have "plain_json w" using JArr.prems(1) w by simp
    from dumps_start [OF this, of item key] obtain c cs where c: "?t = c # cs"
      "\<not> json_space c" "c \<noteq> CHR '']''" using w by (cases ws) auto
    have "read_elements m (?t @ CHR '']'' # r) = Some (vs, r)"
      using JArr n False by (intro read_elements_text [OF assms(1)]) (auto simp: list_all_iff)
    then show ?thesis using c n by (simp add: skip_char quote_char_def)
  qed (simp add: n quote_char_def skip_def json_space_def)
next
  case (JObj ms)
  obtain m where n: "n = Suc m" using JObj.prems(2) by (cases n) simp_all
  show ?case
  proof (cases "ms = []")
    case False
    then obtain k w ws where w: "ms = (k, w) # ws" by (cases ms) auto
    let ?t = "join item (map (member_text item key) ms)"
    obtain cs where c: "?t = quote_char # cs"
      using w by (cases ws) (auto simp: string_text_def)
    have "read_value j (dumps_with item key v @ s) = Some (v, s)"
      if v: "v \<in> snd ` set ms" and len: "length (dumps_with item key v) \<le> j" and e: "ends s" for v j s
    proof -
      obtain i where i: "(i, v) \<in> set ms" using v by force
      show ?thesis using JObj.IH [OF i, of v] JObj.prems(1) i len e by (auto simp: list_all_iff snds.simps)
    qed
    then have "read_members m (?t @ CHR ''}'' # r) = Some (ms, r)"
      using JObj.prems n False by (intro read_members_text [OF assms]) auto
    moreover have "fold (\<lambda>(k, v). AList.update k v) ms [] = ms"
      using JObj.prems(1) by (simp add: fold_update_members)
    ultimately show ?thesis using c n by (simp add: skip_char quote_char_def json_space_def)
  qed (simp add: n quote_char_def skip_def json_space_def)
qed simp

lemma loads_dumps:
  assumes "separator (CHR '','') item" and "separator (CHR '':'') key" and "plain_json v"
  shows "loads (dumps_with item key v) = Some v"
  using read_value_text [OF assms, of "Suc (length (dumps_with item key v))" "[]"]
    skip_dumps [OF assms(3), of item key "[]"]
  by (simp add: loads_def ends_def skip_def)

lemma default_separators [simp]:
  "separator (CHR '','') '', ''" "separator (CHR '':'') '': ''" "separator (CHR '','') '',''" "separator (CHR '':'') '':''"
  by (simp_all add: separator_def json_space_def)

declare dumps_with.simps [simp del]

end
