(* ===== verification/RdzvStore.thy ===== *)
theory RdzvStore
  imports RdzvRanks PyJson
begin

text \<open>
  What the barrier rendezvous keeps in the store
  (\<open>fault_tolerance/ft_rendezvous_barrier.py\<close>): the packed values, the keys, and the single
  operations on them. The store, PyTorch's TCPStore, is not part of the repository: its operations
  are a parameter, and what the code relies on is \<open>store_laws\<close>. Several clients use one store at
  the same time, so an operation of more than one call takes \<open>env\<close>, what the other clients do to
  the store before its i-th call. Stored bytes are ASCII text.
\<close>

section \<open>Packed values\<close>

text \<open>\<open>int(x)\<close> and \<open>str(x)\<close> of a value read from JSON. A fraction is cut off exactly.\<close>

definition signed_text :: "string \<Rightarrow> int" where
  "signed_text s = (case py_int s of None \<Rightarrow> 0 | Some i \<Rightarrow> i)"

definition trunc_literal :: "string \<Rightarrow> int option" where
  "trunc_literal t =
     (if t \<in> {''NaN'', ''Infinity'', ''-Infinity''} then None
      else let neg = (hd t = CHR ''-'');
               body = (if neg then tl t else t);
               whole = fst (digits_of body);
               (frac, r) = read_fraction (snd (digits_of body));
               (ex, _) = read_exponent r;
               e = (if ex = [] then 0 else signed_text (tl ex)) - int (length (tl frac));
               m = signed_text (whole @ tl frac);
               n = (if 0 \<le> e then m * 10 ^ nat e else m div 10 ^ nat (- e))
           in Some (if neg then - n else n))"

fun int_of_json :: "json \<Rightarrow> int option" where
  "int_of_json (JInt i) = Some i"
| "int_of_json (JBool b) = Some (if b then 1 else 0)"
| "int_of_json (JFloat t) = trunc_literal t"
| "int_of_json (JStr s) = py_int s"
| "int_of_json v = None"

text \<open>\<open>str\<close> of a list or an object is not modelled: nothing stores one where text is read.\<close>

fun str_of_json :: "json \<Rightarrow> string option" where
  "str_of_json JNull = Some ''None''"
| "str_of_json (JBool b) = Some (if b then ''True'' else ''False'')"
| "str_of_json (JInt i) = Some (int_text i)"
| "str_of_json (JFloat t) = Some t"
| "str_of_json (JStr s) = Some s"
| "str_of_json v = None"

fun str_of_jsons :: "json list \<Rightarrow> string list option" where
  "str_of_jsons [] = Some []"
| "str_of_jsons (v # vs) =
     (case (str_of_json v, str_of_jsons vs) of (Some s, Some ss) \<Rightarrow> Some (s # ss) | _ \<Rightarrow> None)"

definition field :: "string \<Rightarrow> json \<Rightarrow> json option" where
  "field k v = (case v of JObj ms \<Rightarrow> map_of ms k | _ \<Rightarrow> None)"

definition store_value_pack :: "int \<Rightarrow> json \<Rightarrow> string" where
  "store_value_pack round_id payload = dumps (JObj [(''round'', JInt round_id), (''payload'', payload)])"

definition store_value_unpack :: "string \<Rightarrow> (int \<times> json) option" where
  "store_value_unpack data =
     (case loads data of
        None \<Rightarrow> None
      | Some v \<Rightarrow>
          (case (field ''round'' v, field ''payload'' v) of
             (Some r, Some p) \<Rightarrow>
               (case (int_of_json r, p) of (Some i, JObj ms) \<Rightarrow> Some (i, p) | _ \<Rightarrow> None)
           | _ \<Rightarrow> None))"

definition store_value_round :: "string \<Rightarrow> int" where
  "store_value_round data = (case store_value_unpack data of None \<Rightarrow> -1 | Some (r, _) \<Rightarrow> r)"

definition rank_payload :: "int \<Rightarrow> int \<Rightarrow> json" where
  "rank_payload rank participants = JObj [(''rank'', JInt rank), (''total'', JInt participants)]"

definition pack_rank_value :: "int \<Rightarrow> int \<Rightarrow> int \<Rightarrow> string" where
  "pack_rank_value rank participants round_id = store_value_pack round_id (rank_payload rank participants)"

definition unpack_rank_value :: "string \<Rightarrow> (int \<times> int \<times> int) option" where
  "unpack_rank_value data =
     (case store_value_unpack data of
        None \<Rightarrow> None
      | Some (round_id, p) \<Rightarrow>
          (case (Option.bind (field ''rank'' p) int_of_json, Option.bind (field ''total'' p) int_of_json) of
             (Some r, Some t) \<Rightarrow> Some (r, t, round_id)
           | _ \<Rightarrow> None))"

definition participant_payload :: "participant \<Rightarrow> json" where
  "participant_payload p = JObj
     [(''addr'', JStr (nd_addr (pt_node p))), (''pid'', JInt (nd_pid (pt_node p))),
      (''local_id'', JInt (nd_local_id (pt_node p))), (''infra_rank'', JInt (pt_infra p)),
      (''domain_id'', JStr (pt_domain p)),
      (''replacement_group_id'', case pt_group p of None \<Rightarrow> JNull | Some g \<Rightarrow> JStr g)]"

text \<open>
  Reading a participant. Python checks only that the fields are there; the model reads a field of
  another type than the one written as an error.
\<close>

definition participant_from_payload :: "json \<Rightarrow> participant option" where
  "participant_from_payload v =
     (case (field ''addr'' v, field ''pid'' v, field ''local_id'' v, field ''infra_rank'' v,
            field ''domain_id'' v, field ''replacement_group_id'' v) of
        (Some (JStr a), Some (JInt p), Some (JInt l), Some (JInt i), Some (JStr d), Some g) \<Rightarrow>
          (case g of
             JNull \<Rightarrow> Some (NodeDesc a p l, i, d, None)
           | _ \<Rightarrow> map_option (\<lambda>t. (NodeDesc a p l, i, d, Some t)) (str_of_json g))
      | _ \<Rightarrow> None)"

definition pack_participant_value :: "participant \<Rightarrow> int \<Rightarrow> string" where
  "pack_participant_value p round_id = store_value_pack round_id (participant_payload p)"

definition unpack_participant_value :: "string \<Rightarrow> (int \<times> participant) option" where
  "unpack_participant_value data =
     (case store_value_unpack data of
        None \<Rightarrow> None
      | Some (round_id, v) \<Rightarrow> map_option (\<lambda>p. (round_id, p)) (participant_from_payload v))"

definition pack_unhealthy_groups :: "string set \<Rightarrow> string" where
  "pack_unhealthy_groups gs =
     dumps_with '','' '':'' (JObj [(''groups'', JArr (map JStr (sorted_list_of_set gs)))])"

definition unpack_unhealthy_groups :: "string \<Rightarrow> string set option" where
  "unpack_unhealthy_groups data =
     (if data = [] then Some {}
      else case loads data of
             Some (JObj ms) \<Rightarrow>
               (case map_of ms ''groups'' of
                  None \<Rightarrow> Some {}
                | Some (JArr vs) \<Rightarrow> map_option set (str_of_jsons vs)
                | Some _ \<Rightarrow> None)
           | _ \<Rightarrow> None)"

section \<open>The store\<close>

record 's tcp_store =
  st_check :: "string list \<Rightarrow> 's \<Rightarrow> bool"
  st_get :: "string \<Rightarrow> 's \<Rightarrow> string option"
  st_set :: "string \<Rightarrow> string \<Rightarrow> 's \<Rightarrow> 's"
  st_add :: "string \<Rightarrow> int \<Rightarrow> 's \<Rightarrow> int \<times> 's"
  st_compare_set :: "string \<Rightarrow> string \<Rightarrow> string \<Rightarrow> 's \<Rightarrow> string \<times> 's"
  st_multi_get :: "string list \<Rightarrow> 's \<Rightarrow> string list option"
  st_multi_set :: "string list \<Rightarrow> string list \<Rightarrow> 's \<Rightarrow> 's"

text \<open>
  The documented behaviour the code relies on, over the contents \<open>view\<close> of a store: \<open>check\<close> asks
  for all keys, \<open>get\<close> of an absent key does not return (None), \<open>compare_set\<close> writes when the
  expected value is there, or when nothing is there and the expected value is empty, and answers
  with the value the key has then (the expected one, when it wrote nothing into an absent key).
\<close>

definition count_text :: "string option \<Rightarrow> int" where
  "count_text v = (case v of None \<Rightarrow> 0 | Some t \<Rightarrow> signed_text t)"

definition store_laws :: "('s, 'm) tcp_store_scheme \<Rightarrow> ('s \<Rightarrow> string \<Rightarrow> string option) \<Rightarrow> bool" where
  "store_laws st view \<longleftrightarrow>
     (\<forall>ks s. st_check st ks s = (\<forall>k \<in> set ks. view s k \<noteq> None))
   \<and> (\<forall>k s. st_get st k s = view s k)
   \<and> (\<forall>k v s. view (st_set st k v s) = (view s)(k \<mapsto> v))
   \<and> (\<forall>k n s. fst (st_add st k n s) = count_text (view s k) + n
        \<and> view (snd (st_add st k n s)) = (view s)(k \<mapsto> int_text (count_text (view s k) + n)))
   \<and> (\<forall>k e d s. (fst (st_compare_set st k e d s), view (snd (st_compare_set st k e d s))) =
        (case view s k of
           None \<Rightarrow> if e = [] then (d, (view s)(k \<mapsto> d)) else (e, view s)
         | Some v \<Rightarrow> if v = e then (d, (view s)(k \<mapsto> d)) else (v, view s)))
   \<and> (\<forall>ks s. st_multi_get st ks s =
        (if \<forall>k \<in> set ks. view s k \<noteq> None then Some (map (\<lambda>k. the (view s k)) ks) else None))
   \<and> (\<forall>ks vs s. view (st_multi_set st ks vs s) = fold (\<lambda>(k, v) m. m(k \<mapsto> v)) (zip ks vs) (view s))"

section \<open>Keys\<close>

definition join_count_key :: "string \<Rightarrow> int \<Rightarrow> string" where
  "join_count_key prefix n = prefix @ '':join_count_'' @ int_text n"

definition round_done_key :: "string \<Rightarrow> int \<Rightarrow> string" where
  "round_done_key prefix n = prefix @ '':round_done_'' @ int_text n"

definition unhealthy_groups_key :: "string \<Rightarrow> int \<Rightarrow> string" where
  "unhealthy_groups_key prefix n = prefix @ '':unhealthy_replacement_groups_'' @ int_text n"

definition shutdown_key :: "string \<Rightarrow> string" where
  "shutdown_key prefix = prefix @ '':shutdown''"

definition unhealthy_count_key :: "string \<Rightarrow> string" where
  "unhealthy_count_key prefix = prefix @ '':unhealthy_count''"

definition slot_key :: "string \<Rightarrow> int \<Rightarrow> string" where
  "slot_key prefix i = prefix @ '':slot_'' @ int_text i"

definition rank_key :: "string \<Rightarrow> int \<Rightarrow> string" where
  "rank_key prefix i = prefix @ '':slot_'' @ int_text i @ ''_rank''"

section \<open>Single operations\<close>

datatype store_error =
    Blocked string
  | BadValue
  | NotFenced
  | StaleRound int int string
  | SameRoundConflict string int
  | CasConflict string int int
  | BadStartIndex int

text \<open>Writing a reused key, which must not undo a newer round.\<close>

definition fenced_write ::
  "('s, 'm) tcp_store_scheme \<Rightarrow> string \<Rightarrow> string \<Rightarrow> string \<Rightarrow> 's \<Rightarrow> (store_error + unit) \<times> 's" where
  "fenced_write st key expected desired s =
     (let (result, s') = st_compare_set st key expected desired s
      in (if result = desired then Inr ()
          else if store_value_round result > store_value_round desired
          then Inl (StaleRound (store_value_round result) (store_value_round desired) key)
          else Inl (CasConflict key (store_value_round desired) (store_value_round result)), s'))"

definition round_fenced_compare_set ::
  "('s, 'm) tcp_store_scheme \<Rightarrow> (nat \<Rightarrow> 's \<Rightarrow> 's) \<Rightarrow> string \<Rightarrow> string \<Rightarrow> 's \<Rightarrow> (store_error + unit) \<times> 's" where
  "round_fenced_compare_set st env key desired s =
     (let round = store_value_round desired
      in if round < 0 then (Inl NotFenced, s)
         else let s1 = env 0 s
         in if st_check st [key] s1 then
              (let s2 = env 1 s1
               in case st_get st key s2 of
                    None \<Rightarrow> (Inl (Blocked key), s2)
                  | Some expected \<Rightarrow>
                      if store_value_round expected > round
                      then (Inl (StaleRound (store_value_round expected) round key), s2)
                      else if store_value_round expected = round \<and> expected \<noteq> desired
                      then (Inl (SameRoundConflict key round), s2)
                      else fenced_write st key expected desired (env 2 s2))
            else fenced_write st key [] desired (env 2 s1))"

text \<open>
  Adding a group to the set of unhealthy ones: retry with the value the store answered until the
  write goes through. The loop may run as long as others write; n counts the store calls.
\<close>

definition groups_attempt ::
  "('s, 'm) tcp_store_scheme \<Rightarrow> (nat \<Rightarrow> 's \<Rightarrow> 's) \<Rightarrow> nat \<Rightarrow> string \<Rightarrow> string \<Rightarrow> string \<Rightarrow> string set \<Rightarrow> 's
    \<Rightarrow> string option \<times> 's" where
  "groups_attempt st env n key gid expected groups s =
     (let desired = pack_unhealthy_groups (groups \<union> {gid});
          (result, s') = st_compare_set st key expected desired (env n s)
      in (if result = desired then None else Some result, s'))"

partial_function (option) mark_unhealthy_loop ::
  "('s, 'm) tcp_store_scheme \<Rightarrow> (nat \<Rightarrow> 's \<Rightarrow> 's) \<Rightarrow> nat \<Rightarrow> string \<Rightarrow> string \<Rightarrow> string \<Rightarrow> 's
    \<Rightarrow> ((store_error + unit) \<times> 's) option" where
  "mark_unhealthy_loop st env n key gid expected s =
     (let s1 = (if expected = [] then env n s else s);
          present = expected = [] \<and> st_check st [key] s1;
          s2 = (if present then env (n + 1) s1 else s1);
          read = (if expected \<noteq> [] then Some expected else if present then st_get st key s2 else Some [])
      in case read of
           None \<Rightarrow> Some (Inl (Blocked key), s2)
         | Some value \<Rightarrow>
             (case unpack_unhealthy_groups value of
                None \<Rightarrow> Some (Inl BadValue, s2)
              | Some groups \<Rightarrow>
                  if gid \<in> groups then Some (Inr (), s2)
                  else (case groups_attempt st env (n + 2) key gid value groups s2 of
                          (None, s3) \<Rightarrow> Some (Inr (), s3)
                        | (Some again, s3) \<Rightarrow> mark_unhealthy_loop st env (n + 3) key gid again s3)))"

definition mark_replacement_group_unhealthy ::
  "('s, 'm) tcp_store_scheme \<Rightarrow> (nat \<Rightarrow> 's \<Rightarrow> 's) \<Rightarrow> string \<Rightarrow> int \<Rightarrow> string \<Rightarrow> 's
    \<Rightarrow> ((store_error + unit) \<times> 's) option" where
  "mark_replacement_group_unhealthy st env prefix rnd gid s =
     mark_unhealthy_loop st env 0 (unhealthy_groups_key prefix rnd) gid [] s"

definition get_unhealthy_replacement_groups ::
  "('s, 'm) tcp_store_scheme \<Rightarrow> string \<Rightarrow> int \<Rightarrow> 's \<Rightarrow> store_error + string set" where
  "get_unhealthy_replacement_groups st prefix rnd s =
     (let key = unhealthy_groups_key prefix rnd
      in if \<not> st_check st [key] s then Inr {}
         else case st_get st key s of
                None \<Rightarrow> Inl (Blocked key)
              | Some v \<Rightarrow> (case unpack_unhealthy_groups v of None \<Rightarrow> Inl BadValue | Some g \<Rightarrow> Inr g))"

definition read_count :: "('s, 'm) tcp_store_scheme \<Rightarrow> string \<Rightarrow> 's \<Rightarrow> store_error + int" where
  "read_count st key s =
     (case st_get st key s of
        None \<Rightarrow> Inl (Blocked key)
      | Some t \<Rightarrow> (case py_int t of None \<Rightarrow> Inl BadValue | Some i \<Rightarrow> Inr i))"

definition get_unhealthy_count :: "('s, 'm) tcp_store_scheme \<Rightarrow> string \<Rightarrow> 's \<Rightarrow> store_error + int" where
  "get_unhealthy_count st prefix s =
     (if \<not> st_check st [unhealthy_count_key prefix] s then Inr 0
      else read_count st (unhealthy_count_key prefix) s)"

section \<open>Shutdown and rounds\<close>

definition is_shutdown :: "('s, 'm) tcp_store_scheme \<Rightarrow> string \<Rightarrow> 's \<Rightarrow> store_error + bool" where
  "is_shutdown st prefix s =
     (if \<not> st_check st [shutdown_key prefix] s then Inr False
      else case st_get st (shutdown_key prefix) s of
             None \<Rightarrow> Inl (Blocked (shutdown_key prefix)) | Some v \<Rightarrow> Inr (v \<noteq> []))"

definition get_shutdown_reason ::
  "('s, 'm) tcp_store_scheme \<Rightarrow> string \<Rightarrow> 's \<Rightarrow> store_error + string option" where
  "get_shutdown_reason st prefix s =
     (if \<not> st_check st [shutdown_key prefix] s then Inr None
      else case st_get st (shutdown_key prefix) s of
             None \<Rightarrow> Inl (Blocked (shutdown_key prefix))
           | Some v \<Rightarrow> Inr (if v = [] then None else Some v))"

definition set_shutdown :: "('s, 'm) tcp_store_scheme \<Rightarrow> string \<Rightarrow> string \<Rightarrow> 's \<Rightarrow> 's" where
  "set_shutdown st prefix reason s = snd (st_compare_set st (shutdown_key prefix) [] reason s)"

text \<open>Opening a round: a check, and a write when the key was not there.\<close>

definition open_rendezvous ::
  "('s, 'm) tcp_store_scheme \<Rightarrow> (nat \<Rightarrow> 's \<Rightarrow> 's) \<Rightarrow> string \<Rightarrow> int \<Rightarrow> 's \<Rightarrow> 's" where
  "open_rendezvous st env prefix rnd s =
     (let key = round_done_key prefix (rnd + 1); s1 = env 0 s
      in if st_check st [key] s1 then s1 else st_set st key ''0'' (env 1 s1))"

definition signal_no_restart ::
  "('s, 'm) tcp_store_scheme \<Rightarrow> (nat \<Rightarrow> 's \<Rightarrow> 's) \<Rightarrow> string \<Rightarrow> int \<Rightarrow> string \<Rightarrow> 's \<Rightarrow> 's" where
  "signal_no_restart st env prefix rnd reason s =
     open_rendezvous st env prefix rnd (set_shutdown st prefix reason s)"

definition is_next_round_open :: "('s, 'm) tcp_store_scheme \<Rightarrow> string \<Rightarrow> int \<Rightarrow> 's \<Rightarrow> bool" where
  "is_next_round_open st prefix rnd s = st_check st [round_done_key prefix (rnd + 1)] s"

text \<open>
  The scan for the current round, on one state of the store: past every closed round. The second
  component is the open round the scan stopped at, if any.
\<close>

partial_function (option) scan_rounds ::
  "('s, 'm) tcp_store_scheme \<Rightarrow> string \<Rightarrow> 's \<Rightarrow> int \<Rightarrow> (store_error + int \<times> int option) option" where
  "scan_rounds st prefix s n =
     (if \<not> st_check st [round_done_key prefix n] s then Some (Inr (n, None))
      else case read_count st (round_done_key prefix n) s of
             Inl e \<Rightarrow> Some (Inl e)
           | Inr v \<Rightarrow> if v = 1 then scan_rounds st prefix s (n + 1) else Some (Inr (n, Some n)))"

section \<open>Slots\<close>

definition range_size :: "nat \<Rightarrow> nat \<Rightarrow> nat" where
  "range_size lo hi = max 1 (2 * (hi - lo) - 1)"

definition ranges_size :: "(nat \<times> nat) list \<Rightarrow> nat" where
  "ranges_size rs = sum_list (map (\<lambda>(lo, hi). range_size lo hi) rs)"

lemma ranges_size_Cons: "ranges_size ((lo, hi) # rs) = range_size lo hi + ranges_size rs"
  by (simp add: ranges_size_def)

lemma range_size_pos: "0 < range_size lo hi"
  by (simp add: range_size_def)

lemma range_size_split:
  assumes "lo < hi" and "hi - lo \<noteq> 1"
  shows "range_size ((lo + hi) div 2) hi + range_size lo ((lo + hi) div 2) < range_size lo hi"
proof -
  obtain d where d: "hi = lo + d" "2 \<le> d"
    using assms by (metis One_nat_def Suc_leI add_diff_cancel_left' le_add_diff_inverse less_imp_le
        nat_less_le numeral_2_eq_2 zero_less_diff)
  define a where "a = d div 2"
  define b where "b = d - a"
  have ab: "(lo + hi) div 2 = lo + a" "hi = lo + a + b" "1 \<le> a" "1 \<le> b"
    using d by (simp_all add: a_def b_def)
  moreover obtain x y where "a = Suc x" "b = Suc y"
    using ab(3,4) by (cases a; cases b) simp_all
  ultimately show ?thesis by (simp add: range_size_def)
qed

text \<open>Which slot keys are there, by divide and conquer; the stack's top is the head.\<close>

function present_keys_loop ::
  "(string list \<Rightarrow> bool) \<Rightarrow> string list \<Rightarrow> (nat \<times> nat) list \<Rightarrow> string list \<Rightarrow> string list" where
  "present_keys_loop check ks [] present = present"
| "present_keys_loop check ks ((lo, hi) # rs) present =
     (if lo \<ge> hi then present_keys_loop check ks rs present
      else let part = take (hi - lo) (drop lo ks)
      in if check part then present_keys_loop check ks rs (present @ part)
         else if hi - lo = 1 then present_keys_loop check ks rs present
         else let mid = (lo + hi) div 2
              in present_keys_loop check ks ((mid, hi) # (lo, mid) # rs) present)"
  by pat_completeness auto

termination
  by (relation "measure (\<lambda>(_, _, rs, _). ranges_size rs)")
    (use range_size_split in \<open>auto simp: ranges_size_Cons range_size_pos\<close>)

definition present_slot_keys :: "('s, 'm) tcp_store_scheme \<Rightarrow> string list \<Rightarrow> 's \<Rightarrow> string list" where
  "present_slot_keys st ks s = present_keys_loop (\<lambda>part. st_check st part s) ks [(0, length ks)] []"

definition slot_participant :: "int option \<Rightarrow> string option \<Rightarrow> participant option" where
  "slot_participant expected data =
     (case data of
        None \<Rightarrow> None
      | Some v \<Rightarrow>
          if v = [] then None
          else (case unpack_participant_value v of
                  None \<Rightarrow> None
                | Some (r, p) \<Rightarrow> if expected \<noteq> None \<and> r \<noteq> the expected then None else Some p))"

definition get_all_participants ::
  "('s, 'm) tcp_store_scheme \<Rightarrow> string \<Rightarrow> int \<Rightarrow> int \<Rightarrow> int option \<Rightarrow> participant option list option \<Rightarrow> 's
    \<Rightarrow> store_error + participant option list" where
  "get_all_participants st prefix last_slot start expected existing s =
     (let have = (case existing of None \<Rightarrow> [] | Some ps \<Rightarrow> ps);
          keys = map (slot_key prefix) [start..last_slot]
      in if start < 1 then Inl (BadStartIndex start)
         else if start > last_slot then Inr have
         else if st_check st keys s then
           (case st_multi_get st keys s of
              None \<Rightarrow> Inl (Blocked (hd keys))
            | Some vs \<Rightarrow> Inr (have @ map (slot_participant expected) (map Some vs)))
         else let present = present_slot_keys st keys s
         in case (if present = [] then Some [] else st_multi_get st present s) of
              None \<Rightarrow> Inl (Blocked (hd keys))
            | Some vs \<Rightarrow>
                let by_key = rev (zip present vs)
                in Inr (have @ map (slot_participant expected) (map (map_of by_key) keys)))"

end
