(* ===== verification/RdzvProtocol.thy ===== *)
theory RdzvProtocol
  imports RdzvStore
begin

text \<open>
  The steps of the barrier rendezvous on one node
  (\<open>_RendezvousBarrierState\<close> in \<open>fault_tolerance/ft_rendezvous_barrier.py\<close>): waiting for a round to
  open, joining it, closing it on the store host and reading the assigned rank. A loop of the code
  that polls is one turn here: its result says whether the loop goes round. A turn takes one clock
  reading; sleeps, logging, profiling and the reports of cycle information are left out.
\<close>

section \<open>State of the barrier\<close>

record rdzv_state =
  bs_prefix :: string
  bs_is_host :: bool
  bs_join_timeout :: real
  bs_last_call_timeout :: real
  bs_segment :: "int option"
  bs_group_size :: "int option"
  bs_stale_interval :: real
  bs_start_time :: real
  bs_last_stale_check :: real
  bs_round :: int
  bs_slot :: "int option"
  bs_active_addrs :: "string list option"
  bs_standby_addrs :: "string list option"
  bs_active_ranks :: "int list option"
  bs_previous_active :: "(int, string option) dict option"

datatype rdzv_exit =
    StoreFailed store_error
  | RankFailed rdzv_error
  | ClosedError
  | GracefulExit
  | TimedOut
  | NoParticipants
  | BadRankValue
  | UnhealthyNode

definition shutdown_failure :: string where "shutdown_failure = ''failure''"
definition shutdown_attribution_stop :: string where "shutdown_attribution_stop = ''attribution_stop''"

text \<open>\<open>GroupRankStatus.UNASSIGNED\<close>\<close>

definition unassigned :: int where "unassigned = -1"

definition barrier_init ::
  "('s, 'm) tcp_store_scheme \<Rightarrow> string \<Rightarrow> bool \<Rightarrow> real \<Rightarrow> real \<Rightarrow> int option \<Rightarrow> int option \<Rightarrow> real \<Rightarrow> 's
    \<Rightarrow> rdzv_state \<times> 's" where
  "barrier_init st run_id is_host join_timeout last_call segment group_size stale_interval s =
     (let prefix = ''ft_rendezvous_barrier:'' @ run_id;
          b = \<lparr>bs_prefix = prefix, bs_is_host = is_host, bs_join_timeout = join_timeout,
               bs_last_call_timeout = last_call, bs_segment = segment, bs_group_size = group_size,
               bs_stale_interval = stale_interval, bs_start_time = 0, bs_last_stale_check = 0,
               bs_round = 0, bs_slot = None, bs_active_addrs = None, bs_standby_addrs = None,
               bs_active_ranks = None, bs_previous_active = None\<rparr>;
          s1 = (if st_check st [round_done_key prefix 0] s then s
                else st_set st (round_done_key prefix 0) ''0'' s);
          s2 = (if is_host \<and> \<not> st_check st [shutdown_key prefix] s1
                then st_set st (shutdown_key prefix) [] s1 else s1)
      in (b, s2))"

definition lift_store :: "(store_error + 'a) \<Rightarrow> rdzv_exit + 'a" where
  "lift_store r = (case r of Inl e \<Rightarrow> Inl (StoreFailed e) | Inr a \<Rightarrow> Inr a)"

section \<open>Checks shared by the steps\<close>

text \<open>Catching up with the round of the store; None when the scan does not return.\<close>

definition sync_from_per_round_state ::
  "('s, 'm) tcp_store_scheme \<Rightarrow> rdzv_state \<Rightarrow> 's \<Rightarrow> (rdzv_exit + bool \<times> rdzv_state) option" where
  "sync_from_per_round_state st b s =
     (case scan_rounds st (bs_prefix b) s (bs_round b) of
        None \<Rightarrow> None
      | Some (Inl e) \<Rightarrow> Some (Inl (StoreFailed e))
      | Some (Inr (n, _)) \<Rightarrow>
          if n > bs_round b then Some (Inr (True, b\<lparr>bs_round := n\<rparr>)) else Some (Inr (False, b)))"

definition check_timeout_and_closure ::
  "('s, 'm) tcp_store_scheme \<Rightarrow> rdzv_state \<Rightarrow> real \<Rightarrow> 's \<Rightarrow> rdzv_exit + unit" where
  "check_timeout_and_closure st b now s =
     (case is_shutdown st (bs_prefix b) s of
        Inl e \<Rightarrow> Inl (StoreFailed e)
      | Inr down \<Rightarrow>
          if down then Inl ClosedError
          else if now - bs_start_time b > bs_join_timeout b then Inl TimedOut
          else Inr ())"

section \<open>Step 0: waiting for the round to open\<close>

datatype wait_outcome =
    WaitExit rdzv_exit
  | RoundOpen
  | WaitAgain rdzv_state

definition wait_open_turn ::
  "('s, 'm) tcp_store_scheme \<Rightarrow> bool \<Rightarrow> bool \<Rightarrow> real \<Rightarrow> rdzv_state \<Rightarrow> 's \<Rightarrow> (wait_outcome \<times> 's) option" where
  "wait_open_turn st stop attribution_stop now b s =
     (if stop then Some (WaitExit GracefulExit, s)
      else let s1 = (if attribution_stop
                     then signal_no_restart st (\<lambda>i. id) (bs_prefix b) (bs_round b) shutdown_attribution_stop s
                     else s)
      in case is_shutdown st (bs_prefix b) s1 of
           Inl e \<Rightarrow> Some (WaitExit (StoreFailed e), s1)
         | Inr True \<Rightarrow> Some (WaitExit GracefulExit, s1)
         | Inr False \<Rightarrow>
             let key = round_done_key (bs_prefix b) (bs_round b)
             in if \<not> st_check st [key] s1 then Some (WaitAgain b, s1)
                else (case read_count st key s1 of
                  Inl e \<Rightarrow> Some (WaitExit (StoreFailed e), s1)
                | Inr v \<Rightarrow>
                    if v = 0 then Some (RoundOpen, s1)
                    else if now - bs_last_stale_check b \<ge> bs_stale_interval b then
                      (case sync_from_per_round_state st (b\<lparr>bs_last_stale_check := now\<rparr>) s1 of
                         None \<Rightarrow> None
                       | Some (Inl e) \<Rightarrow> Some (WaitExit e, s1)
                       | Some (Inr (_, b1)) \<Rightarrow> Some (WaitAgain b1, s1))
                    else Some (WaitAgain b, s1)))"

section \<open>Step 1: joining\<close>

datatype join_outcome =
    JoinExit rdzv_exit
  | JoinRetry
  | Joined

text \<open>
  The health hook runs first; an unhealthy node marks its replacement group, ignoring errors, and
  leaves. A stale round sends the node back to step 0.
\<close>

definition join_round ::
  "('s, 'm) tcp_store_scheme \<Rightarrow> (nat \<Rightarrow> 's \<Rightarrow> 's) \<Rightarrow> bool \<Rightarrow> participant \<Rightarrow> rdzv_state \<Rightarrow> 's
    \<Rightarrow> (join_outcome \<times> rdzv_state \<times> 's) option" where
  "join_round st env healthy p b s =
     (if \<not> healthy then
        (case pt_group p of
           None \<Rightarrow> Some (JoinExit UnhealthyNode, b, s)
         | Some g \<Rightarrow>
             (case mark_replacement_group_unhealthy st env (bs_prefix b) (bs_round b) g s of
                None \<Rightarrow> None
              | Some (_, s1) \<Rightarrow> Some (JoinExit UnhealthyNode, b, s1)))
      else
        let (slot, s1) = st_add st (join_count_key (bs_prefix b) (bs_round b)) 1 s;
            b1 = b\<lparr>bs_slot := Some slot\<rparr>;
            step = (\<lambda>r. case r of
               Inl (StaleRound x y z) \<Rightarrow> JoinRetry | Inl e \<Rightarrow> JoinExit (StoreFailed e) | Inr _ \<Rightarrow> Joined)
        in case round_fenced_compare_set st env (rank_key (bs_prefix b) slot)
                  (pack_rank_value unassigned 0 (bs_round b)) s1 of
             (Inl e, s2) \<Rightarrow> Some (step (Inl e), b1, s2)
           | (Inr _, s2) \<Rightarrow>
               (case round_fenced_compare_set st (\<lambda>i. env (i + 3)) (slot_key (bs_prefix b) slot)
                       (pack_participant_value p (bs_round b)) s2 of
                  (r, s3) \<Rightarrow> Some (step r, b1, s3)))"

section \<open>Step 2: closing the round\<close>

text \<open>The ranks to write: slot, participant and rank of every slot whose node was assigned one.\<close>

definition slot_entry ::
  "(node_desc, int) dict \<Rightarrow> int \<times> participant option \<Rightarrow> (int \<times> participant \<times> int) list" where
  "slot_entry ranks e =
     (case snd e of
        None \<Rightarrow> []
      | Some p \<Rightarrow> (case map_of ranks (pt_node p) of None \<Rightarrow> [] | Some r \<Rightarrow> [(fst e, p, r)]))"

definition slot_ranks ::
  "participant option list \<Rightarrow> (node_desc, int) dict \<Rightarrow> (int \<times> participant \<times> int) list" where
  "slot_ranks slots ranks = concat (map (slot_entry ranks) (zip [1..int (length slots)] slots))"

definition publish_ranks ::
  "('s, 'm) tcp_store_scheme \<Rightarrow> rdzv_state \<Rightarrow> int \<Rightarrow> participant option list \<Rightarrow> participant list
    \<Rightarrow> participant list \<Rightarrow> 's \<Rightarrow> (rdzv_exit + rdzv_state) \<times> 's" where
  "publish_ranks st b world_size slots active standby s =
     (if slots = [] then (Inl NoParticipants, s)
      else case assign_group_ranks (bs_segment b) active world_size standby of
             Inl e \<Rightarrow> (Inl (RankFailed e), s)
           | Inr ranks \<Rightarrow>
               let entries = slot_ranks slots ranks;
                   active_entries = filter (\<lambda>(i, p, r). r < world_size) entries;
                   standby_entries = filter (\<lambda>(i, p, r). \<not> r < world_size) entries;
                   s1 = st_multi_set st (map (\<lambda>(i, p, r). rank_key (bs_prefix b) i) entries)
                          (map (\<lambda>(i, p, r). pack_rank_value r (int (length ranks)) (bs_round b)) entries) s;
                   b1 = b\<lparr>bs_active_addrs := Some (map (\<lambda>(i, p, r). nd_addr (pt_node p)) active_entries),
                          bs_standby_addrs := Some (map (\<lambda>(i, p, r). nd_addr (pt_node p)) standby_entries),
                          bs_active_ranks := Some (map (\<lambda>(i, p, r). r) active_entries),
                          bs_previous_active := remember_previous_active active ranks world_size\<rparr>
               in (Inr b1, s1))"

fun duplicate_addr :: "string set \<Rightarrow> participant list \<Rightarrow> string option" where
  "duplicate_addr seen [] = None"
| "duplicate_addr seen (p # ps) =
     (if nd_addr (pt_node p) \<in> seen then Some (nd_addr (pt_node p))
      else duplicate_addr (insert (nd_addr (pt_node p)) seen) ps)"

definition healthy_participants :: "string set \<Rightarrow> participant option list \<Rightarrow> participant list" where
  "healthy_participants unhealthy slots =
     filter (\<lambda>p. pt_group p = None \<or> the (pt_group p) \<notin> unhealthy)
       (map the (filter (\<lambda>e. e \<noteq> None) slots))"

datatype host_outcome =
    HostExit rdzv_exit
  | HostAgain last_call_gate real
  | HostClosed rdzv_state

text \<open>The end of a turn, once the snapshot is stable.\<close>

definition host_close ::
  "('s, 'm) tcp_store_scheme \<Rightarrow> rdzv_state \<Rightarrow> last_call_gate \<Rightarrow> real \<Rightarrow> bool \<Rightarrow> int
    \<Rightarrow> participant option list \<Rightarrow> string set \<Rightarrow> 's \<Rightarrow> host_outcome \<times> 's" where
  "host_close st b gate now multi_launchers min_nodes slots unhealthy s =
     (let current = healthy_participants unhealthy slots;
          (active, standby) = split_by_complete_replacement_groups (bs_group_size b) current
      in case can_meet_segment_constraint (bs_segment b) active min_nodes of
           Inl e \<Rightarrow> (HostExit (RankFailed e), s)
         | Inr False \<Rightarrow> (HostAgain gate now, s)
         | Inr True \<Rightarrow>
             let (decision, gate1) = gate_evaluate gate current now unhealthy
             in if \<not> cd_should_close decision then (HostAgain gate1 now, s)
                else if \<not> multi_launchers \<and> duplicate_addr {} current \<noteq> None
                then (HostAgain gate1 now, set_shutdown st (bs_prefix b) shutdown_failure s)
                else (case publish_ranks st b min_nodes slots active standby s of
                        (Inl e, s1) \<Rightarrow> (HostExit e, s1)
                      | (Inr b1, s1) \<Rightarrow>
                          (HostClosed b1, st_set st (round_done_key (bs_prefix b) (bs_round b)) ''1'' s1)))"

text \<open>
  One turn of the close loop. \<open>others\<close> is what the other nodes do to the store while the host
  fetches the snapshot; \<open>last_check\<close> is when the loop last looked at a snapshot.
\<close>

definition host_turn ::
  "('s, 'm) tcp_store_scheme \<Rightarrow> ('s \<Rightarrow> 's) \<Rightarrow> bool \<Rightarrow> bool \<Rightarrow> bool \<Rightarrow> real \<Rightarrow> int \<Rightarrow> int \<Rightarrow> real
    \<Rightarrow> rdzv_state \<Rightarrow> last_call_gate \<Rightarrow> real \<Rightarrow> 's \<Rightarrow> host_outcome \<times> 's" where
  "host_turn st others stop attribution_stop multi_launchers now min_nodes max_nodes check_interval
       b gate last_check s =
     (if stop then (HostExit GracefulExit, s)
      else let s1 = (if attribution_stop
                     then signal_no_restart st (\<lambda>i. id) (bs_prefix b) (bs_round b) shutdown_attribution_stop s
                     else s)
      in case check_timeout_and_closure st b now s1 of
           Inl e \<Rightarrow> (HostExit e, s1)
         | Inr _ \<Rightarrow>
      (case get_unhealthy_count st (bs_prefix b) s1 of
           Inl e \<Rightarrow> (HostExit (StoreFailed e), s1)
         | Inr unhealthy_count \<Rightarrow>
      if unhealthy_count > max_nodes - min_nodes
      then (HostAgain gate last_check, set_shutdown st (bs_prefix b) shutdown_failure s1)
      else let joined_key = join_count_key (bs_prefix b) (bs_round b)
      in if \<not> st_check st [joined_key] s1 then (HostAgain gate last_check, s1)
      else (case read_count st joined_key s1 of
           Inl e \<Rightarrow> (HostExit (StoreFailed e), s1)
         | Inr joined \<Rightarrow>
      if joined < min_nodes then (HostAgain gate last_check, s1)
      else if now - last_check < step2_poll_interval min_nodes check_interval
      then (HostAgain gate last_check, s1)
      else (case get_all_participants st (bs_prefix b) joined 1 (Some (bs_round b)) None s1 of
           Inl e \<Rightarrow> (HostExit (StoreFailed e), s1)
         | Inr slots \<Rightarrow>
      let s2 = others s1
      in (case read_count st joined_key s2 of
           Inl e \<Rightarrow> (HostExit (StoreFailed e), s2)
         | Inr joined_after \<Rightarrow>
      if joined_after \<noteq> joined then (HostAgain gate now, s2)
      else (case get_unhealthy_replacement_groups st (bs_prefix b) (bs_round b) s2 of
           Inl e \<Rightarrow> (HostExit (StoreFailed e), s2)
         | Inr unhealthy \<Rightarrow> host_close st b gate now multi_launchers min_nodes slots unhealthy s2))))))"

section \<open>Step 3: reading the rank\<close>

datatype rank_outcome =
    RankExit rdzv_exit
  | RankWait
  | RankRead int int

definition wait_done_turn ::
  "('s, 'm) tcp_store_scheme \<Rightarrow> real \<Rightarrow> rdzv_state \<Rightarrow> string \<Rightarrow> 's \<Rightarrow> rank_outcome" where
  "wait_done_turn st now b key s =
     (case check_timeout_and_closure st b now s of
        Inl e \<Rightarrow> RankExit e
      | Inr _ \<Rightarrow>
          (case read_count st (round_done_key (bs_prefix b) (bs_round b)) s of
             Inl e \<Rightarrow> RankExit (StoreFailed e)
           | Inr v \<Rightarrow>
               if v \<noteq> 1 then RankWait
               else if \<not> st_check st [key] s then RankRead unassigned 0
               else (case st_get st key s of
                       None \<Rightarrow> RankExit (StoreFailed (Blocked key))
                     | Some data \<Rightarrow>
                         (case unpack_rank_value data of
                            None \<Rightarrow> RankExit BadRankValue
                          | Some (rank, n, written) \<Rightarrow>
                              if written \<noteq> bs_round b then RankRead unassigned 0 else RankRead rank n))))"

text \<open>Whether a rank starts the workers; otherwise the node waits for the next round.\<close>

definition is_active_rank :: "int \<Rightarrow> int \<Rightarrow> bool" where
  "is_active_rank min_nodes rank \<longleftrightarrow> rank \<noteq> unassigned \<and> rank < min_nodes"

section \<open>A node through the steps\<close>

datatype rdzv_phase =
    Waiting
  | Joining
  | Closing last_call_gate real
  | Reading
  | Finished int int
  | Failed rdzv_exit

text \<open>Back to the top of the loop, where the stale check is due at once.\<close>

definition restart_loop :: "rdzv_state \<Rightarrow> rdzv_state" where
  "restart_loop b = b\<lparr>bs_last_stale_check := 0\<rparr>"

definition after_join :: "int \<Rightarrow> int \<Rightarrow> rdzv_state \<Rightarrow> rdzv_phase" where
  "after_join min_nodes max_nodes b =
     (if bs_is_host b
      then Closing (make_last_call_gate (bs_round b) (bs_previous_active b) (bs_last_call_timeout b)
             min_nodes max_nodes) 0
      else Reading)"

definition own_rank_key :: "rdzv_state \<Rightarrow> string" where
  "own_rank_key b = rank_key (bs_prefix b) (the (bs_slot b))"

text \<open>
  \<open>perform_rendezvous\<close> as steps of one node with the participant \<open>p\<close>; other nodes may change the
  store between any two steps, and the clock and the flags take any value.
\<close>

inductive node_step ::
  "('s, 'm) tcp_store_scheme \<Rightarrow> participant \<Rightarrow> int \<Rightarrow> int \<Rightarrow> real
    \<Rightarrow> rdzv_phase \<times> rdzv_state \<times> 's \<Rightarrow> rdzv_phase \<times> rdzv_state \<times> 's \<Rightarrow> bool"
  for st :: "('s, 'm) tcp_store_scheme" and p :: participant and min_nodes :: int and max_nodes :: int
    and interval :: real where
  others: "node_step st p min_nodes max_nodes interval (ph, b, s) (ph, b, s')"
| wait: "wait_open_turn st stop attribution_stop now b s = Some (WaitAgain b1, s1) \<Longrightarrow>
    node_step st p min_nodes max_nodes interval (Waiting, b, s) (Waiting, b1, s1)"
| opened: "wait_open_turn st stop attribution_stop now b s = Some (RoundOpen, s1) \<Longrightarrow>
    node_step st p min_nodes max_nodes interval (Waiting, b, s) (Joining, b\<lparr>bs_start_time := start\<rparr>, s1)"
| wait_exit: "wait_open_turn st stop attribution_stop now b s = Some (WaitExit e, s1) \<Longrightarrow>
    node_step st p min_nodes max_nodes interval (Waiting, b, s) (Failed e, b, s1)"
| join: "join_round st env healthy p b s = Some (Joined, b1, s1) \<Longrightarrow>
    node_step st p min_nodes max_nodes interval (Joining, b, s) (after_join min_nodes max_nodes b1, b1, s1)"
| retry: "join_round st env healthy p b s = Some (JoinRetry, b1, s1) \<Longrightarrow>
    node_step st p min_nodes max_nodes interval (Joining, b, s) (Waiting, restart_loop b1, s1)"
| join_exit: "join_round st env healthy p b s = Some (JoinExit e, b1, s1) \<Longrightarrow>
    node_step st p min_nodes max_nodes interval (Joining, b, s) (Failed e, b1, s1)"
| close_again: "host_turn st oth stop attribution_stop multi now min_nodes max_nodes interval b g l s
      = (HostAgain g1 l1, s1) \<Longrightarrow>
    node_step st p min_nodes max_nodes interval (Closing g l, b, s) (Closing g1 l1, b, s1)"
| closed: "host_turn st oth stop attribution_stop multi now min_nodes max_nodes interval b g l s
      = (HostClosed b1, s1) \<Longrightarrow>
    node_step st p min_nodes max_nodes interval (Closing g l, b, s) (Reading, b1, s1)"
| close_exit: "host_turn st oth stop attribution_stop multi now min_nodes max_nodes interval b g l s
      = (HostExit e, s1) \<Longrightarrow>
    node_step st p min_nodes max_nodes interval (Closing g l, b, s) (Failed e, b, s1)"
| active: "wait_done_turn st now b (own_rank_key b) s = RankRead r n \<Longrightarrow> is_active_rank min_nodes r \<Longrightarrow>
    node_step st p min_nodes max_nodes interval (Reading, b, s) (Finished r n, b, s)"
| standby: "wait_done_turn st now b (own_rank_key b) s = RankRead r n \<Longrightarrow> \<not> is_active_rank min_nodes r \<Longrightarrow>
    node_step st p min_nodes max_nodes interval (Reading, b, s) (Waiting, restart_loop b, s)"
| read_exit: "wait_done_turn st now b (own_rank_key b) s = RankExit e \<Longrightarrow>
    node_step st p min_nodes max_nodes interval (Reading, b, s) (Failed e, b, s)"

inductive_cases node_finishes: "node_step st p min_nodes max_nodes interval x (Finished r n, b, s)"

end
