(* ===== verification/RdzvStoreProps.thy ===== *)
theory RdzvStoreProps
  imports RdzvStore
begin

text \<open>
  Correctness of what the barrier rendezvous keeps in the store: packed values read back, a reused
  key never goes back to an older round however other clients interleave, marking a group never
  loses another one, the scan for the round ends at the first round that is not closed, and the
  snapshot of the slots is the pointwise reading of the store.
\<close>

section \<open>Packed values read back\<close>

lemma loads_dumps_default: "plain_json v \<Longrightarrow> loads (dumps v) = Some v"
  by (rule loads_dumps) simp_all

lemma store_value_unpack_pack:
  "plain_json (JObj ms) \<Longrightarrow> store_value_unpack (store_value_pack r (JObj ms)) = Some (r, JObj ms)"
  by (simp add: store_value_unpack_def store_value_pack_def loads_dumps_default field_def)

lemma plain_payloads [simp]:
  "plain_json (rank_payload a b)" "plain_json (participant_payload p)"
  by (auto simp: rank_payload_def participant_payload_def split: option.split)

lemma unpack_pack_rank: "unpack_rank_value (pack_rank_value a b r) = Some (a, b, r)"
  using plain_payloads(1) [of a b]
  by (simp add: unpack_rank_value_def pack_rank_value_def rank_payload_def store_value_unpack_pack field_def)

lemma unpack_pack_participant: "unpack_participant_value (pack_participant_value p r) = Some (r, p)"
proof -
  obtain n i d g where p: "p = (n, i, d, g)" by (cases p) auto
  show ?thesis
    using plain_payloads(2) [of p]
    by (cases n; cases g) (simp_all add: p unpack_participant_value_def pack_participant_value_def
        participant_payload_def store_value_unpack_pack participant_from_payload_def field_def)
qed

lemma round_of_packed:
  "store_value_round (pack_rank_value a b r) = r" "store_value_round (pack_participant_value p r) = r"
  using plain_payloads(1) [of a b] plain_payloads(2) [of p]
  by (simp_all add: store_value_round_def pack_rank_value_def pack_participant_value_def
      rank_payload_def participant_payload_def store_value_unpack_pack)

text \<open>
  C38: What a node publishes is what the others read. The value a participant writes into its slot
  and the value the host writes for a rank read back, through the JSON text, as the same
  participant, rank and round, whatever the names and numbers in them.
\<close>

theorem published_values_roundtrip:
  "unpack_participant_value (pack_participant_value p r) = Some (r, p)
   \<and> unpack_rank_value (pack_rank_value rank n r) = Some (rank, n, r)
   \<and> store_value_round (pack_participant_value p r) = r
   \<and> store_value_round (pack_rank_value rank n r) = r"
  using unpack_pack_participant unpack_pack_rank round_of_packed by blast

lemma str_of_jsons_strings: "str_of_jsons (map JStr ss) = Some ss"
  by (induction ss) simp_all

lemma unpack_pack_groups: "finite gs \<Longrightarrow> unpack_unhealthy_groups (pack_unhealthy_groups gs) = Some gs"
proof -
  assume "finite gs"
  let ?v = "JObj [(''groups'', JArr (map JStr (sorted_list_of_set gs)))]"
  have "loads (dumps_with '','' '':'' ?v) = Some ?v"
    by (rule loads_dumps) (simp_all add: list_all_iff)
  moreover have "dumps_with '','' '':'' ?v \<noteq> []" by (simp add: dumps_with.simps)
  ultimately show ?thesis
    using \<open>finite gs\<close>
    by (simp add: unpack_unhealthy_groups_def pack_unhealthy_groups_def str_of_jsons_strings)
qed

lemma pack_groups_not_empty: "pack_unhealthy_groups gs \<noteq> []"
  by (simp add: pack_unhealthy_groups_def dumps_with.simps)

section \<open>Using the store\<close>

lemma store_laws_simps:
  assumes "store_laws st view"
  shows "st_check st ks s = (\<forall>k \<in> set ks. view s k \<noteq> None)"
    and "st_get st k s = view s k"
    and "view (st_set st k v s) = (view s)(k \<mapsto> v)"
    and "st_multi_get st ks s =
      (if \<forall>k \<in> set ks. view s k \<noteq> None then Some (map (\<lambda>k. the (view s k)) ks) else None)"
    and "view (st_multi_set st ks vs s) = fold (\<lambda>(k, v) m. m(k \<mapsto> v)) (zip ks vs) (view s)"
  using assms by (simp_all add: store_laws_def)

lemma compare_set_laws:
  assumes "store_laws st view"
  shows "(fst (st_compare_set st k e d s), view (snd (st_compare_set st k e d s))) =
    (case view s k of
       None \<Rightarrow> if e = [] then (d, (view s)(k \<mapsto> d)) else (e, view s)
     | Some v \<Rightarrow> if v = e then (d, (view s)(k \<mapsto> d)) else (v, view s))"
  using assms unfolding store_laws_def by blast

text \<open>A store that satisfies the laws: a dictionary.\<close>

definition dict_store :: "(string \<Rightarrow> string option) tcp_store" where
  "dict_store = \<lparr>
     st_check = (\<lambda>ks m. list_all (\<lambda>k. m k \<noteq> None) ks),
     st_get = (\<lambda>k m. m k),
     st_set = (\<lambda>k v m. m(k \<mapsto> v)),
     st_add = (\<lambda>k n m. (count_text (m k) + n, m(k \<mapsto> int_text (count_text (m k) + n)))),
     st_compare_set = (\<lambda>k e d m. case m k of
         None \<Rightarrow> if e = [] then (d, m(k \<mapsto> d)) else (e, m)
       | Some v \<Rightarrow> if v = e then (d, m(k \<mapsto> d)) else (v, m)),
     st_multi_get = (\<lambda>ks m. if list_all (\<lambda>k. m k \<noteq> None) ks then Some (map (\<lambda>k. the (m k)) ks) else None),
     st_multi_set = (\<lambda>ks vs m. fold (\<lambda>(k, v) m. m(k \<mapsto> v)) (zip ks vs) m)\<rparr>"

lemma dict_store_laws: "store_laws dict_store (\<lambda>m. m)"
  by (auto simp: store_laws_def dict_store_def list_all_iff split: option.split)

section \<open>A reused key never goes back\<close>

definition key_round :: "('s \<Rightarrow> string \<Rightarrow> string option) \<Rightarrow> string \<Rightarrow> 's \<Rightarrow> int" where
  "key_round view key s = (case view s key of None \<Rightarrow> -1 | Some v \<Rightarrow> store_value_round v)"

lemma fenced_write_keeps:
  assumes "store_laws st view" and "store_value_round expected \<le> store_value_round desired"
    and "0 \<le> store_value_round desired"
  shows "key_round view key s \<le> key_round view key (snd (fenced_write st key expected desired s))"
    and "fst (fenced_write st key expected desired s) = Inr () \<Longrightarrow>
      (expected = desired \<Longrightarrow> 0 \<le> key_round view key s) \<Longrightarrow>
      view (snd (fenced_write st key expected desired s)) key = Some desired"
  using compare_set_laws [OF assms(1), of key expected desired s] assms(2,3)
  by (auto simp: fenced_write_def key_round_def split: option.splits prod.splits if_splits)

lemma store_value_round_empty: "store_value_round [] = -1"
  by (simp add: store_value_round_def store_value_unpack_def loads_def skip_def)

text \<open>
  C20: A reused slot or rank key never goes back to an older round. If no other client lowers the
  round in the key while the operation runs, the operation does not either, whatever happens
  between its check, its read and its write; and when it reports success on a fresh value, that
  value was written.
\<close>

theorem fenced_set_never_goes_back:
  assumes "store_laws st view" and "\<And>i s. key_round view key s \<le> key_round view key (env i s)"
  shows "key_round view key s \<le> key_round view key (snd (round_fenced_compare_set st env key desired s))
    \<and> (fst (round_fenced_compare_set st env key desired s) = Inr () \<longrightarrow>
       view (snd (round_fenced_compare_set st env key desired s)) key = Some desired)"
proof (cases "0 \<le> store_value_round desired")
  case True
  let ?s0 = "env 0 s" and ?s1 = "env 1 (env 0 s)" and ?s2 = "env 2 (env 1 (env 0 s))" and ?s3 = "env 2 (env 0 s)"
  have e: "key_round view key s \<le> key_round view key ?s2" "key_round view key s \<le> key_round view key ?s3"
    "key_round view key s \<le> key_round view key ?s0" "key_round view key s \<le> key_round view key ?s1"
    "key_round view key ?s1 \<le> key_round view key ?s2"
    by (meson assms(2) order_trans)+
  note keeps = fenced_write_keeps [OF assms(1) _ True]
  show ?thesis
  proof (cases "st_check st [key] ?s0")
    case False
    have "store_value_round [] \<le> store_value_round desired" "[] \<noteq> desired"
      using True store_value_round_empty by auto
    then show ?thesis
      using keeps [of "[]" key ?s3] e(2) False True
      by (auto simp: round_fenced_compare_set_def Let_def)
  next
    case there: True
    show ?thesis
    proof (cases "view ?s1 key")
      case None
      then show ?thesis
        using there e(4) True store_laws_simps(2) [OF assms(1)]
        by (simp add: round_fenced_compare_set_def Let_def)
    next
      case (Some x)
      then have x: "key_round view key ?s1 = store_value_round x" by (simp add: key_round_def)
      then have "x = desired \<Longrightarrow> 0 \<le> key_round view key ?s2" using e(5) True by simp
      from keeps(1) [of x key ?s2] keeps(2) [OF _ _ this, where expected = x]
      show ?thesis
        using there e(1,4) Some True x store_laws_simps(2) [OF assms(1)]
        by (auto simp: round_fenced_compare_set_def Let_def)
    qed
  qed
qed (simp add: round_fenced_compare_set_def)

text \<open>A rank key that holds the previous round is taken over.\<close>

theorem fenced_set_never_goes_back_witness:
  "snd (round_fenced_compare_set dict_store (\<lambda>i m. m) ''k'' (pack_rank_value 3 4 2)
      [''k'' \<mapsto> pack_rank_value 0 4 1]) ''k'' = Some (pack_rank_value 3 4 2)"
proof -
  have "fst (round_fenced_compare_set dict_store (\<lambda>i m. m) ''k'' (pack_rank_value 3 4 2)
      [''k'' \<mapsto> pack_rank_value 0 4 1]) = Inr ()"
    by (simp add: round_fenced_compare_set_def round_of_packed dict_store_def fenced_write_def)
  then show ?thesis
    using fenced_set_never_goes_back [OF dict_store_laws, of "''k''" "\<lambda>i m. m"
        "[''k'' \<mapsto> pack_rank_value 0 4 1]" "pack_rank_value 3 4 2"] by simp
qed

section \<open>Marking a group loses no other group\<close>

definition groups_of :: "('s \<Rightarrow> string \<Rightarrow> string option) \<Rightarrow> string \<Rightarrow> 's \<Rightarrow> string set option" where
  "groups_of view key s = (case view s key of None \<Rightarrow> Some {} | Some v \<Rightarrow> unpack_unhealthy_groups v)"

lemma finite_unpacked: "unpack_unhealthy_groups v = Some gs \<Longrightarrow> finite gs"
  by (auto simp: unpack_unhealthy_groups_def split: if_splits option.splits json.splits)

text \<open>What the other clients may do: add groups to the set.\<close>

definition only_adds :: "('s \<Rightarrow> string \<Rightarrow> string option) \<Rightarrow> string \<Rightarrow> ('s \<Rightarrow> 's) \<Rightarrow> bool" where
  "only_adds view key f \<longleftrightarrow>
     (\<forall>s gs. groups_of view key s = Some gs \<longrightarrow>
        (\<exists>gs'. groups_of view key (f s) = Some gs' \<and> gs \<subseteq> gs'))
   \<and> (\<forall>s. view s key \<noteq> None \<longrightarrow> view (f s) key \<noteq> None)"

lemma only_addsD:
  "only_adds view key f \<Longrightarrow> groups_of view key s = Some gs \<Longrightarrow>
     \<exists>gs'. groups_of view key (f s) = Some gs' \<and> gs \<subseteq> gs'"
  "only_adds view key f \<Longrightarrow> view s key \<noteq> None \<Longrightarrow> view (f s) key \<noteq> None"
  by (simp_all add: only_adds_def)

text \<open>
  One attempt on a value that lacks the group: it goes through, or the store answers with what it
  holds now. It goes through when the store still holds the value.
\<close>

lemma groups_attempt_cases:
  assumes "store_laws st view" and "unpack_unhealthy_groups e = Some gs" and "gid \<notin> gs"
    and "groups_of view key (env n s) = Some hs" and "view (env n s) key = None \<longrightarrow> e = []"
  obtains s' gs' where "groups_attempt st env n key gid e gs s = (None, s')"
      "groups_of view key s' = Some gs'" "insert gid hs \<subseteq> gs'"
    | v s' where "groups_attempt st env n key gid e gs s = (Some v, s')" "view s' key = Some v"
      "groups_of view key s' = Some hs" "view (env n s) key = Some v" "v \<noteq> e"
proof -
  let ?d = "pack_unhealthy_groups (insert gid gs)"
  obtain r s' where c: "st_compare_set st key e ?d (env n s) = (r, s')" by fastforce
  note law = compare_set_laws [OF assms(1), of key e ?d "env n s", unfolded c]
  have d: "unpack_unhealthy_groups ?d = Some (insert gid gs)"
    using finite_unpacked [OF assms(2)] by (simp add: unpack_pack_groups)
  have e: "e = [] \<Longrightarrow> gs = {}" using assms(2) by (simp add: unpack_unhealthy_groups_def)
  have at: "groups_attempt st env n key gid e gs s = (if r = ?d then None else Some r, s')"
    by (simp add: groups_attempt_def c)
  show ?thesis
  proof (cases "view (env n s) key")
    case None
    then have "r = ?d" "view s' key = Some ?d" "hs = {}"
      using law assms(4,5) by (simp_all add: groups_of_def)
    then show ?thesis using at d by (intro that(1)) (auto simp: groups_of_def)
  next
    case (Some v)
    show ?thesis
    proof (cases "v = e")
      case True
      then have "r = ?d" "view s' key = Some ?d" "hs = gs"
        using law Some assms(2,4) by (simp_all add: groups_of_def)
      then show ?thesis using at d by (intro that(1)) (auto simp: groups_of_def)
    next
      case False
      then have r: "r = v" "view s' key = Some v" using law Some by simp_all
      then have h: "groups_of view key s' = Some hs" using Some assms(4) by (simp add: groups_of_def)
      show ?thesis
      proof (cases "v = ?d")
        case True
        then have "hs = insert gid gs" using h r(2) d by (simp add: groups_of_def)
        then show ?thesis using at r True h by (intro that(1)) auto
      qed (use at r h Some False in \<open>auto intro: that(2)\<close>)
    qed
  qed
qed

text \<open>
  One turn of the loop: it ends with the group in the set, or goes round with the value the store
  holds; the latter only when another client changed the value since it was read.
\<close>

lemma mark_turn:
  assumes "store_laws st view" and "\<And>i. only_adds view key (env i)"
    and "e = [] \<or> view s key = Some e" and "groups_of view key s = Some gs"
  obtains s' gs' where "mark_unhealthy_loop st env n key gid e s = Some (Inr (), s')"
      "groups_of view key s' = Some gs'" "insert gid gs \<subseteq> gs'"
    | v s' gs' where "mark_unhealthy_loop st env n key gid e s = mark_unhealthy_loop st env (n + 3) key gid v s'"
      "view s' key = Some v" "groups_of view key s' = Some gs'" "gs \<subseteq> gs'"
      "\<not> (env n = id \<and> env (n + 1) = id \<and> env (n + 2) = id)"
proof -
  let ?s1 = "if e = [] then env n s else s"
  let ?present = "e = [] \<and> view ?s1 key \<noteq> None"
  let ?s2 = "if ?present then env (n + 1) ?s1 else ?s1"
  define held where "held = (if e \<noteq> [] then e else case view ?s2 key of None \<Rightarrow> [] | Some x \<Rightarrow> x)"
  have check: "st_check st [key] t \<longleftrightarrow> view t key \<noteq> None" for t
    using store_laws_simps(1) [OF assms(1)] by simp
  have get: "st_get st key t = view t key" for t by (rule store_laws_simps(2) [OF assms(1)])
  have there: "?present \<Longrightarrow> view ?s2 key \<noteq> None"
    using only_addsD(2) [OF assms(2), of "env n s" "n + 1"] by auto
  obtain g1 where g1: "groups_of view key ?s1 = Some g1" "gs \<subseteq> g1"
    using assms(4) only_addsD(1) [OF assms(2) assms(4), of n] by (cases "e = []") auto
  obtain g2 where g2: "groups_of view key ?s2 = Some g2" "g1 \<subseteq> g2"
    using g1(1) only_addsD(1) [OF assms(2) g1(1), of "n + 1"] by (cases ?present) auto
  obtain g3 where g3: "groups_of view key (env (n + 2) ?s2) = Some g3" "g2 \<subseteq> g3"
    using g2(1) only_addsD(1) [OF assms(2)] by blast
  have absent: "view ?s2 key = None \<Longrightarrow> held = []"
    using assms(3) by (auto simp: held_def split: if_splits)
  have unpack: "unpack_unhealthy_groups held = Some g2"
    using g2(1) assms(3) by (auto simp: held_def groups_of_def unpack_unhealthy_groups_def split: option.splits if_splits)
  have turn: "mark_unhealthy_loop st env n key gid e s =
      (if gid \<in> g2 then Some (Inr (), ?s2)
       else case groups_attempt st env (n + 2) key gid held g2 ?s2 of
              (None, s3) \<Rightarrow> Some (Inr (), s3)
            | (Some again, s3) \<Rightarrow> mark_unhealthy_loop st env (n + 3) key gid again s3)"
  proof (cases "e = []")
    case False
    then show ?thesis
      using unpack by (subst mark_unhealthy_loop.simps) (simp add: Let_def held_def split: option.split)
  next
    case True
    show ?thesis
    proof (cases "view (env n s) key")
      case None
      then show ?thesis
        using True unpack
        by (subst mark_unhealthy_loop.simps) (simp add: Let_def held_def check split: option.split)
    next
      case (Some y)
      then obtain x where x: "view (env (n + 1) (env n s)) key = Some x" using there True by auto
      then show ?thesis
        using True Some unpack
        by (subst mark_unhealthy_loop.simps) (simp add: Let_def held_def check get split: option.split)
    qed
  qed
  show ?thesis
  proof (cases "gid \<in> g2")
    case True
    then show ?thesis using turn g1(2) g2 by (intro that(1) [of ?s2 g2]) auto
  next
    case False
    have gone: "view (env (n + 2) ?s2) key = None \<longrightarrow> held = []"
      using absent only_addsD(2) [OF assms(2), of ?s2] by blast
    show ?thesis
    proof (rule groups_attempt_cases [where env = env and n = "n + 2" and s = ?s2,
        OF assms(1) unpack False g3(1) gone])
      fix s' gs' assume "groups_attempt st env (n + 2) key gid held g2 ?s2 = (None, s')"
        "groups_of view key s' = Some gs'" "insert gid g3 \<subseteq> gs'"
      moreover from this(1) have "mark_unhealthy_loop st env n key gid e s = Some (Inr (), s')"
        unfolding turn using False by simp
      ultimately show ?thesis using g1(2) g2(2) g3(2) by (intro that(1)) auto
    next
      fix v s' assume a: "groups_attempt st env (n + 2) key gid held g2 ?s2 = (Some v, s')"
        "view s' key = Some v" "groups_of view key s' = Some g3" "view (env (n + 2) ?s2) key = Some v" "v \<noteq> held"
      have "\<not> (env n = id \<and> env (n + 1) = id \<and> env (n + 2) = id)"
        using a(4,5) assms(3) by (auto simp: held_def split: if_splits)
      moreover have "mark_unhealthy_loop st env n key gid e s = mark_unhealthy_loop st env (n + 3) key gid v s'"
        unfolding turn a(1) using False by simp
      moreover have "gs \<subseteq> g3" using g1(2) g2(2) g3(2) by blast
      ultimately show ?thesis using a(2,3) by (intro that(2))
    qed
  qed
qed

lemma mark_loop_returns:
  assumes "store_laws st view" and "\<And>i. only_adds view key (env i)" and "\<And>i. quiet \<le> i \<Longrightarrow> env i = id"
  shows "e = [] \<or> view s key = Some e \<Longrightarrow> groups_of view key s = Some gs \<Longrightarrow>
    \<exists>s' gs'. mark_unhealthy_loop st env n key gid e s = Some (Inr (), s')
      \<and> groups_of view key s' = Some gs' \<and> insert gid gs \<subseteq> gs'"
proof (induction "quiet - n" arbitrary: n e s gs rule: less_induct)
  case less
  show ?case
  proof (rule mark_turn [OF assms(1,2) less.prems, where n = n and gid = gid])
    fix v s' gs' assume a:
      "mark_unhealthy_loop st env n key gid e s = mark_unhealthy_loop st env (n + 3) key gid v s'"
      "view s' key = Some v" "groups_of view key s' = Some gs'" "gs \<subseteq> gs'"
      "\<not> (env n = id \<and> env (n + 1) = id \<and> env (n + 2) = id)"
    have "n < quiet" using a(5) assms(3) [of n] assms(3) [of "n + 1"] assms(3) [of "n + 2"]
      by (cases "quiet \<le> n") auto
    then show ?thesis using less.hyps [of "n + 3" v s' gs'] a by fastforce
  qed auto
qed

text \<open>
  C38: Marking a replacement group unhealthy ends and loses no other group. While other nodes add
  groups to the round's set at any moment, and stop at some time, the retry loop returns without
  an error, and the set then holds this group and every group that was in it before.
\<close>

theorem mark_unhealthy_no_lost_update:
  assumes "store_laws st view" and "\<And>i. only_adds view (unhealthy_groups_key prefix rnd) (env i)"
    and "\<And>i. quiet \<le> i \<Longrightarrow> env i = id"
    and "groups_of view (unhealthy_groups_key prefix rnd) s = Some gs"
  shows "\<exists>s' gs'. mark_replacement_group_unhealthy st env prefix rnd gid s = Some (Inr (), s')
    \<and> groups_of view (unhealthy_groups_key prefix rnd) s' = Some gs' \<and> insert gid gs \<subseteq> gs'"
  using mark_loop_returns [OF assms(1-3), where e = "[]" and n = 0] assms(4)
  by (simp add: mark_replacement_group_unhealthy_def)

text \<open>Two other nodes mark their groups between the read and the write of this one.\<close>

definition demo_env :: "nat \<Rightarrow> (string \<Rightarrow> string option) \<Rightarrow> string \<Rightarrow> string option" where
  "demo_env i m = (if i = 2 then
     (case groups_of (\<lambda>m. m) ''p:unhealthy_replacement_groups_1'' m of
        None \<Rightarrow> m
      | Some gs \<Rightarrow> m(''p:unhealthy_replacement_groups_1'' \<mapsto> pack_unhealthy_groups (gs \<union> {''7'', ''8''})))
     else m)"

lemma demo_env_only_adds: "only_adds (\<lambda>m. m) ''p:unhealthy_replacement_groups_1'' (demo_env i)"
proof -
  have "finite gs" if "groups_of (\<lambda>m. m) k m = Some gs" for k m gs
    using that finite_unpacked by (auto simp: groups_of_def split: option.splits)
  then show ?thesis
    by (auto simp: only_adds_def demo_env_def groups_of_def unpack_pack_groups split: option.splits)
qed

theorem mark_unhealthy_no_lost_update_witness:
  "\<exists>s' gs'. mark_replacement_group_unhealthy dict_store demo_env ''p'' 1 ''5'' Map.empty = Some (Inr (), s')
    \<and> groups_of (\<lambda>m. m) ''p:unhealthy_replacement_groups_1'' s' = Some gs' \<and> {''5''} \<subseteq> gs'"
proof -
  have k: "unhealthy_groups_key ''p'' 1 = ''p:unhealthy_replacement_groups_1''" by code_simp
  have q: "demo_env i = id" if "3 \<le> i" for i using that by (auto simp: demo_env_def)
  show ?thesis
    using mark_unhealthy_no_lost_update [OF dict_store_laws, where prefix = "''p''" and rnd = 1
        and env = demo_env and quiet = 3 and s = Map.empty and gs = "{}" and gid = "''5''", unfolded k]
      demo_env_only_adds q
    by (simp add: groups_of_def)
qed

section \<open>Rounds and shutdown\<close>

definition round_closed :: "('s \<Rightarrow> string \<Rightarrow> string option) \<Rightarrow> string \<Rightarrow> 's \<Rightarrow> int \<Rightarrow> bool" where
  "round_closed view prefix s n \<longleftrightarrow> Option.bind (view s (round_done_key prefix n)) py_int = Some 1"

lemma round_done_key_inj: "round_done_key prefix m = round_done_key prefix n \<Longrightarrow> m = n"
  by (auto simp: round_done_key_def dest: int_text_inj)

lemma scan_turn:
  assumes "store_laws st view"
  shows "scan_rounds st prefix s n =
    (case view s (round_done_key prefix n) of
       None \<Rightarrow> Some (Inr (n, None))
     | Some t \<Rightarrow> (case py_int t of
           None \<Rightarrow> Some (Inl BadValue)
         | Some v \<Rightarrow> if v = 1 then scan_rounds st prefix s (n + 1) else Some (Inr (n, Some n))))"
  by (subst scan_rounds.simps)
    (auto simp: store_laws_simps [OF assms] read_count_def split: option.splits)

text \<open>
  The scan for the current round ends, at the first round that is not closed. On a store that
  holds finitely many keys it returns; every round it passed is closed, the one it stops at is
  not, and it reports that round as open exactly when its key is there.
\<close>

theorem scan_finds_first_open_round:
  assumes "store_laws st view" and "finite {k. view s k \<noteq> None}"
  shows "\<exists>r m. scan_rounds st prefix s n = Some r \<and> n \<le> m
    \<and> {n..<m} \<subseteq> {i. round_closed view prefix s i} \<and> \<not> round_closed view prefix s m
    \<and> r = (case view s (round_done_key prefix m) of
             None \<Rightarrow> Inr (m, None)
           | Some t \<Rightarrow> if py_int t = None then Inl BadValue else Inr (m, Some m))"
proof -
  let ?K = "\<lambda>n. {i. n \<le> i \<and> round_closed view prefix s i}"
  have "finite (round_done_key prefix -` {k. view s k \<noteq> None})"
    by (rule finite_vimageI [OF assms(2)]) (auto simp: inj_def dest: round_done_key_inj)
  moreover have "?K n \<subseteq> round_done_key prefix -` {k. view s k \<noteq> None}" for n
    by (auto simp: round_closed_def bind_eq_Some_conv)
  ultimately have fin: "finite (?K n)" for n by (metis finite_subset)
  show ?thesis
  proof (induction "card (?K n)" arbitrary: n rule: less_induct)
    case less
    show ?case
    proof (cases "round_closed view prefix s n")
      case True
      have "?K n = insert n (?K (n + 1))" using True by auto
      then have "card (?K (n + 1)) < card (?K n)" using fin [of "n + 1"] by simp
      from less.hyps [OF this] obtain r m where m: "scan_rounds st prefix s (n + 1) = Some r" "n + 1 \<le> m"
        "{n + 1..<m} \<subseteq> {i. round_closed view prefix s i}" "\<not> round_closed view prefix s m"
        "r = (case view s (round_done_key prefix m) of None \<Rightarrow> Inr (m, None)
           | Some t \<Rightarrow> if py_int t = None then Inl BadValue else Inr (m, Some m))" by blast
      have "scan_rounds st prefix s n = Some r"
        using True m(1) by (subst scan_turn [OF assms(1)]) (auto simp: round_closed_def split: option.splits)
      moreover have "{n..<m} = insert n {n + 1..<m}" using m(2) by auto
      then have "{n..<m} \<subseteq> {i. round_closed view prefix s i}" using m(3) True by simp
      ultimately show ?thesis using m(2,4,5) by (intro exI [of _ r] exI [of _ m]) simp
    next
      case False
      then have "scan_rounds st prefix s n = Some (case view s (round_done_key prefix n) of
          None \<Rightarrow> Inr (n, None) | Some t \<Rightarrow> if py_int t = None then Inl BadValue else Inr (n, Some n))"
        by (subst scan_turn [OF assms(1)]) (auto simp: round_closed_def split: option.splits)
      then show ?thesis using False by (intro exI [of _ n] exI conjI) auto
    qed
  qed
qed

definition demo_rounds :: "string \<Rightarrow> string option" where
  "demo_rounds = [''p:round_done_0'' \<mapsto> ''1'', ''p:round_done_1'' \<mapsto> ''1'', ''p:round_done_2'' \<mapsto> ''0'']"

theorem scan_finds_first_open_round_witness:
  "\<exists>r m. scan_rounds dict_store ''p'' demo_rounds 0 = Some r \<and> 0 \<le> m
    \<and> {0..<m} \<subseteq> {i. round_closed (\<lambda>m. m) ''p'' demo_rounds i}
    \<and> \<not> round_closed (\<lambda>m. m) ''p'' demo_rounds m"
proof -
  have "finite {k. demo_rounds k \<noteq> None}"
    by (rule finite_subset [of _ "{''p:round_done_0'', ''p:round_done_1'', ''p:round_done_2''}"])
      (auto simp: demo_rounds_def)
  then show ?thesis
    using scan_finds_first_open_round [OF dict_store_laws, of demo_rounds "''p''" 0] by blast
qed

text \<open>The first reason recorded for a shutdown stays.\<close>

lemma shutdown_reason_kept:
  assumes "store_laws st view" and "view s (shutdown_key prefix) = Some r" and "r \<noteq> []"
  shows "view (set_shutdown st prefix reason s) (shutdown_key prefix) = Some r"
  using compare_set_laws [OF assms(1), of "shutdown_key prefix" "[]" reason s] assms(2,3)
  by (simp add: set_shutdown_def)

lemma shutdown_recorded:
  assumes "store_laws st view"
    and "view s (shutdown_key prefix) = None \<or> view s (shutdown_key prefix) = Some []"
  shows "view (set_shutdown st prefix reason s) (shutdown_key prefix) = Some reason"
  using compare_set_laws [OF assms(1), of "shutdown_key prefix" "[]" reason s] assms(2)
  by (auto simp: set_shutdown_def)

lemma shutdown_key_not_round: "shutdown_key prefix \<noteq> round_done_key prefix n"
  by (simp add: shutdown_key_def round_done_key_def)

lemma open_keeps_shutdown:
  assumes "store_laws st view" and "\<And>i s. view (env i s) (shutdown_key prefix) = view s (shutdown_key prefix)"
  shows "view (open_rendezvous st env prefix rnd s) (shutdown_key prefix) = view s (shutdown_key prefix)"
  using assms(2) shutdown_key_not_round
  by (simp add: open_rendezvous_def Let_def store_laws_simps(3) [OF assms(1)])

text \<open>
  A broadcast stop reaches every node and keeps its reason. After the host signals that the job
  must not be restarted, the next round is there for the healthy nodes' poll, the rendezvous is
  shut down, and the recorded reason is the first one given; a later shutdown does not change it.
\<close>

theorem stop_signal_is_seen:
  assumes "store_laws st view"
    and "\<And>i s. view (env i s) (shutdown_key prefix) = view s (shutdown_key prefix)"
    and "view s (shutdown_key prefix) = Some []" and "reason \<noteq> []"
  shows "is_next_round_open st prefix rnd (signal_no_restart st env prefix rnd reason s)
    \<and> is_shutdown st prefix (signal_no_restart st env prefix rnd reason s) = Inr True
    \<and> get_shutdown_reason st prefix (set_shutdown st prefix later
         (signal_no_restart st env prefix rnd reason s)) = Inr (Some reason)"
proof -
  let ?t = "signal_no_restart st env prefix rnd reason s"
  have "view (set_shutdown st prefix reason s) (shutdown_key prefix) = Some reason"
    using shutdown_recorded [OF assms(1)] assms(3) by blast
  then have r: "view ?t (shutdown_key prefix) = Some reason"
    by (simp add: signal_no_restart_def open_keeps_shutdown [OF assms(1,2)])
  have o: "view ?t (round_done_key prefix (rnd + 1)) \<noteq> None"
    by (auto simp: signal_no_restart_def open_rendezvous_def Let_def store_laws_simps [OF assms(1)])
  show ?thesis
    using r o assms(4) shutdown_reason_kept [OF assms(1) r assms(4)]
    by (simp add: is_next_round_open_def is_shutdown_def get_shutdown_reason_def store_laws_simps [OF assms(1)])
qed

theorem stop_signal_is_seen_witness:
  "get_shutdown_reason dict_store ''p'' (set_shutdown dict_store ''p'' ''graceful''
      (signal_no_restart dict_store (\<lambda>i m. m) ''p'' 3 ''stop'' [''p:shutdown'' \<mapsto> []])) = Inr (Some ''stop'')"
proof -
  have "shutdown_key ''p'' = ''p:shutdown''" by (simp add: shutdown_key_def)
  then show ?thesis
    using stop_signal_is_seen [OF dict_store_laws, of "\<lambda>i m. m" "''p''" "[''p:shutdown'' \<mapsto> []]" "''stop''" 3 "''graceful''"]
    by simp
qed

text \<open>
  Opening a round is a check and a separate write. When another node has opened the round in
  between and the host has already closed it, the write opens the closed round again.
\<close>

lemma late_open_reopens_closed_round:
  assumes "store_laws st view" and "view (env 0 s) (round_done_key prefix (rnd + 1)) = None"
    and "view (env 1 (env 0 s)) (round_done_key prefix (rnd + 1)) = Some ''1''"
  shows "view (open_rendezvous st env prefix rnd s) (round_done_key prefix (rnd + 1)) = Some ''0''"
  using assms(2,3) by (simp add: open_rendezvous_def Let_def store_laws_simps [OF assms(1)])

section \<open>The snapshot of the slots\<close>

lemma take_drop_split:
  "lo \<le> mid \<Longrightarrow> mid \<le> hi \<Longrightarrow>
   take (hi - lo) (drop lo xs) = take (mid - lo) (drop lo xs) @ take (hi - mid) (drop mid xs)"
  using take_add [of "mid - lo" "hi - mid" "drop lo xs"] by (simp add: add.commute)

lemma present_keys_loop_filter:
  "(\<And>part. check part = list_all P part) \<Longrightarrow>
   mset (present_keys_loop check ks rs present) =
     mset present + (\<Sum>(lo, hi) \<leftarrow> rs. mset (filter P (take (hi - lo) (drop lo ks))))"
proof (induction check ks rs present rule: present_keys_loop.induct)
  case (2 check ks lo hi rs present)
  let ?part = "take (hi - lo) (drop lo ks)" and ?mid = "(lo + hi) div 2"
  show ?case
  proof (cases "lo \<ge> hi")
    case True
    then show ?thesis using 2(1) 2(5) by simp
  next
    case False
    consider "list_all P ?part" | "\<not> list_all P ?part" "hi - lo = 1" | "\<not> list_all P ?part" "hi - lo \<noteq> 1"
      by blast
    then show ?thesis
    proof cases
      case 1
      then have "filter P ?part = ?part" by (simp add: list_all_iff)
      then have "filter_mset P (mset ?part) = mset ?part" by (simp flip: mset_filter)
      then show ?thesis using 2(2) [OF False refl] 2(5) 1 False by simp
    next
      case part: 2
      then have "filter P ?part = []"
        by (cases "drop lo ks") auto
      then have "filter_mset P (mset ?part) = {#}" by (simp flip: mset_filter)
      then show ?thesis using 2(3) [OF False refl] 2(5) part False by simp
    next
      case part: 3
      have "?part = take (?mid - lo) (drop lo ks) @ take (hi - ?mid) (drop ?mid ks)"
        using False by (intro take_drop_split) auto
      then have "mset (filter P ?part) = mset (filter P (take (hi - ?mid) (drop ?mid ks)))
          + mset (filter P (take (?mid - lo) (drop lo ks)))"
        by simp
      moreover have "present_keys_loop check ks ((lo, hi) # rs) present
          = present_keys_loop check ks ((?mid, hi) # (lo, ?mid) # rs) present"
        using False part 2(5) by (subst present_keys_loop.simps) (simp only: Let_def if_False)
      moreover have "mset (present_keys_loop check ks ((?mid, hi) # (lo, ?mid) # rs) present) = mset present
          + (\<Sum>(lo, hi) \<leftarrow> (?mid, hi) # (lo, ?mid) # rs. mset (filter P (take (hi - lo) (drop lo ks))))"
        using 2(4) [OF False refl _ part(2) refl] 2(5) part(1) by metis
      ultimately show ?thesis by (simp del: present_keys_loop.simps)
    qed
  qed
qed simp

lemma present_slot_keys_filter:
  assumes "store_laws st view"
  shows "mset (present_slot_keys st ks s) = mset (filter (\<lambda>k. view s k \<noteq> None) ks)"
proof -
  have check: "st_check st part s = list_all (\<lambda>k. view s k \<noteq> None) part" for part
    using store_laws_simps(1) [OF assms] by (simp add: list_all_iff)
  show ?thesis
    using present_keys_loop_filter [where check = "\<lambda>part. st_check st part s", OF check, of ks "[(0, length ks)]" "[]"]
    by (simp add: present_slot_keys_def)
qed

text \<open>
  The snapshot of the slots is the pointwise reading of the store. Whether or not slots are
  missing, and in whatever order the divide and conquer visits them, entry i is the participant
  that slot holds for the expected round, or nothing when the slot is absent, malformed or of
  another round; a missing slot never makes the host wait.
\<close>

theorem snapshot_reads_every_slot:
  assumes "store_laws st view" and "1 \<le> start"
  shows "get_all_participants st prefix last_slot start expected existing s =
    Inr ((case existing of None \<Rightarrow> [] | Some ps \<Rightarrow> ps)
      @ map (\<lambda>i. slot_participant expected (view s (slot_key prefix i))) [start..last_slot])"
proof -
  let ?keys = "map (slot_key prefix) [start..last_slot]"
  let ?present = "present_slot_keys st ?keys s"
  have m: "mset ?present = mset (filter (\<lambda>k. view s k \<noteq> None) ?keys)"
    by (rule present_slot_keys_filter [OF assms(1)])
  then have p: "set ?present = {k \<in> set ?keys. view s k \<noteq> None}"
    using mset_eq_setD [OF m] by auto
  have get: "st_multi_get st ?present s = Some (map (\<lambda>k. the (view s k)) ?present)"
    using p by (simp add: store_laws_simps(4) [OF assms(1)])
  have look: "map_of (rev (zip ?present (map (\<lambda>k. the (view s k)) ?present))) k = view s k"
    if "k \<in> set ?keys" for k
    using that p map_of_zip_map [of "rev ?present" "\<lambda>k. the (view s k)"]
    by (auto simp: zip_rev [symmetric] rev_map [symmetric])
  have fin: "map (slot_participant expected) (map (view s) ?keys)
      = map (\<lambda>i. slot_participant expected (view s (slot_key prefix i))) [start..last_slot]"
    by (simp add: comp_def)
  note laws = store_laws_simps(1,4) [OF assms(1)]
  consider "start > last_slot" | "start \<le> last_slot" "\<forall>k \<in> set ?keys. view s k \<noteq> None"
    | "start \<le> last_slot" "\<not> (\<forall>k \<in> set ?keys. view s k \<noteq> None)" by linarith
  then show ?thesis
  proof cases
    case 1
    then show ?thesis using assms(2) by (simp add: get_all_participants_def)
  next
    case 2
    then have "map Some (map (\<lambda>k. the (view s k)) ?keys) = map (view s) ?keys" by auto
    then show ?thesis
      using assms(2) 2 unfolding get_all_participants_def Let_def laws by (simp only: fin [symmetric]) simp
  next
    case 3
    have "map (map_of (rev (zip ?present (map (\<lambda>k. the (view s k)) ?present)))) ?keys = map (view s) ?keys"
      by (rule map_cong [OF refl look])
    moreover have "(if ?present = [] then Some [] else st_multi_get st ?present s)
        = Some (map (\<lambda>k. the (view s k)) ?present)"
      using get by simp
    ultimately show ?thesis
      using assms(2) 3 unfolding get_all_participants_def Let_def laws(1) by (simp only: fin [symmetric]) simp
  qed
qed

lemma store_value_pack_not_empty: "store_value_pack r p \<noteq> []"
  by (simp add: store_value_pack_def dumps_with.simps)

lemma pack_participant_value_not_empty: "pack_participant_value p r \<noteq> []"
  by (simp add: pack_participant_value_def store_value_pack_not_empty)

lemma slot_participant_packed: "slot_participant (Some r) (Some (pack_participant_value p r)) = Some p"
  by (simp add: slot_participant_def unpack_pack_participant pack_participant_value_not_empty)

text \<open>The first of two nodes took a slot and died before it wrote.\<close>

theorem snapshot_reads_every_slot_witness:
  "get_all_participants dict_store ''p'' 2 1 (Some 3) None
     [''p:slot_2'' \<mapsto> pack_participant_value (NodeDesc ''n'' 7 0, 4, ''none'', None) 3]
   = Inr [None, Some (NodeDesc ''n'' 7 0, 4, ''none'', None)]"
proof -
  have k: "slot_key ''p'' 1 = ''p:slot_1''" "slot_key ''p'' 2 = ''p:slot_2''" by code_simp+
  have u: "[1..2] = [1, 2 :: int]" by (simp add: upto.simps)
  show ?thesis
    using snapshot_reads_every_slot [OF dict_store_laws, of 1 "''p''" 2 "Some 3" None
        "[''p:slot_2'' \<mapsto> pack_participant_value (NodeDesc ''n'' 7 0, 4, ''none'', None) 3]"]
    by (simp add: u k slot_participant_packed) (simp add: slot_participant_def)
qed

end
