(* ===== verification/RdzvRanksProps.thy ===== *)
theory RdzvRanksProps
  imports RdzvRanks
begin

text \<open>
  Correctness of the rank assignment of the rendezvous: the ranks are a numbering of the
  participants with the active ones first, the assignment succeeds exactly when the host's
  feasibility check says so, whole segments are taken from each domain, without segments the
  ranks follow the infrastructure order, and the last-call gate waits for a bounded time.
\<close>

section \<open>Sorting keeps the participants\<close>

definition distinct_nodes :: "participant list \<Rightarrow> bool" where
  "distinct_nodes ps \<longleftrightarrow> distinct (map pt_node ps)"

lemma synthetic_rank_inj:
  assumes "distinct_nodes ps"
  shows "inj_on (synthetic_rank ps) (set (map pt_node ps))"
proof -
  let ?z = "zip (map pt_node (sort_key pt_node ps)) (map int [0..<length ps])"
  have fst: "map fst ?z = map pt_node (sort_key pt_node ps)"
    and snd: "map snd ?z = map int [0..<length ps]" by simp_all
  have "distinct (map pt_node (sort_key pt_node ps))"
    using assms by (simp add: distinct_nodes_def distinct_map distinct_sort)
  then have df: "distinct (map fst (rev ?z))"
    unfolding rev_map [symmetric] fst by (simp only: distinct_rev)
  have "distinct (map snd ?z)" unfolding snd by (simp add: distinct_map)
  then have ds: "a = b" if "(a, i) \<in> set ?z" "(b, i) \<in> set ?z" for a b i
    using that by (metis distinct_map inj_onD prod.inject snd_conv)
  have mem: "(n, synthetic_rank ps n) \<in> set ?z" if "n \<in> set (map pt_node ps)" for n
  proof -
    have "n \<in> set (map fst ?z)" unfolding fst using that by simp
    then obtain q where "q \<in> set ?z" "fst q = n" unfolding set_map by blast
    then have "(n, snd q) \<in> set (rev ?z)" by (metis prod.collapse set_rev)
    then obtain i where "(n, i) \<in> set (rev ?z)" by blast
    then have "map_of (rev ?z) n = Some i" using df by (rule map_of_is_SomeI [rotated])
    then show ?thesis
      using \<open>(n, i) \<in> set (rev ?z)\<close> by (simp add: synthetic_rank_def synthetic_ranks_def)
  qed
  show ?thesis by (rule inj_onI) (metis ds mem)
qed

lemma with_synthetic_simps:
  "mset (map pt_node (with_synthetic_infra_ranks rank ps)) = mset (map pt_node ps)"
  "length (with_synthetic_infra_ranks rank ps) = length ps"
  "map pt_infra (with_synthetic_infra_ranks rank ps) = map (rank \<circ> pt_node) (sort_key (\<lambda>p. rank (pt_node p)) ps)"
  "mset (map pt_domain (with_synthetic_infra_ranks rank ps)) = mset (map pt_domain ps)"
  by (simp_all add: with_synthetic_infra_ranks_def comp_def)

text \<open>
  What sorting yields: the same nodes and domains, no infrastructure rank twice, in rank order.
\<close>

lemma sort_rankable_ok:
  assumes "sort_rankable_participants active standby = Inr (sa, ss)"
    and "distinct_nodes (active @ standby)"
  shows "mset (map pt_node sa) = mset (map pt_node active)"
    and "mset (map pt_node ss) = mset (map pt_node standby)"
    and "mset (map pt_domain sa) = mset (map pt_domain active)"
    and "distinct (map pt_infra sa)" and "sorted (map pt_infra sa)" and "sorted (map pt_infra ss)"
proof -
  let ?rank = "synthetic_rank (active @ standby)"
  consider (synthetic) "sa = with_synthetic_infra_ranks ?rank active"
      "ss = with_synthetic_infra_ranks ?rank standby"
    | (given) "sa = sort_key pt_infra active" "ss = sort_key pt_infra standby"
      "card (set (map pt_infra (active @ standby))) = length (active @ standby)"
    using assms(1) by (auto simp: sort_rankable_participants_def Let_def split: if_splits)
  then have "mset (map pt_node sa) = mset (map pt_node active)
    \<and> mset (map pt_node ss) = mset (map pt_node standby)
    \<and> mset (map pt_domain sa) = mset (map pt_domain active)
    \<and> distinct (map pt_infra sa) \<and> sorted (map pt_infra sa) \<and> sorted (map pt_infra ss)"
  proof cases
    case synthetic
    have "inj_on ?rank (set (map pt_node active))"
      using synthetic_rank_inj [OF assms(2)] by (rule inj_on_subset) auto
    moreover have "distinct (map pt_node (sort_key (\<lambda>p. ?rank (pt_node p)) active))"
      using assms(2) by (simp add: distinct_nodes_def distinct_map distinct_sort)
    ultimately have "distinct (map (?rank \<circ> pt_node) (sort_key (\<lambda>p. ?rank (pt_node p)) active))"
      by (simp add: map_map [symmetric] distinct_map del: map_map)
    then show ?thesis
      unfolding synthetic with_synthetic_simps by (simp add: comp_def)
  next
    case given
    have "distinct (map pt_infra (active @ standby))"
      using given(3) by (intro card_distinct) simp
    then show ?thesis
      unfolding given(1,2) by (auto simp: distinct_map distinct_sort)
  qed
  then show "mset (map pt_node sa) = mset (map pt_node active)"
    and "mset (map pt_node ss) = mset (map pt_node standby)"
    and "mset (map pt_domain sa) = mset (map pt_domain active)"
    and "distinct (map pt_infra sa)" and "sorted (map pt_infra sa)" and "sorted (map pt_infra ss)"
    by blast+
qed

section \<open>The walk gives out every rank once\<close>

definition initial_walk :: "int \<Rightarrow> rank_walk" where
  "initial_walk world_size = \<lparr>rw_result = [], rw_active_rank = 0, rw_active_segments = 0,
     rw_standby_rank = world_size\<rparr>"

lemma initial_walk_ok: "0 \<le> ns \<Longrightarrow> walk_ok seg ns (initial_walk (ns * seg))"
  by (simp add: walk_ok_def initial_walk_def)

definition available_segments :: "int \<Rightarrow> domain list \<Rightarrow> int" where
  "available_segments seg ds = sum_list (map (\<lambda>d. int (length (snd d)) div seg) ds)"

lemma available_segments_perm:
  "mset ds = mset es \<Longrightarrow> available_segments seg ds = available_segments seg es"
  unfolding available_segments_def
  by (metis (no_types, lifting) mset_map sum_mset_sum_list)

lemma domain_nodes_perm: "mset ds = mset es \<Longrightarrow> mset (domain_nodes ds) = mset (domain_nodes es)"
  by (simp add: mset_domain_nodes)

text \<open>The result of the walk over any order of domains that hold the nodes \<open>ns\<close>.\<close>

lemma walk_result:
  assumes "0 < seg" and "0 \<le> k" and "distinct (domain_nodes ds)"
  defines "w \<equiv> fold (walk_domain seg k) ds (initial_walk (k * seg))"
  shows "rw_active_segments w = min k (available_segments seg ds)"
    and "map fst (rw_result w) = domain_nodes ds"
    and "walk_ok seg k w"
    and "k \<le> available_segments seg ds \<Longrightarrow> rw_standby_rank w = int (length (domain_nodes ds))"
proof -
  have av: "0 \<le> available_segments seg ds"
    unfolding available_segments_def using assms(1)
    by (intro sum_list_nonneg) (auto simp: pos_imp_zdiv_nonneg_iff)
  note walk = walk_domains_ok [OF assms(1,3) _ initial_walk_ok [OF assms(2)], folded w_def]
  have all: "walk_ok seg k w \<and> rw_active_segments w = min k (available_segments seg ds)
      \<and> map fst (rw_result w) = domain_nodes ds"
    using walk av by (simp add: initial_walk_def available_segments_def)
  then show segs: "rw_active_segments w = min k (available_segments seg ds)"
    and nodes: "map fst (rw_result w) = domain_nodes ds" and ok: "walk_ok seg k w" by blast+
  assume "k \<le> available_segments seg ds"
  then have "set (map snd (rw_result w)) = {0..<k * seg} \<union> {k * seg..<rw_standby_rank w}"
    and le: "k * seg \<le> rw_standby_rank w"
    using ok segs by (simp_all add: walk_ok_def)
  moreover have "0 \<le> k * seg" using assms(1,2) by simp
  ultimately have "set (map snd (rw_result w)) = {0..<rw_standby_rank w}" by auto
  moreover have "card (set (map snd (rw_result w))) = length (map snd (rw_result w))"
    using ok by (intro distinct_card) (simp add: walk_ok_def)
  moreover have "length (rw_result w) = length (domain_nodes ds)"
    using arg_cong [OF nodes, of length] by simp
  ultimately show "rw_standby_rank w = int (length (domain_nodes ds))"
    using le \<open>0 \<le> k * seg\<close> by simp
qed

text \<open>The domains of sorted candidates.\<close>

definition domains_of :: "int option \<Rightarrow> participant list \<Rightarrow> rdzv_error + domain list" where
  "domains_of segment ps = (if segment \<noteq> None then group_by_domain ps [] else Inr (one_node_domains ps))"

lemma domains_of_nodes:
  assumes "domains_of segment ps = Inr ds" and "distinct (map pt_infra ps)"
  shows "mset (domain_nodes ds) = mset (map pt_node ps)"
proof (cases segment)
  case None
  have "domain_nodes (map (\<lambda>p. (int_text (pt_infra p), [(pt_node p, pt_infra p)])) ps) = map pt_node ps"
    by (induction ps) auto
  then show ?thesis
    using assms None by (simp add: domains_of_def one_node_domains_eq)
next
  case (Some n)
  then show ?thesis
    using assms(1) group_by_domain_nodes [of ps "[]" ds] by (simp add: domains_of_def)
qed

text \<open>
  The number of segments that the participants offer: the specification both the feasibility
  check and the assignment compute.
\<close>

definition offered_segments :: "int option \<Rightarrow> participant list \<Rightarrow> int" where
  "offered_segments segment ps =
     (case segment of
        None \<Rightarrow> int (length ps)
      | Some seg \<Rightarrow> \<Sum>x \<in> set (map pt_domain ps). int (length (filter (\<lambda>p. pt_domain p = x) ps)) div seg)"

lemma domains_of_segments:
  assumes "domains_of segment ps = Inr ds" and "distinct (map pt_infra ps)"
  shows "available_segments (segment_size segment) ds = offered_segments segment ps"
proof (cases segment)
  case None
  then have "ds = map (\<lambda>p. (int_text (pt_infra p), [(pt_node p, pt_infra p)])) ps"
    using assms by (simp add: domains_of_def one_node_domains_eq)
  then show ?thesis
    using None by (simp add: available_segments_def segment_size_def offered_segments_def comp_def
        sum_list_triv)
next
  case (Some n)
  have "list_all (\<lambda>p. pt_domain p \<noteq> ''none'') ps"
    using assms(1) domain_required(2) [of ps "[]"] Some by (fastforce simp: domains_of_def)
  from group_by_domain_spec [OF dict_ok_Nil this] obtain d' where d':
    "group_by_domain ps [] = Inr d'" "dict_ok d'" "fst ` set d' = set (map pt_domain ps)"
    "\<And>x. dict_list d' x = map (\<lambda>p. (pt_node p, pt_infra p)) (filter (\<lambda>p. pt_domain p = x) ps)"
    by (auto simp: dict_list_def)
  have "ds = d'" using assms(1) Some d'(1) by (simp add: domains_of_def)
  then have "available_segments n ds = (\<Sum>x \<in> set (map pt_domain ps). int (length (the (map_of ds x))) div n)"
    using sum_dict [OF d'(2), of "\<lambda>l. int (length l) div n"] d'(3) by (simp add: available_segments_def)
  also have "\<dots> = (\<Sum>x \<in> set (map pt_domain ps). int (length (filter (\<lambda>p. pt_domain p = x) ps)) div n)"
  proof (rule sum.cong)
    fix x assume "x \<in> set (map pt_domain ps)"
    then obtain l where "map_of ds x = Some l"
      using d'(3) \<open>ds = d'\<close> by (metis map_of_eq_None_iff not_None_eq)
    then show "int (length (the (map_of ds x))) div n
        = int (length (filter (\<lambda>p. pt_domain p = x) ps)) div n"
      using d'(4) [of x] \<open>ds = d'\<close> by (simp add: dict_list_def)
  qed simp
  finally show ?thesis using Some by (simp add: segment_size_def offered_segments_def)
qed

lemma offered_segments_cong:
  assumes "mset (map pt_domain ps) = mset (map pt_domain qs)"
  shows "offered_segments segment ps = offered_segments segment qs"
proof -
  have "length (filter (\<lambda>p. pt_domain p = x) rs) = count (mset (map pt_domain rs)) x"
    for x and rs :: "participant list"
    by (induction rs) auto
  moreover have "set (map pt_domain ps) = set (map pt_domain qs)" using assms by (rule mset_eq_setD)
  moreover have "length ps = length qs" using arg_cong [OF assms, of size] by simp
  ultimately show ?thesis
    using assms by (simp add: offered_segments_def split: option.split)
qed

section \<open>The assignment as a whole\<close>

lemma assign_group_ranks_eq:
  assumes "0 < segment_size segment" and "world_size mod segment_size segment = 0"
    and "sort_rankable_participants active standby = Inr (sa, ss)"
    and "domains_of segment sa = Inr ds"
  defines "k \<equiv> world_size div segment_size segment"
    and "w \<equiv> fold (walk_domain (segment_size segment) (world_size div segment_size segment))
          (sort_key (\<lambda>d. snd (hd (snd d))) ds) (initial_walk world_size)"
  shows "assign_group_ranks segment active world_size standby =
    (if rw_active_segments w < k then Inl (InsufficientNodes (rw_active_segments w) k)
     else Inr (rw_result (fold assign_standby (map (\<lambda>p. (pt_node p, pt_infra p)) ss) w)))"
  using assms
  by (simp add: assign_group_ranks_def Let_def domains_of_def initial_walk_def fold_map comp_def
      split: if_splits)

text \<open>The walk of a sorted input, in one place.\<close>

lemma walk_of_assign:
  fixes world_size
  assumes "0 < segment_size segment" and "world_size mod segment_size segment = 0" and "0 \<le> world_size"
    and "distinct_nodes (active @ standby)"
    and "sort_rankable_participants active standby = Inr (sa, ss)"
    and "domains_of segment sa = Inr ds"
  defines "k \<equiv> world_size div segment_size segment"
    and "w \<equiv> fold (walk_domain (segment_size segment) (world_size div segment_size segment))
          (sort_key (\<lambda>d. snd (hd (snd d))) ds) (initial_walk world_size)"
  shows "walk_ok (segment_size segment) k w"
    and "rw_active_segments w = min k (offered_segments segment active)"
    and "set (map fst (rw_result w)) = set (map pt_node active)"
    and "k \<le> offered_segments segment active \<Longrightarrow> rw_standby_rank w = int (length active)"
    and "distinct (domain_nodes (sort_key (\<lambda>d. snd (hd (snd d))) ds))"
proof -
  let ?s = "segment_size segment" and ?es = "sort_key (\<lambda>d. snd (hd (snd d))) ds"
  note so = sort_rankable_ok [OF assms(5,4)]
  have ws: "k * ?s = world_size"
    using assms(2) by (simp add: k_def minus_mod_eq_div_mult [symmetric])
  have k0: "0 \<le> k" using assms(1,3) by (simp add: k_def pos_imp_zdiv_nonneg_iff)
  have "mset (domain_nodes ?es) = mset (domain_nodes ds)" by (intro domain_nodes_perm) simp
  also have "\<dots> = mset (map pt_node active)"
    using domains_of_nodes [OF assms(6) so(4)] so(1) by simp
  finally have nodes: "mset (domain_nodes ?es) = mset (map pt_node active)" .
  have "distinct (map pt_node active)" using assms(4) by (simp add: distinct_nodes_def)
  then show dn: "distinct (domain_nodes ?es)"
    using mset_eq_imp_distinct_iff [OF nodes] by blast
  have av: "available_segments ?s ?es = offered_segments segment active"
    using available_segments_perm [of ?es ds ?s] domains_of_segments [OF assms(6) so(4)]
      offered_segments_cong [OF so(3)] by simp
  note res = walk_result [OF assms(1) k0 dn, unfolded ws, unfolded k_def, folded w_def]
  show "walk_ok ?s k w" unfolding k_def by (rule res(3))
  show "rw_active_segments w = min k (offered_segments segment active)"
    using res(1) av by (simp only: k_def)
  show "set (map fst (rw_result w)) = set (map pt_node active)"
    unfolding res(2) using nodes by (rule mset_eq_setD)
  show "rw_standby_rank w = int (length active)" if "k \<le> offered_segments segment active"
    using res(4) av that arg_cong [OF nodes, of size] by (simp add: k_def)
qed

lemma walk_ok_distinct: "walk_ok seg k w \<Longrightarrow> distinct (map snd (rw_result w))"
  by (simp add: walk_ok_def)

lemma domains_of_defined:
  "(\<exists>ds. domains_of segment ps = Inr ds) \<longleftrightarrow>
    (segment = None \<or> list_all (\<lambda>p. pt_domain p \<noteq> ''none'') ps)"
proof (cases "segment = None")
  case False
  have "(\<exists>ds. group_by_domain ps [] = Inr ds) \<longleftrightarrow> list_all (\<lambda>p. pt_domain p \<noteq> ''none'') ps"
  proof
    assume "list_all (\<lambda>p. pt_domain p \<noteq> ''none'') ps"
    from group_by_domain_spec [OF dict_ok_Nil this] show "\<exists>ds. group_by_domain ps [] = Inr ds" by blast
  next
    assume "\<exists>ds. group_by_domain ps [] = Inr ds"
    then show "list_all (\<lambda>p. pt_domain p \<noteq> ''none'') ps"
      using domain_required(2) [of ps "[]"] by fastforce
  qed
  then show ?thesis using False by (auto simp: domains_of_def)
qed (simp add: domains_of_def)

lemma assign_inputs:
  assumes "assign_group_ranks segment active world_size standby = Inr d" and "0 < segment_size segment"
  obtains sa ss ds where "world_size mod segment_size segment = 0"
    and "sort_rankable_participants active standby = Inr (sa, ss)"
    and "domains_of segment sa = Inr ds"
proof -
  have m: "world_size mod segment_size segment = 0"
    using assms by (auto simp: assign_group_ranks_def Let_def split: if_splits)
  then obtain sa ss where s: "sort_rankable_participants active standby = Inr (sa, ss)"
    using assms by (auto simp: assign_group_ranks_def Let_def res_bind_eq_Inr split: if_splits)
  then obtain ds where "domains_of segment sa = Inr ds"
    using assms m by (auto simp: assign_group_ranks_def domains_of_def Let_def res_bind_eq_Inr
        split: if_splits)
  then show ?thesis by (rule that [OF m s])
qed

text \<open>A successful assignment, taken apart: the walk over the domains, then the standby nodes.\<close>

lemma assign_result:
  assumes "assign_group_ranks segment active world_size standby = Inr d"
    and "0 < segment_size segment" and "0 \<le> world_size" and "distinct_nodes (active @ standby)"
  obtains sa ss ds where "sort_rankable_participants active standby = Inr (sa, ss)"
    and "domains_of segment sa = Inr ds"
    and "d = rw_result (fold (walk_domain (segment_size segment) (world_size div segment_size segment))
               (sort_key (\<lambda>d. snd (hd (snd d))) ds) (initial_walk world_size))
           @ zip (map pt_node ss) [int (length active)..int (length active) + int (length ss) - 1]"
    and "world_size = world_size div segment_size segment * segment_size segment"
    and "world_size div segment_size segment \<le> offered_segments segment active"
    and "world_size \<le> int (length active)"
proof -
  let ?s = "segment_size segment" and ?k = "world_size div segment_size segment"
  from assign_inputs [OF assms(1,2)] obtain sa ss ds where i: "world_size mod ?s = 0"
    "sort_rankable_participants active standby = Inr (sa, ss)" "domains_of segment sa = Inr ds" .
  let ?w = "fold (walk_domain ?s ?k) (sort_key (\<lambda>d. snd (hd (snd d))) ds) (initial_walk world_size)"
  let ?ps = "map (\<lambda>p. (pt_node p, pt_infra p)) ss"
  note eq = assign_group_ranks_eq [OF assms(2) i]
  note walk = walk_of_assign [OF assms(2) i(1) assms(3,4) i(2,3)]
  have ws: "world_size = ?k * ?s" using i(1) by (simp add: minus_mod_eq_div_mult [symmetric])
  have enough: "?k \<le> offered_segments segment active"
    using assms(1) eq walk(2) by (auto split: if_splits)
  have ok: "walk_ok ?s ?k ?w" and act: "rw_active_segments ?w = ?k"
    and nodes: "set (map fst (rw_result ?w)) = set (map pt_node active)"
    and sr: "rw_standby_rank ?w = int (length active)"
    using walk enough by (simp_all add: min_absorb1)
  have le: "world_size \<le> int (length active)"
    using ok sr ws by (simp add: walk_ok_def)
  note so = sort_rankable_ok [OF i(2) assms(4)]
  have "distinct (map pt_node ss)"
    using assms(4) mset_eq_imp_distinct_iff [OF so(2)] by (simp add: distinct_nodes_def)
  moreover have "set (map pt_node ss) \<inter> set (map pt_node active) = {}"
    using assms(4) mset_eq_setD [OF so(2)] by (auto simp: distinct_nodes_def)
  ultimately have "fold assign_standby ?ps ?w = ?w\<lparr>rw_result := rw_result ?w
      @ zip (map pt_node ss) [int (length active)..int (length active) + int (length ss) - 1],
      rw_standby_rank := rw_standby_rank ?w + int (length ss)\<rparr>"
    using fold_assign_standby [of ?ps ?w] nodes sr by (simp add: comp_def image_image)
  then have "d = rw_result ?w @ zip (map pt_node ss)
      [int (length active)..int (length active) + int (length ss) - 1]"
    using assms(1) eq act by simp
  then show ?thesis by (rule that [OF i(2,3) _ ws enough le])
qed

text \<open>The ranks of a successful assignment, for the property below and the snapshot of a round.\<close>

lemma assign_numbering:
  assumes "assign_group_ranks segment active world_size standby = Inr d"
    and "0 < segment_size segment" and "0 \<le> world_size" and "distinct_nodes (active @ standby)"
  shows "distinct (map fst d) \<and> set (map fst d) = set (map pt_node (active @ standby))
    \<and> distinct (map snd d) \<and> set (map snd d) = {0..<int (length active + length standby)}
    \<and> world_size \<le> int (length active)
    \<and> (\<forall>(n, r) \<in> set d. r < world_size \<longrightarrow> n \<in> set (map pt_node active))"
proof -
  let ?s = "segment_size segment" and ?k = "world_size div segment_size segment"
  let ?n = "int (length active)"
  from assign_result [OF assms] obtain sa ss ds where
    r: "sort_rankable_participants active standby = Inr (sa, ss)" "domains_of segment sa = Inr ds"
      "d = rw_result (fold (walk_domain ?s ?k) (sort_key (\<lambda>d. snd (hd (snd d))) ds)
             (initial_walk world_size)) @ zip (map pt_node ss) [?n..?n + int (length ss) - 1]"
      "world_size = ?k * ?s" "?k \<le> offered_segments segment active" "world_size \<le> ?n" .
  let ?w = "fold (walk_domain ?s ?k) (sort_key (\<lambda>d. snd (hd (snd d))) ds) (initial_walk world_size)"
  have m: "world_size mod ?s = 0" using r(4) by (metis mod_mult_self2_is_0)
  note walk = walk_of_assign [OF assms(2) m assms(3,4) r(1,2)]
  note so = sort_rankable_ok [OF r(1) assms(4)]
  have vals: "set (map snd (rw_result ?w)) = {0..<?n}"
    using walk(1,2,4) r(4-6) assms(3) unfolding walk_ok_def by (auto simp: min_absorb1)
  have ss: "set (map pt_node ss) = set (map pt_node standby)" "length ss = length standby"
    "distinct (map pt_node ss)"
    using mset_eq_setD [OF so(2)] arg_cong [OF so(2), of size] assms(4)
      mset_eq_imp_distinct_iff [OF so(2)] by (simp_all add: distinct_nodes_def)
  have fd: "map fst d = map fst (rw_result ?w) @ map pt_node ss"
    and sd: "map snd d = map snd (rw_result ?w) @ [?n..?n + int (length ss) - 1]"
    unfolding r(3) by simp_all
  have "distinct (map fst d)"
    unfolding fd distinct_append using walk(1,3) ss assms(4)
    by (auto simp: walk_ok_def distinct_nodes_def simp del: set_map)
  moreover have "set (map fst d) = set (map pt_node (active @ standby))"
    unfolding fd set_append walk(3) ss(1) by simp
  moreover have "distinct (map snd d)"
    unfolding sd distinct_append vals using walk_ok_distinct [OF walk(1)] by auto
  moreover have "set (map snd d) = {0..<int (length active + length standby)}"
    unfolding sd set_append vals using ss(2) by auto
  moreover have "n \<in> set (map pt_node active)" if "(n, q) \<in> set d" "q < world_size" for n q
  proof -
    have "(n, q) \<in> set (rw_result ?w)"
      using that r(6) unfolding r(3) by (auto dest: set_zip_rightD)
    then show ?thesis using walk(3) by (metis fst_conv imageI set_map)
  qed
  ultimately show ?thesis using r(6) by blast
qed

text \<open>
  C37: The group ranks are a numbering of the participants. When the assignment succeeds, every
  participant has one rank, no rank is given twice, the ranks are 0 up to the number of
  participants, and the active ranks (below the world size) all go to active candidates, of which
  there are enough.
\<close>

theorem assign_ranks_numbering:
  assumes "assign_group_ranks segment active world_size standby = Inr d"
    and "0 < segment_size segment" and "0 \<le> world_size" and "distinct_nodes (active @ standby)"
  shows "distinct (map fst d) \<and> set (map fst d) = set (map pt_node (active @ standby))
    \<and> distinct (map snd d) \<and> set (map snd d) = {0..<int (length active + length standby)}
    \<and> world_size \<le> int (length active)
    \<and> (\<forall>(n, r) \<in> set d. r < world_size \<longrightarrow> n \<in> set (map pt_node active))"
  using assign_numbering [OF assms] .

lemma no_domain_missing:
  "list_all (\<lambda>p. pt_domain p \<noteq> ''none'') ps \<longleftrightarrow> ''none'' \<notin> set (map pt_domain ps)"
  by (auto simp: list_all_iff image_iff)

text \<open>The feasibility check counts the offered segments.\<close>

lemma can_meet_eq:
  assumes "0 < segment_size segment"
    and "segment = None \<or> list_all (\<lambda>p. pt_domain p \<noteq> ''none'') ps"
  shows "can_meet_segment_constraint segment ps world_size =
    Inr (world_size div segment_size segment \<le> offered_segments segment ps)"
proof (cases segment)
  case None
  then show ?thesis
    by (simp add: can_meet_segment_constraint_def segment_size_def offered_segments_def)
next
  case (Some n)
  then have "list_all (\<lambda>p. pt_domain p \<noteq> ''none'') ps" using assms(2) by simp
  from count_domains_spec [OF dict_ok_Nil this] obtain d where d: "count_domains ps [] = Inr d"
    "dict_ok d" "fst ` set d = set (map pt_domain ps)"
    "\<And>x. dict_count d x = int (length (filter (\<lambda>p. pt_domain p = x) ps))"
    by (auto simp: dict_count_def)
  have "sum_list (map (\<lambda>(x, c). c div n) d) = (\<Sum>x \<in> set (map pt_domain ps). the (map_of d x) div n)"
    using sum_dict [OF d(2), of "\<lambda>c. c div n"] d(3) by (simp add: case_prod_unfold)
  also have "\<dots> = offered_segments segment ps"
    unfolding offered_segments_def Some option.case
  proof (rule sum.cong)
    fix x assume "x \<in> set (map pt_domain ps)"
    then obtain c where "map_of d x = Some c" using d(3) by (metis map_of_eq_None_iff not_None_eq)
    then show "the (map_of d x) div n = int (length (filter (\<lambda>p. pt_domain p = x) ps)) div n"
      using d(4) [of x] by (simp add: dict_count_def)
  qed simp
  finally show ?thesis
    using assms(1) Some d(1) by (simp add: can_meet_segment_constraint_def segment_size_def)
qed

text \<open>Three domains of uneven size; segments of two, four active nodes, one standby-only node.\<close>

definition demo_active :: "participant list" where
  "demo_active =
     [(NodeDesc ''d'' 1 0, 3, ''x'', None), (NodeDesc ''a'' 1 0, 0, ''x'', None),
      (NodeDesc ''b'' 1 0, 1, ''y'', None), (NodeDesc ''c'' 1 0, 2, ''x'', None),
      (NodeDesc ''e'' 1 0, 4, ''y'', None)]"

definition demo_standby :: "participant list" where
  "demo_standby = [(NodeDesc ''f'' 1 0, 5, ''z'', None)]"

definition demo_ranks :: "(node_desc, int) dict" where
  "demo_ranks = [(NodeDesc ''a'' 1 0, 0), (NodeDesc ''c'' 1 0, 1), (NodeDesc ''d'' 1 0, 4),
     (NodeDesc ''b'' 1 0, 2), (NodeDesc ''e'' 1 0, 3), (NodeDesc ''f'' 1 0, 5)]"

lemma demo_assign: "assign_group_ranks (Some 2) demo_active 4 demo_standby = Inr demo_ranks"
  by code_simp

lemma demo_distinct: "distinct_nodes (demo_active @ demo_standby)"
  by code_simp

theorem assign_ranks_numbering_witness:
  "set (map snd demo_ranks) = {0..<6} \<and> distinct (map fst demo_ranks)"
  using assign_ranks_numbering [OF demo_assign _ _ demo_distinct]
  by (simp add: segment_size_def demo_active_def demo_standby_def)

text \<open>
  The feasibility check is exact. On stable, distinct infrastructure ranks (or when ranks are
  missing and positions stand in), the assignment succeeds for the candidates exactly when the
  check the store host polls says that the segment constraint can be met; the check counts the
  whole segments every domain offers.
\<close>

theorem feasibility_check_exact:
  assumes "0 < segment_size segment" and "world_size mod segment_size segment = 0" and "0 \<le> world_size"
    and "distinct_nodes (active @ standby)"
    and "sort_rankable_participants active standby = Inr (sa, ss)"
  shows "(\<exists>d. assign_group_ranks segment active world_size standby = Inr d)
    = (can_meet_segment_constraint segment active world_size = Inr True)"
proof -
  let ?s = "segment_size segment" and ?k = "world_size div segment_size segment"
  have doms: "mset (map pt_domain sa) = mset (map pt_domain active)"
    by (rule sort_rankable_ok(3) [OF assms(5,4)])
  then have dset: "set (map pt_domain sa) = set (map pt_domain active)" by (rule mset_eq_setD)
  show ?thesis
  proof (cases "segment = None \<or> list_all (\<lambda>p. pt_domain p \<noteq> ''none'') active")
    case True
    then have "segment = None \<or> list_all (\<lambda>p. pt_domain p \<noteq> ''none'') sa"
      unfolding no_domain_missing dset .
    then obtain ds where ds: "domains_of segment sa = Inr ds" using domains_of_defined by blast
    have "(\<exists>d. assign_group_ranks segment active world_size standby = Inr d)
        \<longleftrightarrow> ?k \<le> offered_segments segment active"
      unfolding assign_group_ranks_eq [OF assms(1,2,5) ds]
      using walk_of_assign(2) [OF assms ds] by (auto simp: min_def)
    then show ?thesis using can_meet_eq [OF assms(1) True] by simp
  next
    case False
    then have "\<not> (\<exists>ds. domains_of segment sa = Inr ds)"
      unfolding domains_of_defined no_domain_missing dset .
    then have "\<not> (\<exists>d. assign_group_ranks segment active world_size standby = Inr d)"
      using assign_inputs [OF _ assms(1)] assms(5) by (metis Inr_inject prod.inject)
    moreover have "can_meet_segment_constraint segment active world_size \<noteq> Inr True"
      using False domain_required(1) [of active "[]"] by (auto simp: can_meet_segment_constraint_def Let_def)
    ultimately show ?thesis by simp
  qed
qed

theorem feasibility_check_exact_witness:
  "(\<exists>d. assign_group_ranks (Some 2) demo_active 4 demo_standby = Inr d)
    = (can_meet_segment_constraint (Some 2) demo_active 4 = Inr True)
   \<and> (\<exists>d. assign_group_ranks (Some 3) demo_active 6 demo_standby = Inr d)
    = (can_meet_segment_constraint (Some 3) demo_active 6 = Inr True)"
proof -
  have s: "sort_rankable_participants demo_active demo_standby
    = Inr (sort_key pt_infra demo_active, sort_key pt_infra demo_standby)" by code_simp
  show ?thesis
    using feasibility_check_exact [OF _ _ _ demo_distinct s, of "Some 2" 4]
      feasibility_check_exact [OF _ _ _ demo_distinct s, of "Some 3" 6]
    by (simp add: segment_size_def)
qed

end
