(* ===== verification/RdzvSegments.thy ===== *)
theory RdzvSegments
  imports RdzvRanksProps
begin

text \<open>
  The shape of the rank assignment of the rendezvous: active ranks come in whole segments of one
  domain, without segments the ranks follow the infrastructure order, the snapshot of the active
  nodes of a round, and the last-call gate built from it.
\<close>

section \<open>Whole segments\<close>

text \<open>Nodes whose active ranks lie in one aligned block of a segment's length share a domain.\<close>

definition blocks_ok :: "(node_desc \<Rightarrow> string) \<Rightarrow> int \<Rightarrow> int \<Rightarrow> (node_desc, int) dict \<Rightarrow> bool" where
  "blocks_ok f seg ns d \<longleftrightarrow>
     (\<forall>(n, r) \<in> set d. \<forall>(m, q) \<in> set d. r < ns * seg \<longrightarrow> r div seg = q div seg \<longrightarrow> f n = f m)"

lemma div_less_bound:
  assumes "0 < seg" shows "(r :: int) div seg < k \<longleftrightarrow> r < k * seg"
proof -
  let ?a = "r div seg"
  have r: "r = ?a * seg + r mod seg" and m: "0 \<le> r mod seg" "r mod seg < seg"
    using assms by simp_all
  have "r < k * seg" if "?a < k"
    using mult_right_mono [of "?a + 1" k seg] that assms r m unfolding distrib_right by linarith
  moreover have "\<not> r < k * seg" if "\<not> ?a < k"
    using mult_right_mono [of k ?a seg] that assms r m by linarith
  ultimately show ?thesis by blast
qed

lemma same_block_below:
  "0 < seg \<Longrightarrow> (r :: int) < k * seg \<Longrightarrow> r div seg = q div seg \<Longrightarrow> q < k * seg"
  by (metis div_less_bound)

lemma walk_domain_blocks:
  assumes "0 < seg" and "distinct (map fst (snd d))"
    and "fst ` set (snd d) \<inter> fst ` set (rw_result w) = {}" and "walk_ok seg ns w"
    and "list_all (\<lambda>p. f (fst p) = fst d) (snd d)" and "blocks_ok f seg ns (rw_result w)"
  shows "blocks_ok f seg ns (rw_result (walk_domain seg ns d w))"
proof -
  let ?t = "segments_to_take seg ns d w"
  let ?xs = "take (nat (?t * seg)) (snd d)" and ?ys = "drop (nat (?t * seg)) (snd d)"
  let ?as = "zip (map fst ?xs) [rw_active_rank w..rw_active_rank w + ?t * seg - 1]"
  let ?ss = "zip (map fst ?ys) [rw_standby_rank w..rw_standby_rank w + (int (length (snd d)) - ?t * seg) - 1]"
  have res: "rw_result (walk_domain seg ns d w) = rw_result w @ ?as @ ?ss"
    unfolding walk_domain_eq [OF assms(1-3)] by simp
  have w: "rw_active_rank w = rw_active_segments w * seg" "ns * seg \<le> rw_standby_rank w"
    "snd ` set (rw_result w) = {0..<rw_active_rank w} \<union> {ns * seg..<rw_standby_rank w}"
    using assms(4) by (simp_all add: walk_ok_def)
  have old: "r < rw_active_segments w * seg" if "(n, r) \<in> set (rw_result w)" "r < ns * seg" for n r
    using that w by force
  have new: "f n = fst d \<and> rw_active_segments w * seg \<le> r" if "(n, r) \<in> set ?as" for n r
    using that w(1) assms(5) set_take_subset [of "nat (?t * seg)" "snd d"]
    by (fastforce simp: list_all_iff dest: set_zip_leftD set_zip_rightD)
  have high: "ns * seg \<le> r" if "(n, r) \<in> set ?ss" for n r
    using that w(2) by (auto dest: set_zip_rightD)
  show ?thesis unfolding blocks_ok_def res
  proof (clarsimp, goal_cases)
    case (1 n r m q)
    have q: "q < ns * seg" using same_block_below [OF assms(1) 1(3,4)] .
    have sep: "r < rw_active_segments w * seg \<longleftrightarrow> q < rw_active_segments w * seg"
      using same_block_below [OF assms(1)] 1(4) by metis
    consider "(n, r) \<in> set (rw_result w)" "(m, q) \<in> set (rw_result w)"
      | "(n, r) \<in> set ?as" "(m, q) \<in> set ?as"
      using 1(1,2) high old new sep q 1(3) by (smt (verit))
    then show ?case
      using new assms(6) 1(3,4) by cases (auto simp: blocks_ok_def)
  qed
qed

lemma walk_domains_blocks:
  "0 < seg \<Longrightarrow> distinct (domain_nodes ds) \<Longrightarrow> set (domain_nodes ds) \<inter> fst ` set (rw_result w) = {} \<Longrightarrow>
   walk_ok seg ns w \<Longrightarrow> list_all (\<lambda>d. list_all (\<lambda>p. f (fst p) = fst d) (snd d)) ds \<Longrightarrow>
   blocks_ok f seg ns (rw_result w) \<Longrightarrow> blocks_ok f seg ns (rw_result (fold (walk_domain seg ns) ds w))"
proof (induction ds arbitrary: w)
  case (Cons d ds)
  have d: "distinct (map fst (snd d))" "fst ` set (snd d) \<inter> fst ` set (rw_result w) = {}"
    using Cons.prems(2,3) by auto
  have "fst ` set (rw_result (walk_domain seg ns d w)) = fst ` set (rw_result w) \<union> fst ` set (snd d)"
    using arg_cong [OF walk_domain_nodes [OF Cons.prems(1) d, of ns], of set] by simp
  then have "set (domain_nodes ds) \<inter> fst ` set (rw_result (walk_domain seg ns d w)) = {}"
    using Cons.prems(2,3) by auto
  moreover have "distinct (domain_nodes ds)"
    "list_all (\<lambda>d. list_all (\<lambda>p. f (fst p) = fst d) (snd d)) ds"
    using Cons.prems(2,5) by auto
  moreover have "blocks_ok f seg ns (rw_result (walk_domain seg ns d w))"
    using walk_domain_blocks [OF Cons.prems(1) d Cons.prems(4) _ Cons.prems(6)] Cons.prems(5) by simp
  ultimately show ?case
    using Cons.IH [OF Cons.prems(1)] walk_domain_ok(1) [OF Cons.prems(1) d Cons.prems(4)] by simp
qed simp

lemma node_domain_map:
  assumes "distinct_nodes ps" and "p \<in> set ps"
  shows "map_of (map (\<lambda>p. (pt_node p, pt_domain p)) ps) (pt_node p) = Some (pt_domain p)"
  using assms by (intro map_of_is_SomeI) (auto simp: distinct_nodes_def comp_def)

lemma sort_keeps_domains:
  assumes "sort_rankable_participants active standby = Inr (sa, ss)"
  shows "(\<lambda>p. (pt_node p, pt_domain p)) ` set sa = (\<lambda>p. (pt_node p, pt_domain p)) ` set active"
proof -
  have w: "(\<lambda>p. (pt_node p, pt_domain p)) ` set (with_synthetic_infra_ranks rank active)
      = (\<lambda>p. (pt_node p, pt_domain p)) ` set active" for rank
    by (simp add: with_synthetic_infra_ranks_def image_image)
  consider rank where "sa = with_synthetic_infra_ranks rank active" | "sa = sort_key pt_infra active"
    using assms by (auto simp: sort_rankable_participants_def Let_def split: if_splits)
  then show ?thesis by cases (simp_all only: w set_sort)
qed

lemma grouped_domain:
  assumes "group_by_domain ps [] = Inr ds" and "d \<in> set ds" and "q \<in> set (snd d)"
  shows "(fst q, fst d) \<in> (\<lambda>p. (pt_node p, pt_domain p)) ` set ps"
proof -
  have "list_all (\<lambda>p. pt_domain p \<noteq> ''none'') ps"
    using assms(1) domain_required(2) [of ps "[]"] by fastforce
  from group_by_domain_spec [OF dict_ok_Nil this] assms(1) have d': "dict_ok ds"
    "\<And>x. dict_list ds x = map (\<lambda>p. (pt_node p, pt_infra p)) (filter (\<lambda>p. pt_domain p = x) ps)"
    by (auto simp: dict_list_def)
  have "map_of ds (fst d) = Some (snd d)"
    using d'(1) assms(2) by (simp add: dict_ok_def)
  then have "q \<in> set (dict_list ds (fst d))" using assms(3) by (simp add: dict_list_def)
  then show ?thesis unfolding d'(2) by force
qed

text \<open>
  C38: Active ranks are given out in whole segments. With a segment size configured, two active
  candidates whose ranks fall into the same aligned block of that size below the world size are in
  the same domain: no segment of the training job straddles a domain boundary.
\<close>

theorem segments_within_domain:
  assumes "assign_group_ranks (Some seg) active world_size standby = Inr d"
    and "0 < seg" and "0 \<le> world_size" and "distinct_nodes (active @ standby)"
    and "p \<in> set active" and "(pt_node p, r) \<in> set d" and "r < world_size"
    and "q \<in> set active" and "(pt_node q, t) \<in> set d" and "r div seg = t div seg"
  shows "pt_domain p = pt_domain q"
proof -
  let ?k = "world_size div seg" and ?n = "int (length active)"
  let ?f = "\<lambda>n. the (map_of (map (\<lambda>p. (pt_node p, pt_domain p)) active) n)"
  have seg: "0 < segment_size (Some seg)" "segment_size (Some seg) = seg"
    using assms(2) by (simp_all add: segment_size_def)
  from assign_result [OF assms(1) seg(1) assms(3,4), unfolded seg(2)] obtain sa ss ds where
    a: "sort_rankable_participants active standby = Inr (sa, ss)" "domains_of (Some seg) sa = Inr ds"
      "d = rw_result (fold (walk_domain seg ?k) (sort_key (\<lambda>d. snd (hd (snd d))) ds)
             (initial_walk world_size)) @ zip (map pt_node ss) [?n..?n + int (length ss) - 1]"
      "world_size = ?k * seg" "world_size \<le> ?n" .
  let ?ds = "sort_key (\<lambda>d. snd (hd (snd d))) ds"
  have m: "world_size mod segment_size (Some seg) = 0" using a(4) seg(2) by (metis mod_mult_self2_is_0)
  have da: "distinct_nodes active" using assms(4) by (simp add: distinct_nodes_def)
  have "?f (fst x) = fst e" if "e \<in> set ds" "x \<in> set (snd e)" for e x
  proof -
    have "(fst x, fst e) \<in> (\<lambda>p. (pt_node p, pt_domain p)) ` set active"
      using grouped_domain [OF _ that, of sa] a(2) unfolding sort_keeps_domains [OF a(1)]
      by (simp add: domains_of_def)
    then show ?thesis using node_domain_map [OF da] by force
  qed
  then have "list_all (\<lambda>e. list_all (\<lambda>x. ?f (fst x) = fst e) (snd e)) ?ds"
    by (simp add: list_all_iff)
  moreover have "walk_ok seg ?k (initial_walk world_size)"
    using initial_walk_ok [of ?k seg] a(4) assms(2,3) by (simp add: pos_imp_zdiv_nonneg_iff)
  moreover note walk_of_assign(5) [OF seg(1) m assms(3,4) a(1,2)]
  ultimately have b: "blocks_ok ?f seg ?k (rw_result (fold (walk_domain seg ?k) ?ds (initial_walk world_size)))"
    by (intro walk_domains_blocks assms(2)) (simp_all add: initial_walk_def blocks_ok_def)
  have t: "t < world_size"
    using same_block_below [OF assms(2), of r ?k t] assms(7,10) a(4) by simp
  have "?f (pt_node p) = ?f (pt_node q)"
    using b assms(6,7,9,10) t a(4,5) unfolding a(3) blocks_ok_def
    by (fastforce dest: set_zip_rightD)
  then show ?thesis using node_domain_map [OF da] assms(5,8) by simp
qed

theorem segments_within_domain_witness:
  "pt_domain (NodeDesc ''b'' 1 0, 1, ''y'', None) = pt_domain (NodeDesc ''e'' 1 0, 4::int, ''y'', None :: string option)"
  using segments_within_domain [OF demo_assign _ _ demo_distinct,
      of "(NodeDesc ''b'' 1 0, 1, ''y'', None)" 2 "(NodeDesc ''e'' 1 0, 4, ''y'', None)" 3]
  by (simp add: demo_active_def demo_ranks_def)

section \<open>The order without segments\<close>

lemma upto_append: "i \<le> j \<Longrightarrow> j \<le> k + 1 \<Longrightarrow> [i..k] = [i..j - 1] @ [j..k]"
  by (cases "j = k + 1") (simp_all add: upto_split1)

abbreviation one_node_domain :: "participant \<Rightarrow> domain" where
  "one_node_domain p \<equiv> (int_text (pt_infra p), [(pt_node p, pt_infra p)])"

definition next_rank :: "int \<Rightarrow> rank_walk \<Rightarrow> int" where
  "next_rank ws w = (if rw_active_rank w < ws then rw_active_rank w else rw_standby_rank w)"

lemma walk_one_node:
  assumes "pt_node p \<notin> fst ` set (rw_result w)" and "rw_active_segments w = rw_active_rank w"
    and "rw_active_rank w < ws \<longrightarrow> rw_standby_rank w = ws" and "rw_active_rank w \<le> ws"
  shows "rw_result (walk_domain 1 ws (one_node_domain p) w) = rw_result w @ [(pt_node p, next_rank ws w)]"
    and "rw_active_segments (walk_domain 1 ws (one_node_domain p) w)
       = rw_active_rank (walk_domain 1 ws (one_node_domain p) w)"
    and "rw_active_rank (walk_domain 1 ws (one_node_domain p) w) < ws \<longrightarrow>
       rw_standby_rank (walk_domain 1 ws (one_node_domain p) w) = ws"
    and "rw_active_rank (walk_domain 1 ws (one_node_domain p) w) \<le> ws"
    and "next_rank ws (walk_domain 1 ws (one_node_domain p) w) = next_rank ws w + 1"
  using assms
  by (auto simp: walk_domain_def segments_to_take_def Let_def slice_to_def slice_from_def
      assign_active_def assign_standby_def update_new next_rank_def)

lemma walk_one_node_domains:
  "distinct (map pt_node ps) \<Longrightarrow> pt_node ` set ps \<inter> fst ` set (rw_result w) = {} \<Longrightarrow>
   rw_active_segments w = rw_active_rank w \<Longrightarrow> (rw_active_rank w < ws \<longrightarrow> rw_standby_rank w = ws) \<Longrightarrow>
   rw_active_rank w \<le> ws \<Longrightarrow>
   rw_result (fold (walk_domain 1 ws) (map one_node_domain ps) w) =
     rw_result w @ zip (map pt_node ps) [next_rank ws w..next_rank ws w + int (length ps) - 1]"
proof (induction ps arbitrary: w)
  case (Cons p ps)
  have new: "pt_node p \<notin> fst ` set (rw_result w)" using Cons.prems(2) by auto
  note step = walk_one_node [where ws = ws, OF new Cons.prems(3,4,5)]
  have "pt_node ` set ps \<inter> fst ` set (rw_result (walk_domain 1 ws (one_node_domain p) w)) = {}"
    using Cons.prems(1,2) unfolding step(1) by auto
  with Cons.prems(1) have "rw_result (fold (walk_domain 1 ws) (map one_node_domain ps)
      (walk_domain 1 ws (one_node_domain p) w))
    = rw_result (walk_domain 1 ws (one_node_domain p) w)
      @ zip (map pt_node ps) [next_rank ws w + 1..next_rank ws w + 1 + int (length ps) - 1]"
    using Cons.IH [OF _ _ step(2,3,4)] step(5) by simp
  then show ?case unfolding step(1) by (simp add: upto_rec1 algebra_simps)
qed simp

text \<open>
  Without a segment size the ranks follow the infrastructure order: the candidates in the
  order of their infrastructure ranks, then the standby-only nodes in theirs, are numbered from 0.
\<close>

theorem unsegmented_order:
  assumes "assign_group_ranks None active world_size standby = Inr d" and "0 \<le> world_size"
    and "distinct_nodes (active @ standby)"
    and "sort_rankable_participants active standby = Inr (sa, ss)"
  shows "d = zip (map pt_node (sa @ ss)) [0..int (length sa + length ss) - 1]"
proof -
  have one: "segment_size None = 1" by (simp add: segment_size_def)
  from assign_result [OF assms(1) _ assms(2,3), unfolded one] assms(4) obtain ds where
    a: "domains_of None sa = Inr ds"
      "d = rw_result (fold (walk_domain 1 world_size) (sort_key (\<lambda>d. snd (hd (snd d))) ds)
             (initial_walk world_size))
           @ zip (map pt_node ss) [int (length active)..int (length active) + int (length ss) - 1]"
      "world_size \<le> int (length active)" by auto
  note so = sort_rankable_ok [OF assms(4,3)]
  have len: "length sa = length active" using arg_cong [OF so(1), of size] by simp
  have "distinct (map pt_node active)" using assms(3) by (simp add: distinct_nodes_def)
  then have dn: "distinct (map pt_node sa)" using mset_eq_imp_distinct_iff [OF so(1)] by blast
  have ds: "ds = map one_node_domain sa"
    using a(1) one_node_domains_eq [OF so(4)] by (simp add: domains_of_def)
  have "sorted (map (\<lambda>d. snd (hd (snd d))) ds)" using so(5) by (simp add: ds comp_def)
  then have "sort_key (\<lambda>d. snd (hd (snd d))) ds = ds" by (rule sort_key_sorted)
  moreover have "rw_result (fold (walk_domain 1 world_size) ds (initial_walk world_size))
      = zip (map pt_node sa) [0..int (length sa) - 1]"
    using walk_one_node_domains [OF dn, of "initial_walk world_size" world_size] assms(2)
    by (simp add: ds initial_walk_def next_rank_def)
  moreover have "[0..int (length sa + length ss) - 1]
      = [0..int (length sa) - 1] @ [int (length sa)..int (length sa) + int (length ss) - 1]"
    using upto_append [of 0 "int (length sa)" "int (length sa + length ss) - 1"] by simp
  ultimately show ?thesis unfolding a(2) len by (simp add: len [symmetric])
qed

theorem unsegmented_order_witness:
  "assign_group_ranks None demo_active 3 demo_standby = Inr
     (zip [NodeDesc ''a'' 1 0, NodeDesc ''b'' 1 0, NodeDesc ''c'' 1 0, NodeDesc ''d'' 1 0,
           NodeDesc ''e'' 1 0, NodeDesc ''f'' 1 0] [0..5])"
proof -
  have d: "assign_group_ranks None demo_active 3 demo_standby = Inr
      [(NodeDesc ''a'' 1 0, 0), (NodeDesc ''b'' 1 0, 1), (NodeDesc ''c'' 1 0, 2),
       (NodeDesc ''d'' 1 0, 3), (NodeDesc ''e'' 1 0, 4), (NodeDesc ''f'' 1 0, 5)]" by code_simp
  have s: "sort_rankable_participants demo_active demo_standby
    = Inr (sort_key pt_infra demo_active, demo_standby)" by code_simp
  show ?thesis
    using unsegmented_order [OF d _ demo_distinct s] d
    by (simp add: demo_active_def demo_standby_def)
qed

section \<open>The snapshot of a round\<close>

definition is_active :: "(node_desc, int) dict \<Rightarrow> int \<Rightarrow> participant \<Rightarrow> bool" where
  "is_active d ws p \<longleftrightarrow> (case map_of d (pt_node p) of None \<Rightarrow> False | Some r \<Rightarrow> r < ws)"

lemma active_membership_eq:
  "list_all (\<lambda>p. 0 \<le> pt_infra p) ps \<Longrightarrow> distinct (map pt_infra ps) \<Longrightarrow> pt_infra ` set ps \<inter> fst ` set m = {} \<Longrightarrow>
   active_membership d ws ps m = Some (m @ map (\<lambda>p. (pt_infra p, pt_group p)) (filter (is_active d ws) ps))"
proof (induction ps arbitrary: m)
  case (Cons p ps)
  have new: "pt_infra p \<notin> fst ` set m" using Cons.prems(3) by auto
  show ?case
  proof (cases "is_active d ws p")
    case True
    then obtain r where r: "map_of d (pt_node p) = Some r" "r < ws"
      by (auto simp: is_active_def split: option.splits)
    have "pt_infra ` set ps \<inter> fst ` set (m @ [(pt_infra p, pt_group p)]) = {}"
      using Cons.prems(2,3) by simp
    then show ?thesis
      using r True Cons.prems(1,2) new Cons.IH [of "m @ [(pt_infra p, pt_group p)]"]
      by (simp add: update_new)
  next
    case False
    then have "active_membership d ws (p # ps) m = active_membership d ws ps m"
      by (auto simp: is_active_def split: option.splits)
    then show ?thesis using False Cons by simp
  qed
qed simp

lemma active_count:
  assumes "distinct (map fst d)" and "set (map fst d) \<supseteq> set (map pt_node active)"
    and "distinct (map snd d)" and "{0..<ws} \<subseteq> set (map snd d)" and "set (map snd d) \<subseteq> {0..}"
    and "\<And>n r. (n, r) \<in> set d \<Longrightarrow> r < ws \<Longrightarrow> n \<in> set (map pt_node active)"
    and "distinct (map pt_node active)" and "0 \<le> ws"
  shows "int (length (filter (is_active d ws) active)) = ws"
proof -
  let ?A = "filter (is_active d ws) active" and ?rank = "\<lambda>p. the (map_of d (pt_node p))"
  have rank: "(pt_node p, ?rank p) \<in> set d \<and> ?rank p < ws" if "p \<in> set ?A" for p
    using that by (auto simp: is_active_def split: option.splits dest: map_of_SomeD)
  have inj: "a = b" if "(a, r) \<in> set d" "(b, r) \<in> set d" for a b r
    using that assms(3) by (metis distinct_map inj_onD prod.inject snd_conv)
  have "inj_on ?rank (set ?A)"
    using rank inj assms(7) by (intro inj_onI) (metis distinct_map filter_is_subset inj_onD subsetD)
  moreover have "?rank ` set ?A = {0..<ws}"
  proof (intro equalityI subsetI)
    fix r assume "r \<in> {0..<ws}"
    then obtain n where n: "(n, r) \<in> set d" "r < ws" using assms(4) by fastforce
    then obtain p where p: "p \<in> set active" "pt_node p = n" using assms(6) by fastforce
    have "map_of d n = Some r" using assms(1) n(1) by simp
    then show "r \<in> ?rank ` set ?A" using p n(2) by (force simp: is_active_def)
  next
    fix r assume "r \<in> ?rank ` set ?A"
    then obtain p where "(pt_node p, r) \<in> set d" "r < ws" using rank by blast
    moreover from this(1) have "r \<in> set (map snd d)" by force
    ultimately show "r \<in> {0..<ws}" using assms(5) by auto
  qed
  moreover have "distinct ?A" using assms(7) by (simp add: distinct_map)
  ultimately show ?thesis using assms(8) by (metis card_atLeastLessThan_int card_image
      distinct_card int_nat_eq diff_zero)
qed

text \<open>
  The snapshot the store host keeps after an assignment is the active membership. When the
  candidates carry stable, distinct infrastructure ranks, it holds exactly the candidates that were
  given a rank below the world size, with their replacement groups, and so as many as the world size.
\<close>

theorem snapshot_is_active_membership:
  assumes "assign_group_ranks segment active world_size standby = Inr d"
    and "0 < segment_size segment" and "0 \<le> world_size" and "distinct_nodes (active @ standby)"
    and "list_all (\<lambda>p. 0 \<le> pt_infra p) active" and "distinct (map pt_infra active)"
  shows "remember_previous_active active d world_size =
      Some (map (\<lambda>p. (pt_infra p, pt_group p)) (filter (is_active d world_size) active))
    \<and> int (length (filter (is_active d world_size) active)) = world_size"
proof -
  note n = assign_numbering [OF assms(1-4)]
  have count: "int (length (filter (is_active d world_size) active)) = world_size"
  proof (rule active_count)
    show "{0..<world_size} \<subseteq> set (map snd d)" using n by auto
    show "set (map snd d) \<subseteq> {0..}" using n by auto
    show "\<And>m r. (m, r) \<in> set d \<Longrightarrow> r < world_size \<Longrightarrow> m \<in> set (map pt_node active)" using n by blast
  qed (use n assms(3,4) in \<open>auto simp: distinct_nodes_def\<close>)
  then show ?thesis
    using active_membership_eq [OF assms(5,6), of "[]" d world_size]
    by (simp add: remember_previous_active_def)
qed

theorem snapshot_is_active_membership_witness:
  "remember_previous_active demo_active demo_ranks 4 = Some [(0, None), (1, None), (2, None), (4, None)]"
proof -
  have "list_all (\<lambda>p. 0 \<le> pt_infra p) demo_active" "distinct (map pt_infra demo_active)"
    "map (\<lambda>p. (pt_infra p, pt_group p)) (filter (is_active demo_ranks 4) demo_active)
      = [(0, None), (1, None), (2, None), (4, None)]" by code_simp+
  then show ?thesis
    using snapshot_is_active_membership [OF demo_assign _ _ demo_distinct]
    by (simp add: segment_size_def)
qed

section \<open>The last-call gate\<close>

definition polled :: "(participant list \<times> real \<times> string set) list \<Rightarrow> last_call_gate \<Rightarrow> last_call_gate" where
  "polled polls g = fold (\<lambda>(ps, t, u) g. snd (gate_evaluate g ps t u)) polls g"

lemma polled_deadline: "lc_deadline g = Some x \<Longrightarrow> polled polls g = g"
proof -
  have "lc_deadline g = Some x \<Longrightarrow> snd (gate_evaluate g ps t u) = g" for ps t u
    by (simp add: gate_evaluate_def Let_def)
  then show "lc_deadline g = Some x \<Longrightarrow> polled polls g = g"
    by (induction polls) (auto simp: polled_def)
qed

lemma missing_previous_empty:
  "missing_previous g ps u = [] \<longleftrightarrow>
    (\<forall>(i, grp) \<in> set (lc_previous g). (grp = None \<or> the grp \<notin> u) \<longrightarrow> 0 \<le> i \<and> i \<in> pt_infra ` set ps)"
proof -
  have "missing_previous g ps u = [] \<longleftrightarrow>
      expected_previous g u \<subseteq> set (filter (\<lambda>i. 0 \<le> i) (map pt_infra ps))"
    by (simp add: missing_previous_def expected_previous_def Diff_eq_empty_iff)
  also have "\<dots> \<longleftrightarrow> (\<forall>(i, grp) \<in> set (lc_previous g). (grp = None \<or> the grp \<notin> u) \<longrightarrow> 0 \<le> i \<and> i \<in> pt_infra ` set ps)"
    unfolding expected_previous_def by (fastforce simp: subset_iff)
  finally show ?thesis .
qed

text \<open>
  C37: The last call waits for a bounded time. Once the gate of a restart round has held the round
  open at time t, every later poll closes it if and only if the timeout has passed since t or every
  node that was active before, and is not in an unhealthy replacement group, is back; polls in
  between do not move the deadline.
\<close>

theorem last_call_wait_bounded:
  assumes "gate_evaluate (make_last_call_gate rnd previous timeout min_nodes max_nodes) ps0 t u0 = (dec0, g1)"
    and "\<not> cd_should_close dec0"
  shows "cd_should_close (fst (gate_evaluate (polled polls g1) ps now u)) \<longleftrightarrow>
    t + timeout \<le> now
    \<or> (\<forall>(i, grp) \<in> set (the previous). (grp = None \<or> the grp \<notin> u) \<longrightarrow> 0 \<le> i \<and> i \<in> pt_infra ` set ps)"
proof -
  let ?g = "make_last_call_gate rnd previous timeout min_nodes max_nodes"
  have fresh: "lc_deadline ?g = None" "lc_timeout ?g = timeout"
    by (simp_all add: make_last_call_gate_def last_call_gate_new_def Let_def)
  have on: "lc_enabled ?g" "g1 = ?g\<lparr>lc_deadline := Some (t + timeout)\<rparr>"
    using assms fresh by (auto simp: gate_evaluate_def Let_def split: if_splits)
  have prev: "lc_previous ?g = the previous"
    using on(1) by (auto simp: make_last_call_gate_def last_call_gate_new_def Let_def
        split: if_splits option.splits)
  have dl: "lc_deadline g1 = Some (t + timeout)" "lc_enabled g1" "lc_previous g1 = the previous"
    using on prev by simp_all
  show ?thesis
    unfolding polled_deadline [OF dl(1)] missing_previous_empty [of g1 ps u, unfolded dl(3), symmetric]
    using dl(1,2) by (auto simp: gate_evaluate_def Let_def)
qed

theorem last_call_wait_bounded_witness:
  "cd_should_close (fst (gate_evaluate (polled [([], 12, {})]
      (snd (gate_evaluate (make_last_call_gate 1 (Some [(7, None)]) 30 1 2) [] 10 {}))) [] 40 {}))"
proof -
  have "\<not> cd_should_close (fst (gate_evaluate (make_last_call_gate 1 (Some [(7, None)]) 30 1 2) [] 10 {}))"
    by (simp add: make_last_call_gate_def last_call_gate_new_def gate_evaluate_def missing_previous_def
        expected_previous_def)
  from last_call_wait_bounded [OF prod.collapse [symmetric] this] show ?thesis by simp
qed

end
