(* ===== verification/RdzvProtocolProps.thy ===== *)
theory RdzvProtocolProps
  imports RdzvProtocol RdzvStoreProps RdzvSegments
begin

text \<open>
  The steps of the rendezvous together: after the host closes a round, the ranks that its
  participants read are a numbering of them, and the host closes only complete rounds.
\<close>

section \<open>Publishing the ranks\<close>

lemma fold_upd_other: "k \<notin> set ks \<Longrightarrow> fold (\<lambda>(k, v) m. m(k \<mapsto> v)) (zip ks vs) m k = m k"
proof (induction ks arbitrary: vs m)
  case (Cons a ks)
  then show ?case by (cases vs) simp_all
qed simp

lemma fold_upd_zip:
  "distinct ks \<Longrightarrow> (k, v) \<in> set (zip ks vs) \<Longrightarrow> fold (\<lambda>(k, v) m. m(k \<mapsto> v)) (zip ks vs) m k = Some v"
proof (induction ks arbitrary: vs m)
  case (Cons a ks)
  then obtain w ws where w: "vs = w # ws" by (cases vs) simp_all
  consider "(k, v) \<in> set (zip ks ws)" | "k = a" "v = w" using Cons.prems(2) w by auto
  then show ?case
  proof cases
    case 1
    then have "fold (\<lambda>(k, v) m. m(k \<mapsto> v)) (zip ks ws) (m(a \<mapsto> w)) k = Some v"
      using Cons.IH [of ws "m(a \<mapsto> w)"] Cons.prems(1) by (simp del: fun_upd_apply)
    then show ?thesis by (simp add: w del: fun_upd_apply)
  next
    case 2
    then show ?thesis
      using fold_upd_other [of a ks ws "m(a \<mapsto> w)"] Cons.prems(1) by (simp add: w del: fun_upd_apply) simp
  qed
qed simp

lemma rank_key_inj: "rank_key prefix i = rank_key prefix j \<Longrightarrow> i = j"
  by (auto simp: rank_key_def dest: int_text_inj)

lemma slot_ranks_mem:
  assumes "i < length slots" and "slots ! i = Some p" and "map_of ranks (pt_node p) = Some r"
  shows "(int i + 1, p, r) \<in> set (slot_ranks slots ranks)"
proof -
  have "(int i + 1, slots ! i) \<in> set (zip [1..int (length slots)] slots)"
    using assms(1) by (auto simp: in_set_zip nth_upto intro!: exI [of _ i])
  moreover have "(int i + 1, p, r) \<in> set (slot_entry ranks (int i + 1, slots ! i))"
    using assms(2,3) by (simp add: slot_entry_def)
  ultimately show ?thesis unfolding slot_ranks_def set_concat set_map by blast
qed

lemma slot_entry_index: "x \<in> set (slot_entry ranks e) \<Longrightarrow> fst x = fst e"
  by (auto simp: slot_entry_def split: option.splits)

lemma slot_entry_distinct: "distinct (map fst (slot_entry ranks e))"
  by (simp add: slot_entry_def split: option.split)

lemma singleton_disjoint: "A \<subseteq> {z} \<Longrightarrow> B \<subseteq> D \<Longrightarrow> z \<notin> D \<Longrightarrow> A \<inter> B = {}"
  by blast

lemma slot_ranks_distinct: "distinct (map fst (slot_ranks slots ranks))"
proof -
  have "distinct (map fst (concat (map (slot_entry ranks) zs)))"
    if "distinct (map fst zs)" for zs
    using that
  proof (induction zs)
    case (Cons z zs)
    have "fst ` set (slot_entry ranks z) \<subseteq> {fst z}" using slot_entry_index by fastforce
    moreover have "fst ` set (concat (map (slot_entry ranks) zs)) \<subseteq> fst ` set zs"
    proof (intro image_subsetI)
      fix x assume "x \<in> set (concat (map (slot_entry ranks) zs))"
      then obtain e where "e \<in> set zs" "x \<in> set (slot_entry ranks e)" by auto
      then show "fst x \<in> fst ` set zs" using slot_entry_index [of x ranks e] by simp
    qed
    moreover have "fst z \<notin> fst ` set zs" using Cons.prems by simp
    ultimately have "fst ` set (slot_entry ranks z) \<inter> fst ` set (concat (map (slot_entry ranks) zs)) = {}"
      by (rule singleton_disjoint)
    moreover have "distinct (map fst (concat (map (slot_entry ranks) zs)))" using Cons by simp
    ultimately show ?case
      using slot_entry_distinct [of ranks z] by (simp only: list.map concat.simps map_append distinct_append set_map)
  qed simp
  moreover have "distinct (map fst (zip [1..int (length slots)] slots))" by simp
  ultimately show ?thesis unfolding slot_ranks_def by blast
qed

lemma rank_keys_distinct: "distinct (map (\<lambda>(i, p, r). rank_key prefix i) (slot_ranks slots ranks))"
proof -
  have "map (\<lambda>(i, p, r). rank_key prefix i) (slot_ranks slots ranks)
      = map (rank_key prefix) (map fst (slot_ranks slots ranks))"
    by (simp add: case_prod_unfold comp_def)
  then show ?thesis
    using slot_ranks_distinct [of slots ranks] by (auto simp: distinct_map inj_on_def dest: rank_key_inj)
qed

lemma published_rank:
  assumes "store_laws st view" and "publish_ranks st b world_size slots active standby s = (Inr b1, s1)"
  obtains ranks where "assign_group_ranks (bs_segment b) active world_size standby = Inr ranks"
    and "\<And>i p r. i < length slots \<Longrightarrow> slots ! i = Some p \<Longrightarrow> map_of ranks (pt_node p) = Some r \<Longrightarrow>
      view s1 (rank_key (bs_prefix b) (int i + 1)) = Some (pack_rank_value r (int (length ranks)) (bs_round b))"
proof -
  obtain ranks where r: "assign_group_ranks (bs_segment b) active world_size standby = Inr ranks"
    using assms(2) by (auto simp: publish_ranks_def split: if_splits sum.splits)
  let ?es = "slot_ranks slots ranks"
  let ?ks = "map (\<lambda>(i, p, r). rank_key (bs_prefix b) i) ?es"
  let ?vs = "map (\<lambda>(i, p, r). pack_rank_value r (int (length ranks)) (bs_round b)) ?es"
  have s1: "s1 = st_multi_set st ?ks ?vs s"
    using assms(2) r by (auto simp: publish_ranks_def Let_def split: if_splits)
  show ?thesis
  proof (rule that [OF r])
    fix i p q assume "i < length slots" "slots ! i = Some p" "map_of ranks (pt_node p) = Some q"
    from slot_ranks_mem [OF this]
    have "(rank_key (bs_prefix b) (int i + 1), pack_rank_value q (int (length ranks)) (bs_round b)) \<in> set (zip ?ks ?vs)"
      by (force simp: zip_map_fst_snd zip_same_conv_map zip_map1 zip_map2)
    then show "view s1 (rank_key (bs_prefix b) (int i + 1))
        = Some (pack_rank_value q (int (length ranks)) (bs_round b))"
      unfolding s1 store_laws_simps(5) [OF assms(1)] by (rule fold_upd_zip [OF rank_keys_distinct])
  qed
qed

section \<open>The participants of a snapshot\<close>

text \<open>The slots whose participants count: current, and not in an unhealthy group.\<close>

definition healthy_slots :: "string set \<Rightarrow> participant option list \<Rightarrow> nat set" where
  "healthy_slots unhealthy slots =
     {i. i < length slots \<and> (case slots ! i of None \<Rightarrow> False
        | Some p \<Rightarrow> pt_group p = None \<or> the (pt_group p) \<notin> unhealthy)}"

lemma healthy_participants_slots:
  "healthy_participants u slots =
     map (\<lambda>i. the (slots ! i)) (filter (\<lambda>i. i \<in> healthy_slots u slots) [0..<length slots])"
proof -
  let ?P = "\<lambda>e. case e of None \<Rightarrow> False | Some p \<Rightarrow> pt_group p = None \<or> the (pt_group p) \<notin> u"
  have "healthy_participants u es = map the (filter ?P es)" for es
    unfolding healthy_participants_def by (induction es) (auto split: option.splits)
  also have "filter ?P slots = map ((!) slots) (filter (\<lambda>i. ?P (slots ! i)) [0..<length slots])"
    by (subst map_nth [symmetric]) (simp only: filter_map comp_def)
  also have "filter (\<lambda>i. ?P (slots ! i)) [0..<length slots] = filter (\<lambda>i. i \<in> healthy_slots u slots) [0..<length slots]"
    by (rule filter_cong) (auto simp: healthy_slots_def)
  finally show ?thesis by (simp add: comp_def)
qed

abbreviation slot_node :: "participant option list \<Rightarrow> nat \<Rightarrow> node_desc" where
  "slot_node slots i \<equiv> pt_node (the (slots ! i))"

lemma healthy_nodes:
  assumes "distinct_nodes (healthy_participants u slots)"
  shows "inj_on (slot_node slots) (healthy_slots u slots)"
    and "slot_node slots ` healthy_slots u slots = set (map pt_node (healthy_participants u slots))"
    and "card (healthy_slots u slots) = length (healthy_participants u slots)"
proof -
  let ?is = "filter (\<lambda>i. i \<in> healthy_slots u slots) [0..<length slots]"
  have is_set: "set ?is = healthy_slots u slots" by (auto simp: healthy_slots_def)
  have nodes: "map pt_node (healthy_participants u slots) = map (slot_node slots) ?is"
    by (simp add: healthy_participants_slots comp_def)
  show "inj_on (slot_node slots) (healthy_slots u slots)"
    using assms unfolding distinct_nodes_def nodes distinct_map is_set by blast
  show "slot_node slots ` healthy_slots u slots = set (map pt_node (healthy_participants u slots))"
    unfolding nodes set_map is_set ..
  have "distinct ?is" by simp
  then show "card (healthy_slots u slots) = length (healthy_participants u slots)"
    using distinct_card [of ?is] is_set by (simp add: healthy_participants_slots)
qed

lemma split_groups_parts:
  assumes "split_by_complete_replacement_groups needed ps = (active, standby)"
  shows "mset ps = mset active + mset standby"
  using assms by (auto simp: split_by_complete_replacement_groups_def split: option.splits)

section \<open>Closing a round\<close>

lemma host_close_closed:
  assumes "host_close st b gate now multi min_nodes slots u s = (HostClosed b1, s')"
  obtains active standby s1 where
    "split_by_complete_replacement_groups (bs_group_size b) (healthy_participants u slots) = (active, standby)"
    and "can_meet_segment_constraint (bs_segment b) active min_nodes = Inr True"
    and "publish_ranks st b min_nodes slots active standby s = (Inr b1, s1)"
    and "s' = st_set st (round_done_key (bs_prefix b) (bs_round b)) ''1'' s1"
proof -
  obtain active standby where sp:
    "split_by_complete_replacement_groups (bs_group_size b) (healthy_participants u slots) = (active, standby)"
    by fastforce
  show ?thesis
    using assms
    by (auto simp: host_close_def sp Let_def split: sum.splits bool.splits prod.splits if_splits
        intro!: that [OF sp])
qed

lemma closed_key_texts:
  "rank_key prefix i \<noteq> round_done_key prefix n" "shutdown_key prefix \<noteq> rank_key prefix i"
  by (simp_all add: rank_key_def round_done_key_def shutdown_key_def)

text \<open>What a node reads in step 3, when the round is closed and its rank is there.\<close>

lemma wait_done_reads:
  assumes "store_laws st view"
    and "view s (shutdown_key (bs_prefix b)) = None \<or> view s (shutdown_key (bs_prefix b)) = Some []"
    and "now - bs_start_time b \<le> bs_join_timeout b"
    and "view s (round_done_key (bs_prefix b) (bs_round b)) = Some ''1''"
    and "view s key = Some (pack_rank_value r n (bs_round b))"
  shows "wait_done_turn st now b key s = RankRead r n"
proof -
  note laws = store_laws_simps(1,2) [OF assms(1)]
  have "check_timeout_and_closure st b now s = Inr ()"
    using assms(2,3) by (auto simp: check_timeout_and_closure_def is_shutdown_def laws)
  moreover have "py_int ''1'' = Some 1" by code_simp
  ultimately show ?thesis
    using assms(4,5) by (simp add: wait_done_turn_def read_count_def laws unpack_pack_rank)
qed

lemma publish_keeps:
  assumes "store_laws st view" and "publish_ranks st b world_size slots active standby s = (Inr b1, s1)"
    and "\<And>i. k \<noteq> rank_key (bs_prefix b) i"
  shows "view s1 k = view s k"
proof -
  obtain ranks where r: "assign_group_ranks (bs_segment b) active world_size standby = Inr ranks"
    using assms(2) by (auto simp: publish_ranks_def split: if_splits sum.splits)
  let ?es = "slot_ranks slots ranks"
  have "s1 = st_multi_set st (map (\<lambda>(i, p, r). rank_key (bs_prefix b) i) ?es)
      (map (\<lambda>(i, p, r). pack_rank_value r (int (length ranks)) (bs_round b)) ?es) s"
    using assms(2) r by (auto simp: publish_ranks_def Let_def split: if_splits)
  moreover have "k \<notin> set (map (\<lambda>(i, p, r). rank_key (bs_prefix b) i) ?es)"
    using assms(3) by auto
  ultimately show ?thesis by (simp only: store_laws_simps(5) [OF assms(1)] fold_upd_other not_False_eq_True)
qed

text \<open>The ranks the slots get, as a function of the slot.\<close>

lemma slot_rank_bij:
  assumes "inj_on (slot_node slots) H" and "set (map fst d) = slot_node slots ` H"
    and "distinct (map snd d)" and "set (map snd d) = {0..<int (card H)}"
  shows "bij_betw (\<lambda>i. the (map_of d (slot_node slots i))) H {0..<int (card H)}"
    and "i \<in> H \<Longrightarrow> map_of d (slot_node slots i) = Some (the (map_of d (slot_node slots i)))"
proof -
  let ?rank = "\<lambda>i. the (map_of d (slot_node slots i))"
  have look: "map_of d (slot_node slots i) = Some (?rank i)" if "i \<in> H" for i
  proof -
    have "slot_node slots i \<in> set (map fst d)" using assms(2) that by blast
    then show ?thesis by (metis map_of_eq_None_iff option.collapse set_map)
  qed
  then show "i \<in> H \<Longrightarrow> map_of d (slot_node slots i) = Some (?rank i)" .
  have inj: "inj_on ?rank H"
  proof (rule inj_onI)
    fix i j assume i: "i \<in> H" and j: "j \<in> H" and eq: "?rank i = ?rank j"
    have "inj_on snd (set d)" using assms(3) by (simp add: distinct_map)
    then have "slot_node slots i = slot_node slots j"
      using look [OF i] look [OF j] eq by (metis fst_conv inj_onD map_of_SomeD snd_conv)
    then show "i = j" using assms(1) i j by (meson inj_onD)
  qed
  moreover have "?rank ` H = {0..<int (card H)}"
  proof (rule card_subset_eq)
    show "?rank ` H \<subseteq> {0..<int (card H)}"
    proof (intro image_subsetI)
      fix i assume "i \<in> H"
      then have "(slot_node slots i, ?rank i) \<in> set d" using look by (intro map_of_SomeD)
      then have "?rank i \<in> set (map snd d)" by force
      then show "?rank i \<in> {0..<int (card H)}" unfolding assms(4) .
    qed
    show "card (?rank ` H) = card {0..<int (card H)}" using card_image [OF inj] by simp
  qed simp
  ultimately show "bij_betw ?rank H {0..<int (card H)}" by (simp add: bij_betw_def)
qed

text \<open>
  C19: A closed round numbers its participants. When the host has closed a round, every healthy
  participant of the snapshot that reads its slot finds a rank of this round; these ranks are
  exactly 0 up to the number of participants, each read in one slot, and there are at least as
  many as the active nodes needed: every active rank is started by exactly one node.
\<close>

theorem closed_round_numbers_slots:
  assumes "store_laws st view"
    and "host_close st b gate now multi min_nodes slots unhealthy s = (HostClosed b1, s')"
    and "0 < segment_size (bs_segment b)" and "0 \<le> min_nodes"
    and "distinct_nodes (healthy_participants unhealthy slots)"
    and "view s (shutdown_key (bs_prefix b)) = None \<or> view s (shutdown_key (bs_prefix b)) = Some []"
    and "bs_prefix r = bs_prefix b" and "bs_round r = bs_round b"
    and "t - bs_start_time r \<le> bs_join_timeout r"
  shows "\<exists>rank. bij_betw rank (healthy_slots unhealthy slots) {0..<int (card (healthy_slots unhealthy slots))}
    \<and> min_nodes \<le> int (card (healthy_slots unhealthy slots))
    \<and> (\<forall>i \<in> healthy_slots unhealthy slots.
         wait_done_turn st t r (rank_key (bs_prefix b) (int i + 1)) s'
           = RankRead (rank i) (int (card (healthy_slots unhealthy slots))))"
proof -
  let ?H = "healthy_slots unhealthy slots" and ?ps = "healthy_participants unhealthy slots"
  from host_close_closed [OF assms(2)] obtain active standby s1 where
    c: "split_by_complete_replacement_groups (bs_group_size b) ?ps = (active, standby)"
      "publish_ranks st b min_nodes slots active standby s = (Inr b1, s1)"
      "s' = st_set st (round_done_key (bs_prefix b) (bs_round b)) ''1'' s1" .
  obtain d where
    d: "assign_group_ranks (bs_segment b) active min_nodes standby = Inr d"
    and pub: "\<And>i p q. i < length slots \<Longrightarrow> slots ! i = Some p \<Longrightarrow> map_of d (pt_node p) = Some q \<Longrightarrow>
      view s1 (rank_key (bs_prefix b) (int i + 1)) = Some (pack_rank_value q (int (length d)) (bs_round b))"
    by (rule published_rank [OF assms(1) c(2)]) (rule that)
  have m: "mset ?ps = mset active + mset standby" by (rule split_groups_parts [OF c(1)])
  then have nodes: "mset (map pt_node ?ps) = mset (map pt_node (active @ standby))" by simp
  have dn: "distinct_nodes (active @ standby)"
    using assms(5) mset_eq_imp_distinct_iff [OF nodes] by (simp add: distinct_nodes_def)
  note num = assign_numbering [OF d assms(3,4) dn]
  have N: "card ?H = length active + length standby"
    using healthy_nodes(3) [OF assms(5)] arg_cong [OF m, of size] by simp
  have "card (set (map snd d)) = length d" using num distinct_card [of "map snd d"] by simp
  then have len: "int (length d) = int (card ?H)" using num N by simp
  have fst_d: "set (map fst d) = slot_node slots ` ?H"
    using num mset_eq_setD [OF nodes] healthy_nodes(2) [OF assms(5)] by simp
  have "set (map snd d) = {0..<int (card ?H)}" using num N by simp
  note bij = slot_rank_bij [OF healthy_nodes(1) [OF assms(5)] fst_d _ this]
  define rank where "rank = (\<lambda>i. the (map_of d (slot_node slots i)))"
  have rank: "bij_betw rank ?H {0..<int (card ?H)}" "\<And>i. i \<in> ?H \<Longrightarrow> map_of d (slot_node slots i) = Some (rank i)"
    using bij num unfolding rank_def by simp_all
  have "wait_done_turn st t r (rank_key (bs_prefix b) (int i + 1)) s' = RankRead (rank i) (int (card ?H))"
    if i: "i \<in> ?H" for i
  proof (rule wait_done_reads [OF assms(1) _ assms(9)])
    obtain p where p: "i < length slots" "slots ! i = Some p"
      using i by (auto simp: healthy_slots_def split: option.splits)
    have "view s1 (rank_key (bs_prefix b) (int i + 1)) = Some (pack_rank_value (rank i) (int (length d)) (bs_round b))"
      using pub [OF p] rank(2) [OF i] p(2) by simp
    then show "view s' (rank_key (bs_prefix b) (int i + 1)) = Some (pack_rank_value (rank i) (int (card ?H)) (bs_round r))"
      using closed_key_texts(1) by (simp add: c(3) store_laws_simps(3) [OF assms(1)] len assms(8))
    show "view s' (round_done_key (bs_prefix r) (bs_round r)) = Some ''1''"
      by (simp add: c(3) store_laws_simps(3) [OF assms(1)] assms(7,8))
    have "view s1 (shutdown_key (bs_prefix b)) = view s (shutdown_key (bs_prefix b))"
      by (rule publish_keeps [OF assms(1) c(2)]) (rule closed_key_texts(2))
    then show "view s' (shutdown_key (bs_prefix r)) = None \<or> view s' (shutdown_key (bs_prefix r)) = Some []"
      using assms(6) shutdown_key_not_round by (simp add: c(3) store_laws_simps(3) [OF assms(1)] assms(7))
  qed
  moreover have "min_nodes \<le> int (card ?H)" using num N by simp
  ultimately show ?thesis using rank(1) by blast
qed

text \<open>Five nodes in five slots, the third slot empty; segments of two, four active nodes.\<close>

definition demo_slots :: "participant option list" where
  "demo_slots = map Some (take 2 demo_active) @ [None] @ map Some (drop 2 demo_active)"

definition demo_barrier :: rdzv_state where
  "demo_barrier = fst (barrier_init dict_store ''j'' True 600 1 (Some 2) None 10 Map.empty)"

lemma demo_closes:
  "\<exists>b1 s'. host_close dict_store demo_barrier (last_call_gate_new None 1 False) 5 False 4 demo_slots {} Map.empty
    = (HostClosed b1, s')"
proof -
  have h: "healthy_participants {} demo_slots = demo_active" by code_simp
  have m: "can_meet_segment_constraint (Some 2) demo_active 4 = Inr True" by code_simp
  have a: "isl (assign_group_ranks (Some 2) demo_active 4 []) = False" by code_simp
  then obtain d where d: "assign_group_ranks (Some 2) demo_active 4 [] = Inr d"
    by (cases "assign_group_ranks (Some 2) demo_active 4 []") auto
  have u: "duplicate_addr {} demo_active = None" by code_simp
  have b: "bs_segment demo_barrier = Some 2" "bs_group_size demo_barrier = None"
    by (simp_all add: demo_barrier_def barrier_init_def Let_def)
  have n: "demo_slots \<noteq> []" by (simp add: demo_slots_def)
  show ?thesis
    by (simp add: host_close_def h m b u n d split_by_complete_replacement_groups_def publish_ranks_def
        gate_evaluate_def last_call_gate_new_def Let_def)
qed

theorem closed_round_numbers_slots_witness:
  "\<exists>b1 s' rank. host_close dict_store demo_barrier (last_call_gate_new None 1 False) 5 False 4 demo_slots {} Map.empty
      = (HostClosed b1, s')
    \<and> bij_betw rank (healthy_slots {} demo_slots) {0..<int (card (healthy_slots {} demo_slots))}
    \<and> 4 \<le> int (card (healthy_slots {} demo_slots))"
proof -
  obtain b1 s' where c: "host_close dict_store demo_barrier (last_call_gate_new None 1 False) 5 False 4
      demo_slots {} Map.empty = (HostClosed b1, s')" using demo_closes by blast
  have "distinct_nodes (healthy_participants {} demo_slots)" by code_simp
  moreover have "0 < segment_size (bs_segment demo_barrier)"
    by (simp add: demo_barrier_def barrier_init_def Let_def segment_size_def)
  moreover have "(10 :: real) - bs_start_time demo_barrier \<le> bs_join_timeout demo_barrier"
    by (simp add: demo_barrier_def barrier_init_def Let_def)
  ultimately show ?thesis
    using closed_round_numbers_slots [OF dict_store_laws c, of demo_barrier 10] c by auto
qed

section \<open>What a node that starts workers has seen\<close>

lemma active_read:
  assumes "store_laws st view" and "wait_done_turn st now b key s = RankRead r n" and "is_active_rank min_nodes r"
  shows "round_closed view (bs_prefix b) s (bs_round b)"
    and "Option.bind (view s key) unpack_rank_value = Some (r, n, bs_round b)"
  using assms(2,3) store_laws_simps(1,2) [OF assms(1)]
  by (auto simp: wait_done_turn_def read_count_def round_closed_def is_active_rank_def
      split: sum.splits option.splits if_splits)

lemma publish_slot: "publish_ranks st b ws slots active standby s = (Inr b1, s1) \<Longrightarrow> bs_slot b1 = bs_slot b"
  by (auto simp: publish_ranks_def Let_def split: if_splits sum.splits)

lemma host_turn_slot:
  "host_turn st oth stop astop multi now min_nodes max_nodes interval b g l s = (HostClosed b1, s1) \<Longrightarrow>
   bs_slot b1 = bs_slot b"
  by (auto simp: host_turn_def Let_def split: if_splits sum.splits elim!: host_close_closed dest!: publish_slot)

lemma join_slot: "join_round st env healthy p b s = Some (Joined, b1, s1) \<Longrightarrow> bs_slot b1 \<noteq> None"
  by (auto simp: join_round_def Let_def split: if_splits option.splits prod.splits sum.splits)

text \<open>A node that closes a round or reads a rank has taken a slot.\<close>

definition slot_taken :: "rdzv_phase \<times> rdzv_state \<times> 's \<Rightarrow> bool" where
  "slot_taken x = (case fst x of
     Closing g l \<Rightarrow> bs_slot (fst (snd x)) \<noteq> None
   | Reading \<Rightarrow> bs_slot (fst (snd x)) \<noteq> None
   | Finished r n \<Rightarrow> bs_slot (fst (snd x)) \<noteq> None
   | _ \<Rightarrow> True)"

lemma slot_taken_step: "node_step st p min_nodes max_nodes interval x y \<Longrightarrow> slot_taken x \<Longrightarrow> slot_taken y"
  by (induction rule: node_step.induct)
    (auto simp: slot_taken_def after_join_def dest: join_slot host_turn_slot split: rdzv_phase.splits)

text \<open>
  C36: A node starts its workers only with a published active rank. Along every run of the steps of
  \<open>perform_rendezvous\<close>, whatever the other nodes do to the store in between, a node that finishes
  had taken a slot and had read, from that slot's rank key in a closed round, a rank written for
  this round that is below the number of active nodes.
\<close>

theorem finished_node_read_active_rank:
  assumes "store_laws st view"
    and "(node_step st p min_nodes max_nodes interval)\<^sup>*\<^sup>* (Waiting, b0, s0) (Finished r n, b, s)"
  shows "r < min_nodes \<and> bs_slot b \<noteq> None
    \<and> (\<exists>s1. (node_step st p min_nodes max_nodes interval)\<^sup>*\<^sup>* (Waiting, b0, s0) (Reading, b, s1)
         \<and> round_closed view (bs_prefix b) s1 (bs_round b)
         \<and> Option.bind (view s1 (own_rank_key b)) unpack_rank_value = Some (r, n, bs_round b))"
proof -
  let ?step = "node_step st p min_nodes max_nodes interval" and ?x = "(Waiting, b0, s0)"
  let ?good = "\<lambda>y. \<forall>r n b s. y = (Finished r n, b, s) \<longrightarrow> is_active_rank min_nodes r
    \<and> (\<exists>s1. ?step\<^sup>*\<^sup>* ?x (Reading, b, s1) \<and> round_closed view (bs_prefix b) s1 (bs_round b)
         \<and> Option.bind (view s1 (own_rank_key b)) unpack_rank_value = Some (r, n, bs_round b))"
  have "slot_taken y \<and> ?good y" if "?step\<^sup>*\<^sup>* ?x y" for y
    using that
  proof (induction rule: rtranclp_induct)
    case base
    then show ?case by (simp add: slot_taken_def)
  next
    case (step y z)
    have "?good z"
    proof (intro allI impI)
      fix r n b s assume "z = (Finished r n, b, s)"
      then have "?step y (Finished r n, b, s)" using step.hyps(2) by simp
      then show "is_active_rank min_nodes r
        \<and> (\<exists>s1. ?step\<^sup>*\<^sup>* ?x (Reading, b, s1) \<and> round_closed view (bs_prefix b) s1 (bs_round b)
             \<and> Option.bind (view s1 (own_rank_key b)) unpack_rank_value = Some (r, n, bs_round b))"
      proof (rule node_finishes)
        fix s2 assume "y = (Finished r n, b, s2)"
        then show ?thesis using step.IH by blast
      next
        fix now assume "y = (Reading, b, s)" "wait_done_turn st now b (own_rank_key b) s = RankRead r n"
          "is_active_rank min_nodes r"
        then show ?thesis using step.hyps(1) active_read [OF assms(1)] by blast
      qed (auto simp: after_join_def split: if_splits)
    qed
    then show ?case using slot_taken_step [OF step.hyps(2)] step.IH by blast
  qed
  from this [OF assms(2)] show ?thesis by (auto simp: slot_taken_def is_active_rank_def)
qed

text \<open>One node, one round: it joins, the host (another process) closes, and it reads rank 0.\<close>

definition solo_node :: participant where "solo_node = (NodeDesc ''n'' 1 0, 0, ''none'', None)"

definition solo_barrier :: rdzv_state where
  "solo_barrier = fst (barrier_init dict_store [] False 600 1 None None 10 Map.empty)"

lemma solo_barrier_simps:
  "bs_prefix solo_barrier = ''ft_rendezvous_barrier:''" "bs_round solo_barrier = 0"
  "bs_is_host solo_barrier = False" "bs_join_timeout solo_barrier = 600"
  by (simp_all add: solo_barrier_def barrier_init_def Let_def)

lemma solo_opens:
  "wait_open_turn dict_store False False 0 solo_barrier [''ft_rendezvous_barrier::round_done_0'' \<mapsto> ''0'']
    = Some (RoundOpen, [''ft_rendezvous_barrier::round_done_0'' \<mapsto> ''0''])"
proof -
  have "int_text 0 = ''0''" "py_int ''0'' = Some 0" by code_simp+
  then show ?thesis
    by (simp add: wait_open_turn_def solo_barrier_simps is_shutdown_def read_count_def dict_store_def
        shutdown_key_def round_done_key_def Let_def)
qed

lemma solo_joins:
  "\<exists>s. join_round dict_store (\<lambda>i m. m) True solo_node (solo_barrier\<lparr>bs_start_time := 0\<rparr>)
      [''ft_rendezvous_barrier::round_done_0'' \<mapsto> ''0'']
    = Some (Joined, solo_barrier\<lparr>bs_start_time := 0, bs_slot := Some 1\<rparr>, s)"
proof -
  have t: "int_text 0 = ''0''" "int_text 1 = ''1''" by code_simp+
  show ?thesis
    by (simp add: join_round_def solo_barrier_simps dict_store_def join_count_key_def count_text_def
        round_fenced_compare_set_def round_of_packed fenced_write_def rank_key_def slot_key_def t)
qed

theorem finished_node_read_active_rank_witness:
  "\<exists>b s. (node_step dict_store solo_node 1 1 5)\<^sup>*\<^sup>* (Waiting, solo_barrier, Map.empty) (Finished 0 1, b, s)
    \<and> bs_slot b \<noteq> None"
proof -
  let ?step = "node_step dict_store solo_node 1 1 5" and ?k = "''ft_rendezvous_barrier::round_done_0''"
  let ?b = "solo_barrier\<lparr>bs_start_time := 0\<rparr>" and ?b1 = "solo_barrier\<lparr>bs_start_time := 0, bs_slot := Some 1\<rparr>"
  let ?s1 = "[?k \<mapsto> ''0'']"
  let ?s3 = "[?k \<mapsto> ''1'', own_rank_key ?b1 \<mapsto> pack_rank_value 0 1 0]"
  obtain s2 where j: "join_round dict_store (\<lambda>i m. m) True solo_node ?b ?s1 = Some (Joined, ?b1, s2)"
    using solo_joins by blast
  have "?step (Waiting, solo_barrier, Map.empty) (Waiting, solo_barrier, ?s1)"
    by (rule node_step.others)
  moreover have "?step (Waiting, solo_barrier, ?s1) (Joining, ?b, ?s1)"
    by (rule node_step.opened [OF solo_opens])
  moreover have "?step (Joining, ?b, ?s1) (Reading, ?b1, s2)"
    using node_step.join [OF j, of 1 1 5] by (simp add: after_join_def solo_barrier_simps)
  moreover have "?step (Reading, ?b1, s2) (Reading, ?b1, ?s3)"
    by (rule node_step.others)
  moreover have "?step (Reading, ?b1, ?s3) (Finished 0 1, ?b1, ?s3)"
  proof (rule node_step.active)
    have t: "int_text 0 = ''0''" "int_text 1 = ''1''" by code_simp+
    show "wait_done_turn dict_store 1 ?b1 (own_rank_key ?b1) ?s3 = RankRead 0 1"
      by (rule wait_done_reads [OF dict_store_laws])
        (simp_all add: solo_barrier_simps shutdown_key_def own_rank_key_def rank_key_def round_done_key_def t)
  qed (simp add: is_active_rank_def unassigned_def)
  ultimately have "?step\<^sup>*\<^sup>* (Waiting, solo_barrier, Map.empty) (Finished 0 1, ?b1, ?s3)"
    by (meson converse_rtranclp_into_rtranclp rtranclp.rtrancl_refl)
  then show ?thesis using finished_node_read_active_rank [OF dict_store_laws] by blast
qed

end
