(* ===== verification/CkptGroups.thy ===== *)
theory CkptGroups
  imports NvrxPrelude "HOL-Library.List_Lexorder" "HOL-Library.Multiset"
begin

text \<open>
  Replication groups and exchange plans of the local checkpoints
  (\<open>checkpointing/local/replication/group_utils.py\<close> and \<open>strategies.py\<close>): how the ranks are split
  into cliques, the plan that says who sends which shard to whom, and its execution by one rank.
  The process group is the list of its global ranks, the collectives are the lists they return,
  and the messages that arrive from a rank are a queue. The choice of a sender among several is
  Python's seeded generator: a parameter that picks an element of the list.
\<close>

section \<open>Replication groups\<close>

text \<open>\<open>list(range(start, stop, step))\<close> for a positive step.\<close>

definition range_step :: "int \<Rightarrow> int \<Rightarrow> int \<Rightarrow> int list" where
  "range_step start stop step =
     map (\<lambda>i. start + int i * step) [0..<nat ((stop - start + step - 1) div step)]"

function batched :: "nat \<Rightarrow> 'a list \<Rightarrow> 'a list list" where
  "batched n xs = (if n = 0 \<or> xs = [] then [] else take n xs # batched n (drop n xs))"
  by pat_completeness auto

termination
  by (relation "measure (\<lambda>(n, xs). length xs)") auto

declare batched.simps [simp del]

datatype group_error =
    JumpNotPositive
  | EmptyGroups
  | NotSplittable

definition parse_group_sequence :: "int \<Rightarrow> int \<Rightarrow> int \<Rightarrow> group_error + int list list" where
  "parse_group_sequence jump factor world_size =
     (if \<not> jump > 0 then Inl JumpNotPositive
      else if \<not> factor > 0 then Inl EmptyGroups
      else if world_size mod (jump * factor) \<noteq> 0 then Inl NotSplittable
      else Inr (sort (concat (map (\<lambda>m. batched (nat factor) (range_step m world_size jump)) [0..jump - 1]))))"

text \<open>\<open>GroupWrapper.from_list_of_groups\<close>: the one group this rank is in.\<close>

definition own_group :: "int list list \<Rightarrow> int \<Rightarrow> int list option" where
  "own_group groups rank =
     (case filter (\<lambda>g. rank \<in> set g) groups of [g] \<Rightarrow> Some g | _ \<Rightarrow> None)"

section \<open>Exchange plans\<close>

datatype 'i plan_entry = PlanEntry (pe_sender: int) (pe_receiver: int) (pe_id: 'i)

definition required_ids :: "'i plan_entry list \<Rightarrow> int \<Rightarrow> 'i list" where
  "required_ids entries rank = remdups (map pe_id (filter (\<lambda>e. pe_sender e = rank) entries))"

datatype 'i plan_error =
    NoReplicas 'i
  | MissingData
  | NothingArrives int

text \<open>
  One receiver's part of the plan. \<open>pick k\<close> is the k-th draw of the generator; n counts the draws
  made so far.
\<close>

fun plan_wanted ::
  "(nat \<Rightarrow> int list \<Rightarrow> int) \<Rightarrow> int list \<Rightarrow> (int \<Rightarrow> 'i list) \<Rightarrow> int \<Rightarrow> 'i list \<Rightarrow> nat \<Rightarrow> 'i plan_entry list
    \<Rightarrow> 'i plan_error + 'i plan_entry list \<times> nat" where
  "plan_wanted pick ranks available receiver [] n entries = Inr (entries, n)"
| "plan_wanted pick ranks available receiver (w # ws) n entries =
     (let holders = filter (\<lambda>r. w \<in> set (available r)) ranks
      in if holders = [] then Inl (NoReplicas w)
         else if receiver \<in> set holders
         then plan_wanted pick ranks available receiver ws n (entries @ [PlanEntry receiver receiver w])
         else plan_wanted pick ranks available receiver ws (n + 1)
                (entries @ [PlanEntry (pick n (sort (remdups holders))) receiver w]))"

fun plan_receivers ::
  "(nat \<Rightarrow> int list \<Rightarrow> int) \<Rightarrow> int list \<Rightarrow> (int \<Rightarrow> 'i list) \<Rightarrow> (int \<times> 'i list) list \<Rightarrow> nat \<Rightarrow> 'i plan_entry list
    \<Rightarrow> 'i plan_error + 'i plan_entry list" where
  "plan_receivers pick ranks available [] n entries = Inr entries"
| "plan_receivers pick ranks available ((r, ws) # rs) n entries =
     (case plan_wanted pick ranks available r ws n entries of
        Inl e \<Rightarrow> Inl e
      | Inr (entries', n') \<Rightarrow> plan_receivers pick ranks available rs n' entries')"

definition retrieve_plan ::
  "(nat \<Rightarrow> int list \<Rightarrow> int) \<Rightarrow> int list \<Rightarrow> (int \<Rightarrow> 'i list) \<Rightarrow> 'i list list \<Rightarrow> 'i plan_error + 'i plan_entry list" where
  "retrieve_plan pick ranks available wanted =
     plan_receivers pick ranks available (zip ranks wanted) 0 []"

section \<open>Executing a plan\<close>

text \<open>
  The entries in order: the shards received so far, the messages sent so far, and what is still in
  the queue of each sender.
\<close>

fun run_entries ::
  "int \<Rightarrow> ('i, 'a) dict \<Rightarrow> 'i plan_entry list \<Rightarrow> (int \<Rightarrow> 'a list) \<Rightarrow> ('i, 'a) dict \<Rightarrow> (int \<times> 'a) list
    \<Rightarrow> 'i plan_error + ('i, 'a) dict \<times> (int \<times> 'a) list" where
  "run_entries me my_data [] incoming got sent = Inr (got, sent)"
| "run_entries me my_data (e # es) incoming got sent =
     (if pe_sender e = me then
        (case map_of my_data (pe_id e) of
           None \<Rightarrow> Inl MissingData
         | Some v \<Rightarrow>
             if pe_receiver e = me
             then run_entries me my_data es incoming (AList.update (pe_id e) v got) sent
             else run_entries me my_data es incoming got (sent @ [(pe_receiver e, v)]))
      else if pe_receiver e = me then
        (case incoming (pe_sender e) of
           [] \<Rightarrow> Inl (NothingArrives (pe_sender e))
         | v # vs \<Rightarrow> run_entries me my_data es (incoming(pe_sender e := vs)) (AList.update (pe_id e) v got) sent)
      else run_entries me my_data es incoming got sent)"

definition execute_plan ::
  "int \<Rightarrow> 'i plan_entry list \<Rightarrow> ('i, 'a) dict \<Rightarrow> (int \<Rightarrow> 'a list)
    \<Rightarrow> 'i plan_error + ('i, 'a) dict \<times> (int \<times> 'a) list" where
  "execute_plan me entries my_data incoming =
     (if list_ex (\<lambda>i. map_of my_data i = None) (required_ids entries me) then Inl MissingData
      else run_entries me my_data entries incoming [] [])"

section \<open>The groups are the documented ones\<close>

lemma range_step_length:
  assumes "0 < jump" and "0 \<le> m" and "m < jump"
  shows "range_step m (jump * int n) jump = map (\<lambda>i. m + int i * jump) [0..<n]"
proof -
  have "jump * int n - m + jump - 1 = jump * int n + (jump - 1 - m)" by simp
  also have "\<dots> div jump = int n" using assms by (simp add: div_pos_pos_trivial)
  finally show ?thesis by (simp add: range_step_def)
qed

lemma batched_map:
  assumes "0 < n"
  shows "batched n (map f [s..<s + n * q]) = map (\<lambda>a. map f [s + a * n..<s + a * n + n]) [0..<q]"
proof (induction q arbitrary: s)
  case 0
  then show ?case by (simp add: batched.simps)
next
  case (Suc q)
  have "take n (map f [s..<s + n * Suc q]) = map f [s..<s + n]"
    and "drop n (map f [s..<s + n * Suc q]) = map f [s + n..<(s + n) + n * q]"
    by (simp_all add: take_map drop_map take_upt algebra_simps)
  moreover have "map f [s..<s + n * Suc q] \<noteq> []" using assms by simp
  ultimately have "batched n (map f [s..<s + n * Suc q])
      = map f [s..<s + n] # batched n (map f [s + n..<(s + n) + n * q])"
    using assms by (subst batched.simps) simp
  also have "\<dots> = map f [s..<s + n] # map (\<lambda>a. map f [(s + n) + a * n..<(s + n) + a * n + n]) [0..<q]"
    by (simp only: Suc.IH)
  also have "\<dots> = map (\<lambda>a. map f [s + a * n..<s + a * n + n]) [0..<Suc q]"
    by (simp add: upt_conv_Cons map_Suc_upt [symmetric] comp_def algebra_simps del: upt_Suc map_Suc_upt)
  finally show ?case .
qed

text \<open>The documented cliques: \<open>n\<close>, \<open>n + J\<close>, ..., \<open>n + (F - 1) J\<close> with \<open>n = a J F + b\<close>.\<close>

definition documented_clique :: "nat \<Rightarrow> nat \<Rightarrow> nat \<times> nat \<Rightarrow> int list" where
  "documented_clique jump factor ab =
     map (\<lambda>k. int (fst ab * jump * factor + snd ab + k * jump)) [0..<factor]"

definition documented_cliques :: "nat \<Rightarrow> nat \<Rightarrow> nat \<Rightarrow> int list list" where
  "documented_cliques jump factor q = map (documented_clique jump factor) (List.product [0..<q] [0..<jump])"

lemma sorted_wrt_product:
  assumes "sorted_wrt (<) xs" and "sorted_wrt (<) ys"
  shows "sorted_wrt (\<lambda>p q. fst p < fst q \<or> fst p = fst q \<and> snd p < snd q) (List.product (xs :: nat list) (ys :: nat list))"
  using assms
proof (induction xs)
  case (Cons x xs)
  have "sorted_wrt (\<lambda>p q. fst p < fst q \<or> fst p = fst q \<and> snd p < snd q) (map (Pair x) ys)"
    using Cons.prems(2) by (simp add: sorted_wrt_map)
  then show ?case using Cons by (auto simp: sorted_wrt_append)
qed simp

lemma mset_product_swap:
  assumes "distinct xs" and "distinct ys"
  shows "mset (map prod.swap (List.product xs ys)) = mset (List.product ys xs)"
proof -
  have "distinct (map prod.swap (List.product xs ys))"
    using assms by (simp add: distinct_map distinct_product)
  then show ?thesis
    using assms by (subst set_eq_iff_mset_eq_distinct [symmetric]) (auto simp: distinct_product)
qed

lemma documented_clique_less:
  assumes "fst p < fst q \<or> fst p = fst q \<and> snd p < snd q" and "snd p < jump" and "0 < factor"
  shows "documented_clique jump factor p < documented_clique jump factor q"
proof -
  have "fst p * jump * factor + snd p < fst q * jump * factor + snd q"
  proof (cases "fst p < fst q")
    case True
    then have "Suc (fst p) * (jump * factor) \<le> fst q * (jump * factor)" by (intro mult_le_mono1) simp
    moreover have "snd p < jump * factor"
      by (rule less_le_trans [OF assms(2)]) (use assms(3) in simp)
    ultimately show ?thesis by (simp add: mult.assoc)
  qed (use assms in auto)
  then show ?thesis
    using assms(3) by (simp add: documented_clique_def upt_conv_Cons del: of_nat_add of_nat_mult)
qed

lemma documented_cliques_sorted:
  assumes "0 < factor"
  shows "sorted (documented_cliques jump factor q)"
proof -
  have "sorted_wrt (\<lambda>p q. fst p < fst q \<or> fst p = fst q \<and> snd p < snd q) (List.product [0..<q] [0..<jump])"
    by (rule sorted_wrt_product) simp_all
  then have "sorted_wrt (\<lambda>p q. documented_clique jump factor p \<le> documented_clique jump factor q)
      (List.product [0..<q] [0..<jump])"
    by (rule sorted_wrt_mono_rel [rotated])
      (use documented_clique_less [OF _ _ assms] in \<open>auto simp: less_imp_le\<close>)
  then show ?thesis by (simp add: documented_cliques_def sorted_wrt_map)
qed

lemma batched_range_step:
  assumes "0 < jump" and "0 < factor" and "m < jump"
  shows "batched factor (range_step (int m) (int (jump * factor * q)) (int jump))
    = map (\<lambda>a. documented_clique jump factor (a, m)) [0..<q]"
proof -
  have "range_step (int m) (int jump * int (factor * q)) (int jump)
      = map (\<lambda>i. int m + int i * int jump) [0..<0 + factor * q]"
    using assms by (subst range_step_length) auto
  moreover have "int (jump * factor * q) = int jump * int (factor * q)" by simp
  ultimately have "batched factor (range_step (int m) (int (jump * factor * q)) (int jump))
      = map (\<lambda>a. map (\<lambda>i. int m + int i * int jump) [0 + a * factor..<0 + a * factor + factor]) [0..<q]"
    by (simp only: batched_map [OF assms(2)])
  also have "\<dots> = map (\<lambda>a. documented_clique jump factor (a, m)) [0..<q]"
    by (rule map_cong [OF refl]) (auto intro!: nth_equalityI simp: documented_clique_def algebra_simps)
  finally show ?thesis .
qed

lemma parse_group_sequence_documented:
  assumes "0 < jump" and "0 < factor"
  shows "parse_group_sequence (int jump) (int factor) (int (jump * factor * q)) = Inr (documented_cliques jump factor q)"
proof -
  let ?W = "int (jump * factor * q)"
  have ms: "map (\<lambda>m. batched factor (range_step m ?W (int jump))) [0..int jump - 1]
      = map (\<lambda>m. map (\<lambda>a. documented_clique jump factor (a, m)) [0..<q]) [0..<jump]"
    using assms batched_range_step
    by (intro nth_equalityI) (simp_all del: of_nat_mult)
  have "concat (map (\<lambda>m. map (\<lambda>a. documented_clique jump factor (a, m)) ys) xs)
      = map (documented_clique jump factor) (map prod.swap (List.product xs ys))" for xs ys
    by (induction xs) simp_all
  then have "mset (concat (map (\<lambda>m. batched factor (range_step m ?W (int jump))) [0..int jump - 1]))
      = image_mset (documented_clique jump factor) (mset (map prod.swap (List.product [0..<jump] [0..<q])))"
    unfolding ms by (simp only: mset_map)
  also have "\<dots> = mset (documented_cliques jump factor q)"
    by (subst mset_product_swap) (simp_all add: documented_cliques_def)
  finally have "sort (concat (map (\<lambda>m. batched factor (range_step m ?W (int jump))) [0..int jump - 1]))
      = documented_cliques jump factor q"
    using documented_cliques_sorted [OF assms(2)] by (intro properties_for_sort) simp_all
  then show ?thesis using assms by (simp add: parse_group_sequence_def)
qed

lemma parse_group_sequence_value:
  "parse_group_sequence jump factor world_size =
     (if jump \<le> 0 then Inl JumpNotPositive
      else if factor \<le> 0 then Inl EmptyGroups
      else if world_size mod (jump * factor) \<noteq> 0 then Inl NotSplittable
      else Inr (documented_cliques (nat jump) (nat factor) (nat (world_size div (jump * factor)))))"
proof (cases "0 < jump \<and> 0 < factor \<and> world_size mod (jump * factor) = 0")
  case True
  define d where "d = world_size div (jump * factor)"
  have pos: "0 < jump" "0 < factor" "0 < jump * factor" and W: "world_size = jump * factor * d"
    using True by (auto simp: d_def)
  show ?thesis
  proof (cases "0 \<le> d")
    case True
    then have "world_size = int (nat jump * nat factor * nat d)" using pos W by simp
    then show ?thesis
      using pos True parse_group_sequence_documented [of "nat jump" "nat factor" "nat d"] by (simp add: W)
  next
    case False
    have "factor * d < 0" using pos False by (simp add: mult_less_0_iff)
    then have "jump * 1 \<le> jump * - (factor * d)" using pos by (intro mult_left_mono) simp_all
    then have "world_size \<le> - jump" by (simp add: W mult.assoc)
    then have "range_step m world_size jump = []" if "0 \<le> m" for m
      using that pos div_neg_pos_less0 [of "world_size - m + jump - 1" jump] by (simp add: range_step_def)
    then have none: "concat (map (\<lambda>m. batched (nat factor) (range_step m world_size jump)) [0..jump - 1]) = []"
      by (simp add: batched.simps)
    show ?thesis
      unfolding parse_group_sequence_def none using pos False by (simp add: documented_cliques_def W)
  qed
qed (auto simp: parse_group_sequence_def)

text \<open>
  C37: \<open>parse_group_sequence\<close> gives, in this order, exactly the cliques its documentation promises
  (\<open>n\<close>, \<open>n + J\<close>, ..., \<open>n + (F - 1) J\<close> with \<open>n = a J F + b\<close>), and it raises exactly when the jump
  or the factor is not positive or the world does not split.
\<close>

theorem replication_groups_documented:
  "parse_group_sequence jump factor world_size =
     (if jump \<le> 0 then Inl JumpNotPositive
      else if factor \<le> 0 then Inl EmptyGroups
      else if world_size mod (jump * factor) \<noteq> 0 then Inl NotSplittable
      else Inr (documented_cliques (nat jump) (nat factor) (nat (world_size div (jump * factor)))))"
  by (rule parse_group_sequence_value)

section \<open>Every rank has one clique\<close>

lemma in_documented_clique_iff:
  assumes "snd ab < jump" and "0 < factor"
  shows "r \<in> set (documented_clique jump factor ab)
    \<longleftrightarrow> 0 \<le> r \<and> nat r div (jump * factor) = fst ab \<and> nat r mod jump = snd ab"
proof
  assume "r \<in> set (documented_clique jump factor ab)"
  then obtain k where k: "k < factor" and r: "r = int (fst ab * jump * factor + snd ab + k * jump)"
    by (auto simp: documented_clique_def)
  have "snd ab + k * jump < jump + k * jump" using assms by simp
  also have "\<dots> \<le> factor * jump" using k by (simp add: mult_le_mono1 flip: mult_Suc)
  finally have less: "snd ab + k * jump < jump * factor" by (simp add: mult.commute)
  have "nat r = (snd ab + k * jump) + fst ab * (jump * factor)"
    unfolding r nat_int by (simp add: mult.assoc)
  then have "nat r div (jump * factor) = fst ab" using less by (simp only: div_mult_self1 div_less)
  moreover have "nat r = snd ab + (fst ab * factor + k) * jump"
    unfolding r nat_int by (simp add: algebra_simps)
  then have "nat r mod jump = snd ab" using assms(1) by (simp only: mod_mult_self1 mod_less)
  ultimately show "0 \<le> r \<and> nat r div (jump * factor) = fst ab \<and> nat r mod jump = snd ab"
    unfolding r by simp
next
  assume *: "0 \<le> r \<and> nat r div (jump * factor) = fst ab \<and> nat r mod jump = snd ab"
  define s where "s = nat r mod (jump * factor)"
  define k where "k = s div jump"
  have "s < jump * factor" using assms by (simp add: s_def)
  then have "k < factor" by (simp add: k_def less_mult_imp_div_less mult.commute)
  have "s = s div jump * jump + s mod jump" by simp
  moreover have "s mod jump = snd ab" using * by (simp add: s_def mod_mod_cancel)
  ultimately have "s = k * jump + snd ab" by (simp add: k_def)
  moreover have "nat r = nat r div (jump * factor) * (jump * factor) + s"
    unfolding s_def by (rule div_mult_mod_eq [symmetric])
  ultimately have "nat r = fst ab * jump * factor + snd ab + k * jump" using * by (simp add: mult.assoc)
  then have "r = int (fst ab * jump * factor + snd ab + k * jump)" using * by (metis nat_0_le)
  then show "r \<in> set (documented_clique jump factor ab)"
    using \<open>k < factor\<close> by (auto simp: documented_clique_def)
qed

lemma filter_eq_single:
  assumes "distinct xs" and "x \<in> set xs" and "\<And>y. y \<in> set xs \<Longrightarrow> P y \<longleftrightarrow> y = x"
  shows "filter P xs = [x]"
proof -
  have "filter P xs = filter (\<lambda>y. y = x) xs" by (rule filter_cong) (simp_all add: assms(3))
  also have "\<dots> = [x]" using assms(1,2) by (induction xs) (auto simp: filter_empty_conv)
  finally show ?thesis .
qed

lemma own_group_documented:
  assumes "0 < jump" and "0 < factor" and "0 \<le> rank" and "rank < int (jump * factor * q)"
  shows "own_group (documented_cliques jump factor q) rank
    = Some (documented_clique jump factor (nat rank div (jump * factor), nat rank mod jump))"
proof -
  have "nat rank < jump * factor * q" using assms(3,4) by (simp only: nat_less_iff)
  then have "nat rank < q * (jump * factor)" by (simp only: mult.commute)
  then have "nat rank div (jump * factor) < q" by (rule less_mult_imp_div_less)
  then have "filter (\<lambda>ab. rank \<in> set (documented_clique jump factor ab)) (List.product [0..<q] [0..<jump])
      = [(nat rank div (jump * factor), nat rank mod jump)]"
    using assms by (intro filter_eq_single) (auto simp: distinct_product in_documented_clique_iff)
  then show ?thesis by (simp add: own_group_def documented_cliques_def filter_map comp_def)
qed

text \<open>
  After \<open>from_replication_params\<close> has cut the world into cliques, every rank of the world is in
  exactly one of them: \<open>from_list_of_groups\<close> finds it without an assertion, it has
  \<open>replication_factor\<close> distinct members of the world, and all of them agree on it.
\<close>

lemma clique_of_rank:
  assumes "parse_group_sequence jump factor world_size = Inr groups" and "0 \<le> rank" and "rank < world_size"
  shows "\<exists>g. own_group groups rank = Some g \<and> rank \<in> set g \<and> distinct g \<and> int (length g) = factor
    \<and> set g = {r. 0 \<le> r \<and> r < world_size \<and> own_group groups r = Some g}"
proof -
  have pos: "0 < jump" "0 < factor" and "world_size mod (jump * factor) = 0"
    using assms(1) by (auto simp: parse_group_sequence_value split: if_splits)
  define d where "d = world_size div (jump * factor)"
  have W: "world_size = jump * factor * d"
    using \<open>world_size mod (jump * factor) = 0\<close> by (auto simp: d_def)
  have "0 < jump * factor" using pos by simp
  then have "0 \<le> d" using assms(2,3) by (simp add: d_def pos_imp_zdiv_nonneg_iff)
  define J F q where "J = nat jump" and "F = nat factor" and "q = nat d"
  have nn: "0 < J" "0 < F" "world_size = int (J * F * q)" "int F = factor"
    using pos W \<open>0 \<le> d\<close> by (simp_all add: J_def F_def q_def)
  have groups: "groups = documented_cliques J F q"
    using assms(1) pos by (simp add: parse_group_sequence_value J_def F_def q_def d_def split: if_splits)
  define ab where "ab r = (nat r div (J * F), nat r mod J)" for r
  have own: "own_group groups r = Some (documented_clique J F (ab r))" if "0 \<le> r" "r < world_size" for r
    using own_group_documented [of J F r q] that nn groups by (simp add: ab_def)
  have members: "r \<in> set (documented_clique J F (ab s)) \<longleftrightarrow> 0 \<le> r \<and> ab r = ab s" for r s
    using in_documented_clique_iff [of "ab s" J F r] nn(1,2) by (auto simp: ab_def)
  have inside: "r < world_size" if "0 \<le> r" "ab r = ab rank" for r
  proof -
    have "nat rank < J * F * q" using assms(2,3) unfolding nn(3) by (simp only: nat_less_iff)
    then have "nat r div (J * F) < q"
      using that by (simp add: ab_def less_mult_imp_div_less mult.commute)
    then have "nat r < J * F * q" using nn(1,2) by (simp add: div_less_iff_less_mult mult.commute)
    then show ?thesis using that(1) unfolding nn(3) by (simp only: nat_less_iff)
  qed
  show ?thesis
  proof (intro exI conjI)
    show "own_group groups rank = Some (documented_clique J F (ab rank))" by (rule own [OF assms(2,3)])
    show "rank \<in> set (documented_clique J F (ab rank))" using assms(2) by (simp add: members)
    show "distinct (documented_clique J F (ab rank))"
      using nn(1) by (simp add: documented_clique_def distinct_map inj_on_def)
    show "int (length (documented_clique J F (ab rank))) = factor"
      using nn(4) by (simp add: documented_clique_def)
    show "set (documented_clique J F (ab rank)) =
        {r. 0 \<le> r \<and> r < world_size \<and> own_group groups r = Some (documented_clique J F (ab rank))}"
      by (auto simp: members own inside) (metis members own option.inject)+
  qed
qed

section \<open>A plan delivers\<close>

text \<open>
  What a rank sends when every identifier asked of it is among its own shards, and what a receiver
  ends up with. \<open>shards s\<close> is what rank s has loaded.
\<close>

definition plan_value :: "(int \<Rightarrow> ('i, 'a) dict) \<Rightarrow> 'i plan_entry \<Rightarrow> 'a" where
  "plan_value shards e = the (map_of (shards (pe_sender e)) (pe_id e))"

definition plan_sends :: "(int \<Rightarrow> ('i, 'a) dict) \<Rightarrow> 'i plan_entry list \<Rightarrow> int \<Rightarrow> (int \<times> 'a) list" where
  "plan_sends shards entries s =
     map (\<lambda>e. (pe_receiver e, plan_value shards e))
       (filter (\<lambda>e. pe_sender e = s \<and> pe_receiver e \<noteq> s) entries)"

definition plan_queue :: "(int \<Rightarrow> ('i, 'a) dict) \<Rightarrow> 'i plan_entry list \<Rightarrow> int \<Rightarrow> int \<Rightarrow> 'a list" where
  "plan_queue shards entries r s = map snd (filter (\<lambda>m. fst m = r) (plan_sends shards entries s))"

definition plan_got :: "(int \<Rightarrow> ('i, 'a) dict) \<Rightarrow> 'i plan_entry list \<Rightarrow> int \<Rightarrow> ('i, 'a) dict \<Rightarrow> ('i, 'a) dict" where
  "plan_got shards entries r got =
     fold (\<lambda>e. AList.update (pe_id e) (plan_value shards e)) (filter (\<lambda>e. pe_receiver e = r) entries) got"

definition plan_covered :: "(int \<Rightarrow> ('i, 'a) dict) \<Rightarrow> 'i plan_entry list \<Rightarrow> bool" where
  "plan_covered shards entries \<longleftrightarrow> list_all (\<lambda>e. map_of (shards (pe_sender e)) (pe_id e) \<noteq> None) entries"

lemma run_entries_delivers:
  assumes "plan_covered shards entries"
    and "\<And>s. s \<noteq> me \<Longrightarrow> incoming s = plan_queue shards entries me s"
  shows "run_entries me (shards me) entries incoming got sent
    = Inr (plan_got shards entries me got, sent @ plan_sends shards entries me)"
  using assms
proof (induction entries arbitrary: incoming got sent)
  case Nil
  then show ?case by (simp add: plan_got_def plan_sends_def)
next
  case (Cons e es)
  from Cons.prems(1) obtain v where v: "map_of (shards (pe_sender e)) (pe_id e) = Some v"
    and covered: "plan_covered shards es"
    by (auto simp: plan_covered_def)
  show ?case
  proof (cases "pe_sender e = me")
    case True
    then have "incoming s = plan_queue shards es me s" if "s \<noteq> me" for s
      using Cons.prems(2) [OF that] that by (simp add: plan_queue_def plan_sends_def)
    then show ?thesis
      using True v Cons.IH [OF covered, of incoming]
      by (simp add: plan_got_def plan_sends_def plan_value_def)
  next
    case False
    show ?thesis
    proof (cases "pe_receiver e = me")
      case True
      then have "incoming (pe_sender e) = v # plan_queue shards es me (pe_sender e)"
        using False v Cons.prems(2) [OF False] by (simp add: plan_queue_def plan_sends_def plan_value_def)
      moreover have "(incoming(pe_sender e := plan_queue shards es me (pe_sender e))) s = plan_queue shards es me s"
        if "s \<noteq> me" for s
        using Cons.prems(2) [OF that] by (auto simp: plan_queue_def plan_sends_def)
      ultimately show ?thesis
        using True False v Cons.IH [OF covered, of "incoming(pe_sender e := plan_queue shards es me (pe_sender e))"]
        by (simp add: plan_got_def plan_sends_def plan_value_def del: fun_upd_apply)
    next
      case not_mine: False
      then have "incoming s = plan_queue shards es me s" if "s \<noteq> me" for s
        using Cons.prems(2) [OF that] by (auto simp: plan_queue_def plan_sends_def)
      then show ?thesis
        using False not_mine Cons.IH [OF covered, of incoming] by (simp add: plan_got_def plan_sends_def)
    qed
  qed
qed

lemma execute_plan_delivers:
  assumes "plan_covered shards entries"
  shows "execute_plan me entries (shards me) (plan_queue shards entries me)
    = Inr (plan_got shards entries me [], plan_sends shards entries me)"
  using assms run_entries_delivers [OF assms, of me "plan_queue shards entries me" "[]" "[]"]
  by (auto simp: execute_plan_def required_ids_def plan_covered_def list_ex_iff list_all_iff)

section \<open>What a plan contains\<close>

lemma plan_wanted_one:
  "plan_wanted pick ranks available r [w] n entries =
     (let holders = filter (\<lambda>k. w \<in> set (available k)) ranks
      in if holders = [] then Inl (NoReplicas w)
         else if r \<in> set holders then Inr (entries @ [PlanEntry r r w], n)
         else Inr (entries @ [PlanEntry (pick n (sort (remdups holders))) r w], n + 1))"
  by (simp add: Let_def)

section \<open>Blocking exchange\<close>

text \<open>
  The ranks of a clique work through the same plan with sends and receives that wait for each
  other: a rank passes an entry that is not about it, keeps a shard it sends to itself, and a
  sender and its receiver move together when both have reached an entry between the two of them.
\<close>

record ('i, 'a) exchange =
  ex_left :: "int \<Rightarrow> 'i plan_entry list"
  ex_got :: "int \<Rightarrow> ('i, 'a) dict"

inductive exchange_step ::
  "int list \<Rightarrow> (int \<Rightarrow> ('i, 'a) dict) \<Rightarrow> ('i, 'a) exchange \<Rightarrow> ('i, 'a) exchange \<Rightarrow> bool"
  for ranks :: "int list" and shards :: "int \<Rightarrow> ('i, 'a) dict" where
  pass: "r \<in> set ranks \<Longrightarrow> ex_left S r = e # es \<Longrightarrow> pe_sender e \<noteq> r \<Longrightarrow> pe_receiver e \<noteq> r \<Longrightarrow>
    exchange_step ranks shards S (S\<lparr>ex_left := (ex_left S)(r := es)\<rparr>)"
| keep: "r \<in> set ranks \<Longrightarrow> ex_left S r = e # es \<Longrightarrow> pe_sender e = r \<Longrightarrow> pe_receiver e = r \<Longrightarrow>
    map_of (shards r) (pe_id e) = Some v \<Longrightarrow>
    exchange_step ranks shards S
      (S\<lparr>ex_left := (ex_left S)(r := es), ex_got := (ex_got S)(r := AList.update (pe_id e) v (ex_got S r))\<rparr>)"
| transfer: "s \<in> set ranks \<Longrightarrow> r \<in> set ranks \<Longrightarrow> s \<noteq> r \<Longrightarrow> ex_left S s = e # es \<Longrightarrow> ex_left S r = e' # es' \<Longrightarrow>
    pe_sender e = s \<Longrightarrow> pe_receiver e = r \<Longrightarrow> pe_sender e' = s \<Longrightarrow> pe_receiver e' = r \<Longrightarrow>
    map_of (shards s) (pe_id e) = Some v \<Longrightarrow>
    exchange_step ranks shards S
      (S\<lparr>ex_left := (ex_left S)(s := es, r := es'), ex_got := (ex_got S)(r := AList.update (pe_id e') v (ex_got S r))\<rparr>)"

definition exchange_start :: "'i plan_entry list \<Rightarrow> ('i, 'a) exchange" where
  "exchange_start entries = \<lparr>ex_left = \<lambda>_. entries, ex_got = \<lambda>_. []\<rparr>"

definition exchange_done :: "int list \<Rightarrow> ('i, 'a) exchange \<Rightarrow> bool" where
  "exchange_done ranks S \<longleftrightarrow> list_all (\<lambda>r. ex_left S r = []) ranks"

definition plan_within :: "int list \<Rightarrow> 'i plan_entry list \<Rightarrow> bool" where
  "plan_within ranks entries \<longleftrightarrow> list_all (\<lambda>e. pe_sender e \<in> set ranks \<and> pe_receiver e \<in> set ranks) entries"

text \<open>How far each rank is: sender and receiver of an entry have passed it together.\<close>

definition exchange_inv ::
  "int list \<Rightarrow> (int \<Rightarrow> ('i, 'a) dict) \<Rightarrow> 'i plan_entry list \<Rightarrow> (int \<Rightarrow> nat) \<Rightarrow> ('i, 'a) exchange \<Rightarrow> bool" where
  "exchange_inv ranks shards entries n S \<longleftrightarrow>
     (\<forall>r \<in> set ranks. n r \<le> length entries \<and> ex_left S r = drop (n r) entries
        \<and> ex_got S r = plan_got shards (take (n r) entries) r [])
     \<and> (\<forall>i < length entries. pe_sender (entries ! i) \<noteq> pe_receiver (entries ! i)
          \<longrightarrow> (i < n (pe_sender (entries ! i)) \<longleftrightarrow> i < n (pe_receiver (entries ! i))))"

lemma exchange_inv_start: "exchange_inv ranks shards entries (\<lambda>_. 0) (exchange_start entries)"
  by (simp add: exchange_inv_def exchange_start_def plan_got_def)

lemma plan_got_take_Suc:
  assumes "i < length entries"
  shows "plan_got shards (take (Suc i) entries) r got =
    (if pe_receiver (entries ! i) = r
     then AList.update (pe_id (entries ! i)) (plan_value shards (entries ! i)) (plan_got shards (take i entries) r got)
     else plan_got shards (take i entries) r got)"
  using assms by (simp add: plan_got_def take_Suc_conv_app_nth)

lemma exchange_inv_head:
  assumes "exchange_inv ranks shards entries n S" and "r \<in> set ranks" and "ex_left S r = e # es"
  shows "n r < length entries" and "entries ! n r = e" and "es = drop (Suc (n r)) entries"
proof -
  have d: "drop (n r) entries = e # es" using assms by (simp add: exchange_inv_def)
  then show "n r < length entries" by (metis drop_all leI list.discI)
  then show "entries ! n r = e" "es = drop (Suc (n r)) entries"
    using d by (simp_all add: Cons_nth_drop_Suc [symmetric])
qed

lemma exchange_inv_step:
  assumes "exchange_step ranks shards S S'" and "exchange_inv ranks shards entries n S"
  shows "\<exists>n'. exchange_inv ranks shards entries n' S'"
  using assms(1)
proof cases
  case (pass r e es)
  note h = exchange_inv_head [OF assms(2) pass(2,3)]
  have "exchange_inv ranks shards entries (n(r := Suc (n r))) S'"
    using assms(2) pass h by (auto simp: exchange_inv_def plan_got_take_Suc less_Suc_eq)
  then show ?thesis by blast
next
  case (keep r e es v)
  note h = exchange_inv_head [OF assms(2) keep(2,3)]
  have "exchange_inv ranks shards entries (n(r := Suc (n r))) S'"
    using assms(2) keep h by (auto simp: exchange_inv_def plan_got_take_Suc plan_value_def less_Suc_eq)
  then show ?thesis by blast
next
  case (transfer s r e es e' es' v)
  note h = exchange_inv_head [OF assms(2) transfer(2,5)] and h' = exchange_inv_head [OF assms(2) transfer(3,6)]
  have sync: "i < n s \<longleftrightarrow> i < n r"
    if "i < length entries" "pe_sender (entries ! i) = s" "pe_receiver (entries ! i) = r" for i
    using assms(2) that transfer(4) by (auto simp: exchange_inv_def)
  have "n s = n r"
    using sync [of "n s"] sync [of "n r"] h h' transfer by (metis less_irrefl linorder_neqE_nat)
  let ?n = "n(s := Suc (n s), r := Suc (n s))"
  have same: "e' = e" "es' = es" using h h' \<open>n s = n r\<close> by simp_all
  have "\<forall>k \<in> set ranks. ?n k \<le> length entries \<and> ex_left S' k = drop (?n k) entries
      \<and> ex_got S' k = plan_got shards (take (?n k) entries) k []"
    using assms(2) transfer h \<open>n s = n r\<close> unfolding same
    by (simp add: exchange_inv_def plan_got_take_Suc plan_value_def)
  moreover have "i < ?n (pe_sender (entries ! i)) \<longleftrightarrow> i < ?n (pe_receiver (entries ! i))"
    if "i < length entries" "pe_sender (entries ! i) \<noteq> pe_receiver (entries ! i)" for i
  proof (cases "i = n s")
    case True
    then show ?thesis using h(2) transfer by simp
  next
    case False
    then have "i < ?n k \<longleftrightarrow> i < n k" for k using \<open>n s = n r\<close> by (auto simp: less_Suc_eq)
    then show ?thesis using assms(2) that unfolding exchange_inv_def by blast
  qed
  ultimately show ?thesis unfolding exchange_inv_def by blast
qed

lemma exchange_inv_progress:
  assumes inv: "exchange_inv ranks shards entries n S"
    and within: "plan_within ranks entries" and covered: "plan_covered shards entries"
    and more: "\<not> exchange_done ranks S"
  shows "\<exists>S'. exchange_step ranks shards S S'"
proof -
  define m where "m = Min (n ` set ranks)"
  obtain k where "k \<in> set ranks" "ex_left S k \<noteq> []"
    using more by (auto simp: exchange_done_def list_all_iff)
  then have "n k < length entries" using inv by (simp add: exchange_inv_def)
  have least: "m \<le> n r" if "r \<in> set ranks" for r using that by (simp add: m_def)
  have "m < length entries" using least [OF \<open>k \<in> set ranks\<close>] \<open>n k < length entries\<close> by simp
  have "m \<in> n ` set ranks" using \<open>k \<in> set ranks\<close> unfolding m_def by (intro Min_in) auto
  then obtain r where r: "r \<in> set ranks" "n r = m" by auto
  let ?e = "entries ! m"
  have left: "ex_left S x = ?e # drop (Suc m) entries" if "x \<in> set ranks" "n x = m" for x
    using inv that \<open>m < length entries\<close> by (simp add: exchange_inv_def Cons_nth_drop_Suc)
  have parties: "pe_sender ?e \<in> set ranks" "pe_receiver ?e \<in> set ranks"
    using within \<open>m < length entries\<close> by (auto simp: plan_within_def list_all_length)
  obtain v where v: "map_of (shards (pe_sender ?e)) (pe_id ?e) = Some v"
    using covered \<open>m < length entries\<close> by (auto simp: plan_covered_def list_all_length)
  consider "pe_sender ?e \<noteq> r" "pe_receiver ?e \<noteq> r" | "pe_sender ?e = r" "pe_receiver ?e = r"
    | "pe_sender ?e \<noteq> pe_receiver ?e" "r = pe_sender ?e \<or> r = pe_receiver ?e"
    by metis
  then show ?thesis
  proof cases
    case 1
    show ?thesis by (rule exI, rule exchange_step.pass [OF r(1) left [OF r] 1])
  next
    case 2
    have "map_of (shards r) (pe_id ?e) = Some v" using v 2 by simp
    from exchange_step.keep [where shards = shards, OF r(1) left [OF r] 2 this] show ?thesis by blast
  next
    case 3
    have "m < n (pe_sender ?e) \<longleftrightarrow> m < n (pe_receiver ?e)"
      using inv 3(1) \<open>m < length entries\<close> by (simp add: exchange_inv_def)
    then have "n (pe_sender ?e) = m" "n (pe_receiver ?e) = m"
      using 3(2) r(2) least [OF parties(1)] least [OF parties(2)] by auto
    from exchange_step.transfer [where shards = shards, OF parties 3(1) left [OF parties(1) this(1)]
        left [OF parties(2) this(2)] refl refl refl refl v]
    show ?thesis by blast
  qed
qed

definition exchange_left :: "int list \<Rightarrow> ('i, 'a) exchange \<Rightarrow> nat" where
  "exchange_left ranks S = (\<Sum>r \<in> set ranks. length (ex_left S r))"

lemma exchange_step_decreases:
  assumes "exchange_step ranks shards S S'"
  shows "exchange_left ranks S' < exchange_left ranks S"
  using assms by cases (auto simp: exchange_left_def intro!: sum_strict_mono_ex1)

lemma exchange_run_bounded:
  assumes "(exchange_step ranks shards ^^ k) S S'"
  shows "k + exchange_left ranks S' \<le> exchange_left ranks S"
  using assms
proof (induction k arbitrary: S')
  case (Suc k)
  then obtain T where "(exchange_step ranks shards ^^ k) S T" "exchange_step ranks shards T S'" by auto
  then show ?case using Suc.IH [of T] exchange_step_decreases [of ranks shards T S'] by simp
qed simp

lemma exchange_run_inv:
  assumes "(exchange_step ranks shards ^^ k) (exchange_start entries) S"
  shows "\<exists>n. exchange_inv ranks shards entries n S"
  using assms
proof (induction k arbitrary: S)
  case 0
  then show ?case using exchange_inv_start by auto
next
  case (Suc k)
  then obtain T where "(exchange_step ranks shards ^^ k) (exchange_start entries) T" "exchange_step ranks shards T S"
    by auto
  then show ?case using Suc.IH [of T] exchange_inv_step by blast
qed

lemma exchange_inv_done:
  assumes "exchange_inv ranks shards entries n S" and "exchange_done ranks S"
  shows "list_all (\<lambda>r. ex_got S r = plan_got shards entries r []) ranks"
  using assms by (auto simp: exchange_inv_def exchange_done_def list_all_iff)

text \<open>
  C34: the blocking exchange of a plan cannot deadlock, however the ranks are scheduled: a run takes
  at most one step per rank and entry, and a state it reaches either has a next step or has every
  rank finished with exactly the shards the plan assigns to it. It needs every sender to hold what
  it is asked for and all ranks to follow the same plan.
\<close>

theorem exchange_never_blocks:
  assumes "(exchange_step ranks shards ^^ k) (exchange_start entries) S"
    and "plan_within ranks entries" and "plan_covered shards entries"
  shows "k \<le> length ranks * length entries \<and>
    (if exchange_done ranks S then list_all (\<lambda>r. ex_got S r = plan_got shards entries r []) ranks
     else \<exists>S'. exchange_step ranks shards S S')"
proof -
  obtain n where inv: "exchange_inv ranks shards entries n S" using exchange_run_inv [OF assms(1)] by blast
  have "k \<le> card (set ranks) * length entries"
    using exchange_run_bounded [OF assms(1)] by (simp add: exchange_left_def exchange_start_def)
  also have "\<dots> \<le> length ranks * length entries" by (simp add: card_length)
  finally show ?thesis
    using exchange_inv_progress [OF inv assms(2,3)] exchange_inv_done [OF inv] by simp
qed

theorem exchange_never_blocks_witness:
  "\<exists>S. (exchange_step [0, 1] (\<lambda>_. [(''a'', 7 :: nat)]) ^^ 1) (exchange_start [PlanEntry 0 1 ''a'']) S
    \<and> exchange_done [0, 1] S \<and> 1 \<le> length [0 :: int, 1] * length [PlanEntry 0 1 ''a'']
    \<and> list_all (\<lambda>r. ex_got S r = plan_got (\<lambda>_. [(''a'', 7)]) [PlanEntry 0 1 ''a''] r []) [0, 1]"
proof -
  let ?shards = "\<lambda>_ :: int. [(''a'', 7 :: nat)]" and ?plan = "[PlanEntry (0 :: int) 1 ''a'']"
  let ?S = "(exchange_start ?plan :: (string, nat) exchange)
    \<lparr>ex_left := (\<lambda>_. ?plan)(0 := [], 1 := []), ex_got := (\<lambda>_. [])(1 := AList.update ''a'' 7 [])\<rparr>"
  have "exchange_step [0, 1] ?shards (exchange_start ?plan) ?S"
    using exchange_step.transfer [of 0 "[0, 1]" 1 "exchange_start ?plan" "PlanEntry 0 1 ''a''" "[]"
        "PlanEntry 0 1 ''a''" "[]" ?shards 7]
    by (simp add: exchange_start_def)
  then have run: "(exchange_step [0, 1] ?shards ^^ 1) (exchange_start ?plan) ?S" unfolding relpowp_1 .
  have "exchange_done [0, 1] ?S" by (simp add: exchange_done_def)
  then show ?thesis
    using run exchange_never_blocks [OF run] by (auto simp: plan_within_def plan_covered_def)
qed

section \<open>The plan of a load\<close>

text \<open>One entry for every rank of the group, from a rank that has the shard, itself if it can.\<close>

definition entry_for ::
  "int list \<Rightarrow> (int \<Rightarrow> 'i list) \<Rightarrow> (int \<Rightarrow> 'i) \<Rightarrow> int \<Rightarrow> 'i plan_entry \<Rightarrow> bool" where
  "entry_for ranks available w r e \<longleftrightarrow>
     pe_receiver e = r \<and> pe_id e = w r \<and> pe_sender e \<in> set ranks \<and> w r \<in> set (available (pe_sender e))
     \<and> (r \<in> set ranks \<and> w r \<in> set (available r) \<longrightarrow> pe_sender e = r)"

text \<open>\<open>random.choice\<close> returns an element of the sequence.\<close>

definition picks_member :: "(nat \<Rightarrow> int list \<Rightarrow> int) \<Rightarrow> bool" where
  "picks_member pick \<longleftrightarrow> (\<forall>n xs. xs \<noteq> [] \<longrightarrow> pick n xs \<in> set xs)"

lemma plan_receivers_one:
  assumes pick: "picks_member pick"
    and some: "\<And>r. r \<in> set rs \<Longrightarrow> \<exists>k \<in> set ranks. w r \<in> set (available k)"
  shows "\<exists>more. plan_receivers pick ranks available (zip rs (map (\<lambda>r. [w r]) rs)) n entries = Inr (entries @ more)
    \<and> list_all2 (entry_for ranks available w) rs more"
  using some
proof (induction rs arbitrary: n entries)
  case (Cons r rs)
  let ?holders = "filter (\<lambda>k. w r \<in> set (available k)) ranks"
  let ?e = "if r \<in> set ?holders then PlanEntry r r (w r) else PlanEntry (pick n (sort (remdups ?holders))) r (w r)"
  let ?n = "if r \<in> set ?holders then n else n + 1"
  have "?holders \<noteq> []" using Cons.prems [of r] by (auto simp: filter_empty_conv)
  then have "pick n (sort (remdups ?holders)) \<in> set ?holders"
    using pick unfolding picks_member_def by (metis set_remdups set_sort set_empty)
  then have e: "entry_for ranks available w r ?e" by (auto simp: entry_for_def)
  have "plan_wanted pick ranks available r [w r] n entries = Inr (entries @ [?e], ?n)"
    using \<open>?holders \<noteq> []\<close> by (simp add: Let_def)
  moreover obtain more where "plan_receivers pick ranks available (zip rs (map (\<lambda>r. [w r]) rs)) ?n (entries @ [?e])
      = Inr ((entries @ [?e]) @ more)" and "list_all2 (entry_for ranks available w) rs more"
    using Cons.IH [of ?n "entries @ [?e]"] Cons.prems by (meson list.set_intros(2))
  ultimately show ?case using e by (intro exI [of _ "?e # more"]) (simp del: plan_wanted.simps)
qed simp

lemma retrieve_plan_one:
  assumes "picks_member pick" and "\<And>r. r \<in> set ranks \<Longrightarrow> \<exists>k \<in> set ranks. w r \<in> set (available k)"
  shows "\<exists>entries. retrieve_plan pick ranks available (map (\<lambda>r. [w r]) ranks) = Inr entries
    \<and> list_all2 (entry_for ranks available w) ranks entries"
  using plan_receivers_one [of pick ranks ranks w available 0 "[]"] assms
  by (simp add: retrieve_plan_def)

end
