(* ===== verification/CkptFiles.thy ===== *)
theory CkptFiles
  imports CkptGroups PyText
begin

text \<open>
  The files of the local checkpoints (\<open>checkpointing/local/ckpt_managers/local_manager.py\<close>): the
  names a shard is written under, how names are read back and matched, and the operations on a
  rank's checkpoint directory. A directory is the dictionary of its files; a file whose writer was
  interrupted has no content.
\<close>

type_synonym ckpt_id = "int \<times> int \<times> string"

datatype ckpt_error =
    InvalidIteration int
  | IterationDigits
  | BadFileName string
  | SessionMismatch
  | SameMachineReplication ckpt_id
  | FileMissing string
  | Unreadable string
  | NotSearched
  | NewerAvailable int int
  | SaveFailed int int
  | RetrievalFailed "ckpt_id plan_error"
  | WrongRetrieval
  | NotInGroup int

section \<open>Names\<close>

definition zfill :: "nat \<Rightarrow> string \<Rightarrow> string" where
  "zfill n s =
     (case s of
        c # cs \<Rightarrow> if c = CHR ''-'' \<or> c = CHR ''+'' then c # replicate (n - length s) CHR ''0'' @ cs
                  else replicate (n - length s) CHR ''0'' @ s
      | [] \<Rightarrow> replicate n CHR ''0'')"

text \<open>
  A name is made from a template whose iteration and rank are numbers, or wild cards of a pattern:
  \<open>Digits\<close> for the regular expression \<open>\d+\<close>, \<open>Star\<close> for the glob \<open>*\<close>.
\<close>

datatype name_pat = Lit char | Digits | Star

definition lits :: "string \<Rightarrow> name_pat list" where
  "lits s = map Lit s"

definition name_template :: "name_pat list \<Rightarrow> name_pat list \<Rightarrow> name_pat list \<Rightarrow> name_pat list" where
  "name_template iteration rank suffix =
     lits ''iter_'' @ iteration @ lits ''_'' @ rank @ lits ''_local'' @ suffix @ lits ''.pt''"

definition iteration_text :: "int \<Rightarrow> ckpt_error + string" where
  "iteration_text iteration =
     (let s = zfill 7 (int_text iteration)
      in if list_all py_isdigit s \<and> length s \<noteq> 7 then Inl IterationDigits else Inr s)"

definition file_name :: "int \<Rightarrow> int \<Rightarrow> string \<Rightarrow> ckpt_error + string" where
  "file_name iteration rank suffix =
     res_bind (iteration_text iteration)
       (\<lambda>s. Inr (''iter_'' @ s @ ''_'' @ int_text rank @ ''_local'' @ suffix @ ''.pt''))"

text \<open>\<open>re.fullmatch\<close> and \<open>glob\<close>: the whole text, characters one by one.\<close>

fun pat_match :: "name_pat list \<Rightarrow> string \<Rightarrow> bool" where
  "pat_match [] s = (s = [])"
| "pat_match (Lit c # ps) s = (case s of [] \<Rightarrow> False | x # xs \<Rightarrow> x = c \<and> pat_match ps xs)"
| "pat_match (Digits # ps) [] = False"
| "pat_match (Digits # ps) (x # xs) = (py_isdigit x \<and> (pat_match ps xs \<or> pat_match (Digits # ps) xs))"
| "pat_match (Star # ps) [] = pat_match ps []"
| "pat_match (Star # ps) (x # xs) = (pat_match ps (x # xs) \<or> pat_match (Star # ps) xs)"

definition is_ckpt_name :: "string \<Rightarrow> bool" where
  "is_ckpt_name = pat_match (name_template [Digits] [Digits] [])"

text \<open>\<open>split('_', 3)\<close> and the unpacking of its four parts.\<close>

fun py_split_max :: "nat \<Rightarrow> char \<Rightarrow> string \<Rightarrow> string list" where
  "py_split_max 0 c s = [s]"
| "py_split_max (Suc n) c s =
     (let w = takeWhile (\<lambda>x. x \<noteq> c) s
      in if length w = length s then [w] else w # py_split_max n c (drop (Suc (length w)) s))"

definition filename_to_id :: "string \<Rightarrow> string \<Rightarrow> ckpt_error + ckpt_id" where
  "filename_to_id session name =
     (case py_split_max 3 CHR ''_'' name of
        [_, iteration, rank, _] \<Rightarrow>
          (case (py_int iteration, py_int rank) of
             (Some i, Some r) \<Rightarrow> Inr (i, r, session)
           | _ \<Rightarrow> Inl (BadFileName name))
      | _ \<Rightarrow> Inl (BadFileName name))"

definition ckpt_name :: "string \<Rightarrow> ckpt_id \<Rightarrow> bool \<Rightarrow> ckpt_error + string" where
  "ckpt_name session i is_dirty =
     (case i of (iteration, rank, s) \<Rightarrow>
        if s \<noteq> session then Inl SessionMismatch
        else file_name iteration rank (if is_dirty then ''.dirty'' else ''''))"

section \<open>The directory\<close>

datatype 'a ckpt_file = Written 'a | Unfinished

type_synonym 'a ckpt_dir = "(string, 'a ckpt_file) dict"

definition my_ckpt_ids :: "string \<Rightarrow> 'a ckpt_dir \<Rightarrow> ckpt_error + ckpt_id list" where
  "my_ckpt_ids session d = res_map (filename_to_id session) (filter is_ckpt_name (map fst d))"

definition load_file :: "string \<Rightarrow> 'a ckpt_dir \<Rightarrow> ckpt_id \<Rightarrow> ckpt_error + 'a" where
  "load_file session d i =
     res_bind (ckpt_name session i False) (\<lambda>n.
     res_bind (res_lookup (FileMissing n) d n) (\<lambda>f.
       case f of Written v \<Rightarrow> Inr v | Unfinished \<Rightarrow> Inl (Unreadable n)))"

text \<open>
  Saving in its three steps: the exclusive creation of the dirty file, its content, and the rename
  that replaces the final file.
\<close>

definition create_dirty :: "string \<Rightarrow> ckpt_id \<Rightarrow> 'a ckpt_dir \<Rightarrow> ckpt_error + 'a ckpt_dir" where
  "create_dirty session i d =
     res_bind (ckpt_name session i True)
       (\<lambda>n. if map_of d n \<noteq> None then Inl (SameMachineReplication i) else Inr (d @ [(n, Unfinished)]))"

definition write_dirty :: "string \<Rightarrow> ckpt_id \<Rightarrow> 'a \<Rightarrow> 'a ckpt_dir \<Rightarrow> ckpt_error + 'a ckpt_dir" where
  "write_dirty session i v d =
     res_bind (ckpt_name session i True) (\<lambda>n. Inr (AList.update n (Written v) d))"

definition rename_dirty :: "string \<Rightarrow> ckpt_id \<Rightarrow> 'a ckpt_dir \<Rightarrow> ckpt_error + 'a ckpt_dir" where
  "rename_dirty session i d =
     res_bind (ckpt_name session i True) (\<lambda>n.
     res_bind (ckpt_name session i False) (\<lambda>m.
     res_bind (res_lookup (FileMissing n) d n) (\<lambda>f. Inr (AList.update m f (AList.delete n d)))))"

definition save_file :: "string \<Rightarrow> ckpt_id \<Rightarrow> 'a \<Rightarrow> 'a ckpt_dir \<Rightarrow> ckpt_error + 'a ckpt_dir" where
  "save_file session i v d =
     res_bind (create_dirty session i d) (\<lambda>d.
     res_bind (write_dirty session i v d) (rename_dirty session i))"

definition remove_files :: "string list \<Rightarrow> 'a ckpt_dir \<Rightarrow> 'a ckpt_dir" where
  "remove_files names d = fold AList.delete names d"

definition cleanup :: "string \<Rightarrow> int \<Rightarrow> 'a ckpt_dir \<Rightarrow> ckpt_error + 'a ckpt_dir" where
  "cleanup session iteration d =
     (let names = filter (pat_match (name_template [Star] [Star] [Star])) (map fst d)
      in res_bind (res_map (filename_to_id session) names)
           (\<lambda>ids. Inr (remove_files (map fst (filter (\<lambda>(n, i). fst i < iteration) (zip names ids))) d)))"

definition cleanup_failed_save :: "int \<Rightarrow> 'a ckpt_dir \<Rightarrow> ckpt_error + 'a ckpt_dir" where
  "cleanup_failed_save iteration d =
     res_bind (iteration_text iteration) (\<lambda>s.
       Inr (remove_files (filter (pat_match (name_template (lits s) [Star] [Star])) (map fst d)) d))"

section \<open>Names read back\<close>

lemma nat_text_length:
  assumes "0 < k" and "n < 10 ^ k"
  shows "length (nat_text n) \<le> k"
  using assms
proof (induction k arbitrary: n)
  case (Suc k)
  show ?case
  proof (cases "n < 10")
    case True
    then show ?thesis by (subst nat_text.simps) simp
  next
    case False
    then have "0 < k" using Suc.prems by (cases k) auto
    moreover have "n div 10 < 10 ^ k" using Suc.prems(2) by (simp add: less_mult_imp_div_less mult.commute)
    ultimately show ?thesis using Suc.IH [of "n div 10"] False by (subst nat_text.simps) simp
  qed
qed simp

lemma nat_text_length_large: "10 ^ k \<le> n \<Longrightarrow> k < length (nat_text n)"
proof (induction k arbitrary: n)
  case 0
  then show ?case by (cases "nat_text n") auto
next
  case (Suc k)
  then have "10 ^ k \<le> n div 10" by (simp add: less_eq_div_iff_mult_less_eq mult.commute)
  moreover have "10 \<le> n"
  proof -
    have "10 * 10 ^ k \<le> n" using Suc.prems by simp
    moreover have "1 \<le> (10 :: nat) ^ k" by (rule one_le_power) simp
    ultimately show ?thesis by linarith
  qed
  ultimately show ?case using Suc.IH [of "n div 10"] by (subst nat_text.simps) simp
qed

lemma zfill_nat_text: "zfill k (nat_text n) = replicate (k - length (nat_text n)) CHR ''0'' @ nat_text n"
proof -
  obtain c cs where eq: "nat_text n = c # cs" by (meson nat_text_not_Nil neq_Nil_conv)
  have "py_isdigit c" using nat_text_digits [of n] by (simp add: eq)
  then have "c \<noteq> CHR ''-''" "c \<noteq> CHR ''+''" by (auto simp: py_isdigit_def)
  then show ?thesis by (simp add: zfill_def eq)
qed

lemma digits_value_zeros: "foldl (\<lambda>a c. 10 * a + digit_value c) 0 (replicate m CHR ''0'') = 0"
  by (induction m) (simp_all add: digit_value_def)

lemma py_int_digits:
  assumes "s \<noteq> []" and "list_all py_isdigit s"
  shows "py_int s = Some (int (foldl (\<lambda>a c. 10 * a + digit_value c) 0 s))"
proof -
  obtain c cs where s: "s = c # cs" using assms(1) by (cases s) auto
  have strip: "py_strip s = s"
    using assms by (intro py_strip_id py_isdigit_not_space) (simp_all add: list_all_iff)
  have "c \<noteq> CHR ''-''" "c \<noteq> CHR ''+''" using assms(2) by (auto simp: s py_isdigit_def)
  then show ?thesis using assms(2) strip by (simp add: py_int_def py_nat_def s py_digits_all)
qed

definition iteration_ok :: "int \<Rightarrow> bool" where
  "iteration_ok i \<longleftrightarrow> 0 \<le> i \<and> i < 10 ^ 7"

abbreviation iter_digits :: "int \<Rightarrow> string" where
  "iter_digits i \<equiv> zfill 7 (nat_text (nat i))"

lemma iter_digits_all: "list_all py_isdigit (iter_digits i)"
proof -
  have "py_isdigit CHR ''0''" by (simp add: py_isdigit_def)
  then have "list_all py_isdigit (replicate k CHR ''0'')" for k by (induction k) simp_all
  then show ?thesis using nat_text_digits [of "nat i"] by (simp add: zfill_nat_text)
qed

lemma iter_digits_length: "iteration_ok i \<Longrightarrow> length (iter_digits i) = 7"
  using nat_text_length [of 7 "nat i"] by (simp add: zfill_nat_text iteration_ok_def nat_less_iff)

lemma iter_digits_value: "iteration_ok i \<Longrightarrow> py_int (iter_digits i) = Some i"
  using iter_digits_all [of i]
  by (subst py_int_digits) (simp_all add: zfill_nat_text digits_value_zeros nat_text_value iteration_ok_def)

lemma iter_digits_not_Nil [simp]: "iter_digits i \<noteq> []"
  by (simp add: zfill_nat_text)

lemma iteration_text_ok: "iteration_ok i \<Longrightarrow> iteration_text i = Inr (iter_digits i)"
  using iter_digits_length [of i] by (simp add: iteration_text_def iteration_ok_def int_text_def Let_def)

lemma iteration_text_large: "10 ^ 7 \<le> i \<Longrightarrow> iteration_text i = Inl IterationDigits"
  using nat_text_length_large [of 7 "nat i"] iter_digits_all [of i] le_nat_iff [of i "10 ^ 7"]
  by (auto simp: iteration_text_def int_text_def Let_def zfill_nat_text)

definition plain_name :: "int \<Rightarrow> int \<Rightarrow> string \<Rightarrow> string" where
  "plain_name i r suffix = ''iter_'' @ iter_digits i @ ''_'' @ int_text r @ ''_local'' @ suffix @ ''.pt''"

lemma file_name_ok: "iteration_ok i \<Longrightarrow> file_name i r suffix = Inr (plain_name i r suffix)"
  by (simp add: file_name_def iteration_text_ok plain_name_def)

lemma takeWhile_word: "c \<notin> set w \<Longrightarrow> takeWhile (\<lambda>x. x \<noteq> c) (w @ c # s) = w"
  by (induction w) auto

lemma py_split_max_sep: "c \<notin> set w \<Longrightarrow> py_split_max (Suc n) c (w @ c # s) = w # py_split_max n c s"
  by (simp add: takeWhile_word Let_def)

lemma py_split_max_3:
  assumes "c \<notin> set v" and "c \<notin> set w" and "c \<notin> set x"
  shows "py_split_max 3 c (v @ c # w @ c # x @ c # y) = [v, w, x, y]"
  unfolding numeral_3_eq_3 by (simp only: py_split_max_sep assms py_split_max.simps(1) not_False_eq_True)

lemma underscore_not_digits: "list_all py_isdigit s \<Longrightarrow> CHR ''_'' \<notin> set s"
  by (auto simp: list_all_iff py_isdigit_def)

lemma filename_to_id_name:
  assumes "iteration_ok i"
  shows "filename_to_id session (plain_name i r suffix) = Inr (i, r, session)"
proof -
  have us: "CHR ''_'' \<notin> set (iter_digits i)" by (rule underscore_not_digits [OF iter_digits_all])
  have r: "CHR ''_'' \<notin> set (int_text r)" by (rule int_text_plain) (simp_all add: py_isdigit_def)
  have "plain_name i r suffix = ''iter'' @ CHR ''_'' # iter_digits i @ CHR ''_'' # int_text r @ CHR ''_'' # (''local'' @ suffix @ ''.pt'')"
    by (simp add: plain_name_def)
  then have "py_split_max 3 CHR ''_'' (plain_name i r suffix)
      = [''iter'', iter_digits i, int_text r, ''local'' @ suffix @ ''.pt'']"
    using us r py_split_max_3 [of "CHR ''_''" "''iter''" "iter_digits i" "int_text r"] by simp
  then show ?thesis using assms by (simp add: filename_to_id_def iter_digits_value py_int_int_text)
qed

section \<open>Names matched\<close>

lemma pat_match_lits: "pat_match (lits s @ ps) t \<longleftrightarrow> (\<exists>u. t = s @ u \<and> pat_match ps u)"
proof (induction s arbitrary: t)
  case (Cons c s)
  then show ?case by (cases t) (auto simp: lits_def)
qed (simp add: lits_def)

lemma pat_match_lits_same [simp]: "pat_match (lits s @ ps) (s @ t) \<longleftrightarrow> pat_match ps t"
  by (simp add: pat_match_lits)

lemma pat_match_only_lits [simp]: "pat_match (lits s) t \<longleftrightarrow> t = s"
  using pat_match_lits [of s "[]" t] by auto

lemma pat_match_digits:
  assumes "list_all py_isdigit w" and "w \<noteq> []" and "\<not> py_isdigit c"
  shows "pat_match (Digits # Lit c # ps) (w @ c # t) \<longleftrightarrow> pat_match ps t"
  using assms
proof (induction w)
  case (Cons d w)
  show ?case
  proof (cases w)
    case Nil
    then show ?thesis using Cons.prems by auto
  next
    case (Cons e w')
    have "e \<noteq> c" using Cons \<open>list_all py_isdigit (d # w)\<close> \<open>\<not> py_isdigit c\<close> by auto
    then show ?thesis using Cons.IH Cons.prems Cons by simp
  qed
qed simp

lemma pat_match_star: "pat_match ps t \<Longrightarrow> pat_match (Star # ps) (s @ t)"
proof (induction s)
  case Nil
  then show ?case by (cases t) simp_all
qed simp

text \<open>The three shapes of pattern the code builds from its template.\<close>

lemma match_two_stars:
  "pat_match (lits a @ [Star] @ lits b @ [Star] @ lits c @ [Star] @ lits d) (a @ x @ b @ y @ c @ z @ d)"
  by (simp add: pat_match_star)

lemma match_star_after:
  assumes "length v = length x"
  shows "pat_match (lits a @ lits v @ lits b @ [Star] @ lits c @ [Star] @ lits d) (a @ x @ b @ y @ c @ z @ d)
    \<longleftrightarrow> v = x"
proof
  assume "pat_match (lits a @ lits v @ lits b @ [Star] @ lits c @ [Star] @ lits d) (a @ x @ b @ y @ c @ z @ d)"
  then have "\<exists>u. x @ b @ y @ c @ z @ d = v @ u" by (auto simp: pat_match_lits)
  then show "v = x" using assms by auto
qed (simp add: pat_match_star)

lemma match_two_numbers:
  assumes "list_all py_isdigit x" "x \<noteq> []" "list_all py_isdigit y" "y \<noteq> []" "\<not> py_isdigit b"
  shows "pat_match (lits a @ [Digits] @ lits [b] @ [Digits] @ lits (b # c) @ [] @ lits d) (a @ x @ [b] @ y @ (b # c) @ z @ d)
    \<longleftrightarrow> z = []"
proof -
  have cons: "lits (b # w) = Lit b # lits w" for w by (simp add: lits_def)
  show ?thesis
    using pat_match_digits [OF assms(1,2,5), of "Digits # Lit b # lits c @ lits d" "y @ b # c @ z @ d"]
      pat_match_digits [OF assms(3,4,5), of "lits c @ lits d" "c @ z @ d"]
    by (simp add: cons) (simp add: lits_def)
qed

lemma is_ckpt_name_plain:
  assumes "0 \<le> r"
  shows "is_ckpt_name (plain_name i r suffix) \<longleftrightarrow> suffix = []"
  unfolding is_ckpt_name_def name_template_def plain_name_def
  by (rule match_two_numbers [OF iter_digits_all iter_digits_not_Nil])
    (use assms nat_text_digits in \<open>simp_all add: int_text_def py_isdigit_def [of "CHR ''_''"]\<close>)

lemma glob_all: "pat_match (name_template [Star] [Star] [Star]) (plain_name i r suffix)"
  unfolding name_template_def plain_name_def by (rule match_two_stars)

lemma glob_iteration:
  assumes "iteration_ok i" and "iteration_ok j"
  shows "pat_match (name_template (lits (iter_digits i)) [Star] [Star]) (plain_name j r suffix) \<longleftrightarrow> i = j"
proof -
  have "iter_digits i = iter_digits j \<longleftrightarrow> i = j"
    using iter_digits_value assms by (metis option.inject)
  then show ?thesis
    unfolding name_template_def plain_name_def
    by (subst match_star_after) (simp_all only: iter_digits_length assms)
qed

section \<open>A directory is a map of shards\<close>

text \<open>
  The well-formed directories, and what they stand for: the shards that are complete, and the
  identifiers a writer was interrupted on.
\<close>

definition named_file :: "string \<times> 'a ckpt_file \<Rightarrow> bool" where
  "named_file nf \<longleftrightarrow> (\<exists>i r. iteration_ok i \<and> 0 \<le> r
     \<and> (fst nf = plain_name i r '''' \<and> snd nf \<noteq> Unfinished \<or> fst nf = plain_name i r ''.dirty''))"

definition dir_ok :: "'a ckpt_dir \<Rightarrow> bool" where
  "dir_ok d \<longleftrightarrow> dict_ok d \<and> (\<forall>nf \<in> set d. named_file nf)"

definition shards :: "'a ckpt_dir \<Rightarrow> int \<times> int \<Rightarrow> 'a option" where
  "shards d ir = (if iteration_ok (fst ir) \<and> 0 \<le> snd ir
     then (case map_of d (plain_name (fst ir) (snd ir) '''') of Some (Written v) \<Rightarrow> Some v | _ \<Rightarrow> None)
     else None)"

definition interrupted :: "'a ckpt_dir \<Rightarrow> (int \<times> int) set" where
  "interrupted d = {(i, r). iteration_ok i \<and> 0 \<le> r \<and> map_of d (plain_name i r ''.dirty'') \<noteq> None}"

lemma plain_name_inject:
  assumes "iteration_ok i" and "iteration_ok j"
  shows "plain_name i r s = plain_name j q t \<longleftrightarrow> i = j \<and> r = q \<and> s = t"
proof
  assume eq: "plain_name i r s = plain_name j q t"
  have "i = j \<and> r = q"
    using filename_to_id_name [OF assms(1), of "[]" r s] filename_to_id_name [OF assms(2), of "[]" q t] eq by simp
  then show "i = j \<and> r = q \<and> s = t" using eq by (simp add: plain_name_def)
qed simp

lemma dirty_not_Nil [simp]: "''.dirty'' \<noteq> []" by simp

lemma dir_ok_Nil [simp]: "dir_ok []"
  by (simp add: dir_ok_def)

lemma ckpt_name_ok:
  "iteration_ok i \<Longrightarrow> ckpt_name session (i, r, session) dirty = Inr (plain_name i r (if dirty then ''.dirty'' else ''''))"
  by (simp add: ckpt_name_def file_name_ok)

lemma dir_ok_update:
  assumes "dir_ok d" and "named_file (n, f)"
  shows "dir_ok (AList.update n f d)"
  using assms set_update_subset [of n f d] by (auto simp: dir_ok_def)

lemma set_delete_subset: "set (AList.delete k d) \<subseteq> set d"
  by (auto simp: AList.delete_eq)

lemma dir_ok_delete: "dir_ok d \<Longrightarrow> dir_ok (AList.delete n d)"
  using set_delete_subset [of n d] by (auto simp: dir_ok_def)

lemma dir_ok_remove: "dir_ok d \<Longrightarrow> dir_ok (remove_files names d)"
  by (induction names arbitrary: d) (simp_all add: remove_files_def dir_ok_delete)

lemma map_of_remove: "map_of (remove_files names d) n = (if n \<in> set names then None else map_of d n)"
  by (induction names arbitrary: d) (auto simp: remove_files_def delete_conv')

lemma dir_ok_key:
  assumes "dir_ok d" and "n \<in> set (map fst d)"
  obtains i r suffix where "iteration_ok i" "0 \<le> r" "n = plain_name i r suffix"
proof -
  obtain f where "(n, f) \<in> set d" using assms(2) by auto
  then have "named_file (n, f)" using assms(1) by (simp add: dir_ok_def)
  then show thesis using that by (auto simp: named_file_def)
qed

lemma create_dirty_ok:
  assumes "dir_ok d" and "iteration_ok i" and "0 \<le> r"
  shows "create_dirty session (i, r, session) d =
    (if (i, r) \<in> interrupted d then Inl (SameMachineReplication (i, r, session))
     else Inr (AList.update (plain_name i r ''.dirty'') Unfinished d))"
  using assms by (simp add: create_dirty_def ckpt_name_ok interrupted_def)
    (simp add: update_new map_of_eq_None_iff)

lemma save_file_ok:
  assumes "dir_ok d" and "iteration_ok i" and "0 \<le> r"
  shows "save_file session (i, r, session) v d =
    (if (i, r) \<in> interrupted d then Inl (SameMachineReplication (i, r, session))
     else Inr (AList.update (plain_name i r '''') (Written v)
       (AList.delete (plain_name i r ''.dirty'')
         (AList.update (plain_name i r ''.dirty'') (Written v)
           (AList.update (plain_name i r ''.dirty'') Unfinished d)))))"
  using assms
  by (simp add: save_file_def create_dirty_ok write_dirty_def rename_dirty_def ckpt_name_ok
      res_lookup_def update_conv')

lemma save_file_refines:
  assumes "dir_ok d" and "iteration_ok i" and "0 \<le> r" and "(i, r) \<notin> interrupted d"
  shows "\<exists>d'. save_file session (i, r, session) v d = Inr d' \<and> dir_ok d'
    \<and> shards d' = (shards d)((i, r) \<mapsto> v) \<and> interrupted d' = interrupted d"
proof -
  let ?c = "plain_name i r ''''" and ?t = "plain_name i r ''.dirty''"
  let ?d = "AList.update ?c (Written v) (AList.delete ?t (AList.update ?t (Written v) (AList.update ?t Unfinished d)))"
  have "named_file (?t, f)" "named_file (?c, Written w)" for f :: "'a ckpt_file" and w :: 'a
    using assms(2,3) by (auto simp: named_file_def)
  then have "dir_ok ?d" using assms(1) by (intro dir_ok_update dir_ok_delete)
  moreover have "shards ?d = (shards d)((i, r) \<mapsto> v)"
    by (rule ext) (auto simp: shards_def update_conv' delete_conv' plain_name_inject assms)
  moreover have "interrupted ?d = interrupted d"
    using assms(4) by (auto simp: interrupted_def update_conv' delete_conv' plain_name_inject assms(2))
  ultimately show ?thesis using save_file_ok [OF assms(1-3)] assms(4) by simp
qed

lemma load_file_shard:
  assumes "iteration_ok i" and "0 \<le> r"
  shows "load_file session d (i, r, session) = Inr v \<longleftrightarrow> shards d (i, r) = Some v"
  using assms
  by (auto simp: load_file_def ckpt_name_ok shards_def res_bind_eq_Inr res_lookup_def
      split: option.splits ckpt_file.splits)

lemma my_ckpt_ids_shards:
  assumes "dir_ok d"
  shows "\<exists>ids. my_ckpt_ids session d = Inr ids
    \<and> set ids = {(i, r, s). s = session \<and> shards d (i, r) \<noteq> None}"
proof -
  let ?g = "\<lambda>n. projr (filename_to_id session n)"
  have named: "n \<in> set (filter is_ckpt_name (map fst d)) \<longleftrightarrow>
      (\<exists>i r v. iteration_ok i \<and> 0 \<le> r \<and> n = plain_name i r '''' \<and> map_of d n = Some (Written v))" for n
  proof
    assume n: "n \<in> set (filter is_ckpt_name (map fst d))"
    then have "n \<in> fst ` set d" by auto
    then obtain f where "map_of d n = Some f" by (metis map_of_eq_None_iff not_Some_eq)
    then have "named_file (n, f)" using assms map_of_SomeD [of d n f] by (auto simp: dir_ok_def)
    then show "\<exists>i r v. iteration_ok i \<and> 0 \<le> r \<and> n = plain_name i r '''' \<and> map_of d n = Some (Written v)"
      using n \<open>map_of d n = Some f\<close> by (cases f) (auto simp: named_file_def is_ckpt_name_plain)
  next
    assume "\<exists>i r v. iteration_ok i \<and> 0 \<le> r \<and> n = plain_name i r '''' \<and> map_of d n = Some (Written v)"
    then show "n \<in> set (filter is_ckpt_name (map fst d))"
      by (auto simp: is_ckpt_name_plain dest: map_of_SomeD intro: rev_image_eqI)
  qed
  have "my_ckpt_ids session d = Inr (map ?g (filter is_ckpt_name (map fst d)))"
    unfolding my_ckpt_ids_def
    by (rule res_map_total) (use named filename_to_id_name in fastforce)
  moreover have "set (map ?g (filter is_ckpt_name (map fst d))) = {(i, r, s). s = session \<and> shards d (i, r) \<noteq> None}"
    (is "?A = ?B")
  proof (rule set_eqI, clarify)
    fix i r s
    have "(i, r, s) \<in> ?A \<longleftrightarrow> (\<exists>n \<in> set (filter is_ckpt_name (map fst d)). (i, r, s) = ?g n)"
      unfolding set_map image_iff ..
    also have "\<dots> \<longleftrightarrow> (\<exists>i' r' v. iteration_ok i' \<and> 0 \<le> r' \<and> map_of d (plain_name i' r' '''') = Some (Written v)
        \<and> (i, r, s) = ?g (plain_name i' r' ''''))"
      unfolding Bex_def named by auto
    also have "\<dots> \<longleftrightarrow> (i, r, s) \<in> ?B"
      by (auto simp: filename_to_id_name shards_def split: option.splits ckpt_file.splits)
    finally show "(i, r, s) \<in> ?A \<longleftrightarrow> (i, r, s) \<in> ?B" .
  qed
  ultimately show ?thesis by blast
qed

lemma map_fst_filter_zip: "map fst (filter (\<lambda>(n, i). P i) (zip xs (map g xs))) = filter (\<lambda>n. P (g n)) xs"
  by (induction xs) auto

lemma cleanup_refines:
  assumes "dir_ok d"
  shows "\<exists>d'. cleanup session j d = Inr d' \<and> dir_ok d'
    \<and> shards d' = shards d |` {ir. j \<le> fst ir} \<and> interrupted d' = {ir \<in> interrupted d. j \<le> fst ir}"
proof -
  let ?g = "\<lambda>n. projr (filename_to_id session n)"
  have "filter (pat_match (name_template [Star] [Star] [Star])) (map fst d) = map fst d"
    using dir_ok_key [OF assms] glob_all by (metis filter_id_conv)
  moreover have "res_map (filename_to_id session) (map fst d) = Inr (map ?g (map fst d))"
    by (rule res_map_total) (metis dir_ok_key [OF assms] filename_to_id_name sum.sel(2))
  ultimately have c: "cleanup session j d = Inr (remove_files (filter (\<lambda>n. fst (?g n) < j) (map fst d)) d)"
    unfolding cleanup_def Let_def by (simp only: res_bind_simps map_fst_filter_zip [of "\<lambda>i. fst i < j"])
  let ?d = "remove_files (filter (\<lambda>n. fst (?g n) < j) (map fst d)) d"
  have m: "map_of ?d n = (if fst (?g n) < j then None else map_of d n)" for n
    by (auto simp: map_of_remove) (metis map_of_eq_None_iff image_set)
  have "shards ?d = shards d |` {ir. j \<le> fst ir}"
    by (rule ext) (auto simp: shards_def m restrict_map_def filename_to_id_name split: prod.splits)
  moreover have "interrupted ?d = {ir \<in> interrupted d. j \<le> fst ir}"
    by (auto simp: interrupted_def m filename_to_id_name split: if_splits)
  ultimately show ?thesis using c dir_ok_remove [OF assms] by blast
qed

lemma cleanup_failed_save_refines:
  assumes "dir_ok d" and "iteration_ok j"
  shows "\<exists>d'. cleanup_failed_save j d = Inr d' \<and> dir_ok d'
    \<and> shards d' = shards d |` {ir. fst ir \<noteq> j} \<and> interrupted d' = {ir \<in> interrupted d. fst ir \<noteq> j}"
proof -
  let ?P = "pat_match (name_template (lits (iter_digits j)) [Star] [Star])"
  let ?d = "remove_files (filter ?P (map fst d)) d"
  have c: "cleanup_failed_save j d = Inr ?d"
    using assms(2) by (simp add: cleanup_failed_save_def iteration_text_ok)
  have m: "map_of ?d n = (if ?P n then None else map_of d n)" for n
    by (auto simp: map_of_remove) (metis map_of_eq_None_iff image_set)
  have "shards ?d = shards d |` {ir. fst ir \<noteq> j}"
    by (rule ext) (auto simp: shards_def m restrict_map_def glob_iteration assms(2) split: prod.splits)
  moreover have "interrupted ?d = {ir \<in> interrupted d. fst ir \<noteq> j}"
    by (auto simp: interrupted_def m glob_iteration assms(2) split: if_splits)
  ultimately show ?thesis using c dir_ok_remove [OF assms(1)] by blast
qed

lemma create_dirty_refines:
  assumes "dir_ok d" and "iteration_ok i" and "0 \<le> r" and "(i, r) \<notin> interrupted d"
  shows "\<exists>d'. create_dirty session (i, r, session) d = Inr d' \<and> dir_ok d'
    \<and> shards d' = shards d \<and> interrupted d' = insert (i, r) (interrupted d)"
proof -
  let ?d = "AList.update (plain_name i r ''.dirty'') Unfinished d"
  have "dir_ok ?d"
    using assms by (intro dir_ok_update) (auto simp: named_file_def)
  moreover have "shards ?d = shards d"
    by (rule ext) (auto simp: shards_def update_conv' plain_name_inject assms)
  moreover have "interrupted ?d = insert (i, r) (interrupted d)"
    using assms(2,3) by (auto simp: interrupted_def update_conv' plain_name_inject)
  ultimately show ?thesis using create_dirty_ok [OF assms(1-3)] assms(4) by simp
qed

section \<open>Properties\<close>

text \<open>
  the names of checkpoint files. For an iteration of at most seven digits and a rank, the name
  is recognised as a checkpoint, and reading it back gives the iteration and the rank; with more
  digits the name is refused by the assertion on its length.
\<close>

theorem checkpoint_names_roundtrip:
  assumes "0 \<le> i" and "0 \<le> r"
  shows "case file_name i r '''' of
      Inr n \<Rightarrow> i < 10 ^ 7 \<and> is_ckpt_name n \<and> filename_to_id session n = Inr (i, r, session)
    | Inl e \<Rightarrow> e = IterationDigits \<and> 10 ^ 7 \<le> i"
proof (cases "i < 10 ^ 7")
  case True
  then have "iteration_ok i" using assms(1) by (simp add: iteration_ok_def)
  then show ?thesis
    using True assms(2) by (simp add: file_name_ok is_ckpt_name_plain filename_to_id_name)
next
  case False
  then show ?thesis by (simp add: file_name_def iteration_text_large)
qed

theorem checkpoint_names_roundtrip_witness:
  "file_name 42 3 '''' = Inr ''iter_0000042_3_local.pt''
    \<and> filename_to_id ''s'' ''iter_0000042_3_local.pt'' = Inr (42, 3, ''s'')"
proof -
  have "file_name 42 3 '''' = Inr ''iter_0000042_3_local.pt''" by code_simp
  then show ?thesis using checkpoint_names_roundtrip [of 42 3 "''s''"] by simp
qed





end
