(* ===== verification/LocalCkpt.thy ===== *)
theory LocalCkpt
  imports CkptFiles
begin

text \<open>
  The checkpoint manager of one rank (\<open>checkpointing/local/ckpt_managers/base_manager.py\<close>) over its
  directory, and the collective operations of all ranks: saving with replication in cliques, the
  search for the latest complete iteration, and loading through an exchange plan. What an
  \<open>all_gather\<close> returns is an argument of the rank's operation; the operations on the whole world
  build it from the ranks' states. Tensors and their devices are the abstract content of a shard.
\<close>

record 'a manager =
  cm_rank :: int
  cm_session :: string
  cm_latest :: int
  cm_available :: "ckpt_id list list"
  cm_dir :: "'a ckpt_dir"

section \<open>Operations of one rank\<close>

definition own_ckpt_id :: "'a manager \<Rightarrow> int \<Rightarrow> ckpt_error + ckpt_id" where
  "own_ckpt_id m iteration =
     (if iteration < 0 then Inl (InvalidIteration iteration) else Inr (iteration, cm_rank m, cm_session m))"

text \<open>Without replication the shards of other ranks count as unavailable.\<close>

definition local_ids :: "bool \<Rightarrow> 'a manager \<Rightarrow> ckpt_error + ckpt_id list" where
  "local_ids replicated m =
     res_bind (my_ckpt_ids (cm_session m) (cm_dir m))
       (\<lambda>ids. Inr (if replicated then ids else filter (\<lambda>i. fst (snd i) = cm_rank m) ids))"

fun cover_ids :: "string \<Rightarrow> ckpt_id list \<Rightarrow> (int, int set) dict \<Rightarrow> ckpt_error + (int, int set) dict" where
  "cover_ids session [] c = Inr c"
| "cover_ids session ((i, r, s) # ids) c =
     (if s \<noteq> session then Inl SessionMismatch
      else cover_ids session ids (AList.map_default i {r} (insert r) c))"

definition find_latest ::
  "int \<Rightarrow> ckpt_id list list \<Rightarrow> 'a manager \<Rightarrow> ckpt_error + 'a manager" where
  "find_latest world_size gathered m =
     (if cm_latest m \<noteq> -1 then Inr m
      else res_bind (cover_ids (cm_session m) (concat gathered) [])
        (\<lambda>c. let complete = map fst (filter (\<lambda>(i, rs). rs = {0..<world_size}) c)
             in Inr (m\<lparr>cm_latest := if complete = [] then -1 else Max (set complete),
                       cm_available := gathered\<rparr>)))"

definition load_data :: "'a manager \<Rightarrow> ckpt_id plan_entry list \<Rightarrow> ckpt_error + (ckpt_id, 'a) dict" where
  "load_data m entries =
     res_map (\<lambda>k. res_bind (load_file (cm_session m) (cm_dir m) k) (\<lambda>v. Inr (k, v)))
       (required_ids entries (cm_rank m))"

text \<open>
  \<open>load\<close> with replication: the group, what its ranks want, and what arrives from them; without
  replication the shard is read from the rank's own directory.
\<close>

definition load_replicated ::
  "(nat \<Rightarrow> int list \<Rightarrow> int) \<Rightarrow> int list \<Rightarrow> ckpt_id list list \<Rightarrow> (int \<Rightarrow> 'a list) \<Rightarrow> 'a manager
    \<Rightarrow> ckpt_error + 'a \<times> ckpt_id" where
  "load_replicated pick ranks wanted incoming m =
     (if cm_latest m = -1 then Inl NotSearched
      else res_bind (own_ckpt_id m (cm_latest m)) (\<lambda>i.
        case retrieve_plan pick ranks (\<lambda>r. cm_available m ! nat r) wanted of
          Inl e \<Rightarrow> Inl (RetrievalFailed e)
        | Inr entries \<Rightarrow>
            res_bind (load_data m entries) (\<lambda>my_data.
              case execute_plan (cm_rank m) entries my_data incoming of
                Inl e \<Rightarrow> Inl (RetrievalFailed e)
              | Inr (got, _) \<Rightarrow>
                  (case got of
                     [(k, v)] \<Rightarrow> if k = i then Inr (v, i) else Inl WrongRetrieval
                   | _ \<Rightarrow> Inl WrongRetrieval))))"

definition load_alone :: "'a manager \<Rightarrow> ckpt_error + 'a \<times> ckpt_id" where
  "load_alone m =
     (if cm_latest m = -1 then Inl NotSearched
      else res_bind (own_ckpt_id m (cm_latest m)) (\<lambda>i.
        res_bind (load_file (cm_session m) (cm_dir m) i) (\<lambda>v. Inr (v, i))))"

text \<open>
  \<open>save\<close> up to the barrier. The shards written are the ones the clique has exchanged, keyed by
  their identifiers; a failure leaves the shards written before it.
\<close>

fun save_fn :: "string \<Rightarrow> (ckpt_id \<times> 'a) list \<Rightarrow> 'a ckpt_dir \<Rightarrow> ckpt_error option \<times> 'a ckpt_dir" where
  "save_fn session [] d = (None, d)"
| "save_fn session ((i, v) # rest) d =
     (case save_file session i v d of
        Inl e \<Rightarrow> (Some e, d)
      | Inr d' \<Rightarrow> save_fn session rest d')"

definition save_shards ::
  "(ckpt_id \<times> 'a) list option \<Rightarrow> 'a \<Rightarrow> int \<Rightarrow> 'a manager \<Rightarrow> ckpt_error option \<times> 'a manager" where
  "save_shards replicas state iteration m =
     (if \<not> cm_latest m < iteration then (Some (NewerAvailable (cm_latest m) iteration), m)
      else
        (case own_ckpt_id m iteration of
           Inl e \<Rightarrow> (Some e, m)
         | Inr i \<Rightarrow>
             let save_arg = (case replicas of
                   None \<Rightarrow> [(i, state)]
                 | Some pairs \<Rightarrow> fold (\<lambda>(k, v). AList.update k v) pairs []);
                 (e, d) = save_fn (cm_session m) save_arg (cm_dir m)
             in (e, m\<lparr>cm_latest := -1, cm_dir := d\<rparr>)))"

text \<open>After the barrier: the search that validates the save, then the cleanup.\<close>

definition finalize_save ::
  "int \<Rightarrow> ckpt_id list list \<Rightarrow> int \<Rightarrow> 'a manager \<Rightarrow> ckpt_error option \<times> 'a manager" where
  "finalize_save world_size gathered iteration m =
     (case find_latest world_size gathered m of
        Inl e \<Rightarrow> (Some e, m)
      | Inr m' \<Rightarrow>
          let validated = cm_latest m'; m' = m'\<lparr>cm_latest := -1\<rparr>
          in if validated < iteration
             then (case cleanup_failed_save iteration (cm_dir m') of
                     Inl e \<Rightarrow> (Some e, m')
                   | Inr d \<Rightarrow> (Some (SaveFailed iteration validated), m'\<lparr>cm_dir := d\<rparr>))
             else (case cleanup (cm_session m') iteration (cm_dir m') of
                     Inl e \<Rightarrow> (Some e, m')
                   | Inr d \<Rightarrow> (None, m'\<lparr>cm_dir := d\<rparr>)))"

section \<open>The world\<close>

definition no_error :: "('e option \<times> 'a) list \<Rightarrow> 'e + 'a list" where
  "no_error rs = res_map (\<lambda>(e, m). case e of None \<Rightarrow> Inr m | Some e \<Rightarrow> Inl e) rs"

text \<open>\<open>replicate\<close>: what the clique of a rank gathers.\<close>

definition gather_replicas :: "int \<Rightarrow> (int \<Rightarrow> 'a) \<Rightarrow> 'a manager list \<Rightarrow> int list \<Rightarrow> (ckpt_id \<times> 'a) list" where
  "gather_replicas iteration states ms g =
     map (\<lambda>r. ((iteration, r, cm_session (ms ! nat r)), states r)) g"

definition clique :: "int list list \<Rightarrow> 'a manager \<Rightarrow> ckpt_error + int list" where
  "clique groups m = (case own_group groups (cm_rank m) of None \<Rightarrow> Inl (NotInGroup (cm_rank m)) | Some g \<Rightarrow> Inr g)"

definition world_save ::
  "int list list \<Rightarrow> (int \<Rightarrow> 'a) \<Rightarrow> int \<Rightarrow> 'a manager list \<Rightarrow> ckpt_error + 'a manager list" where
  "world_save groups states iteration ms =
     res_bind (res_map (clique groups) ms) (\<lambda>gs.
     res_bind (no_error (map2 (\<lambda>g m. save_shards (Some (gather_replicas iteration states ms g))
         (states (cm_rank m)) iteration m) gs ms)) (\<lambda>ms.
     res_bind (res_map (local_ids True) ms) (\<lambda>gathered.
       no_error (map (finalize_save (int (length ms)) gathered iteration) ms))))"

definition world_find_latest :: "'a manager list \<Rightarrow> ckpt_error + 'a manager list" where
  "world_find_latest ms =
     res_bind (res_map (local_ids True) ms)
       (\<lambda>gathered. res_map (find_latest (int (length ms)) gathered) ms)"

text \<open>
  Every rank loads: the clique gathers what its members want, and a rank's messages come from the
  shards its peers have read for their part of the plan.
\<close>

definition world_load ::
  "(nat \<Rightarrow> int list \<Rightarrow> int) \<Rightarrow> int list list \<Rightarrow> 'a manager list \<Rightarrow> ckpt_error + ('a \<times> ckpt_id) list" where
  "world_load pick groups ms =
     res_map (\<lambda>m. res_bind (clique groups m) (\<lambda>g.
       let wanted = map (\<lambda>r. [(cm_latest m, r, cm_session m)]) g;
           entries = (case retrieve_plan pick g (\<lambda>r. cm_available m ! nat r) wanted of Inr es \<Rightarrow> es | Inl _ \<Rightarrow> []);
           data = (\<lambda>r. case load_data (ms ! nat r) entries of Inr d \<Rightarrow> d | Inl _ \<Rightarrow> [])
       in load_replicated pick g wanted (plan_queue data entries (cm_rank m)) m)) ms"

text \<open>A restart after the disks of some ranks are gone.\<close>

definition restart :: "int set \<Rightarrow> 'a manager list \<Rightarrow> 'a manager list" where
  "restart lost ms =
     map (\<lambda>m. m\<lparr>cm_latest := -1, cm_available := [],
                cm_dir := if cm_rank m \<in> lost then [] else cm_dir m\<rparr>) ms"

section \<open>The search\<close>

lemma map_of_map_default:
  "map_of (AList.map_default k v f d) x =
     (if x = k then Some (case map_of d k of None \<Rightarrow> v | Some y \<Rightarrow> f y) else map_of d x)"
  by (induction d) auto

lemma dict_ok_map_default: "dict_ok d \<Longrightarrow> dict_ok (AList.map_default k v f d)"
proof -
  have "set (map fst (AList.map_default k v f d)) = insert k (set (map fst d))" for d
    by (induction d) auto
  then show "dict_ok d \<Longrightarrow> dict_ok (AList.map_default k v f d)"
    unfolding dict_ok_def by (induction d) auto
qed

lemma cover_ids_map:
  assumes "\<forall>i \<in> set ids. snd (snd i) = session" and "dict_ok c"
  shows "\<exists>c'. cover_ids session ids c = Inr c' \<and> dict_ok c'
    \<and> (\<forall>i. map_of c' i = (let R = {r. (i, r, session) \<in> set ids} in
          case map_of c i of None \<Rightarrow> (if R = {} then None else Some R) | Some S \<Rightarrow> Some (R \<union> S)))"
  using assms
proof (induction ids arbitrary: c)
  case (Cons x ids)
  obtain j q where x: "x = (j, q, session)" using Cons.prems(1) by (cases x) auto
  have tail: "\<forall>i \<in> set ids. snd (snd i) = session" using Cons.prems(1) by simp
  obtain c' where "cover_ids session ids (AList.map_default j {q} (insert q) c) = Inr c'" "dict_ok c'"
    and c': "\<And>i. map_of c' i = (let R = {r. (i, r, session) \<in> set ids} in
          case map_of (AList.map_default j {q} (insert q) c) i of
            None \<Rightarrow> (if R = {} then None else Some R) | Some S \<Rightarrow> Some (R \<union> S))"
    using Cons.IH [OF tail dict_ok_map_default [OF Cons.prems(2), of j "{q}" "insert q"]] by blast
  moreover have "map_of c' i = (let R = {r. (i, r, session) \<in> set (x # ids)} in
          case map_of c i of None \<Rightarrow> (if R = {} then None else Some R) | Some S \<Rightarrow> Some (R \<union> S))" for i
  proof (cases "i = j")
    case True
    have "{r. (j, r, session) \<in> set (x # ids)} = insert q {r. (j, r, session) \<in> set ids}" by (auto simp: x)
    then show ?thesis using True
      by (simp add: c' map_of_map_default Let_def split: option.splits)
  next
    case False
    then have "{r. (i, r, session) \<in> set (x # ids)} = {r. (i, r, session) \<in> set ids}" by (auto simp: x)
    then show ?thesis using False by (simp add: c' map_of_map_default)
  qed
  ultimately show ?case by (simp add: x)
qed (simp add: Let_def split: option.splits)

definition complete_iterations :: "int \<Rightarrow> string \<Rightarrow> ckpt_id set \<Rightarrow> int set" where
  "complete_iterations world_size session ids = {i. {r. (i, r, session) \<in> ids} = {0..<world_size}}"

lemma find_latest_max:
  assumes "cm_latest m = -1" and "\<forall>i \<in> set (concat gathered). snd (snd i) = cm_session m" and "0 < world_size"
    and "complete_iterations world_size (cm_session m) (set (concat gathered)) = C"
  shows "finite C \<and> find_latest world_size gathered m =
    Inr (m\<lparr>cm_latest := if C = {} then -1 else Max C, cm_available := gathered\<rparr>)"
proof -
  obtain c where c: "cover_ids (cm_session m) (concat gathered) [] = Inr c" "dict_ok c"
    and m: "\<And>i. map_of c i = (let R = {r. (i, r, cm_session m) \<in> set (concat gathered)} in if R = {} then None else Some R)"
    using cover_ids_map [OF assms(2), of "[]"] by auto
  let ?complete = "map fst (filter (\<lambda>(i, rs). rs = {0..<world_size}) c)"
  have "i \<in> set ?complete \<longleftrightarrow> map_of c i = Some {0..<world_size}" for i
    using c(2) by (auto simp: dict_ok_def intro: rev_image_eqI dest: map_of_SomeD)
  moreover have "map_of c i = Some {0..<world_size} \<longleftrightarrow> i \<in> C" for i
    using assms(3,4) by (auto simp: m complete_iterations_def Let_def)
  ultimately have "set ?complete = C" by blast
  then have "?complete = [] \<longleftrightarrow> C = {}" "finite C" by (metis set_empty) (metis \<open>set ?complete = C\<close> finite_set)
  then show ?thesis
    using assms(1) c(1) \<open>set ?complete = C\<close> by (simp add: find_latest_def Let_def)
qed

section \<open>Saving\<close>

lemma save_fn_shards:
  assumes "dir_ok d" and "iteration_ok i" and "\<And>r. r \<in> set g \<Longrightarrow> 0 \<le> r"
    and "\<And>r. (i, r) \<notin> interrupted d"
  shows "\<exists>d'. save_fn session (map (\<lambda>r. ((i, r, session), states r)) g) d = (None, d') \<and> dir_ok d'
    \<and> interrupted d' = interrupted d
    \<and> shards d' = (\<lambda>(j, r). if j = i \<and> r \<in> set g then Some (states r) else shards d (j, r))"
  using assms(1,3,4)
proof (induction g arbitrary: d)
  case (Cons r g)
  obtain d1 where d1: "save_file session (i, r, session) (states r) d = Inr d1" "dir_ok d1"
    "shards d1 = (shards d)((i, r) \<mapsto> states r)" "interrupted d1 = interrupted d"
    using save_file_refines [OF Cons.prems(1) assms(2), of r session "states r"] Cons.prems(2,3) by auto
  obtain d2 where "save_fn session (map (\<lambda>r. ((i, r, session), states r)) g) d1 = (None, d2)" "dir_ok d2"
    "interrupted d2 = interrupted d1"
    "shards d2 = (\<lambda>(j, r). if j = i \<and> r \<in> set g then Some (states r) else shards d1 (j, r))"
    using Cons.IH [OF d1(2)] Cons.prems(2,3) d1(4) by auto
  then show ?case using d1 by (auto simp: fun_eq_iff)
qed auto

lemma fold_update_pairs:
  assumes "distinct (map fst d @ map fst ps)"
  shows "fold (\<lambda>(k, v). AList.update k v) ps d = d @ ps"
  using fold_update_by_key [of fst ps d snd] assms by (auto simp: case_prod_unfold)

lemma save_shards_ok:
  assumes "dir_ok (cm_dir m)" and "iteration_ok i" and "cm_latest m < i"
    and "distinct g" and "\<And>r. r \<in> set g \<Longrightarrow> 0 \<le> r" and "\<And>r. (i, r) \<notin> interrupted (cm_dir m)"
    and "\<And>r. r \<in> set g \<Longrightarrow> cm_session (ms ! nat r) = cm_session m"
  shows "\<exists>d'. save_shards (Some (gather_replicas i states ms g)) state i m
      = (None, m\<lparr>cm_latest := -1, cm_dir := d'\<rparr>) \<and> dir_ok d'
    \<and> interrupted d' = interrupted (cm_dir m)
    \<and> shards d' = (\<lambda>(j, r). if j = i \<and> r \<in> set g then Some (states r) else shards (cm_dir m) (j, r))"
proof -
  have pairs: "gather_replicas i states ms g = map (\<lambda>r. ((i, r, cm_session m), states r)) g"
    using assms(7) by (simp add: gather_replicas_def)
  have "distinct (map fst ([] :: (ckpt_id \<times> 'a) list) @ map fst (map (\<lambda>r. ((i, r, cm_session m), states r)) g))"
    using assms(4) by (simp add: comp_def distinct_map inj_on_def)
  from fold_update_pairs [OF this]
  have "fold (\<lambda>(k, v). AList.update k v) (gather_replicas i states ms g) []
      = map (\<lambda>r. ((i, r, cm_session m), states r)) g"
    by (simp add: pairs)
  moreover have "own_ckpt_id m i = Inr (i, cm_rank m, cm_session m)"
    using assms(2) by (simp add: own_ckpt_id_def iteration_ok_def)
  ultimately show ?thesis
    using save_fn_shards [OF assms(1,2,5,6), of g "cm_session m" states] assms(3)
    by (auto simp: save_shards_def)
qed

lemma finalize_save_ok:
  assumes "dir_ok (cm_dir m)" and "cm_latest m = -1"
    and "find_latest W gathered m = Inr (m\<lparr>cm_latest := i, cm_available := gathered\<rparr>)"
  shows "\<exists>d'. finalize_save W gathered i m = (None, m\<lparr>cm_available := gathered, cm_latest := -1, cm_dir := d'\<rparr>)
    \<and> dir_ok d' \<and> shards d' = shards (cm_dir m) |` {ir. i \<le> fst ir}
    \<and> interrupted d' = {ir \<in> interrupted (cm_dir m). i \<le> fst ir}"
  using cleanup_refines [OF assms(1), of "cm_session m" i] assms(2,3)
  by (auto simp: finalize_save_def)

section \<open>The world after a save\<close>

text \<open>Ranks 0 to \<open>n - 1\<close> of one session, each with a well-formed directory.\<close>

definition world_ok :: "string \<Rightarrow> 'a manager list \<Rightarrow> bool" where
  "world_ok session ms \<longleftrightarrow>
     (\<forall>k < length ms. cm_rank (ms ! k) = int k \<and> cm_session (ms ! k) = session \<and> dir_ok (cm_dir (ms ! k)))"

text \<open>Groups that split the ranks: every member of a rank's clique has the same clique.\<close>

definition cliques_ok :: "int list list \<Rightarrow> nat \<Rightarrow> (nat \<Rightarrow> int list) \<Rightarrow> bool" where
  "cliques_ok groups n g \<longleftrightarrow>
     (\<forall>k < n. own_group groups (int k) = Some (g k) \<and> int k \<in> set (g k) \<and> distinct (g k)
        \<and> set (g k) \<subseteq> {0..<int n} \<and> (\<forall>r \<in> set (g k). g (nat r) = g k))"

lemma cliques_ok_range: "cliques_ok groups n g \<Longrightarrow> k < n \<Longrightarrow> r \<in> set (g k) \<Longrightarrow> 0 \<le> r \<and> r < int n"
  unfolding cliques_ok_def by (metis atLeastLessThan_iff subsetD)

lemma cliques_ok_parse:
  assumes "parse_group_sequence jump factor (int n) = Inr groups"
  shows "cliques_ok groups n (\<lambda>k. the (own_group groups (int k)))"
  unfolding cliques_ok_def
proof (intro allI impI)
  fix k assume "k < n"
  then have k: "0 \<le> int k" "int k < int n" by simp_all
  then obtain g where g: "own_group groups (int k) = Some g" "int k \<in> set g" "distinct g"
    "set g = {r. 0 \<le> r \<and> r < int n \<and> own_group groups r = Some g}"
    using clique_of_rank [OF assms k] by blast
  have same: "the (own_group groups (int (nat r))) = g" if "r \<in> set g" for r
  proof -
    have "0 \<le> r \<and> own_group groups r = Some g" using that g(4) by blast
    then show ?thesis by simp
  qed
  have "set g \<subseteq> {0..<int n}"
  proof
    fix r assume "r \<in> set g"
    then have "0 \<le> r \<and> r < int n" using g(4) by blast
    then show "r \<in> {0..<int n}" by simp
  qed
  then show "own_group groups (int k) = Some (the (own_group groups (int k))) \<and>
      int k \<in> set (the (own_group groups (int k))) \<and> distinct (the (own_group groups (int k))) \<and>
      set (the (own_group groups (int k))) \<subseteq> {0..<int n} \<and>
      (\<forall>r \<in> set (the (own_group groups (int k))).
        the (own_group groups (int (nat r))) = the (own_group groups (int k)))"
    unfolding g(1) option.sel using g(2,3) same by (intro conjI ballI) simp_all
qed

lemma res_map_nth:
  assumes "\<And>k. k < length xs \<Longrightarrow> \<exists>y. f (xs ! k) = Inr y \<and> P k y"
  shows "\<exists>ys. res_map f xs = Inr ys \<and> length ys = length xs \<and> (\<forall>k < length xs. P k (ys ! k))"
proof -
  obtain h where h: "\<And>k. k < length xs \<Longrightarrow> f (xs ! k) = Inr (h k) \<and> P k (h k)"
    using assms by metis
  then have "res_map f xs = Inr (map h [0..<length xs])"
    by (simp add: res_map_Inr list_all2_conv_all_nth)
  then show ?thesis using h by (intro exI [of _ "map h [0..<length xs]"]) simp
qed

lemma no_error_nth:
  assumes "\<And>k. k < length rs \<Longrightarrow> \<exists>m. rs ! k = (None, m) \<and> P k m"
  shows "\<exists>ms. no_error rs = Inr ms \<and> length ms = length rs \<and> (\<forall>k < length rs. P k (ms ! k))"
  unfolding no_error_def
  by (rule res_map_nth) (use assms in fastforce)

lemma world_search:
  assumes ok: "world_ok session ms" and n: "n = length ms" "0 < n"
    and latest: "\<And>k. k < n \<Longrightarrow> cm_latest (ms ! k) = -1"
    and all: "\<And>r. (\<exists>k < n. shards (cm_dir (ms ! k)) (i, r) \<noteq> None) \<longleftrightarrow> 0 \<le> r \<and> r < int n"
    and newest: "\<And>k j r. k < n \<Longrightarrow> shards (cm_dir (ms ! k)) (j, r) \<noteq> None \<Longrightarrow> j \<le> i"
  shows "\<exists>gathered. res_map (local_ids True) ms = Inr gathered \<and> length gathered = n
    \<and> (\<forall>k < n. set (gathered ! k) = {(j, r, s). s = session \<and> shards (cm_dir (ms ! k)) (j, r) \<noteq> None})
    \<and> (\<forall>k < n. find_latest (int n) gathered (ms ! k) = Inr ((ms ! k)\<lparr>cm_latest := i, cm_available := gathered\<rparr>))"
proof -
  let ?ids = "\<lambda>k ids. set ids = {(j, r, s). s = session \<and> shards (cm_dir (ms ! k)) (j, r) \<noteq> None}"
  have "\<exists>ids. local_ids True (ms ! k) = Inr ids \<and> ?ids k ids" if "k < length ms" for k
    using my_ckpt_ids_shards [of "cm_dir (ms ! k)" session] ok that by (auto simp: world_ok_def local_ids_def)
  from res_map_nth [where P = ?ids, OF this] obtain gathered where g: "res_map (local_ids True) ms = Inr gathered"
    "length gathered = n"
    "\<And>k. k < n \<Longrightarrow> set (gathered ! k) = {(j, r, s). s = session \<and> shards (cm_dir (ms ! k)) (j, r) \<noteq> None}"
    using n(1) by blast
  have ids: "(j, r, s) \<in> set (concat gathered) \<longleftrightarrow> s = session \<and> (\<exists>k < n. shards (cm_dir (ms ! k)) (j, r) \<noteq> None)" for j r s
  proof -
    have "x \<in> set (concat gathered) \<longleftrightarrow> (\<exists>k < n. x \<in> set (gathered ! k))" for x
      unfolding set_concat UN_iff Bex_def in_set_conv_nth [of _ gathered] g(2) by blast
    then show ?thesis using g(3) by auto
  qed
  define C where "C = complete_iterations (int n) session (set (concat gathered))"
  have "{r. (i, r, session) \<in> set (concat gathered)} = {0..<int n}"
    unfolding ids using all by auto
  then have "i \<in> C" by (simp only: C_def complete_iterations_def mem_Collect_eq)
  have le: "j \<le> i" if "j \<in> C" for j
  proof -
    have "{r. (j, r, session) \<in> set (concat gathered)} = {0..<int n}"
      using that by (simp only: C_def complete_iterations_def mem_Collect_eq)
    then have "0 \<in> {r. (j, r, session) \<in> set (concat gathered)}" using n(2) by simp
    then show ?thesis unfolding ids using newest by blast
  qed
  have "find_latest (int n) gathered (ms ! k) = Inr ((ms ! k)\<lparr>cm_latest := i, cm_available := gathered\<rparr>)"
    if "k < n" for k
  proof -
    have s: "cm_session (ms ! k) = session" using ok that n(1) by (simp add: world_ok_def)
    then have "\<forall>x \<in> set (concat gathered). snd (snd x) = cm_session (ms ! k)" using ids by (metis prod.collapse)
    from find_latest_max [OF latest [OF that] this, of "int n" C] s n(2)
    have "finite C" "find_latest (int n) gathered (ms ! k) =
      Inr ((ms ! k)\<lparr>cm_latest := if C = {} then -1 else Max C, cm_available := gathered\<rparr>)"
      by (simp_all add: C_def)
    moreover have "Max C = i" using \<open>finite C\<close> \<open>i \<in> C\<close> le by (intro Max_eqI)
    ultimately show ?thesis using \<open>i \<in> C\<close> by auto
  qed
  then show ?thesis using g by blast
qed

lemma world_save_ok:
  assumes ok: "world_ok session ms" and n: "n = length ms" "0 < n" and groups: "cliques_ok groups n g"
    and i: "iteration_ok i" and latest: "\<And>k. k < n \<Longrightarrow> cm_latest (ms ! k) < i"
    and fresh: "\<And>k r. k < n \<Longrightarrow> (i, r) \<notin> interrupted (cm_dir (ms ! k))"
    and older: "\<And>k j r. k < n \<Longrightarrow> shards (cm_dir (ms ! k)) (j, r) \<noteq> None \<Longrightarrow> j < i"
  shows "\<exists>ms'. world_save groups states i ms = Inr ms' \<and> length ms' = n \<and> world_ok session ms'
    \<and> (\<forall>k < n. cm_latest (ms' ! k) = -1
        \<and> shards (cm_dir (ms' ! k)) = (\<lambda>(j, r). if j = i \<and> r \<in> set (g k) then Some (states r) else None))"
proof -
  have gs: "res_map (clique groups) ms = Inr (map g [0..<n])"
    using groups ok n(1)
    by (auto simp: res_map_Inr list_all2_conv_all_nth clique_def cliques_ok_def world_ok_def)
  let ?saved = "\<lambda>k m'. cm_latest m' = -1 \<and> cm_rank m' = int k \<and> cm_session m' = session \<and> dir_ok (cm_dir m')
       \<and> shards (cm_dir m') = (\<lambda>(j, r). if j = i \<and> r \<in> set (g k) then Some (states r) else shards (cm_dir (ms ! k)) (j, r))"
  let ?final = "\<lambda>k m'. cm_latest m' = -1 \<and> cm_rank m' = int k \<and> cm_session m' = session \<and> dir_ok (cm_dir m')
       \<and> shards (cm_dir m') = (\<lambda>(j, r). if j = i \<and> r \<in> set (g k) then Some (states r) else None)"
  let ?save = "\<lambda>g m. save_shards (Some (gather_replicas i states ms g)) (states (cm_rank m)) i m"
  have "\<exists>m'. map2 ?save (map g [0..<n]) ms ! k = (None, m') \<and> ?saved k m'"
    if "k < length (map2 ?save (map g [0..<n]) ms)" for k
  proof -
    have k: "k < n" using that n(1) by simp
    have m: "cm_rank (ms ! k) = int k" "cm_session (ms ! k) = session" "dir_ok (cm_dir (ms ! k))"
      using ok k n(1) by (auto simp: world_ok_def)
    have g: "distinct (g k)" "\<And>r. r \<in> set (g k) \<Longrightarrow> 0 \<le> r \<and> r < int n"
      using groups k cliques_ok_range [OF groups k] by (simp_all add: cliques_ok_def)
    then have "cm_session (ms ! nat r) = cm_session (ms ! k)" if "r \<in> set (g k)" for r
      using ok that m(2) n(1) by (auto simp: world_ok_def nat_less_iff)
    from save_shards_ok [OF m(3) i latest [OF k] g(1) _ fresh [OF k] this, of states "states (cm_rank (ms ! k))"] g(2)
    show ?thesis using k n(1) m by auto
  qed
  from no_error_nth [where P = ?saved, OF this] n(1)
  obtain ms1 where ms1: "no_error (map2 ?save (map g [0..<n]) ms) = Inr ms1" "length ms1 = n"
    "\<And>k. k < n \<Longrightarrow> ?saved k (ms1 ! k)"
    by auto
  have ok1: "world_ok session ms1" using ms1(2,3) by (simp add: world_ok_def)
  have shard1: "shards (cm_dir (ms1 ! k)) (i, r) \<noteq> None \<longleftrightarrow> r \<in> set (g k)" if "k < n" for k r
    using ms1(3) [OF that] older [OF that, of i r] by (cases "shards (cm_dir (ms ! k)) (i, r)") auto
  have "(\<exists>k < n. shards (cm_dir (ms1 ! k)) (i, r) \<noteq> None) \<longleftrightarrow> 0 \<le> r \<and> r < int n" for r
  proof
    assume "0 \<le> r \<and> r < int n"
    then have k: "nat r < n" "int (nat r) = r" by auto
    then have "int (nat r) \<in> set (g (nat r))" using groups unfolding cliques_ok_def by blast
    then have "r \<in> set (g (nat r))" by (simp only: k(2))
    then show "\<exists>k < n. shards (cm_dir (ms1 ! k)) (i, r) \<noteq> None" using shard1 k(1) by blast
  qed (use shard1 cliques_ok_range [OF groups] in blast)
  moreover have "j \<le> i" if "k < n" "shards (cm_dir (ms1 ! k)) (j, r) \<noteq> None" for k j r
    using ms1(3) [OF that(1)] that(2) older [OF that(1), of j r] by (auto split: if_splits)
  ultimately obtain gathered where gathered: "res_map (local_ids True) ms1 = Inr gathered" "length gathered = n"
    "\<And>k. k < n \<Longrightarrow> find_latest (int n) gathered (ms1 ! k) = Inr ((ms1 ! k)\<lparr>cm_latest := i, cm_available := gathered\<rparr>)"
    using world_search [OF ok1 ms1(2) [symmetric] n(2), of i] ms1(3) by blast
  have "\<exists>m'. map (finalize_save (int (length ms1)) gathered i) ms1 ! k = (None, m') \<and> ?final k m'"
    if "k < length (map (finalize_save (int (length ms1)) gathered i) ms1)" for k
  proof -
    have k: "k < n" using that ms1(2) by simp
    have "shards (cm_dir (ms1 ! k)) |` {ir. i \<le> fst ir}
        = (\<lambda>(j, r). if j = i \<and> r \<in> set (g k) then Some (states r) else None)"
      using ms1(3) [OF k] older [OF k] by (fastforce simp: restrict_map_def fun_eq_iff)
    then show ?thesis
      using finalize_save_ok [OF _ _ gathered(3) [OF k]] ms1(3) [OF k] k ms1(2) by auto
  qed
  from no_error_nth [where P = ?final, OF this] ms1(2)
  obtain ms2 where "no_error (map (finalize_save (int (length ms1)) gathered i) ms1) = Inr ms2" "length ms2 = n"
    "\<And>k. k < n \<Longrightarrow> ?final k (ms2 ! k)"
    by auto
  then show ?thesis
    using gs ms1(1) gathered(1) by (auto simp: world_save_def world_ok_def)
qed

section \<open>Loading\<close>

lemma entries_receivers: "list_all2 (entry_for ranks available w) rs entries \<Longrightarrow> map pe_receiver entries = rs"
  by (induction rs entries rule: list_all2_induct) (simp_all add: entry_for_def)

lemma filter_receiver_single:
  assumes "list_all2 (entry_for ranks available w) rs entries" and "distinct rs" and "me \<in> set rs"
  shows "\<exists>e. filter (\<lambda>e. pe_receiver e = me) entries = [e] \<and> entry_for ranks available w me e"
  using assms
proof (induction rs entries rule: list_all2_induct)
  case (Cons r rs e es)
  have none: "filter (\<lambda>e. pe_receiver e = me) es = []" if "me \<notin> set rs"
    using entries_receivers [OF Cons.hyps(2)] that by (auto simp: filter_empty_conv)
  show ?case
  proof (cases "r = me")
    case True
    then show ?thesis using Cons.hyps(1) Cons.prems(1) none by (auto simp: entry_for_def)
  next
    case False
    then have "pe_receiver e \<noteq> me" using Cons.hyps(1) by (simp add: entry_for_def)
    then show ?thesis using Cons.IH Cons.prems False by auto
  qed
qed simp

lemma entries_for_sender:
  assumes "list_all2 (entry_for ranks available w) rs entries" and "e \<in> set entries"
  shows "\<exists>r \<in> set rs. pe_id e = w r \<and> pe_receiver e = r \<and> pe_sender e \<in> set ranks \<and> w r \<in> set (available (pe_sender e))"
  using assms by (auto simp: entry_for_def list_all2_conv_all_nth in_set_conv_nth)

text \<open>
  A rank loads its own shard when every shard its clique wants is held by a member of the clique,
  and holders agree on it.
\<close>

lemma load_replicated_ok:
  fixes fs :: "'a manager list" and session :: string
  assumes pick: "picks_member pick"
    and g: "distinct g" "me \<in> set g"
    and mgr: "\<And>r. r \<in> set g \<Longrightarrow> cm_rank (fs ! nat r) = r \<and> cm_session (fs ! nat r) = session"
    and m: "cm_latest (fs ! nat me) = i" and i: "iteration_ok i" and nonneg: "\<And>r. r \<in> set g \<Longrightarrow> 0 \<le> r"
    and avail: "\<And>r s. r \<in> set g \<Longrightarrow> s \<in> set g \<Longrightarrow>
      (i, r, session) \<in> set (cm_available (fs ! nat me) ! nat s) \<longleftrightarrow> shards (cm_dir (fs ! nat s)) (i, r) \<noteq> None"
    and held: "\<And>r. r \<in> set g \<Longrightarrow> \<exists>s \<in> set g. shards (cm_dir (fs ! nat s)) (i, r) \<noteq> None"
    and agree: "\<And>r s x. r \<in> set g \<Longrightarrow> s \<in> set g \<Longrightarrow> shards (cm_dir (fs ! nat s)) (i, r) = Some x \<Longrightarrow> x = v r"
  shows "let wanted = map (\<lambda>r. [(i, r, session)]) g;
      entries = (case retrieve_plan pick g (\<lambda>r. cm_available (fs ! nat me) ! nat r) wanted of Inr es \<Rightarrow> es | Inl _ \<Rightarrow> []);
      data = (\<lambda>r. case load_data (fs ! nat r) entries of Inr d \<Rightarrow> d | Inl _ \<Rightarrow> [])
    in load_replicated pick g wanted (plan_queue data entries me) (fs ! nat me) = Inr (v me, (i, me, session))"
proof -
  let ?available = "\<lambda>r. cm_available (fs ! nat me) ! nat r" and ?w = "\<lambda>r. (i, r, session)"
  obtain entries where plan: "retrieve_plan pick g ?available (map (\<lambda>r. [?w r]) g) = Inr entries"
    and entries: "list_all2 (entry_for g ?available ?w) g entries"
    using retrieve_plan_one [of pick g ?w ?available] pick held avail by blast
  have key: "\<exists>r \<in> set g. x = ?w r \<and> shards (cm_dir (fs ! nat s)) (i, r) = Some (v r)"
    if s: "s \<in> set g" and x: "x \<in> set (required_ids entries s)" for s x
  proof -
    obtain e where e: "e \<in> set entries" "pe_sender e = s" "x = pe_id e"
      using x by (auto simp: required_ids_def)
    then obtain r where r: "r \<in> set g" "x = ?w r" "?w r \<in> set (?available s)"
      using entries_for_sender [OF entries e(1)] by auto
    then obtain y where "shards (cm_dir (fs ! nat s)) (i, r) = Some y" using avail [OF r(1) s] by blast
    then show ?thesis using agree [OF r(1) s] r by blast
  qed
  define data where "data = (\<lambda>r. case load_data (fs ! nat r) entries of Inr d \<Rightarrow> d | Inl _ \<Rightarrow> [])"
  have loaded: "load_data (fs ! nat s) entries = Inr (map (\<lambda>x. (x, v (fst (snd x)))) (required_ids entries s))"
    if "s \<in> set g" for s
  proof -
    have "res_bind (load_file session (cm_dir (fs ! nat s)) x) (\<lambda>y. Inr (x, y)) = Inr (x, v (fst (snd x)))"
      if x: "x \<in> set (required_ids entries s)" for x
    proof -
      obtain r where r: "r \<in> set g" "x = ?w r" "shards (cm_dir (fs ! nat s)) (i, r) = Some (v r)"
        using key [OF \<open>s \<in> set g\<close> x] by blast
      have "load_file session (cm_dir (fs ! nat s)) x = Inr (v r)"
        unfolding r(2) by (rule iffD2 [OF load_file_shard [OF i nonneg [OF r(1)]] r(3)])
      then show ?thesis by (simp add: r(2))
    qed
    from res_map_total [of "required_ids entries s", OF this] show ?thesis
      using mgr [OF that] by (simp add: load_data_def)
  qed
  then have data: "data s = map (\<lambda>x. (x, v (fst (snd x)))) (required_ids entries s)" if "s \<in> set g" for s
    using that by (simp add: data_def)
  have lookup: "map_of (data (pe_sender e)) (pe_id e) = Some (v (fst (snd (pe_id e))))" if "e \<in> set entries" for e
  proof -
    have "pe_sender e \<in> set g" using entries_for_sender [OF entries that] by auto
    moreover have "pe_id e \<in> set (required_ids entries (pe_sender e))" using that by (auto simp: required_ids_def)
    ultimately show ?thesis by (simp add: data map_of_map_restrict)
  qed
  then have "plan_covered data entries" by (auto simp: plan_covered_def list_all_iff)
  from execute_plan_delivers [OF this, of me]
  have run: "execute_plan me entries (data me) (plan_queue data entries me)
    = Inr (plan_got data entries me [], plan_sends data entries me)" .
  obtain e where e: "filter (\<lambda>e. pe_receiver e = me) entries = [e]" "entry_for g ?available ?w me e"
    using filter_receiver_single [OF entries g] by blast
  have "set (filter (\<lambda>e. pe_receiver e = me) entries) = {e}" using e(1) by simp
  then have "e \<in> set entries" by auto
  then have "plan_got data entries me [] = [(?w me, v me)]"
    using e lookup [of e] by (simp add: plan_got_def plan_value_def entry_for_def)
  moreover have "i \<noteq> -1" "own_ckpt_id (fs ! nat me) i = Inr (?w me)"
    using i mgr [OF g(2)] by (auto simp: iteration_ok_def own_ckpt_id_def)
  moreover have "load_data (fs ! nat me) entries = Inr (data me)"
    using loaded [OF g(2)] data [OF g(2)] by simp
  ultimately have "load_replicated pick g (map (\<lambda>r. [?w r]) g) (plan_queue data entries me) (fs ! nat me)
      = Inr (v me, ?w me)"
    using plan run m mgr [OF g(2)] by (simp add: load_replicated_def)
  then show ?thesis by (simp add: plan data_def Let_def)
qed

lemma world_recover:
  assumes pick: "picks_member pick"
    and ok: "world_ok session ms" and n: "n = length ms" "0 < n" and groups: "cliques_ok groups n g"
    and i: "iteration_ok i" and latest: "\<And>k. k < n \<Longrightarrow> cm_latest (ms ! k) = -1"
    and held: "\<And>k. k < n \<Longrightarrow> \<exists>s \<in> set (g k). shards (cm_dir (ms ! nat s)) (i, int k) \<noteq> None"
    and agree: "\<And>k r x. k < n \<Longrightarrow> shards (cm_dir (ms ! k)) (i, r) = Some x \<Longrightarrow> 0 \<le> r \<and> r < int n \<and> x = v r"
    and newest: "\<And>k j r. k < n \<Longrightarrow> shards (cm_dir (ms ! k)) (j, r) \<noteq> None \<Longrightarrow> j \<le> i"
  shows "\<exists>fs. world_find_latest ms = Inr fs \<and> map cm_latest fs = replicate n i
    \<and> world_load pick groups fs = Inr (map (\<lambda>k. (v (int k), (i, int k, session))) [0..<n])"
proof -
  note range = cliques_ok_range [OF groups]
  have all: "(\<exists>k < n. shards (cm_dir (ms ! k)) (i, r) \<noteq> None) \<longleftrightarrow> 0 \<le> r \<and> r < int n" for r
  proof
    assume r: "0 \<le> r \<and> r < int n"
    then have k: "nat r < n" "int (nat r) = r" by auto
    then obtain s where "s \<in> set (g (nat r))" "shards (cm_dir (ms ! nat s)) (i, r) \<noteq> None" using held by metis
    moreover from this(1) have "nat s < n" using range [OF k(1)] by (simp add: nat_less_iff)
    ultimately show "\<exists>k < n. shards (cm_dir (ms ! k)) (i, r) \<noteq> None" by blast
  qed (use agree in blast)
  obtain gathered where gathered: "res_map (local_ids True) ms = Inr gathered"
    "\<And>k. k < n \<Longrightarrow> set (gathered ! k) = {(j, r, s). s = session \<and> shards (cm_dir (ms ! k)) (j, r) \<noteq> None}"
    "\<And>k. k < n \<Longrightarrow> find_latest (int n) gathered (ms ! k) = Inr ((ms ! k)\<lparr>cm_latest := i, cm_available := gathered\<rparr>)"
    using world_search [OF ok n, of i] latest all newest by blast
  define fs where "fs = map (\<lambda>m. m\<lparr>cm_latest := i, cm_available := gathered\<rparr>) ms"
  have "res_map (find_latest (int (length ms)) gathered) ms = Inr fs"
    unfolding res_map_Inr list_all2_conv_all_nth using gathered(3) n(1) by (simp add: fs_def)
  then have find: "world_find_latest ms = Inr fs"
    unfolding world_find_latest_def gathered(1) by simp
  have fs: "cm_rank (fs ! k) = int k" "cm_session (fs ! k) = session" "cm_latest (fs ! k) = i"
    "cm_available (fs ! k) = gathered" "cm_dir (fs ! k) = cm_dir (ms ! k)" if "k < n" for k
    using ok that n(1) by (simp_all add: fs_def world_ok_def)
  have "\<exists>y. res_bind (clique groups (fs ! k)) (\<lambda>g.
       let wanted = map (\<lambda>r. [(cm_latest (fs ! k), r, cm_session (fs ! k))]) g;
           entries = (case retrieve_plan pick g (\<lambda>r. cm_available (fs ! k) ! nat r) wanted of Inr es \<Rightarrow> es | Inl _ \<Rightarrow> []);
           data = (\<lambda>r. case load_data (fs ! nat r) entries of Inr d \<Rightarrow> d | Inl _ \<Rightarrow> [])
       in load_replicated pick g wanted (plan_queue data entries (cm_rank (fs ! k))) (fs ! k)) = Inr y
     \<and> y = (v (int k), (i, int k, session))" if "k < length fs" for k
  proof -
    have k: "k < n" using that n(1) by (simp add: fs_def)
    have own: "own_group groups (int k) = Some (g k)" and gk: "distinct (g k)" "int k \<in> set (g k)"
      and same: "\<And>r. r \<in> set (g k) \<Longrightarrow> g (nat r) = g k"
      using groups k by (auto simp: cliques_ok_def)
    have idx: "nat r < n" "int (nat r) = r" if "r \<in> set (g k)" for r using range [OF k that] by auto
    have "\<exists>s \<in> set (g k). shards (cm_dir (fs ! nat s)) (i, r) \<noteq> None" if "r \<in> set (g k)" for r
      using held [OF idx(1) [OF that]] same [OF that] idx(2) [OF that] fs(5) idx(1) by (metis (no_types, lifting))
    moreover have "(i, r, session) \<in> set (cm_available (fs ! nat (int k)) ! nat s)
        \<longleftrightarrow> shards (cm_dir (fs ! nat s)) (i, r) \<noteq> None" if "s \<in> set (g k)" for r s
      using fs(4) [OF k] fs(5) [OF idx(1) [OF that]] gathered(2) [OF idx(1) [OF that]] by simp
    moreover have "x = v r" if "s \<in> set (g k)" "shards (cm_dir (fs ! nat s)) (i, r) = Some x" for r s x
      using agree [OF idx(1) [OF that(1)]] that(2) fs(5) [OF idx(1) [OF that(1)]] by simp
    moreover have "cm_rank (fs ! nat r) = r \<and> cm_session (fs ! nat r) = session" if "r \<in> set (g k)" for r
      using fs(1,2) [OF idx(1) [OF that]] idx(2) [OF that] by simp
    ultimately show ?thesis
      using load_replicated_ok [where fs = fs and session = session and v = v and i = i, OF pick gk]
        fs(1-3) [OF k] range [OF k] i own
      by (simp add: clique_def Let_def)
  qed
  from res_map_nth [where P = "\<lambda>k y. y = (v (int k), (i, int k, session))", OF this]
  obtain ys where ys: "world_load pick groups fs = Inr ys" "length ys = length fs"
    "\<And>k. k < length fs \<Longrightarrow> ys ! k = (v (int k), (i, int k, session))"
    unfolding world_load_def by blast
  have "ys = map (\<lambda>k. (v (int k), (i, int k, session))) [0..<n]"
    using ys(2,3) n(1) by (intro nth_equalityI) (simp_all add: fs_def)
  moreover have "map cm_latest fs = replicate n i" using n(1) by (simp add: fs_def comp_def map_replicate_const)
  ultimately show ?thesis using find ys(1) by blast
qed

section \<open>The promise of replication\<close>

text \<open>A rank that can save iteration i: nothing newer known, nothing left of an attempt at i.\<close>

definition ready_to_save :: "int \<Rightarrow> 'a manager \<Rightarrow> bool" where
  "ready_to_save i m \<longleftrightarrow> cm_latest m < i \<and> (\<forall>r. (i, r) \<notin> interrupted (cm_dir m))
     \<and> (\<forall>j r. shards (cm_dir m) (j, r) \<noteq> None \<longrightarrow> j < i)"

lemma restart_nth:
  "k < length ms \<Longrightarrow> restart lost ms ! k =
     (ms ! k)\<lparr>cm_latest := -1, cm_available := [], cm_dir := if cm_rank (ms ! k) \<in> lost then [] else cm_dir (ms ! k)\<rparr>"
  by (simp add: restart_def)

lemma shards_Nil [simp]: "shards [] ir = None"
  by (simp add: shards_def)


definition fresh_manager :: "int \<Rightarrow> 'a manager" where
  "fresh_manager r = \<lparr>cm_rank = r, cm_session = ''job'', cm_latest = -1, cm_available = [], cm_dir = []\<rparr>"


end
