(* ===== verification/CkptAsync.thy ===== *)
theory CkptAsync
  imports NvrxPrelude
begin

text \<open>
  Asynchronous checkpoint saves (\<open>checkpointing/async_ckpt/core.py\<close>): requests, the callers that run
  them in a worker process, and the queue of active calls, whose finalization all ranks enter
  together. A world is the list of the queues of all ranks; the workers run in steps of their own.
  A job stands for the function of a request with its arguments, a finalizer for a function to call
  when the job is done; staging tensors, priorities of processes and the caller that is warmed up in
  advance are left out. A persistent worker that has died is one that takes no more steps.
\<close>

section \<open>Requests\<close>

record ('j, 'g) async_request =
  ar_async_fn :: "'j option"
  ar_finalize_fns :: "'g list"
  ar_is_frozen :: bool
  ar_call_idx :: int

datatype async_error = FrozenRequest | UnmatchedCalls

definition add_finalize_fn :: "'g \<Rightarrow> ('j, 'g) async_request \<Rightarrow> async_error + ('j, 'g) async_request" where
  "add_finalize_fn fn r =
     (if ar_is_frozen r then Inl FrozenRequest else Inr (r\<lparr>ar_finalize_fns := ar_finalize_fns r @ [fn]\<rparr>))"

definition freeze :: "('j, 'g) async_request \<Rightarrow> ('j, 'g) async_request" where
  "freeze r = r\<lparr>ar_is_frozen := True\<rparr>"

section \<open>Callers\<close>

text \<open>
  The jobs a caller's process has been given and not done, the indices it has reported, and the
  index that was read and not yet used. The process of a temporal caller is alive while its job runs.
\<close>

datatype caller_kind = TemporalCaller | PersistentCaller

record 'j async_caller =
  ac_kind :: caller_kind
  ac_process :: bool
  ac_queue :: "(int \<times> 'j) list"
  ac_comp_q :: "int list"
  ac_cur_item :: "int option"

definition new_caller :: "caller_kind \<Rightarrow> 'j async_caller" where
  "new_caller k = \<lparr>ac_kind = k, ac_process = False, ac_queue = [], ac_comp_q = [], ac_cur_item = None\<rparr>"

definition schedule_async_call :: "('j, 'g) async_request \<Rightarrow> 'j async_caller \<Rightarrow> 'j async_caller" where
  "schedule_async_call r c =
     (case ar_async_fn r of
        None \<Rightarrow> c
      | Some fn \<Rightarrow>
          (case ac_kind c of
             TemporalCaller \<Rightarrow> c\<lparr>ac_process := True, ac_queue := [(ar_call_idx r, fn)]\<rparr>
           | PersistentCaller \<Rightarrow> c\<lparr>ac_process := True, ac_queue := ac_queue c @ [(ar_call_idx r, fn)]\<rparr>))"

text \<open>The worker does its first job; a persistent one reports the index and takes the next.\<close>

definition worker_job :: "'j async_caller \<Rightarrow> 'j list \<times> 'j async_caller" where
  "worker_job c =
     (if ac_process c then
        (case ac_queue c of
           [] \<Rightarrow> ([], c)
         | (i, fn) # q \<Rightarrow>
             ([fn], c\<lparr>ac_queue := q,
                      ac_comp_q := ac_comp_q c @ (case ac_kind c of TemporalCaller \<Rightarrow> [] | PersistentCaller \<Rightarrow> [i])\<rparr>))
      else ([], c))"

text \<open>
  The part of \<open>is_current_async_call_done\<close> before the ranks agree: whether the call is still active
  here; None while a blocking call waits for the worker.
\<close>

definition poll_caller :: "bool \<Rightarrow> 'j async_caller \<Rightarrow> (bool \<times> 'j async_caller) option" where
  "poll_caller blocking c =
     (case ac_kind c of
        TemporalCaller \<Rightarrow> Some (ac_process c \<and> ac_queue c \<noteq> [], c)
      | PersistentCaller \<Rightarrow>
          if ac_process c \<and> ac_cur_item c = None then
            (case ac_comp_q c of
               i # rest \<Rightarrow> Some (False, c\<lparr>ac_cur_item := Some i, ac_comp_q := rest\<rparr>)
             | [] \<Rightarrow> if blocking then None else Some (True, c))
          else Some (False, c))"

text \<open>
  The part after it, given what the ranks agreed on: the answer, the jobs that the join of a
  temporal process waits for, and the caller.
\<close>

definition settle_caller :: "bool \<Rightarrow> bool \<Rightarrow> 'j async_caller \<Rightarrow> bool \<times> 'j list \<times> 'j async_caller" where
  "settle_caller blocking is_done c =
     (case ac_kind c of
        TemporalCaller \<Rightarrow>
          if is_done \<or> blocking then
            (True, map snd (ac_queue c), c\<lparr>ac_process := False, ac_queue := []\<rparr>)
          else (False, [], c)
      | PersistentCaller \<Rightarrow> (is_done, [], if is_done then c\<lparr>ac_cur_item := None\<rparr> else c))"

text \<open>Closing a persistent caller waits for all its jobs, unless it is aborted.\<close>

definition close_caller :: "bool \<Rightarrow> 'j async_caller \<Rightarrow> 'j list \<times> 'j async_caller" where
  "close_caller abort c =
     (if \<not> ac_process c then ([], c)
      else if abort then ([], c\<lparr>ac_process := False\<rparr>)
      else (map snd (ac_queue c),
            c\<lparr>ac_process := False, ac_queue := [], ac_comp_q := ac_comp_q c @ map fst (ac_queue c)\<rparr>))"

section \<open>The queue of a rank\<close>

text \<open>Callers are objects: the queue holds them by number. What was written and finalized is logged.\<close>

record ('j, 'g) async_queue =
  aq_calls :: "(int \<times> nat \<times> ('j, 'g) async_request) list"
  aq_call_idx :: int
  aq_persistent :: bool
  aq_persistent_caller :: "nat option"
  aq_callers :: "'j async_caller list"
  aq_written :: "'j list"
  aq_finalized :: "'g list"

definition new_queue :: "bool \<Rightarrow> ('j, 'g) async_queue" where
  "new_queue persistent =
     \<lparr>aq_calls = [], aq_call_idx = - 1, aq_persistent = persistent, aq_persistent_caller = None,
      aq_callers = [], aq_written = [], aq_finalized = []\<rparr>"

definition get_async_caller :: "('j, 'g) async_queue \<Rightarrow> nat \<times> ('j, 'g) async_queue" where
  "get_async_caller q =
     (let n = length (aq_callers q)
      in if \<not> aq_persistent q then (n, q\<lparr>aq_callers := aq_callers q @ [new_caller TemporalCaller]\<rparr>)
         else case aq_persistent_caller q of
                Some c \<Rightarrow> (c, q)
              | None \<Rightarrow> (n, q\<lparr>aq_callers := aq_callers q @ [new_caller PersistentCaller], aq_persistent_caller := Some n\<rparr>))"

definition schedule_async_request :: "('j, 'g) async_request \<Rightarrow> ('j, 'g) async_queue \<Rightarrow> int \<times> ('j, 'g) async_queue" where
  "schedule_async_request r q =
     (let idx = aq_call_idx q + 1;
          (c, q) = get_async_caller (q\<lparr>aq_call_idx := idx\<rparr>);
          r = freeze r;
          caller = schedule_async_call (r\<lparr>ar_call_idx := idx, ar_finalize_fns := []\<rparr>) (aq_callers q ! c)
      in (idx, q\<lparr>aq_callers := (aq_callers q)[c := caller], aq_calls := aq_calls q @ [(idx, c, r)]\<rparr>))"

definition worker_step :: "nat \<Rightarrow> ('j, 'g) async_queue \<Rightarrow> ('j, 'g) async_queue" where
  "worker_step c q =
     (let (jobs, caller) = worker_job (aq_callers q ! c)
      in q\<lparr>aq_callers := (aq_callers q)[c := caller], aq_written := aq_written q @ jobs\<rparr>)"

section \<open>Finalization, entered by all ranks\<close>

definition rank_poll :: "bool \<Rightarrow> ('j, 'g) async_queue \<Rightarrow> (bool \<times> ('j, 'g) async_queue) option" where
  "rank_poll blocking q =
     (let c = fst (snd (hd (aq_calls q)))
      in map_option (\<lambda>(alive, caller). (alive, q\<lparr>aq_callers := (aq_callers q)[c := caller]\<rparr>))
           (poll_caller blocking (aq_callers q ! c)))"

definition rank_settle :: "bool \<Rightarrow> bool \<Rightarrow> ('j, 'g) async_queue \<Rightarrow> bool \<times> ('j, 'g) async_queue" where
  "rank_settle blocking is_done q =
     (let c = fst (snd (hd (aq_calls q)));
          (answer, jobs, caller) = settle_caller blocking is_done (aq_callers q ! c)
      in (answer, q\<lparr>aq_callers := (aq_callers q)[c := caller], aq_written := aq_written q @ jobs\<rparr>))"

text \<open>Popping the first call and running its finalizers; the index is that of the stored request.\<close>

definition rank_finalize :: "('j, 'g) async_queue \<Rightarrow> int \<times> ('j, 'g) async_queue" where
  "rank_finalize q =
     (let r = snd (snd (hd (aq_calls q)))
      in (ar_call_idx r, q\<lparr>aq_calls := tl (aq_calls q), aq_finalized := aq_finalized q @ ar_finalize_fns r\<rparr>))"

datatype ('j, 'g) finalize_turn =
    Empty | Waits | NotDone "('j, 'g) async_queue list" | Finalized int "('j, 'g) async_queue list"
  | Unmatched

text \<open>
  One pass of the loop of \<open>maybe_finalize_async_calls\<close> on all ranks: they poll, sum up who is still
  active, settle, finalize their first call and compare the largest index with their own. A rank
  without calls takes no part, and the others wait for it.
\<close>

definition finalize_turn :: "bool \<Rightarrow> ('j, 'g) async_queue list \<Rightarrow> ('j, 'g) finalize_turn" where
  "finalize_turn blocking w =
     (if list_all (\<lambda>q. aq_calls q = []) w then Empty
      else if list_ex (\<lambda>q. aq_calls q = []) w then Waits
      else case those (map (rank_poll blocking) w) of
        None \<Rightarrow> Waits
      | Some polled \<Rightarrow>
          let is_done = \<not> list_ex fst polled;
              settled = map (\<lambda>(alive, q). rank_settle blocking is_done q) polled
          in if \<not> list_all fst settled then NotDone (map snd settled)
             else
               let finalized = map (\<lambda>(answer, q). rank_finalize q) settled;
                   largest = Max (set (map fst finalized))
               in if list_all (\<lambda>(idx, q). idx = largest) finalized then Finalized largest (map snd finalized)
                  else Unmatched)"

text \<open>The loop; as many passes as there are calls are enough. None stands for a call that waits.\<close>

fun finalize_loop :: "nat \<Rightarrow> bool \<Rightarrow> ('j, 'g) async_queue list \<Rightarrow> (async_error + int list \<times> ('j, 'g) async_queue list) option" where
  "finalize_loop 0 blocking w = Some (Inr ([], w))"
| "finalize_loop (Suc n) blocking w =
     (case finalize_turn blocking w of
        Empty \<Rightarrow> Some (Inr ([], w))
      | Waits \<Rightarrow> None
      | NotDone w' \<Rightarrow> Some (Inr ([], w'))
      | Unmatched \<Rightarrow> Some (Inl UnmatchedCalls)
      | Finalized idx w' \<Rightarrow>
          map_option (\<lambda>res. res_bind res (\<lambda>(idxs, w''). Inr (idx # idxs, w''))) (finalize_loop n blocking w'))"

definition maybe_finalize_async_calls ::
  "bool \<Rightarrow> ('j, 'g) async_queue list \<Rightarrow> (async_error + int list \<times> ('j, 'g) async_queue list) option" where
  "maybe_finalize_async_calls blocking w =
     finalize_loop (sum_list (map (\<lambda>q. length (aq_calls q)) w)) blocking w"

text \<open>
  Closing. Without abort the pending calls are finalized first, on all ranks; with abort they stay in
  the queue. Either way the next call will be made through another caller.
\<close>

definition close_queue :: "bool \<Rightarrow> ('j, 'g) async_queue \<Rightarrow> ('j, 'g) async_queue" where
  "close_queue abort q =
     (let q' = (case (aq_persistent q, aq_persistent_caller q) of
                  (True, Some c) \<Rightarrow>
                    let (jobs, caller) = close_caller abort (aq_callers q ! c)
                    in q\<lparr>aq_callers := (aq_callers q)[c := caller], aq_written := aq_written q @ jobs\<rparr>
                | _ \<Rightarrow> q)
      in q'\<lparr>aq_call_idx := - 1, aq_persistent_caller := None\<rparr>)"

definition close_async_calls :: "bool \<Rightarrow> ('j, 'g) async_queue list \<Rightarrow> (async_error + ('j, 'g) async_queue list) option" where
  "close_async_calls abort w =
     (if \<not> abort \<and> list_all (\<lambda>q. \<not> aq_persistent q \<or> aq_persistent_caller q \<noteq> None) w then
        map_option (\<lambda>res. res_bind res (\<lambda>(idxs, w'). Inr (map (close_queue abort) w')))
          (maybe_finalize_async_calls True w)
      else Some (Inr (map (close_queue abort) w)))"

section \<open>The state of a rank after its requests\<close>

definition jobs_of :: "('j, 'g) async_request list \<Rightarrow> 'j list" where
  "jobs_of R = map (\<lambda>r. the (ar_async_fn r)) R"

text \<open>
  A rank whose requests so far are \<open>R\<close>, of which the first \<open>F\<close> have been finalized: one persistent
  caller has written a prefix of the jobs and reported each of them, and the reports that have not
  been used are those beyond \<open>F\<close>.
\<close>

definition caller_ok :: "nat \<Rightarrow> ('j, 'g) async_request list \<Rightarrow> 'j list \<Rightarrow> 'j async_caller \<Rightarrow> bool" where
  "caller_ok F R written c \<longleftrightarrow> ac_kind c = PersistentCaller \<and> ac_process c
     \<and> written @ map snd (ac_queue c) = jobs_of R
     \<and> F + (if ac_cur_item c = None then 0 else 1) + length (ac_comp_q c) = length written"

definition rank_ok :: "nat \<Rightarrow> ('j, 'g) async_request list \<Rightarrow> ('j, 'g) async_queue \<Rightarrow> bool" where
  "rank_ok F R q \<longleftrightarrow> aq_persistent q \<and> F \<le> length R
     \<and> aq_calls q = map (\<lambda>k. (int k, 0, freeze (R ! k))) [F..<length R]
     \<and> aq_call_idx q = int (length R) - 1
     \<and> aq_finalized q = concat (map ar_finalize_fns (take F R))
     \<and> (if R = [] then aq_callers q = [] \<and> aq_persistent_caller q = None \<and> aq_written q = []
        else aq_persistent_caller q = Some 0 \<and> (\<exists>c. aq_callers q = [c] \<and> caller_ok F R (aq_written q) c))"

lemma rank_ok_new: "rank_ok 0 [] (new_queue True)"
  by (simp add: rank_ok_def new_queue_def)

lemma rank_ok_worker:
  assumes "rank_ok F R q" and "c < length (aq_callers q)"
  shows "rank_ok F R (worker_step c q)"
proof -
  have "R \<noteq> []" using assms by (auto simp: rank_ok_def)
  then obtain d where d: "aq_callers q = [d]" "caller_ok F R (aq_written q) d"
    using assms(1) by (auto simp: rank_ok_def)
  have "c = 0" using assms(2) d(1) by simp
  have "caller_ok F R (aq_written q @ fst (worker_job d)) (snd (worker_job d))"
    using d(2) by (auto simp: caller_ok_def worker_job_def split: list.splits)
  then show ?thesis
    using assms(1) d(1) \<open>c = 0\<close> \<open>R \<noteq> []\<close> by (simp add: rank_ok_def worker_step_def split_beta)
qed

lemma rank_ok_schedule:
  assumes "rank_ok F R q" and "ar_async_fn r \<noteq> None"
  shows "rank_ok F (R @ [r]) (snd (schedule_async_request r q))"
proof -
  obtain fn where fn: "ar_async_fn r = Some fn" using assms(2) by blast
  have calls: "map (\<lambda>k. (int k, 0 :: nat, freeze ((R @ [r]) ! k))) [F..<length (R @ [r])]
      = map (\<lambda>k. (int k, 0, freeze (R ! k))) [F..<length R] @ [(int (length R), 0, freeze r)]"
    using assms(1) by (auto simp: rank_ok_def nth_append)
  show ?thesis
  proof (cases "R = []")
    case True
    then show ?thesis
      using assms(1) fn
      by (simp add: rank_ok_def schedule_async_request_def get_async_caller_def schedule_async_call_def freeze_def
          caller_ok_def new_caller_def jobs_of_def Let_def)
  next
    case False
    then obtain d where d: "aq_callers q = [d]" "caller_ok F R (aq_written q) d" "aq_persistent_caller q = Some 0"
      using assms(1) by (auto simp: rank_ok_def)
    then show ?thesis
      using assms(1) fn False calls
      by (simp add: rank_ok_def schedule_async_request_def get_async_caller_def schedule_async_call_def
          caller_ok_def jobs_of_def Let_def freeze_def)
  qed
qed

text \<open>The caller of the first call, and whether it has a report in hand.\<close>

definition head_caller :: "('j, 'g) async_queue \<Rightarrow> 'j async_caller" where
  "head_caller q = aq_callers q ! fst (snd (hd (aq_calls q)))"

lemma rank_ok_head:
  assumes "rank_ok F R q" and "aq_calls q \<noteq> []"
  obtains c where "aq_callers q = [c]" "caller_ok F R (aq_written q) c" "hd (aq_calls q) = (int F, 0, freeze (R ! F))"
    "F < length R" "head_caller q = c"
proof -
  have less: "F < length R" using assms by (auto simp: rank_ok_def)
  then obtain c where c: "aq_callers q = [c]" "caller_ok F R (aq_written q) c"
    using assms(1) by (auto simp: rank_ok_def split: if_splits)
  have "hd (aq_calls q) = (int F, 0, freeze (R ! F))"
    using assms(1) less by (simp add: rank_ok_def upt_conv_Cons)
  then show thesis using that c less by (simp add: head_caller_def)
qed

lemma rank_ok_poll:
  assumes "rank_ok F R q" and "aq_calls q \<noteq> []" and "rank_poll blocking q = Some (alive, q')"
  shows "rank_ok F R q'" and "aq_calls q' = aq_calls q" and "aq_written q' = aq_written q" and "aq_finalized q' = aq_finalized q"
    and "\<not> alive \<Longrightarrow> ac_cur_item (head_caller q') \<noteq> None"
proof -
  obtain c where c: "aq_callers q = [c]" "caller_ok F R (aq_written q) c" "hd (aq_calls q) = (int F, 0, freeze (R ! F))"
    using rank_ok_head [OF assms(1,2)] by metis
  obtain c' where poll: "poll_caller blocking c = Some (alive, c')" and q': "q' = q\<lparr>aq_callers := [c']\<rparr>"
    using assms(3) c by (auto simp: rank_poll_def)
  have c': "caller_ok F R (aq_written q) c'" "\<not> alive \<Longrightarrow> ac_cur_item c' \<noteq> None"
    using poll c(2) by (auto simp: poll_caller_def caller_ok_def split: if_splits list.splits)
  show "rank_ok F R q'" "aq_calls q' = aq_calls q" "aq_written q' = aq_written q" "aq_finalized q' = aq_finalized q"
    using assms(1) c(1) c'(1) by (auto simp: q' rank_ok_def)
  show "ac_cur_item (head_caller q') \<noteq> None" if "\<not> alive"
    using c'(2) [OF that] c(3) by (simp add: q' head_caller_def)
qed

lemma rank_settle_persistent:
  assumes "rank_ok F R q" and "aq_calls q \<noteq> []"
  shows "rank_settle blocking is_done q = (is_done, if is_done then q\<lparr>aq_callers := [(head_caller q)\<lparr>ac_cur_item := None\<rparr>]\<rparr> else q)"
proof -
  obtain c where "aq_callers q = [c]" "caller_ok F R (aq_written q) c" "hd (aq_calls q) = (int F, 0, freeze (R ! F))" "head_caller q = c"
    using rank_ok_head [OF assms] by metis
  then show ?thesis by (simp add: rank_settle_def settle_caller_def caller_ok_def)
qed

lemma rank_ok_finalize:
  assumes "rank_ok F R q" and "aq_calls q \<noteq> []" and "ac_cur_item (head_caller q) \<noteq> None"
  shows "rank_ok (Suc F) R (snd (rank_finalize (snd (rank_settle blocking True q))))"
    and "fst (rank_finalize (snd (rank_settle blocking True q))) = ar_call_idx (R ! F)"
    and "F < length (aq_written q)"
proof -
  obtain c where c: "aq_callers q = [c]" "caller_ok F R (aq_written q) c" "hd (aq_calls q) = (int F, 0, freeze (R ! F))"
    "F < length R" "head_caller q = c"
    using rank_ok_head [OF assms(1,2)] by metis
  show "F < length (aq_written q)" using c(2,5) assms(3) by (auto simp: caller_ok_def)
  have "caller_ok (Suc F) R (aq_written q) (c\<lparr>ac_cur_item := None\<rparr>)"
    using c(2,5) assms(3) by (auto simp: caller_ok_def)
  moreover have "tl (aq_calls q) = map (\<lambda>k. (int k, 0, freeze (R ! k))) [Suc F..<length R]"
    using assms(1) c(4) by (simp add: rank_ok_def upt_conv_Cons)
  moreover have "concat (map ar_finalize_fns (take (Suc F) R)) = aq_finalized q @ ar_finalize_fns (R ! F)"
    using assms(1) c(4) by (simp add: rank_ok_def take_Suc_conv_app_nth)
  ultimately show "rank_ok (Suc F) R (snd (rank_finalize (snd (rank_settle blocking True q))))"
    using assms(1) c(3,4,5) rank_settle_persistent [OF assms(1,2), of blocking True]
    by (auto simp: rank_ok_def rank_finalize_def freeze_def)
  show "fst (rank_finalize (snd (rank_settle blocking True q))) = ar_call_idx (R ! F)"
    using c(3) rank_settle_persistent [OF assms(1,2), of blocking True] by (simp add: rank_finalize_def freeze_def)
qed

section \<open>The world\<close>

text \<open>The rounds of requests so far, each with one request per rank.\<close>

definition rank_requests :: "nat \<Rightarrow> ('j, 'g) async_request list list \<Rightarrow> ('j, 'g) async_request list" where
  "rank_requests r h = map (\<lambda>round. round ! r) h"

definition world_ok :: "nat \<Rightarrow> ('j, 'g) async_request list list \<Rightarrow> ('j, 'g) async_queue list \<Rightarrow> bool" where
  "world_ok F h w \<longleftrightarrow> (\<forall>r < length w. rank_ok F (rank_requests r h) (w ! r))"

lemma those_map_nth: "those (map f xs) = Some ys \<Longrightarrow> length ys = length xs \<and> (\<forall>i < length xs. f (xs ! i) = Some (ys ! i))"
proof (induction xs arbitrary: ys)
  case (Cons x xs)
  then show ?case by (auto split: option.splits simp: nth_Cons split: nat.splits)
qed simp

inductive async_step ::
  "('j, 'g) async_request list list \<times> ('j, 'g) async_queue list \<Rightarrow> ('j, 'g) async_request list list \<times> ('j, 'g) async_queue list \<Rightarrow> bool" where
  work: "r < length w \<Longrightarrow> c < length (aq_callers (w ! r)) \<Longrightarrow> async_step (h, w) (h, w[r := worker_step c (w ! r)])"
| schedule: "length rs = length w \<Longrightarrow> list_all (\<lambda>r. ar_async_fn r \<noteq> None) rs \<Longrightarrow>
    async_step (h, w) (h @ [rs], map2 (\<lambda>r q. snd (schedule_async_request r q)) rs w)"
| not_done: "finalize_turn blocking w = NotDone w' \<Longrightarrow> async_step (h, w) (h, w')"
| finalized: "finalize_turn blocking w = Finalized idx w' \<Longrightarrow> async_step (h, w) (h, w')"

text \<open>A pass of the loop, from what the ranks agree on.\<close>

lemma finalize_turn_world:
  assumes "world_ok F h w" and "\<not> list_ex (\<lambda>q. aq_calls q = []) w"
  shows "finalize_turn blocking w = NotDone w' \<Longrightarrow> length w' = length w \<and> world_ok F h w'"
    and "finalize_turn blocking w = Finalized idx w' \<Longrightarrow> length w' = length w \<and> world_ok (Suc F) h w'
      \<and> (\<forall>r < length w. F < length (aq_written (w ! r)))
      \<and> (\<forall>r < length w. idx = ar_call_idx (rank_requests r h ! F))"
proof -
  have calls: "aq_calls (w ! r) \<noteq> []" if "r < length w" for r
    using assms(2) that by (auto simp: list_ex_iff)
  have polled: "length ys = length w \<and> (\<forall>r < length w. rank_poll blocking (w ! r) = Some (ys ! r))"
    if "those (map (rank_poll blocking) w) = Some ys" for ys
    by (rule those_map_nth [OF that])
  have ok: "rank_ok F (rank_requests r h) (snd (ys ! r)) \<and> aq_calls (snd (ys ! r)) \<noteq> []
      \<and> aq_written (snd (ys ! r)) = aq_written (w ! r) \<and> (\<not> fst (ys ! r) \<longrightarrow> ac_cur_item (head_caller (snd (ys ! r))) \<noteq> None)"
    if "those (map (rank_poll blocking) w) = Some ys" "r < length w" for ys r
  proof -
    have "rank_ok F (rank_requests r h) (w ! r)" using assms(1) that(2) by (simp add: world_ok_def)
    moreover have "rank_poll blocking (w ! r) = Some (fst (ys ! r), snd (ys ! r))" using polled [OF that(1)] that(2) by simp
    ultimately show ?thesis using rank_ok_poll [OF _ calls [OF that(2)]] calls [OF that(2)] by metis
  qed
  show "length w' = length w \<and> world_ok F h w'" if turn: "finalize_turn blocking w = NotDone w'"
  proof -
    obtain ys where ys: "those (map (rank_poll blocking) w) = Some ys"
      and nd: "\<not> list_all fst (map (\<lambda>(alive, q). rank_settle blocking (\<not> list_ex fst ys) q) ys)"
      and w': "w' = map snd (map (\<lambda>(alive, q). rank_settle blocking (\<not> list_ex fst ys) q) ys)"
      using turn assms(2) by (auto simp: finalize_turn_def Let_def split: option.splits if_splits)
    have settle: "rank_settle blocking is_done (snd (ys ! r)) = (is_done, if is_done then
        (snd (ys ! r))\<lparr>aq_callers := [(head_caller (snd (ys ! r)))\<lparr>ac_cur_item := None\<rparr>]\<rparr> else snd (ys ! r))"
      if "r < length w" for r is_done
      by (rule rank_settle_persistent) (use ok [OF ys that] in auto)
    have "list_ex fst ys"
    proof (rule ccontr)
      assume no: "\<not> list_ex fst ys"
      have "list_all fst (map (\<lambda>(alive, q). rank_settle blocking (\<not> list_ex fst ys) q) ys)"
        using settle polled [OF ys] no by (auto simp: list_all_length split_beta)
      then show False using nd by simp
    qed
    then have "w' = map snd ys"
      using settle polled [OF ys] by (auto simp: w' list_eq_iff_nth_eq split_beta)
    then show ?thesis using polled [OF ys] ok [OF ys] by (simp add: world_ok_def)
  qed
  show "length w' = length w \<and> world_ok (Suc F) h w' \<and> (\<forall>r < length w. F < length (aq_written (w ! r)))
      \<and> (\<forall>r < length w. idx = ar_call_idx (rank_requests r h ! F))"
    if fin: "finalize_turn blocking w = Finalized idx w'"
  proof -
    obtain ys where ys: "those (map (rank_poll blocking) w) = Some ys"
      and all: "list_all fst (map (\<lambda>(alive, q). rank_settle blocking (\<not> list_ex fst ys) q) ys)"
      and w': "w' = map snd (map (\<lambda>(answer, q). rank_finalize q) (map (\<lambda>(alive, q). rank_settle blocking (\<not> list_ex fst ys) q) ys))"
      and same: "list_all (\<lambda>(i, q). i = idx) (map (\<lambda>(answer, q). rank_finalize q) (map (\<lambda>(alive, q). rank_settle blocking (\<not> list_ex fst ys) q) ys))"
      using fin assms(2) by (auto simp: finalize_turn_def Let_def split: option.splits if_splits)
    have len: "length ys = length w" using polled [OF ys] by simp
    have quiet: "\<not> list_ex fst ys" if "0 < length w"
    proof -
      have "fst (rank_settle blocking (\<not> list_ex fst ys) (snd (ys ! 0)))"
        using all that len by (auto simp: list_all_length split_beta)
      then show ?thesis
        using rank_settle_persistent [where q = "snd (ys ! 0)" and F = F and R = "rank_requests 0 h"] ok [OF ys that] by simp
    qed
    have nth: "rank_ok (Suc F) (rank_requests r h) (w' ! r) \<and> F < length (aq_written (w ! r)) \<and> idx = ar_call_idx (rank_requests r h ! F)"
      if r: "r < length w" for r
    proof -
      have no: "\<not> list_ex fst ys" using quiet r by (cases "length w") auto
      then have "\<not> fst (ys ! r)" using r len by (auto simp: list_ex_iff)
      then have cur: "ac_cur_item (head_caller (snd (ys ! r))) \<noteq> None" and q: "rank_ok F (rank_requests r h) (snd (ys ! r))"
        "aq_calls (snd (ys ! r)) \<noteq> []" "aq_written (snd (ys ! r)) = aq_written (w ! r)"
        using ok [OF ys r] by simp_all
      have "w' ! r = snd (rank_finalize (snd (rank_settle blocking True (snd (ys ! r)))))"
        using r len no by (simp add: w' split_beta)
      moreover have "fst (rank_finalize (snd (rank_settle blocking True (snd (ys ! r))))) = idx"
        using same r len no by (auto simp: list_all_length split_beta)
      ultimately show ?thesis
        using rank_ok_finalize(1,2) [OF q(1,2) cur, of blocking] rank_ok_finalize(3) [OF q(1,2) cur] q(3) by simp
    qed
    have "length w' = length w" by (simp add: w' len)
    then show ?thesis using nth by (simp add: world_ok_def)
  qed
qed

section \<open>Properties of reachable worlds\<close>

lemma world_ok_step:
  assumes "async_step (h, w) (h', w')" and "world_ok F h w"
  shows "length w' = length w \<and> (\<exists>F'. F \<le> F' \<and> world_ok F' h' w')"
  using assms(1)
proof cases
  case (work r c)
  have "rank_ok F (rank_requests r' h) (w' ! r')" if "r' < length w" for r'
    using assms(2) work that rank_ok_worker [OF _ work(4), of F "rank_requests r h"]
    by (cases "r' = r") (simp_all add: world_ok_def)
  then have "world_ok F h w'" using work by (simp add: world_ok_def)
  then show ?thesis using work by auto
next
  case (schedule rs)
  have "rank_ok F (rank_requests r h') (w' ! r)" if "r < length w" for r
  proof -
    have "ar_async_fn (rs ! r) \<noteq> None" using schedule that by (simp add: list_all_length)
    from rank_ok_schedule [OF _ this] show ?thesis
      using assms(2) schedule that by (simp add: world_ok_def rank_requests_def)
  qed
  then have "world_ok F h' w'" using schedule by (simp add: world_ok_def)
  then show ?thesis using schedule by auto
next
  case (not_done blocking)
  then have "\<not> list_ex (\<lambda>q. aq_calls q = []) w" by (auto simp: finalize_turn_def split: if_splits)
  then show ?thesis using finalize_turn_world(1) [OF assms(2)] not_done by blast
next
  case (finalized blocking idx)
  then have "\<not> list_ex (\<lambda>q. aq_calls q = []) w" by (auto simp: finalize_turn_def split: if_splits)
  from finalize_turn_world(2) [OF assms(2) this finalized(2)] show ?thesis
    using finalized by (auto intro: exI [of _ "Suc F"])
qed

lemma world_ok_reach:
  "async_step\<^sup>*\<^sup>* ([], replicate n (new_queue True)) y \<Longrightarrow> length (snd y) = n \<and> (\<exists>F. world_ok F (fst y) (snd y))"
proof (induction rule: rtranclp_induct)
  case base
  have "world_ok 0 [] (replicate n (new_queue True))"
    by (simp add: world_ok_def rank_requests_def rank_ok_new)
  then show ?case by auto
next
  case (step y z)
  then obtain F where "world_ok F (fst y) (snd y)" by blast
  then show ?case using world_ok_step [of "fst y" "snd y" "fst z" "snd z" F] step by auto
qed

text \<open>
  C21: a save is finalized when it is written everywhere, once and in order. With persistent callers,
  whatever the order of the workers' progress, of new requests and of the passes of the finalization
  loop, blocking or not, there is one number of requests that every rank has finalized; each rank has
  run the finalizers of exactly its first requests in the order of the requests, and the jobs of
  those requests have been written on all ranks.
\<close>

theorem finalized_when_written_everywhere:
  assumes "async_step\<^sup>*\<^sup>* ([], replicate n (new_queue True)) (h, w)"
  shows "length w = n \<and> (\<exists>F. \<forall>r < n. F \<le> length h
    \<and> aq_finalized (w ! r) = concat (map ar_finalize_fns (take F (rank_requests r h)))
    \<and> take F (aq_written (w ! r)) = take F (jobs_of (rank_requests r h)) \<and> F \<le> length (aq_written (w ! r)))"
proof -
  obtain F where len: "length w = n" and ok: "world_ok F h w" using world_ok_reach [OF assms] by auto
  have "F \<le> length h \<and> aq_finalized (w ! r) = concat (map ar_finalize_fns (take F (rank_requests r h)))
      \<and> take F (aq_written (w ! r)) = take F (jobs_of (rank_requests r h)) \<and> F \<le> length (aq_written (w ! r))"
    if "r < n" for r
  proof -
    have q: "rank_ok F (rank_requests r h) (w ! r)" using ok len that by (simp add: world_ok_def)
    show ?thesis
    proof (cases "rank_requests r h = []")
      case True
      then show ?thesis using q by (simp add: rank_ok_def)
    next
      case False
      then obtain c where c: "caller_ok F (rank_requests r h) (aq_written (w ! r)) c" using q by (auto simp: rank_ok_def)
      then have "F \<le> length (aq_written (w ! r))" by (auto simp: caller_ok_def)
      moreover have "take F (jobs_of (rank_requests r h)) = take F (aq_written (w ! r) @ map snd (ac_queue c))"
        using c by (simp add: caller_ok_def)
      ultimately show ?thesis using q by (simp add: rank_ok_def rank_requests_def)
    qed
  qed
  then show ?thesis using len by blast
qed

section \<open>Queues that are ready\<close>

text \<open>
  Every pending call would be found done: its reports have come in, or the process is gone. Requests
  are scheduled with the index they are constructed with, 0.
\<close>

definition ready :: "('j, 'g) async_queue \<Rightarrow> bool" where
  "ready q \<longleftrightarrow> aq_calls q = [] \<or> (\<exists>c. aq_callers q = [c] \<and> ac_kind c = PersistentCaller
     \<and> (ac_process c \<longrightarrow> length (aq_calls q) \<le> (if ac_cur_item c = None then 0 else 1) + length (ac_comp_q c))
     \<and> list_all (\<lambda>(k, i, r). i = 0 \<and> ar_call_idx r = 0) (aq_calls q))"

definition calls_finalizers :: "('j, 'g) async_queue \<Rightarrow> 'g list" where
  "calls_finalizers q = concat (map (\<lambda>(k, i, r). ar_finalize_fns r) (aq_calls q))"

lemma ready_turn:
  assumes "ready q" and "aq_calls q \<noteq> []"
  shows "\<exists>q1 q2 q3. rank_poll blocking q = Some (False, q1) \<and> rank_settle blocking True q1 = (True, q2)
    \<and> rank_finalize q2 = (0, q3) \<and> ready q3 \<and> aq_calls q3 = tl (aq_calls q) \<and> aq_written q3 = aq_written q
    \<and> aq_finalized q3 @ calls_finalizers q3 = aq_finalized q @ calls_finalizers q"
proof -
  obtain k r rest where calls: "aq_calls q = (k, 0, r) # rest" "ar_call_idx r = 0"
    and rest: "list_all (\<lambda>(k, i, r). i = 0 \<and> ar_call_idx r = 0) rest"
    using assms by (cases "aq_calls q") (auto simp: ready_def)
  obtain c where c: "aq_callers q = [c]" "ac_kind c = PersistentCaller"
    "ac_process c \<longrightarrow> length (aq_calls q) \<le> (if ac_cur_item c = None then 0 else 1) + length (ac_comp_q c)"
    using assms unfolding ready_def by auto
  obtain c' where poll: "poll_caller blocking c = Some (False, c')" and c': "ac_kind c' = PersistentCaller"
    "ac_process c' \<longrightarrow> ac_cur_item c' \<noteq> None \<and> length rest \<le> length (ac_comp_q c')"
  proof (cases "ac_process c \<and> ac_cur_item c = None")
    case True
    then obtain i js where "ac_comp_q c = i # js" using c(3) calls by (cases "ac_comp_q c") auto
    then show ?thesis using that True c(2,3) calls by (simp add: poll_caller_def)
  next
    case False
    then show ?thesis using that [of c] c(2,3) calls by (auto simp: poll_caller_def split: if_splits)
  qed
  let ?q1 = "q\<lparr>aq_callers := [c']\<rparr>" and ?q2 = "q\<lparr>aq_callers := [c'\<lparr>ac_cur_item := None\<rparr>]\<rparr>"
  let ?q3 = "q\<lparr>aq_callers := [c'\<lparr>ac_cur_item := None\<rparr>], aq_calls := rest, aq_finalized := aq_finalized q @ ar_finalize_fns r\<rparr>"
  have "rank_poll blocking q = Some (False, ?q1)" using calls c(1) poll by (simp add: rank_poll_def)
  moreover have "rank_settle blocking True ?q1 = (True, ?q2)" using calls c' by (simp add: rank_settle_def settle_caller_def)
  moreover have "rank_finalize ?q2 = (0, ?q3)" using calls by (simp add: rank_finalize_def)
  moreover have "ready ?q3" using c' calls rest by (simp add: ready_def)
  ultimately show ?thesis using calls by (intro exI [of _ ?q1] exI [of _ ?q2] exI [of _ ?q3]) (simp add: calls_finalizers_def)
qed

lemma ready_world_turn:
  assumes "w \<noteq> []" and "list_all (\<lambda>q. ready q \<and> aq_calls q \<noteq> []) w"
  shows "\<exists>w'. finalize_turn blocking w = Finalized 0 w' \<and> list_all2 (\<lambda>q q'. ready q' \<and> aq_calls q' = tl (aq_calls q)
    \<and> aq_written q' = aq_written q \<and> aq_finalized q' @ calls_finalizers q' = aq_finalized q @ calls_finalizers q) w w'"
proof -
  have "\<forall>q \<in> set w. \<exists>q1 q2 q3. rank_poll blocking q = Some (False, q1) \<and> rank_settle blocking True q1 = (True, q2)
    \<and> rank_finalize q2 = (0, q3) \<and> ready q3 \<and> aq_calls q3 = tl (aq_calls q) \<and> aq_written q3 = aq_written q
    \<and> aq_finalized q3 @ calls_finalizers q3 = aq_finalized q @ calls_finalizers q"
  proof
    fix q assume "q \<in> set w"
    then have "ready q" "aq_calls q \<noteq> []" using assms(2) by (auto simp: list_all_iff)
    then show "\<exists>q1 q2 q3. rank_poll blocking q = Some (False, q1) \<and> rank_settle blocking True q1 = (True, q2)
      \<and> rank_finalize q2 = (0, q3) \<and> ready q3 \<and> aq_calls q3 = tl (aq_calls q) \<and> aq_written q3 = aq_written q
      \<and> aq_finalized q3 @ calls_finalizers q3 = aq_finalized q @ calls_finalizers q" by (rule ready_turn)
  qed
  then obtain f1 f2 f3 where f: "\<And>q. q \<in> set w \<Longrightarrow> rank_poll blocking q = Some (False, f1 q)
    \<and> rank_settle blocking True (f1 q) = (True, f2 q) \<and> rank_finalize (f2 q) = (0, f3 q) \<and> ready (f3 q)
    \<and> aq_calls (f3 q) = tl (aq_calls q) \<and> aq_written (f3 q) = aq_written q
    \<and> aq_finalized (f3 q) @ calls_finalizers (f3 q) = aq_finalized q @ calls_finalizers q"
    by metis
  have some: "those (map g xs) = Some (map h xs)" if "\<And>x. x \<in> set xs \<Longrightarrow> g x = Some (h x)" for g :: "'x \<Rightarrow> 'y option" and h xs
    using that by (induction xs) auto
  have polled: "those (map (rank_poll blocking) w) = Some (map (\<lambda>q. (False, f1 q)) w)"
    by (rule some) (use f in blast)
  have none: "\<not> list_ex fst (map (\<lambda>q. (False, f1 q)) w)" by (induction w) auto
  have settled: "map (\<lambda>(alive, q). rank_settle blocking True q) (map (\<lambda>q. (False, f1 q)) w) = map (\<lambda>q. (True, f2 q)) w"
    using f by simp
  have finalized: "map (\<lambda>(answer, q). rank_finalize q) (map (\<lambda>q. (True, f2 q)) w) = map (\<lambda>q. (0, f3 q)) w"
    using f by simp
  have "Max (set (map fst (map (\<lambda>q. (0 :: int, f3 q)) w))) = 0"
    using assms(1) by (simp add: image_constant_conv)
  moreover have guards: "\<not> list_all (\<lambda>q. aq_calls q = []) w" "\<not> list_ex (\<lambda>q. aq_calls q = []) w"
    using assms by (cases w; auto simp: list_ex_iff list_all_iff)+
  ultimately have "finalize_turn blocking w = Finalized 0 (map f3 w)"
    by (simp only: finalize_turn_def Let_def guards polled none settled finalized option.case if_False not_False_eq_True)
      (simp add: comp_def list_all_iff)
  then show ?thesis using f by (intro exI [of _ "map f3 w"]) (simp add: list_all2_conv_all_nth)
qed

lemma ready_loop:
  "w \<noteq> [] \<Longrightarrow> list_all (\<lambda>q. ready q \<and> length (aq_calls q) = n) w \<Longrightarrow>
    \<exists>w'. finalize_loop (n + m) blocking w = Some (Inr (replicate n 0, w')) \<and> list_all2 (\<lambda>q q'. aq_calls q' = []
      \<and> aq_written q' = aq_written q \<and> aq_finalized q' = aq_finalized q @ calls_finalizers q) w w'"
proof (induction n arbitrary: w)
  case 0
  have "finalize_turn blocking w = Empty" using 0(2) by (auto simp: finalize_turn_def list_all_iff)
  then have "finalize_loop (0 + m) blocking w = Some (Inr ([], w))" by (cases m) simp_all
  moreover have "list_all2 (\<lambda>q q'. aq_calls q' = [] \<and> aq_written q' = aq_written q
      \<and> aq_finalized q' = aq_finalized q @ calls_finalizers q) w w"
    using 0(2) by (auto simp: list_all2_same list_all_iff calls_finalizers_def)
  ultimately show ?case by auto
next
  case (Suc n)
  have "list_all (\<lambda>q. ready q \<and> aq_calls q \<noteq> []) w" using Suc(3) by (auto simp: list_all_iff)
  then obtain w1 where turn: "finalize_turn blocking w = Finalized 0 w1"
    and w1: "list_all2 (\<lambda>q q'. ready q' \<and> aq_calls q' = tl (aq_calls q)
      \<and> aq_written q' = aq_written q \<and> aq_finalized q' @ calls_finalizers q' = aq_finalized q @ calls_finalizers q) w w1"
    using ready_world_turn [OF Suc(2), of blocking] by blast
  have "w1 \<noteq> []" using w1 Suc(2) by auto
  moreover have "list_all (\<lambda>q. ready q \<and> length (aq_calls q) = n) w1"
    using w1 Suc(3) by (auto simp: list_all2_conv_all_nth list_all_length)
  ultimately obtain w2 where "finalize_loop (n + m) blocking w1 = Some (Inr (replicate n 0, w2))"
    and w2: "list_all2 (\<lambda>q q'. aq_calls q' = [] \<and> aq_written q' = aq_written q
      \<and> aq_finalized q' = aq_finalized q @ calls_finalizers q) w1 w2"
    using Suc(1) by blast
  then have "finalize_loop (Suc n + m) blocking w = Some (Inr (replicate (Suc n) 0, w2))" using turn by simp
  moreover have "list_all2 (\<lambda>q q'. aq_calls q' = [] \<and> aq_written q' = aq_written q
      \<and> aq_finalized q' = aq_finalized q @ calls_finalizers q) w w2"
    using w1 w2 by (auto simp: list_all2_conv_all_nth)
  ultimately show ?case by blast
qed

lemma ready_drain:
  assumes "w \<noteq> []" and "list_all (\<lambda>q. ready q \<and> length (aq_calls q) = n) w"
  shows "\<exists>w'. maybe_finalize_async_calls blocking w = Some (Inr (replicate n 0, w')) \<and> list_all2 (\<lambda>q q'. aq_calls q' = []
      \<and> aq_written q' = aq_written q \<and> aq_finalized q' = aq_finalized q @ calls_finalizers q) w w'"
proof -
  obtain q w0 where w: "w = q # w0" using assms(1) by (cases w) auto
  then have "sum_list (map (\<lambda>q. length (aq_calls q)) w) = n + sum_list (map (\<lambda>q. length (aq_calls q)) w0)"
    using assms(2) by simp
  then show ?thesis using ready_loop [OF assms] by (simp add: maybe_finalize_async_calls_def)
qed

text \<open>The finalizers that have run and those of the calls in the queue are those of all requests.\<close>

lemma rank_ok_finalizers:
  assumes "rank_ok F R q"
  shows "aq_finalized q @ calls_finalizers q = concat (map ar_finalize_fns R)" and "length (aq_calls q) = length R - F"
proof -
  have "map (\<lambda>k. R ! k) [F..<length R] = drop F R" by (rule nth_equalityI) simp_all
  moreover have "calls_finalizers q = concat (map ar_finalize_fns (map (\<lambda>k. R ! k) [F..<length R]))"
    using assms by (simp add: rank_ok_def calls_finalizers_def comp_def freeze_def)
  ultimately have "calls_finalizers q = concat (map ar_finalize_fns (drop F R))" by simp
  then show "aq_finalized q @ calls_finalizers q = concat (map ar_finalize_fns R)"
    using assms by (simp add: rank_ok_def flip: concat_append map_append)
  show "length (aq_calls q) = length R - F" using assms by (simp add: rank_ok_def)
qed

lemma rank_ok_ready:
  assumes "rank_ok F R q" and "list_all (\<lambda>r. ar_call_idx r = 0) R" and "length (aq_written q) = length R"
  shows "ready q"
proof (cases "R = []")
  case False
  then obtain c where c: "aq_callers q = [c]" "caller_ok F R (aq_written q) c" using assms(1) by (auto simp: rank_ok_def)
  then show ?thesis
    using assms by (auto simp: ready_def rank_ok_def caller_ok_def freeze_def list_all_length)
qed (use assms(1) in \<open>simp add: rank_ok_def ready_def\<close>)

lemma rank_ok_abort:
  assumes "rank_ok F R q" and "list_all (\<lambda>r. ar_call_idx r = 0) R"
  shows "ready (close_queue True q)" and "aq_calls (close_queue True q) = aq_calls q"
    and "aq_written (close_queue True q) = aq_written q" and "aq_finalized (close_queue True q) = aq_finalized q"
proof -
  have "ready (close_queue True q) \<and> aq_calls (close_queue True q) = aq_calls q
      \<and> aq_written (close_queue True q) = aq_written q \<and> aq_finalized (close_queue True q) = aq_finalized q"
  proof (cases "R = []")
    case True
    then show ?thesis using assms(1) by (simp add: rank_ok_def ready_def close_queue_def)
  next
    case False
    then obtain c where c: "aq_callers q = [c]" "caller_ok F R (aq_written q) c" "aq_persistent_caller q = Some 0"
      using assms(1) by (auto simp: rank_ok_def)
    then show ?thesis
      using assms by (auto simp: ready_def rank_ok_def caller_ok_def freeze_def list_all_length close_queue_def close_caller_def)
  qed
  then show "ready (close_queue True q)" and "aq_calls (close_queue True q) = aq_calls q"
    and "aq_written (close_queue True q) = aq_written q" and "aq_finalized (close_queue True q) = aq_finalized q"
    by simp_all
qed

text \<open>
  C22: once the workers are done, one call drains the queue. With persistent callers, when the jobs of
  all requests have been written on all ranks, one call of \<open>maybe_finalize_async_calls\<close>, blocking or
  not, returns on all ranks, leaves no pending call, and every rank has run the finalizers of all its
  requests. The indices it returns are those the requests were constructed with, the default 0, and
  not those that \<open>schedule_async_request\<close> returned.
\<close>

theorem drained_calls_are_finalized:
  assumes "async_step\<^sup>*\<^sup>* ([], replicate n (new_queue True)) (h, w)" and "n \<noteq> 0"
    and "list_all (list_all (\<lambda>r. ar_call_idx r = 0)) h" and "list_all (\<lambda>rs. length rs = n) h"
    and "list_all (\<lambda>q. length (aq_written q) = length h) w"
  shows "\<exists>k w'. maybe_finalize_async_calls blocking w = Some (Inr (replicate k 0, w')) \<and> length w' = n
    \<and> (\<forall>r < n. aq_calls (w' ! r) = [] \<and> aq_finalized (w' ! r) = concat (map ar_finalize_fns (rank_requests r h)))"
proof -
  obtain F where len: "length w = n" and ok: "world_ok F h w" using world_ok_reach [OF assms(1)] by auto
  have zero: "list_all (\<lambda>r. ar_call_idx r = 0) (rank_requests r h)" if "r < n" for r
    using assms(3,4) that by (auto simp: list_all_iff rank_requests_def)
  have q: "rank_ok F (rank_requests r h) (w ! r)" if "r < n" for r using ok len that by (simp add: world_ok_def)
  have "list_all (\<lambda>q. ready q \<and> length (aq_calls q) = length h - F) w"
    using rank_ok_ready [OF q zero] rank_ok_finalizers(2) [OF q] assms(5) len by (simp add: list_all_length rank_requests_def)
  from ready_drain [OF _ this, of blocking] obtain w' where run: "maybe_finalize_async_calls blocking w = Some (Inr (replicate (length h - F) 0, w'))"
    and w': "list_all2 (\<lambda>q q'. aq_calls q' = [] \<and> aq_written q' = aq_written q
      \<and> aq_finalized q' = aq_finalized q @ calls_finalizers q) w w'"
    using assms(2) len by auto
  have "length w' = n \<and> (\<forall>r < n. aq_calls (w' ! r) = [] \<and> aq_finalized (w' ! r) = concat (map ar_finalize_fns (rank_requests r h)))"
    using w' len rank_ok_finalizers(1) [OF q] by (simp add: list_all2_conv_all_nth)
  then show ?thesis using run by blast
qed

text \<open>
  C23: an aborted save is finalized by the next call. Aborting the queues kills the workers and keeps
  the pending calls: the next call of \<open>maybe_finalize_async_calls\<close> runs the finalizers of every
  request on every rank, whatever part of the jobs the workers had written, and nothing more is written.
\<close>

theorem aborted_saves_are_finalized:
  assumes "async_step\<^sup>*\<^sup>* ([], replicate n (new_queue True)) (h, w)" and "n \<noteq> 0"
    and "list_all (list_all (\<lambda>r. ar_call_idx r = 0)) h" and "list_all (\<lambda>rs. length rs = n) h"
  shows "\<exists>k w'. maybe_finalize_async_calls blocking (map (close_queue True) w) = Some (Inr (replicate k 0, w')) \<and> length w' = n
    \<and> (\<forall>r < n. aq_calls (w' ! r) = [] \<and> aq_written (w' ! r) = aq_written (w ! r)
         \<and> aq_finalized (w' ! r) = concat (map ar_finalize_fns (rank_requests r h)))"
proof -
  obtain F where len: "length w = n" and ok: "world_ok F h w" using world_ok_reach [OF assms(1)] by auto
  have zero: "list_all (\<lambda>r. ar_call_idx r = 0) (rank_requests r h)" if "r < n" for r
    using assms(3,4) that by (auto simp: list_all_iff rank_requests_def)
  have q: "rank_ok F (rank_requests r h) (w ! r)" if "r < n" for r using ok len that by (simp add: world_ok_def)
  note abort = rank_ok_abort [OF q zero]
  have "list_all (\<lambda>q. ready q \<and> length (aq_calls q) = length h - F) (map (close_queue True) w)"
    using abort rank_ok_finalizers(2) [OF q] len by (simp add: list_all_length rank_requests_def)
  from ready_drain [OF _ this, of blocking] obtain w' where
    run: "maybe_finalize_async_calls blocking (map (close_queue True) w) = Some (Inr (replicate (length h - F) 0, w'))"
    and w': "list_all2 (\<lambda>q q'. aq_calls q' = [] \<and> aq_written q' = aq_written q
      \<and> aq_finalized q' = aq_finalized q @ calls_finalizers q) (map (close_queue True) w) w'"
    using assms(2) len by auto
  have pending: "calls_finalizers (close_queue True (w ! r)) = calls_finalizers (w ! r)" if "r < n" for r
    using abort(2) [OF that that] by (simp add: calls_finalizers_def)
  have "length w' = n \<and> (\<forall>r < n. aq_calls (w' ! r) = [] \<and> aq_written (w' ! r) = aq_written (w ! r)
      \<and> aq_finalized (w' ! r) = concat (map ar_finalize_fns (rank_requests r h)))"
    using w' len rank_ok_finalizers(1) [OF q] abort(3,4) pending by (simp add: list_all2_conv_all_nth)
  then show ?thesis using run by blast
qed

section \<open>Requests without a function\<close>

text \<open>
  a request without a function is never done while the worker lives. If the first call of a rank
  with a live idle persistent worker has no function, nothing was queued for it: the worker's steps
  change nothing, a blocking call waits, and a pass that does not block finds it active and changes
  nothing either.
\<close>

theorem noop_request_is_never_done:
  assumes "aq_persistent q" and "aq_persistent_caller q = Some c" and "c < length (aq_callers q)" and "aq_calls q = []"
    and "aq_callers q ! c = (new_caller PersistentCaller)\<lparr>ac_process := True\<rparr>"
    and "ar_async_fn r = None" and "q' = snd (schedule_async_request r q)"
  shows "worker_step c q' = q' \<and> maybe_finalize_async_calls True [q'] = None \<and> maybe_finalize_async_calls False [q'] = Some (Inr ([], [q']))"
proof -
  have q': "q' = q\<lparr>aq_call_idx := aq_call_idx q + 1, aq_calls := [(aq_call_idx q + 1, c, freeze r)]\<rparr>"
    using assms by (simp add: schedule_async_request_def get_async_caller_def schedule_async_call_def freeze_def Let_def list_update_same_conv)
  have caller: "(aq_callers q)[c := (new_caller PersistentCaller)\<lparr>ac_process := True\<rparr>] = aq_callers q"
    using assms(3,5) by (simp add: list_update_same_conv)
  show ?thesis
    using assms(5) caller
    by (simp add: q' worker_step_def worker_job_def maybe_finalize_async_calls_def finalize_turn_def
        rank_poll_def poll_caller_def rank_settle_def settle_caller_def new_caller_def)
qed

section \<open>A run\<close>

text \<open>Two ranks, one request each: scheduled, written on rank 0, written on rank 1, finalized.\<close>

definition sample_round :: "(nat, nat) async_request list" where
  "sample_round = map (\<lambda>j. \<lparr>ar_async_fn = Some j, ar_finalize_fns = [100 + j], ar_is_frozen = False, ar_call_idx = 0\<rparr>) [10, 11]"

definition sample_scheduled :: "(nat, nat) async_queue list" where
  "sample_scheduled = map2 (\<lambda>r q. snd (schedule_async_request r q)) sample_round (replicate 2 (new_queue True))"

definition sample_half :: "(nat, nat) async_queue list" where
  "sample_half = sample_scheduled[0 := worker_step 0 (sample_scheduled ! 0)]"

definition sample_written :: "(nat, nat) async_queue list" where
  "sample_written = sample_half[1 := worker_step 0 (sample_half ! 1)]"

definition sample_final :: "(nat, nat) async_queue list" where
  "sample_final = (case finalize_turn False sample_written of Finalized i w \<Rightarrow> w | _ \<Rightarrow> [])"

lemma sample_half_reach: "async_step\<^sup>*\<^sup>* ([], replicate 2 (new_queue True)) ([sample_round], sample_half)"
proof -
  have "async_step ([], replicate 2 (new_queue True)) ([] @ [sample_round], sample_scheduled)"
    unfolding sample_scheduled_def by (rule async_step.schedule; code_simp)
  moreover have "async_step ([sample_round], sample_scheduled) ([sample_round], sample_half)"
    unfolding sample_half_def by (rule async_step.work; code_simp)
  ultimately show ?thesis by (auto intro: converse_rtranclp_into_rtranclp)
qed

lemma sample_written_reach: "async_step\<^sup>*\<^sup>* ([], replicate 2 (new_queue True)) ([sample_round], sample_written)"
proof -
  have "async_step ([sample_round], sample_half) ([sample_round], sample_written)"
    unfolding sample_written_def by (rule async_step.work; code_simp)
  then show ?thesis using sample_half_reach by (rule rtranclp.rtrancl_into_rtrancl [rotated])
qed

lemma sample_final_reach: "async_step\<^sup>*\<^sup>* ([], replicate 2 (new_queue True)) ([sample_round], sample_final)"
proof -
  have "finalize_turn False sample_written = Finalized 0 sample_final" by code_simp
  then have "async_step ([sample_round], sample_written) ([sample_round], sample_final)" by (rule async_step.finalized)
  then show ?thesis using sample_written_reach by (rule rtranclp.rtrancl_into_rtrancl [rotated])
qed

theorem finalized_when_written_everywhere_witness:
  "map aq_finalized sample_final = [[110], [111]] \<and> length sample_final = 2 \<and> (\<exists>F. \<forall>r < 2. F \<le> length [sample_round]
    \<and> aq_finalized (sample_final ! r) = concat (map ar_finalize_fns (take F (rank_requests r [sample_round])))
    \<and> take F (aq_written (sample_final ! r)) = take F (jobs_of (rank_requests r [sample_round]))
    \<and> F \<le> length (aq_written (sample_final ! r)))"
proof (rule conjI)
  show "map aq_finalized sample_final = [[110], [111]]" by code_simp
qed (rule finalized_when_written_everywhere [OF sample_final_reach])

theorem drained_calls_are_finalized_witness:
  "map aq_finalized sample_written = [[], []] \<and> (\<exists>k w'. maybe_finalize_async_calls False sample_written = Some (Inr (replicate k 0, w'))
    \<and> length w' = 2
    \<and> (\<forall>r < 2. aq_calls (w' ! r) = [] \<and> aq_finalized (w' ! r) = concat (map ar_finalize_fns (rank_requests r [sample_round]))))"
proof (rule conjI)
  show "map aq_finalized sample_written = [[], []]" by code_simp
qed (rule drained_calls_are_finalized [OF sample_written_reach]; code_simp)

theorem aborted_saves_are_finalized_witness:
  "map aq_written sample_half = [[10], []]
    \<and> (\<exists>k w'. maybe_finalize_async_calls False (map (close_queue True) sample_half) = Some (Inr (replicate k 0, w')) \<and> length w' = 2
    \<and> (\<forall>r < 2. aq_calls (w' ! r) = [] \<and> aq_written (w' ! r) = aq_written (sample_half ! r)
         \<and> aq_finalized (w' ! r) = concat (map ar_finalize_fns (rank_requests r [sample_round]))))"
proof (rule conjI)
  show "map aq_written sample_half = [[10], []]" by code_simp
qed (rule aborted_saves_are_finalized [OF sample_half_reach]; code_simp)

theorem noop_request_is_never_done_witness:
  "\<exists>q :: (nat, nat) async_queue. worker_step 0 q = q \<and> aq_calls q \<noteq> [] \<and> maybe_finalize_async_calls True [q] = None
    \<and> maybe_finalize_async_calls False [q] = Some (Inr ([], [q]))"
proof -
  let ?r = "\<lparr>ar_async_fn = None, ar_finalize_fns = [7], ar_is_frozen = False, ar_call_idx = 0\<rparr> :: (nat, nat) async_request"
  let ?q = "new_queue True\<lparr>aq_callers := [new_caller PersistentCaller\<lparr>ac_process := True\<rparr>], aq_persistent_caller := Some 0\<rparr> :: (nat, nat) async_queue"
  have "aq_calls (snd (schedule_async_request ?r ?q)) \<noteq> []" by code_simp
  then show ?thesis
    using noop_request_is_never_done [where q = ?q and c = 0 and r = ?r] by (auto simp: new_queue_def)
qed

text \<open>
  With temporal callers a blocking pass does not look at what the ranks agree on: a rank that learns
  that another is still writing waits for its own process, answers that the call is done and runs the
  finalizers.
\<close>

lemma temporal_blocking_ignores_the_others:
  assumes "aq_calls q = (k, c, r) # calls" and "c < length (aq_callers q)" and "ac_kind (aq_callers q ! c) = TemporalCaller"
  shows "\<exists>q1. rank_settle True False q = (True, q1) \<and> aq_written q1 = aq_written q @ map snd (ac_queue (aq_callers q ! c))
    \<and> aq_finalized (snd (rank_finalize q1)) = aq_finalized q @ ar_finalize_fns r"
  using assms by (simp add: rank_settle_def settle_caller_def rank_finalize_def)

end
