(* ===== verification/Coalescer.thy ===== *)
theory Coalescer
  imports NvrxPrelude
begin

text \<open>
  The cache of log analyses (\<open>attribution/coalescing/coalescer.py\<close>): requests for the same file
  share one computation, and results are kept with the modification time and size of the file. No
  critical section of the code waits inside, so the lock is free whenever a coroutine runs, and the
  code between two waits is one step here, with one reading of the clocks. A computed value is
  opaque; files are a function from paths to modification time and size.
\<close>

section \<open>Data\<close>

text \<open>\<open>TimeoutPayload t\<close> is what \<open>logsage_timeout_payload\<close> makes of the message with the timeout \<open>t\<close>.\<close>

datatype 'r payload = NoResult | TimeoutPayload real | Analysis 'r

record 'r cache_entry =
  ce_result :: "'r payload"
  ce_cached_at :: real
  ce_file_mtime :: "real option"
  ce_file_size :: "int option"

record in_flight_entry =
  ie_future :: nat
  ie_started_at :: real

datatype 'e request_error = ComputeError 'e | StuckTimeout real | WaitTimeout | RequestCancelled

datatype ('r, 'e) future_state =
  PendingFuture | FutureResult "'r payload" | FutureError "'e request_error" | FutureCancelled

record coalescer_stats =
  cs_cache_hits :: nat
  cs_cache_misses :: nat
  cs_cache_invalidated :: nat
  cs_coalesced_requests :: nat
  cs_total_computes :: nat
  cs_compute_errors :: nat
  cs_compute_timeouts :: nat
  cs_total_submitted :: nat
  cs_total_in_flight :: nat
  cs_cache_expired_cleaned :: nat
  cs_submitted_expired_cleaned :: nat
  cs_in_flight_expired_cleaned :: nat
  cs_cache_imported :: nat
  cs_cache_import_skipped_changed :: nat
  cs_cache_import_skipped_old_file :: nat

definition zero_stats :: coalescer_stats where
  "zero_stats = \<lparr>cs_cache_hits = 0, cs_cache_misses = 0, cs_cache_invalidated = 0, cs_coalesced_requests = 0,
     cs_total_computes = 0, cs_compute_errors = 0, cs_compute_timeouts = 0, cs_total_submitted = 0,
     cs_total_in_flight = 0, cs_cache_expired_cleaned = 0, cs_submitted_expired_cleaned = 0,
     cs_in_flight_expired_cleaned = 0, cs_cache_imported = 0, cs_cache_import_skipped_changed = 0,
     cs_cache_import_skipped_old_file = 0\<rparr>"

text \<open>The futures are objects of the event loop; entries and requests hold them by number.\<close>

record ('r, 'e) coalescer =
  co_cache :: "(string, 'r cache_entry) dict"
  co_in_flight :: "(string, in_flight_entry) dict"
  co_submitted :: "(string, real) dict"
  co_cleanup_cadence :: real
  co_grace_period :: real
  co_submitted_ttl :: real
  co_max_file_age :: real
  co_last_cleanup :: real
  co_compute_timeout :: real
  co_stats :: coalescer_stats
  co_futures :: "('r, 'e) future_state list"

definition new_coalescer :: "real \<Rightarrow> real \<Rightarrow> real \<Rightarrow> real \<Rightarrow> real \<Rightarrow> real \<Rightarrow> ('r, 'e) coalescer" where
  "new_coalescer cleanup_cadence_minutes grace_period_seconds submitted_ttl_hours compute_timeout max_file_age_days now =
     \<lparr>co_cache = [], co_in_flight = [], co_submitted = [], co_cleanup_cadence = cleanup_cadence_minutes * 60,
      co_grace_period = grace_period_seconds, co_submitted_ttl = submitted_ttl_hours * 3600,
      co_max_file_age = max_file_age_days * 86400, co_last_cleanup = now, co_compute_timeout = compute_timeout,
      co_stats = zero_stats, co_futures = []\<rparr>"

type_synonym files = "string \<Rightarrow> (real \<times> int) option"

definition get_file_metadata :: "files \<Rightarrow> string \<Rightarrow> real option \<times> int option" where
  "get_file_metadata fs path = (map_option fst (fs path), map_option snd (fs path))"

section \<open>Cleanup\<close>

definition future_done :: "('r, 'e) coalescer \<Rightarrow> nat \<Rightarrow> bool" where
  "future_done c f \<longleftrightarrow> (case co_futures c ! f of PendingFuture \<Rightarrow> False | _ \<Rightarrow> True)"

definition set_future :: "nat \<Rightarrow> ('r, 'e) future_state \<Rightarrow> ('r, 'e) coalescer \<Rightarrow> ('r, 'e) coalescer" where
  "set_future f st c = (if future_done c f then c else c\<lparr>co_futures := (co_futures c)[f := st]\<rparr>)"

definition collect_expired_keys :: "real \<Rightarrow> real \<Rightarrow> ('r, 'e) coalescer \<Rightarrow> string list \<times> string list \<times> string list \<times> string list" where
  "collect_expired_keys now now_timestamp c =
     (let stuck_threshold = co_compute_timeout c * 2;
          slow = filter (\<lambda>(k, e). now - ie_started_at e \<ge> stuck_threshold) (co_in_flight c)
      in (map fst (filter (\<lambda>(k, e). case ce_file_mtime e of None \<Rightarrow> False | Some m \<Rightarrow> now_timestamp - m \<ge> co_max_file_age c) (co_cache c)),
          map fst (filter (\<lambda>(k, t). now - t \<ge> co_submitted_ttl c) (co_submitted c)),
          map fst (filter (\<lambda>(k, e). future_done c (ie_future e)) slow),
          map fst (filter (\<lambda>(k, e). \<not> future_done c (ie_future e)) slow)))"

text \<open>\<open>pop(key, None)\<close> for a list of keys: what was there, and what is left.\<close>

fun pop_keys :: "'k list \<Rightarrow> ('k, 'v) dict \<Rightarrow> ('k \<times> 'v) list \<times> ('k, 'v) dict" where
  "pop_keys [] d = ([], d)"
| "pop_keys (k # ks) d =
     (case map_of d k of
        None \<Rightarrow> pop_keys ks d
      | Some v \<Rightarrow> let (popped, d') = pop_keys ks (AList.delete k d) in ((k, v) # popped, d'))"

definition delete_expired_keys ::
  "string list \<times> string list \<times> string list \<times> string list \<Rightarrow> ('r, 'e) coalescer \<Rightarrow> nat \<times> ('r, 'e) coalescer" where
  "delete_expired_keys expired c =
     (let (expired_cache, expired_submitted, leaked_in_flight, stuck_in_flight) = expired;
          (popped_cache, cache) = pop_keys expired_cache (co_cache c);
          (popped_submitted, submitted) = pop_keys expired_submitted (co_submitted c);
          (leaked, in_flight) = pop_keys leaked_in_flight (co_in_flight c);
          (stuck, in_flight) = pop_keys stuck_in_flight in_flight;
          c = c\<lparr>co_cache := cache, co_submitted := submitted, co_in_flight := in_flight\<rparr>;
          c = fold (\<lambda>(k, e). set_future (ie_future e) (FutureError (StuckTimeout (co_compute_timeout c * 2)))) stuck c;
          s = co_stats c
      in (length popped_cache + length popped_submitted + length leaked + length stuck,
          c\<lparr>co_stats := s\<lparr>cs_cache_expired_cleaned := cs_cache_expired_cleaned s + length popped_cache,
                         cs_submitted_expired_cleaned := cs_submitted_expired_cleaned s + length popped_submitted,
                         cs_in_flight_expired_cleaned := cs_in_flight_expired_cleaned s + (length leaked + length stuck)\<rparr>\<rparr>))"

definition run_cleanup :: "real \<Rightarrow> real \<Rightarrow> ('r, 'e) coalescer \<Rightarrow> ('r, 'e) coalescer" where
  "run_cleanup now now_timestamp c =
     (if now - co_last_cleanup c \<ge> co_cleanup_cadence c then
        let c = c\<lparr>co_last_cleanup := now\<rparr>
        in snd (delete_expired_keys (collect_expired_keys now now_timestamp c) c)
      else c)"

section \<open>Lookup\<close>

definition cache_hit :: "string \<Rightarrow> 'r cache_entry \<Rightarrow> ('r, 'e) coalescer \<Rightarrow> 'r payload option \<times> ('r, 'e) coalescer" where
  "cache_hit key e c =
     (Some (ce_result e), c\<lparr>co_stats := (co_stats c)\<lparr>cs_cache_hits := cs_cache_hits (co_stats c) + 1\<rparr>,
                            co_submitted := AList.delete key (co_submitted c)\<rparr>)"

definition invalidate :: "string \<Rightarrow> ('r, 'e) coalescer \<Rightarrow> 'r payload option \<times> ('r, 'e) coalescer" where
  "invalidate key c =
     (None, c\<lparr>co_cache := AList.delete key (co_cache c),
              co_stats := (co_stats c)\<lparr>cs_cache_invalidated := cs_cache_invalidated (co_stats c) + 1\<rparr>\<rparr>)"

text \<open>None is the miss.\<close>

definition get_valid_cached_result ::
  "files \<Rightarrow> string \<Rightarrow> real \<Rightarrow> ('r, 'e) coalescer \<Rightarrow> 'r payload option \<times> ('r, 'e) coalescer" where
  "get_valid_cached_result fs key now c =
     (case map_of (co_cache c) key of
        None \<Rightarrow> (None, c)
      | Some e \<Rightarrow>
          if now - ce_cached_at e < co_grace_period c then cache_hit key e c
          else if ce_file_mtime e \<noteq> None \<and> ce_file_size e \<noteq> None then
            if get_file_metadata fs key = (ce_file_mtime e, ce_file_size e) then cache_hit key e c else invalidate key c
          else if ce_file_mtime e \<noteq> None \<and> ce_file_size e = None then invalidate key c
          else cache_hit key e c)"

definition get_inflight :: "('r, 'e) coalescer \<Rightarrow> nat \<times> string list" where
  "get_inflight c = (length (co_in_flight c), map fst (co_in_flight c))"

datatype 'r peek_result = PeekCompleted "'r payload" | PeekInFlight | PeekPending

definition peek :: "files \<Rightarrow> real \<Rightarrow> string \<Rightarrow> ('r, 'e) coalescer \<Rightarrow> 'r peek_result \<times> ('r, 'e) coalescer" where
  "peek fs now key c =
     (case get_valid_cached_result fs key now c of
        (Some r, c) \<Rightarrow> (PeekCompleted r, c)
      | (None, c) \<Rightarrow> (if map_of (co_in_flight c) key \<noteq> None then PeekInFlight else PeekPending, c))"

definition track_submission :: "real \<Rightarrow> string \<Rightarrow> ('r, 'e) coalescer \<Rightarrow> ('r, 'e) coalescer" where
  "track_submission now key c =
     c\<lparr>co_submitted := AList.update key now (co_submitted c),
       co_stats := (co_stats c)\<lparr>cs_total_submitted := cs_total_submitted (co_stats c) + 1\<rparr>\<rparr>"

datatype submission_status = SubmissionCached | SubmissionInFlight | SubmissionPending

text \<open>The submitted keys with their age, before it is rounded to a tenth, and their status.\<close>

definition get_submitted :: "real \<Rightarrow> ('r, 'e) coalescer \<Rightarrow> (string \<times> real \<times> submission_status) list" where
  "get_submitted now c =
     map (\<lambda>(key, submit_time). (key, now - submit_time,
            if map_of (co_cache c) key \<noteq> None then SubmissionCached
            else if map_of (co_in_flight c) key \<noteq> None then SubmissionInFlight
            else SubmissionPending)) (co_submitted c)"

section \<open>A request\<close>

text \<open>
  What a request does first: it returns a cached result, waits for the future of the computation in
  flight, or computes, with a new future and the metadata that the file has before.
\<close>

datatype 'r request_start = CacheHit "'r payload" | WaitFor nat | Compute nat "real option" "int option"

definition start_compute :: "files \<Rightarrow> real \<Rightarrow> string \<Rightarrow> ('r, 'e) coalescer \<Rightarrow> 'r request_start \<times> ('r, 'e) coalescer" where
  "start_compute fs now key c =
     (let f = length (co_futures c); s = co_stats c; (mtime, fsize) = get_file_metadata fs key
      in (Compute f mtime fsize,
          c\<lparr>co_futures := co_futures c @ [PendingFuture],
            co_in_flight := AList.update key \<lparr>ie_future = f, ie_started_at = now\<rparr> (co_in_flight c),
            co_submitted := AList.delete key (co_submitted c),
            co_stats := s\<lparr>cs_cache_misses := cs_cache_misses s + 1, cs_total_in_flight := cs_total_in_flight s + 1,
                          cs_total_computes := cs_total_computes s + 1\<rparr>\<rparr>))"

definition get_or_compute :: "files \<Rightarrow> real \<Rightarrow> real \<Rightarrow> string \<Rightarrow> ('r, 'e) coalescer \<Rightarrow> 'r request_start \<times> ('r, 'e) coalescer" where
  "get_or_compute fs now now_timestamp key c =
     (case get_valid_cached_result fs key now (run_cleanup now now_timestamp c) of
        (Some r, c) \<Rightarrow> (CacheHit r, c)
      | (None, c) \<Rightarrow>
          (case map_of (co_in_flight c) key of
             Some e \<Rightarrow>
               (WaitFor (ie_future e),
                c\<lparr>co_stats := (co_stats c)\<lparr>cs_coalesced_requests := cs_coalesced_requests (co_stats c) + 1\<rparr>\<rparr>)
           | None \<Rightarrow> start_compute fs now key c))"

text \<open>How the computation ends under \<open>wait_for\<close>, and what its owner does then.\<close>

datatype ('r, 'e) compute_outcome = Computed "'r payload" | ComputeTimedOut | ComputeCancelled | ComputeRaised 'e

definition store_result :: "string \<Rightarrow> 'r cache_entry \<Rightarrow> ('r, 'e) coalescer \<Rightarrow> ('r, 'e) coalescer" where
  "store_result key e c =
     c\<lparr>co_cache := AList.update key e (co_cache c), co_in_flight := AList.delete key (co_in_flight c)\<rparr>"

definition compute_failed :: "string \<Rightarrow> ('r, 'e) coalescer \<Rightarrow> ('r, 'e) coalescer" where
  "compute_failed key c =
     c\<lparr>co_stats := (co_stats c)\<lparr>cs_compute_errors := cs_compute_errors (co_stats c) + 1\<rparr>,
       co_in_flight := AList.delete key (co_in_flight c)\<rparr>"

definition finish_compute ::
  "real \<Rightarrow> string \<Rightarrow> nat \<Rightarrow> real option \<Rightarrow> int option \<Rightarrow> ('r, 'e) compute_outcome \<Rightarrow> ('r, 'e) coalescer
    \<Rightarrow> ('e request_error + 'r payload) \<times> ('r, 'e) coalescer" where
  "finish_compute now key f mtime fsize outcome c =
     (case outcome of
        Computed r \<Rightarrow>
          (Inr r, set_future f (FutureResult r)
             (store_result key \<lparr>ce_result = r, ce_cached_at = now, ce_file_mtime = mtime, ce_file_size = fsize\<rparr> c))
      | ComputeTimedOut \<Rightarrow>
          let r = TimeoutPayload (co_compute_timeout c); s = co_stats c
          in (Inr r, set_future f (FutureResult r)
               (store_result key \<lparr>ce_result = r, ce_cached_at = now, ce_file_mtime = mtime, ce_file_size = None\<rparr>
                 (c\<lparr>co_stats := s\<lparr>cs_compute_timeouts := cs_compute_timeouts s + 1\<rparr>\<rparr>)))
      | ComputeCancelled \<Rightarrow> (Inl RequestCancelled, set_future f FutureCancelled (compute_failed key c))
      | ComputeRaised e \<Rightarrow> (Inl (ComputeError e), set_future f (FutureError (ComputeError e)) (compute_failed key c)))"

text \<open>
  A request that waits: woken by the future, out of time (a minute more than the computation has), or
  cancelled. None while it waits on.
\<close>

datatype wait_event = FutureWakes | WaitTimesOut | WaitCancelled

definition wait_for_result :: "wait_event \<Rightarrow> ('r, 'e) future_state \<Rightarrow> ('e request_error + 'r payload) option" where
  "wait_for_result ev st =
     (case ev of
        FutureWakes \<Rightarrow>
          (case st of PendingFuture \<Rightarrow> None | FutureResult r \<Rightarrow> Some (Inr r) | FutureError e \<Rightarrow> Some (Inl e)
             | FutureCancelled \<Rightarrow> Some (Inl RequestCancelled))
      | WaitTimesOut \<Rightarrow> Some (Inl WaitTimeout)
      | WaitCancelled \<Rightarrow>
          (case st of FutureResult r \<Rightarrow> Some (Inr r) | FutureError e \<Rightarrow> Some (Inl e) | _ \<Rightarrow> Some (Inl RequestCancelled)))"

section \<open>Statistics and persistence\<close>

record compute_stats =
  cm_total :: nat
  cm_errors :: nat
  cm_timeouts :: nat

definition get_compute_stats :: "('r, 'e) coalescer \<Rightarrow> compute_stats" where
  "get_compute_stats c =
     \<lparr>cm_total = cs_total_computes (co_stats c), cm_errors = cs_compute_errors (co_stats c),
      cm_timeouts = cs_compute_timeouts (co_stats c)\<rparr>"

text \<open>The counts of \<open>get_stats\<close> that are computed and not copied: sizes, and the total of requests.\<close>

definition get_stats_totals :: "('r, 'e) coalescer \<Rightarrow> nat \<times> nat \<times> nat \<times> nat" where
  "get_stats_totals c =
     (let s = co_stats c
      in (length (co_cache c), length (co_submitted c), length (co_in_flight c),
          cs_cache_hits s + cs_cache_misses s + cs_coalesced_requests s))"

text \<open>An exported entry; a field that is absent is None, as \<open>get\<close> reads it.\<close>

record 'r exported_entry =
  xe_key :: string
  xe_result :: "'r payload"
  xe_file_mtime :: "real option"
  xe_file_size :: "int option"

definition export_cache :: "('r, 'e) coalescer \<Rightarrow> 'r exported_entry list" where
  "export_cache c =
     map (\<lambda>(key, e). \<lparr>xe_key = key, xe_result = ce_result e, xe_file_mtime = ce_file_mtime e, xe_file_size = ce_file_size e\<rparr>)
       (co_cache c)"

datatype import_verdict = ImportIgnored | ImportChanged | ImportOldFile | Imported

definition import_verdict :: "real \<Rightarrow> files \<Rightarrow> real \<Rightarrow> 'r exported_entry \<Rightarrow> import_verdict" where
  "import_verdict now_timestamp fs max_file_age x =
     (if xe_key x = [] \<or> xe_result x = NoResult then ImportIgnored
      else case (xe_file_mtime x, xe_file_size x) of
        (Some mtime, Some fsize) \<Rightarrow>
          if now_timestamp - mtime \<ge> max_file_age then ImportOldFile
          else (case fs (xe_key x) of
                  None \<Rightarrow> ImportChanged
                | Some (current_mtime, current_size) \<Rightarrow>
                    if current_mtime \<noteq> mtime \<or> current_size \<noteq> fsize then ImportChanged else Imported)
      | _ \<Rightarrow> ImportChanged)"

definition import_cache :: "real \<Rightarrow> real \<Rightarrow> files \<Rightarrow> 'r exported_entry list \<Rightarrow> ('r, 'e) coalescer \<Rightarrow> nat \<times> ('r, 'e) coalescer" where
  "import_cache now now_timestamp fs entries c =
     (let verdict = import_verdict now_timestamp fs (co_max_file_age c);
          imported = filter (\<lambda>x. verdict x = Imported) entries;
          cache = fold (\<lambda>x. AList.update (xe_key x)
                    \<lparr>ce_result = xe_result x, ce_cached_at = now, ce_file_mtime = xe_file_mtime x, ce_file_size = xe_file_size x\<rparr>)
                    imported (co_cache c);
          s = co_stats c
      in (length imported,
          c\<lparr>co_cache := cache,
            co_stats := s\<lparr>cs_cache_imported := cs_cache_imported s + length imported,
              cs_cache_import_skipped_changed :=
                cs_cache_import_skipped_changed s + length (filter (\<lambda>x. verdict x = ImportChanged) entries),
              cs_cache_import_skipped_old_file :=
                cs_cache_import_skipped_old_file s + length (filter (\<lambda>x. verdict x = ImportOldFile) entries)\<rparr>\<rparr>))"

section \<open>Requests and the event loop\<close>

text \<open>
  The requests so far, in the order they came, the clocks and the files, and a log of the
  computations that have ended with a value: the key, the metadata of the file before it, the value.
\<close>

datatype ('r, 'e) request_state =
    Waiting string nat real
  | Computing string nat real "real option" "int option"
  | Finished string "'e request_error + 'r payload"

record ('r, 'e) world =
  cw_now :: real
  cw_wall :: real
  cw_files :: files
  cw_co :: "('r, 'e) coalescer"
  cw_requests :: "('r, 'e) request_state list"
  cw_log :: "(string \<times> real option \<times> int option \<times> 'r payload) list"

definition new_world :: "real \<Rightarrow> real \<Rightarrow> files \<Rightarrow> ('r, 'e) coalescer \<Rightarrow> ('r, 'e) world" where
  "new_world now wall fs c = \<lparr>cw_now = now, cw_wall = wall, cw_files = fs, cw_co = c, cw_requests = [], cw_log = []\<rparr>"

definition request_of :: "string \<Rightarrow> real \<Rightarrow> real \<Rightarrow> 'r request_start \<Rightarrow> ('r, 'e) request_state" where
  "request_of key now compute_timeout start =
     (case start of
        CacheHit r \<Rightarrow> Finished key (Inr r)
      | WaitFor f \<Rightarrow> Waiting key f (now + compute_timeout + 60)
      | Compute f mtime fsize \<Rightarrow> Computing key f now mtime fsize)"

definition log_of :: "string \<Rightarrow> real option \<Rightarrow> int option \<Rightarrow> 'e request_error + 'r payload
    \<Rightarrow> (string \<times> real option \<times> int option \<times> 'r payload) list" where
  "log_of key mtime fsize result = (case result of Inl e \<Rightarrow> [] | Inr r \<Rightarrow> [(key, mtime, fsize, r)])"

inductive co_step :: "('r, 'e) world \<Rightarrow> ('r, 'e) world \<Rightarrow> bool" where
  elapse: "0 \<le> d \<Longrightarrow> co_step w (w\<lparr>cw_now := cw_now w + d, cw_wall := wall, cw_files := fs\<rparr>)"
| request: "get_or_compute (cw_files w) (cw_now w) (cw_wall w) key (cw_co w) = (start, c) \<Longrightarrow>
    co_step w (w\<lparr>cw_co := c, cw_requests := cw_requests w @ [request_of key (cw_now w) (co_compute_timeout c) start]\<rparr>)"
| finish: "i < length (cw_requests w) \<Longrightarrow> cw_requests w ! i = Computing key f t mtime fsize \<Longrightarrow>
    finish_compute (cw_now w) key f mtime fsize outcome (cw_co w) = (result, c) \<Longrightarrow>
    co_step w (w\<lparr>cw_co := c, cw_requests := (cw_requests w)[i := Finished key result],
                 cw_log := cw_log w @ log_of key mtime fsize result\<rparr>)"
| resume: "i < length (cw_requests w) \<Longrightarrow> cw_requests w ! i = Waiting key f deadline \<Longrightarrow>
    wait_for_result ev (co_futures (cw_co w) ! f) = Some result \<Longrightarrow> (ev = WaitTimesOut \<Longrightarrow> deadline \<le> cw_now w) \<Longrightarrow>
    co_step w (w\<lparr>cw_requests := (cw_requests w)[i := Finished key result]\<rparr>)"
| peeked: "peek (cw_files w) (cw_now w) key (cw_co w) = (answer, c) \<Longrightarrow> co_step w (w\<lparr>cw_co := c\<rparr>)"
| submitted: "co_step w (w\<lparr>cw_co := track_submission (cw_now w) key (cw_co w)\<rparr>)"

text \<open>
  A step after which no computation runs for twice its timeout. \<open>wait_for\<close> cancels a computation at
  the timeout, so this is so unless a computation resists its cancellation.
\<close>

definition in_time :: "('r, 'e) world \<Rightarrow> bool" where
  "in_time w \<longleftrightarrow> list_all (\<lambda>q. case q of Computing key f t mtime fsize \<Rightarrow> cw_now w - t < 2 * co_compute_timeout (cw_co w) | _ \<Rightarrow> True) (cw_requests w)"

definition timely_step :: "('r, 'e) world \<Rightarrow> ('r, 'e) world \<Rightarrow> bool" where
  "timely_step w w' \<longleftrightarrow> co_step w w' \<and> in_time w'"

end
