(* ===== verification/CoalescerProps.thy ===== *)
theory CoalescerProps
  imports Coalescer
begin

text \<open>
  Properties of the cache of log analyses: one computation per file, what the cache serves, what
  requests are answered, what persistence keeps, and what goes wrong when a computation overruns.
\<close>

section \<open>What the operations leave alone\<close>

lemma map_of_pop_keys: "map_of (snd (pop_keys ks d)) = map_of d |` (- set ks)"
proof (induction ks arbitrary: d)
  case (Cons k ks)
  show ?case
  proof (cases "map_of d k")
    case None
    then have "map_of d |` (- set ks) = map_of d |` (- set (k # ks))" by (auto simp: restrict_map_def fun_eq_iff)
    then show ?thesis using Cons None by simp
  next
    case (Some v)
    have "map_of (snd (pop_keys (k # ks) d)) = map_of (AList.delete k d) |` (- set ks)"
      using Cons [of "AList.delete k d"] Some by (simp add: split_beta Let_def)
    then show ?thesis by (auto simp: restrict_map_def fun_eq_iff delete_conv')
  qed
qed (simp add: restrict_map_def)

lemma dict_ok_pop_keys: "dict_ok d \<Longrightarrow> dict_ok (snd (pop_keys ks d))"
  by (induction ks d rule: pop_keys.induct) (auto simp: split_beta split: option.splits)

lemma set_future_simps [simp]:
  "co_cache (set_future f st c) = co_cache c" "co_in_flight (set_future f st c) = co_in_flight c"
  "co_submitted (set_future f st c) = co_submitted c" "co_stats (set_future f st c) = co_stats c"
  "co_compute_timeout (set_future f st c) = co_compute_timeout c" "co_grace_period (set_future f st c) = co_grace_period c"
  "co_max_file_age (set_future f st c) = co_max_file_age c"
  "length (co_futures (set_future f st c)) = length (co_futures c)"
  by (simp_all add: set_future_def)

lemma nth_set_future:
  "co_futures (set_future f st c) ! g =
     (if g = f \<and> f < length (co_futures c) \<and> co_futures c ! f = PendingFuture then st else co_futures c ! g)"
  by (cases "f < length (co_futures c)")
    (auto simp: set_future_def future_done_def nth_list_update list_update_beyond split: future_state.splits)

lemma fold_set_future:
  "co_cache (fold (\<lambda>(k, e). set_future (ie_future e) st) xs c) = co_cache c
   \<and> co_in_flight (fold (\<lambda>(k, e). set_future (ie_future e) st) xs c) = co_in_flight c
   \<and> co_compute_timeout (fold (\<lambda>(k, e). set_future (ie_future e) st) xs c) = co_compute_timeout c
   \<and> co_grace_period (fold (\<lambda>(k, e). set_future (ie_future e) st) xs c) = co_grace_period c
   \<and> length (co_futures (fold (\<lambda>(k, e). set_future (ie_future e) st) xs c)) = length (co_futures c)"
  by (induction xs arbitrary: c) auto

lemma run_cleanup_keeps:
  shows "co_compute_timeout (run_cleanup now wall c) = co_compute_timeout c"
    and "co_grace_period (run_cleanup now wall c) = co_grace_period c"
    and "length (co_futures (run_cleanup now wall c)) = length (co_futures c)"
    and "map_of (co_cache (run_cleanup now wall c)) \<subseteq>\<^sub>m map_of (co_cache c)"
  by (auto simp: run_cleanup_def delete_expired_keys_def split_beta Let_def fold_set_future map_of_pop_keys map_le_def restrict_map_def)

text \<open>While no entry is old, cleanup leaves the computations in flight alone.\<close>

lemma collect_nothing_in_flight:
  assumes "dict_ok (co_in_flight c)"
    and "\<And>k e. map_of (co_in_flight c) k = Some e \<Longrightarrow> now - ie_started_at e < 2 * co_compute_timeout c"
  shows "\<exists>ks ks'. collect_expired_keys now wall c = (ks, ks', [], [])"
proof -
  have "\<not> now - ie_started_at e \<ge> co_compute_timeout c * 2" if "(k, e) \<in> set (co_in_flight c)" for k e
    using assms(2) [of k e] assms(1) that by (simp add: dict_ok_def)
  then have slow: "filter (\<lambda>(k, e). now - ie_started_at e \<ge> co_compute_timeout c * 2) (co_in_flight c) = []"
    by (auto simp: filter_empty_conv)
  show ?thesis unfolding collect_expired_keys_def Let_def slow by simp
qed

lemma run_cleanup_in_flight:
  assumes "dict_ok (co_in_flight c)"
    and "\<And>k e. map_of (co_in_flight c) k = Some e \<Longrightarrow> now - ie_started_at e < 2 * co_compute_timeout c"
  shows "co_in_flight (run_cleanup now wall c) = co_in_flight c" and "co_futures (run_cleanup now wall c) = co_futures c"
proof -
  obtain ks ks' where "collect_expired_keys now wall (c\<lparr>co_last_cleanup := now\<rparr>) = (ks, ks', [], [])"
    using collect_nothing_in_flight [of "c\<lparr>co_last_cleanup := now\<rparr>" now wall] assms by auto
  then show "co_in_flight (run_cleanup now wall c) = co_in_flight c" "co_futures (run_cleanup now wall c) = co_futures c"
    by (simp_all add: run_cleanup_def delete_expired_keys_def split_beta Let_def)
qed

lemma get_valid_cached_result_keeps:
  assumes "get_valid_cached_result fs key now c = (hit, c')"
  shows "co_in_flight c' = co_in_flight c" and "co_futures c' = co_futures c" and "co_compute_timeout c' = co_compute_timeout c"
    and "co_grace_period c' = co_grace_period c" and "map_of (co_cache c') \<subseteq>\<^sub>m map_of (co_cache c)"
  using assms
  by (auto simp: get_valid_cached_result_def cache_hit_def invalidate_def delete_conv' map_le_def
      split: option.splits if_splits)

section \<open>One computation per key\<close>

text \<open>Request \<open>i\<close> owns the computation for a key with its future, or waits for it.\<close>

definition computes :: "('r, 'e) request_state list \<Rightarrow> nat \<Rightarrow> string \<Rightarrow> nat \<Rightarrow> real \<Rightarrow> bool" where
  "computes qs i key f t \<longleftrightarrow> i < length qs \<and> (\<exists>mtime fsize. qs ! i = Computing key f t mtime fsize)"

definition waits :: "('r, 'e) request_state list \<Rightarrow> nat \<Rightarrow> string \<Rightarrow> nat \<Rightarrow> bool" where
  "waits qs i key f \<longleftrightarrow> i < length qs \<and> (\<exists>deadline. qs ! i = Waiting key f deadline)"

definition flight_ok :: "('r, 'e) coalescer \<Rightarrow> ('r, 'e) request_state list \<Rightarrow> bool" where
  "flight_ok c qs \<longleftrightarrow> dict_ok (co_in_flight c)
     \<and> (\<forall>k e. map_of (co_in_flight c) k = Some e \<longrightarrow> (\<exists>i. computes qs i k (ie_future e) (ie_started_at e)))
     \<and> (\<forall>i k f t. computes qs i k f t \<longrightarrow> map_of (co_in_flight c) k = Some \<lparr>ie_future = f, ie_started_at = t\<rparr>
          \<and> f < length (co_futures c) \<and> co_futures c ! f = PendingFuture)
     \<and> (\<forall>i j k f t k' f' t'. computes qs i k f t \<longrightarrow> computes qs j k' f' t' \<longrightarrow> k = k' \<or> f = f' \<longrightarrow> i = j)
     \<and> (\<forall>i k f. waits qs i k f \<longrightarrow> f < length (co_futures c)
          \<and> (co_futures c ! f = PendingFuture \<longrightarrow> (\<exists>j t. computes qs j k f t)))"

lemma flight_okI:
  assumes "dict_ok (co_in_flight c)"
    and "\<And>k e. map_of (co_in_flight c) k = Some e \<Longrightarrow> \<exists>i. computes qs i k (ie_future e) (ie_started_at e)"
    and "\<And>i k f t. computes qs i k f t \<Longrightarrow> map_of (co_in_flight c) k = Some \<lparr>ie_future = f, ie_started_at = t\<rparr>
          \<and> f < length (co_futures c) \<and> co_futures c ! f = PendingFuture"
    and "\<And>i j k f t k' f' t'. computes qs i k f t \<Longrightarrow> computes qs j k' f' t' \<Longrightarrow> k = k' \<or> f = f' \<Longrightarrow> i = j"
    and "\<And>i k f. waits qs i k f \<Longrightarrow> f < length (co_futures c)
          \<and> (co_futures c ! f = PendingFuture \<longrightarrow> (\<exists>j t. computes qs j k f t))"
  shows "flight_ok c qs"
  unfolding flight_ok_def using assms by blast

lemma flight_okD:
  assumes "flight_ok c qs"
  shows "dict_ok (co_in_flight c)"
    and "\<And>k e. map_of (co_in_flight c) k = Some e \<Longrightarrow> \<exists>i. computes qs i k (ie_future e) (ie_started_at e)"
    and "\<And>i k f t. computes qs i k f t \<Longrightarrow> map_of (co_in_flight c) k = Some \<lparr>ie_future = f, ie_started_at = t\<rparr>"
    and "\<And>i k f t. computes qs i k f t \<Longrightarrow> f < length (co_futures c) \<and> co_futures c ! f = PendingFuture"
    and "\<And>i j k f t k' f' t'. computes qs i k f t \<Longrightarrow> computes qs j k' f' t' \<Longrightarrow> k = k' \<or> f = f' \<Longrightarrow> i = j"
    and "\<And>i k f. waits qs i k f \<Longrightarrow> f < length (co_futures c)"
    and "\<And>i k f. waits qs i k f \<Longrightarrow> co_futures c ! f = PendingFuture \<Longrightarrow> \<exists>j t. computes qs j k f t"
  using assms unfolding flight_ok_def by blast+

lemma computes_append:
  "computes (qs @ [q]) i k f t \<longleftrightarrow> computes qs i k f t \<or> i = length qs \<and> (\<exists>mtime fsize. q = Computing k f t mtime fsize)"
  by (auto simp: computes_def nth_append less_Suc_eq)

lemma waits_append:
  "waits (qs @ [q]) i k f \<longleftrightarrow> waits qs i k f \<or> i = length qs \<and> (\<exists>deadline. q = Waiting k f deadline)"
  by (auto simp: waits_def nth_append less_Suc_eq)

lemma computes_finished: "computes (qs[j := Finished key res]) i k f t \<longleftrightarrow> computes qs i k f t \<and> i \<noteq> j"
  by (cases "i = j") (auto simp: computes_def)

lemma waits_finished: "waits (qs[j := Finished key res]) i k f \<longleftrightarrow> waits qs i k f \<and> i \<noteq> j"
  by (cases "i = j") (auto simp: waits_def)

lemma flight_ok_cong:
  "co_in_flight c' = co_in_flight c \<Longrightarrow> co_futures c' = co_futures c \<Longrightarrow> flight_ok c' qs \<longleftrightarrow> flight_ok c qs"
  by (simp add: flight_ok_def)

lemma flight_ok_append_finished: "flight_ok c qs \<Longrightarrow> flight_ok c (qs @ [Finished key res])"
  by (simp add: flight_ok_def computes_append waits_append)

lemma flight_ok_append_waiting:
  assumes "flight_ok c qs" and "map_of (co_in_flight c) key = Some e"
  shows "flight_ok c (qs @ [Waiting key (ie_future e) deadline])"
proof -
  obtain j where j: "computes qs j key (ie_future e) (ie_started_at e)" using flight_okD(2) [OF assms] by blast
  have comp: "computes (qs @ [Waiting key (ie_future e) deadline]) i k f t \<longleftrightarrow> computes qs i k f t" for i k f t
    by (simp add: computes_append)
  have "f < length (co_futures c) \<and> (co_futures c ! f = PendingFuture \<longrightarrow> (\<exists>j t. computes qs j k f t))"
    if "waits (qs @ [Waiting key (ie_future e) deadline]) i k f" for i k f
    using that flight_okD(6,7) [OF assms(1), of i k f] flight_okD(4) [OF assms(1) j] j by (auto simp: waits_append)
  then show ?thesis using assms(1) unfolding flight_ok_def comp by blast
qed

lemma flight_ok_start:
  fixes c :: "('r, 'e) coalescer"
  assumes ok: "flight_ok c qs" and free: "map_of (co_in_flight c) key = None"
    and start: "start_compute fs now key c = (start, c')"
  shows "flight_ok c' (qs @ [request_of key now timeout start])"
proof -
  let ?f = "length (co_futures c)" and ?qs = "qs @ [request_of key now timeout start]"
  have c': "co_in_flight c' = AList.update key \<lparr>ie_future = ?f, ie_started_at = now\<rparr> (co_in_flight c)"
    "co_futures c' = co_futures c @ [PendingFuture]"
    and req: "\<exists>mtime fsize. (request_of key now timeout start :: ('r, 'e) request_state) = Computing key ?f now mtime fsize"
    using start by (auto simp: start_compute_def get_file_metadata_def request_of_def Let_def)
  have comp: "computes ?qs i k f t \<longleftrightarrow> computes qs i k f t \<or> i = length qs \<and> k = key \<and> f = ?f \<and> t = now" for i k f t
    using req by (auto simp: computes_append)
  have wait: "waits ?qs i k f \<longleftrightarrow> waits qs i k f" for i k f
    unfolding waits_append using req by auto
  have other: "k \<noteq> key" "f \<noteq> ?f" "i \<noteq> length qs" if "computes qs i k f t" for i k f t
    using flight_okD(3,4) [OF ok that] free that by (auto simp: computes_def)
  show ?thesis
  proof (rule flight_okI)
    show "dict_ok (co_in_flight c')" using flight_okD(1) [OF ok] c' by simp
  next
    fix k e assume "map_of (co_in_flight c') k = Some e"
    then show "\<exists>i. computes ?qs i k (ie_future e) (ie_started_at e)"
      using flight_okD(2) [OF ok, of k e] by (auto simp: c' comp update_conv' split: if_splits)
  next
    fix i k f t assume "computes ?qs i k f t"
    then show "map_of (co_in_flight c') k = Some \<lparr>ie_future = f, ie_started_at = t\<rparr>
        \<and> f < length (co_futures c') \<and> co_futures c' ! f = PendingFuture"
      using flight_okD(3,4) [OF ok, of i k f t] other by (auto simp: comp c' update_conv' nth_append)
  next
    fix i j k f t k' f' t' assume "computes ?qs i k f t" "computes ?qs j k' f' t'" "k = k' \<or> f = f'"
    then show "i = j" unfolding comp using flight_okD(5) [OF ok] other by blast
  next
    fix i k f assume "waits ?qs i k f"
    then have "waits qs i k f" by (simp add: wait)
    then show "f < length (co_futures c') \<and> (co_futures c' ! f = PendingFuture \<longrightarrow> (\<exists>j t. computes ?qs j k f t))"
      using flight_okD(6,7) [OF ok] by (fastforce simp: c' comp nth_append)
  qed
qed

definition flights_in_time :: "real \<Rightarrow> ('r, 'e) coalescer \<Rightarrow> ('r, 'e) request_state list \<Rightarrow> bool" where
  "flights_in_time now c qs \<longleftrightarrow> (\<forall>i k f t. computes qs i k f t \<longrightarrow> now - t < 2 * co_compute_timeout c)"

lemma flight_ok_cleanup:
  assumes "flight_ok c qs" and "flights_in_time now c qs"
  shows "flight_ok (run_cleanup now wall c) qs" and "co_in_flight (run_cleanup now wall c) = co_in_flight c"
    and "co_futures (run_cleanup now wall c) = co_futures c"
proof -
  have "now - ie_started_at e < 2 * co_compute_timeout c" if "map_of (co_in_flight c) k = Some e" for k e
    using flight_okD(2) [OF assms(1) that] assms(2) by (auto simp: flights_in_time_def)
  note keeps = run_cleanup_in_flight [OF flight_okD(1) [OF assms(1)] this]
  then show "flight_ok (run_cleanup now wall c) qs" "co_in_flight (run_cleanup now wall c) = co_in_flight c"
    "co_futures (run_cleanup now wall c) = co_futures c"
    using assms(1) flight_ok_cong [OF keeps] by simp_all
qed

lemma flight_ok_request:
  assumes ok: "flight_ok c qs" and "flights_in_time now c qs" and "get_or_compute fs now wall key c = (start, c')"
  shows "flight_ok c' (qs @ [request_of key now timeout start])"
proof -
  let ?c = "run_cleanup now wall c"
  obtain hit c2 where hit: "get_valid_cached_result fs key now ?c = (hit, c2)" by force
  have "flight_ok c2 qs"
    using flight_ok_cleanup(1) [OF assms(1,2)] flight_ok_cong [OF get_valid_cached_result_keeps(1,2) [OF hit]] by blast
  then show ?thesis
  proof (cases hit)
    case (Some r)
    then show ?thesis using assms(3) hit flight_ok_append_finished [OF \<open>flight_ok c2 qs\<close>]
      by (auto simp: get_or_compute_def request_of_def)
  next
    case None
    show ?thesis
    proof (cases "map_of (co_in_flight c2) key")
      case None
      then show ?thesis using assms(3) hit \<open>hit = None\<close> flight_ok_start [OF \<open>flight_ok c2 qs\<close> None]
        by (simp add: get_or_compute_def)
    next
      case (Some e)
      have start: "start = WaitFor (ie_future e)" "co_in_flight c' = co_in_flight c2" "co_futures c' = co_futures c2"
        using assms(3) hit \<open>hit = None\<close> Some by (auto simp: get_or_compute_def)
      show ?thesis
        using flight_ok_append_waiting [OF \<open>flight_ok c2 qs\<close> Some] flight_ok_cong [OF start(2,3)] by (simp add: start(1) request_of_def)
    qed
  qed
qed

text \<open>The end of a computation, whatever its outcome.\<close>

lemma finish_compute_effect:
  assumes "finish_compute now key f mtime fsize outcome c = (result, c')"
  shows "co_in_flight c' = AList.delete key (co_in_flight c)" and "length (co_futures c') = length (co_futures c)"
    and "co_compute_timeout c' = co_compute_timeout c" and "co_grace_period c' = co_grace_period c"
    and "g \<noteq> f \<Longrightarrow> co_futures c' ! g = co_futures c ! g"
    and "f < length (co_futures c) \<Longrightarrow> co_futures c ! f = PendingFuture \<Longrightarrow> wait_for_result FutureWakes (co_futures c' ! f) = Some result"
    and "f < length (co_futures c) \<Longrightarrow> co_futures c' ! f \<noteq> PendingFuture"
  using assms
  by (auto simp: finish_compute_def store_result_def compute_failed_def nth_set_future wait_for_result_def Let_def
      split: compute_outcome.splits if_splits)

lemma flight_ok_finish:
  assumes ok: "flight_ok c qs" and own: "computes qs i key f t"
    and "finish_compute now key f mtime fsize outcome c = (result, c')"
  shows "flight_ok c' (qs[i := Finished key result])"
proof -
  note c' = finish_compute_effect [OF assms(3)]
  have other: "k \<noteq> key" "g \<noteq> f" if "computes qs j k g u" "j \<noteq> i" for j k g u
    using flight_okD(5) [OF ok that(1) own] that(2) by auto
  show ?thesis
  proof (rule flight_okI)
    show "dict_ok (co_in_flight c')" using flight_okD(1) [OF ok] c'(1) by simp
  next
    fix k e assume "map_of (co_in_flight c') k = Some e"
    then have "k \<noteq> key" "map_of (co_in_flight c) k = Some e" by (auto simp: c'(1) delete_conv' split: if_splits)
    then obtain j where j: "computes qs j k (ie_future e) (ie_started_at e)" using flight_okD(2) [OF ok] by blast
    then have "j \<noteq> i" using own \<open>k \<noteq> key\<close> by (auto simp: computes_def)
    then show "\<exists>j. computes (qs[i := Finished key result]) j k (ie_future e) (ie_started_at e)"
      using j by (auto simp: computes_finished)
  next
    fix j k g u assume "computes (qs[i := Finished key result]) j k g u"
    then have j: "computes qs j k g u" "j \<noteq> i" by (auto simp: computes_finished)
    show "map_of (co_in_flight c') k = Some \<lparr>ie_future = g, ie_started_at = u\<rparr>
        \<and> g < length (co_futures c') \<and> co_futures c' ! g = PendingFuture"
      using flight_okD(3,4) [OF ok j(1)] other [OF j] c'(2,5) by (simp add: c'(1) delete_conv')
  next
    fix j l k g u k' g' u'
    assume "computes (qs[i := Finished key result]) j k g u" "computes (qs[i := Finished key result]) l k' g' u'" "k = k' \<or> g = g'"
    then show "j = l" using flight_okD(5) [OF ok] by (auto simp: computes_finished)
  next
    fix j k g assume "waits (qs[i := Finished key result]) j k g"
    then have j: "waits qs j k g" by (simp add: waits_finished)
    show "g < length (co_futures c') \<and> (co_futures c' ! g = PendingFuture \<longrightarrow> (\<exists>l u. computes (qs[i := Finished key result]) l k g u))"
    proof (intro conjI impI)
      show "g < length (co_futures c')" using flight_okD(6) [OF ok j] c'(2) by simp
      assume pending: "co_futures c' ! g = PendingFuture"
      then have "g \<noteq> f" using c'(7) flight_okD(4) [OF ok own] by auto
      then obtain l u where l: "computes qs l k g u" using flight_okD(7) [OF ok j] pending c'(5) by auto
      have "l \<noteq> i" using l own \<open>g \<noteq> f\<close> by (auto simp: computes_def)
      then show "\<exists>l u. computes (qs[i := Finished key result]) l k g u" using l by (auto simp: computes_finished)
    qed
  qed
qed

lemma flight_ok_resume:
  assumes "flight_ok c qs" and "waits qs i key f"
  shows "flight_ok c (qs[i := Finished key result])"
proof -
  have no: "\<not> computes qs i k g t" for k g t using assms(2) by (auto simp: computes_def waits_def)
  have "computes (qs[i := Finished key result]) = computes qs"
    by (intro ext) (use no in \<open>auto simp: computes_finished\<close>)
  then show ?thesis using assms(1) unfolding flight_ok_def by (simp add: waits_finished) blast
qed

definition world_flights_ok :: "('r, 'e) world \<Rightarrow> bool" where
  "world_flights_ok w \<longleftrightarrow> flight_ok (cw_co w) (cw_requests w)"

lemma in_time_flights: "in_time w \<Longrightarrow> flights_in_time (cw_now w) (cw_co w) (cw_requests w)"
  by (auto simp: in_time_def flights_in_time_def computes_def list_all_length)

lemma peek_keeps:
  assumes "peek fs now key c = (answer, c')"
  shows "co_in_flight c' = co_in_flight c" and "co_futures c' = co_futures c" and "co_compute_timeout c' = co_compute_timeout c"
    and "co_grace_period c' = co_grace_period c" and "map_of (co_cache c') \<subseteq>\<^sub>m map_of (co_cache c)"
proof -
  obtain hit c2 where hit: "get_valid_cached_result fs key now c = (hit, c2)" by force
  have "c' = c2" using assms hit by (auto simp: peek_def split: option.splits)
  then show "co_in_flight c' = co_in_flight c" "co_futures c' = co_futures c" "co_compute_timeout c' = co_compute_timeout c"
    "co_grace_period c' = co_grace_period c" "map_of (co_cache c') \<subseteq>\<^sub>m map_of (co_cache c)"
    using get_valid_cached_result_keeps [OF hit] by simp_all
qed

lemma world_flights_ok_step:
  assumes "co_step w w'" and "world_flights_ok w" and "in_time w"
  shows "world_flights_ok w'"
  using assms(1)
proof cases
  case (elapse d wall fs)
  then show ?thesis using assms(2) by (simp add: world_flights_ok_def)
next
  case (request key start c)
  then show ?thesis
    using flight_ok_request [OF _ in_time_flights [OF assms(3)] request(2)] assms(2) by (simp add: world_flights_ok_def)
next
  case (finish i key f t mtime fsize outcome result c)
  then have "computes (cw_requests w) i key f t" by (auto simp: computes_def)
  then show ?thesis using flight_ok_finish [OF _ _ finish(4)] assms(2) finish by (simp add: world_flights_ok_def)
next
  case (resume i key f deadline ev result)
  then have "waits (cw_requests w) i key f" by (auto simp: waits_def)
  then show ?thesis using flight_ok_resume assms(2) resume by (simp add: world_flights_ok_def)
next
  case (peeked key answer c)
  then show ?thesis using assms(2) flight_ok_cong [OF peek_keeps(1,2) [OF peeked(2)]] by (simp add: world_flights_ok_def)
next
  case (submitted key)
  then show ?thesis using assms(2) by (simp add: world_flights_ok_def flight_ok_def track_submission_def)
qed

definition initial_world :: "real \<Rightarrow> real \<Rightarrow> real \<Rightarrow> real \<Rightarrow> real \<Rightarrow> real \<Rightarrow> real \<Rightarrow> files \<Rightarrow> ('r, 'e) world" where
  "initial_world cadence grace ttl timeout age now wall fs = new_world now wall fs (new_coalescer cadence grace ttl timeout age now)"

lemma timely_reach:
  assumes "timely_step\<^sup>*\<^sup>* (initial_world cadence grace ttl timeout age now wall fs) w"
  shows "world_flights_ok w \<and> in_time w"
  using assms
proof (induction rule: rtranclp_induct)
  case base
  show ?case
    by (simp add: initial_world_def new_world_def new_coalescer_def world_flights_ok_def flight_ok_def computes_def waits_def in_time_def)
next
  case (step w w')
  then show ?case using world_flights_ok_step by (auto simp: timely_step_def)
qed

definition computing_for :: "string \<Rightarrow> ('r, 'e) request_state \<Rightarrow> bool" where
  "computing_for key q = (case q of Computing k f t mtime fsize \<Rightarrow> k = key | _ \<Rightarrow> False)"

text \<open>
  C24: single flight. As long as no computation runs for twice its timeout, at every moment each key
  has at most one running computation, and has one exactly when it is registered as in flight. A
  request that finds none registered starts the only one.
\<close>

theorem one_computation_per_key:
  assumes "timely_step\<^sup>*\<^sup>* (initial_world cadence grace ttl timeout age now wall fs) w"
  shows "length (filter (computing_for key) (cw_requests w)) = (if map_of (co_in_flight (cw_co w)) key = None then 0 else 1)"
proof -
  let ?qs = "cw_requests w" and ?c = "cw_co w"
  have ok: "flight_ok ?c ?qs" using timely_reach [OF assms] by (simp add: world_flights_ok_def)
  have owners: "{i. i < length ?qs \<and> computing_for key (?qs ! i)} = {i. \<exists>f t. computes ?qs i key f t}"
  proof (intro Collect_cong)
    fix i show "i < length ?qs \<and> computing_for key (?qs ! i) \<longleftrightarrow> (\<exists>f t. computes ?qs i key f t)"
      by (cases "?qs ! i") (auto simp: computing_for_def computes_def)
  qed
  show ?thesis
  proof (cases "map_of (co_in_flight ?c) key")
    case None
    then have "{i. \<exists>f t. computes ?qs i key f t} = {}" using flight_okD(3) [OF ok] by auto
    then show ?thesis using None by (simp add: length_filter_conv_card owners)
  next
    case (Some e)
    obtain i where i: "computes ?qs i key (ie_future e) (ie_started_at e)" using flight_okD(2) [OF ok Some] by blast
    have "{i. \<exists>f t. computes ?qs i key f t} = {i}" using i flight_okD(5) [OF ok] by blast
    then show ?thesis using Some by (simp add: length_filter_conv_card owners)
  qed
qed

text \<open>
  C25: whoever waits is answered, with the result of the computation. As long as no computation runs
  for twice its timeout, a request that waits for a future that is not done waits for a computation
  of its own key that is running; and however that computation ends, in that state, with a value, at
  its timeout, cancelled or with an exception, the request is woken with the result that the owner
  of the computation returns or raises.
\<close>

theorem waiters_share_the_result:
  assumes "timely_step\<^sup>*\<^sup>* (initial_world cadence grace ttl timeout age now wall fs) w"
    and "i < length (cw_requests w)" and "cw_requests w ! i = Waiting key f deadline"
    and "co_futures (cw_co w) ! f = PendingFuture"
  shows "\<exists>j t mtime fsize. j < length (cw_requests w) \<and> cw_requests w ! j = Computing key f t mtime fsize
    \<and> (\<forall>outcome. wait_for_result FutureWakes
         (co_futures (snd (finish_compute (cw_now w) key f mtime fsize outcome (cw_co w))) ! f)
           = Some (fst (finish_compute (cw_now w) key f mtime fsize outcome (cw_co w))))"
proof -
  have ok: "flight_ok (cw_co w) (cw_requests w)" using timely_reach [OF assms(1)] by (simp add: world_flights_ok_def)
  have "waits (cw_requests w) i key f" using assms(2,3) by (auto simp: waits_def)
  then obtain j t where j: "computes (cw_requests w) j key f t" using flight_okD(7) [OF ok _ assms(4)] by blast
  then obtain mtime fsize where q: "j < length (cw_requests w)" "cw_requests w ! j = Computing key f t mtime fsize"
    by (auto simp: computes_def)
  have "wait_for_result FutureWakes (co_futures (snd (finish_compute (cw_now w) key f mtime fsize outcome (cw_co w))) ! f)
      = Some (fst (finish_compute (cw_now w) key f mtime fsize outcome (cw_co w)))" for outcome
    using finish_compute_effect(6) [OF surjective_pairing] flight_okD(4) [OF ok j] by blast
  then show ?thesis using q by blast
qed

section \<open>Where results come from\<close>

text \<open>
  The files whose computations the futures stand for (\<open>ks\<close>), and the log: results belong to the file
  of their future, cached results to their key, with the metadata the file had.
\<close>

definition logged :: "(string \<times> real option \<times> int option \<times> 'r payload) list \<Rightarrow> string \<Rightarrow> 'r payload \<Rightarrow> bool" where
  "logged L key r \<longleftrightarrow> (\<exists>mtime fsize. (key, mtime, fsize, r) \<in> set L)"

definition entry_logged :: "(string \<times> real option \<times> int option \<times> 'r payload) list \<Rightarrow> string \<Rightarrow> 'r cache_entry \<Rightarrow> bool" where
  "entry_logged L key e \<longleftrightarrow> (\<exists>fsize. (key, ce_file_mtime e, fsize, ce_result e) \<in> set L
     \<and> (ce_file_size e = fsize \<or> ce_file_size e = None))"

definition request_logged ::
  "string list \<Rightarrow> (string \<times> real option \<times> int option \<times> 'r payload) list \<Rightarrow> ('r, 'e) request_state \<Rightarrow> bool" where
  "request_logged ks L q =
     (case q of
        Waiting k f deadline \<Rightarrow> f < length ks \<and> ks ! f = k
      | Computing k f t mtime fsize \<Rightarrow> f < length ks \<and> ks ! f = k
      | Finished k result \<Rightarrow> (case result of Inl e \<Rightarrow> True | Inr r \<Rightarrow> logged L k r))"

definition prov_ok :: "string list \<Rightarrow> ('r, 'e) world \<Rightarrow> bool" where
  "prov_ok ks w \<longleftrightarrow> length ks = length (co_futures (cw_co w))
     \<and> (\<forall>k e. map_of (co_cache (cw_co w)) k = Some e \<longrightarrow> entry_logged (cw_log w) k e)
     \<and> (\<forall>k e. map_of (co_in_flight (cw_co w)) k = Some e \<longrightarrow> ie_future e < length ks \<and> ks ! ie_future e = k)
     \<and> (\<forall>f < length ks. \<forall>r. co_futures (cw_co w) ! f = FutureResult r \<longrightarrow> logged (cw_log w) (ks ! f) r)
     \<and> (\<forall>q \<in> set (cw_requests w). request_logged ks (cw_log w) q)"

lemma logged_mono: "logged L k r \<Longrightarrow> logged (L @ L') k r" "logged L' k r \<Longrightarrow> logged (L @ L') k r"
  by (auto simp: logged_def)

lemma entry_logged_mono: "entry_logged L k e \<or> entry_logged L' k e \<Longrightarrow> entry_logged (L @ L') k e"
  by (auto simp: entry_logged_def)

lemma entry_logged_logged: "entry_logged L k e \<Longrightarrow> logged L k (ce_result e)"
  by (auto simp: logged_def entry_logged_def)

lemma request_logged_mono: "request_logged ks L q \<Longrightarrow> request_logged (ks @ ks') (L @ L') q"
  by (auto simp: request_logged_def nth_append logged_mono split: request_state.splits sum.splits)

lemma fold_set_future_errors:
  "co_futures (fold (\<lambda>(k, e). set_future (ie_future e) (FutureError x)) xs c) ! f = FutureResult r
    \<Longrightarrow> co_futures c ! f = FutureResult r"
proof (induction xs arbitrary: c)
  case (Cons a xs)
  obtain k e where a: "a = (k, e)" by force
  have "co_futures (set_future (ie_future e) (FutureError x) c) ! f = FutureResult r"
    using Cons.IH [of "set_future (ie_future e) (FutureError x) c"] Cons.prems by (simp add: a)
  then show ?case by (simp add: nth_set_future split: if_splits)
qed simp

lemma run_cleanup_future:
  "co_futures (run_cleanup now wall c) ! f = FutureResult r \<Longrightarrow> co_futures c ! f = FutureResult r"
  by (auto simp: run_cleanup_def delete_expired_keys_def split_beta Let_def dest!: fold_set_future_errors split: if_splits)

lemma run_cleanup_map: "map_of (co_in_flight (run_cleanup now wall c)) \<subseteq>\<^sub>m map_of (co_in_flight c)"
  by (auto simp: run_cleanup_def delete_expired_keys_def split_beta Let_def fold_set_future map_of_pop_keys map_le_def restrict_map_def
      split: if_splits)

text \<open>What a request may find and what it leaves, cleanup included.\<close>

lemma get_or_compute_effect:
  assumes "get_or_compute fs now wall key c = (start, c')"
  shows "\<And>r. start = CacheHit r \<Longrightarrow> \<exists>e. map_of (co_cache c) key = Some e \<and> r = ce_result e
      \<and> (now - ce_cached_at e < co_grace_period c \<or> ce_file_mtime e = None
         \<or> ce_file_size e \<noteq> None \<and> get_file_metadata fs key = (ce_file_mtime e, ce_file_size e))"
    and "\<And>f. start = WaitFor f \<Longrightarrow> \<exists>e. map_of (co_in_flight c) key = Some e \<and> f = ie_future e"
    and "\<And>f mtime fsize. start = Compute f mtime fsize \<Longrightarrow> f = length (co_futures c) \<and> length (co_futures c') = Suc f
      \<and> (mtime, fsize) = get_file_metadata fs key"
    and "\<And>r. start = CacheHit r \<Longrightarrow> length (co_futures c') = length (co_futures c)"
    and "\<And>f. start = WaitFor f \<Longrightarrow> length (co_futures c') = length (co_futures c)"
    and "map_of (co_cache c') \<subseteq>\<^sub>m map_of (co_cache c)"
    and "\<And>k e. map_of (co_in_flight c') k = Some e \<Longrightarrow> map_of (co_in_flight c) k = Some e
      \<or> k = key \<and> ie_future e = length (co_futures c) \<and> length (co_futures c') = Suc (length (co_futures c))"
    and "\<And>f r. f < length (co_futures c) \<Longrightarrow> co_futures c' ! f = FutureResult r \<Longrightarrow> co_futures c ! f = FutureResult r"
    and "length (co_futures c) < length (co_futures c') \<Longrightarrow> co_futures c' ! length (co_futures c) = PendingFuture"
proof -
  let ?c = "run_cleanup now wall c"
  obtain hit c2 where hit: "get_valid_cached_result fs key now ?c = (hit, c2)" by force
  note k = get_valid_cached_result_keeps [OF hit]
  have sub: "map_of (co_cache c2) \<subseteq>\<^sub>m map_of (co_cache c)" using k(5) run_cleanup_keeps(4) map_le_trans by blast
  have fl: "map_of (co_in_flight c2) j = Some e \<Longrightarrow> map_of (co_in_flight c) j = Some e" for j e
    using run_cleanup_map [of now wall c] k(1) by (simp add: map_le_def) (metis domI)
  have fut: "co_futures c2 ! f = FutureResult r \<Longrightarrow> co_futures c ! f = FutureResult r" for f r
    using run_cleanup_future k(2) by metis
  have len: "length (co_futures c2) = length (co_futures c)" using k(2) run_cleanup_keeps(3) by metis
  show "\<And>r. start = CacheHit r \<Longrightarrow> \<exists>e. map_of (co_cache c) key = Some e \<and> r = ce_result e
      \<and> (now - ce_cached_at e < co_grace_period c \<or> ce_file_mtime e = None
         \<or> ce_file_size e \<noteq> None \<and> get_file_metadata fs key = (ce_file_mtime e, ce_file_size e))"
  proof -
    fix r assume "start = CacheHit r"
    then have "hit = Some r" using assms hit by (auto simp: get_or_compute_def start_compute_def Let_def split_beta split: option.splits)
    then obtain e where e: "map_of (co_cache ?c) key = Some e" "r = ce_result e"
      "now - ce_cached_at e < co_grace_period c \<or> ce_file_mtime e = None
         \<or> ce_file_size e \<noteq> None \<and> get_file_metadata fs key = (ce_file_mtime e, ce_file_size e)"
      using hit by (auto simp: get_valid_cached_result_def cache_hit_def invalidate_def run_cleanup_keeps(2) split: option.splits if_splits)
    then have "map_of (co_cache c) key = Some e" using run_cleanup_keeps(4) [of now wall c] by (simp add: map_le_def) (metis domI)
    then show "\<exists>e. map_of (co_cache c) key = Some e \<and> r = ce_result e
      \<and> (now - ce_cached_at e < co_grace_period c \<or> ce_file_mtime e = None
         \<or> ce_file_size e \<noteq> None \<and> get_file_metadata fs key = (ce_file_mtime e, ce_file_size e))" using e by blast
  qed
  have cases: "(\<exists>r. start = CacheHit r) \<and> c' = c2
      \<or> (\<exists>e. map_of (co_in_flight c2) key = Some e \<and> start = WaitFor (ie_future e)) \<and> co_in_flight c' = co_in_flight c2
           \<and> co_futures c' = co_futures c2 \<and> co_cache c' = co_cache c2
      \<or> map_of (co_in_flight c2) key = None \<and> start_compute fs now key c2 = (start, c')"
    using assms hit by (auto simp: get_or_compute_def split: option.splits)
  have compute: "start_compute fs now key c2 = (start, c') \<Longrightarrow> (\<exists>mtime fsize. start = Compute (length (co_futures c)) mtime fsize
      \<and> (mtime, fsize) = get_file_metadata fs key) \<and> co_futures c' = co_futures c2 @ [PendingFuture] \<and> co_cache c' = co_cache c2
      \<and> co_in_flight c' = AList.update key \<lparr>ie_future = length (co_futures c), ie_started_at = now\<rparr> (co_in_flight c2)"
    by (auto simp: start_compute_def Let_def split_beta len)
  show "\<And>f. start = WaitFor f \<Longrightarrow> \<exists>e. map_of (co_in_flight c) key = Some e \<and> f = ie_future e"
    using cases compute fl by fastforce
  show "\<And>f mtime fsize. start = Compute f mtime fsize \<Longrightarrow> f = length (co_futures c) \<and> length (co_futures c') = Suc f
      \<and> (mtime, fsize) = get_file_metadata fs key"
    using cases compute len by fastforce
  show "\<And>r. start = CacheHit r \<Longrightarrow> length (co_futures c') = length (co_futures c)"
    "\<And>f. start = WaitFor f \<Longrightarrow> length (co_futures c') = length (co_futures c)"
    using cases compute len by fastforce+
  show "map_of (co_cache c') \<subseteq>\<^sub>m map_of (co_cache c)" using cases compute sub by fastforce
  show "\<And>k e. map_of (co_in_flight c') k = Some e \<Longrightarrow> map_of (co_in_flight c) k = Some e
      \<or> k = key \<and> ie_future e = length (co_futures c) \<and> length (co_futures c') = Suc (length (co_futures c))"
    using cases compute fl len by (fastforce simp: update_conv' split: if_splits)
  show "\<And>f r. f < length (co_futures c) \<Longrightarrow> co_futures c' ! f = FutureResult r \<Longrightarrow> co_futures c ! f = FutureResult r"
    using cases compute fut len by (fastforce simp: nth_append)
  show "length (co_futures c) < length (co_futures c') \<Longrightarrow> co_futures c' ! length (co_futures c) = PendingFuture"
    using cases compute len by (fastforce simp: nth_append)
qed

lemma request_logged_finished:
  "\<forall>q \<in> set qs. request_logged ks L q \<Longrightarrow> request_logged ks L q' \<Longrightarrow> \<forall>q \<in> set (qs[i := q']). request_logged ks L q"
  using set_update_subset_insert [of qs i q'] by blast

lemma finish_compute_logged:
  assumes "finish_compute now key f mtime fsize outcome c = (result, c')"
  shows "\<And>k e. map_of (co_cache c') k = Some e \<Longrightarrow>
      map_of (co_cache c) k = Some e \<or> k = key \<and> entry_logged (log_of key mtime fsize result) k e"
    and "\<And>r. result = Inr r \<Longrightarrow> logged (log_of key mtime fsize result) key r"
    and "\<And>g r. co_futures c' ! g = FutureResult r \<Longrightarrow> co_futures c ! g = FutureResult r \<or> g = f \<and> result = Inr r"
  using assms
  by (auto simp: finish_compute_def store_result_def compute_failed_def nth_set_future log_of_def logged_def entry_logged_def
      Let_def update_conv' split: compute_outcome.splits if_splits)

lemma prov_ok_nth: "prov_ok ks w \<Longrightarrow> i < length (cw_requests w) \<Longrightarrow> request_logged ks (cw_log w) (cw_requests w ! i)"
  by (simp add: prov_ok_def)

lemma prov_ok_step:
  assumes "co_step w w'" and "prov_ok ks w"
  shows "\<exists>ks'. prov_ok ks' w'"
  using assms(1)
proof cases
  case (elapse d wall fs)
  then show ?thesis using assms(2) by (auto simp: prov_ok_def)
next
  case (request key start c)
  note eff = get_or_compute_effect [OF request(2)]
  have ok: "length ks = length (co_futures (cw_co w))"
    "\<And>k e. map_of (co_cache (cw_co w)) k = Some e \<Longrightarrow> entry_logged (cw_log w) k e"
    "\<And>k e. map_of (co_in_flight (cw_co w)) k = Some e \<Longrightarrow> ie_future e < length ks \<and> ks ! ie_future e = k"
    "\<And>f r. f < length ks \<Longrightarrow> co_futures (cw_co w) ! f = FutureResult r \<Longrightarrow> logged (cw_log w) (ks ! f) r"
    "\<And>q. q \<in> set (cw_requests w) \<Longrightarrow> request_logged ks (cw_log w) q"
    using assms(2) by (auto simp: prov_ok_def)
  define ks' where "ks' = (case start of Compute f mtime fsize \<Rightarrow> ks @ [key] | _ \<Rightarrow> ks)"
  have "prov_ok ks' w'"
    unfolding prov_ok_def
  proof (intro conjI allI ballI impI)
    show "length ks' = length (co_futures (cw_co w'))"
      using ok(1) eff(3,4,5) by (auto simp: ks'_def request(1) split: request_start.splits)
  next
    fix k e assume "map_of (co_cache (cw_co w')) k = Some e"
    then have "map_of (co_cache (cw_co w)) k = Some e" using eff(6) by (simp add: request(1) map_le_def) (metis domI)
    then show "entry_logged (cw_log w') k e" using ok(2) by (simp add: request(1))
  next
    fix k e assume "map_of (co_in_flight (cw_co w')) k = Some e"
    then have "map_of (co_in_flight (cw_co w)) k = Some e
        \<or> k = key \<and> ie_future e = length ks \<and> length (co_futures c) = Suc (length ks)"
      using eff(7) ok(1) by (simp add: request(1))
    then have "ie_future e < length ks' \<and> ks' ! ie_future e = k"
    proof
      assume "map_of (co_in_flight (cw_co w)) k = Some e"
      then show ?thesis using ok(3) [of k e] by (auto simp: ks'_def nth_append less_SucI split: request_start.splits)
    next
      assume new: "k = key \<and> ie_future e = length ks \<and> length (co_futures c) = Suc (length ks)"
      then obtain f mtime fsize where "start = Compute f mtime fsize" using eff(4,5) ok(1) by (cases start) auto
      then show ?thesis using new by (simp add: ks'_def)
    qed
    then show "ie_future e < length ks'" "ks' ! ie_future e = k" by simp_all
  next
    fix f r assume f: "f < length ks'" "co_futures (cw_co w') ! f = FutureResult r"
    show "logged (cw_log w') (ks' ! f) r"
    proof (cases "f < length ks")
      case True
      then have "co_futures (cw_co w) ! f = FutureResult r" using eff(8) f ok(1) by (simp add: request(1))
      then have "logged (cw_log w) (ks ! f) r" using ok(4) True by blast
      then show ?thesis using True by (auto simp: ks'_def nth_append request(1) split: request_start.splits)
    next
      case False
      then have "f = length ks" "length (co_futures c) = Suc (length ks)"
        using f(1) eff(3) ok(1) by (auto simp: ks'_def split: request_start.splits)
      then show ?thesis using f(2) eff(9) ok(1) by (simp add: request(1))
    qed
  next
    fix q assume "q \<in> set (cw_requests w')"
    then consider "q \<in> set (cw_requests w)" | "q = request_of key (cw_now w) (co_compute_timeout c) start"
      by (auto simp: request(1))
    then show "request_logged ks' (cw_log w') q"
    proof cases
      case 1
      have "ks' = ks @ drop (length ks) ks'" by (auto simp: ks'_def split: request_start.splits)
      then show ?thesis using request_logged_mono [OF ok(5) [OF 1], of "drop (length ks) ks'" "[]"] by (simp add: request(1))
    next
      case 2
      show ?thesis
      proof (cases start)
        case (CacheHit r)
        then obtain e where "map_of (co_cache (cw_co w)) key = Some e" "r = ce_result e" using eff(1) by blast
        then have "logged (cw_log w) key r" using entry_logged_logged [OF ok(2)] by blast
        then show ?thesis using 2 CacheHit by (simp add: request_logged_def request_of_def request(1))
      next
        case (WaitFor f)
        then show ?thesis using 2 eff(2) ok(3) by (auto simp: request_logged_def request_of_def request(1) ks'_def)
      next
        case (Compute f mtime fsize)
        then show ?thesis using 2 eff(3) ok(1) by (auto simp: request_logged_def request_of_def request(1) ks'_def nth_append)
      qed
    qed
  qed
  then show ?thesis ..
next
  case (finish i key f t mtime fsize outcome result c)
  note eff = finish_compute_effect [OF finish(4)] and src = finish_compute_logged [OF finish(4)]
  let ?L = "log_of key mtime fsize result"
  have own: "f < length ks \<and> ks ! f = key"
    using prov_ok_nth [OF assms(2) finish(2)] finish(3) by (simp add: request_logged_def)
  have "prov_ok ks w'"
    unfolding prov_ok_def
  proof (intro conjI allI ballI impI)
    show "length ks = length (co_futures (cw_co w'))" using assms(2) eff(2) by (simp add: prov_ok_def finish(1))
  next
    fix k e assume "map_of (co_cache (cw_co w')) k = Some e"
    then have "map_of (co_cache (cw_co w)) k = Some e \<or> k = key \<and> entry_logged ?L k e" using src(1) by (simp add: finish(1))
    then show "entry_logged (cw_log w') k e" using assms(2) by (auto simp: prov_ok_def finish(1) intro!: entry_logged_mono)
  next
    fix k e assume "map_of (co_in_flight (cw_co w')) k = Some e"
    then have "map_of (co_in_flight (cw_co w)) k = Some e" by (auto simp: finish(1) eff(1) delete_conv' split: if_splits)
    then show "ie_future e < length ks" "ks ! ie_future e = k" using assms(2) by (auto simp: prov_ok_def)
  next
    fix g r assume g: "g < length ks" "co_futures (cw_co w') ! g = FutureResult r"
    then have "co_futures (cw_co w) ! g = FutureResult r \<or> g = f \<and> result = Inr r" using src(3) by (simp add: finish(1))
    then show "logged (cw_log w') (ks ! g) r"
    proof
      assume "co_futures (cw_co w) ! g = FutureResult r"
      then have "logged (cw_log w) (ks ! g) r" using assms(2) g(1) by (simp add: prov_ok_def)
      then show ?thesis by (simp add: finish(1) logged_mono)
    next
      assume "g = f \<and> result = Inr r"
      then show ?thesis using own src(2) by (auto simp: request_logged_def finish(1) logged_def)
    qed
  next
    fix q assume "q \<in> set (cw_requests w')"
    moreover have "\<forall>q \<in> set (cw_requests w). request_logged ks (cw_log w @ ?L) q"
      using assms(2) by (auto simp: prov_ok_def intro!: request_logged_mono [where ks' = "[]", simplified])
    moreover have "request_logged ks (cw_log w @ ?L) (Finished key result)"
      using src(2) by (auto simp: request_logged_def logged_mono split: sum.splits)
    ultimately show "request_logged ks (cw_log w') q" using request_logged_finished by (simp add: finish(1)) blast
  qed
  then show ?thesis ..
next
  case (resume i key f deadline ev result)
  have own: "f < length ks \<and> ks ! f = key"
    using prov_ok_nth [OF assms(2) resume(2)] resume(3) by (simp add: request_logged_def)
  have "logged (cw_log w) key r" if "result = Inr r" for r
  proof -
    have "co_futures (cw_co w) ! f = FutureResult r"
      using resume(4) that by (simp add: wait_for_result_def split: wait_event.splits future_state.splits)
    then show ?thesis using own assms(2) by (auto simp: prov_ok_def)
  qed
  then have "request_logged ks (cw_log w) (Finished key result)" by (simp add: request_logged_def split: sum.splits)
  moreover have "\<forall>q \<in> set (cw_requests w). request_logged ks (cw_log w) q" using assms(2) by (simp add: prov_ok_def)
  ultimately have "\<forall>q \<in> set (cw_requests w'). request_logged ks (cw_log w) q"
    using request_logged_finished by (simp add: resume(1)) blast
  then have "prov_ok ks w'" using assms(2) by (auto simp: prov_ok_def resume(1))
  then show ?thesis ..
next
  case (peeked key answer c)
  note keeps = peek_keeps [OF peeked(2)]
  have "map_of (co_cache c) k = Some e \<Longrightarrow> map_of (co_cache (cw_co w)) k = Some e" for k e
    using keeps(5) by (simp add: map_le_def) (metis domI)
  then have "prov_ok ks w'" using assms(2) keeps(1,2) by (auto simp: prov_ok_def peeked(1))
  then show ?thesis ..
next
  case (submitted key)
  then show ?thesis using assms(2) by (auto simp: prov_ok_def track_submission_def)
qed

lemma prov_reach:
  assumes "co_step\<^sup>*\<^sup>* (initial_world cadence grace ttl timeout age now wall fs) w"
  shows "\<exists>ks. prov_ok ks w"
  using assms
proof (induction rule: rtranclp_induct)
  case base
  show ?case by (simp add: prov_ok_def initial_world_def new_world_def new_coalescer_def)
next
  case (step w w')
  then show ?case using prov_ok_step by blast
qed

text \<open>
  no request gets the result of another file. Whatever requests come, computations do, files and
  clocks become, and cleanup removes, a request that ends with a value has one that a computation for
  its own key produced.
\<close>

theorem results_belong_to_their_file:
  assumes "co_step\<^sup>*\<^sup>* (initial_world cadence grace ttl timeout age now wall fs) w"
    and "i < length (cw_requests w)" and "cw_requests w ! i = Finished key (Inr r)"
  shows "\<exists>mtime fsize. (key, mtime, fsize, r) \<in> set (cw_log w)"
proof -
  obtain ks where "prov_ok ks w" using prov_reach [OF assms(1)] by blast
  then show ?thesis
    using prov_ok_nth [OF _ assms(2)] assms(3) by (fastforce simp: request_logged_def logged_def)
qed

text \<open>
  C26: what the cache serves is current. A result that a request gets from the cache was computed for
  its key, and it was cached within the grace period, or the file has now the modification time and
  the size that it had before the computation, or it did not exist then.
\<close>

theorem cache_serves_current_results:
  assumes "co_step\<^sup>*\<^sup>* (initial_world cadence grace ttl timeout age now wall fs) w"
    and "get_or_compute (cw_files w) (cw_now w) (cw_wall w) key (cw_co w) = (CacheHit r, c)"
  shows "\<exists>e mtime fsize. map_of (co_cache (cw_co w)) key = Some e \<and> (key, mtime, fsize, r) \<in> set (cw_log w)
    \<and> (cw_now w - ce_cached_at e < co_grace_period (cw_co w) \<or> get_file_metadata (cw_files w) key = (mtime, fsize) \<or> mtime = None)"
proof -
  obtain ks where ks: "prov_ok ks w" using prov_reach [OF assms(1)] by blast
  obtain e where e: "map_of (co_cache (cw_co w)) key = Some e" "r = ce_result e"
    "cw_now w - ce_cached_at e < co_grace_period (cw_co w) \<or> ce_file_mtime e = None
       \<or> ce_file_size e \<noteq> None \<and> get_file_metadata (cw_files w) key = (ce_file_mtime e, ce_file_size e)"
    using get_or_compute_effect(1) [OF assms(2) refl] by blast
  have "entry_logged (cw_log w) key e" using ks e(1) by (simp add: prov_ok_def)
  then obtain fsize where "(key, ce_file_mtime e, fsize, r) \<in> set (cw_log w)" "ce_file_size e = fsize \<or> ce_file_size e = None"
    by (auto simp: entry_logged_def e(2))
  then show ?thesis using e(1,3) by blast
qed

section \<open>A timeout without a file\<close>

lemma unvalidated_survives_cleanup:
  assumes "dict_ok (co_cache c)" and "map_of (co_cache c) key = Some e" and "ce_file_mtime e = None"
  shows "map_of (co_cache (run_cleanup now wall c)) key = Some e"
proof -
  have "key \<notin> set (fst (collect_expired_keys now wall (c\<lparr>co_last_cleanup := now\<rparr>)))"
  proof
    assume "key \<in> set (fst (collect_expired_keys now wall (c\<lparr>co_last_cleanup := now\<rparr>)))"
    then obtain e' where e': "(key, e') \<in> set (co_cache c)" "ce_file_mtime e' \<noteq> None"
      by (auto simp: collect_expired_keys_def Let_def split: option.splits)
    then have "map_of (co_cache c) key = Some e'" using assms(1) by (simp add: dict_ok_def)
    then show False using assms(2,3) e'(2) by simp
  qed
  then show ?thesis
    using assms(2) by (auto simp: run_cleanup_def delete_expired_keys_def split_beta Let_def fold_set_future map_of_pop_keys)
qed

lemma unvalidated_hit:
  assumes "dict_ok (co_cache c)" and "map_of (co_cache c) key = Some e" and "ce_file_mtime e = None"
  shows "fst (get_or_compute fs now wall key c) = CacheHit (ce_result e)"
    and "map_of (co_cache (snd (get_or_compute fs now wall other c))) key = Some e"
proof -
  let ?c = "run_cleanup now wall c"
  have there: "map_of (co_cache ?c) key = Some e" by (rule unvalidated_survives_cleanup [OF assms])
  show "fst (get_or_compute fs now wall key c) = CacheHit (ce_result e)"
    using there assms(3) by (simp add: get_or_compute_def get_valid_cached_result_def cache_hit_def)
  have "map_of (co_cache (snd (get_valid_cached_result fs other now ?c))) key = Some e"
    using there assms(3)
    by (auto simp: get_valid_cached_result_def cache_hit_def invalidate_def delete_conv' split: option.splits)
  then show "map_of (co_cache (snd (get_or_compute fs now wall other c))) key = Some e"
    by (auto simp: get_or_compute_def start_compute_def Let_def split_beta split: option.splits)
qed

text \<open>
  a timeout is never retried when the file did not exist. A computation that times out while its
  file is missing caches the timeout with no modification time: every later request for the key, at
  any time and with any file, is a hit that returns the timeout, and requests for other keys leave it
  in the cache.
\<close>

theorem timeout_without_file_is_permanent:
  assumes "dict_ok (co_cache c)" and "c' = snd (finish_compute now key f None None ComputeTimedOut c)"
  shows "fst (get_or_compute fs now' wall key c') = CacheHit (TimeoutPayload (co_compute_timeout c))
    \<and> map_of (co_cache (snd (get_or_compute fs now' wall other c'))) key = map_of (co_cache c') key"
proof -
  let ?e = "\<lparr>ce_result = TimeoutPayload (co_compute_timeout c), ce_cached_at = now, ce_file_mtime = None, ce_file_size = None\<rparr>"
  have "co_cache c' = AList.update key ?e (co_cache c)"
    by (simp add: assms(2) finish_compute_def store_result_def Let_def)
  then have c': "dict_ok (co_cache c')" "map_of (co_cache c') key = Some ?e" using assms(1) by (simp_all add: update_conv')
  show ?thesis using unvalidated_hit [OF c'] c'(2) by simp
qed

section \<open>Persistence\<close>

definition restorable :: "real \<Rightarrow> files \<Rightarrow> real \<Rightarrow> string \<Rightarrow> 'r cache_entry \<Rightarrow> bool" where
  "restorable wall fs age key e \<longleftrightarrow> key \<noteq> [] \<and> ce_result e \<noteq> NoResult
     \<and> (case ce_file_mtime e of None \<Rightarrow> False | Some m \<Rightarrow> wall - m < age)
     \<and> ce_file_size e \<noteq> None \<and> get_file_metadata fs key = (ce_file_mtime e, ce_file_size e)"

lemma import_verdict_exported:
  "import_verdict wall fs age \<lparr>xe_key = key, xe_result = ce_result e, xe_file_mtime = ce_file_mtime e, xe_file_size = ce_file_size e\<rparr>
    = Imported \<longleftrightarrow> restorable wall fs age key e"
  by (auto simp: import_verdict_def restorable_def get_file_metadata_def split: option.splits)

text \<open>
  C27: a cache survives a restart where its files did. Exporting a cache and importing the entries into
  a new coalescer restores, in order, exactly the entries with a result whose file still has the
  modification time and size of the entry and is not too old, as if they were cached now; the number
  returned is theirs.
\<close>

theorem exported_cache_is_restored:
  assumes "dict_ok (co_cache c)"
    and "kept = filter (\<lambda>(key, e). restorable wall fs (age * 86400) key e) (co_cache c)"
    and "import_cache now wall fs (export_cache c) (new_coalescer cadence grace ttl timeout age start) = (n, c')"
  shows "n = length kept \<and> co_cache c' = map (\<lambda>(key, e). (key, e\<lparr>ce_cached_at := now\<rparr>)) kept"
proof -
  let ?x = "\<lambda>(key, e). \<lparr>xe_key = key, xe_result = ce_result e, xe_file_mtime = ce_file_mtime e, xe_file_size = ce_file_size e\<rparr>"
  have filtered: "filter (\<lambda>x. import_verdict wall fs (age * 86400) x = Imported) (export_cache c) = map ?x kept"
    by (simp add: export_cache_def assms(2) filter_map comp_def case_prod_unfold import_verdict_exported)
  have keys: "map xe_key (map ?x kept) = map fst kept" by (simp add: split_beta)
  have "distinct (map fst kept)" using assms(1) by (simp add: assms(2) dict_ok_def distinct_map_filter)
  then have dist: "distinct (map xe_key (map ?x kept))" by (simp only: keys)
  have "co_cache c' = fold (\<lambda>x. AList.update (xe_key x)
      \<lparr>ce_result = xe_result x, ce_cached_at = now, ce_file_mtime = xe_file_mtime x, ce_file_size = xe_file_size x\<rparr>) (map ?x kept) []"
    and "n = length (map ?x kept)"
    using assms(3) by (auto simp: import_cache_def new_coalescer_def Let_def filtered)
  then have "co_cache c' = map (\<lambda>x. (xe_key x,
      \<lparr>ce_result = xe_result x, ce_cached_at = now, ce_file_mtime = xe_file_mtime x, ce_file_size = xe_file_size x\<rparr>)) (map ?x kept)"
    and "n = length kept"
    using fold_update_by_key [OF dist, of "[]" "\<lambda>x. \<lparr>ce_result = xe_result x, ce_cached_at = now,
      ce_file_mtime = xe_file_mtime x, ce_file_size = xe_file_size x\<rparr>"] by simp_all
  then show ?thesis by (auto simp: cache_entry.defs)
qed

section \<open>Runs\<close>

text \<open>The steps of the relation as functions, for concrete runs.\<close>

definition run_elapse :: "real \<Rightarrow> files \<Rightarrow> ('r, 'e) world \<Rightarrow> ('r, 'e) world" where
  "run_elapse d fs w = w\<lparr>cw_now := cw_now w + d, cw_wall := cw_wall w + d, cw_files := fs\<rparr>"

definition run_request :: "string \<Rightarrow> ('r, 'e) world \<Rightarrow> ('r, 'e) world" where
  "run_request key w =
     (let (start, c) = get_or_compute (cw_files w) (cw_now w) (cw_wall w) key (cw_co w)
      in w\<lparr>cw_co := c, cw_requests := cw_requests w @ [request_of key (cw_now w) (co_compute_timeout c) start]\<rparr>)"

definition run_finish :: "nat \<Rightarrow> ('r, 'e) compute_outcome \<Rightarrow> ('r, 'e) world \<Rightarrow> ('r, 'e) world" where
  "run_finish i outcome w =
     (case cw_requests w ! i of
        Computing key f t mtime fsize \<Rightarrow>
          let (result, c) = finish_compute (cw_now w) key f mtime fsize outcome (cw_co w)
          in w\<lparr>cw_co := c, cw_requests := (cw_requests w)[i := Finished key result], cw_log := cw_log w @ log_of key mtime fsize result\<rparr>
      | _ \<Rightarrow> w)"

lemma run_elapse_step: "0 \<le> d \<Longrightarrow> co_step w (run_elapse d fs w)"
  unfolding run_elapse_def by (rule co_step.elapse)

lemma run_request_step: "co_step w (run_request key w)"
  by (auto simp: run_request_def split_beta intro: co_step.request [OF surjective_pairing])

lemma run_finish_step: "i < length (cw_requests w) \<Longrightarrow> computing_for key (cw_requests w ! i) \<Longrightarrow> co_step w (run_finish i outcome w)"
  by (auto simp: run_finish_def computing_for_def split_beta intro: co_step.finish [OF _ _ surjective_pairing] split: request_state.splits)

lemmas run_defs = run_elapse_def run_request_def run_finish_def initial_world_def new_world_def new_coalescer_def zero_stats_def
  get_or_compute_def run_cleanup_def get_valid_cached_result_def start_compute_def get_file_metadata_def request_of_def Let_def
  delete_expired_keys_def collect_expired_keys_def future_done_def set_future_def finish_compute_def store_result_def log_of_def
  cache_hit_def invalidate_def compute_failed_def

text \<open>Two requests for one file, of which the first computes.\<close>

definition sample_files :: files where
  "sample_files path = Some (5, 10)"

definition sample_shared :: "(nat, nat) world" where
  "sample_shared = run_request ''a'' (run_elapse 100 sample_files (run_request ''a'' (initial_world 10 600 168 300 14 0 0 sample_files)))"

definition sample_answered :: "(nat, nat) world" where
  "sample_answered = run_finish 0 (Computed (Analysis 7)) sample_shared"

lemma sample_shared_requests:
  "cw_requests sample_shared = [Computing ''a'' 0 0 (Some 5) (Some 10), Waiting ''a'' 0 460]"
  "co_futures (cw_co sample_shared) = [PendingFuture]" "cw_now sample_shared = 100"
  by (simp_all add: sample_shared_def sample_files_def run_defs)

lemma timely_request: "timely_step\<^sup>*\<^sup>* v w \<Longrightarrow> in_time (run_request key w) \<Longrightarrow> timely_step\<^sup>*\<^sup>* v (run_request key w)"
  unfolding timely_step_def by (rule rtranclp.rtrancl_into_rtrancl) (auto intro: run_request_step)

lemma timely_elapse: "timely_step\<^sup>*\<^sup>* v w \<Longrightarrow> 0 \<le> d \<Longrightarrow> in_time (run_elapse d fs w) \<Longrightarrow> timely_step\<^sup>*\<^sup>* v (run_elapse d fs w)"
  unfolding timely_step_def by (rule rtranclp.rtrancl_into_rtrancl) (auto intro: run_elapse_step)

lemma sample_timely: "timely_step\<^sup>*\<^sup>* (initial_world 10 600 168 300 14 0 0 sample_files) sample_shared"
  unfolding sample_shared_def
  by (rule timely_request timely_elapse rtranclp.rtrancl_refl | (simp add: in_time_def run_defs sample_files_def; fail))+

lemma timely_is_step: "timely_step\<^sup>*\<^sup>* w w' \<Longrightarrow> co_step\<^sup>*\<^sup>* w w'"
  by (induction rule: rtranclp_induct) (auto simp: timely_step_def intro: rtranclp.rtrancl_into_rtrancl)

lemma sample_answered_reach: "co_step\<^sup>*\<^sup>* (initial_world 10 600 168 300 14 0 0 sample_files) sample_answered"
proof -
  have "co_step sample_shared sample_answered"
    unfolding sample_answered_def by (rule run_finish_step) (simp_all add: sample_shared_requests computing_for_def)
  then show ?thesis using timely_is_step [OF sample_timely] by (rule rtranclp.rtrancl_into_rtrancl [rotated])
qed

theorem one_computation_per_key_witness:
  "length (cw_requests sample_shared) = 2 \<and> length (filter (computing_for ''a'') (cw_requests sample_shared))
    = (if map_of (co_in_flight (cw_co sample_shared)) ''a'' = None then 0 else 1)"
proof (rule conjI)
  show "length (cw_requests sample_shared) = 2" by (simp add: sample_shared_requests)
qed (rule one_computation_per_key [OF sample_timely])

theorem waiters_share_the_result_witness:
  "\<exists>j t mtime fsize. j < length (cw_requests sample_shared) \<and> cw_requests sample_shared ! j = Computing ''a'' 0 t mtime fsize
    \<and> (\<forall>outcome. wait_for_result FutureWakes
         (co_futures (snd (finish_compute (cw_now sample_shared) ''a'' 0 mtime fsize outcome (cw_co sample_shared))) ! 0)
           = Some (fst (finish_compute (cw_now sample_shared) ''a'' 0 mtime fsize outcome (cw_co sample_shared))))"
  by (rule waiters_share_the_result [OF sample_timely, where i = 1 and deadline = 460]) (simp_all add: sample_shared_requests)

theorem results_belong_to_their_file_witness:
  "cw_requests sample_answered ! 0 = Finished ''a'' (Inr (Analysis 7)) \<and> (\<exists>mtime fsize. (''a'', mtime, fsize, Analysis 7) \<in> set (cw_log sample_answered))"
proof (rule conjI)
  show fin: "cw_requests sample_answered ! 0 = Finished ''a'' (Inr (Analysis 7))"
    by (simp add: sample_answered_def run_defs sample_shared_requests)
  have "0 < length (cw_requests sample_answered)" by (simp add: sample_answered_def run_defs sample_shared_requests)
  from results_belong_to_their_file [OF sample_answered_reach this fin]
  show "\<exists>mtime fsize. (''a'', mtime, fsize, Analysis 7) \<in> set (cw_log sample_answered)" .
qed

theorem cache_serves_current_results_witness:
  "\<exists>c e mtime fsize. get_or_compute (cw_files sample_answered) (cw_now sample_answered) (cw_wall sample_answered) ''a'' (cw_co sample_answered)
      = (CacheHit (Analysis 7), c)
    \<and> map_of (co_cache (cw_co sample_answered)) ''a'' = Some e \<and> (''a'', mtime, fsize, Analysis 7) \<in> set (cw_log sample_answered)
    \<and> (cw_now sample_answered - ce_cached_at e < co_grace_period (cw_co sample_answered)
       \<or> get_file_metadata (cw_files sample_answered) ''a'' = (mtime, fsize) \<or> mtime = None)"
proof -
  have "\<exists>c. get_or_compute (cw_files sample_answered) (cw_now sample_answered) (cw_wall sample_answered) ''a'' (cw_co sample_answered)
      = (CacheHit (Analysis 7), c)"
    by (simp add: sample_answered_def sample_shared_def sample_files_def run_defs)
  then show ?thesis using cache_serves_current_results [OF sample_answered_reach] by blast
qed

theorem timeout_without_file_is_permanent_witness:
  "\<exists>c :: (nat, nat) coalescer. dict_ok (co_cache c) \<and> fst (get_or_compute sample_files 900 900 ''a'' c) = CacheHit (TimeoutPayload 300)"
proof -
  let ?c = "new_coalescer 10 600 168 300 14 0 :: (nat, nat) coalescer"
  let ?c' = "snd (finish_compute 300 ''a'' 0 None None ComputeTimedOut ?c)"
  have "dict_ok (co_cache ?c)" by (simp add: new_coalescer_def)
  from timeout_without_file_is_permanent [OF this refl, where fs = sample_files and now' = 900 and wall = 900 and key = "''a''" and now = 300 and f = 0]
  have "fst (get_or_compute sample_files 900 900 ''a'' ?c') = CacheHit (TimeoutPayload 300)" by (simp add: new_coalescer_def)
  moreover have "dict_ok (co_cache ?c')" by (simp add: run_defs dict_ok_def)
  ultimately show ?thesis by blast
qed

theorem exported_cache_is_restored_witness:
  "\<exists>kept n c'. n = length kept \<and> co_cache c' = map (\<lambda>(key, e). (key, e\<lparr>ce_cached_at := 50\<rparr>)) kept
    \<and> import_cache 50 50 sample_files (export_cache (cw_co sample_answered)) (new_coalescer 10 600 168 300 14 40 :: (nat, nat) coalescer) = (n, c')"
proof -
  obtain n c' where run: "import_cache 50 50 sample_files (export_cache (cw_co sample_answered))
      (new_coalescer 10 600 168 300 14 40 :: (nat, nat) coalescer) = (n, c')" by force
  have "dict_ok (co_cache (cw_co sample_answered))"
    by (simp add: sample_answered_def sample_shared_def sample_files_def run_defs dict_ok_def)
  from exported_cache_is_restored [OF this refl run] show ?thesis using run by blast
qed

section \<open>A computation that overruns\<close>

text \<open>
  a late owner unregisters its successor. When a computation runs for twice its timeout, cleanup
  fails its waiters and a new request starts another computation; when the first one ends after all,
  it removes the entry of the other: the second computation, in time and still running, is not
  registered any more, and the next request that finds the cached result stale starts a third beside it.
\<close>

theorem late_owner_unregisters_its_successor:
  "\<exists>w :: (nat, nat) world. co_step\<^sup>*\<^sup>* (initial_world 1 600 168 300 14 0 0 sample_files) w
    \<and> cw_requests w ! 1 = Computing ''a'' 1 600 (Some 5) (Some 10) \<and> co_futures (cw_co w) ! 1 = PendingFuture
    \<and> cw_now w = 600 \<and> map_of (co_in_flight (cw_co w)) ''a'' = None"
proof -
  let ?w0 = "initial_world 1 600 168 300 14 0 0 sample_files :: (nat, nat) world"
  let ?w2 = "run_request ''a'' (run_elapse 600 sample_files (run_request ''a'' ?w0))"
  let ?w3 = "run_finish 0 (Computed (Analysis 7)) ?w2"
  have "cw_requests ?w2 = [Computing ''a'' 0 0 (Some 5) (Some 10), Computing ''a'' 1 600 (Some 5) (Some 10)]"
    by (simp add: run_defs sample_files_def)
  then have "co_step ?w2 ?w3" by (intro run_finish_step) (simp_all add: computing_for_def)
  moreover have "co_step (run_request ''a'' ?w0) (run_elapse 600 sample_files (run_request ''a'' ?w0))" by (rule run_elapse_step) simp
  ultimately have "co_step\<^sup>*\<^sup>* ?w0 ?w3" by (meson run_request_step converse_rtranclp_into_rtranclp rtranclp.rtrancl_refl)
  moreover have "cw_requests ?w3 ! 1 = Computing ''a'' 1 600 (Some 5) (Some 10) \<and> co_futures (cw_co ?w3) ! 1 = PendingFuture
      \<and> cw_now ?w3 = 600 \<and> map_of (co_in_flight (cw_co ?w3)) ''a'' = None"
    by (simp add: run_defs sample_files_def)
  ultimately show ?thesis by blast
qed

end
