(* ===== verification/InprocStore.thy ===== *)
theory InprocStore
  imports RdzvStoreProps InprocRanks
begin

text \<open>
  The store operations of the in-process restart (\<open>inprocess/store.py\<close>, \<open>inprocess/attribution.py\<close>):
  ranks and interruption records as text that every process appends to, the fence around late
  records, and the two barriers in their steps between store calls. A store is the record of
  \<open>RdzvStore\<close> with \<open>append\<close>; each restart iteration has a store of its own, as the code prefixes
  its keys with the iteration.
\<close>

record 's append_store = "'s tcp_store" +
  st_append :: "string \<Rightarrow> string \<Rightarrow> 's \<Rightarrow> 's"

definition stored_text :: "string option \<Rightarrow> string" where
  "stored_text v = (case v of None \<Rightarrow> [] | Some t \<Rightarrow> t)"

lemma stored_text_simps [simp]: "stored_text None = []" "stored_text (Some t) = t"
  by (simp_all add: stored_text_def)

text \<open>\<open>append\<close> adds to the end of the value, and creates an absent key.\<close>

definition append_laws :: "('s, 'm) append_store_scheme \<Rightarrow> ('s \<Rightarrow> string \<Rightarrow> string option) \<Rightarrow> bool" where
  "append_laws st view \<longleftrightarrow> store_laws st view
     \<and> (\<forall>k v s. view (st_append st k v s) = (view s)(k \<mapsto> stored_text (view s k) @ v))"

definition dict_append_store :: "(string \<Rightarrow> string option) append_store" where
  "dict_append_store = tcp_store.extend dict_store
     \<lparr>st_append = \<lambda>k v m. m(k \<mapsto> (case m k of None \<Rightarrow> v | Some t \<Rightarrow> t @ v))\<rparr>"

section \<open>Packed ranks\<close>

definition get_packed :: "('s, 'm) append_store_scheme \<Rightarrow> string \<Rightarrow> char \<Rightarrow> 's \<Rightarrow> string list option" where
  "get_packed st key sep s = map_option (\<lambda>t. py_split sep (py_rstrip sep t)) (st_get st key s)"

definition not_blank :: "string \<Rightarrow> bool" where
  "not_blank w \<longleftrightarrow> py_strip w \<noteq> []"

text \<open>\<open>int(r) for r in get_packed(key, ',') if r.strip()\<close>; a part that is no number raises.\<close>

fun ints_of :: "string list \<Rightarrow> int list option" where
  "ints_of [] = Some []"
| "ints_of (w # ws) =
     (case py_int w of None \<Rightarrow> None | Some i \<Rightarrow> map_option (\<lambda>is. i # is) (ints_of ws))"

definition packed_ranks :: "('s, 'm) append_store_scheme \<Rightarrow> string \<Rightarrow> 's \<Rightarrow> store_error + int list" where
  "packed_ranks st key s =
     (case get_packed st key CHR '','' s of
        None \<Rightarrow> Inl (Blocked key)
      | Some ws \<Rightarrow> (case ints_of (filter not_blank ws) of None \<Rightarrow> Inl BadValue | Some is \<Rightarrow> Inr is))"

definition terminated_key :: string where "terminated_key = ''terminated_ranks''"
definition records_key :: string where "records_key = ''interruption_records''"
definition records_lock_key :: string where "records_lock_key = ''interruption_records_lock''"
definition interrupted_key :: string where "interrupted_key = ''any_rank_interrupted''"
definition completed_key :: string where "completed_key = ''any_rank_completed''"

definition record_terminated_ranks :: "('s, 'm) append_store_scheme \<Rightarrow> int list \<Rightarrow> 's \<Rightarrow> 's" where
  "record_terminated_ranks st ranks s =
     (let ranks_str = join '','' (map int_text ranks)
      in if ranks_str \<noteq> [] then st_append st terminated_key (ranks_str @ '','') s else s)"

definition get_terminated_ranks :: "('s, 'm) append_store_scheme \<Rightarrow> 's \<Rightarrow> (store_error + int set) \<times> 's" where
  "get_terminated_ranks st s =
     (let s = st_append st terminated_key '''' s
      in (res_bind (packed_ranks st terminated_key s) (\<lambda>is. Inr (set is)), s))"

section \<open>Interruption records\<close>

datatype interruption =
    EXCEPTION | BASE_EXCEPTION | SOFT_TIMEOUT | HARD_TIMEOUT | TERMINATED_RANK | UNRESPONSIVE
  | MONITOR_PROCESS_EXCEPTION

definition interruption_name :: "interruption \<Rightarrow> string" where
  "interruption_name i =
     (case i of EXCEPTION \<Rightarrow> ''EXCEPTION'' | BASE_EXCEPTION \<Rightarrow> ''BASE_EXCEPTION''
      | SOFT_TIMEOUT \<Rightarrow> ''SOFT_TIMEOUT'' | HARD_TIMEOUT \<Rightarrow> ''HARD_TIMEOUT'' | TERMINATED_RANK \<Rightarrow> ''TERMINATED''
      | UNRESPONSIVE \<Rightarrow> ''UNRESPONSIVE'' | MONITOR_PROCESS_EXCEPTION \<Rightarrow> ''MONITOR_PROCESS_EXCEPTION'')"

definition interruption_number :: "interruption \<Rightarrow> int" where
  "interruption_number i =
     (case i of EXCEPTION \<Rightarrow> 1 | BASE_EXCEPTION \<Rightarrow> 2 | SOFT_TIMEOUT \<Rightarrow> 3 | HARD_TIMEOUT \<Rightarrow> 4
      | TERMINATED_RANK \<Rightarrow> 5 | UNRESPONSIVE \<Rightarrow> 6 | MONITOR_PROCESS_EXCEPTION \<Rightarrow> 7)"

datatype interruption_record = InterruptionRecord (ir_rank: int) (ir_interruption: interruption)

text \<open>\<open>str\<close> of the dataclass, and the two searches of \<open>from_str\<close>: the first occurrence that matches.\<close>

definition record_text :: "interruption_record \<Rightarrow> string" where
  "record_text r =
     ''InterruptionRecord(rank='' @ int_text (ir_rank r) @ '', interruption=<Interruption.''
     @ interruption_name (ir_interruption r) @ '': '' @ int_text (interruption_number (ir_interruption r)) @ ''>)''"

definition is_word :: "char \<Rightarrow> bool" where
  "is_word c \<longleftrightarrow> py_isdigit c \<or> c = CHR ''_'' \<or>
     (let n = of_char c :: nat in 65 \<le> n \<and> n \<le> 90 \<or> 97 \<le> n \<and> n \<le> 122)"

fun search_after :: "string \<Rightarrow> (char \<Rightarrow> bool) \<Rightarrow> string \<Rightarrow> string option" where
  "search_after pat P s =
     (if take (length pat) s = pat \<and> takeWhile P (drop (length pat) s) \<noteq> []
      then Some (takeWhile P (drop (length pat) s))
      else case s of [] \<Rightarrow> None | _ # t \<Rightarrow> search_after pat P t)"

declare search_after.simps [simp del]

definition interruption_of :: "string \<Rightarrow> interruption option" where
  "interruption_of name =
     find (\<lambda>i. interruption_name i = name)
       [EXCEPTION, BASE_EXCEPTION, SOFT_TIMEOUT, HARD_TIMEOUT, TERMINATED_RANK, UNRESPONSIVE, MONITOR_PROCESS_EXCEPTION]"

definition record_from_str :: "string \<Rightarrow> store_error + interruption_record" where
  "record_from_str s =
     (case (search_after ''rank='' py_isdigit s, search_after ''Interruption.'' is_word s) of
        (Some r, Some i) \<Rightarrow>
          (case (py_int r, interruption_of i) of
             (Some rank, Some intr) \<Rightarrow> Inr (InterruptionRecord rank intr)
           | _ \<Rightarrow> Inl BadValue)
      | _ \<Rightarrow> Inl BadValue)"

text \<open>The records are given as the texts \<open>str(r)\<close>; the store never sees more of them.\<close>

definition record_interrupted :: "('s, 'm) append_store_scheme \<Rightarrow> string list option \<Rightarrow> 's \<Rightarrow> 's" where
  "record_interrupted st records s =
     (let s = (case records of
                 None \<Rightarrow> s
               | Some rs \<Rightarrow>
                   let s = st_append st records_key '''' s;
                       (lock, s) = st_add st records_lock_key 0 s
                   in if lock \<noteq> 0 then s
                      else st_append st records_key (join '';'' rs @ '';'') s)
      in st_set st interrupted_key '''' s)"

definition record_completed :: "('s, 'm) append_store_scheme \<Rightarrow> 's \<Rightarrow> 's" where
  "record_completed st s = st_set st completed_key '''' s"

definition lock_interruption_records :: "('s, 'm) append_store_scheme \<Rightarrow> 's \<Rightarrow> 's" where
  "lock_interruption_records st s = snd (st_add st records_lock_key 1 s)"

definition get_interruption_records ::
  "('s, 'm) append_store_scheme \<Rightarrow> 's \<Rightarrow> (store_error + interruption_record list) \<times> 's" where
  "get_interruption_records st s =
     (let s = st_append st records_key '''' s
      in (case get_packed st records_key CHR '';'' s of
            None \<Rightarrow> Inl (Blocked records_key)
          | Some ws \<Rightarrow> res_map record_from_str (filter not_blank ws), s))"

section \<open>Values of one rank\<close>

definition active_rank_key :: "int \<Rightarrow> string" where "active_rank_key rank = ''active_rank_'' @ int_text rank"
definition initial_rank_key :: "int \<Rightarrow> string" where "initial_rank_key rank = ''initial_rank_'' @ int_text rank"
definition heartbeat_key :: "int \<Rightarrow> string" where "heartbeat_key rank = ''heartbeat_'' @ int_text rank"

text \<open>A mode other than the two raises.\<close>

definition set_active_rank :: "('s, 'm) append_store_scheme \<Rightarrow> int \<Rightarrow> rank_mode \<Rightarrow> 's \<Rightarrow> 's option" where
  "set_active_rank st rank active s =
     (case active of
        ACTIVE \<Rightarrow> Some (st_set st (active_rank_key rank) ''1'' s)
      | INACTIVE \<Rightarrow> Some (st_set st (active_rank_key rank) '''' s)
      | _ \<Rightarrow> None)"

definition get_all_active_ranks :: "('s, 'm) append_store_scheme \<Rightarrow> int \<Rightarrow> 's \<Rightarrow> bool list option" where
  "get_all_active_ranks st world_size s =
     map_option (map (\<lambda>v. v \<noteq> [])) (st_multi_get st (map active_rank_key [0..world_size - 1]) s)"

definition set_initial_rank :: "('s, 'm) append_store_scheme \<Rightarrow> int \<Rightarrow> int \<Rightarrow> 's \<Rightarrow> 's" where
  "set_initial_rank st rank initial_rank s = st_set st (initial_rank_key rank) (int_text initial_rank) s"

text \<open>What comes back is the list of stored bytes; nothing turns them into numbers.\<close>

definition get_initial_ranks :: "('s, 'm) append_store_scheme \<Rightarrow> int list \<Rightarrow> 's \<Rightarrow> string list option" where
  "get_initial_ranks st ranks s = st_multi_get st (map initial_rank_key ranks) s"

text \<open>\<open>str\<close> of bytes that are plain ASCII without quotes and backslashes.\<close>

definition bytes_text :: "string \<Rightarrow> string" where
  "bytes_text v = CHR ''b'' # CHR 0x27 # v @ [CHR 0x27]"

text \<open>The time as the text that \<open>str\<close> makes of it and \<open>float\<close> reads.\<close>

definition send_heartbeat :: "('s, 'm) append_store_scheme \<Rightarrow> (real \<Rightarrow> string) \<Rightarrow> real \<Rightarrow> int \<Rightarrow> 's \<Rightarrow> 's" where
  "send_heartbeat st float_text now rank s = st_set st (heartbeat_key rank) (float_text now) s"

definition get_heartbeat ::
  "('s, 'm) append_store_scheme \<Rightarrow> (string \<Rightarrow> real option) \<Rightarrow> int \<Rightarrow> 's \<Rightarrow> store_error + real" where
  "get_heartbeat st text_float rank s =
     (case st_get st (heartbeat_key rank) s of
        None \<Rightarrow> Inl (Blocked (heartbeat_key rank))
      | Some v \<Rightarrow> (case text_float v of None \<Rightarrow> Inl BadValue | Some t \<Rightarrow> Inr t))"

definition get_all_heartbeats ::
  "('s, 'm) append_store_scheme \<Rightarrow> (string \<Rightarrow> real option) \<Rightarrow> int \<Rightarrow> 's \<Rightarrow> store_error + real list" where
  "get_all_heartbeats st text_float world_size s =
     (case st_multi_get st (map heartbeat_key [0..world_size - 1]) s of
        None \<Rightarrow> Inl (Blocked (heartbeat_key 0))
      | Some vs \<Rightarrow> (case those (map text_float vs) of None \<Rightarrow> Inl BadValue | Some ts \<Rightarrow> Inr ts))"

section \<open>A store for an iteration\<close>

text \<open>
  \<open>PrefixStore\<close> is documented to add its prefix to each key given to the store it wraps; how torch
  joins the two is the parameter \<open>p\<close>, of which the code needs that different keys stay different.
\<close>

definition store_prefix :: "int \<Rightarrow> string" where
  "store_prefix iteration = ''_inprocess_'' @ int_text iteration"

definition prefix_store :: "(string \<Rightarrow> string) \<Rightarrow> 's append_store \<Rightarrow> 's append_store" where
  "prefix_store p st =
     \<lparr>st_check = \<lambda>ks. st_check st (map p ks), st_get = \<lambda>k. st_get st (p k), st_set = \<lambda>k. st_set st (p k),
      st_add = \<lambda>k. st_add st (p k), st_compare_set = \<lambda>k. st_compare_set st (p k),
      st_multi_get = \<lambda>ks. st_multi_get st (map p ks), st_multi_set = \<lambda>ks. st_multi_set st (map p ks),
      st_append = \<lambda>k. st_append st (p k)\<rparr>"

section \<open>Appended text reads back\<close>

lemma py_split_append: "\<forall>w \<in> set vs. c \<notin> set w \<Longrightarrow> c \<notin> set w \<Longrightarrow>
    py_split c (concat (map (\<lambda>v. v @ [c]) vs) @ w) = vs @ [w]"
  by (induction vs) (simp_all add: py_split_plain py_split_sep)

lemma py_split_strip_parts:
  assumes "\<forall>w \<in> set ps. c \<notin> set w" and "\<not> P []"
  shows "filter P (py_split c (py_rstrip c (concat (map (\<lambda>w. w @ [c]) ps)))) = filter P ps"
  using assms(1)
proof (induction ps rule: rev_induct)
  case Nil
  then show ?case using assms(2) by (simp add: py_rstrip_def)
next
  case (snoc w ps)
  show ?case
  proof (cases "w = []")
    case True
    then have "py_rstrip c (concat (map (\<lambda>w. w @ [c]) (ps @ [w]))) = py_rstrip c (concat (map (\<lambda>w. w @ [c]) ps))"
      by (simp add: py_rstrip_def)
    then show ?thesis using snoc True assms(2) by simp
  next
    case False
    then have "hd (rev w) \<noteq> c" using snoc.prems by (simp add: hd_rev) (metis last_in_set)
    then have "py_rstrip c (concat (map (\<lambda>w. w @ [c]) (ps @ [w]))) = concat (map (\<lambda>w. w @ [c]) ps) @ w"
      using False by (cases "rev w") (auto simp: py_rstrip_def rev_swap)
    then show ?thesis using snoc.prems by (simp add: py_split_append del: concat_append)
  qed
qed

text \<open>The text of a list of parts, each ended by the separator; what a process appends is one.\<close>

definition parts_text :: "char \<Rightarrow> string list \<Rightarrow> string" where
  "parts_text c ps = concat (map (\<lambda>w. w @ [c]) ps)"

lemma parts_text_append [simp]: "parts_text c (ps @ qs) = parts_text c ps @ parts_text c qs"
  by (simp add: parts_text_def)

lemma parts_text_Nil [simp]: "parts_text c [] = []"
  by (simp add: parts_text_def)

lemma join_text: "join [c] ws @ [c] = parts_text c (if ws = [] then [[]] else ws)"
  by (induction "[c]" ws rule: join.induct) (auto simp: parts_text_def)

lemma int_text_not_blank: "not_blank (int_text i)"
  using py_int_int_text [of i] by (auto simp: not_blank_def py_int_def split: list.splits)

lemma not_blank_Nil: "\<not> not_blank []"
  by (simp add: not_blank_def py_strip_def)

lemma ints_of_texts: "ints_of (map int_text is) = Some is"
  by (induction "is") (simp_all add: py_int_int_text)

lemma int_text_no_comma: "CHR '','' \<notin> set (int_text i)"
  by (rule int_text_plain) (simp_all add: py_isdigit_def)

text \<open>A key whose value is made of parts, each ended by the separator, and of empty parts.\<close>

definition plain_part :: "char \<Rightarrow> string \<Rightarrow> bool" where
  "plain_part c w \<longleftrightarrow> c \<notin> set w \<and> not_blank w"

definition holds_parts :: "char \<Rightarrow> string option \<Rightarrow> string list \<Rightarrow> bool" where
  "holds_parts c v ws \<longleftrightarrow> list_all (plain_part c) ws
     \<and> (\<exists>ps. filter (\<lambda>w. w \<noteq> []) ps = ws \<and> parts_text c ps = stored_text v)"

lemma holds_parts_None [simp]: "holds_parts c None []"
  unfolding holds_parts_def by (auto intro: exI [of _ "[]"])

lemma holds_parts_append:
  assumes "holds_parts c v ws" and "list_all (plain_part c) qs"
  shows "holds_parts c (Some (stored_text v @ join [c] qs @ [c])) (ws @ qs)"
proof -
  from assms(1) obtain ps where ps: "filter (\<lambda>w. w \<noteq> []) ps = ws" "parts_text c ps = stored_text v"
    unfolding holds_parts_def by blast
  let ?qs = "if qs = [] then [[]] else qs"
  have "\<forall>w \<in> set qs. w \<noteq> []"
    using assms(2) not_blank_Nil by (auto simp: list_all_iff plain_part_def)
  then have "filter (\<lambda>w. w \<noteq> []) (ps @ ?qs) = ws @ qs"
    using ps(1) by (auto simp: filter_id_conv)
  moreover have "parts_text c (ps @ ?qs) = stored_text v @ join [c] qs @ [c]"
    unfolding parts_text_append ps(2) join_text [of c qs] ..
  ultimately show ?thesis
    using assms unfolding holds_parts_def stored_text_simps list_all_append by blast
qed

lemma holds_parts_touch: "holds_parts c v ws \<Longrightarrow> holds_parts c (Some (stored_text v)) ws"
  by (simp add: holds_parts_def)

lemma holds_parts_read:
  assumes "holds_parts c (Some t) ws"
  shows "filter not_blank (py_split c (py_rstrip c t)) = ws"
proof -
  from assms obtain ps where ps: "filter (\<lambda>w. w \<noteq> []) ps = ws" "parts_text c ps = t"
    and plain: "list_all (plain_part c) ws"
    by (auto simp: holds_parts_def)
  have part: "w = [] \<or> plain_part c w" if "w \<in> set ps" for w
    using that plain ps(1) by (auto simp: list_all_iff)
  then have "\<forall>w \<in> set ps. c \<notin> set w" by (fastforce simp: plain_part_def)
  from py_split_strip_parts [where P = not_blank, OF this not_blank_Nil]
  have "filter not_blank (py_split c (py_rstrip c t)) = filter not_blank ps"
    using ps(2) by (simp add: parts_text_def)
  also have "\<dots> = filter (\<lambda>w. w \<noteq> []) ps"
    by (rule filter_cong [OF refl]) (use part not_blank_Nil in \<open>auto simp: plain_part_def\<close>)
  finally show ?thesis using ps(1) by simp
qed

text \<open>A key whose value is a list of ranks in decimal.\<close>

definition holds_ranks :: "string option \<Rightarrow> int list \<Rightarrow> bool" where
  "holds_ranks v rs \<longleftrightarrow> holds_parts CHR '','' v (map int_text rs)"

lemma int_texts_plain: "list_all (plain_part CHR '','') (map int_text is)"
  by (simp add: list_all_iff plain_part_def int_text_no_comma int_text_not_blank)

lemma holds_ranks_None [simp]: "holds_ranks None []"
  by (simp add: holds_ranks_def)

lemma holds_ranks_append:
  "holds_ranks v rs \<Longrightarrow> holds_ranks (Some (stored_text v @ join '','' (map int_text qs) @ '','')) (rs @ qs)"
  using holds_parts_append [OF _ int_texts_plain] by (simp add: holds_ranks_def)

lemma holds_ranks_touch: "holds_ranks v rs \<Longrightarrow> holds_ranks (Some (stored_text v)) rs"
  by (simp add: holds_ranks_def holds_parts_touch)

lemma holds_ranks_read:
  "holds_ranks (Some t) rs \<Longrightarrow> ints_of (filter not_blank (py_split CHR '','' (py_rstrip CHR '','' t))) = Some rs"
  by (simp add: holds_ranks_def holds_parts_read ints_of_texts)

section \<open>What the operations do to the contents\<close>

lemma append_lawsD:
  assumes "append_laws st view"
  shows "view (st_append st k v s) = (view s)(k \<mapsto> stored_text (view s k) @ v)"
    and "view (st_set st k v s) = (view s)(k \<mapsto> v)" and "st_get st k s = view s k"
    and "st_check st ks s = (\<forall>k \<in> set ks. view s k \<noteq> None)"
    and "fst (st_add st k n s) = count_text (view s k) + n"
    and "view (snd (st_add st k n s)) = (view s)(k \<mapsto> int_text (count_text (view s k) + n))"
  using assms by (simp_all add: append_laws_def store_laws_def)

lemma dict_append_store_laws: "append_laws dict_append_store (\<lambda>m. m)"
  using dict_store_laws
  by (auto simp: append_laws_def dict_append_store_def tcp_store.defs store_laws_def stored_text_def split: option.splits)

lemma packed_ranks_holds:
  assumes "append_laws st view" and "holds_ranks (view s k) rs" and "view s k \<noteq> None"
  shows "packed_ranks st k s = Inr rs"
  using assms holds_ranks_read [of _ rs]
  by (auto simp: packed_ranks_def get_packed_def append_lawsD(3) [OF assms(1)])

lemma record_terminated_holds:
  assumes "append_laws st view" and "holds_ranks (view s terminated_key) rs"
  shows "holds_ranks (view (record_terminated_ranks st qs s) terminated_key) (rs @ qs)"
    and "k \<noteq> terminated_key \<Longrightarrow> view (record_terminated_ranks st qs s) k = view s k"
proof -
  have "join '','' (map int_text qs) = [] \<longleftrightarrow> qs = []" by (cases qs; cases "tl qs") auto
  then show "holds_ranks (view (record_terminated_ranks st qs s) terminated_key) (rs @ qs)"
    using assms(2) holds_ranks_append [OF assms(2), of qs] append_lawsD(1) [OF assms(1)]
    by (auto simp: record_terminated_ranks_def Let_def)
  show "k \<noteq> terminated_key \<Longrightarrow> view (record_terminated_ranks st qs s) k = view s k"
    using append_lawsD(1) [OF assms(1)] by (simp add: record_terminated_ranks_def Let_def)
qed

lemma get_terminated_holds:
  assumes "append_laws st view" and "holds_ranks (view s terminated_key) rs"
  shows "fst (get_terminated_ranks st s) = Inr (set rs)"
    and "holds_ranks (view (snd (get_terminated_ranks st s)) terminated_key) rs"
    and "k \<noteq> terminated_key \<Longrightarrow> view (snd (get_terminated_ranks st s)) k = view s k"
proof -
  let ?s = "st_append st terminated_key '''' s"
  have v: "view ?s = (view s)(terminated_key \<mapsto> stored_text (view s terminated_key))"
    using append_lawsD(1) [OF assms(1)] by simp
  then have h: "holds_ranks (view ?s terminated_key) rs" using holds_ranks_touch [OF assms(2)] by simp
  then show "fst (get_terminated_ranks st s) = Inr (set rs)"
    using packed_ranks_holds [OF assms(1) h] v by (simp add: get_terminated_ranks_def Let_def)
  show "holds_ranks (view (snd (get_terminated_ranks st s)) terminated_key) rs"
    "k \<noteq> terminated_key \<Longrightarrow> view (snd (get_terminated_ranks st s)) k = view s k"
    using h v by (simp_all add: get_terminated_ranks_def Let_def)
qed

section \<open>Interruption records read back\<close>

lemma search_after_skip:
  assumes "pat = c # cs" and "c \<notin> set w"
  shows "search_after pat P (w @ s) = search_after pat P s"
  using assms(2)
proof (induction w)
  case (Cons x w)
  then show ?case using assms(1) by (subst search_after.simps) auto
qed simp

lemma takeWhile_stop: "list_all P w \<Longrightarrow> \<not> P d \<Longrightarrow> takeWhile P (w @ d # s) = w"
  by (induction w) auto

lemma interruption_name_word: "list_all is_word (interruption_name i)" "interruption_name i \<noteq> []"
  by (cases i; simp add: interruption_name_def is_word_def)+

lemma interruption_of_name: "interruption_of (interruption_name i) = Some i"
  by (cases i; simp add: interruption_name_def interruption_of_def)

lemma record_from_str_text:
  assumes "0 \<le> ir_rank r"
  shows "record_from_str (record_text r @ post) = Inr r"
proof -
  have digits: "list_all py_isdigit (int_text (ir_rank r))"
    using assms nat_text_digits by (simp add: int_text_def)
  then have no_I: "CHR ''I'' \<notin> set (int_text (ir_rank r))" by (auto simp: list_all_iff py_isdigit_def)
  let ?tail = "interruption_name (ir_interruption r) @ CHR '':'' # CHR '' '' # int_text (interruption_number (ir_interruption r)) @ ''>)'' @ post"
  have "takeWhile py_isdigit (int_text (ir_rank r) @ CHR '','' # t) = int_text (ir_rank r)" for t
    by (rule takeWhile_stop [OF digits]) (simp add: py_isdigit_def)
  then have rank: "search_after ''rank='' py_isdigit (record_text r @ post) = Some (int_text (ir_rank r))"
    by (simp add: record_text_def search_after.simps [of _ _ "_ # _"])
  have name: "takeWhile is_word (interruption_name (ir_interruption r) @ CHR '':'' # t) = interruption_name (ir_interruption r)" for t
    by (rule takeWhile_stop [OF interruption_name_word(1)]) (simp add: is_word_def py_isdigit_def)
  have "search_after ''Interruption.'' is_word (record_text r @ post)
      = search_after ''Interruption.'' is_word (int_text (ir_rank r) @ '', interruption=<Interruption.'' @ ?tail)"
    by (simp add: record_text_def search_after.simps [of _ _ "_ # _"])
  also have "\<dots> = search_after ''Interruption.'' is_word ('', interruption=<Interruption.'' @ ?tail)"
    by (rule search_after_skip [OF refl no_I])
  also have "\<dots> = Some (interruption_name (ir_interruption r))"
    by (simp add: search_after.simps [of _ _ "_ # _"] name interruption_name_word(2))
  finally show ?thesis
    using rank by (simp add: record_from_str_def py_int_int_text interruption_of_name)
qed

text \<open>The records of a rank's own process arrive inside a list, which the search steps over.\<close>

lemma record_from_str_bracket: "record_from_str (CHR ''['' # s) = record_from_str s"
  by (simp add: record_from_str_def search_after.simps [of _ _ "_ # _"])

end
