(* ===== verification/InprocBarrier.thy ===== *)
theory InprocBarrier
  imports InprocStore
begin

text \<open>
  The barriers of the in-process restart (\<open>inprocess/store.py\<close>) as steps between store calls, and
  the end of a restart iteration: ranks that go down are recorded as terminated and brought to the
  iteration barrier, by themselves, by their monitor process or by a sibling; the survivors leave
  the barrier and read who was terminated (\<open>wrap.py\<close>, \<open>monitor_process.py\<close>, \<open>sibling_monitor.py\<close>).
\<close>

section \<open>Keys\<close>

definition barrier_key :: "string \<Rightarrow> string \<Rightarrow> string" where
  "barrier_key kind group_name = ''inprocess_barrier_prefix:'' @ kind @ '':'' @ group_name"

definition last_arrived_key :: "string \<Rightarrow> string" where
  "last_arrived_key store_key = store_key @ '':last_worker_arrived''"

definition arrived_key :: "string \<Rightarrow> string" where
  "arrived_key store_key = store_key @ '':arrived''"

lemma arrived_not_last [simp]: "arrived_key k \<noteq> last_arrived_key k" "last_arrived_key k \<noteq> arrived_key k"
  by (simp_all add: arrived_key_def last_arrived_key_def)

section \<open>The reentrant barrier\<close>

text \<open>
  One caller between its store calls. The ranks are the texts \<open>str(r)\<close> of what it was given; the
  caller waits when its timeout is not zero, and its wait may find that the time is over.
\<close>

datatype barrier_at =
    AtEnter | AtCount | AtRelease | AtWait | Passed | Overflow "int list" | TimedOut | Broken store_error

definition after_release :: "bool \<Rightarrow> barrier_at" where
  "after_release waits = (if waits then AtWait else Passed)"

fun reentrant_turn ::
  "('s, 'm) append_store_scheme \<Rightarrow> string \<Rightarrow> string list \<Rightarrow> int \<Rightarrow> bool \<Rightarrow> bool \<Rightarrow> barrier_at \<Rightarrow> 's
    \<Rightarrow> barrier_at \<times> 's" where
  "reentrant_turn st key ranks needed waits elapsed AtEnter s =
     (AtCount, st_append st (arrived_key key) (join '','' ranks @ '','') s)"
| "reentrant_turn st key ranks needed waits elapsed AtCount s =
     (case packed_ranks st (arrived_key key) s of
        Inl e \<Rightarrow> (Broken e, s)
      | Inr is \<Rightarrow>
          let arrived_count = int (card (set is))
          in (if arrived_count > needed then Overflow (sorted_list_of_set (set is))
              else if arrived_count = needed then AtRelease else after_release waits, s))"
| "reentrant_turn st key ranks needed waits elapsed AtRelease s =
     (after_release waits, st_set st (last_arrived_key key) ''1'' s)"
| "reentrant_turn st key ranks needed waits elapsed AtWait s =
     (if st_check st [last_arrived_key key] s then Passed else if elapsed then TimedOut else AtWait, s)"
| "reentrant_turn st key ranks needed waits elapsed pc s = (pc, s)"

text \<open>\<open>is_rank_at_reentrant_barrier\<close>\<close>

definition is_rank_at_reentrant_barrier ::
  "('s, 'm) append_store_scheme \<Rightarrow> string \<Rightarrow> int \<Rightarrow> 's \<Rightarrow> (store_error + bool) \<times> 's" where
  "is_rank_at_reentrant_barrier st key rank s =
     (let s = st_append st (arrived_key key) '''' s
      in (res_bind (packed_ranks st (arrived_key key) s) (\<lambda>is. Inr (rank \<in> set is)), s))"

section \<open>The plain barrier\<close>

datatype plain_at =
    PlEnter | PlArrive int | PlDecide int | PlRelease | PlWait | PlPassed | PlOverflow int "int list"
  | PlTimedOut | PlBroken store_error

fun plain_turn ::
  "('s, 'm) append_store_scheme \<Rightarrow> string \<Rightarrow> int list \<Rightarrow> int \<Rightarrow> bool \<Rightarrow> bool \<Rightarrow> plain_at \<Rightarrow> 's
    \<Rightarrow> plain_at \<times> 's" where
  "plain_turn st key ranks needed waits elapsed PlEnter s =
     (let (n, s) = st_add st key (int (card (set ranks))) s in (PlArrive n, s))"
| "plain_turn st key ranks needed waits elapsed (PlArrive n) s =
     (PlDecide n, st_append st (arrived_key key) (join '','' (map int_text ranks) @ '','') s)"
| "plain_turn st key ranks needed waits elapsed (PlDecide n) s =
     (if n > needed
      then (case packed_ranks st (arrived_key key) s of
              Inl e \<Rightarrow> PlBroken e | Inr is \<Rightarrow> PlOverflow n (sort is))
      else if n = needed then PlRelease else if waits then PlWait else PlPassed, s)"
| "plain_turn st key ranks needed waits elapsed PlRelease s =
     (if waits then PlWait else PlPassed, st_set st (last_arrived_key key) ''1'' s)"
| "plain_turn st key ranks needed waits elapsed PlWait s =
     (if st_check st [last_arrived_key key] s then PlPassed else if elapsed then PlTimedOut else PlWait, s)"
| "plain_turn st key ranks needed waits elapsed pc s = (pc, s)"

section \<open>The end of an iteration\<close>

definition iteration_key :: string where
  "iteration_key = barrier_key ''reentrant_barrier'' ''iteration_barrier''"

text \<open>
  A participant: the ranks it records as terminated (none for a survivor), the ranks it brings to
  the barrier, whether it waits there, and whether it reads the terminated ranks afterwards.
\<close>

record restarter =
  re_terminates :: "int list"
  re_ranks :: "int list"
  re_waits :: bool
  re_reads :: bool

definition survivor :: "int \<Rightarrow> restarter" where
  "survivor r = \<lparr>re_terminates = [], re_ranks = [r], re_waits = True, re_reads = True\<rparr>"

definition leaving :: "int \<Rightarrow> restarter" where
  "leaving r = \<lparr>re_terminates = [r], re_ranks = [r], re_waits = True, re_reads = False\<rparr>"

definition sibling_of :: "int list \<Rightarrow> restarter" where
  "sibling_of rs = \<lparr>re_terminates = rs, re_ranks = rs, re_waits = False, re_reads = False\<rparr>"

datatype restart_at =
    ReTerminate | ReBarrier barrier_at | ReRead | ReDone "int set" | ReEnd | ReFailed barrier_at

definition after_barrier :: "restarter \<Rightarrow> barrier_at \<Rightarrow> restart_at" where
  "after_barrier p a =
     (case a of
        Passed \<Rightarrow> if re_reads p then ReRead else ReEnd
      | Overflow rs \<Rightarrow> ReFailed (Overflow rs)
      | TimedOut \<Rightarrow> ReFailed TimedOut
      | Broken e \<Rightarrow> ReFailed (Broken e)
      | _ \<Rightarrow> ReBarrier a)"

fun restart_turn ::
  "('s, 'm) append_store_scheme \<Rightarrow> int \<Rightarrow> bool \<Rightarrow> restarter \<Rightarrow> restart_at \<Rightarrow> 's \<Rightarrow> restart_at \<times> 's" where
  "restart_turn st needed elapsed p ReTerminate s =
     (ReBarrier AtEnter, record_terminated_ranks st (re_terminates p) s)"
| "restart_turn st needed elapsed p (ReBarrier a) s =
     (let (a', s') = reentrant_turn st iteration_key (map int_text (re_ranks p)) needed (re_waits p) elapsed a s
      in (after_barrier p a', s'))"
| "restart_turn st needed elapsed p ReRead s =
     (case get_terminated_ranks st s of
        (Inl e, s') \<Rightarrow> (ReFailed (Broken e), s')
      | (Inr ts, s') \<Rightarrow> (ReDone ts, s'))"
| "restart_turn st needed elapsed p pc s = (pc, s)"

text \<open>Any participant takes a turn; the store and the participants' positions are the state.\<close>

inductive restart_step ::
  "('s, 'm) append_store_scheme \<Rightarrow> int \<Rightarrow> restarter list \<Rightarrow> restart_at list \<times> 's \<Rightarrow> restart_at list \<times> 's \<Rightarrow> bool"
  for st :: "('s, 'm) append_store_scheme" and needed :: int and ps :: "restarter list" where
  turn: "i < length ps \<Longrightarrow> restart_turn st needed elapsed (ps ! i) (ats ! i) s = (a, s') \<Longrightarrow>
    restart_step st needed ps (ats, s) (ats[i := a], s')"

definition restart_begin :: "restarter list \<Rightarrow> restart_at list" where
  "restart_begin ps = map (\<lambda>_. ReTerminate) ps"

section \<open>The invariant of the iteration barrier\<close>

text \<open>Which ranks have been brought to the barrier and recorded as terminated so far.\<close>

definition has_recorded :: "restart_at \<Rightarrow> bool" where
  "has_recorded pc \<longleftrightarrow> pc \<noteq> ReTerminate"

definition has_entered :: "restart_at \<Rightarrow> bool" where
  "has_entered pc \<longleftrightarrow> pc \<noteq> ReTerminate \<and> pc \<noteq> ReBarrier AtEnter"

definition entered_ranks :: "restarter list \<Rightarrow> restart_at list \<Rightarrow> int set" where
  "entered_ranks ps ats = (\<Union>i \<in> {i. i < length ps \<and> has_entered (ats ! i)}. set (re_ranks (ps ! i)))"

definition recorded_ranks :: "restarter list \<Rightarrow> restart_at list \<Rightarrow> int set" where
  "recorded_ranks ps ats = (\<Union>i \<in> {i. i < length ps \<and> has_recorded (ats ! i)}. set (re_terminates (ps ! i)))"

definition down_ranks :: "restarter list \<Rightarrow> int set" where
  "down_ranks ps = (\<Union>p \<in> set ps. set (re_terminates p))"

text \<open>
  The participants of an iteration of n ranks: they bring ranks of the world, and a rank that anyone
  records as terminated is only brought to the barrier by those who record it.
\<close>

definition restarters_ok :: "nat \<Rightarrow> restarter list \<Rightarrow> bool" where
  "restarters_ok n ps \<longleftrightarrow>
     (\<forall>p \<in> set ps. set (re_ranks p) \<subseteq> {0..<int n} \<and> set (re_terminates p) \<subseteq> {0..<int n}
        \<and> set (re_ranks p) \<inter> down_ranks ps \<subseteq> set (re_terminates p))"

definition waited_through :: "restarter \<Rightarrow> restart_at \<Rightarrow> bool" where
  "waited_through p pc \<longleftrightarrow> re_waits p \<and> (pc = ReRead \<or> pc = ReEnd \<or> (\<exists>T. pc = ReDone T))"

text \<open>What holds of one participant; whether all ranks have entered is the argument.\<close>

definition place_ok :: "bool \<Rightarrow> bool \<Rightarrow> int set \<Rightarrow> restarter \<Rightarrow> restart_at \<Rightarrow> bool" where
  "place_ok full touched down p a \<longleftrightarrow>
     (a = ReBarrier AtRelease \<longrightarrow> full) \<and> (waited_through p a \<longrightarrow> full)
     \<and> (\<forall>T. a = ReDone T \<and> re_waits p \<longrightarrow> T = down) \<and> (\<forall>f. a = ReFailed f \<longrightarrow> f = TimedOut)
     \<and> (a = ReBarrier AtCount \<longrightarrow> touched) \<and> a \<notin> ReBarrier ` {Passed, TimedOut}
     \<and> (\<forall>e. a \<noteq> ReBarrier (Broken e)) \<and> (\<forall>is. a \<noteq> ReBarrier (Overflow is))"

definition restart_inv ::
  "('s \<Rightarrow> string \<Rightarrow> string option) \<Rightarrow> nat \<Rightarrow> restarter list \<Rightarrow> restart_at list \<times> 's \<Rightarrow> bool" where
  "restart_inv view n ps st \<longleftrightarrow>
     (case st of (ats, s) \<Rightarrow> length ats = length ps
        \<and> (\<exists>as. holds_ranks (view s (arrived_key iteration_key)) as \<and> set as = entered_ranks ps ats)
        \<and> (\<exists>ts. holds_ranks (view s terminated_key) ts \<and> set ts = recorded_ranks ps ats)
        \<and> (view s (last_arrived_key iteration_key) \<noteq> None \<longrightarrow> entered_ranks ps ats = {0..<int n})
        \<and> (entered_ranks ps ats = {0..<int n} \<and> 0 < n \<longrightarrow>
             view s (last_arrived_key iteration_key) \<noteq> None
             \<or> (\<exists>k < length ps. ats ! k \<in> ReBarrier ` {AtCount, AtRelease}))
        \<and> (\<forall>k < length ps. place_ok (entered_ranks ps ats = {0..<int n})
             (view s (arrived_key iteration_key) \<noteq> None) (down_ranks ps) (ps ! k) (ats ! k)))"

lemma keys_differ [simp]:
  "terminated_key \<noteq> arrived_key iteration_key" "arrived_key iteration_key \<noteq> terminated_key"
  "terminated_key \<noteq> last_arrived_key iteration_key" "last_arrived_key iteration_key \<noteq> terminated_key"
  by (simp_all add: terminated_key_def arrived_key_def last_arrived_key_def iteration_key_def barrier_key_def)

lemma entered_subset: "restarters_ok n ps \<Longrightarrow> entered_ranks ps ats \<subseteq> {0..<int n}"
  by (auto simp: entered_ranks_def restarters_ok_def dest!: nth_mem)

lemma full_recorded:
  assumes "restarters_ok n ps" and "entered_ranks ps ats = {0..<int n}"
  shows "recorded_ranks ps ats = down_ranks ps"
proof
  show "recorded_ranks ps ats \<subseteq> down_ranks ps"
    by (force simp: recorded_ranks_def down_ranks_def)
  show "down_ranks ps \<subseteq> recorded_ranks ps ats"
  proof
    fix x assume x: "x \<in> down_ranks ps"
    then obtain p where "p \<in> set ps" "x \<in> set (re_terminates p)" by (auto simp: down_ranks_def)
    then have "x \<in> {0..<int n}" using assms(1) unfolding restarters_ok_def by blast
    then have "x \<in> entered_ranks ps ats" by (simp only: assms(2))
    then obtain i where i: "i < length ps" "has_entered (ats ! i)" "x \<in> set (re_ranks (ps ! i))"
      by (auto simp: entered_ranks_def)
    then have "x \<in> set (re_terminates (ps ! i))"
      using assms(1) x nth_mem [OF i(1)] unfolding restarters_ok_def by blast
    moreover have "has_recorded (ats ! i)" using i(2) by (simp add: has_entered_def has_recorded_def)
    ultimately show "x \<in> recorded_ranks ps ats" using i(1) by (auto simp: recorded_ranks_def)
  qed
qed

lemma entered_update:
  assumes "i < length ps" and "length ats = length ps" and "has_entered (ats ! i) \<Longrightarrow> has_entered a"
  shows "entered_ranks ps (ats[i := a]) = entered_ranks ps ats \<union> (if has_entered a then set (re_ranks (ps ! i)) else {})"
  using assms unfolding entered_ranks_def
  by (cases "has_entered a") (auto simp: nth_list_update split: if_splits, metis+)

lemma recorded_update:
  assumes "i < length ps" and "length ats = length ps" and "has_recorded (ats ! i) \<Longrightarrow> has_recorded a"
  shows "recorded_ranks ps (ats[i := a]) = recorded_ranks ps ats \<union> (if has_recorded a then set (re_terminates (ps ! i)) else {})"
  using assms unfolding recorded_ranks_def
  by (cases "has_recorded a") (auto simp: nth_list_update split: if_splits, metis+)

lemma entered_already: "i < length ps \<Longrightarrow> has_entered (ats ! i) \<Longrightarrow> set (re_ranks (ps ! i)) \<subseteq> entered_ranks ps ats"
  by (auto simp: entered_ranks_def)

lemma recorded_already: "i < length ps \<Longrightarrow> has_recorded (ats ! i) \<Longrightarrow> set (re_terminates (ps ! i)) \<subseteq> recorded_ranks ps ats"
  by (auto simp: recorded_ranks_def)

lemma place_ok_mono: "place_ok full touched down p a \<Longrightarrow> (full \<Longrightarrow> full') \<Longrightarrow> (touched \<Longrightarrow> touched') \<Longrightarrow> place_ok full' touched' down p a"
  by (auto simp: place_ok_def)

text \<open>A turn after the barrier was entered changes neither set of ranks.\<close>

lemma restart_inv_after_entry:
  assumes inv: "restart_inv view n ps (ats, s)" and i: "i < length ps"
    and entered: "has_entered (ats ! i)" "has_entered a"
    and arrived: "view s' (arrived_key iteration_key) = view s (arrived_key iteration_key)"
    and terminated: "\<And>ts. holds_ranks (view s terminated_key) ts \<Longrightarrow> holds_ranks (view s' terminated_key) ts"
    and last: "view s' (last_arrived_key iteration_key) \<noteq> None \<Longrightarrow>
      view s (last_arrived_key iteration_key) \<noteq> None \<or> entered_ranks ps ats = {0..<int n}"
      "view s (last_arrived_key iteration_key) \<noteq> None \<Longrightarrow> view s' (last_arrived_key iteration_key) \<noteq> None"
    and place: "place_ok (entered_ranks ps ats = {0..<int n}) (view s (arrived_key iteration_key) \<noteq> None)
      (down_ranks ps) (ps ! i) a"
    and wake: "entered_ranks ps ats = {0..<int n} \<Longrightarrow> ats ! i \<in> ReBarrier ` {AtCount, AtRelease} \<Longrightarrow>
      view s' (last_arrived_key iteration_key) \<noteq> None \<or> a \<in> ReBarrier ` {AtCount, AtRelease}"
  shows "restart_inv view n ps (ats[i := a], s')"
proof -
  have len: "length ats = length ps" using inv by (simp add: restart_inv_def)
  have rec: "has_recorded (ats ! i)" "has_recorded a" using entered by (simp_all add: has_entered_def has_recorded_def)
  have same: "entered_ranks ps (ats[i := a]) = entered_ranks ps ats" "recorded_ranks ps (ats[i := a]) = recorded_ranks ps ats"
    using entered_update [OF i len, of a] recorded_update [OF i len, of a] entered rec
      entered_already [OF i, of ats] recorded_already [OF i, of ats]
    by auto
  have woken: "view s' (last_arrived_key iteration_key) \<noteq> None
      \<or> (\<exists>k < length ps. ats[i := a] ! k \<in> ReBarrier ` {AtCount, AtRelease})"
    if full: "entered_ranks ps ats = {0..<int n}" "0 < n"
  proof -
    from inv full consider "view s (last_arrived_key iteration_key) \<noteq> None"
      | k where "k < length ps" "ats ! k \<in> ReBarrier ` {AtCount, AtRelease}"
      by (auto simp: restart_inv_def)
    then show ?thesis
    proof cases
      case 2
      then show ?thesis
      proof (cases "k = i")
        case True
        then show ?thesis using wake [OF full(1)] 2 i len by (metis nth_list_update_eq)
      next
        case False
        then show ?thesis using 2 by (metis nth_list_update_neq)
      qed
    qed (use last(2) in blast)
  qed
  have "place_ok (entered_ranks ps ats = {0..<int n}) (view s (arrived_key iteration_key) \<noteq> None) (down_ranks ps) (ps ! k) (ats[i := a] ! k)"
    if "k < length ps" for k
    using place inv that len i by (cases "k = i") (auto simp: restart_inv_def)
  moreover have "\<exists>ts. holds_ranks (view s' terminated_key) ts \<and> set ts = recorded_ranks ps ats"
    using inv terminated by (auto simp: restart_inv_def)
  ultimately show ?thesis
    using inv len woken last(1) by (auto simp: restart_inv_def same arrived)
qed

lemma restart_inv_begin:
  assumes "view s (arrived_key iteration_key) = None" and "view s terminated_key = None"
    and "view s (last_arrived_key iteration_key) = None" and "0 < n"
  shows "restart_inv view n ps (restart_begin ps, s)"
proof -
  have "entered_ranks ps (restart_begin ps) = {}" "recorded_ranks ps (restart_begin ps) = {}"
    by (auto simp: entered_ranks_def recorded_ranks_def restart_begin_def has_entered_def has_recorded_def)
  then show ?thesis
    using assms by (auto simp: restart_inv_def restart_begin_def place_ok_def waited_through_def
        intro: exI [of _ "[]"])
qed

lemma restart_inv_terminate:
  assumes laws: "append_laws st view" and inv: "restart_inv view n ps (ats, s)" and i: "i < length ps"
    and ati: "ats ! i = ReTerminate"
  shows "restart_inv view n ps (ats[i := ReBarrier AtEnter], record_terminated_ranks st (re_terminates (ps ! i)) s)"
proof -
  have len: "length ats = length ps" using inv by (simp add: restart_inv_def)
  let ?s = "record_terminated_ranks st (re_terminates (ps ! i)) s"
  have e: "entered_ranks ps (ats[i := ReBarrier AtEnter]) = entered_ranks ps ats"
    and r: "recorded_ranks ps (ats[i := ReBarrier AtEnter]) = recorded_ranks ps ats \<union> set (re_terminates (ps ! i))"
    using entered_update [OF i len, of "ReBarrier AtEnter"] recorded_update [OF i len, of "ReBarrier AtEnter"] ati
    by (simp_all add: has_entered_def has_recorded_def)
  obtain ts where ts: "holds_ranks (view s terminated_key) ts" "set ts = recorded_ranks ps ats"
    using inv by (auto simp: restart_inv_def)
  have "holds_ranks (view ?s terminated_key) (ts @ re_terminates (ps ! i))"
    by (rule record_terminated_holds(1) [OF laws ts(1)])
  then have t: "\<exists>ts. holds_ranks (view ?s terminated_key) ts \<and> set ts = recorded_ranks ps (ats[i := ReBarrier AtEnter])"
    using ts(2) r by auto
  have v: "view ?s k = view s k" if "k \<noteq> terminated_key" for k
    by (rule record_terminated_holds(2) [OF laws ts(1) that])
  have w: "\<exists>k < length ps. ats[i := ReBarrier AtEnter] ! k \<in> ReBarrier ` {AtCount, AtRelease}"
    if "\<exists>k < length ps. ats ! k \<in> ReBarrier ` {AtCount, AtRelease}"
    using that ati by (metis nth_list_update_neq image_iff restart_at.distinct(1))
  have p: "place_ok full touched down (ps ! k) (ats[i := ReBarrier AtEnter] ! k)"
    if "place_ok full touched down (ps ! k) (ats ! k)" "k < length ps" for k full touched down
    using that i len by (cases "k = i") (auto simp: place_ok_def waited_through_def)
  show ?thesis
    using inv t w p len unfolding restart_inv_def prod.case e by (simp add: v) blast
qed

lemma restart_inv_enter:
  assumes laws: "append_laws st view" and inv: "restart_inv view n ps (ats, s)" and i: "i < length ps"
    and ok: "restarters_ok n ps" and ati: "ats ! i = ReBarrier AtEnter"
  shows "restart_inv view n ps (ats[i := ReBarrier AtCount],
    st_append st (arrived_key iteration_key) (join '','' (map int_text (re_ranks (ps ! i))) @ '','') s)"
    (is "restart_inv view n ps (?ats, ?s)")
proof -
  have len: "length ats = length ps" using inv by (simp add: restart_inv_def)
  have e: "entered_ranks ps ?ats = entered_ranks ps ats \<union> set (re_ranks (ps ! i))"
    using entered_update [OF i len, of "ReBarrier AtCount"] by (simp add: has_entered_def)
  have r: "recorded_ranks ps ?ats = recorded_ranks ps ats"
    using recorded_update [OF i len, of "ReBarrier AtCount"] recorded_already [OF i, of ats] ati
    by (auto simp: has_recorded_def)
  obtain as where as: "holds_ranks (view s (arrived_key iteration_key)) as" "set as = entered_ranks ps ats"
    using inv by (auto simp: restart_inv_def)
  have v: "view ?s = (view s)(arrived_key iteration_key \<mapsto>
      stored_text (view s (arrived_key iteration_key)) @ join '','' (map int_text (re_ranks (ps ! i))) @ '','')"
    using append_lawsD(1) [OF laws] by simp
  have "holds_ranks (view ?s (arrived_key iteration_key)) (as @ re_ranks (ps ! i))"
    using holds_ranks_append [OF as(1)] by (simp add: v)
  then have a: "\<exists>as. holds_ranks (view ?s (arrived_key iteration_key)) as \<and> set as = entered_ranks ps ?ats"
    using as(2) e by auto
  have mono: "entered_ranks ps ?ats = {0..<int n}" if "entered_ranks ps ats = {0..<int n}"
    using entered_subset [OF ok, of ?ats] that unfolding e by blast
  have p: "place_ok (entered_ranks ps ?ats = {0..<int n}) True (down_ranks ps) (ps ! k) (?ats ! k)"
    if "k < length ps" for k
  proof (cases "k = i")
    case True
    then show ?thesis using i len by (simp add: place_ok_def waited_through_def)
  next
    case False
    then have "place_ok (entered_ranks ps ats = {0..<int n}) (view s (arrived_key iteration_key) \<noteq> None)
        (down_ranks ps) (ps ! k) (?ats ! k)"
      using inv that by (simp add: restart_inv_def)
    then show ?thesis by (rule place_ok_mono) (use mono in auto)
  qed
  have w: "\<exists>k < length ps. ?ats ! k \<in> ReBarrier ` {AtCount, AtRelease}"
    using i len by (intro exI [of _ i]) simp
  have l: "view s (last_arrived_key iteration_key) \<noteq> None \<Longrightarrow> entered_ranks ps ?ats = {0..<int n}"
    using inv mono by (simp add: restart_inv_def)
  show ?thesis
    unfolding restart_inv_def prod.case
    using inv len a w l p by (simp add: restart_inv_def r v)
qed

text \<open>The turns inside the barrier, once the ranks are in.\<close>

lemma restart_inv_inside:
  assumes laws: "append_laws st view" and inv: "restart_inv view n ps (ats, s)" and i: "i < length ps"
    and ok: "restarters_ok n ps" and ati: "ats ! i = ReBarrier b" "b \<in> {AtCount, AtRelease, AtWait}"
    and turn: "reentrant_turn st iteration_key (map int_text (re_ranks (ps ! i))) (int n) (re_waits (ps ! i)) elapsed b s = (b', s')"
  shows "restart_inv view n ps (ats[i := after_barrier (ps ! i) b'], s')"
proof (rule restart_inv_after_entry [OF inv i])
  let ?full = "entered_ranks ps ats = {0..<int n}"
  show "has_entered (ats ! i)" using ati by (auto simp: has_entered_def)
  obtain as where as: "holds_ranks (view s (arrived_key iteration_key)) as" "set as = entered_ranks ps ats"
    using inv by (auto simp: restart_inv_def)
  have place: "place_ok ?full (view s (arrived_key iteration_key) \<noteq> None) (down_ranks ps) (ps ! i) (ReBarrier b)"
    using inv i ati(1) by (auto simp: restart_inv_def)
  have sub: "set as \<subseteq> {0..<int n}" using entered_subset [OF ok] as(2) by simp
  have "card (set as) \<le> n" using card_mono [OF _ sub] by simp
  moreover have "card (set as) = n \<longleftrightarrow> set as = {0..<int n}"
    using card_subset_eq [OF _ sub] by auto
  ultimately have card: "\<not> int (card (set as)) > int n" "int (card (set as)) = int n \<longleftrightarrow> ?full"
    using as(2) by simp_all
  have count: "b' = (if ?full then AtRelease else after_release (re_waits (ps ! i)))" "s' = s" if "b = AtCount"
    using turn that packed_ranks_holds [OF laws as(1)] place card
    by (simp_all add: place_ok_def Let_def split: if_splits)
  have release: "b' = after_release (re_waits (ps ! i))" "s' = st_set st (last_arrived_key iteration_key) ''1'' s" ?full
    if "b = AtRelease"
    using turn that place by (auto simp: place_ok_def)
  have wait: "s' = s" "b' = Passed \<Longrightarrow> view s (last_arrived_key iteration_key) \<noteq> None" "b' \<in> {Passed, TimedOut, AtWait}" if "b = AtWait"
    using turn that append_lawsD(4) [OF laws] by (auto split: if_splits)
  have full_wait: ?full if "b = AtWait" "b' = Passed"
    using wait(2) [OF that] inv by (simp add: restart_inv_def)
  have kind: "b' \<in> {AtRelease, AtWait, Passed, TimedOut}"
    using ati(2) count(1) release(1) wait(3) by (auto simp: after_release_def split: if_splits)
  then show "has_entered (after_barrier (ps ! i) b')"
    by (auto simp: has_entered_def after_barrier_def)
  show "view s' (arrived_key iteration_key) = view s (arrived_key iteration_key)"
    "holds_ranks (view s terminated_key) ts \<Longrightarrow> holds_ranks (view s' terminated_key) ts" for ts
    using ati(2) count release wait append_lawsD(2) [OF laws] by auto
  show "view s' (last_arrived_key iteration_key) \<noteq> None \<Longrightarrow> view s (last_arrived_key iteration_key) \<noteq> None \<or> ?full"
    "view s (last_arrived_key iteration_key) \<noteq> None \<Longrightarrow> view s' (last_arrived_key iteration_key) \<noteq> None"
    using ati(2) count release wait append_lawsD(2) [OF laws] by auto
  show "place_ok ?full (view s (arrived_key iteration_key) \<noteq> None) (down_ranks ps) (ps ! i) (after_barrier (ps ! i) b')"
  proof -
    have "?full" if "b' = AtRelease"
      using that ati(2) count(1) release(1) wait(3) by (auto simp: after_release_def split: if_splits)
    moreover have "?full" if "b' = Passed" "re_waits (ps ! i)"
      using that ati(2) count(1) release(1) full_wait by (auto simp: after_release_def split: if_splits)
    ultimately show ?thesis
      using kind by (auto simp: place_ok_def after_barrier_def waited_through_def)
  qed
  show "view s' (last_arrived_key iteration_key) \<noteq> None \<or> after_barrier (ps ! i) b' \<in> ReBarrier ` {AtCount, AtRelease}"
    if ?full "ats ! i \<in> ReBarrier ` {AtCount, AtRelease}"
    using that ati count release append_lawsD(2) [OF laws] by (auto simp: after_barrier_def)
qed

lemma restart_inv_read:
  assumes laws: "append_laws st view" and inv: "restart_inv view n ps (ats, s)" and i: "i < length ps"
    and ok: "restarters_ok n ps" and ati: "ats ! i = ReRead"
  shows "\<exists>T s'. get_terminated_ranks st s = (Inr T, s') \<and> restart_inv view n ps (ats[i := ReDone T], s')"
proof -
  obtain ts where ts: "holds_ranks (view s terminated_key) ts" "set ts = recorded_ranks ps ats"
    using inv by (auto simp: restart_inv_def)
  define s' where "s' = snd (get_terminated_ranks st s)"
  note g = get_terminated_holds [OF laws ts(1), folded s'_def]
  have place: "place_ok (entered_ranks ps ats = {0..<int n}) (view s (arrived_key iteration_key) \<noteq> None) (down_ranks ps) (ps ! i) ReRead"
    using inv i ati by (auto simp: restart_inv_def)
  have "restart_inv view n ps (ats[i := ReDone (set ts)], s')"
  proof (rule restart_inv_after_entry [OF inv i])
    show "has_entered (ats ! i)" "has_entered (ReDone (set ts))" by (simp_all add: ati has_entered_def)
    show "holds_ranks (view s terminated_key) rs \<Longrightarrow> holds_ranks (view s' terminated_key) rs" for rs
      using get_terminated_holds(2) [OF laws] by (simp add: s'_def)
    show "place_ok (entered_ranks ps ats = {0..<int n}) (view s (arrived_key iteration_key) \<noteq> None) (down_ranks ps) (ps ! i) (ReDone (set ts))"
      using place full_recorded [OF ok] ts(2) by (auto simp: place_ok_def waited_through_def)
  qed (simp_all add: g(3) ati)
  moreover have "get_terminated_ranks st s = (Inr (set ts), s')" using g(1) by (simp add: s'_def prod_eq_iff)
  ultimately show ?thesis by blast
qed

lemma restart_inv_step:
  assumes laws: "append_laws st view" and ok: "restarters_ok n ps"
    and inv: "restart_inv view n ps (ats, s)" and step: "restart_step st (int n) ps (ats, s) y"
  shows "restart_inv view n ps y"
  using step
proof cases
  case (turn i elapsed a s')
  have same: "restart_inv view n ps (ats[i := ats ! i], s)" using inv by simp
  show ?thesis
  proof (cases "ats ! i")
    case ReTerminate
    then show ?thesis using restart_inv_terminate [OF laws inv turn(2)] turn(1,3) by auto
  next
    case (ReBarrier b)
    then obtain b' where b': "reentrant_turn st iteration_key (map int_text (re_ranks (ps ! i))) (int n) (re_waits (ps ! i)) elapsed b s = (b', s')"
      "a = after_barrier (ps ! i) b'"
      using turn(3) by (auto split: prod.splits)
    have "place_ok (entered_ranks ps ats = {0..<int n}) (view s (arrived_key iteration_key) \<noteq> None) (down_ranks ps) (ps ! i) (ReBarrier b)"
      using inv turn(2) ReBarrier by (auto simp: restart_inv_def)
    then consider "b = AtEnter" | "b \<in> {AtCount, AtRelease, AtWait}"
      by (cases b) (auto simp: place_ok_def)
    then show ?thesis
    proof cases
      case 1
      then show ?thesis
        using restart_inv_enter [OF laws inv turn(2) ok] ReBarrier b' turn(1) by (auto simp: after_barrier_def)
    next
      case 2
      then show ?thesis using restart_inv_inside [OF laws inv turn(2) ok ReBarrier 2 b'(1)] b'(2) turn(1) by simp
    qed
  next
    case ReRead
    then show ?thesis using restart_inv_read [OF laws inv turn(2) ok ReRead] turn(1,3) by auto
  qed (use same turn in auto)
qed

section \<open>Properties\<close>

lemma restart_reach_inv:
  assumes "append_laws st view" and "restarters_ok n ps"
    and "(restart_step st (int n) ps)\<^sup>*\<^sup>* x y" and "restart_inv view n ps x"
  shows "restart_inv view n ps y"
  using assms(3,4)
proof (induction rule: rtranclp_induct)
  case (step y z)
  then show ?case using restart_inv_step [OF assms(1,2)] by (cases y) auto
qed

text \<open>A store in which nothing of the iteration has been written yet.\<close>

definition fresh_store :: "('s \<Rightarrow> string \<Rightarrow> string option) \<Rightarrow> 's \<Rightarrow> bool" where
  "fresh_store view s \<longleftrightarrow> view s (arrived_key iteration_key) = None \<and> view s terminated_key = None
     \<and> view s (last_arrived_key iteration_key) = None"

text \<open>
  The survivors of an iteration agree on who is gone. In every interleaving of the store calls
  of any participants (survivors, ranks that leave, their monitor processes and siblings), a rank
  that has waited at the iteration barrier and read the terminated ranks has read exactly the ranks
  recorded by all participants, and every rank of the world had been brought to the barrier before;
  no participant fails but by its timeout. It needs that a rank recorded as terminated is brought to
  the barrier only by those who record it first.
\<close>

lemma survivors_agree_on_terminated:
  assumes "append_laws st view" and "restarters_ok n ps" and "0 < n" and "fresh_store view s0"
    and "(restart_step st (int n) ps)\<^sup>*\<^sup>* (restart_begin ps, s0) (ats, s)" and "i < length ps"
  shows "(\<forall>T. ats ! i = ReDone T \<and> re_waits (ps ! i) \<longrightarrow> T = down_ranks ps \<and> entered_ranks ps ats = {0..<int n})
    \<and> (\<forall>f. ats ! i = ReFailed f \<longrightarrow> f = TimedOut)"
proof -
  have "restart_inv view n ps (restart_begin ps, s0)"
    by (rule restart_inv_begin) (use assms(3,4) in \<open>simp_all add: fresh_store_def\<close>)
  from restart_reach_inv [OF assms(1,2,5) this] have "place_ok (entered_ranks ps ats = {0..<int n})
      (view s (arrived_key iteration_key) \<noteq> None) (down_ranks ps) (ps ! i) (ats ! i)"
    using assms(6) by (auto simp: restart_inv_def)
  then show ?thesis by (auto simp: place_ok_def waited_through_def)
qed


section \<open>Runs\<close>

fun restart_run ::
  "('s, 'm) append_store_scheme \<Rightarrow> int \<Rightarrow> restarter list \<Rightarrow> nat list \<Rightarrow> restart_at list \<times> 's \<Rightarrow> restart_at list \<times> 's" where
  "restart_run st needed ps [] y = y"
| "restart_run st needed ps (i # is) (ats, s) =
     (let (a, s') = restart_turn st needed False (ps ! i) (ats ! i) s
      in restart_run st needed ps is (ats[i := a], s'))"

lemma restart_run_reaches:
  "\<forall>i \<in> set is. i < length ps \<Longrightarrow> (restart_step st needed ps)\<^sup>*\<^sup>* y (restart_run st needed ps is y)"
proof (induction "is" arbitrary: y)
  case (Cons i "is")
  obtain ats s a s' where y: "y = (ats, s)" and turn: "restart_turn st needed False (ps ! i) (ats ! i) s = (a, s')"
    by (meson surj_pair)
  have "restart_step st needed ps y (ats[i := a], s')"
    unfolding y by (rule restart_step.turn [OF _ turn]) (use Cons.prems in simp)
  moreover have "(restart_step st needed ps)\<^sup>*\<^sup>* (ats[i := a], s') (restart_run st needed ps is (ats[i := a], s'))"
    using Cons by simp
  ultimately show ?case by (simp add: y turn converse_rtranclp_into_rtranclp)
qed simp

text \<open>
  A sibling that takes a rank for dead after that rank has arrived: the first survivor to read has
  already left without it, the second one counts it as terminated, and they would renumber
  differently.
\<close>

lemma late_sibling_splits_survivors:
  "\<exists>ats s. (restart_step dict_append_store 2 [survivor 0, survivor 1, sibling_of [1]])\<^sup>*\<^sup>*
      (restart_begin [survivor 0, survivor 1, sibling_of [1]], \<lambda>_. None) (ats, s)
    \<and> ats ! 0 = ReDone {} \<and> ats ! 1 = ReDone {1}"
proof -
  let ?ps = "[survivor 0, survivor 1, sibling_of [1]]"
  let ?run = "restart_run dict_append_store 2 ?ps [0, 0, 0, 1, 1, 1, 1, 0, 0, 2, 1, 1] (restart_begin ?ps, \<lambda>_. None)"
  have "map_prod (\<lambda>ats. (ats ! 0, ats ! 1)) (\<lambda>_. ()) ?run = ((ReDone {}, ReDone {1}), ())" by code_simp
  then have "fst ?run ! 0 = ReDone {} \<and> fst ?run ! 1 = ReDone {1}" by (cases ?run) simp
  moreover have "(restart_step dict_append_store 2 ?ps)\<^sup>*\<^sup>* (restart_begin ?ps, \<lambda>_. None) ?run"
    by (rule restart_run_reaches) simp
  ultimately show ?thesis by (metis prod.collapse)
qed

text \<open>Two survivors and a rank that leaves: the survivors agree.\<close>

definition demo_restarters :: "restarter list" where
  "demo_restarters = [survivor 0, leaving 1, survivor 2]"

definition demo_restart_run :: "restart_at list \<times> (string \<Rightarrow> string option)" where
  "demo_restart_run = restart_run dict_append_store 3 demo_restarters [0, 0, 0, 1, 1, 1, 2, 2, 2, 2, 0, 0, 2, 2]
     (restart_begin demo_restarters, \<lambda>_. None)"

lemma demo_restart_reaches:
  "(restart_step dict_append_store (int 3) demo_restarters)\<^sup>*\<^sup>* (restart_begin demo_restarters, \<lambda>_. None) demo_restart_run"
  unfolding demo_restart_run_def of_nat_numeral by (rule restart_run_reaches) (simp add: demo_restarters_def)

lemma demo_restart_places: "fst demo_restart_run = [ReDone {1}, ReBarrier AtWait, ReDone {1}]"
proof -
  have "map_prod id (\<lambda>_. ()) demo_restart_run = ([ReDone {1}, ReBarrier AtWait, ReDone {1}], ())" by code_simp
  from arg_cong [OF this, of fst] show ?thesis by simp
qed

lemma demo_restarters_ok: "restarters_ok 3 demo_restarters"
  by (auto simp: restarters_ok_def demo_restarters_def survivor_def leaving_def down_ranks_def)

lemma fresh_empty: "fresh_store (\<lambda>m. m) (\<lambda>_. None)"
  by (simp add: fresh_store_def)


end
