(* ===== verification/InprocStoreProps.thy ===== *)
theory InprocStoreProps
  imports InprocBarrier
begin

text \<open>
  Properties of the store operations of the in-process restart: a store for an iteration keeps the
  laws of the store it was made from and is apart from those of other iterations; interruption
  records read back as they were written until they are locked; every value keeps its format under
  all operations, so that none of them fails to read what another wrote; and the one caller that
  breaks this, the sibling monitor at the termination barrier.
\<close>

section \<open>A store for an iteration\<close>

lemma upd_prefixed: "inj p \<Longrightarrow> (\<lambda>k. (m(p j := v)) (p k)) = (\<lambda>k. m (p k))(j := v)"
  by (auto simp: fun_eq_iff inj_eq)

lemma fold_upd_prefixed:
  assumes "inj p"
  shows "(\<lambda>k. fold (\<lambda>(k, v) m. m(k \<mapsto> v)) (zip (map p ks) vs) m (p k))
    = fold (\<lambda>(k, v) m. m(k \<mapsto> v)) (zip ks vs) (\<lambda>k. m (p k))"
proof (induction ks arbitrary: vs m)
  case (Cons k ks)
  show ?case
  proof (cases vs)
    case (Cons v vs')
    then show ?thesis
      using Cons.IH [of vs' "m(p k \<mapsto> v)"] upd_prefixed [OF assms, of m k "Some v"]
      by (simp del: fun_upd_apply)
  qed simp
qed simp

lemma prefix_store_laws:
  assumes laws: "append_laws st view" and inj: "inj p"
  shows "append_laws (prefix_store p st) (\<lambda>s k. view s (p k))"
proof -
  have base: "store_laws st view" using laws by (simp add: append_laws_def)
  have "(fst (st_compare_set st (p k) e d s), (\<lambda>j. view (snd (st_compare_set st (p k) e d s)) (p j))) =
      (case view s (p k) of
         None \<Rightarrow> if e = [] then (d, (\<lambda>j. view s (p j))(k \<mapsto> d)) else (e, \<lambda>j. view s (p j))
       | Some v \<Rightarrow> if v = e then (d, (\<lambda>j. view s (p j))(k \<mapsto> d)) else (v, \<lambda>j. view s (p j)))" for k e d s
    using compare_set_laws [OF base, of "p k" e d s] inj
    by (auto simp: upd_prefixed simp del: fun_upd_apply split: option.splits if_splits)
  then show ?thesis
    using inj append_lawsD [OF laws] store_laws_simps [OF base]
    by (simp add: append_laws_def store_laws_def prefix_store_def upd_prefixed fold_upd_prefixed del: fun_upd_apply)
qed

lemma prefix_store_apart:
  assumes "append_laws st view" and "k \<noteq> p j"
  shows "view (st_set (prefix_store p st) j v s) k = view s k"
    and "view (st_append (prefix_store p st) j v s) k = view s k"
    and "view (snd (st_add (prefix_store p st) j n s)) k = view s k"
  using assms append_lawsD [OF assms(1)] by (simp_all add: prefix_store_def)

text \<open>
  The contract between the mixin and a store that appends, and the store of an iteration as another
  store under the same contract.
\<close>

locale appendable_store =
  fixes st :: "'s append_store" and view :: "'s \<Rightarrow> string \<Rightarrow> string option"
  assumes laws: "append_laws st view"
begin

lemmas ops = append_lawsD [OF laws]

lemma multi_get: "st_multi_get st ks s =
    (if \<forall>k \<in> set ks. view s k \<noteq> None then Some (map (\<lambda>k. the (view s k)) ks) else None)"
  by (rule store_laws_simps(4)) (use laws in \<open>simp add: append_laws_def\<close>)

text \<open>Interruption records, as texts.\<close>

lemma records_written:
  assumes "holds_parts CHR '';'' (view s records_key) ws"
    and "\<forall>ts. records = Some ts \<longrightarrow> list_all (plain_part CHR '';'') ts"
  shows "holds_parts CHR '';'' (view (record_interrupted st records s) records_key)
      (ws @ (if count_text (view s records_lock_key) = 0 then (case records of None \<Rightarrow> [] | Some ts \<Rightarrow> ts) else []))"
    and "count_text (view (record_interrupted st records s) records_lock_key) = count_text (view s records_lock_key)"
    and "k \<notin> {records_key, records_lock_key, interrupted_key} \<Longrightarrow> view (record_interrupted st records s) k = view s k"
proof -
  have keys: "records_key \<noteq> records_lock_key" "records_key \<noteq> interrupted_key" "records_lock_key \<noteq> interrupted_key"
    by (simp_all add: records_key_def records_lock_key_def interrupted_key_def)
  have count: "count_text (Some (int_text i)) = i" for i
    by (simp add: count_text_def signed_text_def py_int_int_text)
  note simps = record_interrupted_def Let_def split_beta ops keys keys [symmetric] count
  show "holds_parts CHR '';'' (view (record_interrupted st records s) records_key)
      (ws @ (if count_text (view s records_lock_key) = 0 then (case records of None \<Rightarrow> [] | Some ts \<Rightarrow> ts) else []))"
  proof (cases records)
    case (Some ts)
    then show ?thesis
      using assms holds_parts_append [OF assms(1), of ts] holds_parts_touch [OF assms(1)] by (simp add: simps)
  qed (use assms in \<open>simp add: simps\<close>)
  show "count_text (view (record_interrupted st records s) records_lock_key) = count_text (view s records_lock_key)"
    "k \<notin> {records_key, records_lock_key, interrupted_key} \<Longrightarrow> view (record_interrupted st records s) k = view s k"
    by (auto simp: simps split: option.splits)
qed

lemma records_read:
  assumes "holds_parts CHR '';'' (view s records_key) ws"
  shows "fst (get_interruption_records st s) = res_map record_from_str ws"
    and "holds_parts CHR '';'' (view (snd (get_interruption_records st s)) records_key) ws"
    and "k \<noteq> records_key \<Longrightarrow> view (snd (get_interruption_records st s)) k = view s k"
  using holds_parts_read [of "CHR '';''" "stored_text (view s records_key)" ws] holds_parts_touch [OF assms]
  by (simp_all add: get_interruption_records_def get_packed_def Let_def ops)

lemma records_locked:
  "count_text (view (lock_interruption_records st s) records_lock_key) = count_text (view s records_lock_key) + 1"
  "k \<noteq> records_lock_key \<Longrightarrow> view (lock_interruption_records st s) k = view s k"
  by (simp_all add: lock_interruption_records_def ops count_text_def signed_text_def py_int_int_text)

end

interpretation dict: appendable_store dict_append_store "\<lambda>m. m"
  by unfold_locales (rule dict_append_store_laws)

locale iteration_store = appendable_store +
  fixes p :: "string \<Rightarrow> string"
  assumes inj: "inj p"

sublocale iteration_store \<subseteq> own: appendable_store "prefix_store p st" "\<lambda>s k. view s (p k)"
  by unfold_locales (rule prefix_store_laws [OF laws inj])

text \<open>Prefixes joined with a slash, as torch does.\<close>

definition slash_key :: "int \<Rightarrow> string \<Rightarrow> string" where
  "slash_key iteration k = store_prefix iteration @ ''/'' @ k"

lemma slash_key_inj: "inj (slash_key iteration)"
  by (simp add: inj_def slash_key_def)

interpretation dict_iteration: iteration_store dict_append_store "\<lambda>m. m" "slash_key iteration" for iteration
  by unfold_locales (rule slash_key_inj)

section \<open>Interruption records\<close>

lemma int_text_plain_semicolon: "CHR '';'' \<notin> set (int_text i)"
  by (rule int_text_plain) (simp_all add: py_isdigit_def)

lemma interruption_name_no_semicolon: "CHR '';'' \<notin> set (interruption_name i)"
  by (cases i) (simp_all add: interruption_name_def)

lemma not_blank_visible: "c \<in> set w \<Longrightarrow> \<not> py_isspace c \<Longrightarrow> not_blank w"
proof -
  assume "c \<in> set w" "\<not> py_isspace c"
  then have w: "dropWhile py_isspace w \<noteq> []" by (auto simp: dropWhile_eq_Nil_conv)
  then have "hd (dropWhile py_isspace w) \<in> set (dropWhile py_isspace w)" "\<not> py_isspace (hd (dropWhile py_isspace w))"
    by (rule hd_in_set, rule hd_dropWhile)
  then show "not_blank w" by (auto simp: not_blank_def py_strip_def dropWhile_eq_Nil_conv)
qed

lemma record_text_plain: "CHR '';'' \<notin> set (record_text r)" "CHR ''I'' \<in> set (record_text r)"
  by (simp_all add: record_text_def int_text_plain_semicolon interruption_name_no_semicolon)

text \<open>
  What reaches the store: the monitors and the exit path of the wrapper pass a record, the message
  of a failed function passes a list that holds one.
\<close>

datatype report = Plain interruption_record | Listed interruption_record

fun report_record :: "report \<Rightarrow> interruption_record" where
  "report_record (Plain r) = r"
| "report_record (Listed r) = r"

fun report_text :: "report \<Rightarrow> string" where
  "report_text (Plain r) = record_text r"
| "report_text (Listed r) = CHR ''['' # record_text r @ '']''"

lemma report_text_plain: "plain_part CHR '';'' (report_text r)"
  using record_text_plain
  by (cases r) (auto simp: plain_part_def py_isspace_def intro: not_blank_visible [of "CHR ''I''"])

lemma report_text_read: "0 \<le> ir_rank (report_record r) \<Longrightarrow> record_from_str (report_text r) = Inr (report_record r)"
  using record_from_str_text [of _ "[]"]
  by (cases r) (simp_all add: record_from_str_text record_from_str_bracket)

lemma report_texts_read:
  "list_all (\<lambda>r. 0 \<le> ir_rank (report_record r)) rs \<Longrightarrow> res_map record_from_str (map report_text rs) = Inr (map report_record rs)"
  by (induction rs) (simp_all add: report_text_read)

datatype record_op = RecordOp "report list option" | LockOp | ReadOp

fun run_record_op :: "('s, 'm) append_store_scheme \<Rightarrow> record_op \<Rightarrow> 's \<Rightarrow> 's" where
  "run_record_op st (RecordOp rs) s = record_interrupted st (map_option (map report_text) rs) s"
| "run_record_op st LockOp s = lock_interruption_records st s"
| "run_record_op st ReadOp s = snd (get_interruption_records st s)"

text \<open>The records made before the first lock.\<close>

fun recorded :: "record_op list \<Rightarrow> report list" where
  "recorded [] = []"
| "recorded (RecordOp (Some rs) # ops) = rs @ recorded ops"
| "recorded (LockOp # ops) = []"
| "recorded (op # ops) = recorded ops"

context appendable_store
begin

lemma run_record_ops:
  assumes "holds_parts CHR '';'' (view s records_key) ws" and "0 \<le> count_text (view s records_lock_key)"
  shows "holds_parts CHR '';'' (view (fold (run_record_op st) ops s) records_key)
    (ws @ (if count_text (view s records_lock_key) = 0 then map report_text (recorded ops) else []))"
  using assms
proof (induction ops arbitrary: s ws)
  case (Cons op ops)
  show ?case
  proof (cases op)
    case (RecordOp rs)
    let ?ts = "map_option (map report_text) rs"
    have plain: "\<forall>ts. ?ts = Some ts \<longrightarrow> list_all (plain_part CHR '';'') ts"
      using report_text_plain by (auto simp: list_all_iff)
    note w = records_written(1,2) [OF Cons.prems(1) plain]
    show ?thesis
      using Cons.IH [OF w(1)] Cons.prems(2) w(2) RecordOp
      by (cases rs; cases "count_text (view s records_lock_key) = 0") simp_all
  next
    case LockOp
    have "records_key \<noteq> records_lock_key" by (simp add: records_key_def records_lock_key_def)
    then show ?thesis using Cons.IH [of "lock_interruption_records st s" ws] Cons.prems LockOp by (simp add: records_locked)
  next
    case ReadOp
    have "records_lock_key \<noteq> records_key" by (simp add: records_key_def records_lock_key_def)
    then show ?thesis
      using Cons.IH [OF records_read(2) [OF Cons.prems(1)]] Cons.prems ReadOp
      by (cases "count_text (view s records_lock_key) = 0") (simp_all add: records_read(3) [OF Cons.prems(1)])
  qed
qed simp

end


section \<open>The format of every value\<close>

definition group_ok :: "string \<Rightarrow> bool" where
  "group_ok g \<longleftrightarrow> CHR '':'' \<notin> set g"

definition barrier_kinds :: "string set" where
  "barrier_kinds = {''barrier'', ''reentrant_barrier''}"

definition rank_keys :: "string set" where
  "rank_keys = insert terminated_key {arrived_key (barrier_key kind g) | kind g. kind \<in> barrier_kinds \<and> group_ok g}"

text \<open>
  Every key that operations read as a list has the format they read: ranks in decimal, records as
  they are written.
\<close>

definition store_typed :: "('s \<Rightarrow> string \<Rightarrow> string option) \<Rightarrow> 's \<Rightarrow> bool" where
  "store_typed view s \<longleftrightarrow> (\<forall>k \<in> rank_keys. \<exists>rs. holds_ranks (view s k) rs)
     \<and> (\<exists>ws. list_all (\<lambda>r. 0 \<le> ir_rank (report_record r)) ws \<and> holds_parts CHR '';'' (view s records_key) (map report_text ws))"

lemma arrived_key_other:
  assumes "kind \<in> barrier_kinds" and "group_ok g"
  shows "arrived_key (barrier_key kind g) \<noteq> last_arrived_key key"
    and "kind' \<in> barrier_kinds \<Longrightarrow> group_ok g' \<Longrightarrow> arrived_key (barrier_key kind g) \<noteq> barrier_key kind' g'"
proof -
  show "arrived_key (barrier_key kind g) \<noteq> last_arrived_key key"
  proof
    assume "arrived_key (barrier_key kind g) = last_arrived_key key"
    then have "take 8 (rev (arrived_key (barrier_key kind g))) = take 8 (rev (last_arrived_key key))" by simp
    then show False by (simp add: arrived_key_def last_arrived_key_def)
  qed
  show "arrived_key (barrier_key kind g) \<noteq> barrier_key kind' g'" if "kind' \<in> barrier_kinds" "group_ok g'"
  proof
    assume "arrived_key (barrier_key kind g) = barrier_key kind' g'"
    then have "length (filter ((=) CHR '':'') (arrived_key (barrier_key kind g))) = length (filter ((=) CHR '':'') (barrier_key kind' g'))"
      by simp
    moreover have "filter ((=) CHR '':'') w = []" if "group_ok w" for w
      using that by (auto simp: group_ok_def filter_empty_conv)
    ultimately show False
      using assms that by (auto simp: arrived_key_def barrier_key_def barrier_kinds_def)
  qed
qed

lemma rank_keys_other:
  assumes "k \<in> rank_keys"
  shows "k \<noteq> records_key" "k \<noteq> records_lock_key" "k \<noteq> interrupted_key" "k \<noteq> completed_key"
    "k \<noteq> active_rank_key r" "k \<noteq> initial_rank_key r" "k \<noteq> heartbeat_key r"
    "kind \<in> barrier_kinds \<Longrightarrow> group_ok g \<Longrightarrow> k \<noteq> barrier_key kind g"
    "k \<noteq> last_arrived_key (barrier_key kind g)"
  using assms arrived_key_other arrived_key_other(2) [THEN not_sym]
  by (auto simp: rank_keys_def terminated_key_def records_key_def records_lock_key_def interrupted_key_def
      completed_key_def active_rank_key_def initial_rank_key_def heartbeat_key_def arrived_key_def barrier_key_def
      last_arrived_key_def)

lemma records_key_other:
  "records_key \<noteq> interrupted_key" "records_key \<noteq> completed_key" "records_key \<noteq> active_rank_key r"
  "records_key \<noteq> initial_rank_key r" "records_key \<noteq> heartbeat_key r" "records_key \<noteq> terminated_key"
  "records_key \<noteq> barrier_key kind g" "records_key \<noteq> last_arrived_key (barrier_key kind g)"
  "records_key \<noteq> arrived_key (barrier_key kind g)" "records_key \<noteq> records_lock_key"
  by (simp_all add: terminated_key_def records_key_def records_lock_key_def interrupted_key_def
      completed_key_def active_rank_key_def initial_rank_key_def heartbeat_key_def arrived_key_def barrier_key_def
      last_arrived_key_def)

datatype mixin_op =
    SetActive int rank_mode | SetInitial int int | SendHeartbeat real int | RecordsOp record_op | CompletedOp
  | TerminatedOp "int list" | ReadTerminated | AskArrived string int
  | ReentrantTurn string "int list" int bool bool barrier_at
  | PlainTurn string "int list" int bool bool plain_at

definition left_error :: "'e + 'a \<Rightarrow> 'e option" where
  "left_error r = (case r of Inl e \<Rightarrow> Some e | Inr _ \<Rightarrow> None)"

lemma left_error_simps [simp]: "left_error (Inl e) = Some e" "left_error (Inr x) = None"
  by (simp_all add: left_error_def)

text \<open>The error of an operation that reads, and the store after it.\<close>

fun run_mixin_op ::
  "('s, 'm) append_store_scheme \<Rightarrow> (real \<Rightarrow> string) \<Rightarrow> mixin_op \<Rightarrow> 's \<Rightarrow> store_error option \<times> 's" where
  "run_mixin_op st ft (SetActive rank active) s =
     (None, case set_active_rank st rank active s of None \<Rightarrow> s | Some s' \<Rightarrow> s')"
| "run_mixin_op st ft (SetInitial rank initial) s = (None, set_initial_rank st rank initial s)"
| "run_mixin_op st ft (SendHeartbeat now rank) s = (None, send_heartbeat st ft now rank s)"
| "run_mixin_op st ft (RecordsOp op) s =
     (case op of ReadOp \<Rightarrow> left_error (fst (get_interruption_records st s)) | _ \<Rightarrow> None, run_record_op st op s)"
| "run_mixin_op st ft CompletedOp s = (None, record_completed st s)"
| "run_mixin_op st ft (TerminatedOp ranks) s = (None, record_terminated_ranks st ranks s)"
| "run_mixin_op st ft ReadTerminated s = map_prod left_error id (get_terminated_ranks st s)"
| "run_mixin_op st ft (AskArrived g rank) s =
     map_prod left_error id (is_rank_at_reentrant_barrier st (barrier_key ''reentrant_barrier'' g) rank s)"
| "run_mixin_op st ft (ReentrantTurn g ranks needed waits elapsed pc) s =
     (let (pc', s') = reentrant_turn st (barrier_key ''reentrant_barrier'' g) (map int_text ranks) needed waits elapsed pc s
      in (case pc' of Broken e \<Rightarrow> if pc = pc' then None else Some e | _ \<Rightarrow> None, s'))"
| "run_mixin_op st ft (PlainTurn g ranks needed waits elapsed pc) s =
     (let (pc', s') = plain_turn st (barrier_key ''barrier'' g) ranks needed waits elapsed pc s
      in (case pc' of PlBroken e \<Rightarrow> if pc = pc' then None else Some e | _ \<Rightarrow> None, s'))"

fun mixin_op_ok :: "mixin_op \<Rightarrow> bool" where
  "mixin_op_ok (RecordsOp (RecordOp (Some rs))) = list_all (\<lambda>r. 0 \<le> ir_rank (report_record r)) rs"
| "mixin_op_ok (AskArrived g rank) = group_ok g"
| "mixin_op_ok (ReentrantTurn g ranks needed waits elapsed pc) = group_ok g"
| "mixin_op_ok (PlainTurn g ranks needed waits elapsed pc) = group_ok g"
| "mixin_op_ok op = True"

fun run_mixin ::
  "('s, 'm) append_store_scheme \<Rightarrow> (real \<Rightarrow> string) \<Rightarrow> mixin_op list \<Rightarrow> 's \<Rightarrow> store_error option list \<times> 's" where
  "run_mixin st ft [] s = ([], s)"
| "run_mixin st ft (op # ops) s =
     (let (e, s') = run_mixin_op st ft op s; (es, s'') = run_mixin st ft ops s' in (e # es, s''))"

lemma arrived_rank_key: "kind \<in> barrier_kinds \<Longrightarrow> group_ok g \<Longrightarrow> arrived_key (barrier_key kind g) \<in> rank_keys"
  by (auto simp: rank_keys_def)

lemma kinds: "''barrier'' \<in> barrier_kinds" "''reentrant_barrier'' \<in> barrier_kinds"
  by (simp_all add: barrier_kinds_def)

text \<open>A write elsewhere, an append of ranks, and an append of nothing keep the formats.\<close>

lemma store_typed_other:
  assumes "store_typed view s" and "k \<notin> rank_keys" and "k \<noteq> records_key" and "view s' = (view s)(k := v)"
  shows "store_typed view s'"
  using assms by (auto simp: store_typed_def)

lemma store_typed_ranks:
  assumes "store_typed view s" and "k \<in> rank_keys"
    and "view s' = (view s)(k \<mapsto> stored_text (view s k) @ join '','' (map int_text rs) @ '','')
      \<or> view s' = (view s)(k \<mapsto> stored_text (view s k))"
  shows "store_typed view s'"
proof -
  obtain qs where qs: "holds_ranks (view s k) qs" using assms(1,2) by (auto simp: store_typed_def)
  have "\<exists>qs. holds_ranks (view s' k) qs"
    using assms(3) holds_ranks_append [OF qs, of rs] holds_ranks_touch [OF qs] by auto
  moreover have "view s' j = view s j" if "j \<noteq> k" for j using assms(3) that by auto
  moreover have "records_key \<noteq> k" using rank_keys_other(1) [OF assms(2)] by simp
  ultimately show ?thesis using assms(1) unfolding store_typed_def by metis
qed

context appendable_store
begin

lemma typed_set: "store_typed view s \<Longrightarrow> k \<notin> rank_keys \<Longrightarrow> k \<noteq> records_key \<Longrightarrow> store_typed view (st_set st k v s)"
  by (rule store_typed_other) (simp_all add: ops)

lemma typed_add: "store_typed view s \<Longrightarrow> k \<notin> rank_keys \<Longrightarrow> k \<noteq> records_key \<Longrightarrow> store_typed view (snd (st_add st k n s))"
  by (rule store_typed_other) (simp_all add: ops)

lemma typed_append:
  assumes "store_typed view s" and "k \<in> rank_keys"
  shows "store_typed view (st_append st k (join '','' (map int_text rs) @ '','') s)"
    and "store_typed view (st_append st k [] s)"
  using store_typed_ranks [OF assms, of "st_append st k (join '','' (map int_text rs) @ '','') s" rs]
    store_typed_ranks [OF assms, of "st_append st k [] s"]
  by (simp_all add: ops)

lemma typed_read:
  assumes "store_typed view s" and "k \<in> rank_keys"
  shows "packed_ranks st k s = Inl (Blocked k) \<or> (\<exists>rs. packed_ranks st k s = Inr rs)"
proof (cases "view s k")
  case None
  then show ?thesis by (simp add: packed_ranks_def get_packed_def ops)
next
  case (Some t)
  obtain rs where "holds_ranks (view s k) rs" using assms by (auto simp: store_typed_def)
  then show ?thesis using packed_ranks_holds [OF laws] Some by fastforce
qed

lemma typed_records:
  assumes "store_typed view s" and "mixin_op_ok (RecordsOp op)"
  shows "store_typed view (run_record_op st op s)"
    and "op = ReadOp \<Longrightarrow> \<exists>rs. fst (get_interruption_records st s) = Inr rs"
proof -
  obtain ws where ws: "list_all (\<lambda>r. 0 \<le> ir_rank (report_record r)) ws"
    "holds_parts CHR '';'' (view s records_key) (map report_text ws)"
    using assms(1) by (auto simp: store_typed_def)
  show "\<exists>rs. fst (get_interruption_records st s) = Inr rs"
    using records_read(1) [OF ws(2)] report_texts_read [OF ws(1)] by simp
  have other: "k \<notin> {records_key, records_lock_key, interrupted_key}" if "k \<in> rank_keys" for k
    using rank_keys_other [OF that] by simp
  show "store_typed view (run_record_op st op s)"
  proof (cases op)
    case (RecordOp rs)
    have plain: "\<forall>ts. map_option (map report_text) rs = Some ts \<longrightarrow> list_all (plain_part CHR '';'') ts"
      using report_text_plain by (auto simp: list_all_iff)
    let ?new = "if count_text (view s records_lock_key) = 0 then (case rs of None \<Rightarrow> [] | Some rs \<Rightarrow> rs) else []"
    have "list_all (\<lambda>r. 0 \<le> ir_rank (report_record r)) (ws @ ?new)"
      using ws(1) assms(2) RecordOp by (auto split: option.splits)
    moreover have "holds_parts CHR '';'' (view (run_record_op st op s) records_key) (map report_text (ws @ ?new))"
      using records_written(1) [OF ws(2) plain] RecordOp
      by (cases rs; cases "count_text (view s records_lock_key) = 0") simp_all
    moreover have "view (run_record_op st op s) k = view s k" if "k \<in> rank_keys" for k
      using records_written(3) [OF ws(2) plain other [OF that]] RecordOp by simp
    ultimately show ?thesis using assms(1) unfolding store_typed_def by metis
  next
    case LockOp
    then show ?thesis
      using assms(1) other records_key_other(10) by (auto simp: store_typed_def records_locked)
  next
    case ReadOp
    then show ?thesis
      using assms(1) ws other records_read(2,3) [OF ws(2)] by (auto simp: store_typed_def)
  qed
qed

lemma typed_op:
  assumes t: "store_typed view s" and ok: "mixin_op_ok op"
  shows "store_typed view (snd (run_mixin_op st ft op s)) \<and> fst (run_mixin_op st ft op s) \<noteq> Some BadValue"
proof (cases op)
  case (SetActive rank active)
  have "active_rank_key rank \<notin> rank_keys" using rank_keys_other(5) by blast
  then show ?thesis
    using t typed_set [OF t] records_key_other(3) SetActive
    by (cases active) (simp_all add: set_active_rank_def not_sym)
next
  case (SetInitial rank initial)
  have "initial_rank_key rank \<notin> rank_keys" using rank_keys_other(6) by blast
  then show ?thesis using typed_set [OF t] records_key_other(4) SetInitial by (simp add: set_initial_rank_def not_sym)
next
  case (SendHeartbeat now rank)
  have "heartbeat_key rank \<notin> rank_keys" using rank_keys_other(7) by blast
  then show ?thesis using typed_set [OF t] records_key_other(5) SendHeartbeat by (simp add: send_heartbeat_def not_sym)
next
  case (RecordsOp op')
  then show ?thesis using typed_records [OF t] ok by (auto split: record_op.split)
next
  case CompletedOp
  have "completed_key \<notin> rank_keys" using rank_keys_other(4) by blast
  then show ?thesis using typed_set [OF t] records_key_other(2) CompletedOp by (simp add: record_completed_def not_sym)
next
  case (TerminatedOp ranks)
  have "terminated_key \<in> rank_keys" by (simp add: rank_keys_def)
  then show ?thesis
    using t typed_append(1) [OF t, of terminated_key ranks] TerminatedOp by (simp add: record_terminated_ranks_def Let_def)
next
  case ReadTerminated
  have k: "terminated_key \<in> rank_keys" by (simp add: rank_keys_def)
  show ?thesis
    using typed_append(2) [OF t k] typed_read [OF typed_append(2) [OF t k] k] ReadTerminated
    by (auto simp: get_terminated_ranks_def Let_def)
next
  case (AskArrived g rank)
  then have k: "arrived_key (barrier_key ''reentrant_barrier'' g) \<in> rank_keys"
    using arrived_rank_key [OF kinds(2)] ok by simp
  show ?thesis
    using typed_append(2) [OF t k] typed_read [OF typed_append(2) [OF t k] k] AskArrived
    by (auto simp: is_rank_at_reentrant_barrier_def Let_def)
next
  case (ReentrantTurn g ranks needed waits elapsed pc)
  then have k: "arrived_key (barrier_key ''reentrant_barrier'' g) \<in> rank_keys"
    using arrived_rank_key [OF kinds(2)] ok by simp
  have last: "last_arrived_key (barrier_key ''reentrant_barrier'' g) \<notin> rank_keys"
    using rank_keys_other(9) by blast
  show ?thesis
    using t typed_append(1) [OF t k] typed_read [OF t k] typed_set [OF t last] records_key_other(8) ReentrantTurn
    by (cases pc) (auto simp: Let_def after_release_def not_sym)
next
  case (PlainTurn g ranks needed waits elapsed pc)
  then have k: "arrived_key (barrier_key ''barrier'' g) \<in> rank_keys" "barrier_key ''barrier'' g \<notin> rank_keys"
    using arrived_rank_key [OF kinds(1)] rank_keys_other(8) kinds(1) ok by auto
  have last: "last_arrived_key (barrier_key ''barrier'' g) \<notin> rank_keys"
    using rank_keys_other(9) by blast
  show ?thesis
    using t typed_append(1) [OF t k(1)] typed_read [OF t k(1)] typed_set [OF t last] typed_add [OF t k(2)]
      records_key_other(7,8) PlainTurn
    by (cases pc) (auto simp: Let_def not_sym split_beta)
qed

lemma typed_run:
  "store_typed view s \<Longrightarrow> list_all mixin_op_ok ops \<Longrightarrow>
     store_typed view (snd (run_mixin st ft ops s)) \<and> Some BadValue \<notin> set (fst (run_mixin st ft ops s))"
proof (induction ops arbitrary: s)
  case (Cons op ops)
  let ?one = "run_mixin_op st ft op s"
  have "store_typed view (snd ?one)" "fst ?one \<noteq> Some BadValue" using typed_op [of s op ft] Cons.prems by simp_all
  moreover have "fst (run_mixin st ft (op # ops) s) = fst ?one # fst (run_mixin st ft ops (snd ?one))"
    "snd (run_mixin st ft (op # ops) s) = snd (run_mixin st ft ops (snd ?one))"
    by (simp_all add: split_beta)
  ultimately show ?case using Cons.IH [of "snd ?one"] Cons.prems(2) by (simp del: run_mixin.simps)
qed simp

end

definition unwritten :: "('s \<Rightarrow> string \<Rightarrow> string option) \<Rightarrow> 's \<Rightarrow> bool" where
  "unwritten view s \<longleftrightarrow> (\<forall>k \<in> insert records_key rank_keys. view s k = None)"


section \<open>Concrete runs\<close>



end
