(* ===== verification/InprocMonitor.thy ===== *)
theory InprocMonitor
  imports InprocStoreProps
begin

text \<open>
  The watchers of a rank during an iteration of the in-process restart: the sibling monitor
  (\<open>inprocess/sibling_monitor.py\<close>), which takes ranks without heartbeats for dead, and the monitor
  process (\<open>inprocess/monitor_process.py\<close>), which follows its own rank's timestamps and life and
  speaks for it when it is gone. Threads are turns between store calls; times are arguments.
\<close>

section \<open>Calls that do not wait\<close>

datatype mon_fault = FStore store_error | FOverflow "int list" | FTimeout | FUnbound | FBadMessage

definition barrier_fault :: "barrier_at \<Rightarrow> mon_fault option" where
  "barrier_fault a =
     (case a of Overflow rs \<Rightarrow> Some (FOverflow rs) | TimedOut \<Rightarrow> Some FTimeout | Broken e \<Rightarrow> Some (FStore e)
      | _ \<Rightarrow> None)"

text \<open>A reentrant barrier with timeout 0 appends, counts and, when it is the last, releases.\<close>

definition reentrant_now ::
  "('s, 'm) append_store_scheme \<Rightarrow> string \<Rightarrow> string list \<Rightarrow> int \<Rightarrow> 's \<Rightarrow> barrier_at \<times> 's" where
  "reentrant_now st key ranks needed s =
     (let (a, s) = reentrant_turn st key ranks needed False False AtEnter s;
          (a, s) = reentrant_turn st key ranks needed False False a s
      in reentrant_turn st key ranks needed False False a s)"

definition termination_key :: string where
  "termination_key = barrier_key ''reentrant_barrier'' ''termination_barrier''"

section \<open>The sibling monitor\<close>

definition terminate_unresponsive_ranks ::
  "'s append_store \<Rightarrow> (string \<Rightarrow> string) \<Rightarrow> int \<Rightarrow> int \<Rightarrow> int list \<Rightarrow> 's \<Rightarrow> (mon_fault + unit) \<times> 's" where
  "terminate_unresponsive_ranks st p world_size initial_world_size ranks s =
     (let own = prefix_store p st;
          s = record_interrupted own (Some (map (\<lambda>r. record_text (InterruptionRecord r UNRESPONSIVE)) ranks)) s;
          s = record_terminated_ranks own ranks s;
          (a, s) = reentrant_now own iteration_key (map int_text ranks) world_size s
      in case barrier_fault a of
           Some f \<Rightarrow> (Inl f, s)
         | None \<Rightarrow>
             (case get_initial_ranks own ranks s of
                None \<Rightarrow> (Inl (FStore (Blocked (initial_rank_key (hd ranks)))), s)
              | Some initial_ranks \<Rightarrow>
                  let (a, s) = reentrant_now st termination_key (map bytes_text initial_ranks) initial_world_size s
                  in case barrier_fault a of Some f \<Rightarrow> (Inl f, s) | None \<Rightarrow> (Inr (), s)))"

record sibling_monitor =
  sb_rank :: int
  sb_world_size :: int
  sb_initial_world_size :: int
  sb_timeout :: real
  sb_seen :: "int set"

definition sibling_rank :: "sibling_monitor \<Rightarrow> int" where
  "sibling_rank m = (sb_rank m + 1) mod sb_world_size m"

text \<open>The clock is read once for the sibling and once for all ranks.\<close>

definition check_heartbeats ::
  "'s append_store \<Rightarrow> (string \<Rightarrow> string) \<Rightarrow> (string \<Rightarrow> real option) \<Rightarrow> real \<Rightarrow> real \<Rightarrow> sibling_monitor \<Rightarrow> 's
    \<Rightarrow> (mon_fault + sibling_monitor) \<times> 's" where
  "check_heartbeats st p text_float time now m s =
     (let own = prefix_store p st
      in case get_heartbeat own text_float (sibling_rank m) s of
           Inl e \<Rightarrow> (Inl (FStore e), s)
         | Inr sibling_heartbeat \<Rightarrow>
             if time - sibling_heartbeat > sb_timeout m then
               (case get_all_heartbeats own text_float (sb_world_size m) s of
                  Inl e \<Rightarrow> (Inl (FStore e), s)
                | Inr heartbeats \<Rightarrow>
                    let current = filter (\<lambda>r. now - heartbeats ! nat r > sb_timeout m) [0..int (length heartbeats) - 1];
                        new = filter (\<lambda>r. r \<notin> sb_seen m) current
                    in if new = [] then (Inr m, s)
                       else (case terminate_unresponsive_ranks st p (sb_world_size m) (sb_initial_world_size m) new s of
                               (Inl f, s) \<Rightarrow> (Inl f, s)
                             | (Inr _, s) \<Rightarrow> (Inr (m\<lparr>sb_seen := sb_seen m \<union> set new\<rparr>), s)))
             else (Inr m, s))"

section \<open>The monitor process\<close>

record timestamp =
  ts_auto :: "real option"
  ts_manual :: "real option"

definition is_timed_out :: "timestamp \<Rightarrow> real \<Rightarrow> real \<Rightarrow> bool" where
  "is_timed_out ts now timeout =
     list_ex (\<lambda>t. case t of None \<Rightarrow> False | Some t \<Rightarrow> now - t > timeout) [ts_auto ts, ts_manual ts]"

text \<open>A reported interruption is the text of what the main process sent.\<close>

datatype mp_message =
    MTimestamp timestamp | MDisableSiblingMonitor | MRecordInterrupted string | MDaemonPid int
  | MIterationStart int int int | MTerminate | MDisableTimeouts | MEnableTimeouts

record mp_config =
  mc_initial_rank :: int
  mc_initial_world_size :: int
  mc_soft_timeout :: real
  mc_hard_timeout :: real
  mc_barrier_timeout :: real
  mc_critical_ranks :: "int list"

text \<open>The variables of the loop; the store of the iteration is unbound before the first iteration.\<close>

record mp_state =
  mp_rank :: int
  mp_world_size :: int
  mp_iteration :: "int option"
  mp_hard_timeout :: real
  mp_soft_expired :: bool
  mp_timestamp :: timestamp
  mp_timeouts_enabled :: bool
  mp_sibling :: bool

datatype mp_at =
    MLoop | MDying barrier_at | MClosing barrier_at | MFailing barrier_at | MTerminating barrier_at | MDone
  | MCrashed mon_fault

text \<open>
  What a pass of the loop meets: a stop request, the message of the queue, the clock at the two
  timeouts, whether the target process is active; and whether a barrier's timeout is over.
\<close>

record mp_input =
  mi_stop :: bool
  mi_msg :: "mp_message option"
  mi_soft_time :: real
  mi_hard_time :: real
  mi_alive :: bool
  mi_elapsed :: bool

definition mp_begin :: "mp_config \<Rightarrow> real \<Rightarrow> mp_state" where
  "mp_begin c now =
     \<lparr>mp_rank = mc_initial_rank c, mp_world_size = mc_initial_world_size c, mp_iteration = None,
      mp_hard_timeout = mc_hard_timeout c, mp_soft_expired = False,
      mp_timestamp = \<lparr>ts_auto = Some now, ts_manual = None\<rparr>, mp_timeouts_enabled = True, mp_sibling = False\<rparr>"

type_synonym 's mp_result = "mp_at \<times> mp_state \<times> bool \<times> 's"

definition mp_report :: "'s append_store \<Rightarrow> mp_state \<Rightarrow> interruption \<Rightarrow> 's \<Rightarrow> 's" where
  "mp_report own m i s = record_interrupted own (Some [record_text (InterruptionRecord (mp_rank m) i)]) s"

text \<open>The handler of an exception of the loop, up to the iteration barrier.\<close>

definition mp_fail ::
  "'s append_store \<Rightarrow> (int \<Rightarrow> string \<Rightarrow> string) \<Rightarrow> mp_state \<Rightarrow> bool \<Rightarrow> 's \<Rightarrow> 's mp_result" where
  "mp_fail st p m killed s =
     (case mp_iteration m of
        None \<Rightarrow> (MCrashed FUnbound, m, killed, s)
      | Some i \<Rightarrow>
          let own = prefix_store (p i) st;
              s = mp_report own m MONITOR_PROCESS_EXCEPTION s;
              s = record_terminated_ranks own [mp_rank m] s
          in (MFailing AtEnter, m, killed, s))"

definition mp_check_death ::
  "'s append_store \<Rightarrow> (int \<Rightarrow> string \<Rightarrow> string) \<Rightarrow> bool \<Rightarrow> mp_state \<Rightarrow> bool \<Rightarrow> 's \<Rightarrow> 's mp_result" where
  "mp_check_death st p alive m killed s =
     (if alive \<and> \<not> killed then (MLoop, m, killed, s)
      else case mp_iteration m of
             None \<Rightarrow> mp_fail st p m killed s
           | Some i \<Rightarrow>
               let own = prefix_store (p i) st;
                   s = mp_report own m TERMINATED_RANK s;
                   s = record_terminated_ranks own [mp_rank m] s
               in (MDying AtEnter, m, killed, s))"

definition mp_check_hard ::
  "'s append_store \<Rightarrow> (int \<Rightarrow> string \<Rightarrow> string) \<Rightarrow> mp_config \<Rightarrow> mp_input \<Rightarrow> mp_state \<Rightarrow> 's \<Rightarrow> 's mp_result" where
  "mp_check_hard st p c inp m s =
     (if is_timed_out (mp_timestamp m) (mi_hard_time inp) (mp_hard_timeout m) then
        (case mp_iteration m of
           None \<Rightarrow> mp_fail st p m False s
         | Some i \<Rightarrow>
             let own = prefix_store (p i) st
             in case is_rank_at_reentrant_barrier own iteration_key (mp_rank m) s of
                  (Inl e, s) \<Rightarrow> mp_fail st p m False s
                | (Inr already_arrived, s) \<Rightarrow>
                    if already_arrived \<and> mp_hard_timeout m \<noteq> mc_barrier_timeout c then
                      (MLoop, m\<lparr>mp_hard_timeout := mc_barrier_timeout c\<rparr>, False, s)
                    else
                      let s = mp_report own m HARD_TIMEOUT s;
                          s = record_terminated_ranks own [mp_rank m] s
                      in mp_check_death st p (mi_alive inp) m True s)
      else mp_check_death st p (mi_alive inp) m False s)"

definition mp_check ::
  "'s append_store \<Rightarrow> (int \<Rightarrow> string \<Rightarrow> string) \<Rightarrow> mp_config \<Rightarrow> mp_input \<Rightarrow> mp_state \<Rightarrow> 's \<Rightarrow> 's mp_result" where
  "mp_check st p c inp m s =
     (if \<not> mp_timeouts_enabled m then mp_check_death st p (mi_alive inp) m False s
      else if \<not> mp_soft_expired m \<and> is_timed_out (mp_timestamp m) (mi_soft_time inp) (mc_soft_timeout c) then
        (case mp_iteration m of
           None \<Rightarrow> mp_fail st p m False s
         | Some i \<Rightarrow>
             mp_check_hard st p c inp (m\<lparr>mp_soft_expired := True\<rparr>)
               (mp_report (prefix_store (p i) st) m SOFT_TIMEOUT s))
      else mp_check_hard st p c inp m s)"

definition mp_loop ::
  "'s append_store \<Rightarrow> (int \<Rightarrow> string \<Rightarrow> string) \<Rightarrow> mp_config \<Rightarrow> mp_input \<Rightarrow> mp_state \<Rightarrow> 's \<Rightarrow> 's mp_result" where
  "mp_loop st p c inp m s =
     (if mi_stop inp then (MDone, m, False, s)
      else case mi_msg inp of
        None \<Rightarrow> mp_check st p c inp m s
      | Some (MIterationStart rank world_size iteration) \<Rightarrow>
          (MLoop, m\<lparr>mp_rank := rank, mp_world_size := world_size, mp_iteration := Some iteration,
                    mp_sibling := True, mp_hard_timeout := mc_hard_timeout c, mp_soft_expired := False\<rparr>, False, s)
      | Some (MTimestamp ts) \<Rightarrow> (MLoop, m\<lparr>mp_timestamp := ts\<rparr>, False, s)
      | Some MDisableSiblingMonitor \<Rightarrow> mp_check st p c inp (m\<lparr>mp_sibling := False\<rparr>) s
      | Some MDisableTimeouts \<Rightarrow> mp_check st p c inp (m\<lparr>mp_timeouts_enabled := False\<rparr>) s
      | Some MEnableTimeouts \<Rightarrow> mp_check st p c inp (m\<lparr>mp_timeouts_enabled := True\<rparr>) s
      | Some MTerminate \<Rightarrow> (MDone, m, False, s)
      | Some (MRecordInterrupted text) \<Rightarrow>
          (case mp_iteration m of
             None \<Rightarrow> mp_fail st p m False s
           | Some i \<Rightarrow> mp_check st p c inp m (record_interrupted (prefix_store (p i) st) (Some [text]) s))
      | Some (MDaemonPid pid) \<Rightarrow> mp_fail st p m False s)"

text \<open>One turn: a pass of the loop, or a call at one of the barriers on the way out.\<close>

definition mp_own_barrier ::
  "'s append_store \<Rightarrow> (int \<Rightarrow> string \<Rightarrow> string) \<Rightarrow> mp_input \<Rightarrow> mp_state \<Rightarrow> barrier_at \<Rightarrow> 's \<Rightarrow> barrier_at \<times> 's" where
  "mp_own_barrier st p inp m a s =
     (case mp_iteration m of
        None \<Rightarrow> (a, s)
      | Some i \<Rightarrow> reentrant_turn (prefix_store (p i) st) iteration_key [int_text (mp_rank m)] (mp_world_size m)
                    True (mi_elapsed inp) a s)"

fun mp_turn ::
  "'s append_store \<Rightarrow> (int \<Rightarrow> string \<Rightarrow> string) \<Rightarrow> mp_config \<Rightarrow> mp_input \<Rightarrow> mp_at \<Rightarrow> mp_state \<Rightarrow> 's \<Rightarrow> 's mp_result" where
  "mp_turn st p c inp MLoop m s = mp_loop st p c inp m s"
| "mp_turn st p c inp (MDying a) m s =
     (let (a, s) = mp_own_barrier st p inp m a s
      in case barrier_fault a of
           Some f \<Rightarrow> mp_fail st p m False s
         | None \<Rightarrow> if a = Passed then (MClosing AtEnter, m\<lparr>mp_sibling := False\<rparr>, False, s) else (MDying a, m, False, s))"
| "mp_turn st p c inp (MClosing a) m s =
     (let (a, s) = reentrant_turn st termination_key [int_text (mc_initial_rank c)] (mc_initial_world_size c) False False a s
      in case barrier_fault a of
           Some f \<Rightarrow> mp_fail st p m False s
         | None \<Rightarrow> (if a = Passed then MDone else MClosing a, m, False, s))"
| "mp_turn st p c inp (MFailing a) m s =
     (let (a, s) = mp_own_barrier st p inp m a s
      in case barrier_fault a of
           Some f \<Rightarrow> (MCrashed f, m\<lparr>mp_sibling := False\<rparr>, False, s)
         | None \<Rightarrow> if a = Passed then (MTerminating AtEnter, m\<lparr>mp_sibling := False\<rparr>, False, s) else (MFailing a, m, False, s))"
| "mp_turn st p c inp (MTerminating a) m s =
     (let (a, s) = reentrant_turn st termination_key [int_text (mc_initial_rank c)] (mc_initial_world_size c)
                     (mc_initial_rank c \<in> set (mc_critical_ranks c)) False a s
      in case barrier_fault a of
           Some f \<Rightarrow> (MCrashed f, m, False, s)
         | None \<Rightarrow> (if a = Passed then MDone else MTerminating a, m, False, s))"
| "mp_turn st p c inp MDone m s = (MDone, m, False, s)"
| "mp_turn st p c inp (MCrashed f) m s = (MCrashed f, m, False, s)"

section \<open>A value that is no number\<close>

definition bad_part :: "string \<Rightarrow> bool" where
  "bad_part w \<longleftrightarrow> not_blank w \<and> py_int w = None"

definition poisoned :: "string option \<Rightarrow> bool" where
  "poisoned v \<longleftrightarrow> (\<exists>ps. v = Some (parts_text CHR '','' ps) \<and> (\<forall>w \<in> set ps. CHR '','' \<notin> set w)
     \<and> (\<exists>w \<in> set ps. bad_part w))"

lemma ints_of_bad: "w \<in> set ws \<Longrightarrow> py_int w = None \<Longrightarrow> ints_of ws = None"
  by (induction ws) (auto split: option.split)

lemma poisoned_read:
  assumes "append_laws st view" and "poisoned (view s k)"
  shows "packed_ranks st k s = Inl BadValue"
proof -
  obtain ps w where ps: "view s k = Some (parts_text CHR '','' ps)" "\<forall>w \<in> set ps. CHR '','' \<notin> set w"
    and w: "w \<in> set ps" "bad_part w"
    using assms(2) unfolding poisoned_def by blast
  have "filter not_blank (py_split CHR '','' (py_rstrip CHR '','' (parts_text CHR '','' ps))) = filter not_blank ps"
    using py_split_strip_parts [where P = not_blank, OF ps(2) not_blank_Nil] by (simp add: parts_text_def)
  moreover have "ints_of (filter not_blank ps) = None"
    using w by (intro ints_of_bad [of w]) (simp_all add: bad_part_def)
  ultimately show ?thesis
    using ps(1) by (simp add: packed_ranks_def get_packed_def append_lawsD(3) [OF assms(1)])
qed

lemma poisoned_append:
  assumes "poisoned v \<or> (\<exists>rs. holds_ranks v rs) \<and> list_ex bad_part ws" and "\<forall>w \<in> set ws. CHR '','' \<notin> set w"
  shows "poisoned (Some (stored_text v @ join '','' ws @ '',''))"
proof -
  have "\<exists>ps. stored_text v = parts_text CHR '','' ps \<and> (\<forall>w \<in> set ps. CHR '','' \<notin> set w)
      \<and> ((\<exists>w \<in> set ps. bad_part w) \<or> list_ex bad_part ws)"
  proof (cases "poisoned v")
    case True
    then show ?thesis by (auto simp: poisoned_def)
  next
    case False
    then obtain rs ps where "filter (\<lambda>w. w \<noteq> []) ps = map int_text rs" "parts_text CHR '','' ps = stored_text v"
      "list_ex bad_part ws"
      using assms(1) by (auto simp: holds_ranks_def holds_parts_def)
    moreover have "CHR '','' \<notin> set w" if "w \<in> set ps" for w
    proof (cases "w = []")
      case False
      then have "w \<in> set (filter (\<lambda>w. w \<noteq> []) ps)" using that by simp
      then have "w \<in> set (map int_text rs)" by (simp only: calculation(1))
      then show ?thesis using int_text_no_comma by auto
    qed simp
    ultimately show ?thesis by metis
  qed
  then obtain ps where ps: "stored_text v = parts_text CHR '','' ps" "\<forall>w \<in> set ps. CHR '','' \<notin> set w"
    "(\<exists>w \<in> set ps. bad_part w) \<or> list_ex bad_part ws" by blast
  let ?ws = "if ws = [] then [[]] else ws"
  have "stored_text v @ join '','' ws @ '','' = parts_text CHR '','' (ps @ ?ws)"
    unfolding parts_text_append ps(1) join_text [of "CHR '',''" ws] ..
  moreover have "\<forall>w \<in> set (ps @ ?ws). CHR '','' \<notin> set w" using ps(2) assms(2) by auto
  moreover have "\<exists>w \<in> set (ps @ ?ws). bad_part w" using ps(3) by (auto simp: list_ex_iff split: if_splits)
  ultimately show ?thesis unfolding poisoned_def by blast
qed

lemma bytes_text_bad: "bad_part (bytes_text v)" "CHR '','' \<notin> set (bytes_text (int_text i))"
proof -
  have strip: "py_strip (bytes_text v) = bytes_text v"
    by (simp add: py_strip_def bytes_text_def py_isspace_def)
  then show "bad_part (bytes_text v)"
    by (simp add: bad_part_def not_blank_def py_int_def py_nat_def bytes_text_def py_isdigit_def split: list.split)
  show "CHR '','' \<notin> set (bytes_text (int_text i))"
    using int_text_no_comma by (simp add: bytes_text_def)
qed

section \<open>What the sibling monitor leaves behind\<close>

lemma reentrant_now_append:
  assumes "append_laws st view"
  shows "view (snd (reentrant_now st key ranks needed s)) (arrived_key key)
      = Some (stored_text (view s (arrived_key key)) @ join '','' ranks @ '','')"
    and "k \<notin> {arrived_key key, last_arrived_key key} \<Longrightarrow> view (snd (reentrant_now st key ranks needed s)) k = view s k"
    and "packed_ranks st (arrived_key key) (st_append st (arrived_key key) (join '','' ranks @ '','') s) = Inl e \<Longrightarrow>
      fst (reentrant_now st key ranks needed s) = Broken e"
    and "packed_ranks st (arrived_key key) (st_append st (arrived_key key) (join '','' ranks @ '','') s) = Inr is \<Longrightarrow>
      int (card (set is)) \<le> needed \<Longrightarrow> fst (reentrant_now st key ranks needed s) = Passed"
  by (auto simp: reentrant_now_def Let_def split_beta after_release_def append_lawsD [OF assms] split: sum.split)

lemma rank_keys_iteration: "arrived_key iteration_key \<in> rank_keys" "arrived_key termination_key \<in> rank_keys"
  by (auto simp: iteration_key_def termination_key_def group_ok_def kinds intro!: arrived_rank_key)

lemma own_writes_apart:
  assumes "append_laws st view" and "K \<notin> range p"
  shows "view (record_interrupted (prefix_store p st) records s) K = view s K"
    and "view (record_terminated_ranks (prefix_store p st) ranks s) K = view s K"
    and "view (snd (reentrant_now (prefix_store p st) key texts needed s)) K = view s K"
proof -
  have K: "K \<noteq> p j" for j using assms(2) by auto
  note apart = prefix_store_apart [where view = view and p = p, OF assms(1) K]
  show "view (record_interrupted (prefix_store p st) records s) K = view s K"
    by (simp add: record_interrupted_def Let_def split_beta apart split: option.split)
  show "view (record_terminated_ranks (prefix_store p st) ranks s) K = view s K"
    by (simp add: record_terminated_ranks_def Let_def apart)
  show "view (snd (reentrant_now (prefix_store p st) key texts needed s)) K = view s K"
    by (auto simp: reentrant_now_def Let_def split_beta after_release_def apart split: sum.split)
qed

lemma initial_rank_key_other:
  "initial_rank_key r \<notin> {records_key, records_lock_key, interrupted_key, terminated_key,
     arrived_key iteration_key, last_arrived_key iteration_key}"
  by (simp add: initial_rank_key_def records_key_def records_lock_key_def interrupted_key_def terminated_key_def
      arrived_key_def last_arrived_key_def iteration_key_def barrier_key_def)

text \<open>The steps of the sibling before the termination barrier.\<close>

lemma terminate_reaches_termination_barrier:
  assumes "append_laws st view" and "inj p" and "store_typed (\<lambda>s k. view s (p k)) s"
    and "holds_ranks (view s (p (arrived_key iteration_key))) as" and "int (card (set as \<union> set ranks)) \<le> world_size"
    and "\<forall>r \<in> set ranks. \<exists>i. view s (p (initial_rank_key r)) = Some (int_text i)"
  shows "\<exists>is s3. length is = length ranks \<and> (\<forall>k. k \<notin> range p \<longrightarrow> view s3 k = view s k)
    \<and> terminate_unresponsive_ranks st p world_size initial_world_size ranks s =
      (let (a, s') = reentrant_now st termination_key (map (\<lambda>i. bytes_text (int_text i)) is) initial_world_size s3
       in case barrier_fault a of Some f \<Rightarrow> (Inl f, s') | None \<Rightarrow> (Inr (), s'))"
proof -
  note own = prefix_store_laws [OF assms(1,2)]
  note own_store = appendable_store.intro [OF own]
  let ?own = "prefix_store p st" and ?I = "arrived_key iteration_key" and ?v = "\<lambda>s k. view s (p k)"
  let ?texts = "map (\<lambda>r. record_text (InterruptionRecord r UNRESPONSIVE)) ranks"
  define s1 where "s1 = record_interrupted ?own (Some ?texts) s"
  define s2 where "s2 = record_terminated_ranks ?own ranks s1"
  obtain ws where ws: "holds_parts CHR '';'' (?v s records_key) ws" using assms(3) by (auto simp: store_typed_def)
  have plain: "\<forall>ts. Some ?texts = Some ts \<longrightarrow> list_all (plain_part CHR '';'') ts"
    using report_text_plain [of "Plain r" for r] by (auto simp: list_all_iff)
  have v1: "?v s1 k = ?v s k" if "k \<notin> {records_key, records_lock_key, interrupted_key}" for k
    unfolding s1_def by (rule appendable_store.records_written(3) [OF own_store ws plain that])
  obtain ts where "holds_ranks (?v s terminated_key) ts" using assms(3) by (auto simp: store_typed_def rank_keys_def)
  then have ts: "holds_ranks (?v s1 terminated_key) ts"
    by (simp add: v1 terminated_key_def records_key_def records_lock_key_def interrupted_key_def)
  have v2: "?v s2 k = ?v s k" if "k \<notin> {records_key, records_lock_key, interrupted_key, terminated_key}" for k
    using record_terminated_holds(2) [OF own ts] that v1 by (simp add: s2_def)
  have I: "?I \<notin> {records_key, records_lock_key, interrupted_key, terminated_key}"
    using rank_keys_other(1-3) [OF rank_keys_iteration(1)] by simp
  let ?s2' = "st_append ?own ?I (join '','' (map int_text ranks) @ '','') s2"
  have I': "?v ?s2' ?I = Some (stored_text (?v s ?I) @ join '','' (map int_text ranks) @ '','')"
    using fun_cong [OF append_lawsD(1) [OF own], of ?I "join '','' (map int_text ranks) @ '',''" s2 ?I] v2 [OF I]
    by simp
  have "holds_ranks (?v ?s2' ?I) (as @ ranks)"
    unfolding I' by (rule holds_ranks_append [OF assms(4)])
  then have "packed_ranks ?own ?I ?s2' = Inr (as @ ranks)"
    by (rule packed_ranks_holds [OF own]) (simp add: I')
  then have passed: "fst (reentrant_now ?own iteration_key (map int_text ranks) world_size s2) = Passed"
    by (rule reentrant_now_append(4) [OF own]) (simp add: assms(5))
  define s3 where "s3 = snd (reentrant_now ?own iteration_key (map int_text ranks) world_size s2)"
  obtain f where f: "?v s (initial_rank_key r) = Some (int_text (f r))" if "r \<in> set ranks" for r
    using assms(6) by metis
  have v3: "?v s3 (initial_rank_key r) = Some (int_text (f r))" if "r \<in> set ranks" for r
    using reentrant_now_append(2) [OF own, of "initial_rank_key r"] v2 [of "initial_rank_key r"] f [OF that]
      initial_rank_key_other [of r] by (simp add: s3_def)
  have "get_initial_ranks ?own ranks s3 = Some (map (\<lambda>r. int_text (f r)) ranks)"
    using v3 by (simp add: get_initial_ranks_def appendable_store.multi_get [OF own_store])
  moreover have "view s3 k = view s k" if "k \<notin> range p" for k
    using own_writes_apart [OF assms(1) that] by (simp add: s1_def s2_def s3_def)
  ultimately show ?thesis
    using passed
    by (intro exI [of _ "map f ranks"] exI [of _ s3])
      (simp add: terminate_unresponsive_ranks_def Let_def split_beta s1_def s2_def s3_def barrier_fault_def comp_def)
qed

text \<open>
  C9: a rank without heartbeats breaks the termination barrier of everybody. When the sibling
  monitor takes ranks for dead whose initial ranks are known, and the iteration barrier takes them,
  it fails with a value error at the termination barrier, because the initial ranks are the bytes of
  the store; and from then on every caller of that barrier, whether it waits or not, fails in the
  same way, whatever is appended to it in between.
\<close>

theorem sibling_poisons_termination_barrier:
  assumes "append_laws st view" and "inj p" and "range p \<inter> {arrived_key termination_key, last_arrived_key termination_key} = {}"
    and "store_typed (\<lambda>s k. view s (p k)) s" and "holds_ranks (view s (arrived_key termination_key)) qs"
    and "holds_ranks (view s (p (arrived_key iteration_key))) as" and "int (card (set as \<union> set ranks)) \<le> world_size"
    and "\<forall>r \<in> set ranks. \<exists>i. view s (p (initial_rank_key r)) = Some (int_text i)" and "ranks \<noteq> []"
  shows "\<exists>s'. terminate_unresponsive_ranks st p world_size initial_world_size ranks s = (Inl (FStore BadValue), s')
    \<and> (\<forall>later key. (\<forall>ws \<in> set later. \<forall>w \<in> set ws. CHR '','' \<notin> set w) \<longrightarrow>
        reentrant_turn st termination_key key needed waits elapsed AtCount
            (fold (\<lambda>ws. st_append st (arrived_key termination_key) (join '','' ws @ '','')) later s')
          = (Broken BadValue, fold (\<lambda>ws. st_append st (arrived_key termination_key) (join '','' ws @ '','')) later s'))"
proof -
  let ?T = "arrived_key termination_key" and ?res = "terminate_unresponsive_ranks st p world_size initial_world_size ranks s"
  obtain "is" s3 where s3: "length is = length ranks" "\<forall>k. k \<notin> range p \<longrightarrow> view s3 k = view s k"
    "?res = (let (a, s') = reentrant_now st termination_key (map (\<lambda>i. bytes_text (int_text i)) is) initial_world_size s3
       in case barrier_fault a of Some f \<Rightarrow> (Inl f, s') | None \<Rightarrow> (Inr (), s'))"
    using terminate_reaches_termination_barrier [OF assms(1,2,4,6,7,8), where initial_world_size = initial_world_size]
    by (elim exE conjE) (rule that)
  let ?texts = "map (\<lambda>i. bytes_text (int_text i)) is"
  have plain: "\<forall>w \<in> set ?texts. CHR '','' \<notin> set w" using bytes_text_bad(2) by auto
  have "view s3 ?T = view s ?T" using s3(2) assms(3) by blast
  moreover have "list_ex bad_part ?texts"
    using s3(1) assms(9) bytes_text_bad(1) by (cases "is") auto
  ultimately have bad: "poisoned (Some (stored_text (view s3 ?T) @ join '','' ?texts @ '',''))"
    using poisoned_append [OF _ plain] assms(5) by auto
  then have "packed_ranks st ?T (st_append st ?T (join '','' ?texts @ '','') s3) = Inl BadValue"
    by (intro poisoned_read [OF assms(1)]) (simp add: append_lawsD(1) [OF assms(1)])
  from reentrant_now_append(3) [OF assms(1) this]
  have res: "?res = (Inl (FStore BadValue), snd (reentrant_now st termination_key ?texts initial_world_size s3))"
    using s3(3) by (simp add: split_beta barrier_fault_def)
  note res
  moreover have "poisoned (view (fold (\<lambda>ws. st_append st ?T (join '','' ws @ '','')) later s') ?T)"
    if "\<forall>ws \<in> set later. \<forall>w \<in> set ws. CHR '','' \<notin> set w" "poisoned (view s' ?T)" for later s'
    using that poisoned_append
    by (induction later arbitrary: s') (simp_all add: append_lawsD(1) [OF assms(1)])
  moreover have "poisoned (view (snd (reentrant_now st termination_key ?texts initial_world_size s3)) ?T)"
    unfolding reentrant_now_append(1) [OF assms(1)] by (rule bad)
  ultimately have later: "reentrant_turn st termination_key key needed waits elapsed AtCount
        (fold (\<lambda>ws. st_append st ?T (join '','' ws @ '','')) later (snd ?res))
      = (Broken BadValue, fold (\<lambda>ws. st_append st ?T (join '','' ws @ '','')) later (snd ?res))"
    if "\<forall>ws \<in> set later. \<forall>w \<in> set ws. CHR '','' \<notin> set w" for later key
    using poisoned_read [OF assms(1)] that by simp
  show ?thesis
    by (intro exI [of _ "snd ?res"] conjI allI impI later) (use res in \<open>simp_all\<close>)
qed

lemma slash_key_base: "range (slash_key i) \<inter> {arrived_key termination_key, last_arrived_key termination_key} = {}"
  by (auto simp: slash_key_def store_prefix_def arrived_key_def last_arrived_key_def termination_key_def barrier_key_def)

lemma typed_initial_rank: "store_typed (\<lambda>s k. s (slash_key 0 k)) [slash_key 0 (initial_rank_key 1) \<mapsto> v]"
proof -
  have "[slash_key 0 (initial_rank_key 1) \<mapsto> v] (slash_key 0 k) = None" if "k \<in> insert records_key rank_keys" for k
    using that rank_keys_other(6) records_key_other(4) [symmetric] by (auto simp: inj_eq [OF slash_key_inj])
  then show ?thesis by (auto simp: store_typed_def intro: exI [of _ "[]"])
qed

theorem sibling_poisons_termination_barrier_witness:
  "fst (terminate_unresponsive_ranks dict_append_store (slash_key 0) 2 2 [1] [slash_key 0 (initial_rank_key 1) \<mapsto> ''1''])
    = Inl (FStore BadValue)"
proof -
  let ?s = "[slash_key 0 (initial_rank_key 1) \<mapsto> ''1'']"
  have "arrived_key termination_key \<notin> range (slash_key 0)" using slash_key_base [of 0] by blast
  then have base: "holds_ranks (?s (arrived_key termination_key)) []" by (auto simp: fun_upd_apply)
  have "arrived_key iteration_key \<noteq> initial_rank_key 1"
    by (simp add: arrived_key_def iteration_key_def barrier_key_def initial_rank_key_def)
  then have own: "holds_ranks (?s (slash_key 0 (arrived_key iteration_key))) []"
    by (simp add: inj_eq [OF slash_key_inj])
  have "int_text 1 = ''1''" by code_simp
  then have known: "\<forall>r \<in> set [1]. \<exists>i. ?s (slash_key 0 (initial_rank_key r)) = Some (int_text i)"
    by (auto intro: exI [of _ 1])
  have room: "int (card (set [] \<union> set [1::int])) \<le> 2" by simp
  from sibling_poisons_termination_barrier [where view = "\<lambda>m. m" and initial_world_size = 2 and needed = 2 and waits = True and elapsed = False, OF dict_append_store_laws
      slash_key_inj slash_key_base typed_initial_rank base own room known list.distinct(2)]
  show ?thesis by (elim exE conjE) (simp only: fst_conv)
qed

end
