(* ===== verification/InprocMonitorProps.thy ===== *)
theory InprocMonitorProps
  imports InprocMonitor
begin

text \<open>
  Properties of the monitor process: whom it kills, how it speaks for a rank that is gone, and what
  is lost when the rank goes before its first iteration.
\<close>

section \<open>Reports and records in the store of the iteration\<close>

lemma mp_report_simps:
  assumes "append_laws st view"
  shows "k \<notin> {records_key, records_lock_key, interrupted_key} \<Longrightarrow> view (mp_report st m i s) k = view s k"
    and "view (mp_report st m i s) interrupted_key = Some []"
  using append_lawsD [OF assms]
  by (auto simp: mp_report_def record_interrupted_def Let_def split_beta records_key_def records_lock_key_def interrupted_key_def)

lemma record_terminated_other:
  assumes "append_laws st view"
  shows "k \<noteq> terminated_key \<Longrightarrow> view (record_terminated_ranks st rs s) k = view s k"
  using append_lawsD [OF assms] by (simp add: record_terminated_ranks_def Let_def)

lemma iteration_rank_key: "arrived_key iteration_key \<notin> {records_key, records_lock_key, interrupted_key, terminated_key}"
  by (simp add: arrived_key_def iteration_key_def barrier_key_def records_key_def records_lock_key_def
      interrupted_key_def terminated_key_def)

lemma terminated_other: "terminated_key \<notin> {records_key, records_lock_key, interrupted_key}"
  by (simp add: terminated_key_def records_key_def records_lock_key_def interrupted_key_def)

lemma ask_arrived:
  assumes "append_laws st view" and "holds_ranks (view s (arrived_key key)) as"
  shows "fst (is_rank_at_reentrant_barrier st key r s) = Inr (r \<in> set as)"
    and "holds_ranks (view (snd (is_rank_at_reentrant_barrier st key r s)) (arrived_key key)) as"
    and "k \<noteq> arrived_key key \<Longrightarrow> view (snd (is_rank_at_reentrant_barrier st key r s)) k = view s k"
proof -
  have h: "holds_ranks (view (st_append st (arrived_key key) [] s) (arrived_key key)) as"
    using append_lawsD(1) [OF assms(1)] holds_ranks_touch [OF assms(2)] by simp
  show "fst (is_rank_at_reentrant_barrier st key r s) = Inr (r \<in> set as)"
    using packed_ranks_holds [OF assms(1) h] append_lawsD(1) [OF assms(1)]
    by (simp add: is_rank_at_reentrant_barrier_def Let_def)
  show "holds_ranks (view (snd (is_rank_at_reentrant_barrier st key r s)) (arrived_key key)) as"
    "k \<noteq> arrived_key key \<Longrightarrow> view (snd (is_rank_at_reentrant_barrier st key r s)) k = view s k"
    using h append_lawsD(1) [OF assms(1)] by (simp_all add: is_rank_at_reentrant_barrier_def Let_def)
qed

text \<open>What the loop keeps of the store of the iteration: who arrived and who was recorded.\<close>

definition rank_lists :: "('s \<Rightarrow> string \<Rightarrow> string option) \<Rightarrow> (string \<Rightarrow> string) \<Rightarrow> 's \<Rightarrow> int list \<Rightarrow> int list \<Rightarrow> bool" where
  "rank_lists view p s as ts \<longleftrightarrow>
     holds_ranks (view s (p (arrived_key iteration_key))) as \<and> holds_ranks (view s (p terminated_key)) ts"

lemma rank_lists_report:
  assumes "append_laws st view" and "inj p" and "rank_lists view p s as ts"
  shows "rank_lists view p (mp_report (prefix_store p st) m i s) as ts"
    and "rank_lists view p (record_terminated_ranks (prefix_store p st) rs s) as (ts @ rs)"
    and "fst (is_rank_at_reentrant_barrier (prefix_store p st) iteration_key r s) = Inr (r \<in> set as)"
    and "rank_lists view p (snd (is_rank_at_reentrant_barrier (prefix_store p st) iteration_key r s)) as ts"
    and "rank_lists view p (record_interrupted (prefix_store p st) (Some texts) s) as ts"
proof -
  note own = prefix_store_laws [OF assms(1,2)]
  have h: "holds_ranks (view s (p (arrived_key iteration_key))) as" "holds_ranks (view s (p terminated_key)) ts"
    using assms(3) by (simp_all add: rank_lists_def)
  have other: "view (record_interrupted (prefix_store p st) (Some texts) s) (p k) = view s (p k)"
    if "k \<notin> {records_key, records_lock_key, interrupted_key}" for k texts
    using append_lawsD [OF own] that by (simp add: record_interrupted_def Let_def split_beta fun_eq_iff)
  then show reported: "rank_lists view p (record_interrupted (prefix_store p st) (Some texts) s) as ts" for texts
    using h iteration_rank_key terminated_other by (simp add: rank_lists_def)
  show "rank_lists view p (mp_report (prefix_store p st) m i s) as ts"
    unfolding mp_report_def by (rule reported)
  show "rank_lists view p (record_terminated_ranks (prefix_store p st) rs s) as (ts @ rs)"
    using h iteration_rank_key record_terminated_holds(1) [OF own h(2)] record_terminated_other [OF own]
    by (simp add: rank_lists_def)
  show "fst (is_rank_at_reentrant_barrier (prefix_store p st) iteration_key r s) = Inr (r \<in> set as)"
    "rank_lists view p (snd (is_rank_at_reentrant_barrier (prefix_store p st) iteration_key r s)) as ts"
    using h iteration_rank_key ask_arrived [OF own h(1)] by (simp_all add: rank_lists_def not_sym)
qed

text \<open>One pass of the loop without a message, in an iteration.\<close>

definition mp_late :: "mp_input \<Rightarrow> mp_state \<Rightarrow> bool" where
  "mp_late inp m \<longleftrightarrow> mp_timeouts_enabled m \<and> is_timed_out (mp_timestamp m) (mi_hard_time inp) (mp_hard_timeout m)"

definition mp_excused :: "mp_config \<Rightarrow> mp_state \<Rightarrow> int list \<Rightarrow> bool" where
  "mp_excused c m as \<longleftrightarrow> mp_rank m \<in> set as \<and> mp_hard_timeout m \<noteq> mc_barrier_timeout c"

lemma mp_check_death_pass:
  assumes "append_laws st view" and "inj (p i)" and "mp_iteration m = Some i" and "rank_lists view (p i) s as ts"
  shows "\<exists>s'. mp_check_death st p alive m killed s = (if alive \<and> \<not> killed then MLoop else MDying AtEnter, m, killed, s')
    \<and> rank_lists view (p i) s' as (ts @ (if alive \<and> \<not> killed then [] else [mp_rank m]))"
  using assms(3,4) rank_lists_report(2) [OF assms(1,2) rank_lists_report(1) [OF assms(1,2,4)]]
  by (simp add: mp_check_death_def Let_def)

lemma mp_check_hard_pass:
  assumes laws: "append_laws st view" "inj (p i)" and it: "mp_iteration m = Some i" and on: "mp_timeouts_enabled m"
    and lists: "rank_lists view (p i) s as ts"
  shows "\<exists>pc m' killed s' ts'. mp_check_hard st p c inp m s = (pc, m', killed, s')
    \<and> killed = (mp_late inp m \<and> \<not> mp_excused c m as)
    \<and> m' = (if mp_late inp m \<and> mp_excused c m as then m\<lparr>mp_hard_timeout := mc_barrier_timeout c\<rparr> else m)
    \<and> pc = (if mp_late inp m \<and> mp_excused c m as \<or> mi_alive inp \<and> \<not> killed then MLoop else MDying AtEnter)
    \<and> rank_lists view (p i) s' as ts' \<and> set ts' = set ts \<union> (if pc = MLoop then {} else {mp_rank m})"
proof (cases "mp_late inp m")
  case False
  obtain s' where s': "mp_check_death st p (mi_alive inp) m False s = (if mi_alive inp then MLoop else MDying AtEnter, m, False, s')"
    "rank_lists view (p i) s' as (ts @ (if mi_alive inp then [] else [mp_rank m]))"
    using mp_check_death_pass [where p = p, OF laws it lists, of "mi_alive inp" False] by auto
  have "mp_check_hard st p c inp m s = mp_check_death st p (mi_alive inp) m False s"
    using False on by (simp add: mp_check_hard_def mp_late_def)
  with s' False show ?thesis
    by (intro exI [of _ "if mi_alive inp then MLoop else MDying AtEnter"] exI [of _ m] exI [of _ False] exI [of _ s']
        exI [of _ "ts @ (if mi_alive inp then [] else [mp_rank m])"]) auto
next
  case True
  let ?own = "prefix_store (p i) st"
  define s1 where "s1 = snd (is_rank_at_reentrant_barrier ?own iteration_key (mp_rank m) s)"
  have ask: "is_rank_at_reentrant_barrier ?own iteration_key (mp_rank m) s = (Inr (mp_rank m \<in> set as), s1)"
    using rank_lists_report(3) [OF laws lists] by (simp add: s1_def prod_eq_iff)
  have l1: "rank_lists view (p i) s1 as ts" unfolding s1_def by (rule rank_lists_report(4) [OF laws lists])
  note l2 = rank_lists_report(2) [OF laws rank_lists_report(1) [OF laws l1], where rs = "[mp_rank m]"]
  show ?thesis
  proof (cases "mp_excused c m as")
    case True
    then show ?thesis
      using \<open>mp_late inp m\<close> it ask l1
      by (intro exI [of _ MLoop] exI [of _ "m\<lparr>mp_hard_timeout := mc_barrier_timeout c\<rparr>"] exI [of _ False] exI [of _ s1]
          exI [of _ ts]) (simp add: mp_check_hard_def mp_late_def mp_excused_def Let_def)
  next
    case False
    let ?s2 = "record_terminated_ranks ?own [mp_rank m] (mp_report ?own m HARD_TIMEOUT s1)"
    obtain s' where s': "mp_check_death st p (mi_alive inp) m True ?s2 = (MDying AtEnter, m, True, s')"
      "rank_lists view (p i) s' as ((ts @ [mp_rank m]) @ [mp_rank m])"
      using mp_check_death_pass [where p = p, OF laws it l2, of "mi_alive inp" True] by auto
    then show ?thesis
      using \<open>mp_late inp m\<close> False it ask
      by (intro exI [of _ "MDying AtEnter"] exI [of _ m] exI [of _ True] exI [of _ s']
          exI [of _ "(ts @ [mp_rank m]) @ [mp_rank m]"])
        (auto simp: mp_check_hard_def mp_late_def mp_excused_def Let_def)
  qed
qed

definition mp_same :: "mp_state \<Rightarrow> mp_state \<Rightarrow> bool" where
  "mp_same m' m \<longleftrightarrow> mp_rank m' = mp_rank m \<and> mp_world_size m' = mp_world_size m \<and> mp_iteration m' = mp_iteration m
     \<and> mp_timestamp m' = mp_timestamp m \<and> mp_timeouts_enabled m' = mp_timeouts_enabled m"

lemma mp_check_pass:
  assumes laws: "append_laws st view" "inj (p i)" and it: "mp_iteration m = Some i" and lists: "rank_lists view (p i) s as ts"
  shows "\<exists>pc m' killed s' ts'. mp_check st p c inp m s = (pc, m', killed, s') \<and> mp_same m' m
    \<and> killed = (mp_late inp m \<and> \<not> mp_excused c m as)
    \<and> mp_hard_timeout m' = (if mp_late inp m \<and> mp_excused c m as then mc_barrier_timeout c else mp_hard_timeout m)
    \<and> pc = (if mp_late inp m \<and> mp_excused c m as \<or> mi_alive inp \<and> \<not> killed then MLoop else MDying AtEnter)
    \<and> rank_lists view (p i) s' as ts' \<and> set ts' = set ts \<union> (if pc = MLoop then {} else {mp_rank m})"
proof (cases "mp_timeouts_enabled m")
  case False
  obtain s' where s': "mp_check_death st p (mi_alive inp) m False s = (if mi_alive inp then MLoop else MDying AtEnter, m, False, s')"
    "rank_lists view (p i) s' as (ts @ (if mi_alive inp then [] else [mp_rank m]))"
    using mp_check_death_pass [where p = p, OF laws it lists, of "mi_alive inp" False] by auto
  have "\<not> mp_late inp m" "mp_check st p c inp m s = mp_check_death st p (mi_alive inp) m False s"
    using False by (simp_all add: mp_check_def mp_late_def)
  with s' show ?thesis
    by (intro exI [of _ "if mi_alive inp then MLoop else MDying AtEnter"] exI [of _ m] exI [of _ False] exI [of _ s']
        exI [of _ "ts @ (if mi_alive inp then [] else [mp_rank m])"]) (auto simp: mp_same_def)
next
  case True
  define soft where "soft \<longleftrightarrow> \<not> mp_soft_expired m \<and> is_timed_out (mp_timestamp m) (mi_soft_time inp) (mc_soft_timeout c)"
  define m1 where "m1 = (if soft then m\<lparr>mp_soft_expired := True\<rparr> else m)"
  define s1 where "s1 = (if soft then mp_report (prefix_store (p i) st) m SOFT_TIMEOUT s else s)"
  have check: "mp_check st p c inp m s = mp_check_hard st p c inp m1 s1"
    using True it by (simp add: mp_check_def soft_def m1_def s1_def)
  have h: "mp_iteration m1 = Some i" "mp_timeouts_enabled m1" "rank_lists view (p i) s1 as ts"
    using it True lists rank_lists_report(1) [OF laws lists] by (simp_all add: m1_def s1_def)
  have same: "mp_late inp m1 = mp_late inp m" "mp_excused c m1 as = mp_excused c m as" "mp_rank m1 = mp_rank m"
    "mp_same m1 m" "mp_hard_timeout m1 = mp_hard_timeout m" "mp_same (m1\<lparr>mp_hard_timeout := mc_barrier_timeout c\<rparr>) m"
    by (simp_all add: mp_late_def mp_excused_def mp_same_def m1_def)
  obtain pc m' killed s' ts' where res: "mp_check_hard st p c inp m1 s1 = (pc, m', killed, s')"
    "killed = (mp_late inp m \<and> \<not> mp_excused c m as)"
    "m' = (if mp_late inp m \<and> mp_excused c m as then m1\<lparr>mp_hard_timeout := mc_barrier_timeout c\<rparr> else m1)"
    "pc = (if mp_late inp m \<and> mp_excused c m as \<or> mi_alive inp \<and> \<not> killed then MLoop else MDying AtEnter)"
    "rank_lists view (p i) s' as ts'" "set ts' = set ts \<union> (if pc = MLoop then {} else {mp_rank m})"
    using mp_check_hard_pass [where p = p and i = i and m = m1 and c = c and inp = inp, OF laws h] unfolding same by blast
  have "mp_same m' m" "mp_hard_timeout m' = (if mp_late inp m \<and> mp_excused c m as then mc_barrier_timeout c else mp_hard_timeout m)"
    using same(4-6) by (simp_all add: res(3))
  then show ?thesis
    using res(1,2,4,5,6) unfolding check
    by (intro exI [of _ pc] exI [of _ m'] exI [of _ killed] exI [of _ s'] exI [of _ ts'] conjI)
qed

text \<open>
  C6: the hard timeout spares exactly the ranks that wait for the others. In an iteration, a
  monitor process that finds its target active kills it in this pass if and only if timeouts are
  enabled, the last sign of progress is older than the timeout, and the rank either has not arrived
  at the iteration barrier or has already been given the barrier timeout; a rank that has arrived is
  given that timeout instead. A killed rank is recorded as terminated in the same pass, before its
  monitor brings it to the barrier; the record is left alone otherwise.
\<close>

theorem hard_timeout_spares_waiting_ranks:
  assumes "append_laws st view" and "inj (p i)" and "mp_iteration m = Some i"
    and "holds_ranks (view s (p i (arrived_key iteration_key))) as" and "holds_ranks (view s (p i terminated_key)) ts"
    and "\<not> mi_stop inp" and "mi_msg inp = None" and "mi_alive inp"
  shows "\<exists>pc m' killed s' ts'. mp_turn st p c inp MLoop m s = (pc, m', killed, s')
    \<and> killed = (mp_timeouts_enabled m \<and> is_timed_out (mp_timestamp m) (mi_hard_time inp) (mp_hard_timeout m)
        \<and> \<not> (mp_rank m \<in> set as \<and> mp_hard_timeout m \<noteq> mc_barrier_timeout c))
    \<and> pc = (if killed then MDying AtEnter else MLoop)
    \<and> mp_hard_timeout m' =
        (if \<not> killed \<and> mp_timeouts_enabled m \<and> is_timed_out (mp_timestamp m) (mi_hard_time inp) (mp_hard_timeout m)
         then mc_barrier_timeout c else mp_hard_timeout m)
    \<and> holds_ranks (view s' (p i (arrived_key iteration_key))) as
    \<and> holds_ranks (view s' (p i terminated_key)) ts' \<and> set ts' = set ts \<union> (if killed then {mp_rank m} else {})"
proof -
  have "rank_lists view (p i) s as ts" using assms(4,5) by (simp add: rank_lists_def)
  from mp_check_pass [where p = p and inp = inp and c = c, OF assms(1-3) this]
  obtain pc m' killed s' ts' where res: "mp_check st p c inp m s = (pc, m', killed, s')"
    "killed = (mp_late inp m \<and> \<not> mp_excused c m as)"
    "mp_hard_timeout m' = (if mp_late inp m \<and> mp_excused c m as then mc_barrier_timeout c else mp_hard_timeout m)"
    "pc = (if mp_late inp m \<and> mp_excused c m as \<or> mi_alive inp \<and> \<not> killed then MLoop else MDying AtEnter)"
    "rank_lists view (p i) s' as ts'" "set ts' = set ts \<union> (if pc = MLoop then {} else {mp_rank m})"
    by blast
  have "mp_turn st p c inp MLoop m s = (pc, m', killed, s')" using assms(6,7) res(1) by (simp add: mp_loop_def)
  then show ?thesis
    using res(2-6) assms(8)
    by (intro exI [of _ pc] exI [of _ m'] exI [of _ killed] exI [of _ s'] exI [of _ ts'])
      (auto simp: mp_late_def mp_excused_def rank_lists_def)
qed

section \<open>A rank that is gone\<close>

fun mp_run ::
  "'s append_store \<Rightarrow> (int \<Rightarrow> string \<Rightarrow> string) \<Rightarrow> mp_config \<Rightarrow> mp_input list \<Rightarrow> mp_at \<times> mp_state \<times> 's \<Rightarrow> mp_at \<times> mp_state \<times> 's" where
  "mp_run st p c [] y = y"
| "mp_run st p c (inp # inps) (pc, m, s) =
     (case mp_turn st p c inp pc m s of (pc', m', killed, s') \<Rightarrow> mp_run st p c inps (pc', m', s'))"

lemma mp_run_done: "mp_run st p c inps (MDone, m, s) = (MDone, m, s)"
  by (induction inps) simp_all

text \<open>The last rank to arrive walks through a barrier in the turns enter, count, release, wait.\<close>

lemma reentrant_last_arrival:
  assumes "append_laws st view" and "holds_ranks (view s (arrived_key key)) as" and "int (card (set as \<union> {r})) = needed"
  shows "\<exists>s1 s2. reentrant_turn st key [int_text r] needed waits e1 AtEnter s = (AtCount, s1)
    \<and> reentrant_turn st key [int_text r] needed waits e2 AtCount s1 = (AtRelease, s1)
    \<and> reentrant_turn st key [int_text r] needed waits e3 AtRelease s1 = (after_release waits, s2)
    \<and> reentrant_turn st key [int_text r] needed waits e4 AtWait s2 = (Passed, s2)
    \<and> holds_ranks (view s2 (arrived_key key)) (as @ [r]) \<and> view s2 (last_arrived_key key) \<noteq> None
    \<and> (\<forall>k. k \<notin> {arrived_key key, last_arrived_key key} \<longrightarrow> view s2 k = view s k)"
proof -
  let ?s1 = "st_append st (arrived_key key) (join '','' [int_text r] @ '','') s"
  let ?s2 = "st_set st (last_arrived_key key) ''1'' ?s1"
  have h: "holds_ranks (view ?s1 (arrived_key key)) (as @ [r])"
    using holds_ranks_append [OF assms(2), of "[r]"] append_lawsD(1) [OF assms(1)] by simp
  have "packed_ranks st (arrived_key key) ?s1 = Inr (as @ [r])"
    by (rule packed_ranks_holds [OF assms(1) h]) (simp add: append_lawsD(1) [OF assms(1)])
  then show ?thesis
    using h assms(3) append_lawsD(1,2,4) [OF assms(1)]
    by (intro exI [of _ ?s1] exI [of _ ?s2]) (auto simp: Let_def insert_commute)
qed

text \<open>A rank that is not needed any more, or is the last, passes a barrier it does not wait at.\<close>

lemma reentrant_counted:
  assumes "append_laws st view" and "holds_ranks (view s (arrived_key key)) as" and "int (card (set as \<union> {r})) \<le> needed"
  shows "\<exists>s1 s2 a. reentrant_turn st key [int_text r] needed False e1 AtEnter s = (AtCount, s1)
    \<and> reentrant_turn st key [int_text r] needed False e2 AtCount s1 = (a, s1)
    \<and> (a = Passed \<and> s2 = s1 \<or> a = AtRelease \<and> reentrant_turn st key [int_text r] needed False e3 AtRelease s1 = (Passed, s2))
    \<and> holds_ranks (view s2 (arrived_key key)) (as @ [r])
    \<and> (\<forall>k. k \<notin> {arrived_key key, last_arrived_key key} \<longrightarrow> view s2 k = view s k)"
proof -
  let ?s1 = "st_append st (arrived_key key) (join '','' [int_text r] @ '','') s"
  let ?last = "int (card (set as \<union> {r})) = needed"
  let ?s2 = "if ?last then st_set st (last_arrived_key key) ''1'' ?s1 else ?s1"
  have h: "holds_ranks (view ?s1 (arrived_key key)) (as @ [r])"
    using holds_ranks_append [OF assms(2), of "[r]"] append_lawsD(1) [OF assms(1)] by simp
  have "packed_ranks st (arrived_key key) ?s1 = Inr (as @ [r])"
    by (rule packed_ranks_holds [OF assms(1) h]) (simp add: append_lawsD(1) [OF assms(1)])
  then show ?thesis
    using h assms(3) append_lawsD(1,2,4) [OF assms(1)]
    by (intro exI [of _ ?s1] exI [of _ ?s2] exI [of _ "if ?last then AtRelease else Passed"])
      (auto simp: Let_def insert_commute after_release_def)
qed

text \<open>What the monitor needs of the base store, which the stores of the iterations leave alone.\<close>

definition apart_from :: "(string \<Rightarrow> string) \<Rightarrow> bool" where
  "apart_from p \<longleftrightarrow> inj p \<and> range p \<inter> {arrived_key termination_key, last_arrived_key termination_key} = {}"

lemma apart_keys: "apart_from p \<Longrightarrow> p k \<notin> {arrived_key termination_key, last_arrived_key termination_key}"
  unfolding apart_from_def by (metis disjoint_iff rangeI)

lemma own_turn_apart:
  assumes "append_laws st view" and "K \<notin> range p"
  shows "view (snd (reentrant_turn (prefix_store p st) key texts needed waits elapsed a s)) K = view s K"
proof -
  have K: "K \<noteq> p j" for j using assms(2) by auto
  show ?thesis
    by (cases a) (simp_all add: prefix_store_apart [where view = view and p = p, OF assms(1) K] Let_def split: sum.split)
qed

lemma own_ask_apart:
  assumes "append_laws st view" and "K \<notin> range p"
  shows "view (snd (is_rank_at_reentrant_barrier (prefix_store p st) key r s)) K = view s K"
proof -
  have K: "K \<noteq> p j" for j using assms(2) by auto
  show ?thesis
    by (simp add: is_rank_at_reentrant_barrier_def Let_def prefix_store_apart [where view = view and p = p, OF assms(1) K])
qed

lemma mp_dying_run:
  assumes laws: "append_laws st view" and apart: "apart_from (p i)" and it: "mp_iteration m = Some i"
    and lists: "rank_lists view (p i) s as ts" and full: "int (card (set as \<union> {mp_rank m})) = mp_world_size m"
  shows "\<exists>s'. mp_run st p c (i1 # i2 # i3 # i4 # inps) (MDying AtEnter, m, s)
      = mp_run st p c inps (MClosing AtEnter, m\<lparr>mp_sibling := False\<rparr>, s')
    \<and> rank_lists view (p i) s' (as @ [mp_rank m]) ts \<and> view s' (p i (last_arrived_key iteration_key)) \<noteq> None
    \<and> (\<forall>k. k \<notin> range (p i) \<longrightarrow> view s' k = view s k)"
proof -
  have inj: "inj (p i)" using apart by (simp add: apart_from_def)
  note own = prefix_store_laws [OF laws inj]
  have h: "holds_ranks (view s (p i (arrived_key iteration_key))) as" "holds_ranks (view s (p i terminated_key)) ts"
    using lists by (simp_all add: rank_lists_def)
  let ?turn = "reentrant_turn (prefix_store (p i) st) iteration_key [int_text (mp_rank m)] (mp_world_size m) True"
  obtain s1 s2 where t: "?turn (mi_elapsed i1) AtEnter s = (AtCount, s1)" "?turn (mi_elapsed i2) AtCount s1 = (AtRelease, s1)"
    "?turn (mi_elapsed i3) AtRelease s1 = (AtWait, s2)" "?turn (mi_elapsed i4) AtWait s2 = (Passed, s2)"
    and after: "holds_ranks (view s2 (p i (arrived_key iteration_key))) (as @ [mp_rank m])"
      "view s2 (p i (last_arrived_key iteration_key)) \<noteq> None"
      "\<And>k. k \<notin> {arrived_key iteration_key, last_arrived_key iteration_key} \<Longrightarrow> view s2 (p i k) = view s (p i k)"
    using reentrant_last_arrival [OF own h(1) full, of True "mi_elapsed i1" "mi_elapsed i2" "mi_elapsed i3" "mi_elapsed i4"]
    unfolding after_release_def if_True by blast
  have "terminated_key \<notin> {arrived_key iteration_key, last_arrived_key iteration_key}" by simp
  then have "rank_lists view (p i) s2 (as @ [mp_rank m]) ts" using after h(2) by (simp add: rank_lists_def)
  moreover have "view s2 k = view s k" if "k \<notin> range (p i)" for k
    using own_turn_apart [OF laws that, of iteration_key "[int_text (mp_rank m)]" "mp_world_size m" True] t
    by (metis snd_conv)
  ultimately show ?thesis
    using t after(2) it by (intro exI [of _ s2]) (simp add: mp_own_barrier_def barrier_fault_def)
qed

lemma mp_closing_run:
  assumes laws: "append_laws st view" and apart: "apart_from (p i)"
    and holds: "holds_ranks (view s (arrived_key termination_key)) qs"
    and room: "int (card (set qs \<union> {mc_initial_rank c})) \<le> mc_initial_world_size c"
  shows "\<exists>s'. mp_run st p c (i1 # i2 # i3 # inps) (MClosing AtEnter, m, s) = (MDone, m, s')
    \<and> holds_ranks (view s' (arrived_key termination_key)) (qs @ [mc_initial_rank c])
    \<and> (\<forall>k. view s' (p i k) = view s (p i k))"
proof -
  let ?turn = "reentrant_turn st termination_key [int_text (mc_initial_rank c)] (mc_initial_world_size c) False"
  obtain s1 s2 a where t: "?turn False AtEnter s = (AtCount, s1)" "?turn False AtCount s1 = (a, s1)"
    and a: "a = Passed \<and> s2 = s1 \<or> a = AtRelease \<and> ?turn False AtRelease s1 = (Passed, s2)"
    and after: "holds_ranks (view s2 (arrived_key termination_key)) (qs @ [mc_initial_rank c])"
      "\<And>k. k \<notin> {arrived_key termination_key, last_arrived_key termination_key} \<Longrightarrow> view s2 k = view s k"
    using reentrant_counted [OF laws holds room] by metis
  have "view s2 (p i k) = view s (p i k)" for k
    by (rule after(2) [OF apart_keys [OF apart]])
  moreover have "mp_run st p c (i1 # i2 # i3 # inps) (MClosing AtEnter, m, s) = (MDone, m, s2)"
    using a
  proof
    assume "a = Passed \<and> s2 = s1"
    then show ?thesis using t by (simp add: barrier_fault_def mp_run_done del: reentrant_turn.simps)
  next
    assume "a = AtRelease \<and> ?turn False AtRelease s1 = (Passed, s2)"
    then show ?thesis using t by (simp add: barrier_fault_def mp_run_done del: reentrant_turn.simps)
  qed
  ultimately show ?thesis using after(1) by blast
qed

abbreviation result_store :: "'s mp_result \<Rightarrow> 's" where
  "result_store y \<equiv> snd (snd (snd y))"

lemma mp_death_apart:
  assumes "append_laws st view" and "K \<notin> range (p i)" and "mp_iteration m = Some i"
  shows "view (result_store (mp_fail st p m killed s)) K = view s K"
    and "view (result_store (mp_check_death st p alive m killed s)) K = view s K"
  using assms(3) own_writes_apart [where p = "p i", OF assms(1,2)]
  by (simp_all add: mp_fail_def mp_check_death_def mp_report_def Let_def)

lemma mp_hard_apart:
  assumes laws: "append_laws st view" and K: "K \<notin> range (p i)" and it: "mp_iteration m = Some i"
  shows "view (result_store (mp_check_hard st p c inp m s)) K = view s K"
proof -
  obtain r s1 where ask: "is_rank_at_reentrant_barrier (prefix_store (p i) st) iteration_key (mp_rank m) s = (r, s1)"
    by (meson surj_pair)
  then have "view s1 K = view s K" using own_ask_apart [where p = "p i", OF laws K] by (metis snd_conv)
  then show ?thesis
    using it ask own_writes_apart [where p = "p i", OF laws K] mp_death_apart [where p = p, OF laws K it]
    by (cases r) (simp_all add: mp_check_hard_def mp_report_def Let_def)
qed

lemma mp_check_apart:
  assumes laws: "append_laws st view" and K: "K \<notin> range (p i)" and it: "mp_iteration m = Some i"
  shows "view (result_store (mp_check st p c inp m s)) K = view s K"
proof -
  have "mp_iteration (m\<lparr>mp_soft_expired := True\<rparr>) = Some i" using it by simp
  from mp_hard_apart [where p = p, OF laws K this] show ?thesis
    using it own_writes_apart [where p = "p i", OF laws K] mp_death_apart [where p = p, OF laws K it]
      mp_hard_apart [where p = p, OF laws K it]
    by (simp add: mp_check_def mp_report_def)
qed

text \<open>Whatever the timeouts say, a target that is gone is noticed within two passes.\<close>

definition target_gone :: "mp_input \<Rightarrow> bool" where
  "target_gone inp \<longleftrightarrow> \<not> mi_stop inp \<and> mi_msg inp = None \<and> \<not> mi_alive inp"

lemma mp_notices_death:
  assumes laws: "append_laws st view" and inj: "inj (p i)" and it: "mp_iteration m = Some i"
    and lists: "rank_lists view (p i) s as ts" and gone: "target_gone i1" "target_gone i2"
  shows "\<exists>m' s' ts' inps'. mp_run st p c (i1 # i2 # inps) (MLoop, m, s) = mp_run st p c inps' (MDying AtEnter, m', s')
    \<and> (inps' = inps \<or> inps' = i2 # inps) \<and> mp_same m' m \<and> rank_lists view (p i) s' as ts' \<and> mp_rank m \<in> set ts'
    \<and> (\<forall>k. k \<notin> range (p i) \<longrightarrow> view s' k = view s k)"
proof -
  have pass: "\<exists>pc m' killed s' ts'. mp_turn st p c inp MLoop m s = (pc, m', killed, s') \<and> mp_same m' m
      \<and> (pc = MLoop \<and> mp_hard_timeout m \<noteq> mc_barrier_timeout c \<and> mp_hard_timeout m' = mc_barrier_timeout c
         \<or> pc = MDying AtEnter \<and> mp_rank m \<in> set ts')
      \<and> rank_lists view (p i) s' as ts' \<and> (\<forall>k. k \<notin> range (p i) \<longrightarrow> view s' k = view s k)"
    if it: "mp_iteration m = Some i" and lists: "rank_lists view (p i) s as ts" and gone: "target_gone inp" for m s ts inp
  proof -
    obtain pc m' killed s' ts' where res: "mp_check st p c inp m s = (pc, m', killed, s')" "mp_same m' m"
      "mp_hard_timeout m' = (if mp_late inp m \<and> mp_excused c m as then mc_barrier_timeout c else mp_hard_timeout m)"
      "pc = (if mp_late inp m \<and> mp_excused c m as \<or> mi_alive inp \<and> \<not> killed then MLoop else MDying AtEnter)"
      "rank_lists view (p i) s' as ts'" "set ts' = set ts \<union> (if pc = MLoop then {} else {mp_rank m})"
      using mp_check_pass [where p = p and inp = inp and c = c, OF laws inj it lists] by blast
    have "mp_turn st p c inp MLoop m s = (pc, m', killed, s')"
      using gone res(1) by (simp add: mp_loop_def target_gone_def)
    moreover have "view s' k = view s k" if "k \<notin> range (p i)" for k
      using mp_check_apart [where p = p, OF laws that it, of c inp s] res(1) by simp
    moreover have "pc = MLoop \<and> mp_hard_timeout m \<noteq> mc_barrier_timeout c \<and> mp_hard_timeout m' = mc_barrier_timeout c
         \<or> pc = MDying AtEnter \<and> mp_rank m \<in> set ts'"
      using res(3,4,6) gone by (auto simp: target_gone_def mp_excused_def)
    ultimately show ?thesis using res(2,5) by blast
  qed
  obtain pc m1 k1 s1 ts1 where one: "mp_turn st p c i1 MLoop m s = (pc, m1, k1, s1)" "mp_same m1 m"
    "pc = MLoop \<and> mp_hard_timeout m \<noteq> mc_barrier_timeout c \<and> mp_hard_timeout m1 = mc_barrier_timeout c
         \<or> pc = MDying AtEnter \<and> mp_rank m \<in> set ts1"
    "rank_lists view (p i) s1 as ts1" "\<forall>k. k \<notin> range (p i) \<longrightarrow> view s1 k = view s k"
    using pass [OF it lists gone(1)] by blast
  show ?thesis
  proof (cases "pc = MLoop")
    case False
    then show ?thesis
      using one by (intro exI [of _ m1] exI [of _ s1] exI [of _ ts1] exI [of _ "i2 # inps"]) simp
  next
    case True
    have it1: "mp_iteration m1 = Some i" using it one(2) by (simp add: mp_same_def)
    obtain pc2 m2 k2 s2 ts2 where two: "mp_turn st p c i2 MLoop m1 s1 = (pc2, m2, k2, s2)" "mp_same m2 m1"
      "pc2 = MLoop \<and> mp_hard_timeout m1 \<noteq> mc_barrier_timeout c \<and> mp_hard_timeout m2 = mc_barrier_timeout c
         \<or> pc2 = MDying AtEnter \<and> mp_rank m1 \<in> set ts2"
      "rank_lists view (p i) s2 as ts2" "\<forall>k. k \<notin> range (p i) \<longrightarrow> view s2 k = view s1 k"
      using pass [OF it1 one(4) gone(2)] by blast
    have "pc2 = MDying AtEnter" "mp_rank m \<in> set ts2" "mp_same m2 m"
      using two(2,3) one(2,3) True by (auto simp: mp_same_def)
    then show ?thesis
      using one two True by (intro exI [of _ m2] exI [of _ s2] exI [of _ ts2] exI [of _ inps]) simp
  qed
qed

text \<open>
  C5: a monitor process brings its dead rank to both barriers. When the other ranks of the iteration
  have arrived and the termination barrier has room, a monitor process in an iteration whose target
  is gone is through after nine turns, whatever its timeouts say: its rank is among the terminated
  ranks that the survivors read, the iteration barrier is released, and the initial rank is counted
  at the termination barrier of the base store.
\<close>

theorem monitor_buries_dead_rank:
  assumes "append_laws st view" and "apart_from (p i)" and "mp_iteration m = Some i"
    and "holds_ranks (view s (p i (arrived_key iteration_key))) as" and "holds_ranks (view s (p i terminated_key)) ts"
    and "int (card (set as \<union> {mp_rank m})) = mp_world_size m"
    and "holds_ranks (view s (arrived_key termination_key)) qs"
    and "int (card (set qs \<union> {mc_initial_rank c})) \<le> mc_initial_world_size c"
    and "9 \<le> length inps" and "list_all target_gone inps"
  shows "\<exists>m' s' ts'. mp_run st p c inps (MLoop, m, s) = (MDone, m', s')
    \<and> holds_ranks (view s' (p i terminated_key)) ts' \<and> mp_rank m \<in> set ts'
    \<and> view s' (p i (last_arrived_key iteration_key)) \<noteq> None
    \<and> holds_ranks (view s' (arrived_key termination_key)) (qs @ [mc_initial_rank c])"
proof -
  obtain i1 i2 rest where inps: "inps = i1 # i2 # rest" "7 \<le> length rest"
    using assms(9) by (cases inps; cases "tl inps") auto
  have inj: "inj (p i)" using assms(2) by (simp add: apart_from_def)
  have lists: "rank_lists view (p i) s as ts" using assms(4,5) by (simp add: rank_lists_def)
  have gone: "target_gone i1" "target_gone i2" using assms(10) inps(1) by simp_all
  obtain m1 s1 ts1 inps1 where one: "mp_run st p c inps (MLoop, m, s) = mp_run st p c inps1 (MDying AtEnter, m1, s1)"
    "inps1 = rest \<or> inps1 = i2 # rest" "mp_same m1 m" "rank_lists view (p i) s1 as ts1" "mp_rank m \<in> set ts1"
    "\<forall>k. k \<notin> range (p i) \<longrightarrow> view s1 k = view s k"
    using mp_notices_death [where p = p and c = c and inps = rest, OF assms(1) inj assms(3) lists gone] inps(1) by blast
  have "7 \<le> length inps1" using one(2) inps(2) by auto
  then obtain a1 a2 a3 a4 b1 b2 b3 rest1 where inps1: "inps1 = a1 # a2 # a3 # a4 # b1 # b2 # b3 # rest1"
    by (auto simp: numeral_eq_Suc Suc_le_length_iff)
  have it1: "mp_iteration m1 = Some i" and full1: "int (card (set as \<union> {mp_rank m1})) = mp_world_size m1"
    using assms(3,6) one(3) by (simp_all add: mp_same_def)
  obtain s2 where two: "mp_run st p c inps1 (MDying AtEnter, m1, s1)
      = mp_run st p c (b1 # b2 # b3 # rest1) (MClosing AtEnter, m1\<lparr>mp_sibling := False\<rparr>, s2)"
    "rank_lists view (p i) s2 (as @ [mp_rank m1]) ts1" "view s2 (p i (last_arrived_key iteration_key)) \<noteq> None"
    "\<forall>k. k \<notin> range (p i) \<longrightarrow> view s2 k = view s1 k"
    unfolding inps1
    using mp_dying_run [where p = p and c = c, OF assms(1,2) it1 one(4) full1, of a1 a2 a3 a4 "b1 # b2 # b3 # rest1"] by blast
  have "arrived_key termination_key \<notin> range (p i)" using assms(2) by (auto simp: apart_from_def)
  then have "holds_ranks (view s2 (arrived_key termination_key)) qs" using assms(7) one(6) two(4) by simp
  from mp_closing_run [where p = p, OF assms(1,2) this assms(8), of b1 b2 b3 rest1 "m1\<lparr>mp_sibling := False\<rparr>"]
  obtain s3 where "mp_run st p c (b1 # b2 # b3 # rest1) (MClosing AtEnter, m1\<lparr>mp_sibling := False\<rparr>, s2)
      = (MDone, m1\<lparr>mp_sibling := False\<rparr>, s3)"
    "holds_ranks (view s3 (arrived_key termination_key)) (qs @ [mc_initial_rank c])"
    "\<forall>k. view s3 (p i k) = view s2 (p i k)" by blast
  then show ?thesis
    using one(1,5) two(1-3)
    by (intro exI [of _ "m1\<lparr>mp_sibling := False\<rparr>"] exI [of _ s3] exI [of _ ts1]) (simp add: rank_lists_def)
qed

text \<open>Inputs without the start of an iteration.\<close>

definition no_start :: "mp_input \<Rightarrow> bool" where
  "no_start inp \<longleftrightarrow> (case mi_msg inp of Some (MIterationStart rank world_size iteration) \<Rightarrow> False | _ \<Rightarrow> True)"

lemma unstarted_turn:
  assumes "no_start inp" and "mp_iteration m = None"
  shows "\<exists>pc m' killed. mp_turn st p c inp MLoop m s = (pc, m', killed, s) \<and> mp_iteration m' = None
    \<and> pc \<in> {MLoop, MDone, MCrashed FUnbound} \<and> (target_gone inp \<longrightarrow> pc = MCrashed FUnbound)"
  using assms
  by (auto simp: no_start_def mp_loop_def mp_check_def mp_check_hard_def mp_check_death_def mp_fail_def target_gone_def
      split: option.splits mp_message.splits)

lemma mp_run_crashed: "mp_run st p c inps (MCrashed f, m, s) = (MCrashed f, m, s)"
  by (induction inps) simp_all

lemma unstarted_run:
  "list_all no_start inps \<Longrightarrow> mp_iteration m = None \<Longrightarrow>
     \<exists>pc m'. mp_run st p c inps (MLoop, m, s) = (pc, m', s) \<and> mp_iteration m' = None \<and> pc \<in> {MLoop, MDone, MCrashed FUnbound}"
proof (induction inps arbitrary: m)
  case (Cons inp inps)
  then obtain pc m' killed where turn: "mp_turn st p c inp MLoop m s = (pc, m', killed, s)" "mp_iteration m' = None"
    "pc \<in> {MLoop, MDone, MCrashed FUnbound}"
    using unstarted_turn [of inp m st p c s] by auto
  from turn(3) consider "pc = MLoop" | "pc = MDone" | "pc = MCrashed FUnbound" by blast
  then show ?case
  proof cases
    case 1
    then show ?thesis using Cons turn by simp
  qed (use turn in \<open>simp_all add: mp_run_done mp_run_crashed\<close>)
qed simp

lemma mp_run_append: "mp_run st p c (xs @ ys) y = mp_run st p c ys (mp_run st p c xs y)"
proof (induction xs arbitrary: y)
  case (Cons x xs)
  then show ?case by (cases y) (simp split: prod.split)
qed simp

text \<open>
  C11: a death before the first iteration is lost. A monitor process that has not received the start
  of an iteration writes nothing, whatever else it receives; when it finds its target gone, it ends
  without a trace in any store, its rank neither recorded nor counted at the termination barrier.
\<close>

theorem death_before_start_is_lost:
  assumes "list_all no_start inps" and "target_gone inp"
  shows "\<exists>pc m'. mp_run st p c (inps @ [inp]) (MLoop, mp_begin c now, s) = (pc, m', s) \<and> pc \<in> {MDone, MCrashed FUnbound}"
proof -
  obtain pc m' where run: "mp_run st p c inps (MLoop, mp_begin c now, s) = (pc, m', s)" "mp_iteration m' = None"
    "pc \<in> {MLoop, MDone, MCrashed FUnbound}"
    using unstarted_run [OF assms(1), of "mp_begin c now" st p c s] by (auto simp: mp_begin_def)
  have "no_start inp" using assms(2) by (simp add: no_start_def target_gone_def)
  from unstarted_turn [OF this run(2), of st p c s] obtain m'' killed where
    "mp_turn st p c inp MLoop m' s = (MCrashed FUnbound, m'', killed, s)" using assms(2) by auto
  then show ?thesis using run(1,3) by (auto simp: mp_run_append)
qed

section \<open>Concrete runs\<close>

definition demo_config :: mp_config where
  "demo_config = \<lparr>mc_initial_rank = 0, mc_initial_world_size = 2, mc_soft_timeout = 60, mc_hard_timeout = 90,
     mc_barrier_timeout = 120, mc_critical_ranks = [0]\<rparr>"

definition demo_gone :: mp_input where
  "demo_gone = \<lparr>mi_stop = False, mi_msg = None, mi_soft_time = 100, mi_hard_time = 100, mi_alive = False, mi_elapsed = False\<rparr>"

definition demo_state :: mp_state where
  "demo_state = (mp_begin demo_config 0)\<lparr>mp_world_size := 1, mp_iteration := Some 3\<rparr>"

lemma slash_key_apart: "apart_from (slash_key i)"
  by (auto simp: apart_from_def slash_key_inj slash_key_def store_prefix_def arrived_key_def last_arrived_key_def
      termination_key_def barrier_key_def)

theorem hard_timeout_spares_waiting_ranks_witness:
  "\<exists>pc m' s'. mp_turn dict_append_store slash_key demo_config (demo_gone\<lparr>mi_alive := True\<rparr>) MLoop demo_state (\<lambda>_. None)
     = (pc, m', True, s') \<and> pc = MDying AtEnter"
  using hard_timeout_spares_waiting_ranks [where view = "\<lambda>m. m" and p = slash_key and i = 3 and m = demo_state
      and s = "\<lambda>_. None" and as = "[]" and ts = "[]" and inp = "demo_gone\<lparr>mi_alive := True\<rparr>" and c = demo_config,
      OF dict_append_store_laws slash_key_inj]
  by (auto simp: demo_state_def demo_gone_def demo_config_def mp_begin_def is_timed_out_def)

theorem monitor_buries_dead_rank_witness:
  "\<exists>m' s'. mp_run dict_append_store slash_key demo_config (replicate 9 demo_gone) (MLoop, demo_state, \<lambda>_. None) = (MDone, m', s')
     \<and> holds_ranks (s' (arrived_key termination_key)) [0]"
  using monitor_buries_dead_rank [where view = "\<lambda>m. m" and p = slash_key and i = 3 and m = demo_state
      and s = "\<lambda>_. None" and as = "[]" and ts = "[]" and qs = "[]" and inps = "replicate 9 demo_gone" and c = demo_config,
      OF dict_append_store_laws slash_key_apart]
  by (auto simp: demo_state_def demo_gone_def demo_config_def mp_begin_def target_gone_def list_all_iff)

theorem death_before_start_is_lost_witness:
  "\<exists>pc m'. mp_run dict_append_store slash_key demo_config [demo_gone\<lparr>mi_msg := Some MDisableTimeouts, mi_alive := True\<rparr>, demo_gone]
     (MLoop, mp_begin demo_config 0, \<lambda>_. None) = (pc, m', \<lambda>_. None)"
  using death_before_start_is_lost [of "[demo_gone\<lparr>mi_msg := Some MDisableTimeouts, mi_alive := True\<rparr>]" demo_gone
      dict_append_store slash_key demo_config 0 "\<lambda>_. None"]
  by (auto simp: no_start_def target_gone_def demo_gone_def)

end
