(* ===== verification/InprocWrap.thy ===== *)
theory InprocWrap
  imports InprocMonitorProps
begin

text \<open>
  A call of the wrapped function (\<open>CallWrapper.__call__\<close> of \<open>inprocess/wrap.py\<close>): the order in
  which an iteration runs its hooks and uses the store, on every way an exception can take through
  its handlers, and the state the next iteration starts with. What the hooks, the function and the
  waits raise is an argument; an asynchronous exception is one more thing any of them may raise.
\<close>

section \<open>What an iteration meets\<close>

datatype call_exc =
    FnException | HealthCheckError | InternalError | BarrierFault | RankDiscard | StoreFault
  | RankShouldRestart | OtherBase

text \<open>The classes under \<open>Exception\<close>; the last two are caught by \<open>BaseException\<close> only.\<close>

definition is_exception :: "call_exc \<Rightarrow> bool" where
  "is_exception e \<longleftrightarrow> e \<notin> {RankShouldRestart, OtherBase}"

text \<open>What each step raises, None for a step that returns; the wait is that for the monitor thread.\<close>

record iteration_choices =
  ic_initialize :: "call_exc option"
  ic_health_check :: "call_exc option"
  ic_fn :: "call_exc option"
  ic_completion :: "call_exc option"
  ic_wait :: "call_exc option"
  ic_finalize :: "call_exc option"
  ic_restart_health :: "call_exc option"
  ic_barrier :: "call_exc option"
  ic_terminated :: "call_exc + int set"
  ic_exit_barrier :: "call_exc option"
  ic_terminate :: "call_exc option"

datatype call_event =
    EvInitialize | EvHealthCheck | EvFn | EvReserveFn | EvRecordCompleted | EvCompletionBarrier
  | EvReportInterrupted | EvWaitMonitorThread | EvShutdownMonitorThread | EvFinalize | EvRestartHealthCheck
  | EvIterationBarrier | EvDisableSibling | EvReadTerminated | EvRankAssignment
  | EvRecordInterrupted | EvRecordTerminated | EvTerminateHook | EvSetInitialRank | EvStartIteration

section \<open>The handlers of an iteration\<close>

text \<open>Steps run in order until one raises.\<close>

fun run_steps :: "(call_event list \<times> call_exc option) list \<Rightarrow> call_event list \<times> call_exc option" where
  "run_steps [] = ([], None)"
| "run_steps ((evs, r) # steps) =
     (case r of
        Some e \<Rightarrow> (evs, Some e)
      | None \<Rightarrow> let (evs', r') = run_steps steps in (evs @ evs', r'))"

text \<open>A health check that raises an \<open>Exception\<close> is raised again as \<open>HealthCheckError\<close>.\<close>

definition as_health_error :: "call_exc option \<Rightarrow> call_exc option" where
  "as_health_error r = map_option (\<lambda>e. if is_exception e then HealthCheckError else e) r"

definition call_body :: "rank_mode \<Rightarrow> iteration_choices \<Rightarrow> call_event list \<times> call_exc option" where
  "call_body mode ic =
     run_steps
       ([([EvInitialize], ic_initialize ic), ([EvHealthCheck], as_health_error (ic_health_check ic))]
        @ (case mode of
             ACTIVE \<Rightarrow> [([EvFn], ic_fn ic), ([EvRecordCompleted], None)]
           | INACTIVE \<Rightarrow> [([EvReserveFn], ic_fn ic)]
           | _ \<Rightarrow> [([], Some InternalError)])
        @ [([EvCompletionBarrier], ic_completion ic)])"

text \<open>The handler of an \<open>Exception\<close> of the body: report it and wait to be interrupted.\<close>

definition handle_fn_exception :: "iteration_choices \<Rightarrow> call_event list \<times> call_exc option" where
  "handle_fn_exception ic =
     (case ic_wait ic of
        Some RankShouldRestart \<Rightarrow> ([EvReportInterrupted, EvWaitMonitorThread, EvShutdownMonitorThread], Some RankShouldRestart)
      | Some OtherBase \<Rightarrow> ([EvReportInterrupted, EvWaitMonitorThread], Some OtherBase)
      | _ \<Rightarrow> ([EvReportInterrupted, EvWaitMonitorThread], Some InternalError))"

definition inner_try :: "rank_mode \<Rightarrow> iteration_choices \<Rightarrow> call_event list \<times> call_exc option" where
  "inner_try mode ic =
     (case call_body mode ic of
        (evs, None) \<Rightarrow> (evs, None)
      | (evs, Some e) \<Rightarrow>
          if is_exception e then (let (evs', r) = handle_fn_exception ic in (evs @ evs', r)) else (evs, Some e))"

datatype iteration_end = Returns | Restarts | Leaves call_exc

definition handle_restart :: "iteration_choices \<Rightarrow> call_event list \<times> iteration_end" where
  "handle_restart ic =
     (let (evs, r) = run_steps [([EvShutdownMonitorThread], None), ([EvFinalize], ic_finalize ic),
                                ([EvRestartHealthCheck], as_health_error (ic_restart_health ic))]
      in (evs, case r of None \<Rightarrow> Restarts | Some e \<Rightarrow> Leaves e))"

definition outer_try :: "rank_mode \<Rightarrow> iteration_choices \<Rightarrow> call_event list \<times> iteration_end" where
  "outer_try mode ic =
     (let (evs, r) = inner_try mode ic;
          (evs', res) =
            (case r of
               None \<Rightarrow> ([], Returns)
             | Some e \<Rightarrow>
                 if e = RankShouldRestart then handle_restart ic
                 else if is_exception e then ([], Leaves InternalError)
                 else ([], Leaves e))
      in (evs @ evs' @ [EvShutdownMonitorThread], res))"

section \<open>From one iteration to the next\<close>

text \<open>
  After the iteration barrier the rank reads the terminated ranks, is assigned its next rank and
  advances; \<open>set_distributed_vars\<close> only writes the environment of the process.
\<close>

definition next_iteration ::
  "('x ra_ctx \<Rightarrow> ra_exc + 'x ra_ctx) \<Rightarrow> 'x istate \<Rightarrow> int set \<Rightarrow> ra_exc + 'x istate" where
  "next_iteration rank_assignment state terminated_ranks =
     res_bind (rank_assignment \<lparr>rc_state = state, rc_terminated = sorted_list_of_set terminated_ranks\<rparr>)
       (\<lambda>ctx. Inr (state_advance (rc_state ctx)))"

definition call_iteration ::
  "('x ra_ctx \<Rightarrow> ra_exc + 'x ra_ctx) \<Rightarrow> 'x istate \<Rightarrow> iteration_choices
    \<Rightarrow> call_event list \<times> (iteration_end \<times> 'x istate)" where
  "call_iteration rank_assignment state ic =
     (let (evs, res) = outer_try (is_mode state) ic;
          evs = [EvSetInitialRank, EvStartIteration] @ evs
      in if res \<noteq> Restarts then (evs, res, state)
         else case ic_barrier ic of
                Some e \<Rightarrow> (evs @ [EvIterationBarrier], Leaves e, state)
              | None \<Rightarrow>
                  let evs = evs @ [EvIterationBarrier, EvDisableSibling, EvReadTerminated]
                  in case ic_terminated ic of
                       Inl e \<Rightarrow> (evs, Leaves e, state)
                     | Inr terminated_ranks \<Rightarrow>
                         (case next_iteration rank_assignment state terminated_ranks of
                            Inl e \<Rightarrow> (evs @ [EvRankAssignment], Leaves RankDiscard, state)
                          | Inr state' \<Rightarrow> (evs @ [EvRankAssignment], Restarts, state')))"

text \<open>The way out: what is raised at the barrier or by the hook replaces the exception.\<close>

definition call_exit :: "iteration_choices \<Rightarrow> call_exc \<Rightarrow> call_event list \<times> call_exc" where
  "call_exit ic e =
     (let (evs, r) = run_steps [([EvRecordInterrupted], None), ([EvRecordTerminated], None),
                                ([EvIterationBarrier], ic_exit_barrier ic), ([EvDisableSibling], None),
                                ([EvTerminateHook], ic_terminate ic)]
      in (evs, case r of None \<Rightarrow> e | Some e' \<Rightarrow> e'))"

datatype call_result = CallReturns | CallRaises call_exc | CallRuns

text \<open>The loop over the iterations that happen, with the events of each.\<close>

fun call_loop ::
  "('x ra_ctx \<Rightarrow> ra_exc + 'x ra_ctx) \<Rightarrow> 'x istate \<Rightarrow> iteration_choices list
    \<Rightarrow> call_event list list \<times> call_result \<times> 'x istate" where
  "call_loop rank_assignment state [] = ([], CallRuns, state)"
| "call_loop rank_assignment state (ic # ics) =
     (case call_iteration rank_assignment state ic of
        (evs, Returns, state') \<Rightarrow> ([evs], CallReturns, state')
      | (evs, Leaves e, state') \<Rightarrow> (let (evs', e') = call_exit ic e in ([evs @ evs'], CallRaises e', state'))
      | (evs, Restarts, state') \<Rightarrow>
          (let (evss, res, state'') = call_loop rank_assignment state' ics in (evs # evss, res, state'')))"

section \<open>The survivors of an iteration start the next one together\<close>


section \<open>The iterations of a call follow the restart protocol\<close>

text \<open>What an iteration does to the store that the other ranks read.\<close>

definition protocol_events :: "call_event list \<Rightarrow> call_event list" where
  "protocol_events evs = filter (\<lambda>ev. ev \<in> {EvRecordTerminated, EvIterationBarrier, EvReadTerminated}) evs"

lemma protocol_simps [simp]:
  "protocol_events [] = []"
  "protocol_events (ev # evs) =
     (if ev \<in> {EvRecordTerminated, EvIterationBarrier, EvReadTerminated} then ev # protocol_events evs else protocol_events evs)"
  "protocol_events (evs @ evs') = protocol_events evs @ protocol_events evs'"
  by (simp_all add: protocol_events_def)

lemma run_steps_protocol:
  "\<forall>(evs, r) \<in> set steps. protocol_events evs = [] \<Longrightarrow> protocol_events (fst (run_steps steps)) = []"
  by (induction steps rule: run_steps.induct) (auto split: option.split prod.splits)

lemma outer_try_protocol: "protocol_events (fst (outer_try mode ic)) = []"
proof -
  have body: "protocol_events (fst (call_body mode ic)) = []"
    unfolding call_body_def by (rule run_steps_protocol) (auto split: rank_mode.splits)
  have handle: "protocol_events (fst (handle_fn_exception ic)) = []"
    by (simp add: handle_fn_exception_def split: option.split call_exc.split)
  have "protocol_events (fst (inner_try mode ic)) = []"
    using body handle by (auto simp: inner_try_def split: prod.splits option.splits)
  moreover have "protocol_events (fst (handle_restart ic)) = []"
    unfolding handle_restart_def split_beta fst_conv Let_def by (rule run_steps_protocol) auto
  ultimately show ?thesis
    by (auto simp: outer_try_def split: prod.splits option.splits)
qed

lemma call_exit_protocol: "protocol_events (fst (call_exit ic e)) = [EvRecordTerminated, EvIterationBarrier]"
  by (simp add: call_exit_def Let_def split: option.split)

text \<open>
  How a rank takes part in an iteration: it survives; it returns and takes no part; or it leaves,
  recording itself before it comes to the barrier. A rank that fails at the barrier or after it
  records itself when it has already been there.
\<close>

definition survives :: "call_event list \<Rightarrow> bool" where
  "survives evs \<longleftrightarrow> protocol_events evs = [EvIterationBarrier, EvReadTerminated]"

definition leaves_first :: "call_event list \<Rightarrow> bool" where
  "leaves_first evs \<longleftrightarrow> protocol_events evs = [EvRecordTerminated, EvIterationBarrier]"

definition leaves_late :: "call_event list \<Rightarrow> bool" where
  "leaves_late evs \<longleftrightarrow>
     protocol_events evs \<in> {[EvIterationBarrier, EvRecordTerminated, EvIterationBarrier],
       [EvIterationBarrier, EvReadTerminated, EvRecordTerminated, EvIterationBarrier]}"

lemma call_iteration_protocol:
  "case call_iteration rank_assignment state ic of
     (evs, Returns, state') \<Rightarrow> protocol_events evs = []
   | (evs, Restarts, state') \<Rightarrow> survives evs
   | (evs, Leaves e, state') \<Rightarrow>
       protocol_events evs = (if snd (outer_try (is_mode state) ic) \<noteq> Restarts then []
         else if ic_barrier ic \<noteq> None then [EvIterationBarrier] else [EvIterationBarrier, EvReadTerminated])"
  using outer_try_protocol [of "is_mode state" ic]
  by (auto simp: call_iteration_def survives_def Let_def split: prod.splits iteration_end.splits option.splits sum.splits)

text \<open>
  How an iteration ends. It returns when its body returns; it goes on to the next iteration
  exactly when the body was interrupted, directly or while a failed body waited for it, and the
  finalizer and the health check of the restart returned; every other way leaves the call, with the
  exception of the finalizer, a health check error, the foreign exception, or an internal error.
\<close>

theorem iteration_outcome:
  "snd (outer_try mode ic) =
     (case snd (call_body mode ic) of
        None \<Rightarrow> Returns
      | Some e \<Rightarrow>
          if e = RankShouldRestart \<or> is_exception e \<and> ic_wait ic = Some RankShouldRestart then
            (case ic_finalize ic of
               Some f \<Rightarrow> Leaves f
             | None \<Rightarrow> (case ic_restart_health ic of
                 Some h \<Rightarrow> Leaves (if is_exception h then HealthCheckError else h)
               | None \<Rightarrow> Restarts))
          else Leaves (if e = OtherBase \<or> ic_wait ic = Some OtherBase then OtherBase else InternalError))"
proof -
  obtain evs r where body: "call_body mode ic = (evs, r)" by (meson surj_pair)
  show ?thesis
  proof (cases r)
    case None
    then show ?thesis using body by (simp add: outer_try_def inner_try_def)
  next
    case (Some e)
    have "is_exception e \<or> e = RankShouldRestart \<or> e = OtherBase" by (auto simp: is_exception_def)
    moreover have "\<not> is_exception RankShouldRestart" "\<not> is_exception OtherBase" "is_exception InternalError"
      by (simp_all add: is_exception_def)
    ultimately show ?thesis
      using body Some
      by (auto simp: outer_try_def inner_try_def handle_fn_exception_def handle_restart_def as_health_error_def Let_def
          split: option.splits call_exc.splits)
  qed
qed

lemma call_loop_protocol:
  "case call_loop rank_assignment state ics of (evss, res, state') \<Rightarrow>
     list_all survives (butlast evss)
     \<and> (case res of
          CallRuns \<Rightarrow> list_all survives evss \<and> length evss = length ics
        | CallReturns \<Rightarrow> evss \<noteq> [] \<and> protocol_events (last evss) = []
        | CallRaises e \<Rightarrow> evss \<noteq> [] \<and> (leaves_first (last evss) \<or> leaves_late (last evss))
            \<and> leaves_first (last evss) = (snd (outer_try (is_mode state') (ics ! (length evss - 1))) \<noteq> Restarts))"
proof (induction ics arbitrary: state)
  case (Cons ic ics)
  obtain evs res state' where it: "call_iteration rank_assignment state ic = (evs, res, state')" by (metis prod_cases3)
  note prot = call_iteration_protocol [where rank_assignment = rank_assignment and state = state and ic = ic, unfolded it prod.case]
  show ?case
  proof (cases res)
    case Returns
    then show ?thesis using it prot by simp
  next
    case Restarts
    obtain evss r s where rest: "call_loop rank_assignment state' ics = (evss, r, s)" by (metis prod_cases3)
    show ?thesis
      using Cons.IH [of state'] rest it prot Restarts
      by (cases evss; cases r) auto
  next
    case (Leaves e)
    obtain evs' e' where exit: "call_exit ic e = (evs', e')" by (meson surj_pair)
    have "protocol_events evs' = [EvRecordTerminated, EvIterationBarrier]"
      using call_exit_protocol [of ic e] exit by simp
    moreover have "state' = state"
      using it Leaves by (auto simp: call_iteration_def Let_def split: prod.splits option.splits sum.splits if_splits)
    ultimately show ?thesis
      using it prot Leaves exit by (auto simp: leaves_first_def leaves_late_def split: if_splits)
  qed
qed simp

text \<open>
  C7: no rank leaves a call without telling the others. In every iteration but the last a rank comes
  to the iteration barrier once and then reads the terminated ranks; when the call raises, it has in
  its last iteration recorded itself as terminated and come to the barrier after that, and it records
  itself before its first arrival exactly when it does not fail at the barrier or after it.
\<close>

theorem call_follows_restart_protocol:
  "case call_loop rank_assignment state ics of (evss, res, state') \<Rightarrow>
     list_all survives (butlast evss)
     \<and> (case res of
          CallRuns \<Rightarrow> list_all survives evss \<and> length evss = length ics
        | CallReturns \<Rightarrow> evss \<noteq> [] \<and> protocol_events (last evss) = []
        | CallRaises e \<Rightarrow> evss \<noteq> [] \<and> (leaves_first (last evss) \<or> leaves_late (last evss))
            \<and> leaves_first (last evss) = (snd (outer_try (is_mode state') (ics ! (length evss - 1))) \<noteq> Restarts))"
  by (rule call_loop_protocol)


section \<open>The number of iterations\<close>

text \<open>
  \<open>RetryController\<close> (\<open>inprocess/initialize.py\<close>) as what it raises: \<open>RestartAbort\<close> is no
  \<open>Exception\<close>, the comparison of an active world size that is not set is a \<open>TypeError\<close>.
\<close>

definition retry_controller :: "int option \<Rightarrow> int \<Rightarrow> int \<Rightarrow> 'x istate \<Rightarrow> call_exc option" where
  "retry_controller max_iterations min_world_size min_active_world_size s =
     (if is_world_size s < min_world_size then Some OtherBase
      else case is_active_world_size s of
             None \<Rightarrow> Some FnException
           | Some active \<Rightarrow>
               if active < min_active_world_size
                  \<or> (case max_iterations of None \<Rightarrow> False | Some m \<Rightarrow> is_iteration s \<ge> m)
               then Some OtherBase else None)"

text \<open>A call whose \<open>initialize\<close> is a given hook.\<close>

fun initialized_by ::
  "('x istate \<Rightarrow> call_exc option) \<Rightarrow> ('x ra_ctx \<Rightarrow> ra_exc + 'x ra_ctx) \<Rightarrow> 'x istate \<Rightarrow> iteration_choices list \<Rightarrow> bool" where
  "initialized_by hook rank_assignment state [] = True"
| "initialized_by hook rank_assignment state (ic # ics) =
     (ic_initialize ic = hook state
      \<and> (case call_iteration rank_assignment state ic of
           (evs, Restarts, state') \<Rightarrow> initialized_by hook rank_assignment state' ics
         | _ \<Rightarrow> True))"

text \<open>A rank assignment that leaves the iteration alone and sets the active world size.\<close>

definition keeps_iteration :: "('x ra_ctx \<Rightarrow> ra_exc + 'x ra_ctx) \<Rightarrow> bool" where
  "keeps_iteration ra \<longleftrightarrow> (\<forall>ctx ctx'. ra ctx = Inr ctx' \<longrightarrow>
     is_iteration (rc_state ctx') = is_iteration (rc_state ctx) \<and> is_active_world_size (rc_state ctx') \<noteq> None)"

lemma shift_ranks_keeps: "shift_ranks ctx = Inr ctx' \<Longrightarrow> is_iteration (rc_state ctx') = is_iteration (rc_state ctx)"
  by (auto simp: shift_ranks_def Let_def split: option.splits if_splits)

lemma call_filter_keeps:
  "call_filter f ctx = Inr ctx' \<Longrightarrow>
     is_iteration (rc_state ctx') = is_iteration (rc_state ctx) \<and> is_active_world_size (rc_state ctx') \<noteq> None"
  by (cases f)
    (auto simp: max_active_world_size_def active_world_size_divisible_by_def activate_below_def Let_def
      split: option.splits if_splits)

lemma filters_keep_iteration: "fs \<noteq> [] \<Longrightarrow> keeps_iteration (compose (map call_filter fs @ [shift_ranks]))"
proof (induction fs)
  case (Cons f fs)
  show ?case
  proof (cases "fs = []")
    case True
    then show ?thesis
      by (auto simp: keeps_iteration_def res_bind_eq_Inr dest!: call_filter_keeps shift_ranks_keeps)
  next
    case False
    then show ?thesis
      using Cons.IH by (auto simp: keeps_iteration_def res_bind_eq_Inr dest!: call_filter_keeps)
  qed
qed simp

lemma aborted_iteration:
  "ic_initialize ic = Some OtherBase \<Longrightarrow> snd (call_iteration rank_assignment state ic) = (Leaves OtherBase, state)"
  by (simp add: call_iteration_def outer_try_def inner_try_def call_body_def is_exception_def split_beta)

lemma restarted_iteration:
  assumes "keeps_iteration rank_assignment" and "call_iteration rank_assignment state ic = (evs, Restarts, state')"
  shows "is_iteration state' = is_iteration state + 1" and "is_active_world_size state' \<noteq> None"
  using assms
  by (auto simp: call_iteration_def next_iteration_def Let_def keeps_iteration_def res_bind_eq_Inr state_advance_def
      split: prod.splits option.splits sum.splits if_splits)


definition calm_choices :: iteration_choices where
  "calm_choices = \<lparr>ic_initialize = None, ic_health_check = None, ic_fn = Some FnException, ic_completion = None,
     ic_wait = Some RankShouldRestart, ic_finalize = None, ic_restart_health = None, ic_barrier = None,
     ic_terminated = Inr {}, ic_exit_barrier = None, ic_terminate = None\<rparr>"


end
