(* ===== verification/Launcher.thy ===== *)
theory Launcher
  imports RdzvProtocol ProgressTracker
begin

text \<open>
  The elastic agent of a node (\<open>fault_tolerance/launcher.py\<close>): what it sees of its workers, its
  decision to restart, the turns of its monitor loop, how a run ends and the code the launcher exits
  with. The rendezvous and the store are those of \<open>RdzvProtocol\<close> and \<open>RdzvStore\<close>, the progress
  tracker that of \<open>ProgressTracker\<close>. The processes of the workers are one flag; \<open>_restart_workers\<close> and
  \<open>_initialize_workers\<close>, inherited from torch, stop the workers, hold a rendezvous and start workers
  in the state HEALTHY. Waiting for memory, logs, metrics and profiling are left out.
\<close>

section \<open>Workers\<close>

datatype worker_state =
    WorkerUnknown | WorkerInit | WorkerHealthy | WorkerUnhealthy | WorkerStopped | WorkerSucceeded | WorkerFailed

record ('f, 'v) run_result =
  rr_state :: worker_state
  rr_failures :: "(int, 'f) dict"
  rr_return_values :: "(int, 'v) dict"

text \<open>What \<open>PContext.wait(0)\<close> returns, by local rank; None while workers run.\<close>

record ('f, 'v) procs_result =
  pr_failures :: "(nat, 'f) dict"
  pr_return_values :: "(nat, 'v) dict"

text \<open>\<open>workers\<close> has the global rank and the id of the worker of each local rank.\<close>

definition by_global_rank :: "(int \<times> int) list \<Rightarrow> (nat, 'x) dict \<Rightarrow> (int, 'x) dict" where
  "by_global_rank workers d = map (\<lambda>(local_rank, x). (fst (workers ! local_rank), x)) d"

definition monitor_workers ::
  "(int \<times> int) list \<Rightarrow> int list \<Rightarrow> ('f, 'v) procs_result option \<Rightarrow> ('f, 'v) run_result" where
  "monitor_workers workers pc_pids result =
     (let worker_pids = set (map snd workers);
          res = (\<lambda>state. \<lparr>rr_state = state, rr_failures = [], rr_return_values = []\<rparr>)
      in if worker_pids \<noteq> set pc_pids then res WorkerUnknown
         else case result of
           None \<Rightarrow> res WorkerHealthy
         | Some r \<Rightarrow>
             if pr_failures r \<noteq> [] then
               (res (if length (pr_failures r) = card worker_pids then WorkerFailed else WorkerUnhealthy))
                 \<lparr>rr_failures := by_global_rank workers (pr_failures r)\<rparr>
             else if pr_return_values r = [] \<and> worker_pids = {} then res WorkerHealthy
             else (res WorkerSucceeded)\<lparr>rr_return_values := by_global_rank workers (pr_return_values r)\<rparr>)"

section \<open>The agent\<close>

definition shutdown_graceful :: string where "shutdown_graceful = ''graceful''"
definition shutdown_no_progress :: string where "shutdown_no_progress = ''no_progress''"

definition no_restart_reasons :: "string list" where
  "no_restart_reasons = [shutdown_attribution_stop, shutdown_no_progress]"

definition no_restart_reason :: "('s, 'm) tcp_store_scheme \<Rightarrow> string \<Rightarrow> 's \<Rightarrow> store_error + string option" where
  "no_restart_reason st prefix s =
     res_bind (get_shutdown_reason st prefix s)
       (\<lambda>r. Inr (case r of None \<Rightarrow> None | Some reason \<Rightarrow> if reason \<in> set no_restart_reasons then Some reason else None))"

record agent =
  ag_max_restarts :: int
  ag_remaining_restarts :: int
  ag_progress_tracker :: tracker
  ag_state :: worker_state
  ag_workers_running :: bool
  ag_barrier :: rdzv_state

text \<open>How a run can end: with a result, or with an exception.\<close>

datatype ('f, 'v) run_exit =
    RunReturns "('f, 'v) run_result"
  | RunReturnsNone
  | NoRestartRequested string
  | TerminalFailure
  | RendezvousRaises rdzv_exit
  | SignalReceived
  | RunRaises

text \<open>
  The agent is waiting in the rendezvous, for its first workers or for a restart, or monitors its
  workers, or its run has ended.
\<close>

datatype ('f, 'v) agent_phase = Rendezvousing | Monitoring | Ended "('f, 'v) run_exit"

definition prefix_of :: "agent \<Rightarrow> string" where
  "prefix_of a = bs_prefix (ag_barrier a)"

definition round_of :: "agent \<Rightarrow> int" where
  "round_of a = bs_round (ag_barrier a)"

definition new_agent :: "int \<Rightarrow> tracker \<Rightarrow> rdzv_state \<Rightarrow> agent" where
  "new_agent max_restarts t b =
     \<lparr>ag_max_restarts = max_restarts, ag_remaining_restarts = max_restarts - bs_round b, ag_progress_tracker = t,
      ag_state = WorkerInit, ag_workers_running = False, ag_barrier = b\<rparr>"

text \<open>The start of \<open>run\<close>, once the round of the store is known.\<close>

definition begin_run :: "agent \<Rightarrow> agent" where
  "begin_run a = a\<lparr>ag_remaining_restarts := ag_max_restarts a - round_of a\<rparr>"

definition stop_workers :: "agent \<Rightarrow> agent" where
  "stop_workers a = a\<lparr>ag_workers_running := False\<rparr>"

definition start_workers :: "rdzv_state \<Rightarrow> agent \<Rightarrow> agent" where
  "start_workers b a = a\<lparr>ag_barrier := b, ag_state := WorkerHealthy, ag_workers_running := True\<rparr>"

text \<open>
  The decision to restart. Inl is the exception it raises; a True means that the agent has stopped its
  workers and is in the rendezvous of the next round.
\<close>

definition handle_restart_decision ::
  "('s, 'm) tcp_store_scheme \<Rightarrow> (nat \<Rightarrow> 's \<Rightarrow> 's) \<Rightarrow> file_read \<Rightarrow> bool \<Rightarrow> agent \<Rightarrow> 's \<Rightarrow> (('f, 'v) run_exit + bool) \<times> agent \<times> 's" where
  "handle_restart_decision st env checkpoint opens a s =
     (let t = pt_analyze_previous_cycle checkpoint (ag_progress_tracker a);
          a = a\<lparr>ag_progress_tracker := t\<rparr>
      in if pt_should_terminate_early t then
           (Inl (NoRestartRequested shutdown_no_progress), (stop_workers a)\<lparr>ag_state := WorkerFailed\<rparr>,
            signal_no_restart st env (prefix_of a) (round_of a) shutdown_no_progress s)
         else if ag_remaining_restarts a > 0 then
           (Inr True, (stop_workers a)\<lparr>ag_remaining_restarts := ag_remaining_restarts a - 1, ag_state := WorkerStopped\<rparr>,
            if opens then open_rendezvous st env (prefix_of a) (round_of a) s else s)
         else (Inr False, a, s))"

text \<open>
  One turn of the monitor loop, after the sleep: the result of the workers, the verdict of the
  attribution and the checkpoint file are inputs, and \<open>env\<close> is what others do to the store between
  the store calls.
\<close>

definition monitor_turn ::
  "('s, 'm) tcp_store_scheme \<Rightarrow> (nat \<Rightarrow> 's \<Rightarrow> 's) \<Rightarrow> ('f, 'v) run_result \<Rightarrow> bool \<Rightarrow> file_read \<Rightarrow> agent \<Rightarrow> 's
    \<Rightarrow> ('f, 'v) agent_phase \<times> agent \<times> 's" where
  "monitor_turn st env result attribution_stop checkpoint a s =
     (let state = rr_state result;
          a = a\<lparr>ag_state := state\<rparr>;
          give_up = (\<lambda>failures a s.
            (Ended (RunReturns \<lparr>rr_state = WorkerFailed, rr_failures = failures, rr_return_values = []\<rparr>),
             (stop_workers a)\<lparr>ag_state := WorkerFailed\<rparr>, s));
          decided = (\<lambda>failures (decision, a, s).
            case decision of
              Inl e \<Rightarrow> (Ended e, a, s)
            | Inr restarts \<Rightarrow> if restarts then (Rendezvousing, a, s) else give_up failures a s)
      in if state = WorkerSucceeded then (Ended (RunReturns result), a, s)
         else if attribution_stop then
           (Ended (NoRestartRequested shutdown_attribution_stop), (stop_workers a)\<lparr>ag_state := WorkerFailed\<rparr>,
            signal_no_restart st env (prefix_of a) (round_of a) shutdown_attribution_stop s)
         else if state = WorkerUnhealthy \<or> state = WorkerFailed then
           decided (rr_failures result) (handle_restart_decision st env checkpoint True a s)
         else if state = WorkerHealthy then
           (if \<not> is_next_round_open st (prefix_of a) (round_of a) s then (Monitoring, a, s)
            else let s = env 0 s
                 in case no_restart_reason st (prefix_of a) s of
                      Inl e \<Rightarrow> (Ended RunRaises, a, s)
                    | Inr (Some reason) \<Rightarrow>
                        (Ended (NoRestartRequested reason), (stop_workers a)\<lparr>ag_state := WorkerFailed\<rparr>, s)
                    | Inr None \<Rightarrow> decided [] (handle_restart_decision st (\<lambda>i. env (i + 1)) checkpoint False a s))
         else (Ended RunRaises, a, s))"

text \<open>However a run ends, \<open>run\<close> shuts the workers down.\<close>

definition run_turn ::
  "('s, 'm) tcp_store_scheme \<Rightarrow> (nat \<Rightarrow> 's \<Rightarrow> 's) \<Rightarrow> ('f, 'v) run_result \<Rightarrow> bool \<Rightarrow> file_read \<Rightarrow> agent \<Rightarrow> 's
    \<Rightarrow> ('f, 'v) agent_phase \<times> agent \<times> 's" where
  "run_turn st env result attribution_stop checkpoint a s =
     (case monitor_turn st env result attribution_stop checkpoint a s of
        (Ended e, a, s) \<Rightarrow> (Ended e, stop_workers a, s)
      | x \<Rightarrow> x)"

text \<open>The end of a rendezvous, and what \<open>run\<close> makes of the exceptions of one.\<close>

definition rendezvous_raised :: "('s, 'm) tcp_store_scheme \<Rightarrow> string \<Rightarrow> rdzv_exit \<Rightarrow> 's \<Rightarrow> ('f, 'v) run_exit" where
  "rendezvous_raised st prefix e s =
     (if e = GracefulExit then
        (case no_restart_reason st prefix s of
           Inl err \<Rightarrow> RunRaises
         | Inr (Some reason) \<Rightarrow> NoRestartRequested reason
         | Inr None \<Rightarrow>
             (case get_shutdown_reason st prefix s of
                Inl err \<Rightarrow> RunRaises
              | Inr reason \<Rightarrow> if reason = Some shutdown_failure then TerminalFailure else RunReturnsNone))
      else if e = ClosedError then
        (case no_restart_reason st prefix s of
           Inl err \<Rightarrow> RunRaises
         | Inr (Some reason) \<Rightarrow> NoRestartRequested reason
         | Inr None \<Rightarrow> RendezvousRaises e)
      else RendezvousRaises e)"

section \<open>The launcher\<close>

text \<open>
  What \<open>launch_agent\<close> writes into the store when a run has ended, if anything, and the code \<open>main\<close>
  exits with. \<open>any_rank_failed\<close> is asked after a signal.
\<close>

definition run_failed :: "('f, 'v) run_exit \<Rightarrow> bool" where
  "run_failed e = (case e of RunReturns r \<Rightarrow> rr_state r = WorkerFailed | TerminalFailure \<Rightarrow> True | _ \<Rightarrow> False)"

definition closing_reason :: "('f, 'v) run_exit \<Rightarrow> string option" where
  "closing_reason e =
     (if e = RendezvousRaises UnhealthyNode \<or> e = SignalReceived then None
      else if run_failed e then Some shutdown_failure
      else Some shutdown_graceful)"

definition close_rendezvous :: "('s, 'm) tcp_store_scheme \<Rightarrow> string \<Rightarrow> ('f, 'v) run_exit \<Rightarrow> 's \<Rightarrow> 's" where
  "close_rendezvous st prefix e s = (case closing_reason e of None \<Rightarrow> s | Some reason \<Rightarrow> set_shutdown st prefix reason s)"

definition exit_code :: "int \<Rightarrow> bool \<Rightarrow> ('f, 'v) run_exit \<Rightarrow> int" where
  "exit_code no_restart_exit_code any_rank_failed e =
     (case e of
        RunReturns r \<Rightarrow> if rr_state r = WorkerFailed then 1 else 0
      | RunReturnsNone \<Rightarrow> 0
      | NoRestartRequested reason \<Rightarrow> no_restart_exit_code
      | SignalReceived \<Rightarrow> if any_rank_failed then 1 else 0
      | _ \<Rightarrow> 1)"

definition default_no_restart_exit_code :: int where
  "default_no_restart_exit_code = 93"

section \<open>An agent in its cluster\<close>

text \<open>
  The steps of one launcher. Others change the store between any two steps and between the store
  calls of a turn, as \<open>oth\<close> allows; \<open>ck\<close> are the contents the checkpoint file can have. A rendezvous
  ends in any round that is not earlier, possibly after it has told the tracker a new cycle number,
  or with an exception. A signal arrives between two steps.
\<close>

definition cycle_synced :: "int option \<Rightarrow> agent \<Rightarrow> agent" where
  "cycle_synced synced a =
     (case synced of None \<Rightarrow> a | Some n \<Rightarrow> a\<lparr>ag_progress_tracker := pt_sync_cycle_number n (ag_progress_tracker a)\<rparr>)"

inductive agent_step ::
  "('s, 'm) tcp_store_scheme \<Rightarrow> ('s \<Rightarrow> 's \<Rightarrow> bool) \<Rightarrow> file_read set
    \<Rightarrow> ('f, 'v) agent_phase \<times> agent \<times> 's \<Rightarrow> ('f, 'v) agent_phase \<times> agent \<times> 's \<Rightarrow> bool"
  for st :: "('s, 'm) tcp_store_scheme" and oth :: "'s \<Rightarrow> 's \<Rightarrow> bool" and ck :: "file_read set" where
  others: "oth s s' \<Longrightarrow> agent_step st oth ck (ph, a, s) (ph, a, s')"
| turn: "(\<And>i s. oth s (env i s)) \<Longrightarrow> checkpoint \<in> ck \<Longrightarrow>
    agent_step st oth ck (Monitoring, a, s) (run_turn st env result attribution_stop checkpoint a s)"
| met: "bs_round (ag_barrier a) \<le> bs_round b \<Longrightarrow> bs_prefix b = prefix_of a \<Longrightarrow>
    agent_step st oth ck (Rendezvousing, a, s) (Monitoring, start_workers b (cycle_synced synced a), s)"
| raised: "agent_step st oth ck (Rendezvousing, a, s) (Ended (rendezvous_raised st (prefix_of a) e s), stop_workers a, s)"
| signal: "ph = Rendezvousing \<or> ph = Monitoring \<Longrightarrow>
    agent_step st oth ck (ph, a, s) (Ended SignalReceived, stop_workers a, s)"

text \<open>A run of the agent, with the number of its restarts.\<close>

inductive agent_restarts ::
  "('s, 'm) tcp_store_scheme \<Rightarrow> ('s \<Rightarrow> 's \<Rightarrow> bool) \<Rightarrow> file_read set \<Rightarrow> nat
    \<Rightarrow> ('f, 'v) agent_phase \<times> agent \<times> 's \<Rightarrow> ('f, 'v) agent_phase \<times> agent \<times> 's \<Rightarrow> bool"
  for st :: "('s, 'm) tcp_store_scheme" and oth :: "'s \<Rightarrow> 's \<Rightarrow> bool" and ck :: "file_read set" where
  start: "agent_restarts st oth ck 0 x x"
| step: "agent_restarts st oth ck n x y \<Longrightarrow> agent_step st oth ck y z \<Longrightarrow>
    agent_restarts st oth ck (if fst y = Monitoring \<and> fst z = Rendezvousing then n + 1 else n) x z"

end
