(* ===== verification/LauncherProps.thy ===== *)
theory LauncherProps
  imports Launcher RdzvStoreProps
begin

text \<open>
  What holds of the elastic agent of \<open>Launcher\<close>: the restarts it makes are its budget, a job that
  makes no progress is given up after exactly the configured number of cycles, a decision not to
  restart is final and ends every launcher that sees it with the reason, and where the launcher does
  not see it.
\<close>

section \<open>One turn of the monitor loop\<close>

text \<open>What a turn does to the agent, by the phase it leaves it in.\<close>

lemma stop_workers_simps [simp]:
  "ag_max_restarts (stop_workers a) = ag_max_restarts a" "ag_remaining_restarts (stop_workers a) = ag_remaining_restarts a"
  "ag_progress_tracker (stop_workers a) = ag_progress_tracker a" "ag_barrier (stop_workers a) = ag_barrier a"
  "\<not> ag_workers_running (stop_workers a)"
  by (simp_all add: stop_workers_def)

lemma decided_agent:
  assumes "handle_restart_decision st env ckpt opens a s = (d, a', s')"
  shows "ag_barrier a' = ag_barrier a \<and> ag_max_restarts a' = ag_max_restarts a
    \<and> (d = Inr True \<longrightarrow> ag_progress_tracker a' = pt_analyze_previous_cycle ckpt (ag_progress_tracker a)
        \<and> \<not> pt_should_terminate_early (ag_progress_tracker a')
        \<and> 0 < ag_remaining_restarts a \<and> ag_remaining_restarts a' = ag_remaining_restarts a - 1)
    \<and> (d \<noteq> Inr True \<longrightarrow> ag_remaining_restarts a' = ag_remaining_restarts a)
    \<and> (\<forall>e. d = Inl e \<longrightarrow> e = NoRestartRequested shutdown_no_progress)"
  using assms by (auto simp: handle_restart_decision_def Let_def split: if_splits)

text \<open>The cases of a turn, in the order of the code.\<close>

lemma turn_succeeded:
  "rr_state result = WorkerSucceeded \<Longrightarrow>
   run_turn st env result verdict ckpt a s
   = (Ended (RunReturns result), stop_workers (a\<lparr>ag_state := WorkerSucceeded\<rparr>), s)"
  by (simp add: run_turn_def monitor_turn_def Let_def)

lemma turn_verdict:
  "rr_state result \<noteq> WorkerSucceeded \<Longrightarrow>
   run_turn st env result True ckpt a s
   = (Ended (NoRestartRequested shutdown_attribution_stop), stop_workers (a\<lparr>ag_state := WorkerFailed\<rparr>),
      signal_no_restart st env (prefix_of a) (round_of a) shutdown_attribution_stop s)"
  by (simp add: run_turn_def monitor_turn_def Let_def stop_workers_def prefix_of_def round_of_def)

lemma turn_failed:
  assumes "rr_state result = WorkerUnhealthy \<or> rr_state result = WorkerFailed"
  shows "run_turn st env result False ckpt a s =
    (case handle_restart_decision st env ckpt True (a\<lparr>ag_state := rr_state result\<rparr>) s of
       (Inl e, a, s) \<Rightarrow> (Ended e, stop_workers a, s)
     | (Inr True, a, s) \<Rightarrow> (Rendezvousing, a, s)
     | (Inr False, a, s) \<Rightarrow>
         (Ended (RunReturns \<lparr>rr_state = WorkerFailed, rr_failures = rr_failures result, rr_return_values = []\<rparr>),
          stop_workers (a\<lparr>ag_state := WorkerFailed\<rparr>), s))"
  using assms
  by (auto simp: run_turn_def monitor_turn_def Let_def stop_workers_def split: prod.split sum.split bool.split)

lemma turn_healthy:
  assumes "rr_state result = WorkerHealthy"
  shows "run_turn st env result False ckpt a s =
    (if \<not> is_next_round_open st (prefix_of a) (round_of a) s then (Monitoring, a\<lparr>ag_state := WorkerHealthy\<rparr>, s)
     else case no_restart_reason st (prefix_of a) (env 0 s) of
         Inl e \<Rightarrow> (Ended RunRaises, stop_workers (a\<lparr>ag_state := WorkerHealthy\<rparr>), env 0 s)
       | Inr (Some reason) \<Rightarrow> (Ended (NoRestartRequested reason), stop_workers (a\<lparr>ag_state := WorkerFailed\<rparr>), env 0 s)
       | Inr None \<Rightarrow>
           (case handle_restart_decision st (\<lambda>i. env (i + 1)) ckpt False (a\<lparr>ag_state := WorkerHealthy\<rparr>) (env 0 s) of
              (Inl e, a, s) \<Rightarrow> (Ended e, stop_workers a, s)
            | (Inr True, a, s) \<Rightarrow> (Rendezvousing, a, s)
            | (Inr False, a, s) \<Rightarrow>
                (Ended (RunReturns \<lparr>rr_state = WorkerFailed, rr_failures = [], rr_return_values = []\<rparr>),
                 stop_workers (a\<lparr>ag_state := WorkerFailed\<rparr>), s)))"
  using assms
  by (auto simp: run_turn_def monitor_turn_def Let_def stop_workers_def prefix_of_def round_of_def
      split: prod.split sum.split bool.split option.split)

lemma turn_other:
  "rr_state result \<in> {WorkerUnknown, WorkerInit, WorkerStopped} \<Longrightarrow>
   run_turn st env result False ckpt a s = (Ended RunRaises, stop_workers (a\<lparr>ag_state := rr_state result\<rparr>), s)"
  by (auto simp: run_turn_def monitor_turn_def Let_def)

lemma state_cases:
  obtains "x = WorkerSucceeded" | "x = WorkerUnhealthy \<or> x = WorkerFailed" | "x = WorkerHealthy"
    | "x \<in> {WorkerUnknown, WorkerInit, WorkerStopped}"
  by (cases x) auto

lemma turn_agent:
  fixes result :: "('f, 'v) run_result" and s :: 's
  assumes "run_turn st env result verdict ckpt a s = (ph, a', s')"
  shows "ag_barrier a' = ag_barrier a \<and> ag_max_restarts a' = ag_max_restarts a
    \<and> (ph = Rendezvousing \<longrightarrow> ag_progress_tracker a' = pt_analyze_previous_cycle ckpt (ag_progress_tracker a)
        \<and> \<not> pt_should_terminate_early (ag_progress_tracker a')
        \<and> 0 < ag_remaining_restarts a \<and> ag_remaining_restarts a' = ag_remaining_restarts a - 1)
    \<and> (ph = Monitoring \<longrightarrow> ag_progress_tracker a' = ag_progress_tracker a)
    \<and> (ph \<noteq> Rendezvousing \<longrightarrow> ag_remaining_restarts a' = ag_remaining_restarts a)"
proof (cases "rr_state result = WorkerSucceeded \<or> verdict")
  case True
  then show ?thesis
    using assms turn_succeeded [of result st env verdict ckpt a s] turn_verdict [of result st env ckpt a s]
    by (cases "rr_state result = WorkerSucceeded") auto
next
  case False
  then have v: "verdict = False" "rr_state result \<noteq> WorkerSucceeded" by simp_all
  show ?thesis
  proof (cases rule: state_cases [of "rr_state result"])
    case 2
    obtain d a1 s1 where d: "(handle_restart_decision st env ckpt True (a\<lparr>ag_state := rr_state result\<rparr>) s
        :: (('f, 'v) run_exit + bool) \<times> agent \<times> 's) = (d, a1, s1)" by (rule prod_cases3)
    have "run_turn st env result False ckpt a s = (ph, a', s')" using assms v by simp
    from this [unfolded turn_failed [OF 2] d] show ?thesis
      using decided_agent [OF d] by (cases d) (auto split: bool.splits)
  next
    case 3
    obtain d a1 s1 where d: "(handle_restart_decision st (\<lambda>i. env (i + 1)) ckpt False (a\<lparr>ag_state := WorkerHealthy\<rparr>) (env 0 s)
        :: (('f, 'v) run_exit + bool) \<times> agent \<times> 's) = (d, a1, s1)" by (rule prod_cases3)
    have "run_turn st env result False ckpt a s = (ph, a', s')" using assms v by simp
    from this [unfolded turn_healthy [OF 3] d] show ?thesis
      using decided_agent [OF d] by (cases d) (auto split: bool.splits option.splits sum.splits if_splits)
  next
    case 4
    then show ?thesis using assms unfolding v turn_other [OF 4] by auto
  qed (use v in simp)
qed

section \<open>The budget of restarts\<close>

lemma step_agent:
  assumes "agent_step st oth ck (ph, a, s) (ph', a', s')"
  shows "prefix_of a' = prefix_of a \<and> ag_max_restarts a' = ag_max_restarts a \<and> round_of a \<le> round_of a'
    \<and> (if ph = Monitoring \<and> ph' = Rendezvousing
       then 0 < ag_remaining_restarts a \<and> ag_remaining_restarts a' = ag_remaining_restarts a - 1
       else ag_remaining_restarts a' = ag_remaining_restarts a)"
  using assms
proof cases
  case (turn env checkpoint result attribution_stop)
  then show ?thesis
    using turn_agent [of st env result attribution_stop checkpoint a s ph' a' s']
    by (auto simp: prefix_of_def round_of_def)
next
  case (met b synced)
  then show ?thesis
    by (auto simp: start_workers_def cycle_synced_def prefix_of_def round_of_def split: option.split)
qed (auto simp: prefix_of_def round_of_def)

lemma restarts_agent:
  "agent_restarts st oth ck n x y \<Longrightarrow>
   prefix_of (fst (snd y)) = prefix_of (fst (snd x)) \<and> ag_max_restarts (fst (snd y)) = ag_max_restarts (fst (snd x))
   \<and> round_of (fst (snd x)) \<le> round_of (fst (snd y))
   \<and> ag_remaining_restarts (fst (snd y)) = ag_remaining_restarts (fst (snd x)) - int n
   \<and> (0 < n \<longrightarrow> 0 \<le> ag_remaining_restarts (fst (snd y)))"
proof (induction rule: agent_restarts.induct)
  case (step n x y z)
  obtain ph a s ph' a' s' where yz: "y = (ph, a, s)" "z = (ph', a', s')" by (metis prod_cases3)
  show ?case
    using step_agent [OF step.hyps(2) [unfolded yz]] step.IH
    by (cases "ph = Monitoring \<and> ph' = Rendezvousing") (auto simp: yz)
qed simp

text \<open>
  C14: A run makes no more restarts than its budget. However its workers fail, whatever the other
  nodes and the store do and however often it waits as a spare, the restarts of a run count down
  exactly from the budget that is left at the round the run begins in, and never below zero; so a
  run that begins with an empty budget never restarts.
\<close>

theorem restarts_within_budget:
  assumes "agent_restarts st oth ck n (Rendezvousing, begin_run a, s) (ph, a', s')"
  shows "ag_remaining_restarts a' = ag_max_restarts a - round_of a - int n
    \<and> int n \<le> max 0 (ag_max_restarts a - round_of a)"
  using restarts_agent [OF assms] by (auto simp: begin_run_def round_of_def)

section \<open>Examples\<close>

text \<open>A node of a job with one restart, in its first round, on a store that knows its keys.\<close>

definition demo_node :: rdzv_state where
  "demo_node = \<lparr>bs_prefix = ''p'', bs_is_host = True, bs_join_timeout = 1, bs_last_call_timeout = 1,
     bs_segment = None, bs_group_size = None, bs_stale_interval = 1, bs_start_time = 0, bs_last_stale_check = 0,
     bs_round = 0, bs_slot = None, bs_active_addrs = None, bs_standby_addrs = None, bs_active_ranks = None,
     bs_previous_active = None\<rparr>"

definition demo_agent :: agent where
  "demo_agent = new_agent 1 (pt_new 1 2 0 (Some ''it.txt'') (Content ''7'')) demo_node"

definition demo_store :: "string \<Rightarrow> string option" where
  "demo_store = [''p:shutdown'' \<mapsto> [], ''p:round_done_0'' \<mapsto> ''1'']"

definition workers_in :: "worker_state \<Rightarrow> (nat, nat) run_result" where
  "workers_in w = \<lparr>rr_state = w, rr_failures = [], rr_return_values = []\<rparr>"

lemma workers_in_simps [simp]: "rr_state (workers_in w) = w"
  by (simp add: workers_in_def)

definition no_others :: "'s \<Rightarrow> 's \<Rightarrow> bool" where
  "no_others s s' \<longleftrightarrow> s' = s"

lemma demo_keys [simp]:
  "shutdown_key ''p'' = ''p:shutdown''" "round_done_key ''p'' 1 = ''p:round_done_1''" "round_done_key ''p'' 0 = ''p:round_done_0''"
  by code_simp+

lemma demo_agent_simps [simp]:
  "prefix_of (begin_run demo_agent) = ''p''" "round_of (begin_run demo_agent) = 0"
  "prefix_of demo_agent = ''p''" "round_of demo_agent = 0" "ag_max_restarts demo_agent = 1"
  "ag_remaining_restarts (begin_run demo_agent) = 1" "ag_barrier (begin_run demo_agent) = demo_node"
  "bs_round demo_node = 0" "bs_prefix demo_node = ''p''"
  by (simp_all add: prefix_of_def round_of_def demo_agent_def new_agent_def begin_run_def demo_node_def)

section \<open>A job that makes no progress\<close>

definition stuck_at :: "int \<Rightarrow> int \<Rightarrow> nat \<Rightarrow> tracker \<Rightarrow> bool" where
  "stuck_at limit v n t \<longleftrightarrow> pt_has_file t \<and> 0 < pt_min_progress t \<and> 0 < limit \<and> pt_max_no_progress t = limit
     \<and> 0 < v \<and> pt_last_restart t = v \<and> (pt_current_max t = 0 \<or> pt_current_max t = v) \<and> pt_no_progress t = n"

lemma stuck_new:
  assumes "f \<noteq> []" "0 < minp" "0 < limit" "0 < v" "known_iteration r = Some v"
  shows "stuck_at limit v 0 (pt_new minp limit cyc (Some f) r)"
  using assms
  by (simp add: stuck_at_def pt_new_def pt_read_iteration_eq pt_has_file_def pt_update_iteration_def Let_def)

lemma stuck_analyzed:
  assumes "stuck_at limit v n t" and "known_iteration r = Some v"
  shows "stuck_at limit v (n + 1) (pt_analyze_previous_cycle r t)"
    and "pt_should_terminate_early (pt_analyze_previous_cycle r t) \<longleftrightarrow> limit \<le> int n + 1"
  using assms
  by (auto simp: stuck_at_def pt_analyze_previous_cycle_def pt_read_iteration_eq pt_has_file_def
      pt_update_iteration_def pt_score_def pt_should_terminate_early_def Let_def split: option.splits)

lemma stuck_restarts:
  assumes "agent_restarts st oth {r. known_iteration r = Some v} n x y"
    and "stuck_at limit v 0 (ag_progress_tracker (fst (snd x)))" and "\<And>e. fst x \<noteq> Ended e"
  shows "int n < limit \<and> ((\<forall>e. fst y \<noteq> Ended e) \<longrightarrow> stuck_at limit v n (ag_progress_tracker (fst (snd y))))"
  using assms
proof (induction rule: agent_restarts.induct)
  case (start x)
  then show ?case by (simp add: stuck_at_def)
next
  case (step n x y z)
  note IH = step.IH [OF step.prems]
  from step.hyps(2) show ?case
  proof cases
    case (turn env checkpoint a s result attribution_stop)
    obtain ph a' s' where r: "run_turn st env result attribution_stop checkpoint a s = (ph, a', s')" by (rule prod_cases3)
    show ?thesis
      using turn_agent [OF r] stuck_analyzed [of limit v n "ag_progress_tracker a" checkpoint] turn IH r
      by (cases ph) auto
  next
    case (met a b s synced)
    then show ?thesis
      using IH by (auto simp: start_workers_def cycle_synced_def stuck_at_def pt_sync_cycle_number_def pt_has_file_def
          split: option.splits)
  qed (use IH in auto)
qed

lemma decision_result:
  "fst (handle_restart_decision st env ckpt opens a s) =
    (if pt_should_terminate_early (pt_analyze_previous_cycle ckpt (ag_progress_tracker a))
     then Inl (NoRestartRequested shutdown_no_progress) else Inr (0 < ag_remaining_restarts a))"
  by (auto simp: handle_restart_decision_def Let_def)

lemma failed_turn_result:
  fixes result :: "('f, 'v) run_result" and s :: 's
  assumes "rr_state result = WorkerUnhealthy \<or> rr_state result = WorkerFailed"
  shows "fst (run_turn st env result False ckpt a s) =
    (if pt_should_terminate_early (pt_analyze_previous_cycle ckpt (ag_progress_tracker a))
     then Ended (NoRestartRequested shutdown_no_progress)
     else if 0 < ag_remaining_restarts a then Rendezvousing
     else Ended (RunReturns \<lparr>rr_state = WorkerFailed, rr_failures = rr_failures result, rr_return_values = []\<rparr>))"
proof -
  let ?a = "a\<lparr>ag_state := rr_state result\<rparr>"
  obtain d a1 s1 where d: "(handle_restart_decision st env ckpt True ?a s
      :: (('f, 'v) run_exit + bool) \<times> agent \<times> 's) = (d, a1, s1)" by (rule prod_cases3)
  have "d = (if pt_should_terminate_early (pt_analyze_previous_cycle ckpt (ag_progress_tracker a))
     then Inl (NoRestartRequested shutdown_no_progress) else Inr (0 < ag_remaining_restarts a))"
    using arg_cong [OF d, of fst] unfolding decision_result by (auto split: if_splits)
  then show ?thesis unfolding turn_failed [OF assms] d by (auto split: bool.split)
qed

text \<open>
  C15: A job that makes no progress is given up after exactly the configured number of failed
  cycles, or when its budget is spent. While the checkpoint stays at one positive iteration, a
  failure of the workers after n restarts is answered by the next restart as long as n + 1 is below
  the limit and budget is left; the failure that completes the limit ends the run with the
  no-progress reason, and a failure without budget before that ends it with the failed workers. No
  run restarts as often as the limit.
\<close>

theorem stuck_job_given_up:
  assumes "ag_progress_tracker a = pt_new minp limit cyc (Some f) r0" and "f \<noteq> []" and "0 < minp" and "0 < limit"
    and "0 < v" and "known_iteration r0 = Some v"
    and "agent_restarts st oth {r. known_iteration r = Some v} n (Rendezvousing, begin_run a, s) (Monitoring, a', s')"
    and "rr_state result = WorkerUnhealthy \<or> rr_state result = WorkerFailed" and "known_iteration r = Some v"
  shows "int n < limit \<and> fst (run_turn st env result False r a' s') =
    (if int n + 1 = limit then Ended (NoRestartRequested shutdown_no_progress)
     else if int n < ag_max_restarts a - round_of a then Rendezvousing
     else Ended (RunReturns \<lparr>rr_state = WorkerFailed, rr_failures = rr_failures result, rr_return_values = []\<rparr>))"
proof -
  have "stuck_at limit v 0 (ag_progress_tracker (begin_run a))"
    using stuck_new [OF assms(2-6)] assms(1) by (simp add: begin_run_def)
  then have n: "int n < limit \<and> stuck_at limit v n (ag_progress_tracker a')"
    using stuck_restarts [OF assms(7)] by simp
  moreover have "ag_remaining_restarts a' = ag_max_restarts a - round_of a - int n"
    using restarts_agent [OF assms(7)] by (simp add: begin_run_def round_of_def)
  moreover have "pt_should_terminate_early (pt_analyze_previous_cycle r (ag_progress_tracker a')) \<longleftrightarrow> limit \<le> int n + 1"
    using stuck_analyzed(2) n assms(9) by blast
  ultimately show ?thesis unfolding failed_turn_result [OF assms(8)] by auto
qed

lemma demo_tracker: "ag_progress_tracker demo_agent = pt_new 1 2 0 (Some ''it.txt'') (Content ''7'')"
  by (simp add: demo_agent_def new_agent_def)

lemma seven: "known_iteration (Content ''7'') = Some 7"
  by code_simp

text \<open>The first failure is answered by a restart.\<close>

lemma demo_restarts:
  assumes "Content ''7'' \<in> ck"
  shows "\<exists>a2 s2. agent_restarts dict_store no_others ck 1
      ((Rendezvousing :: (nat, nat) agent_phase), begin_run demo_agent, demo_store) (Rendezvousing, a2, s2)
    \<and> agent_restarts dict_store no_others ck 1
      ((Rendezvousing :: (nat, nat) agent_phase), begin_run demo_agent, demo_store)
      (Monitoring, start_workers demo_node a2, s2)"
proof -
  let ?x = "((Rendezvousing :: (nat, nat) agent_phase), begin_run demo_agent, demo_store)"
  let ?a1 = "start_workers demo_node (begin_run demo_agent)"
  have m: "agent_step dict_store no_others ck ?x (Monitoring, ?a1, demo_store)"
    using agent_step.met [of "begin_run demo_agent" demo_node dict_store no_others ck demo_store None]
    by (simp add: cycle_synced_def)
  then have one: "agent_restarts dict_store no_others ck 0 ?x (Monitoring, ?a1, demo_store)"
    using agent_restarts.step [OF agent_restarts.start m] by simp
  obtain ph a2 s2 where t: "run_turn dict_store (\<lambda>i m. m) (workers_in WorkerFailed) False (Content ''7'') ?a1 demo_store
      = (ph, a2, s2)" by (rule prod_cases3)
  have tr: "ag_progress_tracker ?a1 = pt_new 1 2 0 (Some ''it.txt'') (Content ''7'')" "ag_remaining_restarts ?a1 = 1"
    by (simp_all add: start_workers_def begin_run_def demo_tracker)
  have "\<not> pt_should_terminate_early (pt_analyze_previous_cycle (Content ''7'') (pt_new 1 2 0 (Some ''it.txt'') (Content ''7'')))"
    by code_simp
  then have ph: "ph = Rendezvousing"
    using failed_turn_result [of "workers_in WorkerFailed" dict_store "\<lambda>i m. m" "Content ''7''" ?a1 demo_store] t tr
    by (simp add: workers_in_def)
  have "agent_step dict_store no_others ck ((Monitoring :: (nat, nat) agent_phase), ?a1, demo_store) (Rendezvousing, a2, s2)"
    using agent_step.turn [of no_others "\<lambda>i m. m" "Content ''7''" ck dict_store ?a1 demo_store "workers_in WorkerFailed" False]
      t ph assms by (simp add: no_others_def)
  from agent_restarts.step [OF one this]
  have two: "agent_restarts dict_store no_others ck 1 ?x (Rendezvousing, a2, s2)" by simp
  have "prefix_of a2 = ''p'' \<and> round_of a2 = 0"
    using turn_agent [OF t] by (simp add: prefix_of_def round_of_def start_workers_def)
  then have "agent_step dict_store no_others ck ((Rendezvousing :: (nat, nat) agent_phase), a2, s2) (Monitoring, start_workers demo_node a2, s2)"
    using agent_step.met [of a2 demo_node dict_store no_others ck s2 None]
    by (simp add: cycle_synced_def round_of_def)
  from agent_restarts.step [OF two this]
  have "agent_restarts dict_store no_others ck 1 ?x (Monitoring, start_workers demo_node a2, s2)" by simp
  with two show ?thesis by blast
qed

theorem restarts_within_budget_witness:
  "\<exists>a2 s2. agent_restarts dict_store no_others {Content ''7''} 1
      ((Rendezvousing :: (nat, nat) agent_phase), begin_run demo_agent, demo_store) (Rendezvousing, a2, s2)
    \<and> ag_remaining_restarts a2 = 0"
proof -
  obtain a2 s2 where "agent_restarts dict_store no_others {Content ''7''} 1
      ((Rendezvousing :: (nat, nat) agent_phase), begin_run demo_agent, demo_store) (Rendezvousing, a2, s2)"
    using demo_restarts [of "{Content ''7''}"] by blast
  then show ?thesis
    using restarts_within_budget [of dict_store no_others "{Content ''7''}" 1 demo_agent demo_store Rendezvousing a2 s2]
    by auto
qed

text \<open>The second failure at iteration 7 completes the limit of two.\<close>

theorem stuck_job_given_up_witness:
  "\<exists>a' s'. fst (run_turn dict_store (\<lambda>i m. m) (workers_in WorkerFailed) False (Content ''7'') a' s')
    = Ended (NoRestartRequested shutdown_no_progress) \<and> prefix_of a' = ''p''"
proof -
  obtain a2 s2 where r: "agent_restarts dict_store no_others {r. known_iteration r = Some 7} 1
      ((Rendezvousing :: (nat, nat) agent_phase), begin_run demo_agent, demo_store)
      (Monitoring, start_workers demo_node a2, s2)"
    using demo_restarts [of "{r. known_iteration r = Some 7}"] seven by blast
  have "prefix_of (start_workers demo_node a2) = ''p''" by (simp add: start_workers_def prefix_of_def)
  then show ?thesis
    using stuck_job_given_up [OF demo_tracker _ _ _ _ seven r, of "workers_in WorkerFailed" "Content ''7''" "\<lambda>i m. m"] seven
    by (intro exI [of _ "start_workers demo_node a2"] exI [of _ s2]) (simp add: workers_in_def)
qed

section \<open>A decision not to restart\<close>

text \<open>
  What the other clients may do to the store: a recorded reason stays, since every one of them
  writes it by compare and set, and the key of a round stays once it is there.
\<close>

definition store_evolves :: "('s \<Rightarrow> string \<Rightarrow> string option) \<Rightarrow> string \<Rightarrow> 's \<Rightarrow> 's \<Rightarrow> bool" where
  "store_evolves view prefix s s' \<longleftrightarrow>
     (\<forall>r. r \<noteq> [] \<longrightarrow> view s (shutdown_key prefix) = Some r \<longrightarrow> view s' (shutdown_key prefix) = Some r)
   \<and> (\<forall>n. view s (round_done_key prefix n) \<noteq> None \<longrightarrow> view s' (round_done_key prefix n) \<noteq> None)"

lemma reason_not_empty: "r \<in> set no_restart_reasons \<Longrightarrow> r \<noteq> []"
  by (auto simp: no_restart_reasons_def shutdown_attribution_stop_def shutdown_no_progress_def)

lemma reasons [simp]: "shutdown_attribution_stop \<in> set no_restart_reasons" "shutdown_no_progress \<in> set no_restart_reasons"
  by (simp_all add: no_restart_reasons_def)

lemma read_reason:
  assumes "store_laws st view"
  shows "get_shutdown_reason st prefix s =
      Inr (case view s (shutdown_key prefix) of None \<Rightarrow> None | Some r \<Rightarrow> if r = [] then None else Some r)"
    and "no_restart_reason st prefix s =
      Inr (case view s (shutdown_key prefix) of
             None \<Rightarrow> None | Some r \<Rightarrow> if r \<in> set no_restart_reasons then Some r else None)"
  by (auto simp: get_shutdown_reason_def no_restart_reason_def store_laws_simps [OF assms]
      dest: reason_not_empty split: option.split)

lemma open_keeps_reason:
  assumes "store_laws st view" and "\<And>i s. store_evolves view prefix s (env i s)"
    and "view s (shutdown_key prefix) = Some r" and "r \<noteq> []"
  shows "view (open_rendezvous st env prefix n s) (shutdown_key prefix) = Some r"
proof -
  have e: "view (env i t) (shutdown_key prefix) = Some r" if "view t (shutdown_key prefix) = Some r" for i t
    using assms(2) [of t i] assms(4) that by (simp add: store_evolves_def)
  show ?thesis
    using shutdown_key_not_round [of prefix "n + 1"]
    by (simp add: open_rendezvous_def Let_def store_laws_simps(3) [OF assms(1)] e assms(3))
qed

lemma signal_keeps_reason:
  assumes "store_laws st view" and "\<And>i s. store_evolves view prefix s (env i s)"
    and "view s (shutdown_key prefix) = Some r" and "r \<noteq> []"
  shows "view (signal_no_restart st env prefix n reason s) (shutdown_key prefix) = Some r"
  unfolding signal_no_restart_def
  by (rule open_keeps_reason [OF assms(1,2) shutdown_reason_kept [OF assms(1,3,4)] assms(4)])

lemma decision_keeps_reason:
  assumes "store_laws st view" and "\<And>i s. store_evolves view (prefix_of a) s (env i s)"
    and "view s (shutdown_key (prefix_of a)) = Some r" and "r \<noteq> []"
    and "handle_restart_decision st env ckpt opens a s = (d, a', s')"
  shows "view s' (shutdown_key (prefix_of a)) = Some r"
  using assms(5) open_keeps_reason [OF assms(1-4), where n = "round_of a"]
    signal_keeps_reason [OF assms(1-4), where n = "round_of a" and reason = shutdown_no_progress] assms(3)
  by (auto simp: handle_restart_decision_def Let_def prefix_of_def round_of_def split: if_splits)

text \<open>How a run can end once a reason is recorded.\<close>

definition stopped_exit :: "('f, 'v) run_exit \<Rightarrow> bool" where
  "stopped_exit e = (case e of
       RunReturns r \<Rightarrow> rr_state r = WorkerSucceeded \<or> rr_state r = WorkerFailed
     | RunReturnsNone \<Rightarrow> False
     | NoRestartRequested q \<Rightarrow> q \<in> set no_restart_reasons
     | TerminalFailure \<Rightarrow> False
     | RendezvousRaises x \<Rightarrow> x \<noteq> ClosedError \<and> x \<noteq> GracefulExit
     | SignalReceived \<Rightarrow> True
     | RunRaises \<Rightarrow> True)"

lemma turn_store:
  fixes result :: "('f, 'v) run_result" and s :: 's
  assumes "store_laws st view" and "\<And>i s. store_evolves view (prefix_of a) s (env i s)"
    and "view s (shutdown_key (prefix_of a)) = Some r" and "r \<noteq> []"
    and "run_turn st env result verdict ckpt a s = (ph, a', s')"
  shows "view s' (shutdown_key (prefix_of a)) = Some r \<and> (\<forall>e. ph = Ended e \<longrightarrow> stopped_exit e)"
proof -
  have p: "prefix_of (a\<lparr>ag_state := x\<rparr>) = prefix_of a" for x by (simp add: prefix_of_def)
  show ?thesis
  proof (cases rule: state_cases [of "rr_state result"])
    case 1
    then show ?thesis using assms(3,5) by (auto simp: turn_succeeded stopped_exit_def)
  next
    case 2
    obtain d a1 s1 where d: "(handle_restart_decision st env ckpt True (a\<lparr>ag_state := rr_state result\<rparr>) s
        :: (('f, 'v) run_exit + bool) \<times> agent \<times> 's) = (d, a1, s1)" by (rule prod_cases3)
    show ?thesis
    proof (cases verdict)
      case True
      then show ?thesis
        using assms(5) 2 signal_keeps_reason [OF assms(1-4)] by (auto simp: turn_verdict stopped_exit_def)
    next
      case False
      have "run_turn st env result False ckpt a s = (ph, a', s')" using assms(5) False by simp
      from this [unfolded turn_failed [OF 2] d] show ?thesis
        using decision_keeps_reason [OF assms(1) _ _ assms(4) d, unfolded p, OF assms(2,3)] decided_agent [OF d]
        by (cases d) (auto simp: stopped_exit_def split: bool.splits)
    qed
  next
    case 3
    let ?s = "env 0 s"
    have s: "view ?s (shutdown_key (prefix_of a)) = Some r" using assms(2) [of s 0] assms(3,4) by (simp add: store_evolves_def)
    obtain d a1 s1 where d: "(handle_restart_decision st (\<lambda>i. env (i + 1)) ckpt False (a\<lparr>ag_state := WorkerHealthy\<rparr>) ?s
        :: (('f, 'v) run_exit + bool) \<times> agent \<times> 's) = (d, a1, s1)" by (rule prod_cases3)
    show ?thesis
    proof (cases verdict)
      case True
      then show ?thesis
        using assms(5) 3 signal_keeps_reason [OF assms(1-4)] by (auto simp: turn_verdict stopped_exit_def)
    next
      case False
      have "run_turn st env result False ckpt a s = (ph, a', s')" using assms(5) False by simp
      from this [unfolded turn_healthy [OF 3] d] show ?thesis
        using decision_keeps_reason [OF assms(1) _ _ assms(4) d, unfolded p, OF assms(2) s] decided_agent [OF d] s assms(3)
        by (cases d) (auto simp: stopped_exit_def read_reason [OF assms(1)] split: bool.splits if_splits)
    qed
  next
    case 4
    then show ?thesis
      using assms(3,5) signal_keeps_reason [OF assms(1-4)]
      by (cases verdict) (auto simp: turn_verdict turn_other stopped_exit_def)
  qed
qed

lemma rendezvous_sees_reason:
  assumes "store_laws st view" and "view s (shutdown_key prefix) = Some r" and "r \<in> set no_restart_reasons"
  shows "rendezvous_raised st prefix GracefulExit s = NoRestartRequested r"
    and "rendezvous_raised st prefix ClosedError s = NoRestartRequested r"
    and "stopped_exit (rendezvous_raised st prefix e s)"
  using assms(2,3)
  by (auto simp: rendezvous_raised_def read_reason [OF assms(1)] stopped_exit_def)

lemma stop_persists:
  assumes "agent_restarts st oth ck n x y"
    and "store_laws st view" and "\<And>s s'. oth s s' \<Longrightarrow> store_evolves view (prefix_of (fst (snd x))) s s'"
    and "r \<in> set no_restart_reasons"
    and "view (snd (snd x)) (shutdown_key (prefix_of (fst (snd x)))) = Some r" and "\<And>e. fst x \<noteq> Ended e"
  shows "view (snd (snd y)) (shutdown_key (prefix_of (fst (snd x)))) = Some r
    \<and> (\<forall>e. fst y = Ended e \<longrightarrow> stopped_exit e)"
  using assms
proof (induction rule: agent_restarts.induct)
  case (step n x y z)
  note IH = step.IH [OF step.prems]
  note p = restarts_agent [OF step.hyps(1)]
  from step.hyps(2) show ?case
  proof cases
    case (turn env checkpoint a s result attribution_stop)
    obtain ph a' s' where t: "run_turn st env result attribution_stop checkpoint a s = (ph, a', s')" by (rule prod_cases3)
    have "prefix_of a = prefix_of (fst (snd x))" using p turn by simp
    then show ?thesis
      using turn_store [OF step.prems(1) _ _ reason_not_empty [OF step.prems(3)] t] step.prems(2) turn t IH by simp
  next
    case (raised a e s)
    then show ?thesis
      using rendezvous_sees_reason(3) [OF step.prems(1) _ step.prems(3)] IH p by simp
  next
    case (others s s' ph a)
    then show ?thesis
      using step.prems(2) [of s s'] IH reason_not_empty [OF step.prems(3)] by (simp add: store_evolves_def)
  qed (use IH in \<open>auto simp: stopped_exit_def\<close>)
qed auto

text \<open>
  C16: A decision not to restart is final. Once a no-restart reason is recorded, it is never
  replaced, whatever the launcher does until its run ends and when it closes the rendezvous on the
  way out; a rendezvous that ends for it, by either of its two exceptions, ends the run with that
  reason; and no launcher exits with 0 unless its own workers finished or it was told to by a
  signal, nor reports another launcher's failure instead.
\<close>

theorem stop_decision_is_final:
  fixes ph ph' :: "('f, 'v) agent_phase"
  assumes "store_laws st view" and "\<And>s s'. oth s s' \<Longrightarrow> store_evolves view (prefix_of a) s s'"
    and "r \<in> set no_restart_reasons" and "view s (shutdown_key (prefix_of a)) = Some r"
    and "ph = Rendezvousing \<or> ph = Monitoring" and "agent_restarts st oth ck n (ph, a, s) (ph', a', s')" and "c \<noteq> 0"
  shows "view s' (shutdown_key (prefix_of a)) = Some r
    \<and> rendezvous_raised st (prefix_of a) GracefulExit s' = (NoRestartRequested r :: ('f, 'v) run_exit)
    \<and> rendezvous_raised st (prefix_of a) ClosedError s' = (NoRestartRequested r :: ('f, 'v) run_exit)
    \<and> (\<forall>e. ph' = Ended e \<longrightarrow>
         view (close_rendezvous st (prefix_of a) e s') (shutdown_key (prefix_of a)) = Some r
       \<and> e \<noteq> TerminalFailure
       \<and> (exit_code c failed e = 0 \<longrightarrow> e = SignalReceived \<or> (\<exists>res. e = RunReturns res \<and> rr_state res = WorkerSucceeded)))"
proof -
  have "\<And>e. fst (ph, a, s) \<noteq> Ended e" using assms(5) by auto
  then have s': "view s' (shutdown_key (prefix_of a)) = Some r" "\<And>e. ph' = Ended e \<Longrightarrow> stopped_exit e"
    using stop_persists [OF assms(6,1) _ assms(3)] assms(2,4) by simp_all
  have "view (close_rendezvous st (prefix_of a) e s') (shutdown_key (prefix_of a)) = Some r" for e :: "('f, 'v) run_exit"
    using shutdown_reason_kept [OF assms(1) s'(1) reason_not_empty [OF assms(3)]] s'(1)
    by (simp add: close_rendezvous_def split: option.split)
  moreover have "e \<noteq> TerminalFailure" if "stopped_exit e" for e :: "('f, 'v) run_exit"
    using that by (auto simp: stopped_exit_def)
  moreover have "e = SignalReceived \<or> (\<exists>res. e = RunReturns res \<and> rr_state res = WorkerSucceeded)"
    if "stopped_exit e" "exit_code c failed e = 0" for e :: "('f, 'v) run_exit"
    using that assms(7) by (cases e) (auto simp: stopped_exit_def exit_code_def split: if_splits)
  ultimately show ?thesis
    using s' rendezvous_sees_reason(1,2) [OF assms(1) s'(1) assms(3)] by blast
qed

lemma signal_records:
  assumes "store_laws st view" and "\<And>i s. view (env i s) (shutdown_key prefix) = view s (shutdown_key prefix)"
    and "view s (shutdown_key prefix) = Some []"
  shows "view (signal_no_restart st env prefix n reason s) (shutdown_key prefix) = Some reason"
    and "view (signal_no_restart st env prefix n reason s) (round_done_key prefix (n + 1)) \<noteq> None"
  using shutdown_recorded [OF assms(1), of s prefix reason] assms(3)
  by (auto simp: signal_no_restart_def open_keeps_shutdown [OF assms(1,2)])
    (auto simp: open_rendezvous_def Let_def store_laws_simps [OF assms(1)])

lemma decision_records:
  assumes "store_laws st view" and "\<And>i s. view (env i s) (shutdown_key (prefix_of a)) = view s (shutdown_key (prefix_of a))"
    and "view s (shutdown_key (prefix_of a)) = Some []"
    and "handle_restart_decision st env ckpt opens a s = (Inl (NoRestartRequested r), a', s')"
  shows "view s' (shutdown_key (prefix_of a)) = Some r \<and> r \<in> set no_restart_reasons
    \<and> view s' (round_done_key (prefix_of a) (round_of a + 1)) \<noteq> None"
proof -
  have "r = shutdown_no_progress" "s' = signal_no_restart st env (prefix_of a) (round_of a) shutdown_no_progress s"
    using assms(4) by (auto simp: handle_restart_decision_def Let_def prefix_of_def round_of_def split: if_splits)
  then show ?thesis using signal_records [OF assms(1-3)] by simp
qed

lemma turn_records:
  fixes result :: "('f, 'v) run_result" and s :: 's
  assumes "store_laws st view" and "\<And>i s. view (env i s) (shutdown_key (prefix_of a)) = view s (shutdown_key (prefix_of a))"
    and "view s (shutdown_key (prefix_of a)) = Some []"
    and "run_turn st env result verdict ckpt a s = (Ended (NoRestartRequested r), a', s')"
  shows "view s' (shutdown_key (prefix_of a)) = Some r \<and> r \<in> set no_restart_reasons
    \<and> view s' (round_done_key (prefix_of a) (round_of a + 1)) \<noteq> None"
proof -
  have p: "prefix_of (a\<lparr>ag_state := x\<rparr>) = prefix_of a" "round_of (a\<lparr>ag_state := x\<rparr>) = round_of a" for x
    by (simp_all add: prefix_of_def round_of_def)
  note sig = signal_records [OF assms(1-3), where n = "round_of a" and reason = shutdown_attribution_stop]
  show ?thesis
  proof (cases "rr_state result = WorkerSucceeded \<or> verdict")
    case True
    then show ?thesis
      using assms(4) sig turn_succeeded [of result st env verdict ckpt a s] turn_verdict [of result st env ckpt a s]
      by (cases "rr_state result = WorkerSucceeded") auto
  next
    case False
    then have t: "run_turn st env result False ckpt a s = (Ended (NoRestartRequested r), a', s')" using assms(4) by simp
    show ?thesis
    proof (cases rule: state_cases [of "rr_state result"])
      case 2
      obtain d a1 s1 where d: "(handle_restart_decision st env ckpt True (a\<lparr>ag_state := rr_state result\<rparr>) s
          :: (('f, 'v) run_exit + bool) \<times> agent \<times> 's) = (d, a1, s1)" by (rule prod_cases3)
      from t [unfolded turn_failed [OF 2] d] have "d = Inl (NoRestartRequested r)" "s' = s1"
        by (auto split: sum.splits bool.splits)
      then show ?thesis 
        using decision_records [OF assms(1), where env = env and a = "a\<lparr>ag_state := rr_state result\<rparr>", unfolded p, OF assms(2,3)] d
        by blast
    next
      case 3
      let ?s = "env 0 s"
      have s: "view ?s (shutdown_key (prefix_of a)) = Some []" using assms(2,3) by simp
      then have none: "no_restart_reason st (prefix_of a) ?s = Inr None"
        by (auto simp: read_reason [OF assms(1)] dest: reason_not_empty)
      obtain d a1 s1 where d: "(handle_restart_decision st (\<lambda>i. env (i + 1)) ckpt False (a\<lparr>ag_state := WorkerHealthy\<rparr>) ?s
          :: (('f, 'v) run_exit + bool) \<times> agent \<times> 's) = (d, a1, s1)" by (rule prod_cases3)
      from t [unfolded turn_healthy [OF 3] d none] have "d = Inl (NoRestartRequested r)" "s' = s1"
        by (auto split: sum.splits bool.splits if_splits)
      then show ?thesis
        using decision_records [OF assms(1), where env = "\<lambda>i. env (i + 1)" and a = "a\<lparr>ag_state := WorkerHealthy\<rparr>", unfolded p, OF assms(2) s] d
        by blast
    next
      case 4
      then show ?thesis using t unfolding turn_other [OF 4] by simp
    qed (use False in simp)
  qed
qed

lemma read_shutdown:
  assumes "store_laws st view" and "view s (shutdown_key prefix) = Some r" and "r \<noteq> []"
  shows "is_shutdown st prefix s = Inr True"
  using assms(2,3) by (simp add: is_shutdown_def store_laws_simps [OF assms(1)])

text \<open>
  C17: A decision not to restart reaches the other launchers. When one launcher ends its run with
  such a reason, from a verdict or from its progress tracker, and nobody shut the job down before,
  then at every later state of the store a launcher with healthy workers in the same round ends
  with that reason in its next turn, a spare that waits for a round to open leaves the rendezvous,
  a node that waits for a round to close finds it closed, and the run of each of the two ends with
  the same reason.
\<close>

theorem stop_reaches_the_others:
  fixes result peer :: "('f, 'v) run_result"
  assumes "store_laws st view"
    and "\<And>i s. view (env i s) (shutdown_key (prefix_of a)) = view s (shutdown_key (prefix_of a))"
    and "view s (shutdown_key (prefix_of a)) = Some []"
    and "run_turn st env result verdict ckpt a s = (Ended (NoRestartRequested r), a', s')"
    and "store_evolves view (prefix_of a) s' t" and "\<And>i s. store_evolves view (prefix_of a) s (env' i s)"
    and "prefix_of b = prefix_of a" and "round_of b = round_of a" and "rr_state peer = WorkerHealthy"
    and "bs_prefix w = prefix_of a"
  shows "fst (run_turn st env' peer False ckpt' b t) = Ended (NoRestartRequested r)
    \<and> wait_open_turn st False False now w t = Some (WaitExit GracefulExit, t)
    \<and> check_timeout_and_closure st w now t = Inl ClosedError
    \<and> rendezvous_raised st (prefix_of a) GracefulExit t = (NoRestartRequested r :: ('f, 'v) run_exit)
    \<and> rendezvous_raised st (prefix_of a) ClosedError t = (NoRestartRequested r :: ('f, 'v) run_exit)"
proof -
  note rec = turn_records [OF assms(1-4)]
  note ne = reason_not_empty [OF conjunct1 [OF conjunct2 [OF rec]]]
  have t: "view t (shutdown_key (prefix_of a)) = Some r" "view t (round_done_key (prefix_of a) (round_of a + 1)) \<noteq> None"
    using rec ne assms(5) by (auto simp: store_evolves_def)
  then have e: "view (env' 0 t) (shutdown_key (prefix_of a)) = Some r"
    using assms(6) [of t 0] ne by (simp add: store_evolves_def)
  have open': "is_next_round_open st (prefix_of a) (round_of a) t"
    using t(2) by (simp add: is_next_round_open_def store_laws_simps [OF assms(1)])
  have "no_restart_reason st (prefix_of a) (env' 0 t) = Inr (Some r)"
    using e rec by (simp add: read_reason [OF assms(1)])
  then have "fst (run_turn st env' peer False ckpt' b t) = Ended (NoRestartRequested r)"
    unfolding turn_healthy [OF assms(9)] using open' by (simp add: assms(7,8))
  then show ?thesis
    using read_shutdown [OF assms(1) t(1) ne] rendezvous_sees_reason(1,2) [OF assms(1) t(1)] rec
    by (simp add: wait_open_turn_def check_timeout_and_closure_def assms(10))
qed

lemma evolves_refl: "store_evolves view prefix s s"
  by (simp add: store_evolves_def)

definition stopped_store :: "string \<Rightarrow> string option" where
  "stopped_store = demo_store(''p:shutdown'' \<mapsto> ''attribution_stop'', ''p:round_done_1'' \<mapsto> ''0'')"

lemma demo_verdict:
  "run_turn dict_store (\<lambda>i m. m) (workers_in WorkerHealthy) True FileNotFound (begin_run demo_agent) demo_store
   = (Ended (NoRestartRequested shutdown_attribution_stop),
      stop_workers ((begin_run demo_agent)\<lparr>ag_state := WorkerFailed\<rparr>), stopped_store)"
  by (simp add: turn_verdict workers_in_def signal_no_restart_def set_shutdown_def open_rendezvous_def dict_store_def
      demo_store_def stopped_store_def shutdown_attribution_stop_def Let_def)

theorem stop_reaches_the_others_witness:
  "fst (run_turn dict_store (\<lambda>i m. m) (workers_in WorkerHealthy) False FileNotFound (begin_run demo_agent) stopped_store)
     = Ended (NoRestartRequested shutdown_attribution_stop)
   \<and> wait_open_turn dict_store False False 0 demo_node stopped_store = Some (WaitExit GracefulExit, stopped_store)"
  using stop_reaches_the_others [OF dict_store_laws _ _ demo_verdict evolves_refl, of "\<lambda>i m. m" "begin_run demo_agent"
      "workers_in WorkerHealthy" demo_node FileNotFound 0]
  by (simp add: evolves_refl demo_store_def)

text \<open>A waiting spare of the demo job is told to leave.\<close>

theorem stop_decision_is_final_witness:
  "\<exists>a'. agent_restarts dict_store (store_evolves (\<lambda>m. m) ''p'') {} 0
      ((Rendezvousing :: (nat, nat) agent_phase), begin_run demo_agent, stopped_store)
      (Ended (NoRestartRequested shutdown_attribution_stop), a', stopped_store)
    \<and> close_rendezvous dict_store ''p'' (NoRestartRequested shutdown_attribution_stop :: (nat, nat) run_exit) stopped_store
        ''p:shutdown'' = Some ''attribution_stop''"
proof -
  let ?x = "((Rendezvousing :: (nat, nat) agent_phase), begin_run demo_agent, stopped_store)"
  let ?e = "NoRestartRequested shutdown_attribution_stop :: (nat, nat) run_exit"
  let ?y = "(Ended ?e, stop_workers (begin_run demo_agent), stopped_store)"
  have v: "stopped_store (shutdown_key ''p'') = Some shutdown_attribution_stop"
    by (simp add: stopped_store_def shutdown_attribution_stop_def)
  have "agent_step dict_store (store_evolves (\<lambda>m. m) ''p'') {} ?x ?y"
    using agent_step.raised [of dict_store "store_evolves (\<lambda>m. m) ''p''" "{}" "begin_run demo_agent" stopped_store GracefulExit]
    by (simp add: rendezvous_sees_reason(1) [OF dict_store_laws, of stopped_store "''p''" shutdown_attribution_stop] v [simplified])
  from agent_restarts.step [OF agent_restarts.start this]
  have r: "agent_restarts dict_store (store_evolves (\<lambda>m. m) ''p'') {} 0 ?x ?y" by simp
  have "close_rendezvous dict_store ''p'' ?e stopped_store (shutdown_key ''p'') = Some shutdown_attribution_stop"
    using stop_decision_is_final [OF dict_store_laws _ _ _ _ r, of shutdown_attribution_stop 93] v by simp
  then show ?thesis using r by (auto simp: shutdown_attribution_stop_def)
qed

section \<open>Where the decision is not seen\<close>

text \<open>
  C18: A launcher whose budget is spent does not see the decision. If its workers fail, as they do
  when the workers of the launcher that decided are stopped, before it polls the store, it ends
  with the failed workers and exits with 1, although the reason is recorded: the exit code for a
  job that must not be requeued is lost, and the scheduler requeues it.
\<close>

theorem spent_budget_hides_the_stop:
  assumes "store_laws st view" and "view s (shutdown_key (prefix_of a)) = Some r" and "r \<in> set no_restart_reasons"
    and "rr_state result = WorkerUnhealthy \<or> rr_state result = WorkerFailed" and "ag_remaining_restarts a \<le> 0"
    and "\<not> pt_should_terminate_early (pt_analyze_previous_cycle ckpt (ag_progress_tracker a))"
  shows "\<exists>res a'. run_turn st env result False ckpt a s = (Ended (RunReturns res), a', s)
    \<and> no_restart_reason st (prefix_of a) s = Inr (Some r)
    \<and> rr_state res = WorkerFailed \<and> exit_code c failed (RunReturns res) = 1"
proof -
  have "no_restart_reason st (prefix_of a) s = Inr (Some r)"
    using assms(2,3) by (simp add: read_reason [OF assms(1)])
  then show ?thesis
    using assms(5,6) unfolding turn_failed [OF assms(4)]
    by (simp add: handle_restart_decision_def Let_def exit_code_def)
qed

theorem spent_budget_hides_the_stop_witness:
  "\<exists>res a'. run_turn dict_store (\<lambda>i m. m) (workers_in WorkerFailed) False (Content ''8'')
      ((begin_run demo_agent)\<lparr>ag_remaining_restarts := 0\<rparr>) stopped_store = (Ended (RunReturns res), a', stopped_store)
    \<and> exit_code default_no_restart_exit_code False (RunReturns res) = 1"
proof -
  have "\<not> pt_should_terminate_early (pt_analyze_previous_cycle (Content ''8'') (pt_new 1 2 0 (Some ''it.txt'') (Content ''7'')))"
    by code_simp
  moreover have "prefix_of ((begin_run demo_agent)\<lparr>ag_remaining_restarts := 0\<rparr>) = ''p''"
    by (simp add: prefix_of_def)
  moreover have "stopped_store ''p:shutdown'' = Some shutdown_attribution_stop"
    by (simp add: stopped_store_def shutdown_attribution_stop_def)
  moreover have "ag_progress_tracker (begin_run demo_agent) = pt_new 1 2 0 (Some ''it.txt'') (Content ''7'')"
    by (simp add: begin_run_def demo_tracker)
  ultimately show ?thesis
    using spent_budget_hides_the_stop [OF dict_store_laws, of stopped_store "(begin_run demo_agent)\<lparr>ag_remaining_restarts := 0\<rparr>"
        shutdown_attribution_stop "workers_in WorkerFailed" "Content ''8''" "\<lambda>i m. m" default_no_restart_exit_code False]
    by auto
qed

text \<open>
  The broadcast is an opened round. A healthy launcher that is already in a later round, whose next
  one is not open, goes on: the round the decision opens is not the one it polls.
\<close>

lemma late_stop_is_not_seen:
  assumes "store_laws st view" and "\<And>i s. view (env i s) (round_done_key prefix m) = view s (round_done_key prefix m)"
    and "prefix_of b = prefix" and "round_of b + 1 = m" and "n < round_of b" and "view s (round_done_key prefix m) = None"
    and "rr_state peer = WorkerHealthy"
  shows "fst (run_turn st env' peer False ckpt b (signal_no_restart st env prefix n reason s)) = Monitoring"
proof -
  have "round_done_key prefix m \<noteq> shutdown_key prefix" "round_done_key prefix m \<noteq> round_done_key prefix (n + 1)"
    using assms(4,5) shutdown_key_not_round [of prefix m] round_done_key_inj [of prefix m "n + 1"] by auto
  moreover have "view (set_shutdown st prefix reason s) (round_done_key prefix m) = view s (round_done_key prefix m)"
    using compare_set_laws [OF assms(1), of "shutdown_key prefix" "[]" reason s] calculation(1)
    by (auto simp: set_shutdown_def split: option.splits if_splits)
  ultimately have "view (signal_no_restart st env prefix n reason s) (round_done_key prefix m) = None"
    using assms(2,6) by (simp add: signal_no_restart_def open_rendezvous_def Let_def store_laws_simps(3) [OF assms(1)])
  then have "\<not> is_next_round_open st (prefix_of b) (round_of b) (signal_no_restart st env prefix n reason s)"
    using assms(3,4) by (simp add: is_next_round_open_def store_laws_simps [OF assms(1)])
  then show ?thesis unfolding turn_healthy [OF assms(7)] by simp
qed

text \<open>
  The budget is fixed when the run begins. A spare that waits while others restart, and then starts
  workers in a later round, has the budget of the round it began in.
\<close>

lemma spare_keeps_its_budget:
  fixes b :: rdzv_state
  assumes "bs_round b = round_of a + k" and "bs_prefix b = prefix_of a" and "0 \<le> k"
  shows "\<exists>a'. agent_step st oth ck (Rendezvousing, begin_run a, s) (Monitoring, a', s)
    \<and> round_of a' = round_of a + k \<and> ag_remaining_restarts a' = ag_max_restarts a - round_of a' + k"
  using agent_step.met [of "begin_run a" b st oth ck s None] assms
  by (auto simp: begin_run_def start_workers_def cycle_synced_def round_of_def prefix_of_def)

end
