(* ===== verification/Straggler.thy ===== *)
theory Straggler
  imports NvrxPrelude "HOL-Library.Sublist"
begin

text \<open>
  Straggler detection (\<open>attribution/straggler\<close>): the timing of user sections and kernels on each rank
  (\<open>straggler.py\<close>), the names all ranks agree on (\<open>name_mapper.py\<close>), the performance scores and the
  report (\<open>reporting.py\<close>), and the interval between reports (\<open>interval_tracker.py\<close>). What the ranks do
  together is one function on the list of all ranks: a collective of \<open>dist_utils.py\<close> is a function of
  what every rank brings. A number is a real, and None is NaN; rounding to 32 bits is not modelled.
  A collective that the ranks do not enter alike, or that one of them misses because it raised, ends
  the report of all of them with the error.
\<close>

type_synonym number = "real option"

datatype straggler_error = ZeroDivision | KeyMissing string | IdMissing int | RankMissing int | AssertionFailed
  | CollectiveMismatch | IntOverflow

section \<open>Statistics\<close>

record summary =
  st_min :: real
  st_max :: real
  st_med :: real
  st_avg :: real
  st_std :: number
  st_num :: nat

text \<open>\<open>torch.median\<close> returns the lower of the two middle values.\<close>

definition lower_median :: "real list \<Rightarrow> real" where
  "lower_median xs = sort xs ! ((length xs - 1) div 2)"

definition mean :: "real list \<Rightarrow> real" where
  "mean xs = sum_list xs / real (length xs)"

definition unbiased_std :: "real list \<Rightarrow> real" where
  "unbiased_std xs = sqrt (sum_list (map (\<lambda>x. (x - mean xs)\<^sup>2) xs) / real (length xs - 1))"

definition times_summary :: "real list \<Rightarrow> summary" where
  "times_summary xs =
     \<lparr>st_min = Min (set xs), st_max = Max (set xs), st_med = lower_median xs, st_avg = mean xs,
      st_std = (if length xs > 1 then Some (unbiased_std xs) else None), st_num = length xs\<rparr>"

section \<open>Timed sections\<close>

record custom_section =
  cs_name :: string
  cs_location :: string
  cs_entries :: nat
  cs_elapsed :: "real list"

definition max_elapseds_len :: nat where "max_elapseds_len = 8192"

definition append_maxlen :: "nat \<Rightarrow> 'a \<Rightarrow> 'a list \<Rightarrow> 'a list" where
  "append_maxlen n x xs = (let ys = xs @ [x] in drop (length ys - n) ys)"

text \<open>
  One pass through \<open>detection_section\<close>: \<open>elapsed\<close> is the time its body took, None when it raised.
\<close>

definition detection_section ::
  "nat \<Rightarrow> string \<Rightarrow> string \<Rightarrow> real option \<Rightarrow> (string, custom_section) dict
    \<Rightarrow> (straggler_error + unit) \<times> (string, custom_section) dict" where
  "detection_section profiling_interval name location elapsed sections =
     (let c = (case map_of sections name of
                 Some c \<Rightarrow> c
               | None \<Rightarrow> \<lparr>cs_name = name, cs_location = location, cs_entries = 0, cs_elapsed = []\<rparr>)
      in if profiling_interval = 0 then (Inl ZeroDivision, AList.update name c sections)
         else let profile_this_entry = (cs_entries c mod profiling_interval = 0);
                  c = c\<lparr>cs_entries := cs_entries c + 1\<rparr>;
                  c = (case elapsed of
                         Some t \<Rightarrow>
                           if profile_this_entry
                           then c\<lparr>cs_elapsed := append_maxlen max_elapseds_len t (cs_elapsed c)\<rparr> else c
                       | None \<Rightarrow> c)
              in (Inr (), AList.update name c sections))"

definition get_section_summaries :: "(string, custom_section) dict \<Rightarrow> (string, summary) dict" where
  "get_section_summaries sections =
     map (\<lambda>(name, c). (name, times_summary (cs_elapsed c))) (filter (\<lambda>(name, c). cs_elapsed c \<noteq> []) sections)"

definition reset_sections_elapseds :: "(string, custom_section) dict \<Rightarrow> (string, custom_section) dict" where
  "reset_sections_elapseds sections = map (\<lambda>(name, c). (name, c\<lparr>cs_elapsed := []\<rparr>)) sections"

section \<open>Wrapping callables\<close>

text \<open>
  The attributes that hold the callables, by id: an original function, or the wrapper that times
  what it wraps in a section of that name. A call of \<open>wrap_callables\<close> starts a new collection of
  originals.
\<close>

datatype 'f callable = Original 'f | Wrapper string "'f callable"

record 'f callables =
  ca_original_callables :: "(string, 'f callable) dict"
  ca_attributes :: "string \<Rightarrow> 'f callable"

definition wrap_callable :: "string \<Rightarrow> 'f callables \<Rightarrow> 'f callables" where
  "wrap_callable i c =
     c\<lparr>ca_original_callables := AList.update i (ca_attributes c i) (ca_original_callables c),
       ca_attributes := (ca_attributes c)(i := Wrapper i (ca_attributes c i))\<rparr>"

definition wrap_callables :: "string list \<Rightarrow> 'f callables \<Rightarrow> 'f callables" where
  "wrap_callables ids c = fold wrap_callable ids (c\<lparr>ca_original_callables := []\<rparr>)"

definition restore_original_callables :: "'f callables \<Rightarrow> 'f callables" where
  "restore_original_callables c =
     c\<lparr>ca_attributes := fold (\<lambda>(i, f) attributes. attributes(i := f)) (ca_original_callables c) (ca_attributes c)\<rparr>"

section \<open>Names all ranks agree on\<close>

record name_mapper =
  nm_kernel_name_to_id :: "(string, int) dict"
  nm_id_to_kernel_name :: "(int, string) dict"
  nm_section_name_to_id :: "(string, int) dict"
  nm_id_to_section_name :: "(int, string) dict"
  nm_kernel_counter :: int
  nm_section_counter :: int

definition new_name_mapper :: name_mapper where
  "new_name_mapper =
     \<lparr>nm_kernel_name_to_id = [], nm_id_to_kernel_name = [], nm_section_name_to_id = [], nm_id_to_section_name = [],
      nm_kernel_counter = 0, nm_section_counter = 0\<rparr>"

definition has_all_names :: "string list \<Rightarrow> string list \<Rightarrow> name_mapper \<Rightarrow> bool" where
  "has_all_names kernel_names section_names m \<longleftrightarrow>
     list_all (\<lambda>n. map_of (nm_kernel_name_to_id m) n \<noteq> None) kernel_names
   \<and> list_all (\<lambda>n. map_of (nm_section_name_to_id m) n \<noteq> None) section_names"

definition assign_kernel_id :: "string \<Rightarrow> name_mapper \<Rightarrow> name_mapper" where
  "assign_kernel_id name m =
     (if map_of (nm_kernel_name_to_id m) name = None then
        m\<lparr>nm_kernel_name_to_id := AList.update name (nm_kernel_counter m) (nm_kernel_name_to_id m),
          nm_id_to_kernel_name := AList.update (nm_kernel_counter m) name (nm_id_to_kernel_name m),
          nm_kernel_counter := nm_kernel_counter m + 1\<rparr>
      else m)"

definition assign_section_id :: "string \<Rightarrow> name_mapper \<Rightarrow> name_mapper" where
  "assign_section_id name m =
     (if map_of (nm_section_name_to_id m) name = None then
        m\<lparr>nm_section_name_to_id := AList.update name (nm_section_counter m) (nm_section_name_to_id m),
          nm_id_to_section_name := AList.update (nm_section_counter m) name (nm_id_to_section_name m),
          nm_section_counter := nm_section_counter m + 1\<rparr>
      else m)"

text \<open>All ranks bring their kernel and section names.\<close>

definition gather_and_assign_ids :: "(name_mapper \<times> string list \<times> string list) list \<Rightarrow> name_mapper list" where
  "gather_and_assign_ids world =
     (let need_gather = \<not> list_all (\<lambda>(m, kernels, sections). has_all_names kernels sections m) world;
          gathered_sections = concat (map (\<lambda>(m, kernels, sections). sections) world);
          gathered_kernels = concat (map (\<lambda>(m, kernels, sections). kernels) world)
      in map (\<lambda>(m, _). if need_gather
                then fold assign_kernel_id gathered_kernels (fold assign_section_id gathered_sections m)
                else m) world)"

definition get_kernel_id :: "name_mapper \<Rightarrow> string \<Rightarrow> straggler_error + int" where
  "get_kernel_id m name = res_lookup (KeyMissing name) (nm_kernel_name_to_id m) name"

definition get_kernel_name :: "name_mapper \<Rightarrow> int \<Rightarrow> straggler_error + string" where
  "get_kernel_name m i = res_lookup (IdMissing i) (nm_id_to_kernel_name m) i"

definition get_section_id :: "name_mapper \<Rightarrow> string \<Rightarrow> straggler_error + int" where
  "get_section_id m name = res_lookup (KeyMissing name) (nm_section_name_to_id m) name"

definition get_section_name :: "name_mapper \<Rightarrow> int \<Rightarrow> straggler_error + string" where
  "get_section_name m i = res_lookup (IdMissing i) (nm_id_to_section_name m) i"

section \<open>Scores\<close>

definition divide_by :: "number \<Rightarrow> real \<Rightarrow> straggler_error + number" where
  "divide_by x d = (if d = 0 then Inl ZeroDivision else Inr (map_option (\<lambda>x. x / d) x))"

text \<open>
  The reference of a score. The code's references of individual scores are default dictionaries;
  every name that is asked for has just been entered into them.
\<close>

definition compute_sections_perf_scores ::
  "(string, summary) dict \<Rightarrow> (string, number) dict \<Rightarrow> straggler_error + (string, number) dict" where
  "compute_sections_perf_scores summaries reference =
     res_map (\<lambda>(name, y). res_bind (res_lookup (KeyMissing name) reference name)
       (\<lambda>ref. res_bind (divide_by ref (st_med y)) (\<lambda>score. Inr (name, score)))) summaries"

fun gpu_score_loop ::
  "(string, summary) dict \<Rightarrow> (string, number) dict \<Rightarrow> real \<Rightarrow> real \<Rightarrow> nat \<Rightarrow> straggler_error + (real \<times> real \<times> nat)" where
  "gpu_score_loop [] reference scores weights common = Inr (scores, weights, common)"
| "gpu_score_loop ((name, y) # ys) reference scores weights common =
     res_bind (res_lookup (KeyMissing name) reference name) (\<lambda>ref.
       case ref of
         None \<Rightarrow> gpu_score_loop ys reference scores weights common
       | Some ref \<Rightarrow>
           if st_med y = 0 then Inl ZeroDivision
           else let weight = real (st_num y) * st_avg y
                in gpu_score_loop ys reference (scores + ref / st_med y * weight) (weights + weight) (common + 1))"

definition compute_gpu_perf_score :: "(string, summary) dict \<Rightarrow> (string, number) dict \<Rightarrow> straggler_error + number" where
  "compute_gpu_perf_score summaries reference =
     (if summaries = [] then Inr None
      else res_bind (gpu_score_loop summaries reference 0 0 0) (\<lambda>(scores, weights, common).
        if common > 0 then divide_by (Some scores) weights else Inr None))"

definition filter_out_nccl_kernels :: "(string, summary) dict \<Rightarrow> (string, summary) dict" where
  "filter_out_nccl_kernels kernels = filter (\<lambda>(name, y). \<not> sublist ''ncclDev'' name) kernels"

section \<open>Best times\<close>

text \<open>The packed medians of one rank, with -1 where it has none, and what the minimum over all ranks says.\<close>

fun put_medians :: "(string \<Rightarrow> straggler_error + int) \<Rightarrow> (string, summary) dict \<Rightarrow> real list \<Rightarrow> straggler_error + real list" where
  "put_medians idx [] tensor = Inr tensor"
| "put_medians idx ((name, y) # ys) tensor =
     res_bind (idx name) (\<lambda>i.
       if nat i < length tensor then put_medians idx ys (tensor[nat i := st_med y]) else Inl (IdMissing i))"

definition pack_times :: "name_mapper \<Rightarrow> (string, summary) dict \<Rightarrow> (string, summary) dict \<Rightarrow> straggler_error + real list" where
  "pack_times m kernels sections =
     res_bind (put_medians (get_kernel_id m) kernels
         (replicate (nat (nm_kernel_counter m + nm_section_counter m)) (-1)))
       (put_medians (\<lambda>s. res_bind (get_section_id m s) (\<lambda>i. Inr (nm_kernel_counter m + i))) sections)"

definition all_reduce_min :: "real list list \<Rightarrow> straggler_error + real list" where
  "all_reduce_min ts =
     (let n = (case ts of [] \<Rightarrow> 0 | t # _ \<Rightarrow> length t)
      in if list_all (\<lambda>t. length t = n) ts then Inr (map (\<lambda>i. Min (set (map (\<lambda>t. t ! i) ts))) [0..<n])
         else Inl CollectiveMismatch)"

definition unpack_times ::
  "(int \<Rightarrow> straggler_error + string) \<Rightarrow> int \<Rightarrow> int \<Rightarrow> real list \<Rightarrow> straggler_error + (string, number) dict" where
  "unpack_times get_name offset n tensor =
     res_bind (res_map (\<lambda>i. res_bind (get_name i) (\<lambda>name.
         let val = tensor ! nat (offset + i) in Inr (name, if val \<ge> 0 then Some val else None))) [0..n - 1])
       (\<lambda>entries. Inr (fold (\<lambda>(name, val). AList.update name val) entries []))"

definition unpack_min_times ::
  "name_mapper \<Rightarrow> real list \<Rightarrow> straggler_error + (string, number) dict \<times> (string, number) dict" where
  "unpack_min_times m tensor =
     res_bind (unpack_times (get_kernel_name m) 0 (nm_kernel_counter m) tensor) (\<lambda>kernels.
     res_bind (unpack_times (get_section_name m) (nm_kernel_counter m) (nm_section_counter m) tensor) (\<lambda>sections.
       Inr (kernels, sections)))"

definition update_min_times :: "(string, summary) dict \<Rightarrow> (string, real) dict \<Rightarrow> (string, real) dict" where
  "update_min_times summaries best =
     fold (\<lambda>(name, y) best. AList.update name
        (case map_of best name of None \<Rightarrow> st_med y | Some b \<Rightarrow> min b (st_med y)) best) summaries best"

definition as_reference :: "(string, real) dict \<Rightarrow> (string, number) dict" where
  "as_reference best = map (\<lambda>(name, t). (name, Some t)) best"

section \<open>Packing the scores of a rank\<close>

definition scores_to_tensor ::
  "name_mapper \<Rightarrow> number \<Rightarrow> (string, number) dict \<Rightarrow> number \<Rightarrow> (string, number) dict \<Rightarrow> straggler_error + number list" where
  "scores_to_tensor m gpu_indiv sections_indiv gpu_rel sections_rel =
     res_bind (res_map (get_section_name m) [0..nm_section_counter m - 1]) (\<lambda>names.
       let score = (\<lambda>d name. case map_of d name of None \<Rightarrow> None | Some x \<Rightarrow> x)
       in Inr ([gpu_indiv, gpu_rel] @ map (score sections_indiv) names @ map (score sections_rel) names))"

definition scores_from_tensor ::
  "name_mapper \<Rightarrow> number list \<Rightarrow> straggler_error + number \<times> (string, number) dict \<times> number \<times> (string, number) dict" where
  "scores_from_tensor m tensor =
     (let num_sections = (int (length tensor) - 2) div 2
      in if num_sections \<noteq> nm_section_counter m then Inl AssertionFailed
         else res_bind (res_map (get_section_name m) [0..num_sections - 1]) (\<lambda>names.
           Inr (tensor ! 0,
                fold (\<lambda>(i, name). AList.update name (tensor ! (2 + i))) (zip [0..<length names] names) [],
                tensor ! 1,
                fold (\<lambda>(i, name). AList.update name (tensor ! (2 + nat num_sections + i))) (zip [0..<length names] names) [])))"

section \<open>The report\<close>

record straggler_report =
  re_gpu_relative :: "(int, number) dict"
  re_section_relative :: "(string, (int, number) dict) dict"
  re_gpu_individual :: "(int, number) dict"
  re_section_individual :: "(string, (int, number) dict) dict"
  re_rank_to_node :: "(int, string) dict"
  re_section_summaries :: "(string, summary) dict"
  re_kernel_summaries :: "(string, summary) dict"
  re_rank :: int

definition straggler_id :: "(int, string) dict \<Rightarrow> int \<Rightarrow> straggler_error + int \<times> string" where
  "straggler_id nodes r = res_bind (res_lookup (RankMissing r) nodes r) (\<lambda>node. Inr (r, node))"

definition below_threshold :: "(int, string) dict \<Rightarrow> real \<Rightarrow> (int, number) dict \<Rightarrow> straggler_error + (int \<times> string) set" where
  "below_threshold nodes threshold scores =
     res_bind (res_map (\<lambda>(r, d). straggler_id nodes r)
        (filter (\<lambda>(r, d). case d of None \<Rightarrow> False | Some x \<Rightarrow> x < threshold) scores)) (\<lambda>ids. Inr (set ids))"

definition sections_below_threshold ::
  "(int, string) dict \<Rightarrow> real \<Rightarrow> (string, (int, number) dict) dict \<Rightarrow> straggler_error + (string, (int \<times> string) set) dict" where
  "sections_below_threshold nodes threshold sections =
     res_bind (res_map (\<lambda>(name, scores). res_bind (below_threshold nodes threshold scores) (\<lambda>ids. Inr (name, ids))) sections)
       (\<lambda>found. Inr (filter (\<lambda>(name, ids). ids \<noteq> {}) found))"

record stragglers =
  sg_gpus_relative :: "(int \<times> string) set"
  sg_gpus_individual :: "(int \<times> string) set"
  sg_sections_relative :: "(string, (int \<times> string) set) dict"
  sg_sections_individual :: "(string, (int \<times> string) set) dict"

definition identify_stragglers :: "real \<Rightarrow> real \<Rightarrow> real \<Rightarrow> real \<Rightarrow> straggler_report \<Rightarrow> straggler_error + stragglers" where
  "identify_stragglers gpu_rel section_rel gpu_indiv section_indiv p =
     res_bind (below_threshold (re_rank_to_node p) gpu_rel (re_gpu_relative p)) (\<lambda>gr.
     res_bind (below_threshold (re_rank_to_node p) gpu_indiv (re_gpu_individual p)) (\<lambda>gi.
     res_bind (sections_below_threshold (re_rank_to_node p) section_rel (re_section_relative p)) (\<lambda>sr.
     res_bind (sections_below_threshold (re_rank_to_node p) section_indiv (re_section_individual p)) (\<lambda>si.
       Inr \<lparr>sg_gpus_relative = gr, sg_gpus_individual = gi, sg_sections_relative = sr, sg_sections_individual = si\<rparr>))))"

section \<open>The report generators of all ranks\<close>

text \<open>The arguments that every rank passes alike.\<close>

record score_config =
  sc_relative :: bool
  sc_individual :: bool
  sc_gather_on_rank0 :: bool

record reporter =
  rp_rank :: int
  rp_node_name :: string
  rp_min_kernel_times :: "(string, real) dict"
  rp_min_section_times :: "(string, real) dict"
  rp_name_mapper :: name_mapper
  rp_rank_to_node :: "(int, string) dict"

definition new_reporter :: "int \<Rightarrow> string \<Rightarrow> reporter" where
  "new_reporter rank node_name =
     \<lparr>rp_rank = rank, rp_node_name = node_name, rp_min_kernel_times = [], rp_min_section_times = [],
      rp_name_mapper = new_name_mapper, rp_rank_to_node = []\<rparr>"

definition maybe_gather_rank_to_node :: "bool \<Rightarrow> reporter list \<Rightarrow> straggler_error + reporter list" where
  "maybe_gather_rank_to_node gather rs =
     (if \<not> gather then
        Inr (map (\<lambda>p. if rp_rank_to_node p = [] then p\<lparr>rp_rank_to_node := [(rp_rank p, rp_node_name p)]\<rparr> else p) rs)
      else if list_all (\<lambda>p. rp_rank_to_node p = []) rs then
        let gathered = fold (\<lambda>p. AList.update (rp_rank p) (rp_node_name p)) rs []
        in Inr (map (\<lambda>p. p\<lparr>rp_rank_to_node := gathered\<rparr>) rs)
      else if list_all (\<lambda>p. rp_rank_to_node p \<noteq> []) rs then Inr rs
      else Inl CollectiveMismatch)"

text \<open>What a rank brings to a report: its generator, its kernels and its sections.\<close>

type_synonym rank_input = "reporter \<times> (string, summary) dict \<times> (string, summary) dict"
type_synonym rank_scores = "number \<times> (string, number) dict"

definition update_local_min_times :: "rank_input \<Rightarrow> reporter" where
  "update_local_min_times = (\<lambda>(p, kernels, sections).
     p\<lparr>rp_min_kernel_times := update_min_times kernels (rp_min_kernel_times p),
       rp_min_section_times := update_min_times sections (rp_min_section_times p)\<rparr>)"

definition individual_scores :: "bool \<Rightarrow> rank_input \<Rightarrow> straggler_error + reporter \<times> rank_scores" where
  "individual_scores computing = (\<lambda>(p, kernels, sections).
     if computing then
       let p = update_local_min_times (p, kernels, sections)
       in res_bind (compute_gpu_perf_score kernels (as_reference (rp_min_kernel_times p))) (\<lambda>gpu.
          res_bind (compute_sections_perf_scores sections (as_reference (rp_min_section_times p))) (\<lambda>ss.
            Inr (p, gpu, ss)))
     else Inr (p, None, []))"

definition rank_relative_scores :: "real list \<Rightarrow> rank_input \<Rightarrow> straggler_error + rank_scores" where
  "rank_relative_scores tensor = (\<lambda>(p, kernels, sections).
     res_bind (unpack_min_times (rp_name_mapper p) tensor) (\<lambda>(min_kernels, min_sections).
     res_bind (compute_gpu_perf_score kernels min_kernels) (\<lambda>gpu.
     res_bind (compute_sections_perf_scores sections min_sections) (\<lambda>ss. Inr (gpu, ss)))))"

definition relative_scores :: "bool \<Rightarrow> rank_input list \<Rightarrow> straggler_error + rank_scores list" where
  "relative_scores computing world =
     (if computing then
        res_bind (res_map (\<lambda>(p, kernels, sections). pack_times (rp_name_mapper p) kernels sections) world) (\<lambda>packed.
        res_bind (all_reduce_min packed) (\<lambda>tensor. res_map (rank_relative_scores tensor) world))
      else Inr (map (\<lambda>_. (None, [])) world))"

text \<open>Rank 0 turns the tensors of all ranks into results by rank.\<close>

definition add_rank_scores ::
  "int \<Rightarrow> (string, number) dict \<Rightarrow> (string, (int, number) dict) dict \<Rightarrow> (string, (int, number) dict) dict" where
  "add_rank_scores r scores res =
     fold (\<lambda>(name, x) res. AList.update name
       (AList.update r x (case map_of res name of None \<Rightarrow> [] | Some d \<Rightarrow> d)) res) scores res"

definition collect_rank ::
  "score_config \<Rightarrow> int \<Rightarrow> number \<times> (string, number) dict \<times> number \<times> (string, number) dict \<Rightarrow> straggler_report \<Rightarrow> straggler_report" where
  "collect_rank cfg r = (\<lambda>(gi, si, gr, sr) p.
     let p = (if sc_individual cfg
              then p\<lparr>re_gpu_individual := AList.update r gi (re_gpu_individual p),
                     re_section_individual := add_rank_scores r si (re_section_individual p)\<rparr> else p)
     in if sc_relative cfg
        then p\<lparr>re_gpu_relative := AList.update r gr (re_gpu_relative p),
               re_section_relative := add_rank_scores r sr (re_section_relative p)\<rparr> else p)"

fun collect_ranks ::
  "score_config \<Rightarrow> name_mapper \<Rightarrow> int \<Rightarrow> number list list \<Rightarrow> straggler_report \<Rightarrow> straggler_error + straggler_report" where
  "collect_ranks cfg m r [] p = Inr p"
| "collect_ranks cfg m r (t # ts) p =
     res_bind (scores_from_tensor m t) (\<lambda>x. collect_ranks cfg m (r + 1) ts (collect_rank cfg r x p))"

definition empty_report :: "rank_input \<Rightarrow> straggler_report" where
  "empty_report = (\<lambda>(p, kernels, sections).
     \<lparr>re_gpu_relative = [], re_section_relative = [], re_gpu_individual = [], re_section_individual = [],
      re_rank_to_node = rp_rank_to_node p, re_section_summaries = sections, re_kernel_summaries = kernels,
      re_rank = rp_rank p\<rparr>)"

definition gathered_reports ::
  "score_config \<Rightarrow> rank_input list \<Rightarrow> rank_scores list \<Rightarrow> rank_scores list \<Rightarrow> straggler_error + straggler_report option list" where
  "gathered_reports cfg world indiv rel =
     res_bind (res_map (\<lambda>((p, _), (gi, si), (gr, sr)). scores_to_tensor (rp_name_mapper p) gi si gr sr)
         (zip world (zip indiv rel))) (\<lambda>tensors.
       if \<not> list_all (\<lambda>t. length t = length (hd tensors)) tensors then Inl CollectiveMismatch
       else case world of
         [] \<Rightarrow> Inr []
       | x # xs \<Rightarrow> res_bind (collect_ranks cfg (rp_name_mapper (fst x)) 0 tensors (empty_report x))
           (\<lambda>p. Inr (Some p # map (\<lambda>_. None) xs)))"

definition local_report :: "score_config \<Rightarrow> rank_input \<times> rank_scores \<times> rank_scores \<Rightarrow> straggler_report" where
  "local_report cfg = (\<lambda>((p, kernels, sections), (gi, si), (gr, sr)).
     let e = empty_report (p, kernels, sections);
         e = (if sc_individual cfg
              then e\<lparr>re_gpu_individual := [(rp_rank p, gi)],
                     re_section_individual := map (\<lambda>(name, x). (name, [(rp_rank p, x)])) si\<rparr> else e)
     in if sc_relative cfg
        then e\<lparr>re_gpu_relative := [(rp_rank p, gr)],
               re_section_relative := map (\<lambda>(name, x). (name, [(rp_rank p, x)])) sr\<rparr> else e)"

text \<open>
  \<open>generate_report\<close> on every rank. The list has, for rank r at place r, the generator and the
  summaries of its sections and kernels; the result is what the generators become and the report of
  each rank.
\<close>

definition generate_reports ::
  "score_config \<Rightarrow> (reporter \<times> (string, summary) dict \<times> (string, summary) dict) list
    \<Rightarrow> straggler_error + reporter list \<times> straggler_report option list" where
  "generate_reports cfg inputs =
     (let rs = map (\<lambda>(r, p, _). p\<lparr>rp_rank := int r\<rparr>) (zip [0..<length inputs] inputs);
          kernels = map (\<lambda>(_, sections, kernels). filter_out_nccl_kernels kernels) inputs;
          sections = map (\<lambda>(_, sections, kernels). sections) inputs
      in res_bind (maybe_gather_rank_to_node (sc_gather_on_rank0 cfg) rs) (\<lambda>rs.
        let names = zip (map (map fst) kernels) (map (map fst) sections);
            mappers = (if sc_relative cfg \<or> sc_gather_on_rank0 cfg
                       then gather_and_assign_ids (zip (map rp_name_mapper rs) names) else map rp_name_mapper rs);
            rs = map (\<lambda>(p, m). p\<lparr>rp_name_mapper := m\<rparr>) (zip rs mappers)
        in res_bind (res_map (individual_scores (sc_individual cfg)) (zip rs (zip kernels sections))) (\<lambda>indiv.
        let rs = map fst indiv; world = zip rs (zip kernels sections)
        in res_bind (relative_scores (sc_relative cfg) world) (\<lambda>rel.
        res_bind (if sc_gather_on_rank0 cfg then gathered_reports cfg world (map snd indiv) rel
                  else Inr (map (\<lambda>x. Some (local_report cfg x)) (zip world (zip (map snd indiv) rel)))) (\<lambda>reports.
          Inr (rs, reports))))))"

section \<open>The interval between reports\<close>

record interval_tracker =
  it_time_interval :: real
  it_current_iter :: nat
  it_iter_interval :: "int option"
  it_prev_start :: "real option"
  it_step_times :: "real list"
  it_profiling_interval :: int

definition estimation_iters :: nat where "estimation_iters = 16"

definition new_interval_tracker :: "real \<Rightarrow> int \<Rightarrow> interval_tracker" where
  "new_interval_tracker time_interval profiling_interval =
     \<lparr>it_time_interval = time_interval, it_current_iter = 0, it_iter_interval = None, it_prev_start = None,
      it_step_times = [], it_profiling_interval = profiling_interval\<rparr>"

text \<open>One call of \<open>iter_increase\<close> up to the collective, with its two clock readings.\<close>

definition iter_begin :: "real \<Rightarrow> interval_tracker \<Rightarrow> interval_tracker" where
  "iter_begin now t =
     (let t = t\<lparr>it_current_iter := it_current_iter t + 1\<rparr>
      in if it_iter_interval t \<noteq> None then t
         else case it_prev_start t of
                None \<Rightarrow> t
              | Some start \<Rightarrow> t\<lparr>it_step_times := it_step_times t @ [now - start]\<rparr>)"

definition must_gather :: "interval_tracker \<Rightarrow> bool" where
  "must_gather t \<longleftrightarrow> it_iter_interval t = None \<and> it_prev_start t \<noteq> None \<and> length (it_step_times t) = estimation_iters"

definition rank_interval :: "interval_tracker \<Rightarrow> straggler_error + real" where
  "rank_interval t =
     (if lower_median (it_step_times t) = 0 then Inl IntOverflow
      else Inr (it_time_interval t / lower_median (it_step_times t)))"

text \<open>
  The call on all ranks: those that have measured enough steps reduce their intervals to the
  maximum. \<open>int\<close> of a float truncates towards zero.
\<close>

definition trunc :: "real \<Rightarrow> int" where
  "trunc x = (if x \<ge> 0 then \<lfloor>x\<rfloor> else \<lceil>x\<rceil>)"

definition set_interval :: "real \<Rightarrow> interval_tracker \<Rightarrow> interval_tracker" where
  "set_interval gathered t =
     t\<lparr>it_iter_interval := Some (trunc (max gathered (real_of_int (it_profiling_interval t)))), it_step_times := []\<rparr>"

definition iter_end :: "real \<Rightarrow> interval_tracker \<Rightarrow> interval_tracker \<Rightarrow> interval_tracker" where
  "iter_end now before t = (if it_iter_interval before = None then t\<lparr>it_prev_start := Some now\<rparr> else t)"

definition iter_increase :: "(real \<times> real) list \<Rightarrow> interval_tracker list \<Rightarrow> straggler_error + interval_tracker list" where
  "iter_increase clocks ts =
     (let begun = map (\<lambda>((now, _), t). iter_begin now t) (zip clocks ts);
          finish = (\<lambda>ts'. map (\<lambda>((_, now), before, t). iter_end now before t) (zip clocks (zip ts ts')))
      in if list_all (\<lambda>t. \<not> must_gather t) begun then Inr (finish begun)
         else if list_all must_gather begun then
           res_bind (res_map rank_interval begun) (\<lambda>xs. Inr (finish (map (set_interval (Max (set xs))) begun)))
         else Inl CollectiveMismatch)"

definition is_interval_elapsed :: "interval_tracker \<Rightarrow> straggler_error + bool" where
  "is_interval_elapsed t =
     (case it_iter_interval t of
        None \<Rightarrow> Inr False
      | Some n \<Rightarrow> if n = 0 then Inl ZeroDivision else Inr (int (it_current_iter t) mod n = 0))"

end
