(* ===== verification/StragglerProps.thy ===== *)
theory StragglerProps
  imports Straggler
begin

text \<open>
  Correctness of the straggler detection of \<open>Straggler\<close>: the ranks agree on the ids of all names, the
  reduction computes the best median of what every rank ran, scores lie between 0 and 1, the report
  of rank 0 identifies exactly the ranks that are too slow, best times are those of all reports so
  far, and all ranks report in the same iterations.
\<close>

section \<open>A name mapper is a list of kernel names and a list of section names\<close>

definition ids_of :: "string list \<Rightarrow> (string, int) dict" where
  "ids_of ks = zip ks (map int [0..<length ks])"

definition names_of :: "string list \<Rightarrow> (int, string) dict" where
  "names_of ks = zip (map int [0..<length ks]) ks"

definition mapper_of :: "string list \<Rightarrow> string list \<Rightarrow> name_mapper" where
  "mapper_of ks ss =
     \<lparr>nm_kernel_name_to_id = ids_of ks, nm_id_to_kernel_name = names_of ks, nm_section_name_to_id = ids_of ss,
      nm_id_to_section_name = names_of ss, nm_kernel_counter = int (length ks), nm_section_counter = int (length ss)\<rparr>"

lemma mapper_of_simps [simp]:
  "nm_kernel_name_to_id (mapper_of ks ss) = ids_of ks" "nm_id_to_kernel_name (mapper_of ks ss) = names_of ks"
  "nm_section_name_to_id (mapper_of ks ss) = ids_of ss" "nm_id_to_section_name (mapper_of ks ss) = names_of ss"
  "nm_kernel_counter (mapper_of ks ss) = int (length ks)" "nm_section_counter (mapper_of ks ss) = int (length ss)"
  by (simp_all add: mapper_of_def)

lemma ids_lookup: "map_of (ids_of ks) k = None \<longleftrightarrow> k \<notin> set ks"
  by (simp add: ids_of_def map_of_zip_is_None)

lemma ids_at: "distinct ks \<Longrightarrow> i < length ks \<Longrightarrow> map_of (ids_of ks) (ks ! i) = Some (int i)"
  unfolding ids_of_def by (subst map_of_zip_nth) auto

lemma names_at: "i < length ks \<Longrightarrow> map_of (names_of ks) (int i) = Some (ks ! i)"
  using map_of_zip_nth [of "map int [0..<length ks]" ks i] by (simp add: names_of_def distinct_map)

lemma ids_snoc: "k \<notin> set ks \<Longrightarrow> AList.update k (int (length ks)) (ids_of ks) = ids_of (ks @ [k])"
  by (subst update_new) (auto simp: ids_of_def set_zip)

lemma names_snoc: "AList.update (int (length ks)) k (names_of ks) = names_of (ks @ [k])"
  by (subst update_new) (auto simp: names_of_def set_zip)

definition add_name :: "string \<Rightarrow> string list \<Rightarrow> string list" where
  "add_name k ks = (if k \<in> set ks then ks else ks @ [k])"

lemma assign_names:
  "assign_kernel_id k (mapper_of ks ss) = mapper_of (add_name k ks) ss"
  "assign_section_id s (mapper_of ks ss) = mapper_of ks (add_name s ss)"
  by (auto simp: assign_kernel_id_def assign_section_id_def add_name_def ids_lookup ids_snoc names_snoc)

lemma fold_assign:
  "fold assign_kernel_id names (mapper_of ks ss) = mapper_of (fold add_name names ks) ss"
  "fold assign_section_id names (mapper_of ks ss) = mapper_of ks (fold add_name names ss)"
  by (induction names arbitrary: ks ss) (simp_all add: assign_names)

lemma set_add_names: "set (fold add_name names ks) = set ks \<union> set names"
  by (induction names arbitrary: ks) (auto simp: add_name_def)

lemma distinct_add_names: "distinct ks \<Longrightarrow> distinct (fold add_name names ks)"
  by (induction names arbitrary: ks) (auto simp: add_name_def)

lemma add_names_extends: "\<exists>extra. fold add_name names ks = ks @ extra"
proof (induction names arbitrary: ks)
  case (Cons n names)
  then obtain extra where "fold add_name names (add_name n ks) = add_name n ks @ extra" by blast
  then show ?case by (cases "n \<in> set ks") (simp_all add: add_name_def [abs_def])
qed simp

lemma has_all_names_of:
  "has_all_names kernels sections (mapper_of ks ss) \<longleftrightarrow> set kernels \<subseteq> set ks \<and> set sections \<subseteq> set ss"
  by (auto simp: has_all_names_def list_all_iff ids_lookup)

lemma ids_agree:
  assumes "distinct ks" and "distinct ss"
  shows "\<exists>ks' ss'. distinct (ks @ ks') \<and> distinct (ss @ ss')
    \<and> gather_and_assign_ids (map (\<lambda>(kernels, sections). (mapper_of ks ss, kernels, sections)) names)
      = replicate (length names) (mapper_of (ks @ ks') (ss @ ss'))
    \<and> (\<forall>(kernels, sections) \<in> set names. set kernels \<subseteq> set (ks @ ks') \<and> set sections \<subseteq> set (ss @ ss'))"
proof -
  let ?world = "map (\<lambda>(kernels, sections). (mapper_of ks ss, kernels, sections)) names"
  let ?K = "concat (map fst names)" and ?S = "concat (map snd names)"
  have K: "concat (map (\<lambda>(m, kernels, sections). kernels) ?world) = ?K" "concat (map (\<lambda>(m, kernels, sections). sections) ?world) = ?S"
    by (simp_all add: comp_def case_prod_unfold)
  have c: "map (\<lambda>(m, _). f m) ?world = replicate (length names) (f (mapper_of ks ss))" for f :: "name_mapper \<Rightarrow> name_mapper"
    by (simp add: comp_def case_prod_unfold map_replicate_const)
  show ?thesis
  proof (cases "list_all (\<lambda>(m, kernels, sections). has_all_names kernels sections m) ?world")
    case True
    then have "gather_and_assign_ids ?world = replicate (length names) (mapper_of ks ss)"
      using c [of "\<lambda>m. m"] by (simp add: gather_and_assign_ids_def)
    then show ?thesis
      using True assms by (intro exI [of _ "[]"]) (auto simp: list_all_iff has_all_names_of)
  next
    case False
    obtain ks' ss' where e: "fold add_name ?K ks = ks @ ks'" "fold add_name ?S ss = ss @ ss'" using add_names_extends by metis
    have "gather_and_assign_ids ?world
        = map (\<lambda>(m, _). fold assign_kernel_id ?K (fold assign_section_id ?S m)) ?world"
      using False unfolding gather_and_assign_ids_def K Let_def by simp
    then have "gather_and_assign_ids ?world = replicate (length names) (mapper_of (ks @ ks') (ss @ ss'))"
      unfolding c by (simp add: fold_assign e)
    moreover have "distinct (ks @ ks')" "distinct (ss @ ss')" "set (ks @ ks') = set ks \<union> set ?K" "set (ss @ ss') = set ss \<union> set ?S"
      using set_add_names [of ?K ks] set_add_names [of ?S ss] distinct_add_names [OF assms(1), of ?K]
        distinct_add_names [OF assms(2), of ?S] unfolding e by simp_all
    ultimately show ?thesis by (intro exI [of _ ks'] exI [of _ ss']) (auto simp: case_prod_unfold)
  qed
qed

text \<open>
  C31: All ranks agree on the ids of names. When every rank holds the same mapping, with ids
  counting up from 0, then after any rank brought any names they all hold the same mapping again;
  no id has changed, new ones follow, and every name of every rank has an id.
\<close>

theorem ranks_agree_on_ids:
  assumes "distinct ks" and "distinct ss"
  shows "\<exists>ks' ss'. distinct (ks @ ks') \<and> distinct (ss @ ss')
    \<and> gather_and_assign_ids (map (\<lambda>(kernels, sections). (mapper_of ks ss, kernels, sections)) names)
      = replicate (length names) (mapper_of (ks @ ks') (ss @ ss'))
    \<and> (\<forall>(kernels, sections) \<in> set names. set kernels \<subseteq> set (ks @ ks') \<and> set sections \<subseteq> set (ss @ ss'))"
  by (rule ids_agree [OF assms])

section \<open>The reduction computes best medians\<close>

definition packed :: "(string, summary) dict \<Rightarrow> string \<Rightarrow> real" where
  "packed d k = (case map_of d k of None \<Rightarrow> -1 | Some y \<Rightarrow> st_med y)"

lemma put_medians_nth:
  assumes "distinct ks" and "off + length ks \<le> length t" and "\<And>i. i < length ks \<Longrightarrow> idx (ks ! i) = Inr (int (off + i))"
    and "fst ` set ys \<subseteq> set ks" and "distinct (map fst ys)"
  shows "\<exists>t'. put_medians idx ys t = Inr t' \<and> length t' = length t
    \<and> (\<forall>i < length ks. t' ! (off + i) = (case map_of ys (ks ! i) of None \<Rightarrow> t ! (off + i) | Some y \<Rightarrow> st_med y))
    \<and> (\<forall>j < length t. j < off \<or> off + length ks \<le> j \<longrightarrow> t' ! j = t ! j)"
  using assms(2,4,5)
proof (induction ys arbitrary: t)
  case (Cons x ys)
  obtain n y where x: "x = (n, y)" by fastforce
  then obtain i where i: "i < length ks" "ks ! i = n" using Cons.prems(2) by (auto simp: in_set_conv_nth)
  let ?t = "t[off + i := st_med y]"
  have "nat (int off + int i) = off + i" by simp
  then have p: "put_medians idx (x # ys) t = put_medians idx ys ?t"
    using assms(3) [OF i(1)] i(2) Cons.prems(1) i(1) by (simp add: x)
  have "\<exists>t'. put_medians idx ys ?t = Inr t' \<and> length t' = length ?t
    \<and> (\<forall>i < length ks. t' ! (off + i) = (case map_of ys (ks ! i) of None \<Rightarrow> ?t ! (off + i) | Some y \<Rightarrow> st_med y))
    \<and> (\<forall>j < length ?t. j < off \<or> off + length ks \<le> j \<longrightarrow> t' ! j = ?t ! j)"
    by (rule Cons.IH) (use Cons.prems in \<open>auto simp: x\<close>)
  then obtain t' where t': "put_medians idx ys ?t = Inr t'" "length t' = length t"
    "\<And>i. i < length ks \<Longrightarrow> t' ! (off + i) = (case map_of ys (ks ! i) of None \<Rightarrow> ?t ! (off + i) | Some y \<Rightarrow> st_med y)"
    "\<And>j. j < length t \<Longrightarrow> j < off \<or> off + length ks \<le> j \<Longrightarrow> t' ! j = ?t ! j"
    by (metis length_list_update)
  have "map_of ys n = None" using Cons.prems(3) by (simp add: x map_of_eq_None_iff)
  then have "t' ! (off + k) = (case map_of (x # ys) (ks ! k) of None \<Rightarrow> t ! (off + k) | Some y \<Rightarrow> st_med y)"
    if "k < length ks" for k
    using t'(3) [OF that] that i Cons.prems(1) nth_eq_iff_index_eq [OF assms(1) that i(1)]
    by (cases "k = i") (auto simp: x nth_list_update split: option.split)
  moreover have "t' ! j = t ! j" if "j < length t" "j < off \<or> off + length ks \<le> j" for j
    using t'(4) [OF that] that i(1) by auto
  ultimately show ?case using p t'(1,2) by auto
qed auto

lemma pack_times_of:
  assumes "distinct ks" and "distinct ss" and "fst ` set kernels \<subseteq> set ks" and "fst ` set sections \<subseteq> set ss"
    and "distinct (map fst kernels)" and "distinct (map fst sections)"
  shows "pack_times (mapper_of ks ss) kernels sections = Inr (map (packed kernels) ks @ map (packed sections) ss)"
proof -
  let ?t0 = "replicate (length ks + length ss) (-1) :: real list"
  let ?idx = "\<lambda>s. res_bind (get_section_id (mapper_of ks ss) s) (\<lambda>i. Inr (int (length ks) + i))"
  have k: "get_kernel_id (mapper_of ks ss) (ks ! i) = Inr (int (0 + i))" if "i < length ks" for i
    using ids_at [OF assms(1) that] by (simp add: get_kernel_id_def)
  have s: "?idx (ss ! i) = Inr (int (length ks + i))" if "i < length ss" for i
  proof -
    have "get_section_id (mapper_of ks ss) (ss ! i) = Inr (int i)"
      using ids_at [OF assms(2) that] by (simp add: get_section_id_def)
    then show ?thesis by simp
  qed
  obtain t1 where t1: "put_medians (get_kernel_id (mapper_of ks ss)) kernels ?t0 = Inr t1" "length t1 = length ks + length ss"
    "\<And>i. i < length ks \<Longrightarrow> t1 ! i = packed kernels (ks ! i)"
    "\<And>j. j < length ks + length ss \<Longrightarrow> length ks \<le> j \<Longrightarrow> t1 ! j = -1"
    using put_medians_nth [of ks 0 ?t0, OF assms(1) _ k assms(3,5)]
    by (auto simp: packed_def cong: option.case_cong)
  obtain t2 where t2: "put_medians ?idx sections t1 = Inr t2" "length t2 = length ks + length ss"
    "\<And>i. i < length ss \<Longrightarrow> t2 ! (length ks + i) = packed sections (ss ! i)"
    "\<And>j. j < length ks + length ss \<Longrightarrow> j < length ks \<Longrightarrow> t2 ! j = t1 ! j"
    using put_medians_nth [of ss "length ks" t1, OF assms(2) _ s assms(4,6)] t1(2,4)
    by (auto simp: packed_def cong: option.case_cong)
  have "t2 ! j = (map (packed kernels) ks @ map (packed sections) ss) ! j" if "j < length ks + length ss" for j
    using that t2(3) [of "j - length ks"] t2(4) [of j] t1(3) [of j] by (cases "j < length ks") (auto simp: nth_append)
  then have "t2 = map (packed kernels) ks @ map (packed sections) ss"
    using t2(2) by (intro nth_equalityI) auto
  then show ?thesis
    using t1(1) t2(1) by (simp add: pack_times_def nat_int_add)
qed

lemma all_reduce_rows:
  assumes "xs \<noteq> []"
  shows "all_reduce_min (map (\<lambda>x. map (f x) ks) xs) = Inr (map (\<lambda>k. Min (set (map (\<lambda>x. f x k) xs))) ks)"
proof -
  have "(case map (\<lambda>x. map (f x) ks) xs of [] \<Rightarrow> 0 | t # _ \<Rightarrow> length t) = length ks"
    using assms by (cases xs) simp_all
  moreover have "map (\<lambda>i. Min (set (map (\<lambda>t. t ! i) (map (\<lambda>x. map (f x) ks) xs)))) [0..<length ks]
      = map (\<lambda>k. Min (set (map (\<lambda>x. f x k) xs))) ks"
    by (rule nth_equalityI) (auto simp: comp_def intro!: arg_cong [where f = Min])
  ultimately show ?thesis by (simp add: all_reduce_min_def list_all_iff)
qed

text \<open>The specification: the best median of a name, if every rank has the name.\<close>

definition best_of :: "(string, summary) dict list \<Rightarrow> string \<Rightarrow> number" where
  "best_of ds k = (if list_all (\<lambda>d. map_of d k \<noteq> None) ds
     then Some (Min (set (map (\<lambda>d. st_med (the (map_of d k))) ds))) else None)"

definition medians_ok :: "(string, summary) dict \<Rightarrow> bool" where
  "medians_ok d \<longleftrightarrow> distinct (map fst d) \<and> list_all (\<lambda>(k, y). 0 < st_med y) d"

lemma medians_pos: "medians_ok d \<Longrightarrow> map_of d k = Some y \<Longrightarrow> 0 < st_med y"
  by (auto simp: medians_ok_def list_all_iff dest: map_of_SomeD)

lemma reduced_best:
  assumes "ds \<noteq> []" and "list_all medians_ok ds"
  shows "(if Min (set (map (\<lambda>d. packed d k) ds)) \<ge> 0 then Some (Min (set (map (\<lambda>d. packed d k) ds))) else None) = best_of ds k"
proof (cases "list_all (\<lambda>d. map_of d k \<noteq> None) ds")
  case True
  have p: "packed d k = st_med (the (map_of d k))" "0 < packed d k" if "d \<in> set ds" for d
    using that True assms(2) medians_pos [of d k] by (auto simp: packed_def list_all_iff)
  then have "set (map (\<lambda>d. packed d k) ds) = set (map (\<lambda>d. st_med (the (map_of d k))) ds)" by auto
  moreover have "0 \<le> Min (set (map (\<lambda>d. packed d k) ds))"
    using assms(1) p(2) by (subst Min_ge_iff) (auto simp: less_imp_le)
  ultimately show ?thesis using True by (simp add: best_of_def)
next
  case False
  then obtain d where "d \<in> set ds" "packed d k = -1" by (auto simp: packed_def list_all_iff)
  then have "Min (set (map (\<lambda>d. packed d k) ds)) \<le> -1" by (intro Min_le) force+
  then show ?thesis using False by (simp add: best_of_def)
qed

lemma upto_int: "[0..int n - 1] = map int [0..<n]"
proof (induction n)
  case (Suc n)
  then show ?case using upto_rec2 [of 0 "int n"] by simp
qed simp

lemma unpack_times_of:
  assumes "distinct ks" and "\<And>i. i < length ks \<Longrightarrow> get_name (int i) = Inr (ks ! i)"
    and "\<And>i. i < length ks \<Longrightarrow> tensor ! (off + i) = f (ks ! i)"
  shows "unpack_times get_name (int off) (int (length ks)) tensor
    = Inr (map (\<lambda>k. (k, if f k \<ge> 0 then Some (f k) else None)) ks)"
proof -
  let ?g = "\<lambda>k. if f k \<ge> 0 then Some (f k) else None"
  have e: "nat (int off + int i) = off + i" for i by simp
  have "res_map (\<lambda>i. res_bind (get_name i) (\<lambda>name.
      let val = tensor ! nat (int off + i) in Inr (name, if val \<ge> 0 then Some val else None))) (map int [0..<length ks])
    = Inr (map (\<lambda>k. (k, ?g k)) ks)"
    unfolding res_map_Inr
    by (rule list_all2_all_nthI) (simp_all add: assms(2,3) e Let_def)
  moreover have "fold (\<lambda>(name, val). AList.update name val) (map (\<lambda>k. (k, ?g k)) ks) [] = map (\<lambda>k. (k, ?g k)) ks"
    using fold_update_by_key [of id ks "[]" ?g] assms(1) by (simp add: fold_map comp_def)
  ultimately show ?thesis by (simp add: unpack_times_def upto_int)
qed

section \<open>Scores\<close>

definition kernels_ok :: "(string, summary) dict \<Rightarrow> bool" where
  "kernels_ok d \<longleftrightarrow> medians_ok d \<and> list_all (\<lambda>(k, y). 0 < st_num y \<and> 0 < st_avg y) d"

definition kernel_weight :: "summary \<Rightarrow> real" where
  "kernel_weight y = real (st_num y) * st_avg y"

text \<open>The score of a rank's kernels: the average over those with a reference, weighted by total time.\<close>

definition weighted_score :: "(string \<Rightarrow> number) \<Rightarrow> (string, summary) dict \<Rightarrow> number" where
  "weighted_score ref d =
     (let common = filter (\<lambda>(k, y). ref k \<noteq> None) d
      in if common = [] then None
         else Some ((\<Sum>(k, y) \<leftarrow> common. the (ref k) / st_med y * kernel_weight y) / (\<Sum>(k, y) \<leftarrow> common. kernel_weight y)))"

lemma gpu_loop_of:
  assumes "\<And>k y. (k, y) \<in> set d \<Longrightarrow> map_of reference k = Some (ref k) \<and> st_med y \<noteq> 0"
  shows "gpu_score_loop d reference s w n =
    (let common = filter (\<lambda>(k, y). ref k \<noteq> None) d
     in Inr (s + (\<Sum>(k, y) \<leftarrow> common. the (ref k) / st_med y * kernel_weight y),
             w + (\<Sum>(k, y) \<leftarrow> common. kernel_weight y), n + length common))"
  using assms
proof (induction d arbitrary: s w n)
  case (Cons x d)
  obtain k y where x: "x = (k, y)" by fastforce
  have "map_of reference k = Some (ref k)" "st_med y \<noteq> 0" using Cons.prems [of k y] by (simp_all add: x)
  moreover note Cons.IH [OF Cons.prems]
  ultimately show ?case
    by (cases "ref k") (simp_all add: x res_lookup_def Let_def kernel_weight_def add_ac)
qed simp

lemma sum_list_positive:
  fixes f :: "'a \<Rightarrow> real"
  shows "xs \<noteq> [] \<Longrightarrow> (\<And>x. x \<in> set xs \<Longrightarrow> 0 < f x) \<Longrightarrow> 0 < sum_list (map f xs)"
proof (induction xs)
  case (Cons x xs)
  then show ?case by (cases "xs = []") (auto intro: add_pos_pos)
qed simp

lemma kernel_weight_positive: "kernels_ok d \<Longrightarrow> (k, y) \<in> set d \<Longrightarrow> 0 < kernel_weight y"
  by (auto simp: kernels_ok_def kernel_weight_def list_all_iff)

lemma weights_positive:
  "kernels_ok d \<Longrightarrow> filter P d \<noteq> [] \<Longrightarrow> 0 < (\<Sum>(k, y) \<leftarrow> filter P d. kernel_weight y)"
  by (rule sum_list_positive) (auto dest: kernel_weight_positive)

lemma medians_nonzero: "medians_ok d \<Longrightarrow> (k, y) \<in> set d \<Longrightarrow> 0 < st_med y"
  by (auto simp: medians_ok_def list_all_iff)

lemma gpu_score_of:
  assumes "kernels_ok d" and "\<And>k. k \<in> fst ` set d \<Longrightarrow> map_of reference k = Some (ref k)"
  shows "compute_gpu_perf_score d reference = Inr (weighted_score ref d)"
proof -
  let ?common = "filter (\<lambda>(k, y). ref k \<noteq> None) d"
  have "gpu_score_loop d reference 0 0 0 = Inr (\<Sum>(k, y) \<leftarrow> ?common. the (ref k) / st_med y * kernel_weight y,
      \<Sum>(k, y) \<leftarrow> ?common. kernel_weight y, length ?common)"
    using gpu_loop_of [of d reference ref 0 0 0] assms medians_nonzero [of d]
    by (force simp: kernels_ok_def Let_def)
  moreover have "?common \<noteq> [] \<Longrightarrow> (\<Sum>(k, y) \<leftarrow> ?common. kernel_weight y) \<noteq> 0"
    using weights_positive [OF assms(1)] by (metis less_irrefl)
  ultimately show ?thesis
    by (cases "d = []") (auto simp: compute_gpu_perf_score_def weighted_score_def divide_by_def Let_def)
qed

lemma section_scores_of:
  assumes "medians_ok d" and "\<And>k. k \<in> fst ` set d \<Longrightarrow> map_of reference k = Some (ref k)"
  shows "compute_sections_perf_scores d reference = Inr (map (\<lambda>(k, y). (k, map_option (\<lambda>b. b / st_med y) (ref k))) d)"
proof -
  have "(\<lambda>(name, y). res_bind (res_lookup (KeyMissing name) reference name)
       (\<lambda>ref. res_bind (divide_by ref (st_med y)) (\<lambda>score. Inr (name, score)))) x
     = Inr ((\<lambda>(k, y). (k, map_option (\<lambda>b. b / st_med y) (ref k))) x)" if "x \<in> set d" for x
  proof -
    obtain k y where x: "x = (k, y)" by fastforce
    then have "map_of reference k = Some (ref k)" "st_med y \<noteq> 0"
      using that assms(2) [of k] medians_nonzero [OF assms(1), of k y] by force+
    then show ?thesis by (simp add: x res_lookup_def divide_by_def)
  qed
  then show ?thesis unfolding compute_sections_perf_scores_def by (rule res_map_total)
qed

lemma weighted_score_range:
  assumes "kernels_ok d" and "\<And>k y b. (k, y) \<in> set d \<Longrightarrow> ref k = Some b \<Longrightarrow> 0 < b \<and> b \<le> st_med y"
    and "weighted_score ref d = Some x"
  shows "0 < x \<and> x \<le> 1"
proof -
  let ?common = "filter (\<lambda>(k, y). ref k \<noteq> None) d"
  let ?s = "\<Sum>(k, y) \<leftarrow> ?common. the (ref k) / st_med y * kernel_weight y" and ?w = "\<Sum>(k, y) \<leftarrow> ?common. kernel_weight y"
  have c: "?common \<noteq> []" "x = ?s / ?w"
    using assms(3) by (auto simp: weighted_score_def Let_def split: if_splits)
  have t: "0 < the (ref k) / st_med y * kernel_weight y \<and> the (ref k) / st_med y * kernel_weight y \<le> kernel_weight y"
    if y: "(k, y) \<in> set ?common" for k y
  proof -
    obtain b where b: "ref k = Some b" "(k, y) \<in> set d" using y by auto
    then have "0 < b" "b \<le> st_med y" "0 < st_med y" "0 < kernel_weight y"
      using assms(2) [OF b(2,1)] kernel_weight_positive [OF assms(1) b(2)] by simp_all
    then show ?thesis using b(1) by (simp add: mult_le_cancel_right1 divide_le_eq)
  qed
  have "?s \<le> ?w" by (rule sum_list_mono) (use t in auto)
  moreover have "0 < ?s" by (rule sum_list_positive [OF c(1)]) (use t in auto)
  ultimately show ?thesis using c(2) by (simp add: divide_le_eq)
qed

section \<open>Relative scores of all ranks\<close>

definition world_ok :: "string list \<Rightarrow> string list \<Rightarrow> rank_input list \<Rightarrow> bool" where
  "world_ok ks ss world \<longleftrightarrow> world \<noteq> [] \<and> distinct ks \<and> distinct ss
     \<and> list_all (\<lambda>(p, kernels, sections). rp_name_mapper p = mapper_of ks ss \<and> kernels_ok kernels \<and> medians_ok sections
         \<and> fst ` set kernels \<subseteq> set ks \<and> fst ` set sections \<subseteq> set ss) world"

definition kernels_of :: "rank_input list \<Rightarrow> (string, summary) dict list" where
  "kernels_of world = map (\<lambda>(p, kernels, sections). kernels) world"

definition sections_of :: "rank_input list \<Rightarrow> (string, summary) dict list" where
  "sections_of world = map (\<lambda>(p, kernels, sections). sections) world"

text \<open>The scores of one rank, given the best medians.\<close>

definition scores_against :: "(string \<Rightarrow> number) \<Rightarrow> (string \<Rightarrow> number) \<Rightarrow> rank_input \<Rightarrow> rank_scores" where
  "scores_against best_kernel best_section = (\<lambda>(p, kernels, sections).
     (weighted_score best_kernel kernels, map (\<lambda>(k, y). (k, map_option (\<lambda>b. b / st_med y) (best_section k))) sections))"

lemma world_okD:
  assumes "world_ok ks ss world" and "(p, kernels, sections) \<in> set world"
  shows "rp_name_mapper p = mapper_of ks ss" "kernels_ok kernels" "medians_ok sections"
    "fst ` set kernels \<subseteq> set ks" "fst ` set sections \<subseteq> set ss"
  using assms(1) by (auto dest!: bspec [OF _ assms(2)] simp: world_ok_def list_all_iff)

lemma world_medians: "world_ok ks ss world \<Longrightarrow> list_all medians_ok (kernels_of world) \<and> list_all medians_ok (sections_of world)"
  by (auto simp: world_ok_def kernels_of_def sections_of_def list_all_iff kernels_ok_def)

lemma packed_world:
  assumes "world_ok ks ss world"
  shows "res_map (\<lambda>(p, kernels, sections). pack_times (rp_name_mapper p) kernels sections) world
    = Inr (map (\<lambda>(p, kernels, sections). map (packed kernels) ks @ map (packed sections) ss) world)"
proof (rule res_map_total)
  fix x assume x: "x \<in> set world"
  obtain p kernels sections where e: "x = (p, kernels, sections)" by (rule prod_cases3)
  note ok = world_okD [OF assms x [unfolded e]]
  have "distinct ks" "distinct ss" using assms by (simp_all add: world_ok_def)
  then show "(\<lambda>(p, kernels, sections). pack_times (rp_name_mapper p) kernels sections) x
      = Inr ((\<lambda>(p, kernels, sections). map (packed kernels) ks @ map (packed sections) ss) x)"
    using ok pack_times_of [of ks ss kernels sections] by (simp add: e kernels_ok_def medians_ok_def)
qed

lemma reduced_world:
  assumes "world_ok ks ss world"
  shows "all_reduce_min (map (\<lambda>(p, kernels, sections). map (packed kernels) ks @ map (packed sections) ss) world)
    = Inr (map (\<lambda>k. Min (set (map (\<lambda>d. packed d k) (kernels_of world)))) ks
         @ map (\<lambda>k. Min (set (map (\<lambda>d. packed d k) (sections_of world)))) ss)"
proof -
  let ?f = "\<lambda>(p, kernels, sections) z. case z of Inl k \<Rightarrow> packed kernels k | Inr s \<Rightarrow> packed sections s"
  have "map (\<lambda>(p, kernels, sections). map (packed kernels) ks @ map (packed sections) ss) world
      = map (\<lambda>x. map (?f x) (map Inl ks @ map Inr ss)) world"
    by (auto simp: case_prod_unfold)
  moreover have "all_reduce_min (map (\<lambda>x. map (?f x) (map Inl ks @ map Inr ss)) world)
      = Inr (map (\<lambda>z. Min (set (map (\<lambda>x. ?f x z) world))) (map Inl ks @ map Inr ss))"
    using assms by (intro all_reduce_rows) (simp add: world_ok_def)
  ultimately show ?thesis
    by (simp add: kernels_of_def sections_of_def comp_def case_prod_unfold)
qed

lemma unpacked_world:
  assumes "world_ok ks ss world"
  shows "unpack_min_times (mapper_of ks ss)
      (map (\<lambda>k. Min (set (map (\<lambda>d. packed d k) (kernels_of world)))) ks
       @ map (\<lambda>k. Min (set (map (\<lambda>d. packed d k) (sections_of world)))) ss)
    = Inr (map (\<lambda>k. (k, best_of (kernels_of world) k)) ks, map (\<lambda>k. (k, best_of (sections_of world) k)) ss)"
proof -
  let ?m = "mapper_of ks ss"
  let ?f = "\<lambda>k. Min (set (map (\<lambda>d. packed d k) (kernels_of world)))"
  let ?g = "\<lambda>k. Min (set (map (\<lambda>d. packed d k) (sections_of world)))"
  let ?t = "map ?f ks @ map ?g ss"
  have d: "distinct ks" "distinct ss" using assms by (simp_all add: world_ok_def)
  have ne: "kernels_of world \<noteq> []" "sections_of world \<noteq> []"
    using assms by (auto simp: world_ok_def kernels_of_def sections_of_def)
  note best = reduced_best [OF ne(1) conjunct1 [OF world_medians [OF assms]]] reduced_best [OF ne(2) conjunct2 [OF world_medians [OF assms]]]
  have "unpack_times (get_kernel_name ?m) (int 0) (int (length ks)) ?t = Inr (map (\<lambda>k. (k, if ?f k \<ge> 0 then Some (?f k) else None)) ks)"
    by (rule unpack_times_of [OF d(1)]) (simp_all add: get_kernel_name_def names_at nth_append)
  moreover have "unpack_times (get_section_name ?m) (int (length ks)) (int (length ss)) ?t
      = Inr (map (\<lambda>k. (k, if ?g k \<ge> 0 then Some (?g k) else None)) ss)"
    by (rule unpack_times_of [OF d(2)]) (simp_all add: get_section_name_def names_at nth_append)
  ultimately show ?thesis
    unfolding unpack_min_times_def mapper_of_simps by (simp only: best res_bind_simps of_nat_0)
qed

lemma relative_scores_of:
  assumes "world_ok ks ss world"
  shows "relative_scores True world
    = Inr (map (scores_against (best_of (kernels_of world)) (best_of (sections_of world))) world)"
proof -
  let ?best = "(map (\<lambda>k. (k, best_of (kernels_of world) k)) ks, map (\<lambda>k. (k, best_of (sections_of world) k)) ss)"
  let ?t = "map (\<lambda>k. Min (set (map (\<lambda>d. packed d k) (kernels_of world)))) ks
       @ map (\<lambda>k. Min (set (map (\<lambda>d. packed d k) (sections_of world)))) ss"
  have look: "k \<in> set xs \<Longrightarrow> map_of (map (\<lambda>k. (k, f k)) xs) k = Some (f k)" for k xs and f :: "string \<Rightarrow> number"
    by (simp add: map_of_map_restrict)
  have "res_map (rank_relative_scores ?t) world
      = Inr (map (scores_against (best_of (kernels_of world)) (best_of (sections_of world))) world)"
  proof (rule res_map_total)
    fix x assume x: "x \<in> set world"
    obtain p kernels sections where e: "x = (p, kernels, sections)" by (rule prod_cases3)
    note ok = world_okD [OF assms x [unfolded e]]
    have "compute_gpu_perf_score kernels (fst ?best) = Inr (weighted_score (best_of (kernels_of world)) kernels)"
      using ok(4) by (intro gpu_score_of [OF ok(2)]) (auto intro!: look)
    moreover have "compute_sections_perf_scores sections (snd ?best)
        = Inr (map (\<lambda>(k, y). (k, map_option (\<lambda>b. b / st_med y) (best_of (sections_of world) k))) sections)"
      using ok(5) by (intro section_scores_of [OF ok(3)]) (auto intro!: look)
    ultimately show "rank_relative_scores ?t x
        = Inr (scores_against (best_of (kernels_of world)) (best_of (sections_of world)) x)"
      unfolding e rank_relative_scores_def scores_against_def prod.case ok(1) unpacked_world [OF assms] res_bind_simps
      by simp
  qed
  then show ?thesis
    unfolding relative_scores_def packed_world [OF assms] reduced_world [OF assms] res_bind_simps by simp
qed

section \<open>The report of rank 0\<close>

definition score_at :: "(string, number) dict \<Rightarrow> string \<Rightarrow> number" where
  "score_at d k = (case map_of d k of None \<Rightarrow> None | Some x \<Rightarrow> x)"

lemma section_names: "res_map (get_section_name (mapper_of ks ss)) (map int [0..<length ss]) = Inr ss"
  unfolding res_map_Inr by (rule list_all2_all_nthI) (simp_all add: get_section_name_def names_at)

lemma to_tensor:
  "scores_to_tensor (mapper_of ks ss) gi si gr sr = Inr ([gi, gr] @ map (score_at si) ss @ map (score_at sr) ss)"
  by (simp add: scores_to_tensor_def upto_int section_names score_at_def [abs_def])

lemma from_tensor:
  assumes "distinct ss"
  shows "scores_from_tensor (mapper_of ks ss) ([gi, gr] @ map f ss @ map g ss)
    = Inr (gi, map (\<lambda>s. (s, f s)) ss, gr, map (\<lambda>s. (s, g s)) ss)"
proof -
  let ?t = "[gi, gr] @ map f ss @ map g ss"
  have n: "(int (length ?t) - 2) div 2 = int (length ss)" by simp
  have fold_zip: "fold (\<lambda>(i, name). AList.update name (?t ! h i)) (zip [0..<length ss] ss) [] = map (\<lambda>s. (s, k s)) ss"
    if h: "\<And>i. i < length ss \<Longrightarrow> ?t ! h i = k (ss ! i)" for h k
  proof -
    have z: "zip [0..<length ss] ss = map (\<lambda>i. (i, ss ! i)) [0..<length ss]" by (rule nth_equalityI) simp_all
    have "fold (\<lambda>(i, name). AList.update name (?t ! h i)) (zip [0..<length ss] ss) []
        = fold (\<lambda>i. AList.update (ss ! i) (?t ! h i)) [0..<length ss] []"
      unfolding z by (simp add: fold_map comp_def)
    also have "\<dots> = map (\<lambda>i. (ss ! i, ?t ! h i)) [0..<length ss]"
    proof -
      have "distinct (map (\<lambda>i. ss ! i) [0..<length ss])" using assms by (simp add: map_nth)
      then show ?thesis using fold_update_by_key [of "\<lambda>i. ss ! i" "[0..<length ss]" "[]" "\<lambda>i. ?t ! h i"] by simp
    qed
    also have "\<dots> = map (\<lambda>s. (s, k s)) ss" by (rule nth_equalityI) (use h in simp_all)
    finally show ?thesis .
  qed
  have "fold (\<lambda>(i, name). AList.update name (?t ! (2 + i))) (zip [0..<length ss] ss) [] = map (\<lambda>s. (s, f s)) ss"
    by (rule fold_zip) (simp add: nth_append)
  moreover have "fold (\<lambda>(i, name). AList.update name (?t ! (2 + nat (int (length ss)) + i))) (zip [0..<length ss] ss) []
      = map (\<lambda>s. (s, g s)) ss"
    by (rule fold_zip) (simp add: nth_append)
  moreover have "?t ! 0 = gi" "?t ! 1 = gr" by simp_all
  ultimately show ?thesis
    unfolding scores_from_tensor_def Let_def n upto_int mapper_of_simps section_names res_bind_simps by simp
qed

text \<open>What rank 0 has after the first r ranks.\<close>

definition by_rank :: "(nat \<Rightarrow> number) \<Rightarrow> nat \<Rightarrow> (int, number) dict" where
  "by_rank f r = map (\<lambda>q. (int q, f q)) [0..<r]"

definition sections_by_rank :: "string list \<Rightarrow> (nat \<Rightarrow> string \<Rightarrow> number) \<Rightarrow> nat \<Rightarrow> (string, (int, number) dict) dict" where
  "sections_by_rank ss f r = (if r = 0 then [] else map (\<lambda>s. (s, by_rank (\<lambda>q. f q s) r)) ss)"

lemma by_rank_Suc: "AList.update (int r) (f r) (by_rank f r) = by_rank f (Suc r)"
  by (subst update_new) (auto simp: by_rank_def)

lemma add_first_rank:
  "distinct ss \<Longrightarrow> set ss \<inter> fst ` set res = {} \<Longrightarrow>
   add_rank_scores r (map (\<lambda>s. (s, f s)) ss) res = res @ map (\<lambda>s. (s, [(r, f s)])) ss"
proof (induction ss arbitrary: res)
  case (Cons s ss)
  then have "map_of res s = None" "AList.update s [(r, f s)] res = res @ [(s, [(r, f s)])]"
    by (auto simp: map_of_eq_None_iff update_new)
  then show ?case
    using Cons.IH [of "res @ [(s, [(r, f s)])]"] Cons.prems by (auto simp: add_rank_scores_def)
qed (simp add: add_rank_scores_def)

lemma update_mapped:
  "distinct ss \<Longrightarrow> k \<in> set ss \<Longrightarrow> AList.update k v (map (\<lambda>s. (s, d s)) ss) = map (\<lambda>s. (s, if s = k then v else d s)) ss"
  by (induction ss) auto

lemma map_of_mapped: "k \<in> set ss \<Longrightarrow> map_of (map (\<lambda>s. (s, d s)) ss) k = Some (d k)"
  by (simp add: map_of_map_restrict)

lemma add_next_rank:
  assumes "distinct xs" and "distinct ss" and "set xs \<subseteq> set ss"
  shows "add_rank_scores r (map (\<lambda>s. (s, f s)) xs) (map (\<lambda>s. (s, d s)) ss)
    = map (\<lambda>s. (s, if s \<in> set xs then AList.update r (f s) (d s) else d s)) ss"
  using assms(1,3)
proof (induction xs arbitrary: d)
  case (Cons x xs)
  let ?d = "\<lambda>s. if s = x then AList.update r (f x) (d x) else d s"
  have "add_rank_scores r (map (\<lambda>s. (s, f s)) (x # xs)) (map (\<lambda>s. (s, d s)) ss)
      = add_rank_scores r (map (\<lambda>s. (s, f s)) xs) (map (\<lambda>s. (s, ?d s)) ss)"
    using Cons.prems(2) update_mapped [OF assms(2), of x "AList.update r (f x) (d x)" d]
    by (simp add: add_rank_scores_def map_of_mapped)
  then show ?case using Cons.IH [of ?d] Cons.prems by auto
qed (simp add: add_rank_scores_def)

lemma sections_by_rank_Suc:
  "distinct ss \<Longrightarrow>
   add_rank_scores (int r) (map (\<lambda>s. (s, f r s)) ss) (sections_by_rank ss f r) = sections_by_rank ss f (Suc r)"
  using add_first_rank [of ss "[]" "int r" "f r"] add_next_rank [of ss ss "int r" "f r" "\<lambda>s. by_rank (\<lambda>q. f q s) r"]
  by (cases "r = 0") (simp_all add: sections_by_rank_def by_rank_Suc [of r "\<lambda>q. f q _"] by_rank_def [of _ "Suc 0"] cong: map_cong)

lemma collect_ranks_of:
  assumes "distinct ss" and "\<And>q. q < length ts \<Longrightarrow>
      ts ! q = [gi (r + q), gr (r + q)] @ map (si (r + q)) ss @ map (sr (r + q)) ss"
    and "re_gpu_individual p = (if sc_individual cfg then by_rank gi r else [])"
    and "re_gpu_relative p = (if sc_relative cfg then by_rank gr r else [])"
    and "re_section_individual p = (if sc_individual cfg then sections_by_rank ss si r else [])"
    and "re_section_relative p = (if sc_relative cfg then sections_by_rank ss sr r else [])"
  shows "collect_ranks cfg (mapper_of ks ss) (int r) ts p = Inr (p\<lparr>
      re_gpu_individual := if sc_individual cfg then by_rank gi (r + length ts) else [],
      re_gpu_relative := if sc_relative cfg then by_rank gr (r + length ts) else [],
      re_section_individual := if sc_individual cfg then sections_by_rank ss si (r + length ts) else [],
      re_section_relative := if sc_relative cfg then sections_by_rank ss sr (r + length ts) else []\<rparr>)"
  using assms(2-)
proof (induction ts arbitrary: r p)
  case Nil
  then show ?case by simp
next
  case (Cons t ts)
  let ?x = "(gi r, map (\<lambda>s. (s, si r s)) ss, gr r, map (\<lambda>s. (s, sr r s)) ss)"
  let ?p = "collect_rank cfg (int r) ?x p"
  have t: "t = [gi r, gr r] @ map (si r) ss @ map (sr r) ss" using Cons.prems(1) [of 0] by simp
  have "scores_from_tensor (mapper_of ks ss) t = Inr ?x" unfolding t by (rule from_tensor [OF assms(1)])
  then have "collect_ranks cfg (mapper_of ks ss) (int r) (t # ts) p = collect_ranks cfg (mapper_of ks ss) (int (Suc r)) ts ?p"
    by (simp add: add.commute)
  moreover have "ts ! q = [gi (Suc r + q), gr (Suc r + q)] @ map (si (Suc r + q)) ss @ map (sr (Suc r + q)) ss" if "q < length ts" for q
    using Cons.prems(1) [of "Suc q"] that by simp
  ultimately show ?case
    using Cons.IH [of "Suc r" ?p] Cons.prems(2-)
    by (simp add: collect_rank_def Let_def by_rank_Suc sections_by_rank_Suc [OF assms(1)])
qed

lemma gathered_of:
  assumes "world_ok ks ss world" and "length indiv = length world" and "length rel = length world"
  shows "gathered_reports cfg world indiv rel = Inr (Some ((empty_report (hd world))\<lparr>
      re_gpu_individual := if sc_individual cfg then by_rank (\<lambda>q. fst (indiv ! q)) (length world) else [],
      re_gpu_relative := if sc_relative cfg then by_rank (\<lambda>q. fst (rel ! q)) (length world) else [],
      re_section_individual :=
        if sc_individual cfg then sections_by_rank ss (\<lambda>q. score_at (snd (indiv ! q))) (length world) else [],
      re_section_relative :=
        if sc_relative cfg then sections_by_rank ss (\<lambda>q. score_at (snd (rel ! q))) (length world) else []\<rparr>)
      # map (\<lambda>_. None) (tl world))"
proof -
  let ?t = "\<lambda>q. [fst (indiv ! q), fst (rel ! q)] @ map (score_at (snd (indiv ! q))) ss @ map (score_at (snd (rel ! q))) ss"
  let ?ts = "map ?t [0..<length world]"
  have z: "zip world (zip indiv rel) = map (\<lambda>q. (world ! q, indiv ! q, rel ! q)) [0..<length world]"
    using assms(2,3) by (intro nth_equalityI) simp_all
  have "res_map (\<lambda>((p, _), (gi, si), (gr, sr)). scores_to_tensor (rp_name_mapper p) gi si gr sr) (zip world (zip indiv rel)) = Inr ?ts"
    unfolding z res_map_Inr
  proof (rule list_all2_all_nthI)
    fix q assume q: "q < length (map (\<lambda>q. (world ! q, indiv ! q, rel ! q)) [0..<length world])"
    then have q': "q < length world" by simp
    obtain p k s where w: "world ! q = (p, k, s)" by (rule prod_cases3)
    then have "rp_name_mapper p = mapper_of ks ss" using world_okD(1) [OF assms(1)] nth_mem [OF q'] by metis
    then show "(\<lambda>((p, _), (gi, si), (gr, sr)). scores_to_tensor (rp_name_mapper p) gi si gr sr)
        (map (\<lambda>q. (world ! q, indiv ! q, rel ! q)) [0..<length world] ! q) = Inr (?ts ! q)"
      using q' by (simp add: w to_tensor case_prod_unfold)
  qed simp
  moreover have "list_all (\<lambda>t. length t = length (hd ?ts)) ?ts"
    using assms(1) by (simp add: list_all_iff world_ok_def hd_map)
  moreover obtain x xs where w: "world = x # xs" using assms(1) by (cases world) (auto simp: world_ok_def)
  moreover have "rp_name_mapper (fst x) = mapper_of ks ss"
    using assms(1) w by (cases x) (auto simp: world_ok_def)
  moreover have "collect_ranks cfg (mapper_of ks ss) (int 0) ?ts (empty_report x) = Inr ((empty_report x)\<lparr>
      re_gpu_individual := if sc_individual cfg then by_rank (\<lambda>q. fst (indiv ! q)) (0 + length ?ts) else [],
      re_gpu_relative := if sc_relative cfg then by_rank (\<lambda>q. fst (rel ! q)) (0 + length ?ts) else [],
      re_section_individual :=
        if sc_individual cfg then sections_by_rank ss (\<lambda>q. score_at (snd (indiv ! q))) (0 + length ?ts) else [],
      re_section_relative :=
        if sc_relative cfg then sections_by_rank ss (\<lambda>q. score_at (snd (rel ! q))) (0 + length ?ts) else []\<rparr>)"
    using assms(1)
    by (intro collect_ranks_of) (auto simp: world_ok_def empty_report_def by_rank_def sections_by_rank_def case_prod_unfold)
  ultimately show ?thesis
    unfolding gathered_reports_def by (simp only: res_bind_simps) (simp del: map_map upt_Suc)
qed

section \<open>Individual scores\<close>

lemma update_min_keys: "fst ` set (update_min_times d best) = fst ` set best \<union> fst ` set d"
  unfolding update_min_times_def
  by (induction d arbitrary: best) (simp_all add: keys_update case_prod_unfold)

lemma update_min_lookup:
  "distinct (map fst d) \<Longrightarrow> map_of (update_min_times d best) k =
    (case map_of d k of
       None \<Rightarrow> map_of best k
     | Some y \<Rightarrow> Some (case map_of best k of None \<Rightarrow> st_med y | Some b \<Rightarrow> min b (st_med y)))"
proof (induction d arbitrary: best)
  case (Cons x d)
  obtain n y where x: "x = (n, y)" by fastforce
  have "map_of d n = None" using Cons.prems by (simp add: x map_of_eq_None_iff)
  then show ?case
    using Cons.IH [of "AList.update n (case map_of best n of None \<Rightarrow> st_med y | Some b \<Rightarrow> min b (st_med y)) best"] Cons.prems
    by (auto simp: x update_min_times_def update_conv split: option.split)
qed (simp add: update_min_times_def)

lemma as_reference_lookup: "map_of (as_reference best) k = map_option Some (map_of best k)"
  by (induction best) (auto simp: as_reference_def)

definition individual_of :: "bool \<Rightarrow> rank_input \<Rightarrow> rank_scores" where
  "individual_of computing x = (if computing then
     (let p = update_local_min_times x in scores_against (map_of (rp_min_kernel_times p)) (map_of (rp_min_section_times p)) x)
     else (None, []))"

lemma individual_scores_of:
  assumes "kernels_ok kernels" and "medians_ok sections"
  shows "individual_scores computing (p, kernels, sections)
    = Inr (if computing then update_local_min_times (p, kernels, sections) else p, individual_of computing (p, kernels, sections))"
proof -
  let ?p = "update_local_min_times (p, kernels, sections)"
  have "map_of (as_reference (rp_min_kernel_times ?p)) k = Some (map_of (rp_min_kernel_times ?p) k)" if "k \<in> fst ` set kernels" for k
  proof -
    have "map_of (rp_min_kernel_times ?p) k \<noteq> None"
      using that by (simp add: update_local_min_times_def map_of_eq_None_iff update_min_keys)
    then show ?thesis by (auto simp: as_reference_lookup)
  qed
  moreover have "map_of (as_reference (rp_min_section_times ?p)) k = Some (map_of (rp_min_section_times ?p) k)" if "k \<in> fst ` set sections" for k
  proof -
    have "map_of (rp_min_section_times ?p) k \<noteq> None"
      using that by (simp add: update_local_min_times_def map_of_eq_None_iff update_min_keys)
    then show ?thesis by (auto simp: as_reference_lookup)
  qed
  ultimately show ?thesis
    using gpu_score_of [OF assms(1), of "as_reference (rp_min_kernel_times ?p)" "map_of (rp_min_kernel_times ?p)"]
      section_scores_of [OF assms(2), of "as_reference (rp_min_section_times ?p)" "map_of (rp_min_section_times ?p)"]
    by (simp add: individual_scores_def individual_of_def scores_against_def Let_def)
qed

section \<open>A report\<close>

definition node_table :: "reporter list \<Rightarrow> (int, string) dict" where
  "node_table rs = map (\<lambda>q. (int q, rp_node_name (rs ! q))) [0..<length rs]"

text \<open>
  What the generators have in common between two reports: the ids of names, and either no nodes yet
  or the nodes of all of them.
\<close>

definition agreed :: "string list \<Rightarrow> string list \<Rightarrow> reporter list \<Rightarrow> bool" where
  "agreed ks ss rs \<longleftrightarrow> distinct ks \<and> distinct ss \<and> list_all (\<lambda>p. rp_name_mapper p = mapper_of ks ss) rs
     \<and> (list_all (\<lambda>p. rp_rank_to_node p = []) rs \<or> list_all (\<lambda>p. rp_rank_to_node p = node_table rs) rs)"

lemma new_reporters_agree: "agreed [] [] (map (\<lambda>(r, node). new_reporter r node) nodes)"
  by (auto simp: agreed_def list_all_iff new_reporter_def mapper_of_def new_name_mapper_def ids_of_def names_of_def)

lemma nodes_gathered:
  assumes "agreed ks ss (map f [0..<n])" and "0 < n" and "\<And>q. q < n \<Longrightarrow> rp_rank (f q) = int q"
  shows "maybe_gather_rank_to_node True (map f [0..<n])
    = Inr (map (\<lambda>q. (f q)\<lparr>rp_rank_to_node := node_table (map f [0..<n])\<rparr>) [0..<n])"
proof -
  let ?rs = "map f [0..<n]"
  have r: "map rp_rank ?rs = map int [0..<n]" using assms(3) by (intro nth_equalityI) simp_all
  then have d: "distinct (map rp_rank ?rs)" by (simp only: distinct_map distinct_upt) (simp add: inj_on_def)
  have t: "fold (\<lambda>p. AList.update (rp_rank p) (rp_node_name p)) ?rs [] = node_table ?rs"
  proof -
    have "fold (\<lambda>p. AList.update (rp_rank p) (rp_node_name p)) ?rs [] = map (\<lambda>p. (rp_rank p, rp_node_name p)) ?rs"
      using fold_update_by_key [OF d, of "[]" rp_node_name] by simp
    then show ?thesis using assms(3) by (simp add: node_table_def)
  qed
  have ne: "node_table ?rs \<noteq> []" using assms(2) by (simp add: node_table_def)
  show ?thesis
  proof (cases "list_all (\<lambda>p. rp_rank_to_node p = []) ?rs")
    case True
    then show ?thesis unfolding maybe_gather_rank_to_node_def t Let_def by (simp add: comp_def)
  next
    case False
    then have a: "list_all (\<lambda>p. rp_rank_to_node p = node_table ?rs) ?rs" using assms(1) by (auto simp: agreed_def)
    then have "list_all (\<lambda>p. rp_rank_to_node p \<noteq> []) ?rs" using ne by (simp add: list_all_iff)
    moreover have "map (\<lambda>q. (f q)\<lparr>rp_rank_to_node := node_table ?rs\<rparr>) [0..<n] = ?rs"
      using a by (auto simp: list_all_iff)
    ultimately show ?thesis using False by (simp add: maybe_gather_rank_to_node_def)
  qed
qed

lemma updated_min_times [simp]:
  "rp_name_mapper (update_local_min_times x) = rp_name_mapper (fst x)"
  "rp_node_name (update_local_min_times x) = rp_node_name (fst x)"
  "rp_rank_to_node (update_local_min_times x) = rp_rank_to_node (fst x)"
  by (simp_all add: update_local_min_times_def split: prod.split)

text \<open>The scores a report must have, from the summaries of all ranks.\<close>

definition section_score :: "(string, summary) dict list \<Rightarrow> nat \<Rightarrow> string \<Rightarrow> number" where
  "section_score S q s = (case map_of (S ! q) s of
     None \<Rightarrow> None | Some y \<Rightarrow> map_option (\<lambda>b. b / st_med y) (best_of S s))"

definition sections_in :: "(reporter \<times> (string, summary) dict \<times> (string, summary) dict) list \<Rightarrow> (string, summary) dict list" where
  "sections_in inputs = map (\<lambda>(p, sections, kernels). sections) inputs"

definition kernels_in :: "(reporter \<times> (string, summary) dict \<times> (string, summary) dict) list \<Rightarrow> (string, summary) dict list" where
  "kernels_in inputs = map (\<lambda>(p, sections, kernels). filter_out_nccl_kernels kernels) inputs"

definition inputs_ok :: "(reporter \<times> (string, summary) dict \<times> (string, summary) dict) list \<Rightarrow> bool" where
  "inputs_ok inputs \<longleftrightarrow> inputs \<noteq> []
     \<and> list_all (\<lambda>(p, sections, kernels). medians_ok sections \<and> kernels_ok (filter_out_nccl_kernels kernels)) inputs"

lemma score_at_mapped: "score_at (map (\<lambda>(k, y). (k, f k y)) d) s = (case map_of d s of None \<Rightarrow> None | Some y \<Rightarrow> f s y)"
  by (induction d) (auto simp: score_at_def)

definition past_score :: "reporter \<Rightarrow> (string, summary) dict \<Rightarrow> string \<Rightarrow> number" where
  "past_score p d s = (case map_of d s of
     None \<Rightarrow> None | Some y \<Rightarrow> map_option (\<lambda>b. b / st_med y) (map_of (rp_min_section_times p) s))"

lemma generate_reports_of:
  assumes "inputs_ok inputs" and "agreed ks ss (map fst inputs)" and "sc_gather_on_rank0 cfg" and "sc_relative cfg"
  shows "\<exists>ks' ss' rs p. generate_reports cfg inputs = Inr (rs, Some p # replicate (length inputs - 1) None)
    \<and> agreed (ks @ ks') (ss @ ss') rs \<and> map rp_node_name rs = map (rp_node_name \<circ> fst) inputs
    \<and> (\<forall>q < length inputs.
         rp_min_kernel_times (rs ! q) = (if sc_individual cfg
           then update_min_times (kernels_in inputs ! q) (rp_min_kernel_times (fst (inputs ! q))) else rp_min_kernel_times (fst (inputs ! q)))
       \<and> rp_min_section_times (rs ! q) = (if sc_individual cfg
           then update_min_times (sections_in inputs ! q) (rp_min_section_times (fst (inputs ! q))) else rp_min_section_times (fst (inputs ! q))))
    \<and> re_gpu_individual p = (if sc_individual cfg
         then by_rank (\<lambda>q. weighted_score (map_of (rp_min_kernel_times (rs ! q))) (kernels_in inputs ! q)) (length inputs) else [])
    \<and> re_section_individual p = (if sc_individual cfg
         then sections_by_rank (ss @ ss') (\<lambda>q. past_score (rs ! q) (sections_in inputs ! q)) (length inputs) else [])
    \<and> (\<forall>q < length inputs. fst ` set (sections_in inputs ! q) \<subseteq> set (ss @ ss'))
    \<and> re_rank_to_node p = node_table (map fst inputs)
    \<and> re_gpu_relative p = by_rank (\<lambda>q. weighted_score (best_of (kernels_in inputs)) (kernels_in inputs ! q)) (length inputs)
    \<and> re_section_relative p = sections_by_rank (ss @ ss') (section_score (sections_in inputs)) (length inputs)"
proof -
  define n where "n = length inputs"
  define P where "P q = fst (inputs ! q)" for q
  define S where "S q = sections_in inputs ! q" for q
  define K where "K q = kernels_in inputs ! q" for q
  let ?I = "[0..<n]"
  have SK: "sections_in inputs = map S ?I" "kernels_in inputs = map K ?I"
    by (rule nth_equalityI; simp add: n_def S_def K_def sections_in_def kernels_in_def)+
  have at: "inputs ! q = (P q, fst (snd (inputs ! q)), snd (snd (inputs ! q)))" for q by (simp add: P_def)
  have ok: "medians_ok (S q)" "kernels_ok (K q)" if "q < n" for q
    using assms(1) that by (auto simp: inputs_ok_def list_all_length n_def S_def K_def sections_in_def kernels_in_def case_prod_unfold)
  have n0: "0 < n" using assms(1) by (simp add: inputs_ok_def n_def)
  have fsts: "map fst inputs = map P ?I" by (rule nth_equalityI) (simp_all add: n_def P_def)
  let ?r1 = "\<lambda>q. (P q)\<lparr>rp_rank := int q\<rparr>"
  have rs1: "map (\<lambda>(r, p, _). p\<lparr>rp_rank := int r\<rparr>) (zip [0..<length inputs] inputs) = map ?r1 ?I"
    by (rule nth_equalityI) (simp_all add: n_def P_def case_prod_unfold)
  have kern: "map (\<lambda>(_, sections, kernels). filter_out_nccl_kernels kernels) inputs = map K ?I"
    unfolding SK(2) [symmetric] by (simp add: kernels_in_def)
  have sec: "map (\<lambda>(_, sections, kernels). sections) inputs = map S ?I"
    unfolding SK(1) [symmetric] by (simp add: sections_in_def)
  let ?T = "node_table (map P ?I)"
  have T: "node_table (map ?r1 ?I) = ?T" by (simp add: node_table_def)
  have ag: "agreed ks ss (map ?r1 ?I)"
    using assms(2) by (simp add: agreed_def fsts T list_all_iff)
  let ?r2 = "\<lambda>q. (P q)\<lparr>rp_rank := int q, rp_rank_to_node := ?T\<rparr>"
  have rs2: "maybe_gather_rank_to_node True (map ?r1 ?I) = Inr (map ?r2 ?I)"
    using nodes_gathered [OF ag n0] by (simp add: T)
  let ?names = "map (\<lambda>q. (map fst (K q), map fst (S q))) ?I"
  have names: "zip (map (map fst) (map K ?I)) (map (map fst) (map S ?I)) = ?names" by (rule nth_equalityI) simp_all
  have dist: "distinct ks" "distinct ss" using assms(2) by (simp_all add: agreed_def)
  obtain ks' ss' where ids: "distinct (ks @ ks')" "distinct (ss @ ss')"
      "gather_and_assign_ids (map (\<lambda>(kernels, sections). (mapper_of ks ss, kernels, sections)) ?names)
        = replicate (length ?names) (mapper_of (ks @ ks') (ss @ ss'))"
      "\<And>q. q < n \<Longrightarrow> fst ` set (K q) \<subseteq> set (ks @ ks') \<and> fst ` set (S q) \<subseteq> set (ss @ ss')"
    using ids_agree [OF dist, of ?names] by auto
  let ?M = "mapper_of (ks @ ks') (ss @ ss')"
  have "zip (map rp_name_mapper (map ?r2 ?I)) ?names = map (\<lambda>(kernels, sections). (mapper_of ks ss, kernels, sections)) ?names"
    using assms(2) by (intro nth_equalityI) (simp_all add: agreed_def fsts list_all_iff)
  then have mappers: "gather_and_assign_ids (zip (map rp_name_mapper (map ?r2 ?I)) ?names) = replicate n ?M" using ids(3) by simp
  let ?r3 = "\<lambda>q. (P q)\<lparr>rp_rank := int q, rp_rank_to_node := ?T, rp_name_mapper := ?M\<rparr>"
  have rs3: "map (\<lambda>(p, m). p\<lparr>rp_name_mapper := m\<rparr>) (zip (map ?r2 ?I) (replicate n ?M)) = map ?r3 ?I"
    by (rule nth_equalityI) simp_all
  have z: "zip (map f ?I) (zip (map K ?I) (map S ?I)) = map (\<lambda>q. (f q, K q, S q)) ?I" for f :: "nat \<Rightarrow> reporter"
    by (rule nth_equalityI) simp_all
  let ?c = "sc_individual cfg"
  let ?r4 = "\<lambda>q. if ?c then update_local_min_times (?r3 q, K q, S q) else ?r3 q"
  let ?i = "\<lambda>q. individual_of ?c (?r3 q, K q, S q)"
  have indiv: "res_map (individual_scores ?c) (zip (map ?r3 ?I) (zip (map K ?I) (map S ?I))) = Inr (map (\<lambda>q. (?r4 q, ?i q)) ?I)"
    unfolding z res_map_Inr
    by (rule list_all2_all_nthI) (use individual_scores_of ok in simp_all)
  let ?w = "map (\<lambda>q. (?r4 q, K q, S q)) ?I"
  have four: "rp_name_mapper (?r4 q) = ?M" "rp_node_name (?r4 q) = rp_node_name (P q)" "rp_rank_to_node (?r4 q) = ?T" for q
    by simp_all
  have T4: "node_table (map ?r4 ?I) = ?T" by (auto simp: node_table_def)
  have wok: "world_ok (ks @ ks') (ss @ ss') ?w"
    using n0 ids(1,2,4) ok by (simp add: world_ok_def list_all_iff four)
  have parts: "kernels_of ?w = kernels_in inputs" "sections_of ?w = sections_in inputs"
    unfolding SK by (simp_all add: kernels_of_def sections_of_def)
  let ?s = "scores_against (best_of (kernels_in inputs)) (best_of (sections_in inputs))"
  have rel: "relative_scores True ?w = Inr (map ?s ?w)" using relative_scores_of [OF wok] by (simp only: parts)
  have fst4: "map fst (map (\<lambda>q. (?r4 q, ?i q)) ?I) = map ?r4 ?I" by simp
  define p where "p = (empty_report (hd ?w))\<lparr>
      re_gpu_individual := if ?c then by_rank (\<lambda>q. fst (map snd (map (\<lambda>q. (?r4 q, ?i q)) ?I) ! q)) (length ?w) else [],
      re_gpu_relative := if sc_relative cfg then by_rank (\<lambda>q. fst (map ?s ?w ! q)) (length ?w) else [],
      re_section_individual :=
        if ?c then sections_by_rank (ss @ ss') (\<lambda>q. score_at (snd (map snd (map (\<lambda>q. (?r4 q, ?i q)) ?I) ! q))) (length ?w) else [],
      re_section_relative :=
        if sc_relative cfg then sections_by_rank (ss @ ss') (\<lambda>q. score_at (snd (map ?s ?w ! q))) (length ?w) else []\<rparr>"
  have g: "gathered_reports cfg ?w (map snd (map (\<lambda>q. (?r4 q, ?i q)) ?I)) (map ?s ?w) = Inr (Some p # map (\<lambda>_. None) (tl ?w))"
    unfolding p_def by (rule gathered_of [OF wok]) simp_all
  have gen: "generate_reports cfg inputs = Inr (map ?r4 ?I, Some p # map (\<lambda>_. None) (tl ?w))"
    unfolding generate_reports_def Let_def rs1 kern sec assms(3) rs2 res_bind_simps names
    by (simp only: assms(3,4) simp_thms if_True rs2 mappers rs3 indiv [unfolded z] res_bind_simps fst4 z rel g)
  moreover have "map (\<lambda>_. None) (tl ?w) = replicate (length inputs - 1) (None :: straggler_report option)"
    by (simp add: map_replicate_const n_def)
  moreover have "agreed (ks @ ks') (ss @ ss') (map ?r4 ?I)"
    unfolding agreed_def T4 using ids(1,2) by (simp add: list_all_iff)
  moreover have "map rp_node_name (map ?r4 ?I) = map (rp_node_name \<circ> fst) inputs"
    using four(2) by (intro nth_equalityI) (simp_all add: n_def P_def)
  moreover have "re_rank_to_node p = node_table (map fst inputs)"
    using n0 four(3) by (simp add: p_def empty_report_def fsts hd_map upt_conv_Cons del: upt_Suc)
  moreover have "re_gpu_relative p = by_rank (\<lambda>q. weighted_score (best_of (kernels_in inputs)) (kernels_in inputs ! q)) (length inputs)"
    using assms(4) by (simp add: p_def by_rank_def n_def scores_against_def K_def)
  moreover have "re_section_relative p = sections_by_rank (ss @ ss') (section_score (sections_in inputs)) (length inputs)"
    using assms(4) by (simp add: p_def sections_by_rank_def by_rank_def n_def scores_against_def S_def score_at_mapped
        section_score_def)
  moreover have "rp_min_kernel_times (map ?r4 ?I ! q) = (if ?c
           then update_min_times (kernels_in inputs ! q) (rp_min_kernel_times (fst (inputs ! q))) else rp_min_kernel_times (fst (inputs ! q)))
       \<and> rp_min_section_times (map ?r4 ?I ! q) = (if ?c
           then update_min_times (sections_in inputs ! q) (rp_min_section_times (fst (inputs ! q))) else rp_min_section_times (fst (inputs ! q)))"
    if "q < length inputs" for q
    using that by (simp add: n_def update_local_min_times_def S_def K_def P_def)
  moreover have "re_gpu_individual p = (if ?c
         then by_rank (\<lambda>q. weighted_score (map_of (rp_min_kernel_times (map ?r4 ?I ! q))) (kernels_in inputs ! q)) (length inputs) else [])"
    by (simp add: p_def by_rank_def n_def individual_of_def scores_against_def K_def Let_def)
  moreover have "re_section_individual p = (if ?c
         then sections_by_rank (ss @ ss') (\<lambda>q. past_score (map ?r4 ?I ! q) (sections_in inputs ! q)) (length inputs) else [])"
    by (simp add: p_def sections_by_rank_def by_rank_def n_def individual_of_def scores_against_def S_def score_at_mapped
        past_score_def Let_def cong: option.case_cong)
  ultimately show ?thesis using ids(4)
    by (intro exI [of _ ks'] exI [of _ ss'] exI [of _ "map ?r4 ?I"] exI [of _ p] conjI) (simp_all add: S_def n_def)
qed

section \<open>Identifying the stragglers\<close>

lemma node_at: "q < length rs \<Longrightarrow> map_of (node_table rs) (int q) = Some (rp_node_name (rs ! q))"
proof -
  assume q: "q < length rs"
  have "map_of (node_table rs) (int q) = map_of (map (\<lambda>i. (i, rp_node_name (rs ! nat i))) (map int [0..<length rs])) (int q)"
    by (simp add: node_table_def comp_def)
  also have "\<dots> = Some (rp_node_name (rs ! q))"
    using q by (subst map_of_map_restrict) auto
  finally show ?thesis .
qed

definition slow_ranks :: "reporter list \<Rightarrow> real \<Rightarrow> (nat \<Rightarrow> number) \<Rightarrow> (int \<times> string) set" where
  "slow_ranks rs threshold f =
     {(int q, rp_node_name (rs ! q)) | q. q < length rs \<and> (\<exists>x. f q = Some x \<and> x < threshold)}"

lemma below_by_rank: "below_threshold (node_table rs) threshold (by_rank f (length rs)) = Inr (slow_ranks rs threshold f)"
proof -
  let ?P = "\<lambda>q. case f q of None \<Rightarrow> False | Some x \<Rightarrow> x < threshold"
  let ?slow = "filter ?P [0..<length rs]"
  have "filter (\<lambda>(r, d). case d of None \<Rightarrow> False | Some x \<Rightarrow> x < threshold) (by_rank f (length rs)) = map (\<lambda>q. (int q, f q)) ?slow"
    by (simp add: by_rank_def filter_map comp_def)
  moreover have "res_map (\<lambda>(r, d). straggler_id (node_table rs) r) (map (\<lambda>q. (int q, f q)) ?slow)
      = Inr (map (\<lambda>(r, d). (r, the (map_of (node_table rs) r))) (map (\<lambda>q. (int q, f q)) ?slow))"
    by (rule res_map_total) (auto simp: straggler_id_def res_lookup_def node_at)
  moreover have "set (map (\<lambda>(r, d). (r, the (map_of (node_table rs) r))) (map (\<lambda>q. (int q, f q)) ?slow)) = slow_ranks rs threshold f"
    by (auto simp: slow_ranks_def node_at image_iff split: option.splits)
  ultimately show ?thesis by (simp only: below_threshold_def res_bind_simps)
qed

lemma sections_below:
  assumes "0 < length rs"
  shows "sections_below_threshold (node_table rs) threshold (sections_by_rank ss f (length rs))
    = Inr (filter (\<lambda>(s, ids). ids \<noteq> {}) (map (\<lambda>s. (s, slow_ranks rs threshold (\<lambda>q. f q s))) ss))"
proof -
  have "res_map (\<lambda>(name, scores). res_bind (below_threshold (node_table rs) threshold scores) (\<lambda>ids. Inr (name, ids)))
      (map (\<lambda>s. (s, by_rank (\<lambda>q. f q s) (length rs))) ss)
    = Inr (map (\<lambda>s. (s, slow_ranks rs threshold (\<lambda>q. f q s))) ss)"
    by (induction ss) (simp_all add: below_by_rank)
  then show ?thesis using assms by (simp add: sections_below_threshold_def sections_by_rank_def)
qed

lemma below_empty [simp]:
  "below_threshold nodes threshold [] = Inr {}" "sections_below_threshold nodes threshold [] = Inr []"
  by (simp_all add: below_threshold_def sections_below_threshold_def)

lemma filtered_lookup:
  "map_of (filter (\<lambda>(s, ids). ids \<noteq> {}) (map (\<lambda>s. (s, h s)) ss)) s = (if s \<in> set ss \<and> h s \<noteq> {} then Some (h s) else None)"
  by (induction ss) auto

text \<open>
  C28: The report of rank 0 names exactly the ranks that are too slow. At any report of generators
  that agree, whatever ran before, rank 0 gets a report and the others get none; a section has the
  stragglers whose median exceeds the best median of all ranks by the inverse of the threshold, if
  every rank ran the section, and is not mentioned if there are none; a GPU is a straggler when its
  weighted score against the best kernel medians is below the threshold. Afterwards the generators
  agree again.
\<close>

theorem slow_ranks_are_identified:
  assumes "inputs_ok inputs" and "agreed ks ss (map fst inputs)" and "sc_gather_on_rank0 cfg" and "sc_relative cfg"
  shows "\<exists>ks' ss' rs p g. generate_reports cfg inputs = Inr (rs, Some p # replicate (length inputs - 1) None)
    \<and> agreed (ks @ ks') (ss @ ss') rs
    \<and> identify_stragglers gpu_rel section_rel gpu_indiv section_indiv p = Inr g
    \<and> sg_gpus_relative g = slow_ranks (map fst inputs) gpu_rel (\<lambda>q. weighted_score (best_of (kernels_in inputs)) (kernels_in inputs ! q))
    \<and> (\<forall>s. map_of (sg_sections_relative g) s =
         (let slow = {(int q, rp_node_name (fst (inputs ! q))) | q. q < length inputs \<and>
             (\<exists>b y. best_of (sections_in inputs) s = Some b \<and> map_of (sections_in inputs ! q) s = Some y \<and> b < section_rel * st_med y)}
          in if slow = {} then None else Some slow))"
proof -
  let ?R = "map fst inputs"
  obtain ks' ss' rs p where p: "generate_reports cfg inputs = Inr (rs, Some p # replicate (length inputs - 1) None)"
    "agreed (ks @ ks') (ss @ ss') rs"
    "re_rank_to_node p = node_table ?R"
    "re_gpu_individual p = (if sc_individual cfg
       then by_rank (\<lambda>q. weighted_score (map_of (rp_min_kernel_times (rs ! q))) (kernels_in inputs ! q)) (length ?R) else [])"
    "re_section_individual p = (if sc_individual cfg
       then sections_by_rank (ss @ ss') (\<lambda>q. past_score (rs ! q) (sections_in inputs ! q)) (length ?R) else [])"
    "re_gpu_relative p = by_rank (\<lambda>q. weighted_score (best_of (kernels_in inputs)) (kernels_in inputs ! q)) (length ?R)"
    "re_section_relative p = sections_by_rank (ss @ ss') (section_score (sections_in inputs)) (length ?R)"
    and keys: "\<And>q. q < length inputs \<Longrightarrow> fst ` set (sections_in inputs ! q) \<subseteq> set (ss @ ss')"
    using generate_reports_of [OF assms] by auto
  have n: "0 < length ?R" using assms(1) by (simp add: inputs_ok_def)
  let ?slow = "\<lambda>s. slow_ranks ?R section_rel (\<lambda>q. section_score (sections_in inputs) q s)"
  obtain g where g: "identify_stragglers gpu_rel section_rel gpu_indiv section_indiv p = Inr g"
    "sg_gpus_relative g = slow_ranks ?R gpu_rel (\<lambda>q. weighted_score (best_of (kernels_in inputs)) (kernels_in inputs ! q))"
    "sg_sections_relative g = filter (\<lambda>(s, ids). ids \<noteq> {}) (map (\<lambda>s. (s, ?slow s)) (ss @ ss'))"
    unfolding identify_stragglers_def p(3-7)
    by (cases "sc_individual cfg") (simp_all add: below_by_rank sections_below [OF n] del: length_map)
  have pos: "0 < st_med y" if "q < length inputs" "map_of (sections_in inputs ! q) s = Some y" for q s y
    using assms(1) that by (auto simp: inputs_ok_def sections_in_def list_all_length case_prod_unfold intro: medians_pos)
  have slow: "?slow s = {(int q, rp_node_name (fst (inputs ! q))) | q. q < length inputs \<and>
      (\<exists>b y. best_of (sections_in inputs) s = Some b \<and> map_of (sections_in inputs ! q) s = Some y \<and> b < section_rel * st_med y)}" for s
  proof -
    have "(\<exists>x. section_score (sections_in inputs) q s = Some x \<and> x < section_rel) \<longleftrightarrow>
        (\<exists>b y. best_of (sections_in inputs) s = Some b \<and> map_of (sections_in inputs ! q) s = Some y \<and> b < section_rel * st_med y)"
      if "q < length inputs" for q
      using pos [OF that, of s] by (auto simp: section_score_def pos_divide_less_eq split: option.splits)
    then show ?thesis unfolding slow_ranks_def by (intro Collect_cong ex_cong1) (auto simp: nth_map)
  qed
  have "map_of (sg_sections_relative g) s = (if ?slow s = {} then None else Some (?slow s))" for s
  proof (cases "s \<in> set (ss @ ss')")
    case True
    then show ?thesis unfolding g(3) filtered_lookup by simp
  next
    case False
    then have "map_of (sections_in inputs ! q) s = None" if "q < length inputs" for q
      using keys [OF that] by (auto simp: map_of_eq_None_iff)
    then have "?slow s = {}" unfolding slow by auto
    then show ?thesis unfolding g(3) filtered_lookup by simp
  qed
  then show ?thesis
    using p(1,2) g(1,2) unfolding slow Let_def by (intro exI [of _ ks'] exI [of _ ss'] exI [of _ rs] exI [of _ p] exI [of _ g]) blast
qed

section \<open>Scores lie between 0 and 1\<close>

lemma best_of_le:
  assumes "best_of ds k = Some b" and "d \<in> set ds" and "map_of d k = Some y"
  shows "b \<le> st_med y"
proof -
  have "b = Min (set (map (\<lambda>d. st_med (the (map_of d k))) ds))" using assms(1) by (simp add: best_of_def split: if_splits)
  moreover have "st_med y \<in> set (map (\<lambda>d. st_med (the (map_of d k))) ds)" using assms(2,3) by force
  ultimately show ?thesis by (metis List.finite_set Min_le)
qed

lemma best_of_attained:
  assumes "best_of ds k = Some b" and "ds \<noteq> []"
  shows "\<exists>d y. d \<in> set ds \<and> map_of d k = Some y \<and> b = st_med y"
proof -
  have b: "b = Min (set (map (\<lambda>d. st_med (the (map_of d k))) ds))" and l: "list_all (\<lambda>d. map_of d k \<noteq> None) ds"
    using assms(1) by (simp_all add: best_of_def split: if_splits)
  have "b \<in> set (map (\<lambda>d. st_med (the (map_of d k))) ds)" unfolding b using assms(2) by (intro Min_in) auto
  then show ?thesis using l by (auto simp: list_all_iff) (metis option.sel)
qed

lemma best_of_positive: "best_of ds k = Some b \<Longrightarrow> ds \<noteq> [] \<Longrightarrow> list_all medians_ok ds \<Longrightarrow> 0 < b"
  using best_of_attained [of ds k b] by (auto simp: list_all_iff dest: medians_pos)

lemma kernels_lookup: "kernels_ok d \<Longrightarrow> (k, y) \<in> set d \<Longrightarrow> map_of d k = Some y"
  by (simp add: kernels_ok_def medians_ok_def)

lemma inputs_okD:
  assumes "inputs_ok inputs"
  shows "sections_in inputs \<noteq> []" "kernels_in inputs \<noteq> []" "list_all medians_ok (sections_in inputs)"
    "list_all kernels_ok (kernels_in inputs)" "list_all medians_ok (kernels_in inputs)"
    "length (sections_in inputs) = length inputs" "length (kernels_in inputs) = length inputs"
  using assms by (auto simp: inputs_ok_def sections_in_def kernels_in_def list_all_iff kernels_ok_def)

lemma by_rank_at: "q < n \<Longrightarrow> map_of (by_rank f n) (int q) = Some (f q)"
proof -
  assume q: "q < n"
  have "map_of (by_rank f n) (int q) = map_of (map (\<lambda>i. (i, f (nat i))) (map int [0..<n])) (int q)"
    by (simp add: by_rank_def comp_def)
  also have "\<dots> = Some (f q)" using q by (subst map_of_map_restrict) auto
  finally show ?thesis .
qed

lemma sections_by_rank_at:
  "0 < n \<Longrightarrow> map_of (sections_by_rank ss f n) s = (if s \<in> set ss then Some (by_rank (\<lambda>q. f q s) n) else None)"
  by (simp add: sections_by_rank_def map_of_map_restrict restrict_map_def)


section \<open>Individual scores compare with all reports so far\<close>

text \<open>
  The reports of a group from its start, with the summaries of sections and kernels every rank
  brought to each.
\<close>

inductive reported ::
  "score_config \<Rightarrow> string list \<Rightarrow> ((string, summary) dict \<times> (string, summary) dict) list list \<Rightarrow> reporter list \<Rightarrow> bool"
  for cfg :: score_config and nodes :: "string list" where
  start: "reported cfg nodes [] (map (\<lambda>(r, node). new_reporter r node) (zip (map int [0..<length nodes]) nodes))"
| report: "reported cfg nodes hist rs \<Longrightarrow> length turn = length nodes \<Longrightarrow>
    generate_reports cfg (zip rs turn) = Inr (rs', reports) \<Longrightarrow> reported cfg nodes (hist @ [turn]) rs'"

definition turn_ok :: "((string, summary) dict \<times> (string, summary) dict) list \<Rightarrow> bool" where
  "turn_ok turn \<longleftrightarrow> list_all (\<lambda>(sections, kernels). medians_ok sections \<and> kernels_ok (filter_out_nccl_kernels kernels)) turn"

text \<open>The medians a rank has shown for a section so far.\<close>

definition medians_seen :: "(string, summary) dict list \<Rightarrow> string \<Rightarrow> real list" where
  "medians_seen ds k = map (\<lambda>d. st_med (the (map_of d k))) (filter (\<lambda>d. map_of d k \<noteq> None) ds)"

definition sections_of_rank :: "((string, summary) dict \<times> (string, summary) dict) list list \<Rightarrow> nat \<Rightarrow> (string, summary) dict list" where
  "sections_of_rank hist q = map (\<lambda>turn. fst (turn ! q)) hist"

lemma min_times_of_history:
  "list_all medians_ok ds \<Longrightarrow> map_of (fold update_min_times ds []) k =
    (if medians_seen ds k = [] then None else Some (Min (set (medians_seen ds k))))"
proof (induction ds rule: rev_induct)
  case (snoc d ds)
  have "distinct (map fst d)" using snoc.prems by (simp add: medians_ok_def)
  then have u: "map_of (fold update_min_times (ds @ [d]) []) k = (case map_of d k of
       None \<Rightarrow> map_of (fold update_min_times ds []) k
     | Some y \<Rightarrow> Some (case map_of (fold update_min_times ds []) k of None \<Rightarrow> st_med y | Some b \<Rightarrow> min b (st_med y)))"
    by (simp add: update_min_lookup)
  have IH: "map_of (fold update_min_times ds []) k =
      (if medians_seen ds k = [] then None else Some (Min (set (medians_seen ds k))))"
    using snoc by simp
  show ?case
  proof (cases "map_of d k")
    case None
    then show ?thesis unfolding u IH by (simp add: medians_seen_def)
  next
    case (Some y)
    then have "medians_seen (ds @ [d]) k = medians_seen ds k @ [st_med y]" by (simp add: medians_seen_def)
    then show ?thesis unfolding u IH by (simp add: Some min.commute)
  qed
qed (simp add: medians_seen_def)

lemma zip_inputs_ok: "turn_ok turn \<Longrightarrow> length turn = length rs \<Longrightarrow> rs \<noteq> [] \<Longrightarrow> inputs_ok (zip rs turn)"
  by (auto simp: inputs_ok_def turn_ok_def list_all_iff dest: set_zip_rightD)

lemma zip_parts:
  "length turn = length rs \<Longrightarrow> map fst (zip rs turn) = rs"
  "length turn = length rs \<Longrightarrow> sections_in (zip rs turn) = map fst turn"
  by (auto simp: sections_in_def case_prod_unfold intro: nth_equalityI)

lemma reported_agree:
  assumes "reported cfg nodes hist rs" and "list_all turn_ok hist" and "nodes \<noteq> []"
    and "sc_gather_on_rank0 cfg" and "sc_relative cfg" and "sc_individual cfg"
  shows "length rs = length nodes \<and> (\<exists>ks ss. agreed ks ss rs)
    \<and> (\<forall>q < length nodes. rp_min_section_times (rs ! q) = fold update_min_times (sections_of_rank hist q) [])"
  using assms(1,2)
proof (induction rule: reported.induct)
  case start
  have "agreed [] [] (map (\<lambda>(r, node). new_reporter r node) (zip (map int [0..<length nodes]) nodes))"
    by (rule new_reporters_agree)
  then show ?case by (auto simp: new_reporter_def sections_of_rank_def)
next
  case (report hist rs turn rs' reports)
  let ?inputs = "zip rs turn"
  obtain ks ss where IH: "length rs = length nodes" "agreed ks ss rs"
    "\<And>q. q < length nodes \<Longrightarrow> rp_min_section_times (rs ! q) = fold update_min_times (sections_of_rank hist q) []"
    using report by auto
  have l: "length turn = length rs" "length ?inputs = length nodes" using IH(1) report.hyps(2) by simp_all
  have ok: "inputs_ok ?inputs"
    using report.prems l(1) IH(1) assms(3) by (intro zip_inputs_ok) auto
  obtain ks' ss' rs2 p where g: "generate_reports cfg ?inputs = Inr (rs2, Some p # replicate (length ?inputs - 1) None)"
    "agreed (ks @ ks') (ss @ ss') rs2" "map rp_node_name rs2 = map (rp_node_name \<circ> fst) ?inputs"
    "\<forall>q < length ?inputs. rp_min_section_times (rs2 ! q)
        = update_min_times (sections_in ?inputs ! q) (rp_min_section_times (fst (?inputs ! q)))"
    using generate_reports_of [OF ok _ assms(4,5), unfolded zip_parts(1) [OF l(1)] eqTrueI [OF assms(6)] if_True, OF IH(2)]
    by (elim exE conjE) (rule that; blast)
  have "rs' = rs2" using g(1) report.hyps(3) by simp
  moreover have "length rs2 = length nodes" using g(3) l by (metis length_map)
  moreover have "rp_min_section_times (rs2 ! q) = fold update_min_times (sections_of_rank (hist @ [turn]) q) []"
    if "q < length nodes" for q
    using g(4) that l IH(1,3) zip_parts(2) [OF l(1)] by (simp add: sections_of_rank_def)
  ultimately show ?case using g(2) by blast
qed

lemma reported_lengths: "reported cfg nodes hist rs \<Longrightarrow> list_all (\<lambda>turn. length turn = length nodes) hist"
  by (induction rule: reported.induct) simp_all

lemma medians_seen_positive: "list_all medians_ok ds \<Longrightarrow> x \<in> set (medians_seen ds k) \<Longrightarrow> 0 < x"
  by (auto simp: medians_seen_def list_all_iff intro: medians_pos)

text \<open>
  C30: Individual scores compare with the rank's own past. After any history of reports of a group,
  the next report has, for every rank and every section it ran, the best median the rank has shown
  for the section in any report so far, this one included, divided by its present median: 1 when it
  has never been faster, and above 0 always.
\<close>

theorem individual_scores_use_the_history:
  assumes "reported cfg nodes hist rs" and "list_all turn_ok hist" and "turn_ok turn" and "length turn = length nodes"
    and "sc_gather_on_rank0 cfg" and "sc_relative cfg" and "sc_individual cfg"
    and "q < length nodes" and "map_of (fst (turn ! q)) s = Some y"
  shows "\<exists>rs' p scores x. generate_reports cfg (zip rs turn) = Inr (rs', Some p # replicate (length nodes - 1) None)
    \<and> map_of (re_section_individual p) s = Some scores \<and> map_of scores (int q) = Some (Some x)
    \<and> x = Min (set (medians_seen (sections_of_rank (hist @ [turn]) q) s)) / st_med y \<and> 0 < x \<and> x \<le> 1"
proof -
  let ?inputs = "zip rs turn" and ?ds = "sections_of_rank (hist @ [turn]) q"
  have nodes: "nodes \<noteq> []" using assms(8) by auto
  obtain ks ss where r: "length rs = length nodes" "agreed ks ss rs"
    "rp_min_section_times (rs ! q) = fold update_min_times (sections_of_rank hist q) []"
    using reported_agree [OF assms(1,2) nodes assms(5-7)] assms(8) by auto
  have l: "length turn = length rs" using r(1) assms(4) by simp
  have "rs \<noteq> []" using r(1) nodes by auto
  then have ok: "inputs_ok ?inputs" by (rule zip_inputs_ok [OF assms(3) l])
  have q: "q < length ?inputs" "sections_in ?inputs ! q = fst (turn ! q)" "fst (?inputs ! q) = rs ! q"
    using assms(8) r(1) l zip_parts(2) [OF l] by simp_all
  obtain ks' ss' rs' p where g: "generate_reports cfg ?inputs = Inr (rs', Some p # replicate (length ?inputs - 1) None)"
    "rp_min_section_times (rs' ! q) = update_min_times (sections_in ?inputs ! q) (rp_min_section_times (fst (?inputs ! q)))"
    "re_section_individual p = sections_by_rank (ss @ ss') (\<lambda>q. past_score (rs' ! q) (sections_in ?inputs ! q)) (length ?inputs)"
    "fst ` set (sections_in ?inputs ! q) \<subseteq> set (ss @ ss')"
    using generate_reports_of [OF ok _ assms(5,6), unfolded zip_parts(1) [OF l] eqTrueI [OF assms(7)] if_True, OF r(2)] q(1)
    by (elim exE conjE) (rule that; blast)
  have "medians_ok (fst (turn ! q))" if "turn_ok turn" "length turn = length nodes" for turn
    using that assms(8) by (auto simp: turn_ok_def list_all_length case_prod_unfold)
  then have ds: "list_all medians_ok ?ds"
    using assms(2-4) reported_lengths [OF assms(1)] by (auto simp: sections_of_rank_def list_all_iff)
  have times: "rp_min_section_times (rs' ! q) = fold update_min_times ?ds []"
    using g(2) q r(3) by (simp add: sections_of_rank_def)
  have y: "st_med y \<in> set (medians_seen ?ds s)"
    using assms(9) by (auto simp: medians_seen_def sections_of_rank_def)
  let ?best = "Min (set (medians_seen ?ds s))"
  have "?best \<in> set (medians_seen ?ds s)" using y by (intro Min_in) auto
  then have best: "0 < ?best" "?best \<le> st_med y" "0 < st_med y"
    using medians_seen_positive [OF ds] y by auto
  have "past_score (rs' ! q) (sections_in ?inputs ! q) s = Some (?best / st_med y)"
    using assms(9) q(2) y by (auto simp: past_score_def times min_times_of_history [OF ds])
  moreover have "s \<in> set (ss @ ss')" using g(4) assms(9) q(2) by (metis domI dom_map_of_conv_image_fst subsetD)
  moreover have "0 < length ?inputs" using q(1) by linarith
  ultimately have "map_of (re_section_individual p) s = Some (by_rank (\<lambda>q. past_score (rs' ! q) (sections_in ?inputs ! q) s) (length ?inputs))"
    "map_of (by_rank (\<lambda>q. past_score (rs' ! q) (sections_in ?inputs ! q) s) (length ?inputs)) (int q) = Some (Some (?best / st_med y))"
    unfolding g(3) using sections_by_rank_at by_rank_at [OF q(1)] by simp_all
  then show ?thesis using g(1) best r(1) l by (auto simp: divide_le_eq)
qed

section \<open>All ranks report in the same iterations\<close>

text \<open>The trackers of n ranks after k calls of \<open>iter_increase\<close> on every rank, with any clocks.\<close>

inductive iterated :: "nat \<Rightarrow> real \<Rightarrow> int \<Rightarrow> nat \<Rightarrow> interval_tracker list \<Rightarrow> bool"
  for n :: nat and time_interval :: real and profiling_interval :: int where
  start: "iterated n time_interval profiling_interval 0 (replicate n (new_interval_tracker time_interval profiling_interval))"
| iteration: "iterated n time_interval profiling_interval k ts \<Longrightarrow> length clocks = n \<Longrightarrow>
    iter_increase clocks ts = Inr ts' \<Longrightarrow> iterated n time_interval profiling_interval (k + 1) ts'"

definition measuring :: "int \<Rightarrow> nat \<Rightarrow> interval_tracker \<Rightarrow> bool" where
  "measuring p k t \<longleftrightarrow> it_current_iter t = k \<and> it_profiling_interval t = p \<and> it_iter_interval t = None
     \<and> (it_prev_start t = None \<longleftrightarrow> k = 0) \<and> length (it_step_times t) = k - 1"

definition settled :: "int \<Rightarrow> int \<Rightarrow> nat \<Rightarrow> interval_tracker \<Rightarrow> bool" where
  "settled p m k t \<longleftrightarrow> it_current_iter t = k \<and> it_profiling_interval t = p \<and> it_iter_interval t = Some m"

definition in_step :: "nat \<Rightarrow> int \<Rightarrow> nat \<Rightarrow> interval_tracker list \<Rightarrow> bool" where
  "in_step n p k ts \<longleftrightarrow> length ts = n
     \<and> (k \<le> estimation_iters \<and> list_all (measuring p k) ts
        \<or> estimation_iters < k \<and> (\<exists>m \<ge> p. list_all (settled p m k) ts))"

lemma begin_measuring:
  assumes "measuring p k t" and "k \<le> estimation_iters"
  shows "must_gather (iter_begin now t) \<longleftrightarrow> k = estimation_iters"
    and "measuring p (k + 1) (iter_end after t (iter_begin now t))"
    and "it_current_iter (iter_begin now t) = k + 1" "it_profiling_interval (iter_begin now t) = p" "it_iter_interval t = None"
  using assms
  by (auto simp: measuring_def iter_begin_def must_gather_def iter_end_def estimation_iters_def Let_def split: option.splits)

lemma begin_settled:
  assumes "settled p m k t"
  shows "\<not> must_gather (iter_begin now t)" and "settled p m (k + 1) (iter_end after t (iter_begin now t))"
  using assms by (auto simp: settled_def iter_begin_def must_gather_def iter_end_def Let_def)

lemma trunc_at_least: "p \<le> trunc (max x (real_of_int p))" if "0 \<le> p"
proof -
  have "real_of_int p \<le> max x (real_of_int p)" "0 \<le> max x (real_of_int p)" using that by auto
  then show ?thesis by (simp add: trunc_def le_floor_iff)
qed

lemma increase_cases:
  assumes "in_step n p k ts" and "length clocks = n" and "0 \<le> p"
  shows "iter_increase clocks ts \<noteq> Inl CollectiveMismatch \<and> (\<forall>ts'. iter_increase clocks ts = Inr ts' \<longrightarrow> in_step n p (k + 1) ts')"
proof -
  let ?begun = "map (\<lambda>((now, _), t). iter_begin now t) (zip clocks ts)"
  let ?finish = "\<lambda>ts'. map (\<lambda>((_, now), before, t). iter_end now before t) (zip clocks (zip ts ts'))"
  have l: "length ts = n" "length ?begun = n" using assms(1,2) by (simp_all add: in_step_def)
  have at: "?begun ! i = iter_begin (fst (clocks ! i)) (ts ! i)" if "i < n" for i
    using that l(1) assms(2) by (simp add: case_prod_unfold)
  have fin: "?finish ts' ! i = iter_end (snd (clocks ! i)) (ts ! i) (ts' ! i)" if "i < n" "length ts' = n" for i ts'
    using that l(1) assms(2) by (simp add: case_prod_unfold)
  have lf: "length (?finish ts') = n" if "length ts' = n" for ts' using that l(1) assms(2) by simp
  have inc: "iter_increase clocks ts = (if list_all (\<lambda>t. \<not> must_gather t) ?begun then Inr (?finish ?begun)
      else if list_all must_gather ?begun
        then res_bind (res_map rank_interval ?begun) (\<lambda>xs. Inr (?finish (map (set_interval (Max (set xs))) ?begun)))
        else Inl CollectiveMismatch)"
    by (simp add: iter_increase_def Let_def)
  consider (measure) "k < estimation_iters" "list_all (measuring p k) ts" | (gather) "k = estimation_iters" "list_all (measuring p k) ts"
    | (steady) m where "estimation_iters < k" "p \<le> m" "list_all (settled p m k) ts"
    using assms(1) by (force simp: in_step_def)
  then show ?thesis
  proof cases
    case measure
    then have m: "measuring p k (ts ! i)" if "i < n" for i using that l(1) by (simp add: list_all_length)
    have "list_all (\<lambda>t. \<not> must_gather t) ?begun"
      unfolding list_all_length l(2) using begin_measuring(1) [OF m] at measure(1) by auto
    moreover have "list_all (measuring p (k + 1)) (?finish ?begun)"
      unfolding list_all_length lf [OF l(2)] using begin_measuring(2) [OF m] fin [OF _ l(2)] at measure(1) by auto
    ultimately show ?thesis unfolding inc using measure(1) lf [OF l(2)] by (simp add: in_step_def)
  next
    case gather
    then have m: "measuring p k (ts ! i)" if "i < n" for i using that l(1) by (simp add: list_all_length)
    have g: "list_all must_gather ?begun"
      unfolding list_all_length l(2) using begin_measuring(1) [OF m] at gather(1) by auto
    show ?thesis
    proof (cases "n = 0")
      case True
      then show ?thesis unfolding inc using l gather(1) by (auto simp: in_step_def)
    next
      case False
      then have "\<not> list_all (\<lambda>t. \<not> must_gather t) ?begun" using g l(2) by (cases ?begun) auto
      then have inc: "iter_increase clocks ts
          = res_bind (res_map rank_interval ?begun) (\<lambda>xs. Inr (?finish (map (set_interval (Max (set xs))) ?begun)))"
        using inc g by simp
      have e: "x = IntOverflow" if "res_map rank_interval xs = Inl x" for xs x
        using that by (induction xs) (auto simp: rank_interval_def res_bind_def split: if_splits sum.splits)
      have "in_step n p (k + 1) (?finish (map (set_interval x) ?begun))" for x
      proof -
        let ?ts = "map (set_interval x) ?begun" and ?m = "trunc (max x (real_of_int p))"
        have l': "length ?ts = n" using l(2) by simp
        have "settled p ?m (k + 1) (?finish ?ts ! i)" if "i < n" for i
          unfolding fin [OF that l'] using begin_measuring(3,4) [OF m [OF that], of "fst (clocks ! i)"] at [OF that] that l(2) gather(1)
          by (simp add: settled_def iter_end_def set_interval_def)
        then have "list_all (settled p ?m (k + 1)) (?finish ?ts)" using lf [OF l'] by (simp add: list_all_length)
        then show ?thesis
          using lf [OF l'] gather(1) trunc_at_least [OF assms(3), of x] unfolding in_step_def by auto
      qed
      then show ?thesis unfolding inc using e by (cases "res_map rank_interval ?begun") auto
    qed
  next
    case steady
    then have s: "settled p m k (ts ! i)" if "i < n" for i using that l(1) by (simp add: list_all_length)
    have "list_all (\<lambda>t. \<not> must_gather t) ?begun"
      unfolding list_all_length l(2) using begin_settled(1) [OF s] at by auto
    moreover have "list_all (settled p m (k + 1)) (?finish ?begun)"
      unfolding list_all_length lf [OF l(2)] using begin_settled(2) [OF s] fin [OF _ l(2)] at by auto
    ultimately show ?thesis unfolding inc using steady(1,2) lf [OF l(2)] by (auto simp: in_step_def)
  qed
qed

lemma iterated_in_step: "iterated n time_interval p k ts \<Longrightarrow> 0 \<le> p \<Longrightarrow> in_step n p k ts"
proof (induction rule: iterated.induct)
  case start
  show ?case by (simp add: in_step_def list_all_length measuring_def new_interval_tracker_def)
next
  case (iteration k ts clocks ts')
  then show ?case using increase_cases [of n p k ts clocks] by simp
qed

text \<open>
  C32: All ranks report in the same iterations. However different the times of their steps are, the
  ranks never enter the reduction of the interval apart, all of them answer alike and without an
  error whether the interval has elapsed, nobody reports during the first 16 steps, and afterwards
  an interval is at least the profiling interval.
\<close>

theorem ranks_report_together:
  assumes "iterated n time_interval profiling_interval k ts" and "1 \<le> profiling_interval" and "length clocks = n"
  shows "iter_increase clocks ts \<noteq> Inl CollectiveMismatch
    \<and> (\<exists>elapsed. list_all (\<lambda>t. is_interval_elapsed t = Inr elapsed) ts \<and> (elapsed \<longrightarrow> estimation_iters < k))
    \<and> (estimation_iters < k \<longrightarrow> (\<exists>m \<ge> profiling_interval. list_all (\<lambda>t. it_iter_interval t = Some m) ts))"
proof -
  have s: "in_step n profiling_interval k ts" using iterated_in_step [OF assms(1)] assms(2) by simp
  have c: "iter_increase clocks ts \<noteq> Inl CollectiveMismatch" using increase_cases [OF s assms(3)] assms(2) by simp
  show ?thesis
  proof (cases "k \<le> estimation_iters")
    case True
    then have "list_all (\<lambda>t. is_interval_elapsed t = Inr False) ts"
      using s by (auto simp: in_step_def list_all_iff measuring_def is_interval_elapsed_def)
    then show ?thesis using c True by auto
  next
    case False
    then obtain m where m: "profiling_interval \<le> m" "list_all (settled profiling_interval m k) ts"
      using s by (auto simp: in_step_def)
    then have "list_all (\<lambda>t. is_interval_elapsed t = Inr (int k mod m = 0)) ts" "list_all (\<lambda>t. it_iter_interval t = Some m) ts"
      using assms(2) by (auto simp: list_all_iff settled_def is_interval_elapsed_def)
    then show ?thesis using c False m(1) by (intro conjI exI [of _ "int k mod m = 0"]) auto
  qed
qed

section \<open>Timed sections\<close>

text \<open>The times of the entries that are profiled: every entry whose number the interval divides, unless it raised.\<close>

definition profiled_times :: "nat \<Rightarrow> real option list \<Rightarrow> real list" where
  "profiled_times interval entries =
     concat (map (\<lambda>i. case entries ! i of None \<Rightarrow> [] | Some t \<Rightarrow> [t]) (filter (\<lambda>i. i mod interval = 0) [0..<length entries]))"

lemma profiled_times_snoc:
  "profiled_times interval (entries @ [e]) = profiled_times interval entries
    @ (if length entries mod interval = 0 then (case e of None \<Rightarrow> [] | Some t \<Rightarrow> [t]) else [])"
proof -
  have "map (\<lambda>i. case (entries @ [e]) ! i of None \<Rightarrow> [] | Some t \<Rightarrow> [t]) (filter (\<lambda>i. i mod interval = 0) [0..<length entries])
      = map (\<lambda>i. case entries ! i of None \<Rightarrow> [] | Some t \<Rightarrow> [t]) (filter (\<lambda>i. i mod interval = 0) [0..<length entries])"
    by (rule map_cong) (simp_all add: nth_append)
  then show ?thesis by (simp only: profiled_times_def length_append_singleton upt_Suc_append le0 filter_append map_append concat_append) simp
qed

definition last_of :: "nat \<Rightarrow> 'a list \<Rightarrow> 'a list" where
  "last_of n xs = drop (length xs - n) xs"

lemma append_last_of: "0 < n \<Longrightarrow> append_maxlen n x (last_of n xs) = last_of n (xs @ [x])"
  by (cases "length xs < n") (simp_all add: append_maxlen_def last_of_def Let_def Suc_diff_le)

definition run_sections :: "nat \<Rightarrow> string \<Rightarrow> string \<Rightarrow> real option list \<Rightarrow> (string, custom_section) dict \<Rightarrow> (string, custom_section) dict" where
  "run_sections interval name location entries sections =
     fold (\<lambda>e sections. snd (detection_section interval name location e sections)) entries sections"

lemma run_sections_snoc:
  "run_sections interval name location (entries @ [e]) sections
    = snd (detection_section interval name location e (run_sections interval name location entries sections))"
  by (simp add: run_sections_def)

lemma section_after:
  assumes "0 < interval" and "map_of sections name = None" and "entries \<noteq> []"
  shows "map_of (run_sections interval name location entries sections) name = Some \<lparr>cs_name = name, cs_location = location,
      cs_entries = length entries, cs_elapsed = last_of max_elapseds_len (profiled_times interval entries)\<rparr>"
  using assms(3)
proof (induction entries rule: rev_induct)
  case (snoc e entries)
  let ?now = "run_sections interval name location entries sections"
  let ?c = "case map_of ?now name of Some c \<Rightarrow> c
     | None \<Rightarrow> \<lparr>cs_name = name, cs_location = location, cs_entries = 0, cs_elapsed = []\<rparr>"
  have c: "?c = \<lparr>cs_name = name, cs_location = location, cs_entries = length entries,
      cs_elapsed = last_of max_elapseds_len (profiled_times interval entries)\<rparr>"
    using snoc assms(2) by (cases "entries = []") (auto simp: run_sections_def last_of_def profiled_times_def)
  have "0 < max_elapseds_len" by (simp add: max_elapseds_len_def)
  note append_last_of [OF this]
  then show ?case
    using assms(1) unfolding run_sections_snoc detection_section_def c Let_def
    by (cases e) (auto simp: profiled_times_snoc update_conv')
qed simp

lemma lower_median_in: "xs \<noteq> [] \<Longrightarrow> lower_median xs \<in> set xs"
proof -
  assume "xs \<noteq> []"
  then have "0 < length xs" by simp
  moreover have "(length xs - 1) div 2 \<le> length xs - 1" by (rule div_le_dividend)
  ultimately have "(length xs - 1) div 2 < length (sort xs)" unfolding length_sort by linarith
  then show ?thesis unfolding lower_median_def using nth_mem [of "(length xs - 1) div 2" "sort xs"] by simp
qed

lemma summaries_ok:
  assumes "dict_ok sections" and "list_all (\<lambda>(name, c). list_all (\<lambda>t. 0 < t) (cs_elapsed c)) sections"
  shows "medians_ok (get_section_summaries sections)"
proof -
  have "map fst (get_section_summaries sections) = map fst (filter (\<lambda>(name, c). cs_elapsed c \<noteq> []) sections)"
    by (simp add: get_section_summaries_def case_prod_unfold comp_def)
  moreover have "distinct (map fst (filter P sections))" for P
    using assms(1) by (simp add: dict_ok_def distinct_map_filter)
  moreover have "list_all (\<lambda>(k, y). 0 < st_med y) (get_section_summaries sections)"
    using assms(2) lower_median_in by (fastforce simp: get_section_summaries_def list_all_iff times_summary_def)
  ultimately show ?thesis by (simp add: medians_ok_def)
qed

text \<open>
  A section keeps the times of every profiled entry, up to the last 8192. However a section is
  entered, with whatever of its bodies raising, it has then counted every entry, it holds the times
  of the entries whose number the profiling interval divides and that did not raise, the oldest
  dropped beyond the limit, and its summary has their lower median, or there is none if there are
  no times.
\<close>

theorem section_keeps_profiled_times:
  assumes "0 < interval" and "map_of sections name = None" and "entries \<noteq> []"
  shows "\<exists>c. map_of (run_sections interval name location entries sections) name = Some c
    \<and> cs_entries c = length entries
    \<and> cs_elapsed c = last_of 8192 (profiled_times interval entries)
    \<and> map_of (get_section_summaries [(name, c)]) name =
        (if profiled_times interval entries = [] then None
         else Some (times_summary (last_of 8192 (profiled_times interval entries))))"
proof -
  have "last_of 8192 xs = [] \<longleftrightarrow> xs = []" for xs :: "real list"
    by (cases xs) (simp_all add: last_of_def del: drop_eq_Nil, simp add: drop_eq_Nil)
  then show ?thesis
    using section_after [OF assms, of location] by (simp add: max_elapseds_len_def get_section_summaries_def)
qed

section \<open>Wrapped callables\<close>

lemma wrapped_state:
  assumes "distinct ids"
  shows "fold wrap_callable ids c = \<lparr>ca_original_callables = fold (\<lambda>i. AList.update i (ca_attributes c i)) ids (ca_original_callables c),
      ca_attributes = (\<lambda>i. if i \<in> set ids then Wrapper i (ca_attributes c i) else ca_attributes c i)\<rparr>"
  using assms
proof (induction ids arbitrary: c)
  case (Cons i ids)
  have "fold (\<lambda>j. AList.update j (ca_attributes (wrap_callable i c) j)) ids d = fold (\<lambda>j. AList.update j (ca_attributes c j)) ids d" for d
    using Cons.prems by (intro fold_cong) (auto simp: wrap_callable_def)
  then show ?case using Cons by (auto simp: fun_eq_iff) (auto simp: wrap_callable_def)
qed simp

lemma restored_attributes:
  "fold (\<lambda>(i, f) attributes. attributes(i := f)) (map (\<lambda>i. (i, g i)) ids) h = (\<lambda>i. if i \<in> set ids then g i else h i)"
  by (induction ids arbitrary: h) (auto simp: fun_eq_iff)

text \<open>
  Wrapping is undone. When different callables were wrapped by one call, restoring puts every
  original back, and until then every wrapped one is its original in a section of its own name.
\<close>

theorem wrapped_callables_are_restored:
  assumes "distinct ids"
  shows "ca_attributes (restore_original_callables (wrap_callables ids c)) = ca_attributes c
    \<and> ca_attributes (wrap_callables ids c) = (\<lambda>i. if i \<in> set ids then Wrapper i (ca_attributes c i) else ca_attributes c i)"
proof -
  have "fold (\<lambda>i. AList.update i (ca_attributes c i)) ids [] = map (\<lambda>i. (i, ca_attributes c i)) ids"
    using fold_update_by_key [of "\<lambda>i. i" ids "[]" "ca_attributes c"] assms by simp
  then show ?thesis
    by (simp add: wrap_callables_def wrapped_state [OF assms] restore_original_callables_def restored_attributes fun_eq_iff)
qed

text \<open>
  A second call forgets what the first one wrapped. Restoring, which shutting down the detector
  does, then leaves the first callable wrapped, and a wrapper refuses to run once the detector is
  shut down.
\<close>

lemma second_wrapping_is_not_undone:
  assumes "i \<noteq> j"
  shows "ca_attributes (restore_original_callables (wrap_callables [j] (wrap_callables [i] c))) i = Wrapper i (ca_attributes c i)"
  using assms by (simp add: wrap_callables_def wrap_callable_def restore_original_callables_def)

section \<open>Examples\<close>

text \<open>Two ranks, of which the second takes twice as long for the section; their kernels take the same time.\<close>

definition timed :: "real \<Rightarrow> summary" where
  "timed m = \<lparr>st_min = m, st_max = m, st_med = m, st_avg = m, st_std = None, st_num = 1\<rparr>"

definition demo_inputs :: "(reporter \<times> (string, summary) dict \<times> (string, summary) dict) list" where
  "demo_inputs = [(new_reporter 0 ''a'', [(''fwd'', timed 1)], [(''mm'', timed 2)]),
                  (new_reporter 1 ''b'', [(''fwd'', timed 2)], [(''mm'', timed 2)])]"

definition demo_config :: score_config where
  "demo_config = \<lparr>sc_relative = True, sc_individual = True, sc_gather_on_rank0 = True\<rparr>"

lemma demo_kernels [simp]: "filter_out_nccl_kernels [(''mm'', timed 2)] = [(''mm'', timed 2)]"
proof -
  have "\<not> sublist ''ncclDev'' ''mm''" by (auto dest: sublist_length_le)
  then show ?thesis by (simp add: filter_out_nccl_kernels_def)
qed

lemma timed_ok [simp]: "0 < m \<Longrightarrow> medians_ok [(k, timed m)]" "0 < m \<Longrightarrow> kernels_ok [(k, timed m)]" "st_med (timed m) = m"
  by (simp_all add: medians_ok_def kernels_ok_def timed_def)

lemma demo_ok: "inputs_ok demo_inputs" "agreed [] [] (map fst demo_inputs)"
  using new_reporters_agree [of "[(0, ''a''), (1, ''b'')]"] by (simp_all add: inputs_ok_def demo_inputs_def)

lemma demo_sections: "sections_in demo_inputs = [[(''fwd'', timed 1)], [(''fwd'', timed 2)]]"
  by (simp add: sections_in_def demo_inputs_def)

lemma demo_config_simps [simp]: "sc_relative demo_config" "sc_individual demo_config" "sc_gather_on_rank0 demo_config"
  by (simp_all add: demo_config_def)

lemma demo_best: "best_of [[(''fwd'', timed 1)], [(''fwd'', timed 2)]] ''fwd'' = Some 1"
  by (simp add: best_of_def)

theorem slow_ranks_are_identified_witness:
  "\<exists>rs p g. generate_reports demo_config demo_inputs = Inr (rs, [Some p, None])
    \<and> identify_stragglers (3/4) (3/4) (3/4) (3/4) p = Inr g
    \<and> map_of (sg_sections_relative g) ''fwd'' = Some {(1, ''b'')}"
proof -
  have "{(int q, rp_node_name (fst (demo_inputs ! q))) | q. q < length demo_inputs \<and>
      (\<exists>b y. best_of (sections_in demo_inputs) ''fwd'' = Some b \<and> map_of (sections_in demo_inputs ! q) ''fwd'' = Some y
         \<and> b < 3/4 * st_med y)} = {(1, ''b'')}" (is "?slow = _")
  proof -
    have iff: "(\<exists>b y. best_of (sections_in demo_inputs) ''fwd'' = Some b \<and> map_of (sections_in demo_inputs ! q) ''fwd'' = Some y
        \<and> b < 3/4 * st_med y) \<longleftrightarrow> q = 1" if "q < 2" for q
    proof -
      have "q = 0 \<or> q = 1" using that by linarith
      then show ?thesis by (auto simp: demo_sections demo_best)
    qed
    have "length demo_inputs = 2" by (simp add: demo_inputs_def)
    then have "?slow = {(int q, rp_node_name (fst (demo_inputs ! q))) | q. q < 2 \<and> q = 1}"
      using iff by (intro Collect_cong ex_cong1) auto
    also have "\<dots> = {(1, ''b'')}" by (auto simp: demo_inputs_def new_reporter_def)
    finally show ?thesis .
  qed
  moreover obtain rs p g where "generate_reports demo_config demo_inputs = Inr (rs, Some p # replicate (length demo_inputs - 1) None)"
    "identify_stragglers (3/4) (3/4) (3/4) (3/4) p = Inr g"
    "map_of (sg_sections_relative g) ''fwd'' = (let slow = ?slow in if slow = {} then None else Some slow)"
    using slow_ranks_are_identified [OF demo_ok demo_config_simps(3,1), of "3/4" "3/4" "3/4" "3/4"]
    by (elim exE conjE) (rule that, assumption, assumption, erule spec)
  moreover have "length demo_inputs - 1 = 1" by (simp add: demo_inputs_def)
  ultimately have "generate_reports demo_config demo_inputs = Inr (rs, [Some p, None])"
    "map_of (sg_sections_relative g) ''fwd'' = Some {(1, ''b'')}" "identify_stragglers (3/4) (3/4) (3/4) (3/4) p = Inr g"
    by simp_all
  then show ?thesis by blast
qed


theorem ranks_agree_on_ids_witness:
  "\<exists>ks' ss'. gather_and_assign_ids [(mapper_of [''k''] [], [''k'', ''m''], [''s'']), (mapper_of [''k''] [], [''m''], [''t''])]
    = replicate 2 (mapper_of ([''k''] @ ks') ss') \<and> {''s'', ''t''} \<subseteq> set ss'"
  using ranks_agree_on_ids [of "[''k'']" "[]" "[([''k'', ''m''], [''s'']), ([''m''], [''t''])]"]
  by (auto simp: numeral_2_eq_2)

text \<open>The second report of the two ranks; the second rank was faster in the first.\<close>

theorem individual_scores_use_the_history_witness:
  "\<exists>rs rs' p scores. generate_reports demo_config
      (zip rs [([(''fwd'', timed 1)], [(''mm'', timed 2)]), ([(''fwd'', timed 4)], [(''mm'', timed 2)])]) = Inr (rs', [Some p, None])
    \<and> map_of (re_section_individual p) ''fwd'' = Some scores \<and> map_of scores 1 = Some (Some (1/2))"
proof -
  let ?first = "[([(''fwd'', timed 1)], [(''mm'', timed 2)]), ([(''fwd'', timed 2)], [(''mm'', timed 2)])]"
  let ?next = "[([(''fwd'', timed 1)], [(''mm'', timed 2)]), ([(''fwd'', timed 4)], [(''mm'', timed 2)])]"
  have z: "zip (map (\<lambda>(r, node). new_reporter r node) (zip (map int [0..<length [''a'', ''b'']]) [''a'', ''b''])) ?first = demo_inputs"
    by (simp add: demo_inputs_def)
  obtain rs reports where "generate_reports demo_config demo_inputs = Inr (rs, reports)"
    using generate_reports_of [OF demo_ok, of demo_config] by auto
  then have r: "reported demo_config [''a'', ''b''] ([] @ [?first]) rs"
    using z by (intro reported.report [OF reported.start]) simp_all
  have "map_of (fst (?next ! 1)) ''fwd'' = Some (timed 4)" by simp
  from individual_scores_use_the_history [OF r _ _ _ _ _ _ _ this]
  obtain rs' p scores x where "generate_reports demo_config (zip rs ?next) = Inr (rs', [Some p, None])"
    "map_of (re_section_individual p) ''fwd'' = Some scores" "map_of scores 1 = Some (Some x)" "x = 1/2"
    by (auto simp: turn_ok_def medians_seen_def sections_of_rank_def)
  then show ?thesis by blast
qed

definition demo_trackers :: "interval_tracker list" where
  "demo_trackers = replicate 2 (new_interval_tracker 60 1)"

theorem ranks_report_together_witness:
  "iter_increase [(0, 1), (0, 3)] demo_trackers \<noteq> Inl CollectiveMismatch
    \<and> (\<exists>elapsed. list_all (\<lambda>t. is_interval_elapsed t = Inr elapsed) demo_trackers)"
  using ranks_report_together [OF iterated.start, of 1 "[(0, 1), (0, 3)]" 2 60] by (auto simp: demo_trackers_def)

theorem section_keeps_profiled_times_witness:
  "\<exists>c. map_of (run_sections 2 ''fwd'' ''train.py:7'' [Some 1, Some 5, Some 3] []) ''fwd'' = Some c
    \<and> cs_elapsed c = [1, 3]"
  using section_keeps_profiled_times [of 2 "[]" "''fwd''" "[Some 1, Some 5, Some 3]" "''train.py:7''"]
  by (auto simp: profiled_times_def last_of_def upt_rec)

theorem wrapped_callables_are_restored_witness:
  "ca_attributes (restore_original_callables (wrap_callables [''Model.forward'', ''Model.backward'']
      \<lparr>ca_original_callables = [], ca_attributes = Original\<rparr>)) = Original"
  using wrapped_callables_are_restored [of "[''Model.forward'', ''Model.backward'']" "\<lparr>ca_original_callables = [], ca_attributes = Original\<rparr>"]
  by simp

end
