(* ===== verification/Spec2Isabelle.thy ===== *)
theory Spec2Isabelle
  imports RankMonitor ProgressTracker InprocTreeProps RestartPolicy RdzvProtocolProps LocalCkpt CkptAsync CoalescerProps InprocWrap LauncherProps StragglerProps
begin

text \<open>
  Verification development of the NVIDIA resiliency extension (\<open>src/nvidia_resiliency_ext\<close>), a
  library that keeps long training jobs alive: it detects hung or dead ranks, restarts them in the
  same or in new processes, checkpoints their state next to the accelerators, and decides whether
  another restart is worth its cost.

  The program's parts and where they are modelled.

  \<^item> Fault tolerance of worker processes. A monitor process per rank
    (\<open>fault_tolerance/rank_monitor_server.py\<close>) receives heartbeats and sections over a socket,
    learns timeouts (\<open>timeouts_calc.py\<close>), kills a silent rank and follows the restart in a state
    machine (\<open>rank_monitor_state_machine.py\<close>); \<open>progress_tracker.py\<close> counts restarts without
    progress. Theories \<open>RankMonitorSM\<close>, \<open>FtTimeouts\<close>, \<open>RankMonitor\<close>, \<open>ProgressTracker\<close>.

  \<^item> Rendezvous of the nodes (\<open>fault_tolerance/ft_rendezvous_barrier.py\<close>). Nodes join a round by
    writing slots of a store, the host closes it and publishes group ranks, the nodes read them.
    \<open>RdzvRanks\<close> has the assignment of ranks (replacement groups, segments, last call), with its
    properties in \<open>RdzvRanksProps\<close> and \<open>RdzvSegments\<close>; \<open>RdzvStore\<close> the packed values and the store
    operations, \<open>RdzvStoreProps\<close> their properties; \<open>RdzvProtocol\<close> the steps of a node and its life
    cycle as a step relation, \<open>RdzvProtocolProps\<close> its invariants.

  \<^item> The launcher of a node (\<open>fault_tolerance/launcher.py\<close>). Its elastic agent watches the workers,
    restarts them while the budget and the progress tracker allow it, joins the restarts and the
    stops of others through the rendezvous, and ends with an exit code. \<open>Launcher\<close> has the turns of
    its loop and a step relation of one launcher among others, \<open>LauncherProps\<close> the properties.

  \<^item> In-process restart: the assignment of ranks to surviving processes
    (\<open>inprocess/rank_assignment.py\<close>, \<open>state.py\<close>, \<open>compose.py\<close>). \<open>InprocRanks\<close> has the composable
    assignments and filters; \<open>InprocTree\<close>, \<open>InprocTreeInv\<close>, \<open>InprocTreeCall\<close>, \<open>InprocTreeInit\<close> the
    tree with reserves, its invariant, a call and its first activation; \<open>InprocTreeProps\<close> the
    properties.

  \<^item> In-process restart: the protocol of an iteration. Every rank runs the wrapped function in
    \<open>wrap.py\<close> (\<open>InprocWrap\<close>: the iterations of a call, its handlers, the state of the next
    iteration) and talks to the others through \<open>store.py\<close> (\<open>InprocStore\<close>: ranks and records as
    appended text; \<open>InprocBarrier\<close>: the barriers between store calls, and the end of an iteration as
    a step relation of all participants). \<open>monitor_process.py\<close> and \<open>sibling_monitor.py\<close> watch a rank
    and speak for it when it is gone (\<open>InprocMonitor\<close>). \<open>InprocStoreProps\<close> and \<open>InprocMonitorProps\<close>
    have the properties; the locales \<open>appendable_store\<close> and \<open>iteration_store\<close> are the contract of
    the store and of its prefixed stores.

  \<^item> The restart agent (\<open>attribution/restart_agent\<close>): \<open>RestartModels\<close> (\<open>models.py\<close>), \<open>AttemptStore\<close>
    (\<open>attempt_records.py\<close>), \<open>RestartHistory\<close> (\<open>l3/history.py\<close>), \<open>RestartPolicy\<close> (\<open>l4/policy.py\<close>).

  \<^item> The cache of log analyses (\<open>attribution/coalescing/coalescer.py\<close>): \<open>Coalescer\<close> has its operations and
    the requests of an event loop as a step relation, \<open>CoalescerProps\<close> the properties.

  \<^item> Local checkpoints (\<open>checkpointing/local\<close>): \<open>CkptGroups\<close> (\<open>replication/group_utils.py\<close>,
    \<open>strategies.py\<close>), \<open>CkptFiles\<close> (\<open>ckpt_managers/local_manager.py\<close>), \<open>LocalCkpt\<close>
    (\<open>base_manager.py\<close>).

  \<^item> Asynchronous checkpoint calls (\<open>checkpointing/async_ckpt/core.py\<close>): \<open>CkptAsync\<close> has the requests,
    the callers with their worker processes, and the queue of active calls, as a world of all ranks.

  \<^item> Straggler detection (\<open>attribution/straggler\<close>): \<open>Straggler\<close> has the timed sections
    (\<open>straggler.py\<close>), the ids of names (\<open>name_mapper.py\<close>), the scores and reports of all ranks
    (\<open>reporting.py\<close>) and the interval between reports (\<open>interval_tracker.py\<close>), \<open>StragglerProps\<close> the
    properties.

  How the model reads the code. A class is a record of its fields, an operation a function from
  the record and the arguments to the new record and the result, with \<open>Inl\<close> for an exception; a
  Python dictionary is an association list (\<open>NvrxPrelude\<close>), an unbounded integer an \<open>int\<close>, a time
  or a float a \<open>real\<close>, a text an ASCII string (\<open>PyText\<close>, \<open>PyJson\<close>). Time and what the outside
  returns are arguments. The c10d store is a record of functions with the laws \<open>store_laws\<close>, and
  the collectives of \<open>torch.distributed\<close> are the lists they return.

  What the lemmas show. The monitor: the machine only takes transitions of its table, the check
  never raises and kills exactly a late rank, learned timeouts cover what was observed. The
  rendezvous: a closed round numbers its participants once each, segments stay whole, values of an
  older round never replace newer ones, concurrent updates are not lost, loops end. The launcher: a
  run restarts within its budget, a job without progress is given up after exactly the configured
  cycles, a decision not to restart is final and reaches the other launchers of the round. The in-process
  tree: active ranks stay contiguous, branches below their minimum do not survive, and every rank
  computes its own outcome of a call. The in-process protocol: in every interleaving the survivors of
  an iteration read the same terminated ranks and start the next one as one world, the barrier loses
  no wake-up, a monitor kills exactly the late rank that does not wait for others and brings a dead
  one to both barriers, a call that raises has told the others, retries are bounded, and all values
  of the store keep their format; one caller breaks that of the termination barrier. The agent: the policy stops exactly on its conditions, and a
  job that fails in the same way is stopped in the end. The cache: one computation runs per file, all
  who wait get its result, and results are served while the file is unchanged. The checkpoints: after a save the loss of
  all but one member of every clique is survived, exchanges do not deadlock, and a directory is a
  map of shards whatever the order of its operations; an asynchronous save is finalized on every rank
  only when all ranks have written it. The stragglers: the ranks agree on ids and report together, and
  rank 0 names exactly the ranks that are slower than the best one, or than their own past, by more
  than the threshold. Properties that turned out false of the code
  are proved in the form that holds, and the difference is recorded as a finding.

  Bounds and fuel. The JSON reader has the length of its text as fuel, enough because every call
  consumes a character (\<open>loads_dumps\<close> needs no further condition). Loops with no bound of their own
  (\<open>evict_total\<close>, \<open>mark_unhealthy_loop\<close>, \<open>scan_rounds\<close>) are \<open>partial_function (option)\<close> and have
  termination theorems. Polling loops are single turns whose repetition is the step relation.
  Iteration numbers of checkpoint files have at most seven digits, as the code asserts.

  Not modelled: process management, sockets, threads and files around these parts (how the
  launcher starts and stops its workers, the monitor client, log collection, health probes, the thread that interrupts a wrapped function
  and the hooks of its users, whose exceptions are arguments of the model); tensors and their transport; the analysis of
  logs by regular expressions and language models; the services, callbacks and command lines. They
  are input and output, or rest on libraries whose code is not part of the repository.
\<close>

end
